(* ===== verification/Prelude.thy ===== *)
theory Prelude
  imports Main "HOL-Library.Word"
begin

text \<open>
  Shared by every theory of the development: the names of the fixed-width integers the
  sources use, results that may be a fault (\<open>fault + 'a\<close>, with \<open>bindE\<close> for "go on with the
  result unless it was a fault"), facts about finite maps and lists, a generic run of a
  partial step function, and two interfaces used by several components: a machine with an
  invariant, and a keyed registry.
\<close>

section \<open>Machine integers\<close>

type_synonym byte = "8 word"
type_synonym u16 = "16 word"
type_synonym u32 = "32 word"
type_synonym u64 = "64 word"

text \<open>A C \<open>int\<close> is kept as its 32 bits and read with \<open>sint\<close>.\<close>

type_synonym i32 = "32 word"

section \<open>Collections of facts\<close>

named_theorems fault_simps \<open>rewriting of results that may be faults\<close>
named_theorems frame_simps \<open>which fields an operation leaves alone\<close>

section \<open>Results that may be faults\<close>

definition bindE :: "'f + 'a \<Rightarrow> ('a \<Rightarrow> 'f + 'b) \<Rightarrow> 'f + 'b" where
  "bindE m k = (case m of Inl e \<Rightarrow> Inl e | Inr x \<Rightarrow> k x)"

lemma bindE_Inl [simp]: "bindE (Inl e) k = Inl e"
  by (simp add: bindE_def)

lemma bindE_Inr [simp]: "bindE (Inr x) k = k x"
  by (simp add: bindE_def)

lemma bindE_cong [fundef_cong]:
  "m = m' \<Longrightarrow> (\<And>x. m' = Inr x \<Longrightarrow> k x = k' x) \<Longrightarrow> bindE m k = bindE m' k'"
  by (cases m') auto

lemma bindE_eq_Inr [fault_simps]: "bindE m k = Inr y \<longleftrightarrow> (\<exists>x. m = Inr x \<and> k x = Inr y)"
  by (cases m) auto

lemma bindE_eq_Inl [fault_simps]:
  "bindE m k = Inl e \<longleftrightarrow> m = Inl e \<or> (\<exists>x. m = Inr x \<and> k x = Inl e)"
  by (cases m) auto

lemma bindE_assoc: "bindE (bindE m k) h = bindE m (\<lambda>x. bindE (k x) h)"
  by (cases m) auto

lemma bindE_InrE:
  assumes "bindE m k = Inr y"
  obtains x where "m = Inr x" and "k x = Inr y"
  using assms by (auto simp: fault_simps)

text \<open>A value read back out of an optional one.\<close>

definition deref :: "'f \<Rightarrow> ('k \<rightharpoonup> 'v) \<Rightarrow> 'k \<Rightarrow> 'f + 'v" where
  "deref e m k = (case m k of None \<Rightarrow> Inl e | Some v \<Rightarrow> Inr v)"

lemma deref_Some [simp]: "m k = Some v \<Longrightarrow> deref e m k = Inr v"
  by (simp add: deref_def)

lemma deref_None [simp]: "m k = None \<Longrightarrow> deref e m k = Inl e"
  by (simp add: deref_def)

lemma deref_eq_Inr [fault_simps]: "deref e m k = Inr v \<longleftrightarrow> m k = Some v"
  by (auto simp: deref_def split: option.splits)

lemma deref_eq_Inl [fault_simps]: "deref e m k = Inl f \<longleftrightarrow> f = e \<and> m k = None"
  by (auto simp: deref_def split: option.splits)

section \<open>Lists\<close>

lemma filter_remove1_neutral: "\<not> P x \<Longrightarrow> filter P (remove1 x xs) = filter P xs"
  by (induction xs) auto

lemma nth_append_here [simp]: "(xs @ y # ys) ! length xs = y"
  by simp

section \<open>Running a partial step function\<close>

text \<open>
  \<open>run_steps step s es\<close> feeds the events \<open>es\<close> to \<open>step\<close> in order and stops at the first fault.
\<close>

fun run_steps :: "('s \<Rightarrow> 'e \<Rightarrow> 'f + 's) \<Rightarrow> 's \<Rightarrow> 'e list \<Rightarrow> 'f + 's" where
  "run_steps step s [] = Inr s"
| "run_steps step s (e # es) = bindE (step s e) (\<lambda>s'. run_steps step s' es)"

lemma run_steps_append:
  "run_steps step s (es @ fs) = bindE (run_steps step s es) (\<lambda>s'. run_steps step s' fs)"
  by (induction es arbitrary: s) (auto simp: bindE_assoc)

lemma run_steps_snoc:
  "run_steps step s (es @ [e]) = bindE (run_steps step s es) (\<lambda>s'. step s' e)"
proof -
  have eta: "bindE (step s' e) Inr = step s' e" for s'
    by (cases "step s' e") auto
  show ?thesis
    by (simp add: run_steps_append eta)
qed

text \<open>
  A machine with an invariant: every step from a state of the invariant, on an event the
  environment may send there, keeps the invariant. What follows for runs is proved here once.
\<close>

locale machine =
  fixes step :: "'s \<Rightarrow> 'e \<Rightarrow> 'f + 's"
    and inv :: "'s \<Rightarrow> bool"
  assumes step_inv: "inv s \<Longrightarrow> step s e = Inr s' \<Longrightarrow> inv s'"
begin

lemma run_inv: "inv s \<Longrightarrow> run_steps step s es = Inr s' \<Longrightarrow> inv s'"
proof (induction es arbitrary: s)
  case Nil
  then show ?case by simp
next
  case (Cons e es)
  from Cons.prems(2) obtain t where t: "step s e = Inr t" and rest: "run_steps step t es = Inr s'"
    by (auto simp: fault_simps)
  from Cons.prems(1) t have "inv t" by (rule step_inv)
  then show ?case using rest by (rule Cons.IH)
qed

end

text \<open>A machine whose steps never fault from a state of the invariant: all of its runs succeed.\<close>

locale safe_machine = machine +
  assumes step_safe: "inv s \<Longrightarrow> \<exists>s'. step s e = Inr s'"
begin

lemma run_safe: "inv s \<Longrightarrow> \<exists>s'. run_steps step s es = Inr s' \<and> inv s'"
proof (induction es arbitrary: s)
  case Nil
  then show ?case by simp
next
  case (Cons e es)
  from Cons.prems obtain t where t: "step s e = Inr t"
    using step_safe by blast
  with Cons.prems have "inv t" by (rule step_inv)
  then show ?case using t Cons.IH by simp
qed

end

section \<open>Keyed registries\<close>

text \<open>
  The sources keep several tables from an id to an object (\<open>cmap_\<close>, \<open>pmap_\<close>, \<open>reqmap_\<close>). What
  their clients rely on: an insertion is found again and disturbs no other key, and so for a
  removal.
\<close>

locale registry =
  fixes insert_key :: "'k \<Rightarrow> 'v \<Rightarrow> 't \<Rightarrow> 't"
    and erase_key :: "'k \<Rightarrow> 't \<Rightarrow> 't"
    and find_key :: "'t \<Rightarrow> 'k \<Rightarrow> 'v option"
  assumes find_insert: "find_key (insert_key k v t) j = (if j = k then Some v else find_key t j)"
    and find_erase: "find_key (erase_key k t) j = (if j = k then None else find_key t j)"
begin

lemma insert_then_erase: "find_key (erase_key k (insert_key k v t)) j = (if j = k then None else find_key t j)"
  by (simp add: find_insert find_erase)

lemma erase_frame: "j \<noteq> k \<Longrightarrow> find_key (erase_key k t) j = find_key t j"
  by (simp add: find_erase)

lemma insert_twice: "find_key (insert_key k v (insert_key k u t)) j = find_key (insert_key k v t) j"
  by (simp add: find_insert)

lemma dom_insert: "{j. find_key (insert_key k v t) j \<noteq> None} = insert k {j. find_key t j \<noteq> None}"
  by (auto simp: find_insert)

lemma dom_erase: "{j. find_key (erase_key k t) j \<noteq> None} = {j. find_key t j \<noteq> None} - {k}"
  by (auto simp: find_erase)

end

end
