(* ===== verification/Http_Text.thy ===== *)
theory Http_Text
  imports Prelude "HOL-Library.Char_ord"
begin

text \<open>
  The memory and text layer under the HTTP parser of \<open>src/src/http.cpp\<close>: a heap block whose
  bytes may be uninitialised, the C library functions the parser calls on text (\<open>tolower\<close>,
  \<open>std::stoi\<close>, \<open>strstr\<close>, \<open>memcmp\<close>), and the parser's own number readers
  \<open>HttpFSM::atoi\<close> and \<open>HttpFSM::htoi\<close>. A read outside a block, a read of a byte never
  written and a write outside a block are faults of the model, because the sources do not
  test for them.
\<close>

section \<open>Heap blocks\<close>

datatype mem_fault = OutOfBounds | Uninitialised | NullDereference | InputOverrun

record block =
  blk_bytes :: "nat \<rightharpoonup> char"
  blk_size :: nat

definition blk_malloc :: "nat \<Rightarrow> block" where
  "blk_malloc n = \<lparr>blk_bytes = Map.empty, blk_size = n\<rparr>"

definition blk_realloc :: "nat \<Rightarrow> block \<Rightarrow> block" where
  "blk_realloc n b =
     \<lparr>blk_bytes = (\<lambda>i. if i < n \<and> i < blk_size b then blk_bytes b i else None), blk_size = n\<rparr>"

definition rd :: "block \<Rightarrow> nat \<Rightarrow> mem_fault + char" where
  "rd b i = (if i < blk_size b then deref Uninitialised (blk_bytes b) i else Inl OutOfBounds)"

definition wr :: "block \<Rightarrow> nat \<Rightarrow> char \<Rightarrow> mem_fault + block" where
  "wr b i c = (if i < blk_size b then Inr (b\<lparr>blk_bytes := (blk_bytes b)(i \<mapsto> c)\<rparr>) else Inl OutOfBounds)"

lemma rd_eq_Inr [fault_simps]: "rd b i = Inr c \<longleftrightarrow> i < blk_size b \<and> blk_bytes b i = Some c"
  by (auto simp: rd_def fault_simps)

lemma wr_eq_Inr [fault_simps]:
  "wr b i c = Inr b' \<longleftrightarrow> i < blk_size b \<and> b' = b\<lparr>blk_bytes := (blk_bytes b)(i \<mapsto> c)\<rparr>"
  by (auto simp: wr_def)

lemma wr_eq_Inl [fault_simps]: "wr b i c = Inl e \<longleftrightarrow> blk_size b \<le> i \<and> e = OutOfBounds"
  by (auto simp: wr_def)

text \<open>\<open>cstr_at b i s\<close>: the C string \<open>s\<close> and its terminating NUL are stored from position \<open>i\<close>.\<close>

abbreviation NUL :: char where "NUL \<equiv> CHR 0x00"
abbreviation CR :: char where "CR \<equiv> CHR 0x0D"
abbreviation LF :: char where "LF \<equiv> CHR 0x0A"

fun str_at :: "block \<Rightarrow> nat \<Rightarrow> string \<Rightarrow> bool" where
  "str_at b i [] = True"
| "str_at b i (c # cs) = (rd b i = Inr c \<and> str_at b (Suc i) cs)"

definition cstr_at :: "block \<Rightarrow> nat \<Rightarrow> string \<Rightarrow> bool" where
  "cstr_at b i s \<longleftrightarrow> NUL \<notin> set s \<and> str_at b i (s @ [NUL])"

lemma str_at_append: "str_at b i (s @ t) \<longleftrightarrow> str_at b i s \<and> str_at b (i + length s) t"
  by (induction s arbitrary: i) auto

lemma str_at_nth: "str_at b i s \<Longrightarrow> n < length s \<Longrightarrow> rd b (i + n) = Inr (s ! n)"
proof (induction s arbitrary: i n)
  case Nil
  then show ?case by simp
next
  case (Cons c s)
  show ?case
  proof (cases n)
    case 0
    with Cons.prems show ?thesis by simp
  next
    case (Suc m)
    with Cons.prems have "rd b (Suc i + m) = Inr (s ! m)"
      by (intro Cons.IH) auto
    with Suc show ?thesis by simp
  qed
qed

lemma str_atI: "(\<And>n. n < length s \<Longrightarrow> rd b (i + n) = Inr (s ! n)) \<Longrightarrow> str_at b i s"
proof (induction s arbitrary: i)
  case Nil
  then show ?case by simp
next
  case (Cons c s)
  have "rd b i = Inr c" using Cons.prems[of 0] by simp
  moreover have "str_at b (Suc i) s"
    using Cons.prems[of "Suc _"] by (intro Cons.IH) fastforce
  ultimately show ?case by simp
qed

lemma str_at_iff: "str_at b i s \<longleftrightarrow> (\<forall>n < length s. rd b (i + n) = Inr (s ! n))"
  using str_at_nth str_atI by blast

section \<open>C library functions on text\<close>

definition in_range :: "char \<Rightarrow> char \<Rightarrow> char \<Rightarrow> bool" where
  "in_range lo hi c \<longleftrightarrow> lo \<le> c \<and> c \<le> hi"

definition char_diff :: "char \<Rightarrow> char \<Rightarrow> i32" where
  "char_diff c d = of_char c - of_char d"

definition c_tolower :: "char \<Rightarrow> char" where
  "c_tolower c = (if in_range (CHR ''A'') (CHR ''Z'') c then char_of (of_char c + 32 :: nat) else c)"

definition c_isspace :: "char \<Rightarrow> bool" where
  "c_isspace c \<longleftrightarrow> c \<in> {CHR '' '', CHR 0x09, LF, CHR 0x0B, CHR 0x0C, CR}"

definition c_isdigit :: "char \<Rightarrow> bool" where
  "c_isdigit c \<longleftrightarrow> in_range (CHR ''0'') (CHR ''9'') c"

definition digit_val :: "char \<Rightarrow> int" where
  "digit_val c = of_char c - of_char (CHR ''0'')"

definition decimal :: "string \<Rightarrow> int" where
  "decimal ds = foldl (\<lambda>n c. 10 * n + digit_val c) 0 ds"

text \<open>
  \<open>std::stoi (s, &idx)\<close>: skip white space, read an optional sign and decimal digits, and give the
  value with the number of characters used; \<open>None\<close> stands for the exceptions it throws
  (\<open>invalid_argument\<close> when there is no digit, \<open>out_of_range\<close> when an \<open>int\<close> cannot hold the value).
\<close>

definition stoi :: "string \<Rightarrow> (int \<times> nat) option" where
  "stoi s =
     (let ws = takeWhile c_isspace s;
          r = dropWhile c_isspace s;
          sg = (case r of c # _ \<Rightarrow> if c = CHR ''-'' \<or> c = CHR ''+'' then [c] else [] | [] \<Rightarrow> []);
          ds = takeWhile c_isdigit (drop (length sg) r);
          v = (if sg = ''-'' then - decimal ds else decimal ds)
      in if ds = [] \<or> v < - (2 ^ 31) \<or> 2 ^ 31 \<le> v then None
         else Some (v, length ws + length sg + length ds))"

fun is_prefix :: "string \<Rightarrow> string \<Rightarrow> bool" where
  "is_prefix [] ys = True"
| "is_prefix (x # xs) [] = False"
| "is_prefix (x # xs) (y # ys) = (x = y \<and> is_prefix xs ys)"

text \<open>\<open>strstr (hay, needle) != nullptr\<close>.\<close>

fun strstr_found :: "string \<Rightarrow> string \<Rightarrow> bool" where
  "strstr_found [] needle = (needle = [])"
| "strstr_found (c # cs) needle = (is_prefix needle (c # cs) \<or> strstr_found cs needle)"

lemma is_prefix_iff: "is_prefix xs ys \<longleftrightarrow> (\<exists>zs. ys = xs @ zs)"
  by (induction xs ys rule: is_prefix.induct) auto

lemma strstr_found_iff: "strstr_found hay needle \<longleftrightarrow> (\<exists>us vs. hay = us @ needle @ vs)"
proof (induction hay)
  case Nil
  then show ?case by auto
next
  case (Cons c cs)
  have "(\<exists>us vs. c # cs = us @ needle @ vs) \<longleftrightarrow>
        (\<exists>zs. c # cs = needle @ zs) \<or> (\<exists>us vs. cs = us @ needle @ vs)"
    by (metis (no_types, lifting) append_Cons append_Nil list.inject neq_Nil_conv)
  with Cons.IH show ?case by (simp add: is_prefix_iff)
qed

text \<open>\<open>memcmp (p, lit, n) == 0\<close> on a block: the \<open>n\<close> bytes of the literal are all read.\<close>

fun read_bytes :: "block \<Rightarrow> nat \<Rightarrow> nat \<Rightarrow> mem_fault + string" where
  "read_bytes b i 0 = Inr []"
| "read_bytes b i (Suc n) = bindE (rd b i) (\<lambda>c. bindE (read_bytes b (Suc i) n) (\<lambda>cs. Inr (c # cs)))"

definition memcmp_eq :: "block \<Rightarrow> nat \<Rightarrow> string \<Rightarrow> mem_fault + bool" where
  "memcmp_eq b i lit = bindE (read_bytes b i (length lit)) (\<lambda>cs. Inr (cs = lit))"

lemma read_bytes_str_at: "str_at b i s \<Longrightarrow> read_bytes b i (length s) = Inr s"
  by (induction s arbitrary: i) auto

section \<open>The parser's number readers\<close>

text \<open>
  \<open>HttpFSM::atoi (str, i, max)\<close> on the text \<open>s\<close> of the C string \<open>str\<close>: \<open>None\<close> is \<open>return false\<close>.
  \<open>pos\<close> is \<open>_s - str\<close>. The arithmetic is that of a 32-bit \<open>int\<close>.
\<close>

fun atoi_loop :: "nat \<Rightarrow> nat \<Rightarrow> i32 \<Rightarrow> string \<Rightarrow> i32 option" where
  "atoi_loop mx pos i [] = Some i"
| "atoi_loop mx pos i (c # cs) =
     (if in_range (CHR ''0'') (CHR ''9'') c then
        (let i' = i * 10 + char_diff c (CHR ''0'') in
         if pos + 1 \<ge> mx then None else atoi_loop mx (pos + 1) i' cs)
      else None)"

definition http_atoi :: "string \<Rightarrow> nat \<Rightarrow> i32 option" where
  "http_atoi s mx =
     (case s of
        c # cs \<Rightarrow> if c = CHR ''-'' then map_option (\<lambda>i. - i) (atoi_loop mx 1 0 cs)
                  else atoi_loop mx 0 0 s
      | [] \<Rightarrow> atoi_loop mx 0 0 s)"

text \<open>The value of one hexadecimal digit, \<open>-1\<close> (here \<open>None\<close>) for any other character.\<close>

definition hex_num :: "char \<Rightarrow> i32 option" where
  "hex_num c =
     (if in_range (CHR ''A'') (CHR ''F'') c then Some (char_diff c (CHR ''A'') + 10)
      else if in_range (CHR ''a'') (CHR ''f'') c then Some (char_diff c (CHR ''a'') + 10)
      else if in_range (CHR ''0'') (CHR ''9'') c then Some (char_diff c (CHR ''0''))
      else None)"

text \<open>
  \<open>HttpFSM::htoi (str, i, max)\<close> reads the receive buffer itself, so it takes the block and the
  position \<open>p\<close> of \<open>_s\<close>; \<open>str\<close> is where it started.
\<close>

function htoi_loop :: "block \<Rightarrow> nat \<Rightarrow> nat \<Rightarrow> nat \<Rightarrow> i32 \<Rightarrow> mem_fault + i32 option" where
  "htoi_loop b str mx p i =
     bindE (rd b p) (\<lambda>c.
       if c = NUL then Inr (Some i)
       else (case hex_num c of
               None \<Rightarrow> Inr None
             | Some num \<Rightarrow>
                 (let i' = i * 16 + num in
                  if p + 1 - str \<ge> mx then Inr None else htoi_loop b str mx (p + 1) i')))"
  by pat_completeness auto
termination
  by (relation "measure (\<lambda>(b, str, mx, p, i). blk_size b - p)") (auto simp: fault_simps)

declare htoi_loop.simps [simp del]

definition http_htoi :: "block \<Rightarrow> nat \<Rightarrow> nat \<Rightarrow> mem_fault + i32 option" where
  "http_htoi b str mx =
     bindE (rd b str) (\<lambda>c.
       if c = CHR ''-'' then
         bindE (htoi_loop b str mx (str + 1) 0) (\<lambda>r. Inr (map_option (\<lambda>i. - i) r))
       else htoi_loop b str mx str 0)"

text \<open>The same reader on plain text, and the agreement of the two on a stored C string.\<close>

fun hex_value :: "i32 \<Rightarrow> string \<Rightarrow> i32 option" where
  "hex_value i [] = Some i"
| "hex_value i (c # cs) = (case hex_num c of None \<Rightarrow> None | Some n \<Rightarrow> hex_value (i * 16 + n) cs)"

lemma htoi_loop_str:
  assumes "cstr_at b p s" and "str \<le> p" and "p + length s < str + mx"
  shows "htoi_loop b str mx p i = Inr (hex_value i s)"
  using assms
proof (induction s arbitrary: p i)
  case Nil
  then show ?case by (simp add: cstr_at_def htoi_loop.simps [of b str mx p])
next
  case (Cons c s)
  from Cons.prems have c: "rd b p = Inr c" "c \<noteq> NUL" and s: "cstr_at b (p + 1) s"
    by (auto simp: cstr_at_def)
  show ?case
  proof (cases "hex_num c")
    case None
    with c show ?thesis by (simp add: htoi_loop.simps [of b str mx p])
  next
    case (Some n)
    have "htoi_loop b str mx (p + 1) (i * 16 + n) = Inr (hex_value (i * 16 + n) s)"
      using Cons.prems s by (intro Cons.IH) auto
    moreover have "\<not> mx \<le> p + 1 - str" using Cons.prems by simp
    ultimately show ?thesis using Some c by (simp add: htoi_loop.simps [of b str mx p])
  qed
qed

lemma http_htoi_str:
  assumes "cstr_at b p s" and "length s < mx" and "s = [] \<or> hd s \<noteq> CHR ''-''"
  shows "http_htoi b p mx = Inr (hex_value 0 s)"
proof (cases s)
  case Nil
  with assms(1) have "rd b p = Inr NUL" by (simp add: cstr_at_def)
  moreover have "htoi_loop b p mx p 0 = Inr (hex_value 0 s)"
    using assms by (intro htoi_loop_str) auto
  ultimately show ?thesis by (simp add: http_htoi_def)
next
  case (Cons c cs)
  with assms have "rd b p = Inr c" and "c \<noteq> CHR ''-''" by (auto simp: cstr_at_def)
  moreover have "htoi_loop b p mx p 0 = Inr (hex_value 0 s)"
    using assms by (intro htoi_loop_str) auto
  ultimately show ?thesis by (simp add: http_htoi_def)
qed

text \<open>Writing a number in hexadecimal, as a sender of a chunk does; \<open>htoi\<close> reads it back.\<close>

definition hex_char :: "nat \<Rightarrow> char" where
  "hex_char d = ''0123456789abcdef'' ! d"

fun to_hex :: "nat \<Rightarrow> string" where
  "to_hex n = (if n < 16 then [hex_char n] else to_hex (n div 16) @ [hex_char (n mod 16)])"

declare to_hex.simps [simp del]

lemma less_16_cases:
  assumes "d < (16::nat)"
  obtains "d = 0" | "d = 1" | "d = 2" | "d = 3" | "d = 4" | "d = 5" | "d = 6" | "d = 7"
    | "d = 8" | "d = 9" | "d = 10" | "d = 11" | "d = 12" | "d = 13" | "d = 14" | "d = 15"
  using assms that by (auto simp: numeral_eq_Suc less_Suc_eq)

lemma hex_num_hex_char: "d < 16 \<Longrightarrow> hex_num (hex_char d) = Some (of_nat d)"
  by (erule less_16_cases) (simp_all add: hex_num_def hex_char_def in_range_def char_diff_def)

lemma hex_char_plain: "d < 16 \<Longrightarrow> hex_char d \<notin> {NUL, CR, LF, CHR ''-'', CHR '';''}"
  by (erule less_16_cases) (simp_all add: hex_char_def)

lemma hex_value_append:
  "hex_value i (s @ t) = (case hex_value i s of None \<Rightarrow> None | Some j \<Rightarrow> hex_value j t)"
  by (induction s arbitrary: i) (auto split: option.splits)

lemma hex_value_to_hex: "hex_value 0 (to_hex n) = Some (of_nat n)"
proof (induction n rule: to_hex.induct)
  case (1 n)
  show ?case
  proof (cases "n < 16")
    case True
    then show ?thesis by (simp add: to_hex.simps [of n] hex_num_hex_char)
  next
    case False
    have "of_nat (n div 16) * 16 + of_nat (n mod 16) = (of_nat n :: i32)"
      by (metis div_mult_mod_eq of_nat_add of_nat_mult of_nat_numeral)
    with False 1 show ?thesis
      by (simp add: to_hex.simps [of n] hex_value_append hex_num_hex_char)
  qed
qed

lemma to_hex_plain: "set (to_hex n) \<inter> {NUL, CR, LF, CHR ''-'', CHR '';''} = {}"
proof (induction n rule: to_hex.induct)
  case (1 n)
  then show ?case
    using hex_char_plain [of n] hex_char_plain [of "n mod 16"]
    by (subst to_hex.simps) (auto simp del: insert_iff)
qed

lemma to_hex_not_Nil: "to_hex n \<noteq> []"
  by (subst to_hex.simps) simp

lemma length_to_hex: "n < 16 ^ k \<Longrightarrow> 0 < k \<Longrightarrow> length (to_hex n) \<le> k"
proof (induction k arbitrary: n)
  case 0
  then show ?case by simp
next
  case (Suc k)
  show ?case
  proof (cases "n < 16")
    case True
    then show ?thesis by (simp add: to_hex.simps [of n])
  next
    case False
    with Suc.prems have "0 < k" by (cases k) auto
    moreover from Suc.prems have "n div 16 < 16 ^ k" by auto
    ultimately have "length (to_hex (n div 16)) \<le> k" by (intro Suc.IH)
    with False show ?thesis by (simp add: to_hex.simps [of n])
  qed
qed

end
