(* ===== verification/Http_FSM.thy ===== *)
theory Http_FSM
  imports Http_Text
begin

text \<open>
  The incremental HTTP parser \<open>HttpFSM\<close> of \<open>src/src/http.h\<close> and \<open>src/src/http.cpp\<close>: its receive
  buffer and context as the record \<open>http_fsm\<close>, one definition per member function. Pointers
  into the buffer (\<open>m_buf\<close>, \<open>hd[i]\<close>, \<open>bd\<close>) are offsets from \<open>m_p\<close>, so that moving the buffer
  in \<open>realloc\<close> leaves them as they are; \<open>current()\<close>, which is \<open>m_p + m_len\<close>, is the offset
  \<open>m_len\<close>.
\<close>

section \<open>Result codes\<close>

datatype http_result_code =
    HRC_ERROR
  | HRC_CONTINUE | HRC_SWITCHING_PROTOCOLS
  | HRC_OK | HRC_CREATED | HRC_ACCEPTED | HRC_NOT_AUTHORITATIVE | HRC_NO_CONTENT
  | HRC_RESET_CONTENT | HRC_PARTIAL_CONTENT
  | HRC_MULTIPLE_CHOICES | HRC_MOVED_PERMANENTLY | HRC_MOVED_TEMPORARILY | HRC_SEE_OTHER
  | HRC_NOT_MODIFIED | HRC_USE_PROXY
  | HRC_BAD_REQUEST | HRC_UNAUTHORIZED | HRC_PAYMENT_REQUIRED | HRC_FORBIDDEN | HRC_NOT_FOUND
  | HRC_METHOD_NOT_ALLOWED | HRC_NOT_ACCEPTABLE | HRC_PROXY_AUTHENTICATION | HRC_REQUEST_TIMEOUT
  | HRC_CONFLICT | HRC_GONE | HRC_LENGTH_REQUIRED | HRC_PRECONDITION | HRC_REQUEST_TOO_LARGE
  | HRC_URI_TOO_LONG | HRC_UNSUPPORTED_MEDIATYPE | HRC_REQUESTED_RANGE | HRC_EXPECTATION_FAILED
  | HRC_UPGRADE_REQUIRED
  | HRC_SERVER_ERROR | HRC_NOT_IMPLEMENTED | HRC_BAD_GATEWAY | HRC_SERVICE_UNAVAILABLE
  | HRC_GATEWAY_TIMEOUT | HRC_NOT_SUPPORTED

fun hrc_value :: "http_result_code \<Rightarrow> int" where
  "hrc_value HRC_ERROR = -1"
| "hrc_value HRC_CONTINUE = 100"
| "hrc_value HRC_SWITCHING_PROTOCOLS = 101"
| "hrc_value HRC_OK = 200"
| "hrc_value HRC_CREATED = 201"
| "hrc_value HRC_ACCEPTED = 202"
| "hrc_value HRC_NOT_AUTHORITATIVE = 203"
| "hrc_value HRC_NO_CONTENT = 204"
| "hrc_value HRC_RESET_CONTENT = 205"
| "hrc_value HRC_PARTIAL_CONTENT = 206"
| "hrc_value HRC_MULTIPLE_CHOICES = 300"
| "hrc_value HRC_MOVED_PERMANENTLY = 301"
| "hrc_value HRC_MOVED_TEMPORARILY = 302"
| "hrc_value HRC_SEE_OTHER = 303"
| "hrc_value HRC_NOT_MODIFIED = 304"
| "hrc_value HRC_USE_PROXY = 305"
| "hrc_value HRC_BAD_REQUEST = 400"
| "hrc_value HRC_UNAUTHORIZED = 401"
| "hrc_value HRC_PAYMENT_REQUIRED = 402"
| "hrc_value HRC_FORBIDDEN = 403"
| "hrc_value HRC_NOT_FOUND = 404"
| "hrc_value HRC_METHOD_NOT_ALLOWED = 405"
| "hrc_value HRC_NOT_ACCEPTABLE = 406"
| "hrc_value HRC_PROXY_AUTHENTICATION = 407"
| "hrc_value HRC_REQUEST_TIMEOUT = 408"
| "hrc_value HRC_CONFLICT = 409"
| "hrc_value HRC_GONE = 410"
| "hrc_value HRC_LENGTH_REQUIRED = 411"
| "hrc_value HRC_PRECONDITION = 412"
| "hrc_value HRC_REQUEST_TOO_LARGE = 413"
| "hrc_value HRC_URI_TOO_LONG = 414"
| "hrc_value HRC_UNSUPPORTED_MEDIATYPE = 415"
| "hrc_value HRC_REQUESTED_RANGE = 416"
| "hrc_value HRC_EXPECTATION_FAILED = 417"
| "hrc_value HRC_UPGRADE_REQUIRED = 426"
| "hrc_value HRC_SERVER_ERROR = 500"
| "hrc_value HRC_NOT_IMPLEMENTED = 501"
| "hrc_value HRC_BAD_GATEWAY = 502"
| "hrc_value HRC_SERVICE_UNAVAILABLE = 503"
| "hrc_value HRC_GATEWAY_TIMEOUT = 504"
| "hrc_value HRC_NOT_SUPPORTED = 505"

section \<open>The state of the parser\<close>

datatype http_state =
    state_invalid
  | state_recv_header
  | state_recv_body
  | state_recv_body_nochunk
  | state_recv_bodylen
  | state_recv_footer
  | state_recv_comment
  | state_recv_finish
  | state_websocket_establish
  | state_error

definition MAX_HEADER :: nat where
  "MAX_HEADER = 64"

text \<open>
  \<open>n_hd\<close> is the length of \<open>m_hd\<close> (and of \<open>m_hl\<close>): the entries of the arrays from \<open>n_hd\<close> on are
  never read. \<open>m_res\<close> keeps its 16 bits and \<open>m_bl\<close> its 32.
\<close>

record http_fsm =
  m_version :: nat
  m_state :: http_state
  m_res :: u16
  m_hd :: "nat list"
  m_hl :: "nat list"
  m_bd :: "nat option"
  m_bl :: u32
  m_max :: u32
  m_len :: nat
  m_buf :: nat
  m_p :: block

definition hdrlen :: "http_fsm \<Rightarrow> nat" where
  "hdrlen f = length (m_hd f)"

definition rc :: "http_fsm \<Rightarrow> int" where
  "rc f = sint (m_res f)"

definition setrc :: "http_result_code \<Rightarrow> http_fsm \<Rightarrow> http_fsm" where
  "setrc r f = f\<lparr>m_res := word_of_int (hrc_value r)\<rparr>"

definition bodylen :: "http_fsm \<Rightarrow> int" where
  "bodylen f = sint (m_bl f)"

definition hdr :: "http_fsm \<Rightarrow> nat \<Rightarrow> nat option" where
  "hdr f idx = (if idx < hdrlen f then Some (m_hd f ! idx) else None)"

text \<open>
  \<open>reset\<close> assigns a new block and leaves \<open>res\<close>, \<open>bl\<close> as they were.
\<close>

definition http_reset :: "u32 \<Rightarrow> http_fsm \<Rightarrow> http_fsm" where
  "http_reset chunk_size f =
     f\<lparr>m_p := blk_malloc (unat chunk_size), m_buf := 0, m_len := 0, m_max := chunk_size,
       m_version := 11, m_hd := [], m_hl := [], m_bd := None, m_state := state_recv_header\<rparr>"

section \<open>Header look-up\<close>

text \<open>
  The comparison loop of \<open>hdrstr\<close>: \<open>k\<close> is the position in the key (\<open>k - key\<close> of the source),
  \<open>p\<close> the one in the header line.
\<close>

datatype key_match = KeyMismatch | KeyTooLong | KeyFound nat

fun match_key :: "block \<Rightarrow> nat \<Rightarrow> string \<Rightarrow> nat \<Rightarrow> nat \<Rightarrow> mem_fault + key_match" where
  "match_key b hl [] k p = Inr (KeyFound p)"
| "match_key b hl (c # key) k p =
     bindE (rd b p) (\<lambda>d.
       if c_tolower c = c_tolower d then
         (if k > hl then Inr KeyTooLong else match_key b hl key (k + 1) (p + 1))
       else Inr KeyMismatch)"

text \<open>Skipping the blanks and colons between the tag and the value.\<close>

function skip_sep :: "block \<Rightarrow> nat \<Rightarrow> nat \<Rightarrow> nat \<Rightarrow> mem_fault + nat option" where
  "skip_sep b h hl p =
     bindE (rd b p) (\<lambda>c.
       if c = NUL then Inr (Some p)
       else if c = CHR '' '' \<or> c = CHR '':'' then
         (if int h - int (p + 1) > int hl then Inr None else skip_sep b h hl (p + 1))
       else Inr (Some p))"
  by pat_completeness auto
termination
  by (relation "measure (\<lambda>(b, h, hl, p). blk_size b - p)") (auto simp: fault_simps)

text \<open>
  Copying the value into the caller's buffer of \<open>l\<close> bytes; \<open>acc\<close> is what was copied so far.
\<close>

function copy_val :: "block \<Rightarrow> nat \<Rightarrow> nat \<Rightarrow> string \<Rightarrow> mem_fault + string option" where
  "copy_val b l p acc =
     bindE (rd b p) (\<lambda>c.
       if length acc \<ge> l then Inl OutOfBounds
       else if c = NUL then Inr (Some acc)
       else if length acc + 1 \<ge> l then Inr None
       else copy_val b l (p + 1) (acc @ [c]))"
  by pat_completeness auto
termination
  by (relation "measure (\<lambda>(b, l, p, acc). blk_size b - p)") (auto simp: fault_simps)

declare skip_sep.simps [simp del] copy_val.simps [simp del]

fun hdrstr_loop :: "block \<Rightarrow> string \<Rightarrow> nat \<Rightarrow> (nat \<times> nat) list \<Rightarrow> mem_fault + string option" where
  "hdrstr_loop b key l [] = Inr None"
| "hdrstr_loop b key l ((h, hl) # rest) =
     bindE (match_key b hl key 0 h) (\<lambda>r.
       case r of
         KeyTooLong \<Rightarrow> Inr None
       | KeyMismatch \<Rightarrow> hdrstr_loop b key l rest
       | KeyFound p \<Rightarrow>
           bindE (skip_sep b h hl p) (\<lambda>q.
             case q of None \<Rightarrow> Inr None | Some q \<Rightarrow> copy_val b l q []))"

definition hdrstr :: "http_fsm \<Rightarrow> string \<Rightarrow> nat \<Rightarrow> mem_fault + string option" where
  "hdrstr f key l = hdrstr_loop (m_p f) key l (zip (m_hd f) (m_hl f))"

definition hashdr :: "http_fsm \<Rightarrow> string \<Rightarrow> mem_fault + bool" where
  "hashdr f key = bindE (hdrstr f key 256) (\<lambda>r. Inr (r \<noteq> None))"

definition hdrint :: "http_fsm \<Rightarrow> string \<Rightarrow> mem_fault + int option" where
  "hdrint f key =
     bindE (hdrstr f key 256) (\<lambda>r.
       case r of
         None \<Rightarrow> Inr None
       | Some b \<Rightarrow>
           (case stoi b of
              None \<Rightarrow> Inr None
            | Some (out, idx) \<Rightarrow> if idx \<noteq> length b then Inr None else Inr (Some out)))"

definition hdr_contains :: "http_fsm \<Rightarrow> string \<Rightarrow> string \<Rightarrow> mem_fault + bool" where
  "hdr_contains f header_name content =
     bindE (hdrstr f header_name 256) (\<lambda>r.
       case r of Some value \<Rightarrow> Inr (strstr_found value content) | None \<Rightarrow> Inr True)"

definition accept :: "http_fsm \<Rightarrow> string \<Rightarrow> mem_fault + bool" where
  "accept f mime_type = hdr_contains f ''Accept'' mime_type"

definition accept_encoding :: "http_fsm \<Rightarrow> string \<Rightarrow> mem_fault + bool" where
  "accept_encoding f encoding = hdr_contains f ''Accept-Encoding'' encoding"

section \<open>The status line and the request path\<close>

function rc_skip :: "block \<Rightarrow> nat \<Rightarrow> nat \<Rightarrow> nat \<Rightarrow> mem_fault + nat option" where
  "rc_skip b s hl w =
     bindE (rd b w) (\<lambda>c.
       if c = NUL then Inr (Some w)
       else bindE (rd b (w + 1)) (\<lambda>d.
         if d \<noteq> CHR '' '' then Inr (Some (w + 1))
         else if w + 1 - s > hl then Inr None
         else rc_skip b s hl (w + 1)))"
  by pat_completeness auto
termination
  by (relation "measure (\<lambda>(b, s, hl, w). blk_size b - w)") (auto simp: fault_simps)

function rc_copy :: "block \<Rightarrow> nat \<Rightarrow> nat \<Rightarrow> nat \<Rightarrow> string \<Rightarrow> mem_fault + string option" where
  "rc_copy b s hl w tok =
     bindE (rd b w) (\<lambda>c.
       if c = NUL \<or> c = CHR '' '' then Inr (Some tok)
       else if w + 1 - s > hl then Inr None
       else if length tok + 1 \<ge> 256 then Inr None
       else rc_copy b s hl (w + 1) (tok @ [c]))"
  by pat_completeness auto
termination
  by (relation "measure (\<lambda>(b, s, hl, w, tok). blk_size b - w)") (auto simp: fault_simps)

declare rc_skip.simps [simp del] rc_copy.simps [simp del]

definition status_code :: "http_fsm \<Rightarrow> nat \<Rightarrow> nat \<Rightarrow> nat \<Rightarrow> mem_fault + int" where
  "status_code f s hl w =
     bindE (rc_skip (m_p f) s hl w) (\<lambda>r.
       case r of
         None \<Rightarrow> Inr (hrc_value HRC_ERROR)
       | Some w' \<Rightarrow>
           bindE (rc_copy (m_p f) s hl w' []) (\<lambda>t.
             case t of
               None \<Rightarrow> Inr (hrc_value HRC_ERROR)
             | Some tok \<Rightarrow>
                 (case http_atoi tok 256 of
                    None \<Rightarrow> Inr (hrc_value HRC_ERROR)
                  | Some sc \<Rightarrow> Inr (sint sc))))"

text \<open>
  \<open>putrc\<close> sets \<open>version\<close> and returns the status code. With no header line stored \<open>hd[0]\<close> is an
  uninitialised pointer.
\<close>

definition putrc :: "http_fsm \<Rightarrow> mem_fault + (http_fsm \<times> int)" where
  "putrc f =
     (case zip (m_hd f) (m_hl f) of
        [] \<Rightarrow> Inl Uninitialised
      | (s, hl) # _ \<Rightarrow>
          bindE (memcmp_eq (m_p f) (s + 5) ''1.1'') (\<lambda>is11.
            if is11 then
              bindE (status_code f s hl (s + 5 + 3)) (\<lambda>sc. Inr (f\<lparr>m_version := 11\<rparr>, sc))
            else
              bindE (memcmp_eq (m_p f) (s + 5) ''1.0'') (\<lambda>is10.
                if is10 then
                  bindE (status_code f s hl (s + 5 + 3)) (\<lambda>sc. Inr (f\<lparr>m_version := 10\<rparr>, sc))
                else Inr (f, hrc_value HRC_ERROR))))"

function url_skip :: "block \<Rightarrow> nat \<Rightarrow> nat \<Rightarrow> nat \<Rightarrow> mem_fault + nat option" where
  "url_skip b s hl w =
     bindE (rd b w) (\<lambda>c.
       if c = CHR '' '' then Inr (Some w)
       else if w + 1 - s > hl then Inr None
       else bindE (rd b (w + 1)) (\<lambda>d. if d = NUL then Inr None else url_skip b s hl (w + 1)))"
  by pat_completeness auto
termination
  by (relation "measure (\<lambda>(b, s, hl, w). blk_size b - w)") (auto simp: fault_simps)

text \<open>
  The copy writes \<open>b[0], b[1], \<dots>\<close> of a buffer of \<open>l\<close> bytes; the source compares \<open>wb - b\<close> with \<open>l\<close>
  only after each write, and writes the final NUL unchecked.
\<close>

function url_copy :: "block \<Rightarrow> nat \<Rightarrow> nat \<Rightarrow> string \<Rightarrow> mem_fault + string option" where
  "url_copy b l w acc =
     bindE (rd b w) (\<lambda>c.
       if length acc \<ge> l then Inl OutOfBounds
       else if c = CHR '' '' then Inr (Some acc)
       else if length acc + 1 > l then Inr None
       else bindE (rd b (w + 1)) (\<lambda>d.
         if d = NUL then Inr None else url_copy b l (w + 1) (acc @ [c])))"
  by pat_completeness auto
termination
  by (relation "measure (\<lambda>(b, l, w, acc). blk_size b - w)") (auto simp: fault_simps)

declare url_skip.simps [simp del] url_copy.simps [simp del]

definition url :: "http_fsm \<Rightarrow> nat \<Rightarrow> mem_fault + string option" where
  "url f l =
     (case zip (m_hd f) (m_hl f) of
        [] \<Rightarrow> Inl Uninitialised
      | (s, hl) # _ \<Rightarrow>
          bindE (url_skip (m_p f) s hl s) (\<lambda>r.
            case r of
              None \<Rightarrow> Inr None
            | Some w \<Rightarrow>
                bindE (rd (m_p f) (w + 1)) (\<lambda>c.
                  url_copy (m_p f) l (if c = CHR ''/'' then w + 2 else w + 1) [])))"

section \<open>Receiving\<close>

definition crlf_at :: "block \<Rightarrow> nat \<Rightarrow> mem_fault + bool" where
  "crlf_at b i = bindE (rd b i) (\<lambda>c. bindE (rd b (i + 1)) (\<lambda>d. Inr (c = CR \<and> d = LF)))"

definition recv_lf :: "http_fsm \<Rightarrow> mem_fault + nat" where
  "recv_lf f =
     bindE (if m_len f > 2 then crlf_at (m_p f) (m_len f - 2) else Inr False) (\<lambda>is_crlf.
       if is_crlf then Inr 2
       else bindE (if m_len f > 1 then rd (m_p f) (m_len f - 1) else Inr NUL) (\<lambda>c.
         if m_len f > 1 \<and> c = LF then Inr 1 else Inr 0))"

text \<open>\<open>for (; tmp > 0; tmp--) *(p - tmp) = 0;\<close>\<close>

fun null_out :: "block \<Rightarrow> nat \<Rightarrow> nat \<Rightarrow> mem_fault + block" where
  "null_out b p 0 = Inr b"
| "null_out b p (Suc tmp) = bindE (wr b (p - Suc tmp) NUL) (\<lambda>b'. null_out b' p tmp)"

definition chunked_tok :: "string option \<Rightarrow> bool" where
  "chunked_tok r = (case r of None \<Rightarrow> False | Some tok \<Rightarrow> is_prefix ''chunked'' tok)"

text \<open>What \<open>recv_header\<close> does at the empty line that ends the header.\<close>

definition header_done :: "http_fsm \<Rightarrow> nat \<Rightarrow> mem_fault + (http_fsm \<times> http_state)" where
  "header_done f p =
     bindE (putrc f) (\<lambda>(f1, sc).
       let f2 = f1\<lparr>m_res := word_of_int sc\<rparr> in
       bindE (hdrint f2 ''Content-Length'') (\<lambda>cl.
         case cl of
           Some cl \<Rightarrow>
             Inr (f2\<lparr>m_bd := Some p, m_bl := word_of_int cl\<rparr>, state_recv_body_nochunk)
         | None \<Rightarrow>
             bindE (hdrstr f2 ''Transfer-Encoding'' 256) (\<lambda>te.
               if chunked_tok te then
                 Inr (f2\<lparr>m_buf := p, m_bd := Some p, m_bl := 0\<rparr>, state_recv_bodylen)
               else
                 bindE (hashdr f2 ''Sec-WebSocket-Key'') (\<lambda>key.
                   if key then Inr (f2, state_websocket_establish)
                   else bindE (hashdr f2 ''Sec-WebSocket-Accept'') (\<lambda>acpt.
                     if acpt then Inr (f2, state_websocket_establish)
                     else if rc f2 = hrc_value HRC_OK then Inr (f2, state_error)
                     else Inr (f2, state_recv_finish))))))"

definition recv_header :: "http_fsm \<Rightarrow> mem_fault + (http_fsm \<times> http_state)" where
  "recv_header f =
     (let p = m_len f in
      bindE (recv_lf f) (\<lambda>nlf.
        if nlf = 0 then Inr (f, state_recv_header)
        else
          bindE (null_out (m_p f) p nlf) (\<lambda>b.
            let f1 = f\<lparr>m_p := b\<rparr> in
            if p - nlf = m_buf f1 then header_done f1 p
            else if hdrlen f1 < MAX_HEADER then
              Inr (f1\<lparr>m_hd := m_hd f1 @ [m_buf f1],
                      m_hl := m_hl f1 @ [(p - m_buf f1 - nlf) mod 2 ^ 16],
                      m_buf := p\<rparr>, state_recv_header)
            else Inr (f1, state_error))))"

text \<open>
  \<open>(bd + bl) - (m_p + m_len - nlf)\<close> as a signed distance between two positions of the buffer.
\<close>

definition body_diff :: "http_fsm \<Rightarrow> nat \<Rightarrow> mem_fault + int" where
  "body_diff f nlf =
     (case m_bd f of
        None \<Rightarrow> Inl NullDereference
      | Some bd \<Rightarrow> Inr ((int bd + uint (m_bl f)) - (int (m_len f) - int nlf)))"

definition recv_body :: "http_fsm \<Rightarrow> mem_fault + (http_fsm \<times> http_state)" where
  "recv_body f =
     bindE (recv_lf f) (\<lambda>nlf.
       if nlf = 0 then Inr (f, state_recv_body)
       else bindE (body_diff f nlf) (\<lambda>n_diff.
         if n_diff > 0 then Inr (f, state_recv_body)
         else if n_diff < 0 then Inr (f, state_error)
         else Inr (f\<lparr>m_len := m_len f - nlf, m_buf := m_len f - nlf\<rparr>, state_recv_bodylen)))"

definition recv_body_nochunk :: "http_fsm \<Rightarrow> mem_fault + (http_fsm \<times> http_state)" where
  "recv_body_nochunk f =
     bindE (body_diff f 0) (\<lambda>diff.
       if diff > 0 then Inr (f, state_recv_body_nochunk)
       else if diff < 0 then Inr (f, state_error)
       else Inr (f, state_recv_finish))"

text \<open>The part of \<open>recv_bodylen\<close> after a line end or a comment mark was seen.\<close>

definition bodylen_line :: "http_fsm \<Rightarrow> nat \<Rightarrow> http_state \<Rightarrow> mem_fault + (http_fsm \<times> http_state)" where
  "bodylen_line f nlf s =
     (let p = m_len f in
      bindE (null_out (m_p f) p nlf) (\<lambda>b.
        let f1 = f\<lparr>m_p := b\<rparr> in
        bindE (http_htoi (m_p f1) (m_buf f1) (p - m_buf f1)) (\<lambda>r.
          case r of
            None \<Rightarrow> Inr (f1, state_error)
          | Some cl \<Rightarrow>
              if cl = 0 then Inr (f1\<lparr>m_buf := p\<rparr>, state_recv_footer)
              else Inr (f1\<lparr>m_bl := m_bl f1 + cl, m_len := m_len f1 - (p - m_buf f1)\<rparr>, s))))"

definition recv_bodylen :: "http_fsm \<Rightarrow> mem_fault + (http_fsm \<times> http_state)" where
  "recv_bodylen f =
     bindE (recv_lf f) (\<lambda>nlf.
       if nlf \<noteq> 0 then bodylen_line f nlf state_recv_body
       else bindE (rd (m_p f) (m_len f)) (\<lambda>c.
         if c = CHR '';'' then bodylen_line f 1 state_recv_comment
         else Inr (f, state_recv_bodylen)))"

definition recv_footer :: "http_fsm \<Rightarrow> mem_fault + (http_fsm \<times> http_state)" where
  "recv_footer f =
     (let p = m_len f in
      bindE (recv_lf f) (\<lambda>nlf.
        if nlf = 0 then Inr (f, state_recv_footer)
        else
          bindE (null_out (m_p f) p nlf) (\<lambda>b.
            let f1 = f\<lparr>m_p := b\<rparr> in
            if p - nlf = m_buf f1 then Inr (f1, state_recv_finish)
            else if hdrlen f1 < MAX_HEADER then
              bindE (wr (m_p f1) p NUL) (\<lambda>b'.
                Inr (f1\<lparr>m_hd := m_hd f1 @ [m_buf f1],
                        m_hl := m_hl f1 @ [(p - m_buf f1 - nlf) mod 2 ^ 16],
                        m_p := b', m_buf := p\<rparr>, state_recv_footer))
            else Inr (f1, state_error))))"

definition recv_comment :: "http_fsm \<Rightarrow> mem_fault + (http_fsm \<times> http_state)" where
  "recv_comment f =
     bindE (recv_lf f) (\<lambda>nlf.
       if nlf = 0 then Inr (f, state_recv_comment)
       else Inr (f\<lparr>m_len := m_len f - (m_len f - m_buf f)\<rparr>, state_recv_body))"

text \<open>
  The loop of \<open>append\<close>. \<open>expand\<close> is the reallocation under \<open>EXPAND_BUFFER\<close>: the new size is
  \<open>limit * 2\<close>, and \<open>limit\<close> is \<open>m_max - 1\<close> each time, since \<open>m_max\<close> is not updated.
  \<open>put_char\<close> is \<open>m_p[m_len++] = *w++; m_p[m_len] = 0\<close>.
\<close>

definition expand :: "u32 \<Rightarrow> http_fsm \<Rightarrow> http_fsm" where
  "expand limit f =
     (if m_len f \<ge> unat limit then f\<lparr>m_p := blk_realloc (unat (limit * 2)) (m_p f)\<rparr> else f)"

definition put_char :: "char \<Rightarrow> http_fsm \<Rightarrow> mem_fault + http_fsm" where
  "put_char c f =
     bindE (wr (m_p f) (m_len f) c) (\<lambda>b.
     bindE (wr b (m_len f + 1) NUL) (\<lambda>b'.
       Inr (f\<lparr>m_p := b', m_len := m_len f + 1\<rparr>)))"

definition dispatch :: "http_state \<Rightarrow> http_fsm \<Rightarrow> mem_fault + (http_fsm \<times> http_state)" where
  "dispatch s f =
     (case s of
        state_recv_header \<Rightarrow> recv_header f
      | state_recv_body \<Rightarrow> recv_body f
      | state_recv_body_nochunk \<Rightarrow> recv_body_nochunk f
      | state_recv_bodylen \<Rightarrow> recv_bodylen f
      | state_recv_footer \<Rightarrow> recv_footer f
      | state_recv_comment \<Rightarrow> recv_comment f
      | _ \<Rightarrow> Inr (f, s))"

definition terminal :: "http_state \<Rightarrow> bool" where
  "terminal s \<longleftrightarrow> s = state_error \<or> s = state_recv_finish"

text \<open>
  One turn of the loop takes one byte. The loop leaves after the last byte of the slice, at a
  terminal state, and (\<open>goto end\<close>) after one byte when a web socket was established. An empty
  slice in a state that still reads makes it read one byte past the slice.
\<close>

fun append_loop :: "u32 \<Rightarrow> http_state \<Rightarrow> string \<Rightarrow> http_fsm \<Rightarrow> mem_fault + (http_fsm \<times> http_state)" where
  "append_loop limit s [] f = (if terminal s then Inr (f, s) else Inl InputOverrun)"
| "append_loop limit s (c # w) f =
     (if terminal s then Inr (f, s)
      else
        bindE (put_char c (expand limit f)) (\<lambda>f1.
          if s = state_websocket_establish then Inr (f1, s)
          else
            bindE (dispatch s f1) (\<lambda>(f2, s').
              if w = [] then Inr (f2, s') else append_loop limit s' w f2)))"

definition http_append :: "string \<Rightarrow> http_fsm \<Rightarrow> mem_fault + http_fsm" where
  "http_append b f =
     bindE (append_loop (m_max f - 1) (m_state f) b f) (\<lambda>(f', s). Inr (f'\<lparr>m_state := s\<rparr>))"

end
