(* ===== verification/Http_Receive.thy ===== *)
theory Http_Receive
  imports Http_FSM
begin

text \<open>
  How the receive buffer of \<open>Http_FSM\<close> evolves: which text it holds, how a line and a chunk are
  taken in, what a header look-up finds. The text held is a list; \<open>holds f xs\<close> ties it to the
  block, and every lemma about a pointer loop reduces it to a function on that list.
\<close>

section \<open>The text in the buffer\<close>

definition holds0 :: "http_fsm \<Rightarrow> string \<Rightarrow> bool" where
  "holds0 f xs \<longleftrightarrow> m_len f = length xs \<and> str_at (m_p f) 0 xs"

definition holds :: "http_fsm \<Rightarrow> string \<Rightarrow> bool" where
  "holds f xs \<longleftrightarrow> m_len f = length xs \<and> str_at (m_p f) 0 (xs @ [NUL])"

lemma holds_holds0: "holds f xs \<Longrightarrow> holds0 f xs"
  by (simp add: holds_def holds0_def str_at_append)

lemma holds_len: "holds f xs \<Longrightarrow> m_len f = length xs"
  by (simp add: holds_def)

lemma holds_rd: "holds f xs \<Longrightarrow> i < length xs \<Longrightarrow> rd (m_p f) i = Inr (xs ! i)"
  using str_at_nth [of "m_p f" 0 "xs @ [NUL]" i] by (simp add: holds_def nth_append)

lemma holds_rd_end: "holds f xs \<Longrightarrow> rd (m_p f) (length xs) = Inr NUL"
  by (simp add: holds_def str_at_append)

lemma holds_rd_some: "holds f xs \<Longrightarrow> i \<le> length xs \<Longrightarrow> \<exists>c. rd (m_p f) i = Inr c"
  using holds_rd holds_rd_end by (cases "i = length xs") auto

lemma holds_str_at: "holds f (us @ s @ vs) \<Longrightarrow> str_at (m_p f) (length us) s"
  by (auto simp: holds_def str_at_append)

lemma holds_cong:
  "m_len g = m_len f \<Longrightarrow> m_p g = m_p f \<Longrightarrow> holds g xs = holds f xs"
  by (simp add: holds_def)

text \<open>Writing over text already held.\<close>

lemma rd_wr:
  "wr b i c = Inr b' \<Longrightarrow> rd b' j = (if j = i then Inr c else rd b j)"
  by (auto simp: fault_simps rd_def deref_def)

lemma wr_held: "str_at b i s \<Longrightarrow> n < length s \<Longrightarrow> \<exists>b'. wr b (i + n) c = Inr b' \<and>
    str_at b' i (s[n := c]) \<and> blk_size b' = blk_size b \<and> (\<forall>j. j \<noteq> i + n \<longrightarrow> rd b' j = rd b j)"
proof -
  assume s: "str_at b i s" and n: "n < length s"
  have "i + n < blk_size b" using str_at_nth [OF s n] by (simp add: fault_simps)
  then have w: "wr b (i + n) c = Inr (b\<lparr>blk_bytes := (blk_bytes b)(i + n \<mapsto> c)\<rparr>)" (is "_ = Inr ?b")
    by (simp add: fault_simps)
  have "str_at ?b i (s[n := c])"
  proof (rule str_atI)
    fix m assume "m < length (s[n := c])"
    then show "rd ?b (i + m) = Inr (s[n := c] ! m)"
      using str_at_nth [OF s, of m] rd_wr [OF w, of "i + m"] by (auto simp: nth_list_update)
  qed
  with w rd_wr [OF w] show ?thesis by auto
qed

text \<open>Blanking the line end that was just received.\<close>

lemma null_out_2:
  assumes "holds f (us @ [c, d])"
  shows "\<exists>b. null_out (m_p f) (m_len f) 2 = Inr b \<and> blk_size b = blk_size (m_p f) \<and>
    holds (f\<lparr>m_p := b\<rparr>) (us @ [NUL, NUL])"
proof -
  let ?n = "length us"
  from assms have s: "str_at (m_p f) 0 (us @ [c, d, NUL])" by (simp add: holds_def)
  from wr_held [OF s, of ?n NUL] obtain b1 where b1: "wr (m_p f) ?n NUL = Inr b1"
    "str_at b1 0 (us @ [NUL, d, NUL])" "blk_size b1 = blk_size (m_p f)"
    by auto
  from wr_held [OF b1(2), of "Suc ?n" NUL] obtain b2 where b2: "wr b1 (Suc ?n) NUL = Inr b2"
    "str_at b2 0 (us @ [NUL, NUL, NUL])" "blk_size b2 = blk_size b1"
    by (auto simp: list_update_append)
  have "null_out (m_p f) (m_len f) 2 = Inr b2"
    using holds_len [OF assms] b1 b2 by (simp add: numeral_2_eq_2)
  with b1 b2 holds_len [OF assms] show ?thesis by (simp add: holds_def)
qed

section \<open>One more byte\<close>

text \<open>
  \<open>cap_ok n f\<close>: the buffer is the one of \<open>reset n\<close>, as allocated or as reallocated. Its size is
  at most \<open>2 * (n - 1)\<close>, whatever is received.
\<close>

definition cap_ok :: "nat \<Rightarrow> http_fsm \<Rightarrow> bool" where
  "cap_ok n f \<longleftrightarrow> unat (m_max f) = n \<and> (blk_size (m_p f) = n \<or> blk_size (m_p f) = 2 * (n - 1))"

definition chunk_ok :: "nat \<Rightarrow> bool" where
  "chunk_ok n \<longleftrightarrow> 2 \<le> n \<and> n \<le> 2 ^ 31"

lemma limit_unat: "chunk_ok n \<Longrightarrow> unat m = n \<Longrightarrow> unat (m - 1 :: u32) = n - 1"
  by (auto simp: chunk_ok_def unat_sub_if_size word_less_nat_alt)

lemma limit_double:
  assumes "chunk_ok n" and "unat m = n"
  shows "unat ((m - 1) * 2 :: u32) = 2 * (n - 1)"
proof -
  have "unat (m - 1) * unat (2 :: u32) < 2 ^ LENGTH(32)"
    using assms limit_unat [OF assms] by (simp add: chunk_ok_def) linarith
  then have "unat ((m - 1) * 2 :: u32) = unat (m - 1) * unat (2 :: u32)"
    using unat_mult_lem by blast
  then show ?thesis using limit_unat [OF assms] by simp
qed

lemma expand_step:
  assumes "chunk_ok n" and "cap_ok n f" and "holds0 f xs" and "length xs + 1 < 2 * (n - 1)"
  shows "\<exists>b. expand (m_max f - 1) f = f\<lparr>m_p := b\<rparr> \<and> str_at b 0 xs \<and> length xs + 1 < blk_size b
           \<and> (blk_size b = n \<or> blk_size b = 2 * (n - 1))"
proof (cases "m_len f \<ge> n - 1")
  case True
  have sz: "unat ((m_max f - 1) * 2) = 2 * (n - 1)"
    using assms by (intro limit_double) (auto simp: cap_ok_def)
  let ?b = "blk_realloc (2 * (n - 1)) (m_p f)"
  have "str_at ?b 0 xs"
  proof (rule str_atI)
    fix i assume i: "i < length xs"
    then have "rd (m_p f) i = Inr (xs ! i)"
      using assms str_at_nth [of "m_p f" 0 xs i] by (simp add: holds0_def)
    then show "rd ?b (0 + i) = Inr (xs ! i)"
      using i assms by (simp add: fault_simps blk_realloc_def)
  qed
  moreover have "expand (m_max f - 1) f = f\<lparr>m_p := ?b\<rparr>"
    using True sz assms limit_unat [of n "m_max f"] by (simp add: expand_def cap_ok_def)
  ultimately show ?thesis using assms by (intro exI [of _ ?b]) (auto simp: blk_realloc_def)
next
  case False
  then have "expand (m_max f - 1) f = f\<lparr>m_p := m_p f\<rparr>"
    using assms limit_unat [of n "m_max f"] by (simp add: expand_def cap_ok_def)
  with False assms show ?thesis
    by (intro exI [of _ "m_p f"]) (auto simp: holds0_def cap_ok_def)
qed

lemma put_char_step:
  assumes "str_at (m_p g) 0 xs" and "m_len g = length xs" and "length xs + 1 < blk_size (m_p g)"
  shows "\<exists>b. put_char c g = Inr (g\<lparr>m_p := b, m_len := length xs + 1\<rparr>) \<and> blk_size b = blk_size (m_p g)
           \<and> str_at b 0 (xs @ [c, NUL])"
proof -
  let ?n = "length xs"
  have "?n < blk_size (m_p g)" using assms by simp
  then obtain b1 where b1: "wr (m_p g) ?n c = Inr b1" and s1: "blk_size b1 = blk_size (m_p g)"
    by (simp add: fault_simps)
  with assms obtain b2 where b2: "wr b1 (?n + 1) NUL = Inr b2" and s2: "blk_size b2 = blk_size b1"
    by (simp add: fault_simps)
  have "str_at b2 0 (xs @ [c, NUL])"
  proof (rule str_atI)
    fix i assume "i < length (xs @ [c, NUL])"
    then consider "i < ?n" | "i = ?n" | "i = Suc ?n" by fastforce
    then show "rd b2 (0 + i) = Inr ((xs @ [c, NUL]) ! i)"
      using rd_wr [OF b1] rd_wr [OF b2] str_at_nth [OF assms(1)] by cases (auto simp: nth_append)
  qed
  with b1 b2 s1 s2 assms show ?thesis by (intro exI [of _ b2]) (simp add: put_char_def)
qed

text \<open>
  The bookkeeping of one received byte: \<open>f1\<close> differs from \<open>f\<close> in the block and its length only.
\<close>

lemma take_byte:
  assumes "chunk_ok n" and "cap_ok n f" and "holds0 f xs" and "length xs + 1 < 2 * (n - 1)"
  shows "\<exists>b. put_char c (expand (m_max f - 1) f) = Inr (f\<lparr>m_p := b, m_len := length xs + 1\<rparr>) \<and>
    holds (f\<lparr>m_p := b, m_len := length xs + 1\<rparr>) (xs @ [c]) \<and> cap_ok n (f\<lparr>m_p := b, m_len := length xs + 1\<rparr>)"
proof -
  from expand_step [OF assms] obtain b where b: "expand (m_max f - 1) f = f\<lparr>m_p := b\<rparr>"
    "str_at b 0 xs" "length xs + 1 < blk_size b" "blk_size b = n \<or> blk_size b = 2 * (n - 1)"
    by blast
  from put_char_step [of "f\<lparr>m_p := b\<rparr>" xs c] b assms(3) obtain b' where
    "put_char c (f\<lparr>m_p := b\<rparr>) = Inr (f\<lparr>m_p := b', m_len := length xs + 1\<rparr>)"
    "blk_size b' = blk_size b" "str_at b' 0 (xs @ [c, NUL])"
    by (auto simp: holds0_def)
  with b assms(2) show ?thesis by (intro exI [of _ b']) (simp add: holds_def cap_ok_def)
qed

text \<open>
  With the buffer full the byte is written inside the block, its terminator outside.
\<close>

lemma full_buffer:
  assumes "chunk_ok n" and "cap_ok n f" and "m_len f = 2 * (n - 1) - 1"
  shows "put_char c (expand (m_max f - 1) f) = Inl OutOfBounds"
proof -
  have "unat (m_max f - 1) \<le> m_len f"
    using assms limit_unat [of n "m_max f"] by (simp add: cap_ok_def chunk_ok_def)
  moreover have "unat ((m_max f - 1) * 2) = 2 * (n - 1)"
    using assms by (intro limit_double) (auto simp: cap_ok_def)
  ultimately show ?thesis using assms
    by (auto simp: expand_def put_char_def wr_def blk_realloc_def chunk_ok_def)
qed

section \<open>Line ends\<close>

lemma recv_lf_none: "holds f (ys @ [c]) \<Longrightarrow> c \<noteq> LF \<Longrightarrow> recv_lf f = Inr 0"
proof -
  assume h: "holds f (ys @ [c])" and c: "c \<noteq> LF"
  have len: "m_len f = length ys + 1" using holds_len [OF h] by simp
  have last: "rd (m_p f) (length ys) = Inr c" using holds_rd [OF h, of "length ys"] by simp
  show ?thesis
  proof (cases "length ys > 1")
    case True
    then obtain d where "rd (m_p f) (length ys - 1) = Inr d" using holds_rd [OF h] by auto
    with True len last c show ?thesis by (cases ys) (simp_all add: recv_lf_def crlf_at_def)
  next
    case False
    with len last c show ?thesis by (auto simp: recv_lf_def)
  qed
qed

lemma recv_lf_crlf: "holds f (ys @ [CR, LF]) \<Longrightarrow> ys \<noteq> [] \<Longrightarrow> recv_lf f = Inr 2"
  using holds_len [of f "ys @ [CR, LF]"] holds_rd [of f "ys @ [CR, LF]" "length ys"]
    holds_rd [of f "ys @ [CR, LF]" "length ys + 1"]
  by (cases ys) (auto simp: recv_lf_def crlf_at_def nth_append)

text \<open>The states that leave everything as it is until a line feed comes.\<close>

definition line_state :: "http_state \<Rightarrow> bool" where
  "line_state s \<longleftrightarrow> s \<in> {state_recv_header, state_recv_body, state_recv_bodylen, state_recv_footer}"

lemma dispatch_idle:
  assumes "line_state s" and "holds f (ys @ [c])" and "c \<noteq> LF"
  shows "dispatch s f = Inr (f, s)"
proof -
  have "rd (m_p f) (m_len f) = Inr NUL"
    using holds_rd_end [OF assms(2)] holds_len [OF assms(2)] by simp
  with recv_lf_none [OF assms(2,3)] assms(1) show ?thesis
    by (auto simp: line_state_def dispatch_def recv_header_def recv_body_def recv_bodylen_def
        recv_footer_def Let_def)
qed

section \<open>Feeding text\<close>

lemma append_loop_append:
  assumes "cs \<noteq> []" and "ds \<noteq> []" and "append_loop l s cs f = Inr (f', s')"
    and "s' \<noteq> state_websocket_establish"
  shows "append_loop l s (cs @ ds) f = append_loop l s' ds f'"
  using assms
proof (induction cs arbitrary: s f)
  case Nil
  then show ?case by simp
next
  case (Cons c cs)
  show ?case
  proof (cases "terminal s")
    case True
    with Cons.prems show ?thesis by (cases ds) auto
  next
    case False
    with Cons.prems obtain f1 f2 s2 where step: "put_char c (expand l f) = Inr f1"
      "s \<noteq> state_websocket_establish" "dispatch s f1 = Inr (f2, s2)"
      by (auto simp: fault_simps split: if_splits prod.splits)
    show ?thesis
    proof (cases cs)
      case Nil
      with False Cons.prems step show ?thesis by simp
    next
      case (Cons d cs')
      with False Cons.prems step have "append_loop l s2 cs f2 = Inr (f', s')" by simp
      then have "append_loop l s2 (cs @ ds) f2 = append_loop l s' ds f'"
        using Cons Cons.prems by (intro Cons.IH) auto
      with False Cons step show ?thesis by simp
    qed
  qed
qed

text \<open>
  \<open>takes f s cs f' s'\<close>: from state \<open>s\<close> the text \<open>cs\<close> is received without a fault and leaves the
  parser at \<open>f'\<close>, in state \<open>s'\<close>, ready for more.
\<close>

definition takes :: "http_fsm \<Rightarrow> http_state \<Rightarrow> string \<Rightarrow> http_fsm \<Rightarrow> http_state \<Rightarrow> bool" where
  "takes f s cs f' s' \<longleftrightarrow>
     (cs = [] \<and> f' = f \<and> s' = s) \<or>
     (cs \<noteq> [] \<and> append_loop (m_max f - 1) s cs f = Inr (f', s') \<and> m_max f' = m_max f
       \<and> s' \<noteq> state_websocket_establish)"

lemma takes_refl [simp]: "takes f s [] f s"
  by (simp add: takes_def)

lemma takes_trans:
  assumes "takes f s cs f1 s1" and "takes f1 s1 ds f2 s2"
  shows "takes f s (cs @ ds) f2 s2"
proof (cases "cs = [] \<or> ds = []")
  case True
  with assms show ?thesis by (auto simp: takes_def)
next
  case False
  with assms append_loop_append [of cs ds "m_max f - 1" s f f1 s1] show ?thesis
    by (auto simp: takes_def)
qed

lemma takes_append: "takes f (m_state f) cs f' s' \<Longrightarrow> cs \<noteq> [] \<Longrightarrow> http_append cs f = Inr (f'\<lparr>m_state := s'\<rparr>)"
  by (simp add: takes_def http_append_def)

text \<open>The place of the next byte: everything a step needs to know about the buffer.\<close>

definition room :: "nat \<Rightarrow> http_fsm \<Rightarrow> string \<Rightarrow> nat \<Rightarrow> bool" where
  "room n f xs k \<longleftrightarrow> chunk_ok n \<and> cap_ok n f \<and> holds0 f xs \<and> length xs + k < 2 * (n - 1)"

lemma takes_byte:
  assumes "room n f xs 1" and "\<not> terminal s" and "s \<noteq> state_websocket_establish"
  obtains b where "holds (f\<lparr>m_p := b, m_len := length xs + 1\<rparr>) (xs @ [c])"
    and "cap_ok n (f\<lparr>m_p := b, m_len := length xs + 1\<rparr>)"
    and "append_loop (m_max f - 1) s [c] f = dispatch s (f\<lparr>m_p := b, m_len := length xs + 1\<rparr>)"
proof -
  from take_byte [of n f xs c] assms(1) obtain b where b:
    "put_char c (expand (m_max f - 1) f) = Inr (f\<lparr>m_p := b, m_len := length xs + 1\<rparr>)"
    "holds (f\<lparr>m_p := b, m_len := length xs + 1\<rparr>) (xs @ [c])"
    "cap_ok n (f\<lparr>m_p := b, m_len := length xs + 1\<rparr>)"
    by (auto simp: room_def)
  have eta: "bindE m (\<lambda>(f2, s'). Inr (f2, s')) = m" for m :: "mem_fault + (http_fsm \<times> http_state)"
    by (cases m) auto
  from b assms eta show ?thesis by (intro that [of b]) simp_all
qed

text \<open>Bytes that change neither the state nor anything but the buffer.\<close>

lemma takes_while:
  assumes "room n f xs (length cs)" and s: "\<not> terminal s" "s \<noteq> state_websocket_establish"
    and idle: "\<And>b us c vs. cs = us @ c # vs \<Longrightarrow>
      holds (f\<lparr>m_p := b, m_len := length (xs @ us) + 1\<rparr>) ((xs @ us) @ [c]) \<Longrightarrow>
      dispatch s (f\<lparr>m_p := b, m_len := length (xs @ us) + 1\<rparr>) =
        Inr (f\<lparr>m_p := b, m_len := length (xs @ us) + 1\<rparr>, s)"
  shows "\<exists>b. takes f s cs (f\<lparr>m_p := b, m_len := length (xs @ cs)\<rparr>) s \<and>
    room n (f\<lparr>m_p := b, m_len := length (xs @ cs)\<rparr>) (xs @ cs) 0"
  using assms(1) idle
proof (induction cs rule: rev_induct)
  case Nil
  then have "f\<lparr>m_p := m_p f, m_len := length (xs @ [])\<rparr> = f"
    by (simp add: room_def holds0_def)
  with Nil show ?case by (intro exI [of _ "m_p f"]) (simp add: room_def)
next
  case (snoc c us)
  have r0: "room n f xs (length us)" using snoc.prems(1) by (simp add: room_def)
  obtain b where b: "takes f s us (f\<lparr>m_p := b, m_len := length (xs @ us)\<rparr>) s"
    "room n (f\<lparr>m_p := b, m_len := length (xs @ us)\<rparr>) (xs @ us) 0"
    using snoc.IH [OF r0] snoc.prems(2) by auto
  let ?f1 = "f\<lparr>m_p := b, m_len := length (xs @ us)\<rparr>"
  have "room n ?f1 (xs @ us) 1" using b(2) snoc.prems(1) by (simp add: room_def)
  from takes_byte [OF this s, of c] obtain b' where
    "holds (?f1\<lparr>m_p := b', m_len := length (xs @ us) + 1\<rparr>) ((xs @ us) @ [c])"
    "cap_ok n (?f1\<lparr>m_p := b', m_len := length (xs @ us) + 1\<rparr>)"
    "append_loop (m_max ?f1 - 1) s [c] ?f1 = dispatch s (?f1\<lparr>m_p := b', m_len := length (xs @ us) + 1\<rparr>)"
    by blast
  then have h: "holds (f\<lparr>m_p := b', m_len := length (xs @ us) + 1\<rparr>) ((xs @ us) @ [c])"
    and c: "cap_ok n (f\<lparr>m_p := b', m_len := length (xs @ us) + 1\<rparr>)"
    and l: "append_loop (m_max f - 1) s [c] ?f1 = dispatch s (f\<lparr>m_p := b', m_len := length (xs @ us) + 1\<rparr>)"
    by simp_all
  have "takes ?f1 s [c] (f\<lparr>m_p := b', m_len := length (xs @ us) + 1\<rparr>) s"
    using snoc.prems(2) [OF _ h, of "[]"] l s by (simp add: takes_def del: append_loop.simps)
  from takes_trans [OF b(1) this] c holds_holds0 [OF h] snoc.prems(1) show ?case
    by (intro exI [of _ b']) (simp add: room_def)
qed

lemma takes_plain:
  assumes "line_state s" and "LF \<notin> set cs" and "room n f xs (length cs)"
  shows "\<exists>b. takes f s cs (f\<lparr>m_p := b, m_len := length (xs @ cs)\<rparr>) s \<and>
    room n (f\<lparr>m_p := b, m_len := length (xs @ cs)\<rparr>) (xs @ cs) 0"
proof (rule takes_while [OF assms(3)])
  fix b us c vs
  assume cs: "cs = us @ c # vs"
    and h: "holds (f\<lparr>m_p := b, m_len := length (xs @ us) + 1\<rparr>) ((xs @ us) @ [c])"
  have "c \<noteq> LF" using assms(2) cs by auto
  with assms(1) h show "dispatch s (f\<lparr>m_p := b, m_len := length (xs @ us) + 1\<rparr>) =
      Inr (f\<lparr>m_p := b, m_len := length (xs @ us) + 1\<rparr>, s)"
    by (rule dispatch_idle)
qed (use assms(1) in \<open>auto simp: line_state_def terminal_def\<close>)

end
