(* ===== verification/Http_Request.thy ===== *)
theory Http_Request
  imports Http_Receive
begin

text \<open>
  Whole HTTP messages through the parser: the specification of a header look-up on plain
  lines and its refinement by \<open>hdrstr\<close>, the reception of a header section, of a body with
  \<open>Content-Length\<close> and of a chunked body.
\<close>

section \<open>Header look-up, specified on lines\<close>

definition sep_char :: "char \<Rightarrow> bool" where
  "sep_char c \<longleftrightarrow> c = CHR '' '' \<or> c = CHR '':''"

text \<open>
  The first line that starts with the key, letters compared without case, gives the value: what
  follows the key, without its leading blanks and colons, if it fits into \<open>l\<close> bytes.
\<close>

definition key_starts :: "string \<Rightarrow> string \<Rightarrow> bool" where
  "key_starts key line = is_prefix (map c_tolower key) (map c_tolower line)"

definition value_of :: "string \<Rightarrow> string \<Rightarrow> string" where
  "value_of key line = dropWhile sep_char (drop (length key) line)"

fun hdr_find :: "nat \<Rightarrow> string \<Rightarrow> string list \<Rightarrow> string option" where
  "hdr_find l key [] = None"
| "hdr_find l key (line # lines) =
     (if key_starts key line then
        (if length (value_of key line) < l then Some (value_of key line) else None)
      else hdr_find l key lines)"

definition hdr_find_int :: "string \<Rightarrow> string list \<Rightarrow> int option" where
  "hdr_find_int key lines =
     (case hdr_find 256 key lines of
        None \<Rightarrow> None
      | Some v \<Rightarrow> (case stoi v of None \<Rightarrow> None | Some (i, idx) \<Rightarrow> if idx \<noteq> length v then None else Some i))"

lemma c_tolower_NUL: "c_tolower c = NUL \<Longrightarrow> c = NUL"
proof (rule ccontr)
  assume tl: "c_tolower c = NUL" and c: "c \<noteq> NUL"
  then have r: "in_range (CHR ''A'') (CHR ''Z'') c" and z: "char_of (of_char c + 32 :: nat) = NUL"
    by (auto simp: c_tolower_def split: if_splits)
  from r have "65 \<le> (of_char c :: nat)" and "(of_char c :: nat) \<le> 90"
    by (auto simp: in_range_def less_eq_char_def)
  moreover from arg_cong [OF z, of "of_char :: char \<Rightarrow> nat"]
  have "(of_char c + 32 :: nat) mod 256 = 0"
    by (simp only: of_char_of) simp
  ultimately show False by simp
qed

text \<open>The pointer loops of \<open>hdrstr\<close> on a stored line compute the functions on lists.\<close>

lemma match_key_str:
  assumes "str_at b p (line @ [NUL])" and "NUL \<notin> set line" and "NUL \<notin> set key" and "k + length line \<le> hl"
  shows "match_key b hl key k p =
    Inr (if key_starts key line then KeyFound (p + length key) else KeyMismatch)"
  using assms
proof (induction key arbitrary: p line k)
  case Nil
  then show ?case by (simp add: key_starts_def)
next
  case (Cons c key)
  show ?case
  proof (cases line)
    case Nil
    have "c_tolower c \<noteq> c_tolower NUL"
      using Cons.prems(3) c_tolower_NUL [of c] by (auto simp: c_tolower_def in_range_def split: if_splits)
    with Nil Cons.prems show ?thesis by (simp add: key_starts_def)
  next
    case (Cons d line')
    then have "match_key b hl key (k + 1) (p + 1) =
        Inr (if key_starts key line' then KeyFound (p + 1 + length key) else KeyMismatch)"
      using Cons.prems by (intro Cons.IH) auto
    with Cons Cons.prems show ?thesis by (auto simp: key_starts_def)
  qed
qed

lemma skip_sep_str:
  assumes "str_at b p (s @ [NUL])" and "NUL \<notin> set s" and "h \<le> p"
  shows "skip_sep b h hl p = Inr (Some (p + length (takeWhile sep_char s)))"
  using assms
proof (induction s arbitrary: p)
  case Nil
  then show ?case by (simp add: skip_sep.simps [of b h hl p])
next
  case (Cons c s)
  have "skip_sep b h hl (p + 1) = Inr (Some (p + 1 + length (takeWhile sep_char s)))"
    using Cons.prems by (intro Cons.IH) auto
  moreover have "sep_char c \<longleftrightarrow> c = CHR '' '' \<or> c = CHR '':''"
    by (rule sep_char_def)
  ultimately show ?case
    using Cons.prems by (cases "sep_char c") (auto simp: skip_sep.simps [of b h hl p])
qed

lemma copy_val_str:
  assumes "str_at b p (s @ [NUL])" and "NUL \<notin> set s" and "length acc < l"
  shows "copy_val b l p acc = Inr (if length acc + length s < l then Some (acc @ s) else None)"
  using assms
proof (induction s arbitrary: p acc)
  case Nil
  then show ?case by (simp add: copy_val.simps [of b l p acc])
next
  case (Cons c s)
  have "length acc + 1 < l \<Longrightarrow> copy_val b l (p + 1) (acc @ [c]) =
      Inr (if length (acc @ [c]) + length s < l then Some ((acc @ [c]) @ s) else None)"
    using Cons.prems by (intro Cons.IH) auto
  with Cons.prems show ?case by (auto simp: copy_val.simps [of b l p acc])
qed

text \<open>\<open>line_at b h line\<close>: a header line is stored at \<open>h\<close>, its length fits the 16 bits of \<open>hl\<close>.\<close>

definition line_at :: "block \<Rightarrow> nat \<times> nat \<Rightarrow> string \<Rightarrow> bool" where
  "line_at b hh line \<longleftrightarrow> cstr_at b (fst hh) line \<and> snd hh = length line"

lemma key_starts_split: "key_starts key line \<Longrightarrow> line = take (length key) line @ drop (length key) line \<and> length key \<le> length line"
  by (auto simp: key_starts_def is_prefix_iff dest: arg_cong [where f = length])

lemma hdrstr_loop_lines:
  assumes "list_all2 (line_at b) hs lines" and "NUL \<notin> set key" and "0 < l"
  shows "hdrstr_loop b key l hs = Inr (hdr_find l key lines)"
  using assms(1)
proof (induction rule: list_all2_induct)
  case Nil
  then show ?case by simp
next
  case (Cons hh hs line lines)
  obtain h hl where hh: "hh = (h, hl)" by fastforce
  from Cons.hyps hh have s: "str_at b h (line @ [NUL])" "NUL \<notin> set line" "hl = length line"
    by (auto simp: line_at_def cstr_at_def)
  have m: "match_key b hl key 0 h = Inr (if key_starts key line then KeyFound (h + length key) else KeyMismatch)"
    using s assms by (intro match_key_str) auto
  show ?case
  proof (cases "key_starts key line")
    case False
    with m hh Cons.IH show ?thesis by simp
  next
    case True
    let ?r = "drop (length key) line"
    let ?w = "takeWhile sep_char ?r"
    have len: "length (take (length key) line) = length key"
      using key_starts_split [OF True] by simp
    have "str_at b h ((take (length key) line @ ?r) @ [NUL])" using s(1) by simp
    then have r: "str_at b (h + length key) (?r @ [NUL])"
      unfolding append_assoc str_at_append len by simp
    have "NUL \<notin> set ?r" using s(2) by (meson in_set_dropD)
    with r have sk: "skip_sep b h hl (h + length key) = Inr (Some (h + length key + length ?w))"
      by (intro skip_sep_str) auto
    have "str_at b (h + length key) ((?w @ value_of key line) @ [NUL])"
      using r by (simp add: value_of_def)
    then have v: "str_at b (h + length key + length ?w) (value_of key line @ [NUL])"
      unfolding append_assoc str_at_append by simp
    have "NUL \<notin> set (value_of key line)"
      using \<open>NUL \<notin> set ?r\<close> by (auto simp: value_of_def dest: set_dropWhileD)
    with v assms(3) have "copy_val b l (h + length key + length ?w) [] =
        Inr (if length (value_of key line) < l then Some (value_of key line) else None)"
      using copy_val_str [of b _ "value_of key line" "[]" l] by simp
    with True m sk hh show ?thesis by simp
  qed
qed

definition lines_of :: "http_fsm \<Rightarrow> string list \<Rightarrow> bool" where
  "lines_of f lines \<longleftrightarrow>
     list_all2 (line_at (m_p f)) (zip (m_hd f) (m_hl f)) lines \<and> length (m_hd f) = length (m_hl f)"

lemma hdrstr_lines:
  "lines_of f lines \<Longrightarrow> NUL \<notin> set key \<Longrightarrow> 0 < l \<Longrightarrow> hdrstr f key l = Inr (hdr_find l key lines)"
  by (simp add: hdrstr_def lines_of_def hdrstr_loop_lines)

lemma hashdr_lines:
  "lines_of f lines \<Longrightarrow> NUL \<notin> set key \<Longrightarrow> hashdr f key = Inr (hdr_find 256 key lines \<noteq> None)"
  by (simp add: hashdr_def hdrstr_lines)

lemma hdrint_lines:
  "lines_of f lines \<Longrightarrow> NUL \<notin> set key \<Longrightarrow> hdrint f key = Inr (hdr_find_int key lines)"
  by (auto simp: hdrint_def hdrstr_lines hdr_find_int_def split: option.splits)

lemma lines_of_cong:
  "m_hd g = m_hd f \<Longrightarrow> m_hl g = m_hl f \<Longrightarrow> m_p g = m_p f \<Longrightarrow> lines_of g lines = lines_of f lines"
  by (simp add: lines_of_def)

section \<open>Receiving the header section\<close>

definition line_ok :: "string \<Rightarrow> bool" where
  "line_ok line \<longleftrightarrow> line \<noteq> [] \<and> NUL \<notin> set line \<and> LF \<notin> set line \<and> length line < 2 ^ 16"

definition lines_in :: "http_fsm \<Rightarrow> string \<Rightarrow> string list \<Rightarrow> bool" where
  "lines_in f xs lines \<longleftrightarrow>
     lines_of f lines \<and> (\<forall>(h, hl) \<in> set (zip (m_hd f) (m_hl f)). h + hl < length xs) \<and>
     (lines \<noteq> [] \<longrightarrow> m_hd f ! 0 = 0)"

definition hdr_state :: "nat \<Rightarrow> http_fsm \<Rightarrow> string \<Rightarrow> string list \<Rightarrow> bool" where
  "hdr_state n f xs lines \<longleftrightarrow>
     chunk_ok n \<and> cap_ok n f \<and> holds0 f xs \<and> m_buf f = length xs \<and> lines_in f xs lines \<and> (lines = [] \<longrightarrow> xs = []) \<and>
     m_bd f = None"

lemma line_at_cong:
  assumes "line_at b (h, hl) line" and "h + hl < k" and "\<And>i. i < k \<Longrightarrow> rd b' i = rd b i"
  shows "line_at b' (h, hl) line"
proof -
  from assms(1) have c: "str_at b h (line @ [NUL])" and l: "hl = length line" "NUL \<notin> set line"
    by (auto simp: line_at_def cstr_at_def)
  have "str_at b' h (line @ [NUL])"
  proof (rule str_atI)
    fix i assume i: "i < length (line @ [NUL])"
    with l assms(2,3) have "rd b' (h + i) = rd b (h + i)" by auto
    with str_at_nth [OF c i] show "rd b' (h + i) = Inr ((line @ [NUL]) ! i)" by simp
  qed
  with l show ?thesis by (simp add: line_at_def cstr_at_def)
qed

text \<open>Lines already stored stay, as long as the text up to their end stays.\<close>

lemma lines_in_keep:
  assumes "lines_in f xs lines" and "m_hd g = m_hd f" and "m_hl g = m_hl f"
    and "length xs \<le> length ys" and "\<And>i. i < length xs \<Longrightarrow> rd (m_p g) i = rd (m_p f) i"
  shows "lines_in g ys lines"
proof -
  let ?hs = "zip (m_hd f) (m_hl f)"
  have old: "list_all2 (line_at (m_p f)) ?hs lines" and small: "\<forall>(h, hl) \<in> set ?hs. h + hl < length xs"
    using assms(1) by (auto simp: lines_in_def lines_of_def)
  have "list_all2 (line_at (m_p g)) ?hs lines"
    using old by (rule list.rel_mono_strong) (use small in \<open>auto intro: line_at_cong [OF _ _ assms(5)]\<close>)
  with assms show ?thesis by (fastforce simp: lines_in_def lines_of_def)
qed

lemma holds0_rd_same:
  assumes "holds0 f xs" and "holds0 g (xs @ ys)" and "i < length xs"
  shows "rd (m_p g) i = rd (m_p f) i"
  using assms str_at_nth [of "m_p f" 0 xs i] str_at_nth [of "m_p g" 0 "xs @ ys" i]
  by (simp add: holds0_def nth_append)

text \<open>Reading a line without its line feed, then the carriage return, then the line feed.\<close>

lemma takes_to_cr:
  assumes "line_state s" and "LF \<notin> set cs" and "room n f xs (length cs + 2)"
  obtains b where "takes f s (cs @ [CR]) (f\<lparr>m_p := b, m_len := length (xs @ cs) + 1\<rparr>) s"
    and "holds0 (f\<lparr>m_p := b, m_len := length (xs @ cs) + 1\<rparr>) (xs @ cs @ [CR])"
    and "room n (f\<lparr>m_p := b, m_len := length (xs @ cs) + 1\<rparr>) (xs @ cs @ [CR]) 1"
  using takes_plain [of s "cs @ [CR]" n f xs] assms by (auto simp: room_def)

lemma takes_crlf:
  assumes "line_state s" and "LF \<notin> set cs" and "room n f xs (length cs + 2)" and "xs @ cs \<noteq> []"
  obtains b f1 where "f1 = f\<lparr>m_p := b, m_len := length (xs @ cs) + 2\<rparr>"
    and "holds f1 ((xs @ cs) @ [CR, LF])" and "cap_ok n f1" and "recv_lf f1 = Inr 2"
    and "\<And>f' s'. dispatch s f1 = Inr (f', s') \<Longrightarrow> m_max f' = m_max f \<Longrightarrow> s' \<noteq> state_websocket_establish \<Longrightarrow>
           takes f s (cs @ [CR, LF]) f' s'"
    and "\<And>f' s'. dispatch s f1 = Inr (f', s') \<Longrightarrow>
           append_loop (m_max f - 1) s (cs @ [CR, LF]) f = Inr (f', s')"
proof -
  have s: "\<not> terminal s" "s \<noteq> state_websocket_establish"
    using assms(1) by (auto simp: line_state_def terminal_def)
  obtain b where b: "takes f s (cs @ [CR]) (f\<lparr>m_p := b, m_len := length (xs @ cs) + 1\<rparr>) s"
    "room n (f\<lparr>m_p := b, m_len := length (xs @ cs) + 1\<rparr>) (xs @ cs @ [CR]) 1"
    using takes_to_cr [OF assms(1-3)] by blast
  let ?g = "f\<lparr>m_p := b, m_len := length (xs @ cs) + 1\<rparr>"
  obtain b' where b': "holds (?g\<lparr>m_p := b', m_len := length (xs @ cs @ [CR]) + 1\<rparr>) ((xs @ cs @ [CR]) @ [LF])"
    "cap_ok n (?g\<lparr>m_p := b', m_len := length (xs @ cs @ [CR]) + 1\<rparr>)"
    "append_loop (m_max ?g - 1) s [LF] ?g = dispatch s (?g\<lparr>m_p := b', m_len := length (xs @ cs @ [CR]) + 1\<rparr>)"
    using takes_byte [OF b(2) s, of LF] by blast
  let ?f1 = "f\<lparr>m_p := b', m_len := length (xs @ cs) + 2\<rparr>"
  have eq: "?g\<lparr>m_p := b', m_len := length (xs @ cs @ [CR]) + 1\<rparr> = ?f1" by simp
  have h: "holds ?f1 ((xs @ cs) @ [CR, LF])" using b'(1) unfolding eq by simp
  have one: "takes ?g s [LF] f' s'" if "dispatch s ?f1 = Inr (f', s')" "m_max f' = m_max f" "s' \<noteq> state_websocket_establish" for f' s'
    using that b'(3) unfolding eq by (simp add: takes_def del: append_loop.simps)
  have two: "append_loop (m_max f - 1) s ((cs @ [CR]) @ [LF]) f = append_loop (m_max f - 1) s [LF] ?g"
    using b(1) s by (intro append_loop_append) (auto simp: takes_def)
  show ?thesis
  proof (rule that)
    show "?f1 = ?f1" ..
    show "holds ?f1 ((xs @ cs) @ [CR, LF])" by (rule h)
    show "cap_ok n ?f1" using b'(2) unfolding eq .
    show "recv_lf ?f1 = Inr 2" by (rule recv_lf_crlf [OF h assms(4)])
    show "takes f s (cs @ [CR, LF]) f' s'" if "dispatch s ?f1 = Inr (f', s')" "m_max f' = m_max f" "s' \<noteq> state_websocket_establish" for f' s'
      using takes_trans [OF b(1) one [OF that]] by simp
    show "append_loop (m_max f - 1) s (cs @ [CR, LF]) f = Inr (f', s')" if "dispatch s ?f1 = Inr (f', s')" for f' s'
      using two b'(3) that unfolding eq by (simp del: append_loop.simps)
  qed
qed

lemma takes_line:
  assumes st: "hdr_state n f xs lines" and ok: "line_ok line" and cnt: "length lines < MAX_HEADER"
    and fits: "length xs + length line + 2 < 2 * (n - 1)"
  shows "\<exists>f'. takes f state_recv_header (line @ [CR, LF]) f' state_recv_header \<and>
    hdr_state n f' (xs @ line @ [NUL, NUL]) (lines @ [line])"
proof -
  from st have r: "room n f xs (length line + 2)" using fits by (simp add: hdr_state_def room_def)
  have ls: "line_state state_recv_header" by (simp add: line_state_def)
  have nonempty: "xs @ line \<noteq> []" and lf: "LF \<notin> set line" using ok by (auto simp: line_ok_def)
  obtain b f1 where f1: "f1 = f\<lparr>m_p := b, m_len := length (xs @ line) + 2\<rparr>"
    and h1: "holds f1 ((xs @ line) @ [CR, LF])" and c1: "cap_ok n f1" and lf1: "recv_lf f1 = Inr 2"
    and step: "\<And>f' s'. dispatch state_recv_header f1 = Inr (f', s') \<Longrightarrow> m_max f' = m_max f \<Longrightarrow>
      s' \<noteq> state_websocket_establish \<Longrightarrow> takes f state_recv_header (line @ [CR, LF]) f' s'"
    using takes_crlf [OF ls lf r nonempty] by metis
  obtain b2 where b2: "null_out (m_p f1) (m_len f1) 2 = Inr b2" "blk_size b2 = blk_size (m_p f1)"
    "holds (f1\<lparr>m_p := b2\<rparr>) ((xs @ line) @ [NUL, NUL])"
    using null_out_2 [OF h1] by auto
  let ?f2 = "f1\<lparr>m_p := b2, m_hd := m_hd f @ [length xs], m_hl := m_hl f @ [length line],
    m_buf := length xs + length line + 2\<rparr>"
  have buf: "m_buf f = length xs" and cap: "chunk_ok n" and h0: "holds0 f xs" and lin: "lines_in f xs lines"
    using st by (auto simp: hdr_state_def)
  have n_hd: "length (m_hd f) = length lines"
    using lin by (auto simp: lines_in_def lines_of_def dest: list_all2_lengthD)
  have "dispatch state_recv_header f1 = Inr (?f2, state_recv_header)"
    using lf1 b2 cnt n_hd buf ok
    by (simp add: dispatch_def recv_header_def f1 hdrlen_def line_ok_def)
  then have t: "takes f state_recv_header (line @ [CR, LF]) ?f2 state_recv_header"
    by (rule step) (simp_all add: f1)
  have h2: "holds0 ?f2 (xs @ line @ [NUL, NUL])"
    using holds_holds0 [OF b2(3)] by (simp add: holds0_def)
  let ?g = "f\<lparr>m_p := b2\<rparr>"
  have keep: "lines_in ?g (xs @ line @ [NUL, NUL]) lines"
    using holds0_rd_same [OF h0 h2] by (intro lines_in_keep [OF lin]) auto
  have "cstr_at b2 (length xs) line"
    using ok h2 by (simp add: holds0_def cstr_at_def str_at_append line_ok_def)
  then have "line_at b2 (length xs, length line) line" by (simp add: line_at_def)
  with keep st lin have "lines_in ?f2 (xs @ line @ [NUL, NUL]) (lines @ [line])"
    by (auto simp: lines_in_def lines_of_def hdr_state_def nth_append list_all2_appendI f1)
  moreover have "m_bd f = None" using st by (simp add: hdr_state_def)
  ultimately have "hdr_state n ?f2 (xs @ line @ [NUL, NUL]) (lines @ [line])"
    using h2 cap c1 b2(2) by (simp add: hdr_state_def cap_ok_def f1)
  with t show ?thesis by blast
qed

fun header_text :: "string list \<Rightarrow> string" where
  "header_text [] = []"
| "header_text (line # lines) = line @ [CR, LF] @ header_text lines"

fun blanked :: "string list \<Rightarrow> string" where
  "blanked [] = []"
| "blanked (line # lines) = line @ [NUL, NUL] @ blanked lines"

lemma length_blanked: "length (blanked lines) = length (header_text lines)"
  by (induction lines) auto

lemma takes_lines:
  assumes "hdr_state n f xs lines" and "\<forall>line \<in> set new. line_ok line"
    and "length lines + length new \<le> MAX_HEADER"
    and "length xs + length (header_text new) < 2 * (n - 1)"
  shows "\<exists>f'. takes f state_recv_header (header_text new) f' state_recv_header \<and>
    hdr_state n f' (xs @ blanked new) (lines @ new)"
  using assms
proof (induction new arbitrary: f xs lines)
  case Nil
  then show ?case by (intro exI [of _ f]) simp
next
  case (Cons line new)
  from Cons.prems obtain f1 where f1: "takes f state_recv_header (line @ [CR, LF]) f1 state_recv_header"
    "hdr_state n f1 (xs @ line @ [NUL, NUL]) (lines @ [line])"
    using takes_line [of n f xs lines line] by auto
  from Cons.prems f1(2) obtain f2 where f2: "takes f1 state_recv_header (header_text new) f2 state_recv_header"
    "hdr_state n f2 ((xs @ line @ [NUL, NUL]) @ blanked new) ((lines @ [line]) @ new)"
    using Cons.IH [of f1 "xs @ line @ [NUL, NUL]" "lines @ [line]"] by auto
  with takes_trans [OF f1(1) f2(1)] show ?case by auto
qed

text \<open>The status line is read without leaving the text, whatever it holds.\<close>

lemma rc_skip_total:
  assumes "\<And>i. i \<le> z \<Longrightarrow> \<exists>c. rd b i = Inr c" and "rd b z = Inr NUL" and "w \<le> z"
  shows "\<exists>r. rc_skip b s hl w = Inr r \<and> (\<forall>w'. r = Some w' \<longrightarrow> w' \<le> z)"
  using assms(3)
proof (induction "z - w" arbitrary: w)
  case 0
  then have "w = z" by simp
  with assms(2) show ?case by (simp add: rc_skip.simps [of b s hl z])
next
  case (Suc k)
  obtain c where c: "rd b w = Inr c" using assms(1) Suc.prems by blast
  have "w + 1 \<le> z" using Suc by simp
  moreover obtain d where "rd b (w + 1) = Inr d" using assms(1) calculation by blast
  moreover have "\<exists>r. rc_skip b s hl (w + 1) = Inr r \<and> (\<forall>w'. r = Some w' \<longrightarrow> w' \<le> z)"
    using Suc by (intro Suc.hyps(1)) auto
  ultimately show ?case using c Suc.prems by (auto simp: rc_skip.simps [of b s hl w])
qed

lemma rc_copy_total:
  assumes "\<And>i. i \<le> z \<Longrightarrow> \<exists>c. rd b i = Inr c" and "rd b z = Inr NUL" and "w \<le> z"
  shows "\<exists>r. rc_copy b s hl w tok = Inr r"
  using assms(3)
proof (induction "z - w" arbitrary: w tok)
  case 0
  then have "w = z" by simp
  with assms(2) show ?case by (simp add: rc_copy.simps [of b s hl z tok])
next
  case (Suc k)
  obtain c where c: "rd b w = Inr c" using assms(1) Suc.prems by blast
  have "\<exists>r. rc_copy b s hl (w + 1) (tok @ [c]) = Inr r"
    using Suc by (intro Suc.hyps(1)) auto
  with c show ?case by (auto simp: rc_copy.simps [of b s hl w tok])
qed

lemma status_code_total:
  assumes "holds f xs" and "w \<le> length xs"
  shows "\<exists>sc. status_code f s hl w = Inr sc"
proof -
  let ?b = "m_p f"
  have ini: "\<And>i. i \<le> length xs \<Longrightarrow> \<exists>c. rd ?b i = Inr c" and nul: "rd ?b (length xs) = Inr NUL"
    using holds_rd_some [OF assms(1)] holds_rd_end [OF assms(1)] by auto
  obtain r where r: "rc_skip ?b s hl w = Inr r" "\<And>w'. r = Some w' \<Longrightarrow> w' \<le> length xs"
    using rc_skip_total [OF ini nul assms(2)] by blast
  show ?thesis
  proof (cases r)
    case None
    with r show ?thesis by (simp add: status_code_def)
  next
    case (Some w')
    with r obtain t where "rc_copy ?b s hl w' [] = Inr t"
      using rc_copy_total [OF ini nul] by blast
    with Some r show ?thesis by (auto simp: status_code_def split: option.splits)
  qed
qed

lemma memcmp_eq_total:
  assumes "holds f xs" and "i + 3 \<le> length xs + 1"
  shows "\<exists>r. memcmp_eq (m_p f) i [x, y, z] = Inr r"
proof -
  obtain c d e where "rd (m_p f) i = Inr c" "rd (m_p f) (Suc i) = Inr d" "rd (m_p f) (Suc (Suc i)) = Inr e"
    using holds_rd_some [OF assms(1), of i] holds_rd_some [OF assms(1), of "Suc i"]
      holds_rd_some [OF assms(1), of "Suc (Suc i)"] assms(2) by auto
  then show ?thesis by (simp add: memcmp_eq_def numeral_eq_Suc)
qed

lemma putrc_total:
  assumes "holds f xs" and "zip (m_hd f) (m_hl f) = (0, hl) # rest" and "8 \<le> length xs"
  shows "\<exists>v sc. putrc f = Inr (f\<lparr>m_version := v\<rparr>, sc)"
proof -
  obtain sc where sc: "status_code f 0 hl 8 = Inr sc"
    using status_code_total [OF assms(1,3)] by blast
  obtain r1 where r1: "memcmp_eq (m_p f) 5 ''1.1'' = Inr r1"
    using memcmp_eq_total [OF assms(1), of 5] assms(3) by fastforce
  obtain r0 where r0: "memcmp_eq (m_p f) 5 ''1.0'' = Inr r0"
    using memcmp_eq_total [OF assms(1), of 5] assms(3) by fastforce
  have "putrc f = Inr (if r1 then (f\<lparr>m_version := 11\<rparr>, sc) else if r0 then (f\<lparr>m_version := 10\<rparr>, sc)
      else (f\<lparr>m_version := m_version f\<rparr>, hrc_value HRC_ERROR))"
    using sc r1 r0 assms(2) by (cases r1; cases r0) (simp_all add: putrc_def)
  then show ?thesis by (cases r1; cases r0) (simp_all only: if_True if_False, blast+)
qed

section \<open>The empty line\<close>

text \<open>
  What the parser knows after the header section: the lines and the start of the body.
\<close>

definition head_read :: "nat \<Rightarrow> http_fsm \<Rightarrow> string \<Rightarrow> string list \<Rightarrow> bool" where
  "head_read n f xs lines \<longleftrightarrow>
     chunk_ok n \<and> cap_ok n f \<and> holds0 f xs \<and> lines_in f xs lines \<and> m_bd f = Some (length xs)"

lemma header_done_content_length:
  assumes "lines_of f lines" and "putrc f = Inr (f\<lparr>m_version := v\<rparr>, sc)"
    and "hdr_find_int ''Content-Length'' lines = Some cl"
  shows "header_done f p = Inr (f\<lparr>m_version := v, m_res := word_of_int sc, m_bd := Some p,
      m_bl := word_of_int cl\<rparr>, state_recv_body_nochunk)"
proof -
  have "hdrint (f\<lparr>m_version := v, m_res := word_of_int sc\<rparr>) ''Content-Length'' = Inr (Some cl)"
    using assms(1,3) by (subst hdrint_lines [of _ lines]) (auto simp: lines_of_def)
  then show ?thesis using assms(2) by (simp add: header_done_def)
qed

lemma header_done_chunked:
  assumes "lines_of f lines" and "putrc f = Inr (f\<lparr>m_version := v\<rparr>, sc)"
    and "hdr_find_int ''Content-Length'' lines = None"
    and "chunked_tok (hdr_find 256 ''Transfer-Encoding'' lines)"
  shows "header_done f p = Inr (f\<lparr>m_version := v, m_res := word_of_int sc, m_buf := p, m_bd := Some p,
      m_bl := 0\<rparr>, state_recv_bodylen)"
proof -
  let ?g = "f\<lparr>m_version := v, m_res := word_of_int sc\<rparr>"
  have g: "lines_of ?g lines" using assms(1) by (simp add: lines_of_def)
  have "hdrint ?g ''Content-Length'' = Inr None"
    using hdrint_lines [OF g, of "''Content-Length''"] assms(3) by simp
  moreover have "hdrstr ?g ''Transfer-Encoding'' 256 = Inr (hdr_find 256 ''Transfer-Encoding'' lines)"
    using hdrstr_lines [OF g, of "''Transfer-Encoding''" 256] by simp
  ultimately show ?thesis using assms(2,4) by (simp add: header_done_def)
qed

lemma takes_blank_line:
  assumes st: "hdr_state n f xs lines" and ne: "lines \<noteq> []" and len: "8 \<le> length xs + 2"
    and fits: "length xs + 2 < 2 * (n - 1)"
  obtains f2 v sc where "lines_in f2 (xs @ [NUL, NUL]) lines" and "holds f2 (xs @ [NUL, NUL])"
    and "cap_ok n f2" and "putrc f2 = Inr (f2\<lparr>m_version := v\<rparr>, sc)" and "m_max f2 = m_max f" and "m_bd f2 = None"
    and "\<And>f' s'. header_done f2 (length xs + 2) = Inr (f', s') \<Longrightarrow> m_max f' = m_max f \<Longrightarrow>
      s' \<noteq> state_websocket_establish \<Longrightarrow> takes f state_recv_header [CR, LF] f' s'"
proof -
  have r: "room n f xs (length ([] :: string) + 2)" and ls: "line_state state_recv_header"
    using st fits by (auto simp: hdr_state_def room_def line_state_def)
  have lin: "lines_in f xs lines" and buf: "m_buf f = length xs" and h0: "holds0 f xs"
    using st by (auto simp: hdr_state_def)
  have hds: "list_all2 (line_at (m_p f)) (zip (m_hd f) (m_hl f)) lines" "length (m_hd f) = length (m_hl f)"
    using lin by (auto simp: lines_in_def lines_of_def)
  have xs: "xs @ [] \<noteq> []" using len by auto
  obtain b f1 where f1: "f1 = f\<lparr>m_p := b, m_len := length (xs @ []) + 2\<rparr>"
    and h1: "holds f1 ((xs @ []) @ [CR, LF])" and c1: "cap_ok n f1" and lf1: "recv_lf f1 = Inr 2"
    and step: "\<And>f' s'. dispatch state_recv_header f1 = Inr (f', s') \<Longrightarrow> m_max f' = m_max f \<Longrightarrow>
      s' \<noteq> state_websocket_establish \<Longrightarrow> takes f state_recv_header ([] @ [CR, LF]) f' s'"
    using takes_crlf [OF ls _ r xs] by (metis empty_iff list.set(1))
  obtain b2 where b2: "null_out (m_p f1) (m_len f1) 2 = Inr b2" "blk_size b2 = blk_size (m_p f1)"
    "holds (f1\<lparr>m_p := b2\<rparr>) (xs @ [NUL, NUL])"
    using null_out_2 [of f1 xs] h1 by auto
  let ?f2 = "f1\<lparr>m_p := b2\<rparr>"
  have d: "dispatch state_recv_header f1 = header_done ?f2 (length xs + 2)"
    using lf1 b2 buf by (simp add: dispatch_def recv_header_def f1)
  have "lines_in ?f2 (xs @ [NUL, NUL]) lines"
    using holds0_rd_same [OF h0 holds_holds0 [OF b2(3)]]
    by (intro lines_in_keep [OF lin]) (auto simp: f1)
  moreover obtain hl rest where "zip (m_hd f) (m_hl f) = (0, hl) # rest"
  proof -
    from hds ne have "m_hd f \<noteq> []" "m_hl f \<noteq> []" by auto
    moreover have "m_hd f ! 0 = 0" using lin ne by (simp add: lines_in_def)
    ultimately show ?thesis using that by (cases "m_hd f"; cases "m_hl f") auto
  qed
  then obtain v sc where "putrc ?f2 = Inr (?f2\<lparr>m_version := v\<rparr>, sc)"
    using putrc_total [OF b2(3)] len by (auto simp: f1)
  moreover have "cap_ok n ?f2" using c1 b2(2) by (simp add: cap_ok_def)
  moreover have "m_bd ?f2 = None" using st by (simp add: hdr_state_def f1)
  ultimately show ?thesis using that b2(3) step d by (simp add: f1)
qed

end
