(* ===== verification/Http_Body.thy ===== *)
theory Http_Body
  imports Http_Request
begin

text \<open>
  Bodies: the two ways the parser delimits one, by an announced length and by chunks, and what
  it gives back for a well-formed message of each kind.
\<close>

section \<open>A body of announced length\<close>

definition fsm_body :: "http_fsm \<Rightarrow> mem_fault + string" where
  "fsm_body f = (case m_bd f of None \<Rightarrow> Inl NullDereference
                 | Some bd \<Rightarrow> read_bytes (m_p f) bd (unat (m_bl f)))"

lemma uint_unat_int: "uint w = int (unat w)"
  by simp

lemma body_diff_at:
  "m_bd g = Some bd \<Longrightarrow> m_len g = k + j \<Longrightarrow> bd + unat (m_bl g) = k + m \<Longrightarrow> body_diff g i = Inr (int m - int j + int i)"
  using uint_unat_int [of "m_bl g"] by (simp add: body_diff_def del: of_nat_unat)

text \<open>While bytes of the body are missing nothing else happens.\<close>

lemma takes_nochunk:
  assumes "room n f xs (length cs)" and "m_bd f = Some bd" and "length xs + length cs < bd + unat (m_bl f)"
  shows "\<exists>b. takes f state_recv_body_nochunk cs (f\<lparr>m_p := b, m_len := length (xs @ cs)\<rparr>) state_recv_body_nochunk \<and>
    room n (f\<lparr>m_p := b, m_len := length (xs @ cs)\<rparr>) (xs @ cs) 0"
proof (rule takes_while)
  fix b us c vs
  assume cs: "cs = us @ c # vs"
  let ?g = "f\<lparr>m_p := b, m_len := length (xs @ us) + 1\<rparr>"
  obtain m where m: "bd + unat (m_bl f) = length (xs @ us) + m" "1 < m"
    using assms(3) cs le_Suc_ex [of "length (xs @ us)" "bd + unat (m_bl f)"] by auto
  then have "body_diff ?g 0 = Inr (int m - int 1 + int 0)"
    using assms(2) by (intro body_diff_at) auto
  with m(2) show "dispatch state_recv_body_nochunk ?g = Inr (?g, state_recv_body_nochunk)"
    by (simp add: dispatch_def recv_body_nochunk_def)
qed (use assms(1) in \<open>simp_all add: terminal_def\<close>)

text \<open>The last byte finishes the message.\<close>

lemma receive_nochunk:
  assumes "room n f xs (length cs)" and "cs \<noteq> []" and "m_bd f = Some bd"
    and "bd + unat (m_bl f) = length xs + length cs"
  shows "\<exists>b. append_loop (m_max f - 1) state_recv_body_nochunk cs f =
      Inr (f\<lparr>m_p := b, m_len := length (xs @ cs)\<rparr>, state_recv_finish) \<and>
    holds0 (f\<lparr>m_p := b, m_len := length (xs @ cs)\<rparr>) (xs @ cs)"
proof -
  obtain us c where cs: "cs = us @ [c]" using assms(2) by (cases cs rule: rev_cases) auto
  have r0: "room n f xs (length us)" using assms(1) cs by (simp add: room_def)
  obtain b where b: "takes f state_recv_body_nochunk us (f\<lparr>m_p := b, m_len := length (xs @ us)\<rparr>) state_recv_body_nochunk"
    "room n (f\<lparr>m_p := b, m_len := length (xs @ us)\<rparr>) (xs @ us) 0"
    using takes_nochunk [OF r0 assms(3)] assms(4) cs by auto
  let ?f1 = "f\<lparr>m_p := b, m_len := length (xs @ us)\<rparr>"
  have r: "room n ?f1 (xs @ us) 1" using b(2) assms(1) cs by (simp add: room_def)
  obtain b' where b': "holds (?f1\<lparr>m_p := b', m_len := length (xs @ us) + 1\<rparr>) ((xs @ us) @ [c])"
    "append_loop (m_max ?f1 - 1) state_recv_body_nochunk [c] ?f1 =
      dispatch state_recv_body_nochunk (?f1\<lparr>m_p := b', m_len := length (xs @ us) + 1\<rparr>)"
    using takes_byte [OF r, of state_recv_body_nochunk c] by (auto simp: terminal_def)
  let ?f2 = "f\<lparr>m_p := b', m_len := length (xs @ cs)\<rparr>"
  have eq: "?f1\<lparr>m_p := b', m_len := length (xs @ us) + 1\<rparr> = ?f2" by (simp add: cs)
  have "body_diff ?f2 0 = Inr (int 0 - int 0 + int 0)"
    using assms(3,4) by (intro body_diff_at [where k = "length (xs @ cs)"]) auto
  then have fin: "append_loop (m_max f - 1) state_recv_body_nochunk [c] ?f1 = Inr (?f2, state_recv_finish)"
    using b'(2) unfolding eq by (simp add: dispatch_def recv_body_nochunk_def del: append_loop.simps)
  have "append_loop (m_max f - 1) state_recv_body_nochunk cs f = Inr (?f2, state_recv_finish)"
  proof (cases "us = []")
    case True
    with b(1) fin cs show ?thesis by (simp add: takes_def del: append_loop.simps)
  next
    case False
    then have "append_loop (m_max f - 1) state_recv_body_nochunk (us @ [c]) f =
        append_loop (m_max f - 1) state_recv_body_nochunk [c] ?f1"
      using b(1) by (intro append_loop_append) (auto simp: takes_def)
    with fin cs show ?thesis by (simp del: append_loop.simps)
  qed
  with holds_holds0 [OF b'(1)] show ?thesis unfolding eq by (intro exI [of _ b']) (simp add: cs)
qed

text \<open>A fresh parser, and the header section up to the empty line.\<close>

lemma reset_state: "chunk_ok (unat n) \<Longrightarrow> hdr_state (unat n) (http_reset n f0) [] []"
  by (simp add: hdr_state_def http_reset_def cap_ok_def holds0_def lines_in_def lines_of_def blk_malloc_def)

lemma reset_m_max [simp]: "m_max (http_reset n f0) = n" "m_state (http_reset n f0) = state_recv_header"
  by (simp_all add: http_reset_def)

definition lines_ok :: "string list \<Rightarrow> bool" where
  "lines_ok lines \<longleftrightarrow> lines \<noteq> [] \<and> (\<forall>line \<in> set lines. line_ok line) \<and> length lines \<le> MAX_HEADER \<and>
     6 \<le> length (header_text lines)"

lemma takes_header:
  assumes "chunk_ok (unat n)" and "lines_ok lines" and "length (header_text lines) + 2 < 2 * (unat n - 1)"
  obtains f2 v sc where "lines_in f2 (blanked lines @ [NUL, NUL]) lines"
    and "holds f2 (blanked lines @ [NUL, NUL])" and "cap_ok (unat n) f2"
    and "putrc f2 = Inr (f2\<lparr>m_version := v\<rparr>, sc)" and "m_max f2 = n" and "m_bd f2 = None"
    and "\<And>f' s'. header_done f2 (length (header_text lines) + 2) = Inr (f', s') \<Longrightarrow> m_max f' = n \<Longrightarrow>
      s' \<noteq> state_websocket_establish \<Longrightarrow>
      takes (http_reset n f0) state_recv_header (header_text lines @ [CR, LF]) f' s'"
proof -
  let ?f0 = "http_reset n f0"
  obtain f1 where f1: "takes ?f0 state_recv_header (header_text lines) f1 state_recv_header"
    "hdr_state (unat n) f1 (blanked lines) lines"
    using takes_lines [OF reset_state [OF assms(1)], of lines] assms by (auto simp: lines_ok_def)
  have m1: "m_max f1 = n" using f1(1) by (auto simp: takes_def)
  have ne: "lines \<noteq> []" and big: "8 \<le> length (blanked lines) + 2"
    and fits: "length (blanked lines) + 2 < 2 * (unat n - 1)"
    using assms(2,3) by (auto simp: lines_ok_def length_blanked)
  obtain f2 v sc where f2: "lines_in f2 (blanked lines @ [NUL, NUL]) lines"
    "holds f2 (blanked lines @ [NUL, NUL])" "cap_ok (unat n) f2"
    "putrc f2 = Inr (f2\<lparr>m_version := v\<rparr>, sc)" "m_max f2 = m_max f1" "m_bd f2 = None"
    and step: "\<And>f' s'. header_done f2 (length (blanked lines) + 2) = Inr (f', s') \<Longrightarrow> m_max f' = m_max f1 \<Longrightarrow>
      s' \<noteq> state_websocket_establish \<Longrightarrow> takes f1 state_recv_header [CR, LF] f' s'"
    using takes_blank_line [OF f1(2) ne big fits] by blast
  show ?thesis
    using that [OF f2(1-4)] f2(5,6) m1 takes_trans [OF f1(1) step] by (simp add: length_blanked)
qed

lemma takes_header_content_length:
  assumes "chunk_ok (unat n)" and "lines_ok lines" and "length (header_text lines) + 2 < 2 * (unat n - 1)"
    and "hdr_find_int ''Content-Length'' lines = Some cl"
  obtains f where "takes (http_reset n f0) state_recv_header (header_text lines @ [CR, LF]) f state_recv_body_nochunk"
    and "head_read (unat n) f (blanked lines @ [NUL, NUL]) lines" and "m_bl f = word_of_int cl"
proof -
  obtain f2 v sc where f2: "lines_in f2 (blanked lines @ [NUL, NUL]) lines"
    "holds f2 (blanked lines @ [NUL, NUL])" "cap_ok (unat n) f2"
    "putrc f2 = Inr (f2\<lparr>m_version := v\<rparr>, sc)" "m_max f2 = n" "m_bd f2 = None"
    and step: "\<And>f' s'. header_done f2 (length (header_text lines) + 2) = Inr (f', s') \<Longrightarrow> m_max f' = n \<Longrightarrow>
      s' \<noteq> state_websocket_establish \<Longrightarrow>
      takes (http_reset n f0) state_recv_header (header_text lines @ [CR, LF]) f' s'"
    using takes_header [OF assms(1-3)] by blast
  let ?f3 = "f2\<lparr>m_version := v, m_res := word_of_int sc, m_bd := Some (length (header_text lines) + 2),
      m_bl := word_of_int cl\<rparr>"
  have "header_done f2 (length (header_text lines) + 2) = Inr (?f3, state_recv_body_nochunk)"
    using f2 assms(4) by (intro header_done_content_length) (auto simp: lines_in_def)
  then have "takes (http_reset n f0) state_recv_header (header_text lines @ [CR, LF]) ?f3 state_recv_body_nochunk"
    by (rule step) (simp_all add: f2)
  moreover have "head_read (unat n) ?f3 (blanked lines @ [NUL, NUL]) lines"
    using f2 holds_holds0 [OF f2(2)] assms(1)
    by (simp add: head_read_def cap_ok_def holds0_def lines_in_def lines_of_def length_blanked)
  ultimately show ?thesis by (intro that [of ?f3]) simp_all
qed

lemma hdrstr_of_lines_in:
  "lines_in f xs lines \<Longrightarrow> NUL \<notin> set key \<Longrightarrow> 0 < l \<Longrightarrow> hdrstr f key l = Inr (hdr_find l key lines)"
  by (simp add: lines_in_def hdrstr_lines)

lemma lines_in_state [simp]: "lines_in (f\<lparr>m_state := s\<rparr>) xs lines = lines_in f xs lines"
  by (simp add: lines_in_def lines_of_def)

lemma receive_content_length:
  assumes "chunk_ok (unat n)" and "lines_ok lines"
    and "hdr_find_int ''Content-Length'' lines = Some (int (length body))" and "body \<noteq> []"
    and "length (header_text lines @ [CR, LF] @ body) < 2 * (unat n - 1)"
  shows "\<exists>f. http_append (header_text lines @ [CR, LF] @ body) (http_reset n f0) = Inr f \<and>
    m_state f = state_recv_finish \<and> fsm_body f = Inr body \<and>
    (\<forall>key l. NUL \<notin> set key \<and> 0 < l \<longrightarrow> hdrstr f key l = Inr (hdr_find l key lines))"
proof -
  let ?head = "blanked lines @ [NUL, NUL]"
  have fits: "length (header_text lines) + 2 < 2 * (unat n - 1)" using assms(5) by simp
  obtain f1 where f1: "takes (http_reset n f0) state_recv_header (header_text lines @ [CR, LF]) f1 state_recv_body_nochunk"
    "head_read (unat n) f1 ?head lines" "m_bl f1 = word_of_int (int (length body))"
    using takes_header_content_length [OF assms(1,2) fits assms(3)] by blast
  have m1: "m_max f1 = n" using f1(1) by (auto simp: takes_def)
  have "length body < 2 ^ 32" using assms(1,5) by (simp add: chunk_ok_def) linarith
  then have bl: "unat (m_bl f1) = length body"
    using f1(3) by (simp add: unsigned_of_nat take_bit_nat_eq_self)
  have r: "room (unat n) f1 ?head (length body)" and bd: "m_bd f1 = Some (length ?head)"
    and lin: "lines_in f1 ?head lines" and h0: "holds0 f1 ?head"
    using f1(2) assms(5) by (auto simp: head_read_def room_def length_blanked)
  obtain b where b: "append_loop (n - 1) state_recv_body_nochunk body f1 =
      Inr (f1\<lparr>m_p := b, m_len := length ?head + length body\<rparr>, state_recv_finish)"
    "holds0 (f1\<lparr>m_p := b, m_len := length ?head + length body\<rparr>) (?head @ body)"
    using receive_nochunk [OF r assms(4) bd] bl m1 by auto
  let ?f2 = "f1\<lparr>m_p := b, m_len := length ?head + length body, m_state := state_recv_finish\<rparr>"
  have "append_loop (n - 1) state_recv_header ((header_text lines @ [CR, LF]) @ body) (http_reset n f0) =
      append_loop (n - 1) state_recv_body_nochunk body f1"
    using f1(1) assms(4) by (intro append_loop_append) (auto simp: takes_def)
  then have app: "http_append (header_text lines @ [CR, LF] @ body) (http_reset n f0) = Inr ?f2"
    using b(1) by (simp add: http_append_def)
  have "str_at b (length ?head) body" using b(2) by (simp add: holds0_def str_at_append)
  then have body: "fsm_body ?f2 = Inr body" using bd bl by (simp add: fsm_body_def read_bytes_str_at)
  have "lines_in ?f2 (?head @ body) lines"
    using holds0_rd_same [OF h0 b(2)] by (intro lines_in_keep [OF lin]) auto
  with app body show ?thesis using hdrstr_of_lines_in by auto
qed

text \<open>
  Property C20. A message with a header section and a \<open>Content-Length\<close> equal to the (positive) length of
  the body, small enough for the buffer, is parsed completely: the parser finishes, gives back
  exactly the body, and answers every header look-up as specified on the lines sent.
\<close>

theorem content_length_roundtrip:
  assumes "chunk_ok (unat n)" and "lines_ok lines"
    and "hdr_find_int ''Content-Length'' lines = Some (int (length body))" and "body \<noteq> []"
    and "length (header_text lines @ [CR, LF] @ body) < 2 * (unat n - 1)"
  shows "\<exists>f. http_append (header_text lines @ [CR, LF] @ body) (http_reset n f0) = Inr f \<and>
    m_state f = state_recv_finish \<and> fsm_body f = Inr body \<and>
    (\<forall>key l. NUL \<notin> set key \<and> 0 < l \<longrightarrow> hdrstr f key l = Inr (hdr_find l key lines))"
  using assms by (rule receive_content_length)

theorem content_length_roundtrip_witness:
  "\<forall>f0. \<exists>f. http_append (header_text [''POST /a HTTP/1.1'', ''Content-Length: 3''] @ [CR, LF] @ ''abc'') (http_reset 512 f0) = Inr f \<and>
    m_state f = state_recv_finish \<and> fsm_body f = Inr ''abc'' \<and>
    hdrstr f ''content-length'' 16 = Inr (Some ''3'')"
proof
  fix f0 :: http_fsm
  let ?lines = "[''POST /a HTTP/1.1'', ''Content-Length: 3'']"
  have a: "chunk_ok (unat (512 :: u32))" by (simp add: chunk_ok_def)
  have b: "lines_ok ?lines" by (simp add: lines_ok_def line_ok_def MAX_HEADER_def)
  have c: "hdr_find_int ''Content-Length'' ?lines = Some (int (length ''abc''))" by code_simp
  have d: "length (header_text ?lines @ [CR, LF] @ ''abc'') < 2 * (unat (512 :: u32) - 1)" by simp
  have e: "hdr_find 16 ''content-length'' ?lines = Some ''3''" by code_simp
  show "\<exists>f. http_append (header_text ?lines @ [CR, LF] @ ''abc'') (http_reset 512 f0) = Inr f \<and>
    m_state f = state_recv_finish \<and> fsm_body f = Inr ''abc'' \<and>
    hdrstr f ''content-length'' 16 = Inr (Some ''3'')"
    using content_length_roundtrip [OF a b c _ d, of f0] e by auto
qed

section \<open>A chunked body\<close>

text \<open>
  Between two chunks: the text held is the header section and the chunks so far, \<open>bl\<close> counts the
  chunk bytes, and \<open>m_buf\<close> is the next position.
\<close>

definition chunk_state :: "nat \<Rightarrow> http_fsm \<Rightarrow> string \<Rightarrow> nat \<Rightarrow> bool" where
  "chunk_state n f xs bd \<longleftrightarrow>
     chunk_ok n \<and> cap_ok n f \<and> holds0 f xs \<and> xs \<noteq> [] \<and> m_buf f = length xs \<and> m_bd f = Some bd \<and>
     bd + unat (m_bl f) = length xs"

lemma recv_lf_total: "holds f xs \<Longrightarrow> xs \<noteq> [] \<Longrightarrow> \<exists>k \<le> 2. recv_lf f = Inr k"
proof -
  assume h: "holds f xs" and ne: "xs \<noteq> []"
  obtain c where c: "rd (m_p f) (length xs - 1) = Inr c" using holds_rd_some [OF h, of "length xs - 1"] by auto
  show ?thesis
  proof (cases "length xs > 2")
    case True
    then obtain d where d: "rd (m_p f) (length xs - 2) = Inr d"
      using holds_rd_some [OF h, of "length xs - 2"] by auto
    have "Suc (length xs - 2) = length xs - 1" using True by simp
    with True c d holds_len [OF h] show ?thesis by (auto simp: recv_lf_def crlf_at_def)
  next
    case False
    with c holds_len [OF h] show ?thesis by (auto simp: recv_lf_def)
  qed
qed

lemma takes_data:
  assumes "room n f xs (length cs)" and "m_bd f = Some bd" and "length xs + length cs \<le> bd + unat (m_bl f)"
  shows "\<exists>b. takes f state_recv_body cs (f\<lparr>m_p := b, m_len := length (xs @ cs)\<rparr>) state_recv_body \<and>
    room n (f\<lparr>m_p := b, m_len := length (xs @ cs)\<rparr>) (xs @ cs) 0"
proof (rule takes_while)
  fix b us c vs
  assume cs: "cs = us @ c # vs"
  let ?g = "f\<lparr>m_p := b, m_len := length (xs @ us) + 1\<rparr>"
  assume "holds ?g ((xs @ us) @ [c])"
  then obtain k where k: "recv_lf ?g = Inr k" using recv_lf_total by blast
  obtain m where m: "bd + unat (m_bl f) = length (xs @ us) + m" "0 < m"
    using assms(3) cs le_Suc_ex [of "length (xs @ us)" "bd + unat (m_bl f)"] by auto
  then have "body_diff ?g k = Inr (int m - int 1 + int k)"
    using assms(2) by (intro body_diff_at) auto
  with m(2) show "dispatch state_recv_body ?g = Inr (?g, state_recv_body)"
    using k by (simp add: dispatch_def recv_body_def)
qed (use assms(1) in \<open>simp_all add: terminal_def\<close>)

text \<open>The length line.\<close>

definition length_text :: "string \<Rightarrow> bool" where
  "length_text h \<longleftrightarrow> h \<noteq> [] \<and> LF \<notin> set h \<and> NUL \<notin> set h \<and> hd h \<noteq> CHR ''-''"

lemma takes_length_text:
  assumes st: "chunk_state n f xs bd" and h: "length_text h" and fits: "length xs + length h + 2 < 2 * (n - 1)"
  obtains b where "holds (f\<lparr>m_p := b, m_len := length xs + length h + 2\<rparr>) ((xs @ h) @ [NUL, NUL])"
    and "cap_ok n (f\<lparr>m_p := b\<rparr>)"
    and "\<And>f' s'. (case hex_value 0 h of
        None \<Rightarrow> Inr (f\<lparr>m_p := b, m_len := length xs + length h + 2\<rparr>, state_error)
      | Some cl \<Rightarrow>
          if cl = 0 then Inr (f\<lparr>m_p := b, m_len := length xs + length h + 2,
             m_buf := length xs + length h + 2\<rparr>, state_recv_footer)
          else Inr (f\<lparr>m_p := b, m_len := length xs, m_bl := m_bl f + cl\<rparr>, state_recv_body)) =
           (Inr (f', s') :: mem_fault + (http_fsm \<times> http_state)) \<Longrightarrow>
        takes f state_recv_bodylen (h @ [CR, LF]) f' s'"
proof -
  have ls: "line_state state_recv_bodylen" and lf: "LF \<notin> set h" and nul: "NUL \<notin> set h"
    and minus: "hd h \<noteq> CHR ''-''" and hne: "h \<noteq> []" and ne: "xs @ h \<noteq> []"
    using h by (auto simp: line_state_def length_text_def)
  have r: "room n f xs (length h + 2)" and buf: "m_buf f = length xs"
    using st fits by (auto simp: chunk_state_def room_def)
  obtain b f1 where f1: "f1 = f\<lparr>m_p := b, m_len := length (xs @ h) + 2\<rparr>"
    and h1: "holds f1 ((xs @ h) @ [CR, LF])" and c1: "cap_ok n f1" and lf1: "recv_lf f1 = Inr 2"
    and step: "\<And>f' s'. dispatch state_recv_bodylen f1 = Inr (f', s') \<Longrightarrow> m_max f' = m_max f \<Longrightarrow>
      s' \<noteq> state_websocket_establish \<Longrightarrow> takes f state_recv_bodylen (h @ [CR, LF]) f' s'"
    using takes_crlf [OF ls lf r ne] by metis
  obtain b2 where b2: "null_out (m_p f1) (m_len f1) 2 = Inr b2" "blk_size b2 = blk_size (m_p f1)"
    "holds (f1\<lparr>m_p := b2\<rparr>) ((xs @ h) @ [NUL, NUL])"
    using null_out_2 [OF h1] by auto
  have "cstr_at b2 (length xs) h"
    using b2(3) nul by (simp add: cstr_at_def holds_def str_at_append)
  then have "http_htoi b2 (length xs) (length h + 2) = Inr (hex_value 0 h)"
    using minus hne by (intro http_htoi_str) auto
  then have htoi: "http_htoi b2 (length xs) (Suc (Suc (length h))) = Inr (hex_value 0 h)" by simp
  have d: "dispatch state_recv_bodylen f1 =
     (case hex_value 0 h of
        None \<Rightarrow> Inr (f\<lparr>m_p := b2, m_len := length xs + length h + 2\<rparr>, state_error)
      | Some cl \<Rightarrow>
          if cl = 0 then Inr (f\<lparr>m_p := b2, m_len := length xs + length h + 2,
             m_buf := length xs + length h + 2\<rparr>, state_recv_footer)
          else Inr (f\<lparr>m_p := b2, m_len := length xs, m_bl := m_bl f + cl\<rparr>, state_recv_body))"
    using lf1 b2(1) htoi buf
    by (simp add: dispatch_def recv_bodylen_def bodylen_line_def f1 split: option.splits)
  show ?thesis
  proof (rule that [of b2])
    show "holds (f\<lparr>m_p := b2, m_len := length xs + length h + 2\<rparr>) ((xs @ h) @ [NUL, NUL])"
      using b2(3) by (simp add: f1 holds_def)
    show "cap_ok n (f\<lparr>m_p := b2\<rparr>)" using c1 b2(2) by (simp add: cap_ok_def f1)
  next
    fix f' s'
    assume eq: "(case hex_value 0 h of
        None \<Rightarrow> Inr (f\<lparr>m_p := b2, m_len := length xs + length h + 2\<rparr>, state_error)
      | Some cl \<Rightarrow>
          if cl = 0 then Inr (f\<lparr>m_p := b2, m_len := length xs + length h + 2,
             m_buf := length xs + length h + 2\<rparr>, state_recv_footer)
          else Inr (f\<lparr>m_p := b2, m_len := length xs, m_bl := m_bl f + cl\<rparr>, state_recv_body)) =
           (Inr (f', s') :: mem_fault + (http_fsm \<times> http_state))"
    then have "m_max f' = m_max f" "s' \<noteq> state_websocket_establish"
      by (auto split: if_splits option.splits)
    with eq d show "takes f state_recv_bodylen (h @ [CR, LF]) f' s'" by (intro step) simp_all
  qed
qed

lemma length_text_to_hex: "length_text (to_hex k)"
  using to_hex_plain [of k] to_hex_not_Nil [of k] by (auto simp: length_text_def disjoint_iff dest: hd_in_set)

lemmas takes_length_line = takes_length_text [OF _ length_text_to_hex, unfolded hex_value_to_hex option.case]

text \<open>One whole chunk: its length line, its bytes (any bytes), its line end.\<close>

definition chunk_text :: "string \<Rightarrow> string" where
  "chunk_text d = to_hex (length d) @ [CR, LF] @ d @ [CR, LF]"

lemma takes_chunk:
  assumes st: "chunk_state n f xs bd" and d: "d \<noteq> []" and fits: "length xs + length (chunk_text d) < 2 * (n - 1)"
  shows "\<exists>f'. takes f state_recv_bodylen (chunk_text d) f' state_recv_bodylen \<and> chunk_state n f' (xs @ d) bd \<and>
    m_hd f' = m_hd f \<and> m_hl f' = m_hl f"
proof -
  let ?k = "length d"
  have n: "chunk_ok n" and h0: "holds0 f xs" and xs: "xs \<noteq> []" and bd: "m_bd f = Some bd"
    and bl: "bd + unat (m_bl f) = length xs"
    using st by (auto simp: chunk_state_def)
  have small: "length xs + ?k < 2 ^ 32" using n fits by (simp add: chunk_ok_def chunk_text_def) linarith
  then have k32: "unat (of_nat ?k :: i32) = ?k" by (simp add: unsigned_of_nat take_bit_nat_eq_self)
  then have k0: "of_nat ?k \<noteq> (0 :: i32)" using d by (metis length_0_conv unsigned_0)
  have bl': "unat (m_bl f + of_nat ?k) = unat (m_bl f) + ?k"
    using small bl k32 by (subst unat_add_lem [THEN iffD1]) auto
  have fits1: "length xs + length (to_hex ?k) + 2 < 2 * (n - 1)" using fits by (simp add: chunk_text_def)
  obtain b where hb: "holds (f\<lparr>m_p := b, m_len := length xs + length (to_hex ?k) + 2\<rparr>) ((xs @ to_hex ?k) @ [NUL, NUL])"
    and cb: "cap_ok n (f\<lparr>m_p := b\<rparr>)"
    and t1: "takes f state_recv_bodylen (to_hex ?k @ [CR, LF])
      (f\<lparr>m_p := b, m_len := length xs, m_bl := m_bl f + of_nat ?k\<rparr>) state_recv_body"
    using takes_length_line [OF st fits1] k0 by (auto simp del: of_nat_eq_0_iff)
  let ?f1 = "f\<lparr>m_p := b, m_len := length xs, m_bl := m_bl f + of_nat ?k\<rparr>"
  have "holds0 ?f1 xs" using hb by (simp add: holds_def holds0_def str_at_append)
  then have r: "room n ?f1 xs ?k" using n cb fits by (simp add: room_def cap_ok_def chunk_text_def)
  obtain b' where t2: "takes ?f1 state_recv_body d (?f1\<lparr>m_p := b', m_len := length xs + ?k\<rparr>) state_recv_body"
    and c2: "cap_ok n (?f1\<lparr>m_p := b', m_len := length xs + ?k\<rparr>)"
    and h2: "holds0 (?f1\<lparr>m_p := b', m_len := length xs + ?k\<rparr>) (xs @ d)"
    using takes_data [OF r, of bd] bd bl bl' by (auto simp: room_def)
  let ?f2 = "?f1\<lparr>m_p := b', m_len := length xs + ?k\<rparr>"
  have r2: "room n ?f2 (xs @ d) (length ([] :: string) + 2)"
    using n c2 h2 fits to_hex_not_Nil [of ?k] by (simp add: room_def chunk_text_def)
  have ls: "line_state state_recv_body" by (simp add: line_state_def)
  obtain b3 f3 where f3: "f3 = ?f2\<lparr>m_p := b3, m_len := length ((xs @ d) @ []) + 2\<rparr>"
    and h3: "holds f3 (((xs @ d) @ []) @ [CR, LF])" and c3: "cap_ok n f3" and lf3: "recv_lf f3 = Inr 2"
    and step: "\<And>f' s'. dispatch state_recv_body f3 = Inr (f', s') \<Longrightarrow> m_max f' = m_max ?f2 \<Longrightarrow>
      s' \<noteq> state_websocket_establish \<Longrightarrow> takes ?f2 state_recv_body ([] @ [CR, LF]) f' s'"
    using takes_crlf [OF ls _ r2] xs by (metis append_is_Nil_conv empty_iff list.set(1))
  let ?f4 = "f3\<lparr>m_len := length (xs @ d), m_buf := length (xs @ d)\<rparr>"
  have "body_diff f3 2 = Inr (int bd + int (unat (m_bl f + of_nat ?k)) - int (length xs + ?k))"
    by (simp add: body_diff_def f3 bd)
  then have "body_diff f3 2 = Inr 0" using bl bl' by (simp del: of_nat_unat)
  then have "dispatch state_recv_body f3 = Inr (?f4, state_recv_bodylen)"
    using lf3 by (simp add: dispatch_def recv_body_def f3)
  then have t3: "takes ?f2 state_recv_body [CR, LF] ?f4 state_recv_bodylen"
    using step [of ?f4 state_recv_bodylen] by (simp add: f3)
  have "takes f state_recv_bodylen (chunk_text d) ?f4 state_recv_bodylen"
    using takes_trans [OF takes_trans [OF t1 t2] t3] by (simp add: chunk_text_def)
  moreover have "chunk_state n ?f4 (xs @ d) bd"
    using h3 c3 n xs bl bl' bd by (simp add: chunk_state_def holds_def holds0_def str_at_append cap_ok_def f3)
  ultimately show ?thesis by (intro exI [of _ ?f4]) (simp add: f3)
qed

definition all_chunks :: "string list \<Rightarrow> string" where
  "all_chunks ds = concat (map chunk_text ds)"

definition chunked_text :: "string list \<Rightarrow> string" where
  "chunked_text ds = all_chunks ds @ ''0'' @ [CR, LF] @ [CR, LF]"

lemma takes_chunks:
  assumes "chunk_state n f xs bd" and "[] \<notin> set ds" and "length xs + length (all_chunks ds) < 2 * (n - 1)"
  shows "\<exists>f'. takes f state_recv_bodylen (all_chunks ds) f' state_recv_bodylen \<and>
    chunk_state n f' (xs @ concat ds) bd \<and> m_hd f' = m_hd f \<and> m_hl f' = m_hl f"
  using assms
proof (induction ds arbitrary: f xs)
  case Nil
  then show ?case by (intro exI [of _ f]) (simp add: all_chunks_def)
next
  case (Cons d ds)
  have len: "length d \<le> length (chunk_text d)" by (simp add: chunk_text_def)
  obtain f1 where f1: "takes f state_recv_bodylen (chunk_text d) f1 state_recv_bodylen"
    "chunk_state n f1 (xs @ d) bd" "m_hd f1 = m_hd f" "m_hl f1 = m_hl f"
    using takes_chunk [of n f xs bd d] Cons.prems by (auto simp: all_chunks_def)
  obtain f2 where f2: "takes f1 state_recv_bodylen (all_chunks ds) f2 state_recv_bodylen"
    "chunk_state n f2 ((xs @ d) @ concat ds) bd" "m_hd f2 = m_hd f1" "m_hl f2 = m_hl f1"
    using Cons.IH [of f1 "xs @ d"] Cons.prems f1(2) len by (auto simp: all_chunks_def)
  from takes_trans [OF f1(1) f2(1)] f1 f2 show ?case
    by (intro exI [of _ f2]) (simp add: all_chunks_def)
qed

text \<open>The last chunk and the empty footer.\<close>

lemma takes_last_chunk:
  assumes st: "chunk_state n f xs bd" and fits: "length xs + 5 < 2 * (n - 1)"
  shows "\<exists>f'. takes f state_recv_bodylen (''0'' @ [CR, LF] @ [CR, LF]) f' state_recv_finish \<and>
    holds0 f' (xs @ ''0'' @ [NUL, NUL, NUL, NUL]) \<and> m_hd f' = m_hd f \<and> m_hl f' = m_hl f \<and>
    m_bd f' = m_bd f \<and> m_bl f' = m_bl f"
proof -
  have zero: "to_hex 0 = ''0''" by (simp add: to_hex.simps [of 0] hex_char_def)
  have fits1: "length xs + length (to_hex 0) + 2 < 2 * (n - 1)" using fits by (simp add: zero)
  have n: "chunk_ok n" using st by (simp add: chunk_state_def)
  obtain b where hb: "holds (f\<lparr>m_p := b, m_len := length xs + 3\<rparr>) (xs @ ''0'' @ [NUL, NUL])"
    and cb: "cap_ok n (f\<lparr>m_p := b\<rparr>)"
    and t1: "takes f state_recv_bodylen (''0'' @ [CR, LF])
      (f\<lparr>m_p := b, m_len := length xs + 3, m_buf := length xs + 3\<rparr>) state_recv_footer"
    using takes_length_line [OF st fits1] by (auto simp: zero numeral_3_eq_3)
  let ?f1 = "f\<lparr>m_p := b, m_len := length xs + 3, m_buf := length xs + 3\<rparr>"
  let ?ys = "xs @ ''0'' @ [NUL, NUL]"
  have "holds0 ?f1 ?ys" using hb by (simp add: holds_def holds0_def str_at_append)
  then have r: "room n ?f1 ?ys (length ([] :: string) + 2)"
    using n cb fits by (simp add: room_def cap_ok_def)
  have ls: "line_state state_recv_footer" by (simp add: line_state_def)
  obtain b2 f2 where f2: "f2 = ?f1\<lparr>m_p := b2, m_len := length (?ys @ []) + 2\<rparr>"
    and h2: "holds f2 ((?ys @ []) @ [CR, LF])" and lf2: "recv_lf f2 = Inr 2"
    and step: "\<And>f' s'. dispatch state_recv_footer f2 = Inr (f', s') \<Longrightarrow> m_max f' = m_max ?f1 \<Longrightarrow>
      s' \<noteq> state_websocket_establish \<Longrightarrow> takes ?f1 state_recv_footer ([] @ [CR, LF]) f' s'"
    using takes_crlf [OF ls _ r] by (metis append_is_Nil_conv empty_iff list.distinct(1) list.set(1))
  obtain b3 where b3: "null_out (m_p f2) (m_len f2) 2 = Inr b3"
    "holds (f2\<lparr>m_p := b3\<rparr>) (?ys @ [NUL, NUL])"
    using null_out_2 [of f2 "?ys"] h2 by auto
  let ?f3 = "f2\<lparr>m_p := b3\<rparr>"
  have "dispatch state_recv_footer f2 = Inr (?f3, state_recv_finish)"
    using lf2 b3(1) by (simp add: dispatch_def recv_footer_def f2)
  then have t2: "takes ?f1 state_recv_footer [CR, LF] ?f3 state_recv_finish"
    using step [of ?f3 state_recv_finish] by (simp add: f2)
  from takes_trans [OF t1 t2] holds_holds0 [OF b3(2)] show ?thesis
    by (intro exI [of _ ?f3]) (simp add: f2)
qed

lemma takes_header_chunked:
  assumes "chunk_ok (unat n)" and "lines_ok lines" and "length (header_text lines) + 2 < 2 * (unat n - 1)"
    and "hdr_find_int ''Content-Length'' lines = None"
    and "chunked_tok (hdr_find 256 ''Transfer-Encoding'' lines)"
  obtains f where "takes (http_reset n f0) state_recv_header (header_text lines @ [CR, LF]) f state_recv_bodylen"
    and "chunk_state (unat n) f (blanked lines @ [NUL, NUL]) (length (header_text lines) + 2)"
    and "lines_in f (blanked lines @ [NUL, NUL]) lines" and "m_bl f = 0"
proof -
  obtain f2 v sc where f2: "lines_in f2 (blanked lines @ [NUL, NUL]) lines"
    "holds f2 (blanked lines @ [NUL, NUL])" "cap_ok (unat n) f2"
    "putrc f2 = Inr (f2\<lparr>m_version := v\<rparr>, sc)" "m_max f2 = n" "m_bd f2 = None"
    and step: "\<And>f' s'. header_done f2 (length (header_text lines) + 2) = Inr (f', s') \<Longrightarrow> m_max f' = n \<Longrightarrow>
      s' \<noteq> state_websocket_establish \<Longrightarrow>
      takes (http_reset n f0) state_recv_header (header_text lines @ [CR, LF]) f' s'"
    using takes_header [OF assms(1-3)] by blast
  let ?f3 = "f2\<lparr>m_version := v, m_res := word_of_int sc, m_buf := length (header_text lines) + 2,
      m_bd := Some (length (header_text lines) + 2), m_bl := 0\<rparr>"
  have "header_done f2 (length (header_text lines) + 2) = Inr (?f3, state_recv_bodylen)"
    using f2 assms(4,5) by (intro header_done_chunked) (auto simp: lines_in_def)
  then have "takes (http_reset n f0) state_recv_header (header_text lines @ [CR, LF]) ?f3 state_recv_bodylen"
    by (rule step) (simp_all add: f2)
  moreover have "chunk_state (unat n) ?f3 (blanked lines @ [NUL, NUL]) (length (header_text lines) + 2)"
    using f2 holds_holds0 [OF f2(2)] assms(1)
    by (simp add: chunk_state_def cap_ok_def holds0_def length_blanked)
  moreover have "lines_in ?f3 (blanked lines @ [NUL, NUL]) lines"
    using f2(1) by (simp add: lines_in_def lines_of_def)
  ultimately show ?thesis by (intro that [of ?f3]) simp_all
qed

text \<open>
  Property C21. A message with \<open>Transfer-Encoding: chunked\<close> and a body sent in any number of non-empty
  chunks of any bytes, small enough for the buffer, is parsed completely: the body given back is the
  concatenation of the chunks, in place, and the header look-ups are as specified.
\<close>

theorem chunked_roundtrip:
  assumes "chunk_ok (unat n)" and "lines_ok lines"
    and "hdr_find_int ''Content-Length'' lines = None"
    and "chunked_tok (hdr_find 256 ''Transfer-Encoding'' lines)" and "[] \<notin> set ds"
    and "length (header_text lines @ [CR, LF] @ chunked_text ds) < 2 * (unat n - 1)"
  shows "\<exists>f. http_append (header_text lines @ [CR, LF] @ chunked_text ds) (http_reset n f0) = Inr f \<and>
    m_state f = state_recv_finish \<and> fsm_body f = Inr (concat ds) \<and>
    (\<forall>key l. NUL \<notin> set key \<and> 0 < l \<longrightarrow> hdrstr f key l = Inr (hdr_find l key lines))"
proof -
  let ?head = "blanked lines @ [NUL, NUL]" and ?bd = "length (header_text lines) + 2"
  have fits: "?bd < 2 * (unat n - 1)" using assms(6) by simp
  obtain f1 where f1: "takes (http_reset n f0) state_recv_header (header_text lines @ [CR, LF]) f1 state_recv_bodylen"
    "chunk_state (unat n) f1 ?head ?bd" "lines_in f1 ?head lines" "m_bl f1 = 0"
    using takes_header_chunked [OF assms(1,2) fits assms(3,4)] by blast
  have len: "length (concat ds) \<le> length (all_chunks ds)"
    by (induction ds) (auto simp: all_chunks_def chunk_text_def)
  obtain f2 where f2: "takes f1 state_recv_bodylen (all_chunks ds) f2 state_recv_bodylen"
    "chunk_state (unat n) f2 (?head @ concat ds) ?bd" "m_hd f2 = m_hd f1" "m_hl f2 = m_hl f1"
    using takes_chunks [OF f1(2) assms(5)] assms(6) by (auto simp: chunked_text_def length_blanked)
  obtain f3 where f3: "takes f2 state_recv_bodylen (''0'' @ [CR, LF] @ [CR, LF]) f3 state_recv_finish"
    "holds0 f3 ((?head @ concat ds) @ ''0'' @ [NUL, NUL, NUL, NUL])" "m_hd f3 = m_hd f2" "m_hl f3 = m_hl f2"
    "m_bd f3 = m_bd f2" "m_bl f3 = m_bl f2"
    using takes_last_chunk [OF f2(2)] assms(6) len by (auto simp: chunked_text_def length_blanked)
  let ?f = "f3\<lparr>m_state := state_recv_finish\<rparr>"
  have "takes (http_reset n f0) state_recv_header (header_text lines @ [CR, LF] @ chunked_text ds) f3 state_recv_finish"
    using takes_trans [OF takes_trans [OF f1(1) f2(1)] f3(1)] by (simp add: chunked_text_def)
  then have app: "http_append (header_text lines @ [CR, LF] @ chunked_text ds) (http_reset n f0) = Inr ?f"
    by (intro takes_append) simp_all
  have "str_at (m_p f3) ?bd (concat ds)"
    using f3(2) by (simp add: holds0_def str_at_append length_blanked)
  moreover have "m_bd f3 = Some ?bd" "unat (m_bl f3) = length (concat ds)"
    using f2(2) f3(5,6) by (auto simp: chunk_state_def length_blanked)
  ultimately have body: "fsm_body ?f = Inr (concat ds)"
    by (simp add: fsm_body_def read_bytes_str_at del: length_concat)
  have h1: "holds0 f1 ?head" using f1(2) by (simp add: chunk_state_def)
  have "holds0 f3 (?head @ (concat ds @ ''0'' @ [NUL, NUL, NUL, NUL]))" using f3(2) by simp
  from holds0_rd_same [OF h1 this] have "lines_in ?f (?head @ (concat ds @ ''0'' @ [NUL, NUL, NUL, NUL])) lines"
    using f2 f3 by (intro lines_in_keep [OF f1(3)]) auto
  then have "\<forall>key l. NUL \<notin> set key \<and> 0 < l \<longrightarrow> hdrstr ?f key l = Inr (hdr_find l key lines)"
    using hdrstr_of_lines_in by blast
  with app body show ?thesis by (intro exI [of _ ?f]) simp
qed

theorem chunked_roundtrip_witness:
  "\<forall>f0. \<exists>f. http_append (header_text [''POST /a HTTP/1.1'', ''Transfer-Encoding: chunked''] @ [CR, LF] @
      chunked_text [''abc'', ''defghijklmno'']) (http_reset 512 f0) = Inr f \<and>
    m_state f = state_recv_finish \<and> fsm_body f = Inr ''abcdefghijklmno''"
proof
  fix f0 :: http_fsm
  let ?lines = "[''POST /a HTTP/1.1'', ''Transfer-Encoding: chunked'']" and ?ds = "[''abc'', ''defghijklmno'']"
  have a: "chunk_ok (unat (512 :: u32))" by (simp add: chunk_ok_def)
  have b: "lines_ok ?lines" by (simp add: lines_ok_def line_ok_def MAX_HEADER_def)
  have c: "hdr_find_int ''Content-Length'' ?lines = None" by code_simp
  have d: "chunked_tok (hdr_find 256 ''Transfer-Encoding'' ?lines)" by code_simp
  have e: "length (header_text ?lines @ [CR, LF] @ chunked_text ?ds) < 2 * (unat (512 :: u32) - 1)"
    by (simp add: chunked_text_def all_chunks_def chunk_text_def to_hex.simps)
  show "\<exists>f. http_append (header_text ?lines @ [CR, LF] @ chunked_text ?ds) (http_reset 512 f0) = Inr f \<and>
    m_state f = state_recv_finish \<and> fsm_body f = Inr ''abcdefghijklmno''"
    using chunked_roundtrip [OF a b c d _ e, of f0] by auto
qed

end
