(* ===== verification/Http_Limits.thy ===== *)
theory Http_Limits
  imports Http_Body
begin

text \<open>
  The parser at its edges: slicing of the input, a request without a body, the request path,
  an announced body of no bytes, chunk extensions, header names that are prefixes of others,
  and a text too long for the buffer.
\<close>

section \<open>Slices\<close>

text \<open>
  \<open>m_state\<close> is read at the start of \<open>append\<close> and written at its end only: nothing in between
  depends on it.
\<close>

definition with_state :: "http_state \<Rightarrow> http_fsm \<times> http_state \<Rightarrow> http_fsm \<times> http_state" where
  "with_state t r = ((fst r)\<lparr>m_state := t\<rparr>, snd r)"

definition blind :: "(http_fsm \<Rightarrow> mem_fault + (http_fsm \<times> http_state)) \<Rightarrow> bool" where
  "blind g \<longleftrightarrow> (\<forall>f t. g (f\<lparr>m_state := t\<rparr>) = bindE (g f) (\<lambda>r. Inr (with_state t r))) \<and>
     (\<forall>f f' s'. g f = Inr (f', s') \<longrightarrow> m_max f' = m_max f)"

lemma recv_lf_state [simp]: "recv_lf (f\<lparr>m_state := t\<rparr>) = recv_lf f"
  by (simp add: recv_lf_def cong: if_cong)

lemma body_diff_state [simp]: "body_diff (f\<lparr>m_state := t\<rparr>) k = body_diff f k"
  by (simp add: body_diff_def cong: option.case_cong)

lemma hdrstr_state [simp]: "hdrstr (f\<lparr>m_state := t\<rparr>) key l = hdrstr f key l"
  by (simp add: hdrstr_def)

lemma hdrint_state [simp]: "hdrint (f\<lparr>m_state := t\<rparr>) key = hdrint f key"
  by (simp add: hdrint_def)

lemma hashdr_state [simp]: "hashdr (f\<lparr>m_state := t\<rparr>) key = hashdr f key"
  by (simp add: hashdr_def)

lemma status_code_state [simp]: "status_code (f\<lparr>m_state := t\<rparr>) = status_code f"
  by (intro ext) (simp add: status_code_def cong: option.case_cong)

lemma bindE_swap: "bindE (bindE m g) h = bindE m (\<lambda>x. bindE (g x) h)"
  by (cases m) simp_all

lemma putrc_state: "putrc (f\<lparr>m_state := t\<rparr>) = bindE (putrc f) (\<lambda>(f', sc). Inr (f'\<lparr>m_state := t\<rparr>, sc))"
  by (auto simp: putrc_def bindE_swap split: list.splits prod.splits intro!: bindE_cong)

lemma putrc_max: "putrc f = Inr (f', sc) \<Longrightarrow> m_max f' = m_max f"
  by (auto simp: putrc_def fault_simps split: list.splits prod.splits if_splits)

lemma header_done_state:
  "header_done (f\<lparr>m_state := t\<rparr>) p = bindE (header_done f p) (\<lambda>r. Inr (with_state t r))"
proof (cases "putrc f")
  case (Inl e)
  then show ?thesis by (simp add: header_done_def putrc_state)
next
  case (Inr r)
  obtain f1 sc where r: "r = (f1, sc)" by force
  have eq: "f1\<lparr>m_state := t, m_res := word_of_int sc\<rparr> = f1\<lparr>m_res := word_of_int sc, m_state := t\<rparr>"
    by simp
  show ?thesis
    unfolding header_done_def putrc_state Inr r bindE_Inr prod.case Let_def eq hdrint_state hdrstr_state hashdr_state
    by (auto simp: bindE_swap rc_def with_state_def split: option.splits intro!: bindE_cong)
qed

lemma header_done_max: "header_done f p = Inr (f', s') \<Longrightarrow> m_max f' = m_max f"
  by (auto simp: header_done_def Let_def fault_simps dest!: putrc_max split: option.splits prod.splits if_splits)

lemma blind_header: "blind recv_header"
proof -
  have "recv_header (f\<lparr>m_state := t\<rparr>) = bindE (recv_header f) (\<lambda>r. Inr (with_state t r))" for f t
  proof -
    have eq: "f\<lparr>m_state := t, m_p := b\<rparr> = f\<lparr>m_p := b, m_state := t\<rparr>" for b by simp
    show ?thesis
      unfolding recv_header_def Let_def recv_lf_state eq header_done_state
      by (auto simp: bindE_swap with_state_def hdrlen_def intro!: bindE_cong)
  qed
  then show ?thesis
    by (auto simp: blind_def recv_header_def Let_def fault_simps dest!: header_done_max split: if_splits)
qed

lemma blind_body: "blind recv_body" "blind recv_body_nochunk" "blind recv_footer" "blind recv_comment"
  by (auto simp: blind_def recv_body_def recv_body_nochunk_def recv_footer_def recv_comment_def
      with_state_def bindE_swap fault_simps hdrlen_def Let_def intro!: bindE_cong split: if_splits)

lemma bodylen_line_state:
  "bodylen_line (f\<lparr>m_state := t\<rparr>) k s = bindE (bodylen_line f k s) (\<lambda>r. Inr (with_state t r))"
  by (auto simp: bodylen_line_def Let_def with_state_def bindE_swap intro!: bindE_cong split: option.splits)

lemma bodylen_line_max: "bodylen_line f k s = Inr (f', s') \<Longrightarrow> m_max f' = m_max f"
  by (auto simp: bodylen_line_def Let_def fault_simps split: option.splits if_splits)

lemma blind_bodylen: "blind recv_bodylen"
  by (auto simp: blind_def recv_bodylen_def bodylen_line_state with_state_def bindE_swap fault_simps
      intro!: bindE_cong dest: bodylen_line_max split: if_splits)

lemma blind_dispatch: "blind (dispatch s)"
  using blind_header blind_body blind_bodylen
  by (cases s) (simp_all add: dispatch_def blind_def with_state_def)

lemma put_char_expand_state:
  "put_char c (expand l (f\<lparr>m_state := t\<rparr>)) = bindE (put_char c (expand l f)) (\<lambda>g. Inr (g\<lparr>m_state := t\<rparr>))"
  by (auto simp: put_char_def expand_def bindE_swap intro!: bindE_cong)

lemma put_char_expand_max: "put_char c (expand l f) = Inr g \<Longrightarrow> m_max g = m_max f"
  by (auto simp: put_char_def expand_def fault_simps)

lemma append_loop_state:
  "append_loop l s cs (f\<lparr>m_state := t\<rparr>) = bindE (append_loop l s cs f) (\<lambda>r. Inr (with_state t r))"
proof (induction cs arbitrary: s f)
  case Nil
  then show ?case by (simp add: with_state_def)
next
  case (Cons c cs)
  have d: "dispatch s' (g\<lparr>m_state := t\<rparr>) = bindE (dispatch s' g) (\<lambda>r. Inr (with_state t r))" for s' g
    using blind_dispatch by (auto simp: blind_def)
  show ?case
    by (auto simp: put_char_expand_state bindE_swap d Cons.IH with_state_def split: prod.splits intro!: bindE_cong)
qed

lemma append_loop_max: "append_loop l s cs f = Inr (f', s') \<Longrightarrow> m_max f' = m_max f"
proof (induction cs arbitrary: s f)
  case Nil
  then show ?case by (auto split: if_splits)
next
  case (Cons c cs)
  have d: "dispatch u g = Inr (g', u') \<Longrightarrow> m_max g' = m_max g" for u g g' u'
    using blind_dispatch [of u] by (auto simp: blind_def)
  from Cons.prems show ?case
    by (auto simp: fault_simps dest!: put_char_expand_max d Cons.IH split: if_splits prod.splits)
qed

lemma append_loop_fault: "append_loop l s cs f = Inl e \<Longrightarrow> cs \<noteq> [] \<Longrightarrow> append_loop l s (cs @ ds) f = Inl e"
proof (induction cs arbitrary: s f)
  case Nil
  then show ?case by simp
next
  case (Cons c cs)
  then show ?case
    by (cases "cs = []") (auto simp: fault_simps split: if_splits prod.splits)
qed

lemma http_append_append:
  assumes "a \<noteq> []" and "b \<noteq> []" and "http_append a f = Inr f1" and "m_state f1 \<noteq> state_websocket_establish"
  shows "http_append (a @ b) f = http_append b f1"
proof -
  obtain g s where g: "append_loop (m_max f - 1) (m_state f) a f = Inr (g, s)" "f1 = g\<lparr>m_state := s\<rparr>"
    using assms(3) by (auto simp: http_append_def fault_simps)
  have "append_loop (m_max f - 1) (m_state f) (a @ b) f = append_loop (m_max f - 1) s b g"
    using assms g by (intro append_loop_append) auto
  moreover have "m_max g = m_max f" using g(1) by (rule append_loop_max)
  ultimately show ?thesis
    by (cases "append_loop (m_max f - 1) s b g") (auto simp: http_append_def g(2) append_loop_state with_state_def)
qed

text \<open>
  Property C22. How the bytes are sliced does not matter: after a slice that did not end at a web
  socket, appending the rest gives what appending everything at once gives, faults included.
\<close>

theorem append_slices:
  assumes "a \<noteq> []" and "b \<noteq> []" and "http_append a f = Inr f1" and "m_state f1 \<noteq> state_websocket_establish"
  shows "http_append (a @ b) f = http_append b f1"
  using assms by (rule http_append_append)

lemma reset_first_byte:
  "chunk_ok (unat n) \<Longrightarrow> c \<noteq> LF \<Longrightarrow> \<exists>g. http_append [c] (http_reset n f0) = Inr (g\<lparr>m_state := state_recv_header\<rparr>)"
proof -
  assume n: "chunk_ok (unat n)" and c: "c \<noteq> LF"
  have "room (unat n) (http_reset n f0) [] (length [c])"
    using n by (auto simp: room_def http_reset_def cap_ok_def holds0_def blk_malloc_def chunk_ok_def)
  from takes_plain [OF _ _ this, of state_recv_header] c
  obtain b where "takes (http_reset n f0) state_recv_header [c]
      ((http_reset n f0)\<lparr>m_p := b, m_len := length ([] @ [c])\<rparr>) state_recv_header"
    by (auto simp: line_state_def)
  then show ?thesis by (intro exI) (rule takes_append, simp_all)
qed

theorem append_slices_witness:
  "\<forall>f0. \<exists>g. http_append ''G'' (http_reset 64 f0) = Inr g \<and> http_append ''GET'' (http_reset 64 f0) = http_append ''ET'' g"
proof
  fix f0
  obtain g where g: "http_append ''G'' (http_reset 64 f0) = Inr (g\<lparr>m_state := state_recv_header\<rparr>)"
    using reset_first_byte [of 64 "CHR ''G''" f0] by (auto simp: chunk_ok_def)
  then show "\<exists>g. http_append ''G'' (http_reset 64 f0) = Inr g \<and>
      http_append ''GET'' (http_reset 64 f0) = http_append ''ET'' g"
    using append_slices [OF _ _ g, of "''ET''"] by auto
qed

section \<open>A text longer than the buffer\<close>

text \<open>
  \<open>append\<close> reallocates to \<open>2 * (m_max - 1)\<close> bytes each time, never more: a text of that
  many bytes without a line feed makes it write outside its block.
\<close>

theorem buffer_overflow:
  assumes "chunk_ok (unat n)" and "LF \<notin> set cs" and "2 * (unat n - 1) \<le> length cs"
  shows "http_append cs (http_reset n f0) = Inl OutOfBounds"
proof -
  let ?k = "2 * (unat n - 1) - 1" and ?f0 = "http_reset n f0"
  let ?us = "take ?k cs"
  have n: "2 \<le> unat n" using assms(1) by (simp add: chunk_ok_def)
  obtain c vs where vs: "drop ?k cs = c # vs" using assms(3) n by (cases "drop ?k cs") auto
  have len: "length ?us = ?k" and ne: "?us \<noteq> []" using assms(3) n by auto
  have r: "room (unat n) ?f0 [] (length ?us)"
    using assms(1) len n by (simp add: room_def http_reset_def cap_ok_def holds0_def blk_malloc_def)
  obtain b where t: "takes ?f0 state_recv_header ?us (?f0\<lparr>m_p := b, m_len := length ([] @ ?us)\<rparr>) state_recv_header"
    and r1: "room (unat n) (?f0\<lparr>m_p := b, m_len := length ([] @ ?us)\<rparr>) ([] @ ?us) 0"
    using takes_plain [OF _ _ r, of state_recv_header] assms(2)
    by (auto simp: line_state_def dest: in_set_takeD)
  let ?f1 = "?f0\<lparr>m_p := b, m_len := length ([] @ ?us)\<rparr>"
  have "append_loop (n - 1) state_recv_header (?us @ c # vs) ?f0 = append_loop (n - 1) state_recv_header (c # vs) ?f1"
    using t ne by (intro append_loop_append) (auto simp: takes_def)
  moreover have "put_char c (expand (m_max ?f1 - 1) ?f1) = Inl OutOfBounds"
    using r1 len by (intro full_buffer [OF assms(1)]) (auto simp: room_def)
  ultimately have "append_loop (n - 1) state_recv_header cs ?f0 = Inl OutOfBounds"
    using vs append_take_drop_id [of ?k cs] by (simp add: terminal_def)
  then show ?thesis by (simp add: http_append_def)
qed

theorem buffer_overflow_witness:
  "\<forall>f0. http_append (replicate 1022 (CHR ''a'')) (http_reset 512 f0) = Inl OutOfBounds"
  using buffer_overflow [of 512 "replicate 1022 (CHR ''a'')"] by (simp add: chunk_ok_def)

section \<open>The request path\<close>

lemma url_skip_str:
  assumes "str_at b w (meth @ CHR '' '' # us)" and "CHR '' '' \<notin> set meth" and "NUL \<notin> set meth"
    and "w + length meth \<le> s + hl" and "s \<le> w"
  shows "url_skip b s hl w = Inr (Some (w + length meth))"
  using assms
proof (induction meth arbitrary: w)
  case Nil
  then show ?case by (simp add: url_skip.simps [of b s hl w])
next
  case (Cons c meth)
  have "url_skip b s hl (w + 1) = Inr (Some (w + 1 + length meth))"
    using Cons.prems by (intro Cons.IH) auto
  moreover obtain d where "rd b (w + 1) = Inr d" "d \<noteq> NUL"
    using Cons.prems by (cases meth) auto
  ultimately show ?case using Cons.prems by (auto simp: url_skip.simps [of b s hl w])
qed

lemma url_copy_str:
  assumes "str_at b w (path @ CHR '' '' # us)" and "CHR '' '' \<notin> set path" and "NUL \<notin> set path"
  shows "url_copy b l w acc = (if length acc + length path < l then Inr (Some (acc @ path)) else Inl OutOfBounds)"
  using assms
proof (induction path arbitrary: w acc)
  case Nil
  then show ?case by (simp add: url_copy.simps [of b l w])
next
  case (Cons c path)
  have "url_copy b l (w + 1) (acc @ [c]) =
      (if length (acc @ [c]) + length path < l then Inr (Some ((acc @ [c]) @ path)) else Inl OutOfBounds)"
    using Cons.prems by (intro Cons.IH) auto
  moreover obtain d where "rd b (w + 1) = Inr d" "d \<noteq> NUL"
    using Cons.prems by (cases path) auto
  ultimately show ?case using Cons.prems by (auto simp: url_copy.simps [of b l w])
qed

definition request_line :: "string \<Rightarrow> string \<Rightarrow> string \<Rightarrow> string" where
  "request_line meth path rest = meth @ '' /'' @ path @ '' '' @ rest"

lemma url_of_lines_in:
  assumes "lines_in f xs (request_line meth path rest # lines)"
    and "CHR '' '' \<notin> set meth" and "CHR '' '' \<notin> set path"
  shows "url f l = (if length path < l then Inr (Some path) else Inl OutOfBounds)"
proof -
  let ?line = "request_line meth path rest" and ?hs = "zip (m_hd f) (m_hl f)"
  have all: "list_all2 (line_at (m_p f)) ?hs (?line # lines)" and h0: "m_hd f ! 0 = 0"
    using assms(1) by (auto simp: lines_in_def lines_of_def)
  then obtain h hl hs where hs: "?hs = (h, hl) # hs" "line_at (m_p f) (h, hl) ?line"
    by (auto simp: list_all2_Cons2)
  have h: "h = 0" using hs(1) h0 by (cases "m_hd f"; cases "m_hl f") auto
  have at: "str_at (m_p f) 0 (meth @ CHR '' '' # (CHR ''/'' # path @ CHR '' '' # rest @ [NUL]))" and hl: "hl = length ?line"
    and nul: "NUL \<notin> set ?line"
    using hs(2) h by (auto simp: line_at_def cstr_at_def request_line_def)
  have "url_skip (m_p f) 0 hl 0 = Inr (Some (length meth))"
    using url_skip_str [OF at assms(2)] nul hl by (simp add: request_line_def)
  moreover have "rd (m_p f) (Suc (length meth)) = Inr (CHR ''/'')"
    and at2: "str_at (m_p f) (length meth + 2) (path @ CHR '' '' # (rest @ [NUL]))"
    using at by (simp_all add: str_at_append)
  moreover have "url_copy (m_p f) l (length meth + 2) [] = (if length path < l then Inr (Some path) else Inl OutOfBounds)"
    using url_copy_str [OF at2 assms(3)] nul by (simp add: request_line_def)
  ultimately show ?thesis using hs(1) h by (simp add: url_def)
qed

section \<open>A request without a body\<close>

lemma memcmp_eq_str:
  assumes "str_at b 0 (us @ vs)" and "length us = i" and "length lit \<le> length vs"
  shows "memcmp_eq b i lit = Inr (is_prefix lit vs)"
proof -
  have "str_at b i (take (length lit) vs)"
    using assms(1,2) append_take_drop_id [of "length lit" vs] by (metis add_0 str_at_append)
  then have "read_bytes b i (length lit) = Inr (take (length lit) vs)"
    using assms(3) read_bytes_str_at [of b i "take (length lit) vs"] by simp
  then show ?thesis
    using assms(3) by (auto simp: memcmp_eq_def is_prefix_iff) (metis append_take_drop_id)
qed

definition plain_request :: "string \<Rightarrow> bool" where
  "plain_request line \<longleftrightarrow> 8 \<le> length line \<and> \<not> is_prefix ''1.1'' (drop 5 line) \<and> \<not> is_prefix ''1.0'' (drop 5 line)"

lemma putrc_request:
  assumes "lines_in f xs (line # lines)" and "plain_request line"
  shows "putrc f = Inr (f\<lparr>m_version := m_version f\<rparr>, -1)"
proof -
  let ?hs = "zip (m_hd f) (m_hl f)"
  have all: "list_all2 (line_at (m_p f)) ?hs (line # lines)" and h0: "m_hd f ! 0 = 0"
    using assms(1) by (auto simp: lines_in_def lines_of_def)
  then obtain h hl hs where hs: "?hs = (h, hl) # hs" "line_at (m_p f) (h, hl) line"
    by (auto simp: list_all2_Cons2)
  have h: "h = 0" using hs(1) h0 by (cases "m_hd f"; cases "m_hl f") auto
  have "str_at (m_p f) 0 (line @ [NUL])" using hs(2) h by (simp add: line_at_def cstr_at_def)
  then have at: "str_at (m_p f) 0 (take 5 line @ drop 5 line)" by (simp add: str_at_append)
  have l: "length (take 5 line) = 5" "3 \<le> length (drop 5 line)" using assms(2) by (auto simp: plain_request_def)
  have "memcmp_eq (m_p f) 5 ''1.1'' = Inr False" "memcmp_eq (m_p f) 5 ''1.0'' = Inr False"
    using memcmp_eq_str [OF at l(1), of "''1.1''"] memcmp_eq_str [OF at l(1), of "''1.0''"] l(2) assms(2)
    by (simp_all add: plain_request_def)
  then show ?thesis using hs(1) h by (simp add: putrc_def)
qed

definition no_body :: "string list \<Rightarrow> bool" where
  "no_body lines \<longleftrightarrow> hdr_find_int ''Content-Length'' lines = None \<and>
     \<not> chunked_tok (hdr_find 256 ''Transfer-Encoding'' lines) \<and>
     hdr_find 256 ''Sec-WebSocket-Key'' lines = None \<and> hdr_find 256 ''Sec-WebSocket-Accept'' lines = None"

lemma sint_16_200: "sint (w :: u16) = 200 \<longleftrightarrow> w = 200"
proof
  assume "sint w = 200"
  then have "word_of_int (sint w) = (200 :: u16)" by simp
  then show "w = 200" by simp
qed simp

lemma header_done_no_body:
  assumes "lines_of f lines" and "putrc f = Inr (f\<lparr>m_version := v\<rparr>, sc)" and "no_body lines"
  shows "header_done f p = Inr (f\<lparr>m_version := v, m_res := word_of_int sc\<rparr>,
    if (word_of_int sc :: u16) = 200 then state_error else state_recv_finish)"
proof -
  let ?g = "f\<lparr>m_version := v, m_res := word_of_int sc\<rparr>"
  have g: "lines_of ?g lines" using assms(1) by (simp add: lines_of_def)
  have nul: "NUL \<notin> set ''Transfer-Encoding''" "NUL \<notin> set ''Sec-WebSocket-Key''" "NUL \<notin> set ''Sec-WebSocket-Accept''"
    "NUL \<notin> set ''Content-Length''" by simp_all
  have ok: "rc ?g = hrc_value HRC_OK \<longleftrightarrow> (word_of_int sc :: u16) = 200"
    using sint_16_200 [of "word_of_int sc"] by (simp add: rc_def)
  show ?thesis
    using assms(2,3) ok
    by (simp add: header_done_def no_body_def hdrint_lines [OF g] hdrstr_lines [OF g] hashdr_lines [OF g] nul)
qed

text \<open>
  A request without body headers is complete at the empty line: the parser finishes
  without a body, the request path is given back to a caller whose buffer is longer than it (a buffer
  of the same length or shorter is written past its end), and header look-ups are as specified.
\<close>

theorem bodyless_request:
  assumes "chunk_ok (unat n)" and "lines_ok (request_line meth path rest # lines)"
    and "no_body (request_line meth path rest # lines)" and "plain_request (request_line meth path rest)"
    and "CHR '' '' \<notin> set meth" and "CHR '' '' \<notin> set path"
    and "length (header_text (request_line meth path rest # lines) @ [CR, LF]) < 2 * (unat n - 1)"
  shows "\<exists>f. http_append (header_text (request_line meth path rest # lines) @ [CR, LF]) (http_reset n f0) = Inr f \<and>
    m_state f = state_recv_finish \<and> m_bd f = None \<and>
    (\<forall>l. url f l = (if length path < l then Inr (Some path) else Inl OutOfBounds)) \<and>
    (\<forall>key l. NUL \<notin> set key \<and> 0 < l \<longrightarrow> hdrstr f key l = Inr (hdr_find l key (request_line meth path rest # lines)))"
proof -
  let ?lines = "request_line meth path rest # lines"
  have fits: "length (header_text ?lines) + 2 < 2 * (unat n - 1)" using assms(7) by simp
  obtain f2 v sc where f2: "lines_in f2 (blanked ?lines @ [NUL, NUL]) ?lines" "m_max f2 = n" "m_bd f2 = None"
    and step: "\<And>f' s'. header_done f2 (length (header_text ?lines) + 2) = Inr (f', s') \<Longrightarrow> m_max f' = n \<Longrightarrow>
      s' \<noteq> state_websocket_establish \<Longrightarrow>
      takes (http_reset n f0) state_recv_header (header_text ?lines @ [CR, LF]) f' s'"
    using takes_header [OF assms(1,2) fits] by blast
  have "header_done f2 (length (header_text ?lines) + 2) =
      Inr (f2\<lparr>m_version := m_version f2, m_res := word_of_int (-1)\<rparr>, if (word_of_int (-1) :: u16) = 200 then state_error else state_recv_finish)"
    using f2(1) by (intro header_done_no_body [OF _ putrc_request [OF f2(1) assms(4)] assms(3)]) (simp add: lines_in_def)
  then have "header_done f2 (length (header_text ?lines) + 2) = Inr (f2\<lparr>m_res := word_of_int (-1)\<rparr>, state_recv_finish)"
    by simp
  from step [OF this] f2(2) have "http_append (header_text ?lines @ [CR, LF]) (http_reset n f0) =
      Inr (f2\<lparr>m_res := word_of_int (-1), m_state := state_recv_finish\<rparr>)"
    by (intro takes_append) simp_all
  moreover have lin: "lines_in (f2\<lparr>m_res := word_of_int (-1), m_state := state_recv_finish\<rparr>) (blanked ?lines @ [NUL, NUL]) ?lines"
    using f2(1) by (simp add: lines_in_def lines_of_def)
  ultimately show ?thesis
    using f2(3) url_of_lines_in [OF lin assms(5,6)] hdrstr_of_lines_in [OF lin]
    by (intro exI [of _ "f2\<lparr>m_res := word_of_int (-1), m_state := state_recv_finish\<rparr>"]) (simp del: header_text.simps)
qed

theorem bodyless_request_witness:
  "\<forall>f0. \<exists>f. http_append (header_text [''GET /index HTTP/1.1'', ''Host: a''] @ [CR, LF]) (http_reset 512 f0) = Inr f \<and>
    m_state f = state_recv_finish \<and> url f 256 = Inr (Some ''index'') \<and> url f 5 = Inl OutOfBounds"
proof
  fix f0 :: http_fsm
  let ?line = "request_line ''GET'' ''index'' ''HTTP/1.1''" and ?rest = "[''Host: a'']"
  have a: "chunk_ok (unat (512 :: u32))" by (simp add: chunk_ok_def)
  have b: "lines_ok (?line # ?rest)" by (simp add: lines_ok_def line_ok_def MAX_HEADER_def request_line_def)
  have c: "no_body (?line # ?rest)" by code_simp
  have d: "plain_request ?line" by (simp add: plain_request_def request_line_def)
  have e: "length (header_text (?line # ?rest) @ [CR, LF]) < 2 * (unat (512 :: u32) - 1)"
    by (simp add: request_line_def)
  have l: "?line = ''GET /index HTTP/1.1''" by (simp add: request_line_def)
  show "\<exists>f. http_append (header_text [''GET /index HTTP/1.1'', ''Host: a''] @ [CR, LF]) (http_reset 512 f0) = Inr f \<and>
    m_state f = state_recv_finish \<and> url f 256 = Inr (Some ''index'') \<and> url f 5 = Inl OutOfBounds"
    using bodyless_request [OF a b c d _ _ e, of f0] unfolding l by auto
qed

text \<open>
  A header section that announces a body of 0 bytes does not finish the message: the
  parser waits for one byte more, and whatever it is the result is an error.
\<close>

theorem empty_body_never_finishes:
  assumes "chunk_ok (unat n)" and "lines_ok lines"
    and "hdr_find_int ''Content-Length'' lines = Some 0"
    and "length (header_text lines @ [CR, LF]) + 1 < 2 * (unat n - 1)"
  shows "\<exists>f. http_append (header_text lines @ [CR, LF]) (http_reset n f0) = Inr f \<and>
    m_state f = state_recv_body_nochunk \<and>
    (\<forall>c. \<exists>g. http_append [c] f = Inr g \<and> m_state g = state_error)"
proof -
  let ?head = "blanked lines @ [NUL, NUL]"
  have fits: "length (header_text lines) + 2 < 2 * (unat n - 1)" using assms(4) by simp
  obtain f1 where f1: "takes (http_reset n f0) state_recv_header (header_text lines @ [CR, LF]) f1 state_recv_body_nochunk"
    "head_read (unat n) f1 ?head lines" "m_bl f1 = word_of_int 0"
    using takes_header_content_length [OF assms(1,2) fits assms(3)] by blast
  let ?f = "f1\<lparr>m_state := state_recv_body_nochunk\<rparr>"
  have "http_append (header_text lines @ [CR, LF]) (http_reset n f0) = Inr ?f"
    using f1(1) by (intro takes_append) simp_all
  moreover have "\<exists>g. http_append [c] ?f = Inr g \<and> m_state g = state_error" for c
  proof -
    have r: "room (unat n) ?f ?head 1" and bd: "m_bd f1 = Some (length ?head)"
      using f1(2) assms(4) by (auto simp: head_read_def room_def length_blanked cap_ok_def holds0_def)
    obtain b where "append_loop (m_max ?f - 1) state_recv_body_nochunk [c] ?f =
        dispatch state_recv_body_nochunk (?f\<lparr>m_p := b, m_len := length ?head + 1\<rparr>)"
      using takes_byte [OF r, of state_recv_body_nochunk c] by (auto simp: terminal_def)
    moreover have "body_diff (?f\<lparr>m_p := b, m_len := length ?head + 1\<rparr>) 0 = Inr (int 0 - int 1 + int 0)"
      using bd f1(3) by (intro body_diff_at [where k = "length ?head"]) auto
    ultimately show ?thesis
      by (simp add: http_append_def dispatch_def recv_body_nochunk_def del: append_loop.simps)
  qed
  ultimately show ?thesis by (intro exI [of _ ?f]) simp
qed

theorem empty_body_never_finishes_witness:
  "\<forall>f0. \<exists>f. http_append (header_text [''POST /a HTTP/1.1'', ''Content-Length: 0''] @ [CR, LF]) (http_reset 512 f0) = Inr f \<and>
    m_state f = state_recv_body_nochunk"
proof
  fix f0 :: http_fsm
  let ?lines = "[''POST /a HTTP/1.1'', ''Content-Length: 0'']"
  have a: "chunk_ok (unat (512 :: u32))" by (simp add: chunk_ok_def)
  have b: "lines_ok ?lines" by (simp add: lines_ok_def line_ok_def MAX_HEADER_def)
  have c: "hdr_find_int ''Content-Length'' ?lines = Some 0" by code_simp
  have d: "length (header_text ?lines @ [CR, LF]) + 1 < 2 * (unat (512 :: u32) - 1)" by simp
  show "\<exists>f. http_append (header_text ?lines @ [CR, LF]) (http_reset 512 f0) = Inr f \<and>
    m_state f = state_recv_body_nochunk"
    using empty_body_never_finishes [OF a b c d, of f0] by blast
qed

section \<open>Chunk extensions\<close>

text \<open>
  \<open>recv_bodylen\<close> tests \<open>*p\<close> for a semicolon, but \<open>p\<close> is \<open>current()\<close>, where \<open>append\<close> has just written
  the terminating NUL: the test never succeeds.
\<close>

lemma put_char_terminated: "put_char c f = Inr g \<Longrightarrow> rd (m_p g) (m_len g) = Inr NUL"
  by (auto simp: put_char_def fault_simps)

lemma dispatch_no_comment:
  assumes "dispatch s f = Inr (f', s')" and "rd (m_p f) (m_len f) = Inr NUL" and "s \<noteq> state_recv_comment"
  shows "s' \<noteq> state_recv_comment"
proof -
  have h: "header_done g p = Inr (g', t) \<Longrightarrow> t \<noteq> state_recv_comment" for g p g' t
    by (auto simp: header_done_def Let_def fault_simps split: option.splits prod.splits if_splits)
  show ?thesis
    using assms
    by (cases s)
      (auto simp: dispatch_def recv_header_def recv_body_def recv_body_nochunk_def recv_bodylen_def bodylen_line_def
        recv_footer_def Let_def fault_simps dest: h split: if_splits option.splits)
qed

lemma append_loop_no_comment:
  "append_loop l s cs f = Inr (f', s') \<Longrightarrow> s \<noteq> state_recv_comment \<Longrightarrow> s' \<noteq> state_recv_comment"
proof (induction cs arbitrary: s f)
  case Nil
  then show ?case by (auto split: if_splits)
next
  case (Cons c cs)
  show ?case
  proof (cases "terminal s \<or> s = state_websocket_establish")
    case True
    with Cons.prems show ?thesis by (auto simp: fault_simps split: if_splits)
  next
    case False
    with Cons.prems obtain f1 f2 s2 where step: "put_char c (expand l f) = Inr f1" "dispatch s f1 = Inr (f2, s2)"
      and rest: "(if cs = [] then Inr (f2, s2) else append_loop l s2 cs f2) = Inr (f', s')"
      by (auto simp: fault_simps)
    have "s2 \<noteq> state_recv_comment"
      using dispatch_no_comment [OF step(2) put_char_terminated [OF step(1)] Cons.prems(2)] .
    with rest Cons.IH [of s2 f2] show ?thesis by (auto split: if_splits)
  qed
qed

interpretation no_comment: machine "\<lambda>f cs. http_append cs f" "\<lambda>f. m_state f \<noteq> state_recv_comment"
  by unfold_locales (auto simp: http_append_def fault_simps dest: append_loop_no_comment)

text \<open>
  However a parser is fed after \<open>reset\<close>, slice after slice, it never gets into the state
  that skips a chunk extension.
\<close>

theorem comment_state_unreachable:
  "case run_steps (\<lambda>f cs. http_append cs f) (http_reset n f0) slices of
     Inl _ \<Rightarrow> True | Inr f \<Rightarrow> m_state f \<noteq> state_recv_comment"
  using no_comment.run_inv [of "http_reset n f0" slices] by (auto split: sum.splits)

text \<open>
  A chunk whose length line carries an extension makes the parser fail.
\<close>

theorem chunk_extension_fails:
  assumes "chunk_ok (unat n)" and "lines_ok lines"
    and "hdr_find_int ''Content-Length'' lines = None"
    and "chunked_tok (hdr_find 256 ''Transfer-Encoding'' lines)"
    and "length_text (sz @ CHR '';'' # ext)"
    and "length (header_text lines @ [CR, LF] @ (sz @ CHR '';'' # ext) @ [CR, LF]) < 2 * (unat n - 1)"
  shows "\<exists>f. http_append (header_text lines @ [CR, LF] @ (sz @ CHR '';'' # ext) @ [CR, LF]) (http_reset n f0) = Inr f \<and>
    m_state f = state_error"
proof -
  let ?h = "sz @ CHR '';'' # ext" and ?xs = "blanked lines @ [NUL, NUL]"
  have fits: "length (header_text lines) + 2 < 2 * (unat n - 1)"
    and fits2: "length ?xs + length ?h + 2 < 2 * (unat n - 1)" using assms(6) by (simp_all add: length_blanked)
  obtain f1 where f1: "takes (http_reset n f0) state_recv_header (header_text lines @ [CR, LF]) f1 state_recv_bodylen"
    "chunk_state (unat n) f1 ?xs (length (header_text lines) + 2)"
    using takes_header_chunked [OF assms(1,2) fits assms(3,4)] by blast
  have bad: "hex_value 0 ?h = None"
    by (auto simp: hex_value_append hex_num_def in_range_def less_eq_char_def split: option.splits)
  obtain b where b: "takes f1 state_recv_bodylen (?h @ [CR, LF])
      (f1\<lparr>m_p := b, m_len := length ?xs + length ?h + 2\<rparr>) state_error"
    using takes_length_text [OF f1(2) assms(5) fits2] by (auto simp: bad simp del: length_append length_Cons)
  from takes_trans [OF f1(1) b] have "http_append ((header_text lines @ [CR, LF]) @ ?h @ [CR, LF]) (http_reset n f0) =
      Inr (f1\<lparr>m_p := b, m_len := length ?xs + length ?h + 2, m_state := state_error\<rparr>)"
    by (intro takes_append) simp_all
  then show ?thesis by simp
qed

theorem chunk_extension_fails_witness:
  "\<forall>f0. \<exists>f. http_append (header_text [''POST /a HTTP/1.1'', ''Transfer-Encoding: chunked''] @ [CR, LF] @
      (''3'' @ CHR '';'' # ''x=y'') @ [CR, LF]) (http_reset 512 f0) = Inr f \<and> m_state f = state_error"
proof
  fix f0 :: http_fsm
  let ?lines = "[''POST /a HTTP/1.1'', ''Transfer-Encoding: chunked'']"
  have a: "chunk_ok (unat (512 :: u32))" by (simp add: chunk_ok_def)
  have b: "lines_ok ?lines" by (simp add: lines_ok_def line_ok_def MAX_HEADER_def)
  have c: "hdr_find_int ''Content-Length'' ?lines = None" by code_simp
  have d: "chunked_tok (hdr_find 256 ''Transfer-Encoding'' ?lines)" by code_simp
  have e: "length_text (''3'' @ CHR '';'' # ''x=y'')" by (simp add: length_text_def)
  have l: "length (header_text ?lines @ [CR, LF] @ (''3'' @ CHR '';'' # ''x=y'') @ [CR, LF]) < 2 * (unat (512 :: u32) - 1)"
    by simp
  show "\<exists>f. http_append (header_text ?lines @ [CR, LF] @ (''3'' @ CHR '';'' # ''x=y'') @ [CR, LF]) (http_reset 512 f0) = Inr f \<and>
      m_state f = state_error"
    by (rule chunk_extension_fails [OF a b c d e l])
qed

section \<open>Header names that are prefixes\<close>

text \<open>
  \<open>hdrstr\<close> compares a key with the start of a line only, so \<open>accept\<close> answers from an
  \<open>Accept-Encoding\<close> line when that one comes first.
\<close>

theorem accept_answers_from_accept_encoding:
  assumes "lines_of f (pre @ (''Accept-Encoding: '' @ enc) # post)"
    and "\<forall>line \<in> set pre. \<not> key_starts ''Accept'' line" and "length enc < 240"
  shows "accept f mime = Inr (strstr_found (''-Encoding: '' @ enc) mime)"
proof -
  have skip: "hdr_find l key (pre @ rest) = hdr_find l key rest" if "\<forall>line \<in> set pre. \<not> key_starts key line" for l key rest
    using that by (induction pre) auto
  have "hdr_find 256 ''Accept'' (pre @ (''Accept-Encoding: '' @ enc) # post) = Some (''-Encoding: '' @ enc)"
    using assms(2,3) by (simp add: skip key_starts_def value_of_def sep_char_def c_tolower_def in_range_def less_eq_char_def)
  then have "hdrstr f ''Accept'' 256 = Inr (Some (''-Encoding: '' @ enc))"
    using hdrstr_lines [OF assms(1), of "''Accept''" 256] by simp
  then show ?thesis by (simp add: accept_def hdr_contains_def)
qed

theorem accept_answers_from_accept_encoding_witness:
  "\<exists>f. lines_of f [''GET / HTTP/1.1'', ''Accept-Encoding: gzip'', ''Accept: text/html''] \<and>
    accept f ''text/html'' = Inr False"
proof -
  let ?lines = "[''GET / HTTP/1.1'', ''Accept-Encoding: gzip'', ''Accept: text/html'']"
  have a: "chunk_ok (unat (512 :: u32))" by (simp add: chunk_ok_def)
  have b: "lines_ok ?lines" by (simp add: lines_ok_def line_ok_def MAX_HEADER_def)
  have c: "length (header_text ?lines) + 2 < 2 * (unat (512 :: u32) - 1)" by simp
  obtain f where "lines_in f (blanked ?lines @ [NUL, NUL]) ?lines"
    by (rule takes_header [OF a b c]) (erule that)
  then have f: "lines_of f ?lines" by (simp add: lines_in_def)
  have l: "lines_of f ([''GET / HTTP/1.1''] @ (''Accept-Encoding: '' @ ''gzip'') # [''Accept: text/html''])"
    using f by simp
  have p: "\<forall>line \<in> set [''GET / HTTP/1.1'']. \<not> key_starts ''Accept'' line"
    by code_simp
  have d: "accept f ''text/html'' = Inr (strstr_found (''-Encoding: '' @ ''gzip'') ''text/html'')"
    by (rule accept_answers_from_accept_encoding [OF l p]) simp
  with f show ?thesis by auto
qed

section \<open>Requests read as replies\<close>

text \<open>
  The status code is looked for in requests too, at the place where a reply has it: this
  well-formed request for the path \<open>1.1/200\<close> is taken for a reply \<open>200\<close> without a body, an error.
\<close>

theorem request_taken_for_reply:
  "\<exists>f. http_append (header_text [''GET /1.1/200 HTTP/1.1'', ''Host: a''] @ [CR, LF]) (http_reset 512 f0) = Inr f \<and>
    m_state f = state_error"
proof -
  let ?line = "''GET /1.1/200 HTTP/1.1''"
  let ?lines = "[?line, ''Host: a'']"
  have a: "chunk_ok (unat (512 :: u32))" by (simp add: chunk_ok_def)
  have b: "lines_ok ?lines" by (simp add: lines_ok_def line_ok_def MAX_HEADER_def)
  have c: "length (header_text ?lines) + 2 < 2 * (unat (512 :: u32) - 1)" by simp
  obtain f2 where f2: "lines_in f2 (blanked ?lines @ [NUL, NUL]) ?lines" "m_max f2 = 512"
    and step: "\<And>f' s'. header_done f2 (length (header_text ?lines) + 2) = Inr (f', s') \<Longrightarrow> m_max f' = 512 \<Longrightarrow>
      s' \<noteq> state_websocket_establish \<Longrightarrow>
      takes (http_reset 512 f0) state_recv_header (header_text ?lines @ [CR, LF]) f' s'"
    by (rule takes_header [OF a b c]) (erule that)
  have nb: "no_body ?lines" by code_simp
  let ?hs = "zip (m_hd f2) (m_hl f2)"
  obtain h hl hs where hs: "?hs = (h, hl) # hs" "line_at (m_p f2) (h, hl) ?line"
    using f2(1) by (auto simp: lines_in_def lines_of_def list_all2_Cons2)
  have h: "h = 0" using hs(1) f2(1) by (cases "m_hd f2"; cases "m_hl f2") (auto simp: lines_in_def)
  have at: "str_at (m_p f2) 0 (?line @ [NUL])" and hl: "hl = length ?line"
    using hs(2) h by (simp_all add: line_at_def cstr_at_def)
  have "status_code f2 0 hl 8 = Inr 200"
    using at hl by (simp add: status_code_def rc_skip.simps rc_copy.simps http_atoi_def char_diff_def in_range_def
        less_eq_char_def numeral_eq_Suc)
  moreover have "memcmp_eq (m_p f2) 5 ''1.1'' = Inr True"
    using at by (simp add: memcmp_eq_def numeral_eq_Suc)
  ultimately have "putrc f2 = Inr (f2\<lparr>m_version := 11\<rparr>, 200)"
    using hs(1) h by (simp add: putrc_def)
  then have "header_done f2 (length (header_text ?lines) + 2) =
      Inr (f2\<lparr>m_version := 11, m_res := word_of_int 200\<rparr>, if (word_of_int 200 :: u16) = 200 then state_error else state_recv_finish)"
    using f2(1) by (intro header_done_no_body [OF _ _ nb]) (simp_all add: lines_in_def)
  then have "header_done f2 (length (header_text ?lines) + 2) =
      Inr (f2\<lparr>m_version := 11, m_res := word_of_int 200\<rparr>, state_error)" by simp
  from step [OF this] f2(2) have "http_append (header_text ?lines @ [CR, LF]) (http_reset 512 f0) =
      Inr (f2\<lparr>m_version := 11, m_res := word_of_int 200, m_state := state_error\<rparr>)"
    by (intro takes_append) simp_all
  then show ?thesis by simp
qed

end
