(* ===== verification/Http_Server.thy ===== *)
theory Http_Server
  imports Http_Limits "HOL-Library.AList"
begin

text \<open>
  The HTTP server around the parser: \<open>HttpServContext\<close> (one accepted connection: reading, the
  response writer), \<open>HttpRouter\<close>, and the listener table of \<open>HttpServer\<close>. The transport of gRPC
  (\<open>grpc_endpoint\<close>, pollsets, name resolution) is outside the sources: what a handler asks of it
  is returned as a value of \<open>sock_op\<close>.
\<close>

section \<open>Writing a response\<close>

text \<open>\<open>std::to_string\<close> and \<open>%d\<close>.\<close>

definition digit_char :: "nat \<Rightarrow> char" where
  "digit_char d = char_of (48 + d)"

fun dec_nat :: "nat \<Rightarrow> string" where
  "dec_nat n = (if n < 10 then [digit_char n] else dec_nat (n div 10) @ [digit_char (n mod 10)])"

declare dec_nat.simps [simp del]

definition dec_int :: "int \<Rightarrow> string" where
  "dec_int i = (if i < 0 then CHR ''-'' # dec_nat (nat (- i)) else dec_nat (nat i))"

text \<open>
  \<open>MemFmt (fmt, max, \<dots>)\<close>: \<open>vsnprintf\<close> stores at most \<open>max - 1\<close> characters and a NUL into \<open>b[max]\<close> but
  returns the length of the whole text, and that many bytes of \<open>b\<close> are copied.
\<close>

definition mem_fmt :: "nat \<Rightarrow> string \<Rightarrow> mem_fault + string" where
  "mem_fmt mx text =
     (if length text < mx then Inr text
      else if length text = mx then Inr (butlast text @ [NUL])
      else Inl OutOfBounds)"

text \<open>\<open>buffer_\<close> is the list of its slices; both directions share it.\<close>

fun header_slices :: "(string \<times> string) list \<Rightarrow> mem_fault + string list" where
  "header_slices [] = Inr []"
| "header_slices ((key, val) # rest) =
     bindE (mem_fmt 1024 (key @ '': '' @ val @ (if rest = [] then [CR, LF, CR, LF] else [CR, LF]))) (\<lambda>s.
     bindE (header_slices rest) (\<lambda>ss. Inr (s # ss)))"

definition write_header :: "int \<Rightarrow> (string \<times> string) list \<Rightarrow> string list \<Rightarrow> mem_fault + string list" where
  "write_header code headers buffer =
     bindE (mem_fmt 64 (''HTTP/1.1 '' @ dec_int code @ [CR, LF])) (\<lambda>s.
     bindE (header_slices headers) (\<lambda>ss. Inr (buffer @ s # ss)))"

definition write_body :: "string \<Rightarrow> string list \<Rightarrow> string list" where
  "write_body p buffer = buffer @ [p]"

definition write_response :: "string \<Rightarrow> string list \<Rightarrow> mem_fault + string list" where
  "write_response p buffer =
     bindE (write_header (hrc_value HRC_OK) [(''Content-Length'', dec_nat (length p))] buffer) (\<lambda>b.
       Inr (write_body p b))"

lemma digit_char_plain:
  assumes "d < 10"
  shows "c_isdigit (digit_char d)" "digit_val (digit_char d) = int d" "digit_char d \<noteq> CHR 0x0A"
    "digit_char d \<noteq> CHR 0x00" "\<not> c_isspace (digit_char d)" "digit_char d \<noteq> CHR ''-''" "digit_char d \<noteq> CHR ''+''"
    "\<not> sep_char (digit_char d)"
proof -
  have "list_all (\<lambda>d. c_isdigit (digit_char d) \<and> digit_val (digit_char d) = int d \<and> digit_char d \<noteq> CHR 0x0A \<and>
      digit_char d \<noteq> CHR 0x00 \<and> \<not> c_isspace (digit_char d) \<and> digit_char d \<noteq> CHR ''-'' \<and> digit_char d \<noteq> CHR ''+'' \<and>
      \<not> sep_char (digit_char d)) [0, 1, 2, 3, 4, 5, 6, 7, 8, 9]"
    by code_simp
  moreover have "d \<in> set [0, 1, 2, 3, 4, 5, 6, 7, 8, 9]"
    using assms by (auto simp: numeral_eq_Suc less_Suc_eq)
  ultimately show "c_isdigit (digit_char d)" "digit_val (digit_char d) = int d" "digit_char d \<noteq> CHR 0x0A"
    "digit_char d \<noteq> CHR 0x00" "\<not> c_isspace (digit_char d)" "digit_char d \<noteq> CHR ''-''" "digit_char d \<noteq> CHR ''+''"
    "\<not> sep_char (digit_char d)"
    unfolding list_all_iff by blast+
qed

lemma dec_nat_plain:
  "dec_nat n \<noteq> [] \<and> (\<forall>c \<in> set (dec_nat n). \<exists>d < 10. c = digit_char d)"
proof (induction n rule: dec_nat.induct)
  case (1 n)
  show ?case
  proof (cases "n < 10")
    case True
    then show ?thesis by (auto simp: dec_nat.simps [of n])
  next
    case False
    with 1 have "\<forall>c \<in> set (dec_nat (n div 10)). \<exists>d < 10. c = digit_char d" by blast
    moreover have "n mod 10 < 10" by simp
    then have "\<exists>d < 10. digit_char (n mod 10) = digit_char d" by blast
    ultimately show ?thesis using False by (simp add: dec_nat.simps [of n])
  qed
qed

lemma decimal_dec_nat: "decimal (dec_nat n) = int n"
proof (induction n rule: dec_nat.induct)
  case (1 n)
  show ?case
  proof (cases "n < 10")
    case True
    then show ?thesis by (simp add: dec_nat.simps [of n] decimal_def digit_char_plain)
  next
    case False
    with 1 have "foldl (\<lambda>n c. 10 * n + digit_val c) 0 (dec_nat (n div 10)) = int (n div 10)"
      by (simp add: decimal_def)
    moreover have "digit_val (digit_char (n mod 10)) = int (n mod 10)" by (simp add: digit_char_plain)
    moreover have "10 * int (n div 10) + int (n mod 10) = int n" by presburger
    ultimately show ?thesis using False by (simp add: dec_nat.simps [of n] decimal_def)
  qed
qed

lemma stoi_digits:
  assumes "ds \<noteq> []" and "\<forall>c \<in> set ds. c_isdigit c" and "\<not> c_isspace (hd ds)" and "hd ds \<noteq> CHR ''-''"
    and "hd ds \<noteq> CHR ''+''" and "decimal ds < 2 ^ 31" and "0 \<le> decimal ds"
  shows "stoi ds = Some (decimal ds, length ds)"
proof -
  obtain c cs where c: "ds = c # cs" using assms(1) by (cases ds) auto
  have "takeWhile c_isdigit ds = ds" using assms(2) by (simp add: takeWhile_eq_all_conv)
  moreover have "takeWhile c_isspace ds = []" "dropWhile c_isspace ds = ds" using assms(3) c by simp_all
  moreover have "(case ds of c # _ \<Rightarrow> if c = CHR ''-'' \<or> c = CHR ''+'' then [c] else [] | [] \<Rightarrow> []) = []"
    using assms(4,5) c by simp
  ultimately have "stoi ds = (if ds = [] \<or> decimal ds < - (2 ^ 31) \<or> 2 ^ 31 \<le> decimal ds then None
      else Some (decimal ds, length ds))"
    unfolding stoi_def Let_def by (simp only: list.size drop_0 add_0 if_False list.distinct not_Cons_self2 refl)
  moreover have "\<not> (ds = [] \<or> decimal ds < - (2 ^ 31) \<or> 2 ^ 31 \<le> decimal ds)" using assms(1,6,7) by linarith
  ultimately show ?thesis by (simp only: if_False)
qed

lemma stoi_dec_nat:
  assumes "int n < 2 ^ 31"
  shows "stoi (dec_nat n) = Some (int n, length (dec_nat n))"
proof -
  have ne: "dec_nat n \<noteq> []" and all: "\<forall>c \<in> set (dec_nat n). \<exists>d < 10. c = digit_char d"
    using dec_nat_plain by blast+
  then obtain d where d: "d < 10" "hd (dec_nat n) = digit_char d" by (metis hd_in_set)
  have digits: "\<forall>c \<in> set (dec_nat n). c_isdigit c" using all digit_char_plain(1) by fastforce
  show ?thesis
    using stoi_digits [OF ne digits, unfolded d(2) decimal_dec_nat, OF digit_char_plain(5,6,7) [OF d(1)] assms of_nat_0_le_iff] .
qed

text \<open>The text of a response: status line, header lines, empty line, body.\<close>

lemma header_slices_text:
  assumes "hs \<noteq> []" and "\<forall>(k, v) \<in> set hs. length k + length v + 6 < 1024"
  shows "\<exists>ss. header_slices hs = Inr ss \<and> concat ss = header_text (map (\<lambda>(k, v). k @ '': '' @ v) hs) @ [CR, LF]"
  using assms
proof (induction hs rule: header_slices.induct)
  case 1
  then show ?case by simp
next
  case (2 k v rest)
  show ?case
  proof (cases "rest = []")
    case True
    with 2 show ?thesis by (simp add: mem_fmt_def)
  next
    case False
    then have m: "mem_fmt 1024 (k @ '': '' @ v @ (if rest = [] then [CR, LF, CR, LF] else [CR, LF])) = Inr (k @ '': '' @ v @ [CR, LF])"
      using 2 by (simp add: mem_fmt_def)
    from 2(1) [OF m False] 2(3) obtain ss where "header_slices rest = Inr ss"
      "concat ss = header_text (map (\<lambda>(k, v). k @ '': '' @ v) rest) @ [CR, LF]" by auto
    with 2 False show ?thesis by (simp add: mem_fmt_def)
  qed
qed

lemma length_dec_nat: "n < 10 ^ k \<Longrightarrow> 0 < k \<Longrightarrow> length (dec_nat n) \<le> k"
proof (induction k arbitrary: n)
  case 0
  then show ?case by simp
next
  case (Suc k)
  show ?case
  proof (cases "n < 10")
    case True
    then show ?thesis by (simp add: dec_nat.simps [of n])
  next
    case False
    then have "k \<noteq> 0" using Suc.prems by (cases k) auto
    moreover have "n div 10 < 10 ^ k" using Suc.prems by (simp add: less_mult_imp_div_less mult.commute)
    ultimately have "length (dec_nat (n div 10)) \<le> k" by (intro Suc.IH) auto
    with False show ?thesis by (simp add: dec_nat.simps [of n])
  qed
qed

text \<open>
  With at least one header, each shorter than the format buffer, and a three digit status
  the writer produces the status line, the header lines in order and the empty line, after what was
  buffered before.
\<close>

theorem write_header_text:
  assumes "0 \<le> code" and "code < 1000" and "hs \<noteq> []" and "\<forall>(k, v) \<in> set hs. length k + length v + 6 < 1024"
  shows "\<exists>ss. write_header code hs buffer = Inr (buffer @ ss) \<and>
    concat ss = header_text ((''HTTP/1.1 '' @ dec_int code) # map (\<lambda>(k, v). k @ '': '' @ v) hs) @ [CR, LF]"
proof -
  have "length (dec_int code) \<le> 3" using assms(1,2) length_dec_nat [of "nat code" 3] by (simp add: dec_int_def)
  then have "mem_fmt 64 (''HTTP/1.1 '' @ dec_int code @ [CR, LF]) = Inr (''HTTP/1.1 '' @ dec_int code @ [CR, LF])"
    by (simp add: mem_fmt_def)
  with header_slices_text [OF assms(3,4)] show ?thesis by (auto simp: write_header_def)
qed

theorem write_header_text_witness:
  "\<exists>ss. write_header 404 [(''A'', ''b''), (''C'', ''d'')] [] = Inr ([] @ ss) \<and>
    concat ss = header_text ((''HTTP/1.1 '' @ dec_int 404) # map (\<lambda>(k, v). k @ '': '' @ v) [(''A'', ''b''), (''C'', ''d'')]) @ [CR, LF]"
  by (rule write_header_text) simp_all

text \<open>
  Without headers the empty line is missing: what is written is the status line alone.
\<close>

theorem write_header_no_headers:
  "write_header 204 [] buffer = Inr (buffer @ [''HTTP/1.1 204'' @ [CR, LF]])"
proof -
  have "dec_int 204 = ''204''" by code_simp
  then show ?thesis by (simp add: write_header_def mem_fmt_def)
qed

text \<open>
  A header line of more than the 1024 bytes of the format buffer is copied past its end.
\<close>

theorem long_header_overreads:
  assumes "1024 < length k + length v + 4"
  shows "write_header code ((k, v) # rest) buffer = Inl OutOfBounds"
  using assms by (auto simp: write_header_def mem_fmt_def bindE_def)

lemma long_header_overreads_witness:
  "write_header 200 [(replicate 1000 (CHR ''k''), replicate 30 (CHR ''v''))] [] = Inl OutOfBounds"
  by (rule long_header_overreads) simp

lemma dec_nat_200: "dec_int (hrc_value HRC_OK) = ''200''"
  by code_simp

lemma sep_free_value: "v \<noteq> [] \<Longrightarrow> \<not> sep_char (hd v) \<Longrightarrow> dropWhile sep_char v = v"
  by (cases v) auto

text \<open>
  Property C24. \<open>WriteResponse\<close> and the parser are inverse to each other: the text written for a non-empty
  body, fed to a parser whose buffer can hold it, is a complete message with that body.
\<close>

theorem write_response_roundtrip:
  assumes "chunk_ok (unat n)" and "p \<noteq> []" and "int (length p) < 2 ^ 31"
    and "length p + 56 < 2 * (unat n - 1)"
  shows "\<exists>ss f. write_response p [] = Inr ss \<and> http_append (concat ss) (http_reset n f0) = Inr f \<and>
    m_state f = state_recv_finish \<and> fsm_body f = Inr p"
proof -
  let ?v = "dec_nat (length p)"
  let ?lines = "[''HTTP/1.1 200'', ''Content-Length: '' @ ?v]"
  have "length p < 10 ^ 10" using assms(3) by simp
  then have len: "length ?v \<le> 10" by (rule length_dec_nat) simp
  have ne: "?v \<noteq> []" and all: "\<forall>c \<in> set ?v. \<exists>d < 10. c = digit_char d" using dec_nat_plain by blast+
  have plain: "c \<noteq> NUL \<and> c \<noteq> LF \<and> \<not> sep_char c" if "c \<in> set ?v" for c
    using all that digit_char_plain by fastforce
  have val: "dropWhile sep_char ?v = ?v" using ne plain [of "hd ?v"] by (intro sep_free_value) auto
  have ok: "lines_ok ?lines" using plain len by (auto simp: lines_ok_def line_ok_def MAX_HEADER_def)
  have "hdr_find 256 ''Content-Length'' ?lines = Some ?v"
    using val len by (simp add: key_starts_def value_of_def sep_char_def c_tolower_def in_range_def less_eq_char_def)
  then have cl: "hdr_find_int ''Content-Length'' ?lines = Some (int (length p))"
    using stoi_dec_nat [OF assms(3)] by (simp add: hdr_find_int_def)
  have w: "write_response p [] = Inr [''HTTP/1.1 200'' @ [CR, LF], ''Content-Length: '' @ ?v @ [CR, LF, CR, LF], p]"
    using len unfolding write_response_def write_header_def dec_nat_200 by (simp add: mem_fmt_def write_body_def)
  have "length (header_text ?lines @ [CR, LF] @ p) < 2 * (unat n - 1)" using assms(4) len by simp
  from receive_content_length [OF assms(1) ok cl assms(2) this, of f0] show ?thesis by (auto simp: w)
qed

theorem write_response_roundtrip_witness:
  "\<forall>f0. \<exists>ss f. write_response ''hello'' [] = Inr ss \<and> http_append (concat ss) (http_reset 512 f0) = Inr f \<and>
    m_state f = state_recv_finish \<and> fsm_body f = Inr ''hello''"
proof
  fix f0 :: http_fsm
  have a: "chunk_ok (unat (512 :: u32))" by (simp add: chunk_ok_def)
  show "\<exists>ss f. write_response ''hello'' [] = Inr ss \<and> http_append (concat ss) (http_reset 512 f0) = Inr f \<and>
    m_state f = state_recv_finish \<and> fsm_body f = Inr ''hello''"
    by (intro write_response_roundtrip [OF a]) simp_all
qed

section \<open>One accepted connection\<close>

text \<open>
  \<open>OnRead\<close>: what the user callback \<open>cb\<close> does with the writer is a list of \<open>writer_cmd\<close>, computed from
  the request (its own look-ups may be faults). The result is the operation started on the socket.
\<close>

datatype writer_cmd =
    WriteHeader int "(string \<times> string) list"
  | WriteBody string
  | WriteResponse string

datatype sock_op = SockRead | SockWrite "string list" | SockClose

fun run_writer :: "writer_cmd list \<Rightarrow> string list \<Rightarrow> mem_fault + string list" where
  "run_writer [] buffer = Inr buffer"
| "run_writer (WriteHeader code hs # cmds) buffer = bindE (write_header code hs buffer) (run_writer cmds)"
| "run_writer (WriteBody p # cmds) buffer = run_writer cmds (write_body p buffer)"
| "run_writer (WriteResponse p # cmds) buffer = bindE (write_response p buffer) (run_writer cmds)"

text \<open>\<open>while (buffer_.length > 0)\<close>: the length of the buffer is the sum over its slices.\<close>

fun feed_slices :: "string list \<Rightarrow> http_fsm \<Rightarrow> mem_fault + (http_fsm \<times> string list)" where
  "feed_slices [] f = Inr (f, [])"
| "feed_slices (s # ss) f =
     (if concat (s # ss) = [] then Inr (f, s # ss)
      else bindE (http_append s f) (\<lambda>f'. feed_slices ss f'))"

definition receiving :: "http_state \<Rightarrow> bool" where
  "receiving s \<longleftrightarrow> s \<in> {state_recv_header, state_recv_body, state_recv_body_nochunk, state_recv_bodylen,
     state_recv_footer, state_recv_comment}"

definition on_read ::
  "(http_fsm \<Rightarrow> mem_fault + writer_cmd list) \<Rightarrow> bool \<Rightarrow> string list \<Rightarrow> http_fsm \<Rightarrow> mem_fault + (http_fsm \<times> sock_op)" where
  "on_read cb err_ok buffer f =
     (if err_ok \<and> receiving (m_state f) then
        bindE (feed_slices buffer f) (\<lambda>(f', rest).
          if m_state f' = state_recv_finish then
            bindE (cb f') (\<lambda>cmds. bindE (run_writer cmds rest) (\<lambda>out. Inr (f', SockWrite out)))
          else Inr (f', SockRead))
      else Inr (f, SockClose))"

definition new_context :: "http_fsm \<Rightarrow> http_fsm" where
  "new_context f0 = http_reset 512 f0"

definition on_write :: "sock_op" where
  "on_write = SockClose"

lemma http_append_state_ne:
  "http_append a f = Inr f1 \<Longrightarrow> terminal (m_state f) \<Longrightarrow> f1 = f"
  by (cases a) (auto simp: http_append_def terminal_def)

lemma websocket_stays:
  "append_loop l s us f = Inr (g, state_websocket_establish) \<Longrightarrow> us \<noteq> [] \<Longrightarrow>
   append_loop l s (us @ vs) f = Inr (h, s') \<Longrightarrow> s' = state_websocket_establish"
proof (induction us arbitrary: s f)
  case Nil
  then show ?case by simp
next
  case (Cons c us)
  show ?case
  proof (cases "us = []")
    case True
    with Cons.prems show ?thesis
      by (cases vs) (auto simp: fault_simps terminal_def split: if_splits prod.splits)
  next
    case False
    with Cons show ?thesis by (auto simp: fault_simps split: if_splits prod.splits)
  qed
qed

lemma feed_slices_concat:
  assumes "[] \<notin> set ss" and "ss \<noteq> []" and "http_append (concat ss) f = Inr f'"
    and "\<forall>us vs. concat ss = us @ vs \<longrightarrow> us \<noteq> [] \<longrightarrow> (\<forall>g. http_append us f = Inr g \<longrightarrow> m_state g \<noteq> state_websocket_establish)"
  shows "feed_slices ss f = Inr (f', [])"
  using assms
proof (induction ss arbitrary: f)
  case Nil
  then show ?case by simp
next
  case (Cons s ss)
  have s: "s \<noteq> []" using Cons.prems by auto
  show ?case
  proof (cases "ss = []")
    case True
    with Cons.prems s show ?thesis by simp
  next
    case False
    then have c: "concat ss \<noteq> []" using Cons.prems by (cases ss) auto
    show ?thesis
    proof (cases "http_append s f")
      case (Inl e)
      then have "append_loop (m_max f - 1) (m_state f) s f = Inl e"
        by (cases "append_loop (m_max f - 1) (m_state f) s f") (auto simp: http_append_def)
      then have "append_loop (m_max f - 1) (m_state f) (s @ concat ss) f = Inl e"
        using s by (rule append_loop_fault)
      with Cons.prems show ?thesis by (simp add: http_append_def)
    next
      case (Inr g)
      have ws: "m_state g \<noteq> state_websocket_establish" using Cons.prems(4) s Inr by auto
      have step: "http_append (s @ us) f = http_append us g" if "us \<noteq> []" for us
        using http_append_append [OF s that Inr ws] .
      have "feed_slices ss g = Inr (f', [])"
      proof (rule Cons.IH)
        show "http_append (concat ss) g = Inr f'" using step [OF c] Cons.prems(3) by simp
        show "\<forall>us vs. concat ss = us @ vs \<longrightarrow> us \<noteq> [] \<longrightarrow>
            (\<forall>h. http_append us g = Inr h \<longrightarrow> m_state h \<noteq> state_websocket_establish)"
        proof (intro allI impI)
          fix us vs h
          assume "concat ss = us @ vs" "us \<noteq> []" "http_append us g = Inr h"
          with Cons.prems(4) step show "m_state h \<noteq> state_websocket_establish"
            by (metis append_assoc append_is_Nil_conv concat.simps(2))
        qed
      qed (use Cons.prems False in auto)
      with Inr s show ?thesis by simp
    qed
  qed
qed

lemma websocket_final:
  assumes "http_append (us @ vs) f = Inr f'" and "us \<noteq> []" and "http_append us f = Inr g"
    and "m_state g = state_websocket_establish"
  shows "m_state f' = state_websocket_establish"
proof -
  obtain h s' where h: "append_loop (m_max f - 1) (m_state f) (us @ vs) f = Inr (h, s')" "m_state f' = s'"
    using assms(1) by (auto simp: http_append_def fault_simps)
  obtain k where "append_loop (m_max f - 1) (m_state f) us f = Inr (k, state_websocket_establish)"
    using assms(3,4) by (auto simp: http_append_def fault_simps)
  with websocket_stays [OF _ assms(2) h(1)] h(2) show ?thesis by simp
qed

text \<open>
  Property C25. However the transport slices what it read, the context answers as soon as, and only if,
  the bytes read so far complete the request: the callback runs once, on the finished parser, and what
  it writes is sent; otherwise the context reads on.
\<close>

theorem on_read_answers:
  assumes "receiving (m_state f)" and "[] \<notin> set ss" and "ss \<noteq> []" and "http_append (concat ss) f = Inr f'"
    and "m_state f' \<noteq> state_websocket_establish"
  shows "on_read cb True ss f =
    (if m_state f' = state_recv_finish then
       bindE (cb f') (\<lambda>cmds. bindE (run_writer cmds []) (\<lambda>out. Inr (f', SockWrite out)))
     else Inr (f', SockRead))"
proof -
  have "feed_slices ss f = Inr (f', [])"
  proof (rule feed_slices_concat [OF assms(2-4)], intro allI impI)
    fix us vs g
    assume "concat ss = us @ vs" "us \<noteq> []" "http_append us f = Inr g"
    with assms(4,5) websocket_final [of us vs f f' g] show "m_state g \<noteq> state_websocket_establish" by auto
  qed
  with assms(1) show ?thesis by (simp add: on_read_def)
qed

theorem on_read_answers_witness:
  "\<forall>cb f0. \<exists>f. on_read cb True [''G'', ''E''] (http_reset 512 f0) = Inr (f, SockRead)"
proof (intro allI)
  fix cb :: "http_fsm \<Rightarrow> mem_fault + writer_cmd list" and f0 :: http_fsm
  let ?f = "http_reset 512 f0"
  have "room (unat (512 :: u32)) ?f [] (length ''GE'')"
    by (auto simp: room_def http_reset_def cap_ok_def holds0_def blk_malloc_def chunk_ok_def)
  from takes_plain [OF _ _ this, of state_recv_header]
  obtain b where "takes ?f state_recv_header ''GE'' (?f\<lparr>m_p := b, m_len := length ([] @ ''GE'')\<rparr>) state_recv_header"
    by (auto simp: line_state_def)
  then have a: "http_append (concat [''G'', ''E'']) ?f = Inr (?f\<lparr>m_p := b, m_len := length ([] @ ''GE''), m_state := state_recv_header\<rparr>)"
    by (simp, intro takes_append) simp_all
  have r: "receiving (m_state ?f)" by (simp add: receiving_def)
  show "\<exists>f. on_read cb True [''G'', ''E''] ?f = Inr (f, SockRead)"
    using on_read_answers [OF r _ _ a, of cb] by simp
qed

text \<open>
  After a request it could not parse the context reads on instead of closing: the connection is
  closed only once the client sends more (or hangs up).
\<close>

theorem parse_error_reads_on:
  assumes "receiving (m_state f)" and "s \<noteq> []" and "http_append s f = Inr f'" and "m_state f' = state_error"
  shows "on_read cb True [s] f = Inr (f', SockRead) \<and> on_read cb ok more_slices f' = Inr (f', SockClose)"
  using assms by (simp add: on_read_def receiving_def)

theorem parse_error_reads_on_witness:
  "\<exists>f f'. m_state f' = state_error \<and> on_read (\<lambda>_. Inr []) True [''x''] f = Inr (f', SockRead) \<and>
    on_read (\<lambda>_. Inr []) True [''y''] f' = Inr (f', SockClose)"
proof -
  let ?f = "(http_reset 512 undefined)\<lparr>m_state := state_recv_body_nochunk, m_bd := Some 0, m_bl := 0\<rparr>"
  have r: "receiving (m_state ?f)" by (simp add: receiving_def)
  have e: "\<exists>f'. http_append ''x'' ?f = Inr f' \<and> m_state f' = state_error"
    by (simp add: http_append_def terminal_def expand_def put_char_def http_reset_def blk_malloc_def wr_def
        dispatch_def recv_body_nochunk_def body_diff_def)
  then obtain f' where "http_append ''x'' ?f = Inr f'" "m_state f' = state_error" by blast
  with parse_error_reads_on [OF r _ this, of "\<lambda>_. Inr []" True "[''y'']"] show ?thesis by blast
qed

section \<open>The router\<close>

text \<open>\<open>route_\<close>, a map from path patterns to handlers; \<open>buff\<close> has 256 bytes.\<close>

type_synonym 'h router = "(string \<times> 'h) list"

definition route_add :: "string \<Rightarrow> 'h \<Rightarrow> 'h router \<Rightarrow> 'h router" where
  "route_add pat h r = AList.update pat h r"

text \<open>
  \<open>operator ()\<close>: every entry is compared with the path; comparing a \<open>std::string\<close> with the null pointer
  that \<open>url\<close> returns reads through it.
\<close>

fun route_match :: "string option \<Rightarrow> 'h router \<Rightarrow> mem_fault + 'h list" where
  "route_match path [] = Inr []"
| "route_match None (e # r) = Inl NullDereference"
| "route_match (Some p) ((pat, h) # r) =
     bindE (route_match (Some p) r) (\<lambda>hs. Inr (if pat = p then h # hs else hs))"

definition route_call :: "'h router \<Rightarrow> http_fsm \<Rightarrow> mem_fault + 'h list" where
  "route_call r f = bindE (url f 256) (\<lambda>path. route_match path r)"

definition routes_of :: "(string \<times> 'h) list \<Rightarrow> 'h router" where
  "routes_of es = foldl (\<lambda>r (pat, h). route_add pat h r) [] es"

lemma distinct_routes: "distinct (map fst (foldl (\<lambda>r (pat, h). route_add pat h r) r0 es))"
  if "distinct (map fst r0)"
  using that by (induction es arbitrary: r0) (auto simp: route_add_def distinct_update)

lemma map_of_routes: "map_of (foldl (\<lambda>r (pat, h). route_add pat h r) r0 es) = map_of r0 ++ map_of (rev es)"
  by (induction es arbitrary: r0) (auto simp: route_add_def update_conv map_add_def fun_eq_iff split: option.splits)

lemma route_match_distinct:
  "distinct (map fst r) \<Longrightarrow>
   route_match (Some p) r = Inr (case map_of r p of None \<Rightarrow> [] | Some h \<Rightarrow> [h])"
proof (induction r)
  case Nil
  then show ?case by simp
next
  case (Cons e r)
  obtain pat h where e: "e = (pat, h)" by force
  have "pat = p \<Longrightarrow> map_of r p = None"
    using Cons.prems e by (auto simp: map_of_eq_None_iff)
  with Cons e show ?case by auto
qed

text \<open>
  The handler called for a request is the one registered last for exactly its path, and no other;
  a path not registered calls none.
\<close>

theorem route_last_registered:
  assumes "url f 256 = Inr (Some path)"
  shows "route_call (routes_of es) f = Inr (case map_of (rev es) path of None \<Rightarrow> [] | Some h \<Rightarrow> [h])"
  using assms route_match_distinct [of "routes_of es" path] distinct_routes [of "[]" es]
  by (simp add: route_call_def routes_of_def map_of_routes)

theorem route_last_registered_witness:
  "\<exists>f. route_call (routes_of [(''a'', 1 :: nat), (''index'', 2), (''index'', 3)]) f = Inr [3]"
proof -
  let ?line = "request_line ''GET'' ''index'' ''HTTP/1.1''"
  have a: "chunk_ok (unat (512 :: u32))" by (simp add: chunk_ok_def)
  have b: "lines_ok [?line]" by (simp add: lines_ok_def line_ok_def MAX_HEADER_def request_line_def)
  have c: "length (header_text [?line]) + 2 < 2 * (unat (512 :: u32) - 1)" by (simp add: request_line_def)
  obtain f where "lines_in f (blanked [?line] @ [NUL, NUL]) [?line]"
    by (rule takes_header [OF a b c]) (erule that)
  from url_of_lines_in [OF this, of 256] have "url f 256 = Inr (Some ''index'')" by simp
  from route_last_registered [OF this, of "[(''a'', 1 :: nat), (''index'', 2), (''index'', 3)]"]
  show ?thesis by auto
qed

end
