(* ===== verification/Http_Web.thy ===== *)
theory Http_Web
  imports Http_Server
begin

text \<open>
  The rest of the HTTP part: the listener table and life cycle of \<open>HttpServer\<close>, the wrapper of the
  HTTP client of gRPC (\<open>RequestContext\<close>, \<open>HttpClient\<close>), and the functions of \<open>mtk.cpp\<close> that start and
  stop both. Name resolution, ports and requests belong to gRPC and are parameters.
\<close>

section \<open>The listener table\<close>

text \<open>
  \<open>listeners_\<close> is an array of \<open>n_listeners_capacity_\<close> entries, the first \<open>n_listeners_\<close> of which are set;
  \<open>None\<close> is an entry that only the default constructor has touched.
\<close>

record 'cb http_server =
  sv_alive :: bool
  listeners :: "(nat \<times> 'cb) option list"
  n_listeners :: nat
  n_listeners_capacity :: nat
  n_pollsets :: nat

definition new_http_server :: "'cb http_server" where
  "new_http_server =
     \<lparr>sv_alive = True, listeners = replicate 4 None, n_listeners = 0, n_listeners_capacity = 4, n_pollsets = 0\<rparr>"

definition srv_init :: "'cb http_server \<Rightarrow> 'cb http_server" where
  "srv_init s = s\<lparr>n_pollsets := n_pollsets s + 1\<rparr>"

definition srv_fin :: "'cb http_server \<Rightarrow> 'cb http_server" where
  "srv_fin s = s\<lparr>sv_alive := False\<rparr>"

definition grow_listeners :: "'cb http_server \<Rightarrow> 'cb http_server" where
  "grow_listeners s =
     (if n_listeners s = n_listeners_capacity s then
        s\<lparr>n_listeners_capacity := n_listeners_capacity s * 2,
          listeners := take (n_listeners s) (listeners s) @ replicate (n_listeners_capacity s * 2 - n_listeners s) None\<rparr>
      else s)"

definition add_handler :: "'cb http_server \<Rightarrow> nat \<times> 'cb \<Rightarrow> mem_fault + 'cb http_server" where
  "add_handler s e =
     (let s1 = grow_listeners s in
      if n_listeners s1 < length (listeners s1) then
        Inr (s1\<lparr>listeners := (listeners s1)[n_listeners s1 := Some e], n_listeners := n_listeners s1 + 1\<rparr>)
      else Inl OutOfBounds)"

text \<open>\<open>listeners_[acceptor->port_index].callback\<close>.\<close>

definition on_accept :: "'cb http_server \<Rightarrow> nat \<Rightarrow> mem_fault + 'cb" where
  "on_accept s port_index =
     (if port_index < length (listeners s) then
        (case listeners s ! port_index of None \<Rightarrow> Inl Uninitialised | Some (port, cb) \<Rightarrow> Inr cb)
      else Inl OutOfBounds)"

definition table_ok :: "'cb http_server \<Rightarrow> bool" where
  "table_ok s \<longleftrightarrow> 0 < n_listeners_capacity s \<and> length (listeners s) = n_listeners_capacity s \<and>
     n_listeners s \<le> n_listeners_capacity s \<and> (\<forall>i < n_listeners s. listeners s ! i \<noteq> None)"

definition entries :: "'cb http_server \<Rightarrow> (nat \<times> 'cb) list" where
  "entries s = map the (take (n_listeners s) (listeners s))"

lemma new_server_table: "table_ok new_http_server" "entries new_http_server = []"
  by (simp_all add: table_ok_def entries_def new_http_server_def)

lemma grow_table:
  assumes "table_ok s"
  shows "table_ok (grow_listeners s)" "n_listeners (grow_listeners s) < n_listeners_capacity (grow_listeners s)"
    "take (n_listeners s) (listeners (grow_listeners s)) = take (n_listeners s) (listeners s)"
    "n_listeners (grow_listeners s) = n_listeners s"
  using assms by (auto simp: grow_listeners_def table_ok_def nth_append)

lemma add_handler_step:
  assumes "table_ok s"
  obtains s' where "add_handler s e = Inr s'" and "table_ok s'" and "entries s' = entries s @ [e]"
proof -
  let ?s1 = "grow_listeners s"
  let ?s' = "?s1\<lparr>listeners := (listeners ?s1)[n_listeners ?s1 := Some e], n_listeners := n_listeners ?s1 + 1\<rparr>"
  have ok: "table_ok ?s1" and lt: "n_listeners ?s1 < length (listeners ?s1)" and n: "n_listeners ?s1 = n_listeners s"
    using grow_table [OF assms] by (auto simp: table_ok_def)
  show ?thesis
  proof (rule that [of ?s'])
    show "add_handler s e = Inr ?s'" using lt by (simp add: add_handler_def Let_def)
    show "table_ok ?s'" using ok lt by (auto simp: table_ok_def nth_list_update less_Suc_eq)
    show "entries ?s' = entries s @ [e]"
      using lt grow_table(3) [OF assms] by (simp add: entries_def n take_Suc_conv_app_nth)
  qed
qed

interpretation table: safe_machine add_handler table_ok
proof unfold_locales
  fix s :: "'cb http_server" and e s'
  assume "table_ok s" and "add_handler s e = Inr s'"
  then show "table_ok s'" by (metis add_handler_step sum.inject(2))
next
  fix s :: "'cb http_server" and e
  assume "table_ok s"
  then show "\<exists>s'. add_handler s e = Inr s'" by (metis add_handler_step)
qed

lemma add_handlers:
  "table_ok s \<Longrightarrow> run_steps add_handler s es = Inr s' \<Longrightarrow> entries s' = entries s @ es"
proof (induction es arbitrary: s)
  case Nil
  then show ?case by simp
next
  case (Cons e es)
  obtain t where t: "add_handler s e = Inr t" "table_ok t" "entries t = entries s @ [e]"
    using add_handler_step [OF Cons.prems(1)] by blast
  with Cons.prems Cons.IH [of t] show ?case by (simp add: t(1))
qed

text \<open>
  Any number of listeners can be added, the table growing as needed without a write outside
  it, and a connection accepted on the port of the \<open>i\<close>-th listener gets the callback of that listener.
\<close>

theorem listeners_kept:
  "\<exists>s. run_steps add_handler new_http_server es = Inr s \<and> (\<forall>i < length es. on_accept s i = Inr (snd (es ! i)))"
proof -
  obtain s where s: "run_steps add_handler new_http_server es = Inr s" "table_ok s"
    using table.run_safe [OF new_server_table(1), of es] by blast
  have e: "entries s = es" using add_handlers [OF new_server_table(1) s(1)] by (simp add: new_server_table(2))
  have "on_accept s i = Inr (snd (es ! i))" if i: "i < length es" for i
  proof -
    have n: "n_listeners s = length es" using e s(2) by (auto simp: entries_def table_ok_def)
    then have "entries s ! i = the (listeners s ! i)" using i s(2) by (simp add: entries_def table_ok_def)
    then have "es ! i = the (listeners s ! i)" by (simp add: e)
    moreover have "listeners s ! i \<noteq> None" "i < length (listeners s)" using s(2) n i by (auto simp: table_ok_def)
    ultimately show ?thesis by (auto simp: on_accept_def split: option.splits)
  qed
  with s(1) show ?thesis by blast
qed

theorem listeners_kept_witness:
  "\<exists>s. run_steps add_handler new_http_server [(80, ''a''), (81, ''b'')] = Inr s \<and> on_accept s 1 = Inr ''b''"
proof -
  obtain s where "run_steps add_handler new_http_server [(80, ''a''), (81, ''b'')] = Inr s"
    and "\<forall>i < length [(80 :: nat, ''a''), (81, ''b'')]. on_accept s i = Inr (snd ([(80 :: nat, ''a''), (81, ''b'')] ! i))"
    using listeners_kept [of "[(80, ''a''), (81, ''b'')]"] by blast
  then show ?thesis by (auto dest: spec [of _ 1])
qed

section \<open>Listening\<close>

text \<open>
  \<open>resolve port\<close> is the result of the name look-up (\<open>None\<close> when it fails), \<open>add_port a\<close> the port the TCP
  server bound for an address (\<open>None\<close> when it could not).
\<close>

fun bind_all :: "('a \<Rightarrow> nat option) \<Rightarrow> nat \<Rightarrow> 'a list \<Rightarrow> bool" where
  "bind_all add_port port [] = True"
| "bind_all add_port port (a # as) =
     (case add_port a of None \<Rightarrow> False | Some tmp \<Rightarrow> if port \<noteq> tmp then False else bind_all add_port port as)"

definition do_listen :: "(nat \<Rightarrow> 'a list option) \<Rightarrow> ('a \<Rightarrow> nat option) \<Rightarrow> nat \<Rightarrow> bool" where
  "do_listen resolve add_port port =
     (case resolve port of None \<Rightarrow> False | Some addrs \<Rightarrow> bind_all add_port port addrs)"

text \<open>
  \<open>Run\<close> either gives up before serving, or serves while \<open>alive_\<close> is set, or finds it already cleared.
\<close>

datatype run_outcome = RunFailed | RunServes | RunReturnsAtOnce

definition srv_run :: "bool \<Rightarrow> (nat \<Rightarrow> 'a list option) \<Rightarrow> ('a \<Rightarrow> nat option) \<Rightarrow> 'cb http_server \<Rightarrow> run_outcome" where
  "srv_run created resolve add_port s =
     (if \<not> created then RunFailed
      else if \<exists>e \<in> set (entries s). \<not> do_listen resolve add_port (fst e) then RunFailed
      else if sv_alive s then RunServes else RunReturnsAtOnce)"

section \<open>The HTTP client\<close>

text \<open>
  \<open>uri_ok scheme host path\<close> says whether \<open>grpc_core::URI::Create\<close> accepts, \<open>transport req\<close> what the request
  ends with: an error or a response (status, headers, body).
\<close>

datatype http_method = HttpGet | HttpPost

record http_call =
  call_method :: http_method
  call_scheme :: string
  call_host :: string
  call_path :: string
  call_hdrs :: "(string \<times> string) list"
  call_body :: "string option"
  call_timeout :: u32

type_synonym http_reply = "int \<times> (string \<times> string) list \<times> string option"

definition request_init ::
  "(string \<Rightarrow> string \<Rightarrow> string \<Rightarrow> bool) \<Rightarrow> string \<Rightarrow> string \<Rightarrow> (string \<times> string) list \<Rightarrow> string option \<Rightarrow> bool \<Rightarrow> u32 \<Rightarrow> http_call option" where
  "request_init uri_ok host path headers body ssl timeout_msec =
     (let scheme = (if ssl then ''https'' else ''http'') in
      if \<not> uri_ok scheme host path then None
      else Some \<lparr>call_method = (if body \<noteq> None then HttpPost else HttpGet), call_scheme = scheme, call_host = host,
                 call_path = path, call_hdrs = headers, call_body = body, call_timeout = timeout_msec\<rparr>)"

definition tranpoline :: "'e + http_reply \<Rightarrow> http_reply" where
  "tranpoline r = (case r of Inl e \<Rightarrow> (hrc_value HRC_ERROR, [], None) | Inr resp \<Rightarrow> resp)"

text \<open>The calls of the callback that a request causes, in order.\<close>

definition http_request_calls :: "(http_call \<Rightarrow> 'e + http_reply) \<Rightarrow> http_call option \<Rightarrow> http_reply list" where
  "http_request_calls transport c = (case c of None \<Rightarrow> [] | Some c \<Rightarrow> [tranpoline (transport c)])"

definition httpcli_get where
  "httpcli_get uri_ok transport host path headers ssl timeout_msec =
     http_request_calls transport (request_init uri_ok host path headers None ssl timeout_msec)"

definition httpcli_post where
  "httpcli_post uri_ok transport host path headers body ssl timeout_msec =
     http_request_calls transport (request_init uri_ok host path headers body ssl timeout_msec)"

text \<open>
  A request whose URI is accepted calls back exactly once, with the response or with
  \<open>HRC_ERROR\<close>; one whose URI is refused never calls back.
\<close>

theorem request_calls_back_once:
  "httpcli_post uri_ok transport host path headers body ssl t =
    (if uri_ok (if ssl then ''https'' else ''http'') host path then
       [case transport \<lparr>call_method = (case body of None \<Rightarrow> HttpGet | Some _ \<Rightarrow> HttpPost),
            call_scheme = (if ssl then ''https'' else ''http''), call_host = host, call_path = path, call_hdrs = headers,
            call_body = body, call_timeout = t\<rparr> of Inl _ \<Rightarrow> (-1, [], None) | Inr resp \<Rightarrow> resp]
     else [])"
  by (cases body) (auto simp: httpcli_post_def http_request_calls_def request_init_def tranpoline_def Let_def split: sum.splits)

section \<open>Starting and stopping\<close>

text \<open>
  The globals: \<open>s_num_websv_port\<close>, whether \<open>s_websv_thread\<close> is joinable, the server instance, \<open>g_http_alive\<close>,
  whether \<open>g_pollset\<close> is set, and the count of \<open>grpc_init\<close> less \<open>grpc_shutdown\<close>. Assigning to a joinable
  \<open>std::thread\<close> terminates the process.
\<close>

datatype web_fault = ThreadTerminate | TableFault mem_fault

record 'cb web =
  num_websv_port :: nat
  websv_joinable :: bool
  sv_instance :: "'cb http_server option"
  http_alive :: bool
  has_pollset :: bool
  grpc_refs :: int

definition web_initial :: "'cb web" where
  "web_initial = \<lparr>num_websv_port = 0, websv_joinable = False, sv_instance = None, http_alive = False,
     has_pollset = False, grpc_refs = 0\<rparr>"

definition web_instance :: "'cb web \<Rightarrow> 'cb http_server" where
  "web_instance w = (case sv_instance w of None \<Rightarrow> new_http_server | Some s \<Rightarrow> s)"

definition httpsrv_listen :: "nat \<Rightarrow> 'cb \<Rightarrow> 'cb web \<Rightarrow> web_fault + 'cb web" where
  "httpsrv_listen port cb w =
     (let s = web_instance w;
          (s1, refs) = (if num_websv_port w = 0 then (srv_init s, grpc_refs w + 1) else (s, grpc_refs w)) in
      (case add_handler s1 (port, cb) of
         Inl e \<Rightarrow> Inl (TableFault e)
       | Inr s2 \<Rightarrow> Inr (w\<lparr>sv_instance := Some s2, grpc_refs := refs, num_websv_port := num_websv_port w + 1\<rparr>)))"

definition httpcli_start :: "'cb web \<Rightarrow> 'cb web" where
  "httpcli_start w = (if http_alive w then w
     else w\<lparr>grpc_refs := grpc_refs w + 1, has_pollset := True, http_alive := True\<rparr>)"

definition httpcli_stop :: "'cb web \<Rightarrow> 'cb web" where
  "httpcli_stop w = (if \<not> http_alive w then w
     else w\<lparr>http_alive := False, has_pollset := False, grpc_refs := grpc_refs w - 1\<rparr>)"

definition http_start :: "'cb web \<Rightarrow> web_fault + 'cb web" where
  "http_start w =
     (let w1 = httpcli_start w in
      if num_websv_port w1 > 0 then
        (if websv_joinable w1 then Inl ThreadTerminate
         else Inr (w1\<lparr>websv_joinable := True, sv_instance := Some (web_instance w1)\<rparr>))
      else Inr w1)"

definition http_stop :: "'cb web \<Rightarrow> 'cb web" where
  "http_stop w =
     (let w1 = httpcli_stop w in
      if websv_joinable w1 then
        w1\<lparr>sv_instance := Some (srv_fin (web_instance w1)), grpc_refs := grpc_refs w1 - 1, websv_joinable := False\<rparr>
      else w1)"

definition http_enabled :: "'cb web \<Rightarrow> bool" where
  "http_enabled w = http_alive w"

text \<open>
  From a stopped state, starting enables the HTTP part and stopping gives a stopped state
  again, with no thread left to join.
\<close>

theorem http_start_stop:
  assumes "\<not> http_enabled w" and "\<not> websv_joinable w"
  shows "\<exists>w1. http_start w = Inr w1 \<and> http_enabled w1 \<and> \<not> http_enabled (http_stop w1) \<and>
    \<not> websv_joinable (http_stop w1) \<and> has_pollset w1 \<and> \<not> has_pollset (http_stop w1)"
  using assms by (auto simp: http_start_def http_stop_def httpcli_start_def httpcli_stop_def http_enabled_def Let_def)

theorem http_start_stop_witness:
  "\<exists>w1. http_start (web_initial :: nat web) = Inr w1 \<and> http_enabled w1 \<and> \<not> http_enabled (http_stop w1) \<and>
    \<not> websv_joinable (http_stop w1) \<and> has_pollset w1 \<and> \<not> has_pollset (http_stop w1)"
  by (rule http_start_stop) (simp_all add: web_initial_def http_enabled_def)

text \<open>
  A server started again after a stop does not serve: its thread finds \<open>alive_\<close> cleared and
  returns at once, whatever the ports do.
\<close>

theorem restarted_server_does_not_serve:
  assumes "http_start w = Inr w1" and "0 < num_websv_port w" and "http_start (http_stop w1) = Inr w2"
  shows "srv_run created resolve add_port (web_instance w2) \<noteq> RunServes"
proof -
  have "websv_joinable w1 \<and> num_websv_port w1 = num_websv_port w"
    using assms(1,2) by (auto simp: http_start_def httpcli_start_def Let_def split: if_splits)
  then have "\<not> sv_alive (web_instance w2)"
    using assms(2,3)
    by (auto simp: http_start_def http_stop_def httpcli_start_def httpcli_stop_def web_instance_def srv_fin_def Let_def
        split: if_splits)
  then show ?thesis by (auto simp: srv_run_def)
qed

text \<open>
  Starting twice with a listener assigns to a joinable thread, which terminates the process.
\<close>

theorem start_twice_terminates:
  assumes "0 < num_websv_port w" and "http_start w = Inr w1"
  shows "http_start w1 = Inl ThreadTerminate"
  using assms by (auto simp: http_start_def httpcli_start_def Let_def split: if_splits)

definition one_listener :: "nat web" where
  "one_listener = (case httpsrv_listen 80 7 web_initial of Inl _ \<Rightarrow> web_initial | Inr w \<Rightarrow> w)"

lemma one_listener_ports: "num_websv_port one_listener = 1" "websv_joinable one_listener = False"
  by (simp_all add: one_listener_def httpsrv_listen_def web_initial_def web_instance_def new_http_server_def
      srv_init_def add_handler_def grow_listeners_def numeral_eq_Suc)

lemma http_start_stopped:
  assumes "\<not> websv_joinable w"
  obtains w1 where "http_start w = Inr w1" and "num_websv_port w1 = num_websv_port w"
proof (rule that)
  let ?w = "httpcli_start w"
  show "http_start w = Inr (if num_websv_port ?w > 0 then ?w\<lparr>websv_joinable := True, sv_instance := Some (web_instance ?w)\<rparr> else ?w)"
    using assms by (simp add: http_start_def httpcli_start_def Let_def)
qed (simp add: httpcli_start_def)

lemma http_stop_joined: "\<not> websv_joinable (http_stop w)"
  by (simp add: http_stop_def httpcli_stop_def Let_def)

theorem restarted_server_does_not_serve_witness:
  "\<exists>w1 w2. http_start one_listener = Inr w1 \<and> http_start (http_stop w1) = Inr w2 \<and>
    srv_run True (\<lambda>p. Some [p]) Some (web_instance w2) \<noteq> RunServes"
proof -
  obtain w1 where w1: "http_start one_listener = Inr w1"
    using http_start_stopped one_listener_ports(2) by blast
  obtain w2 where w2: "http_start (http_stop w1) = Inr w2"
    using http_start_stopped http_stop_joined by blast
  from restarted_server_does_not_serve [OF w1(1) _ w2] w1 w2 one_listener_ports show ?thesis by auto
qed

theorem start_twice_terminates_witness:
  "\<exists>w1. http_start one_listener = Inr w1 \<and> http_start w1 = Inl ThreadTerminate"
proof -
  obtain w1 where w1: "http_start one_listener = Inr w1"
    using http_start_stopped one_listener_ports(2) by blast
  from start_twice_terminates [OF _ this] one_listener_ports w1 show ?thesis by auto
qed

end
