(* ===== verification/Clock.thy ===== *)
theory Clock
  imports Prelude
begin

text \<open>
  Time: the conversions of \<open>timespec.h\<close> and \<open>mtk.h\<close>, and the sleeping loop of \<open>timespec.cpp\<close>. A
  \<open>struct timespec\<close> is the pair of its seconds and nanoseconds; what \<open>nanosleep\<close> answers, call after call,
  is a list of \<open>sleep_result\<close>.
\<close>

section \<open>Conversions\<close>

definition sec :: "u64 \<Rightarrow> u64" where "sec n = n * 1000 * 1000 * 1000"

definition msec :: "u64 \<Rightarrow> u64" where "msec n = n * 1000 * 1000"

definition usec :: "u64 \<Rightarrow> u64" where "usec n = n * 1000"

definition nsec :: "u64 \<Rightarrow> u64" where "nsec n = n"

definition mtk_sec :: "u64 \<Rightarrow> u64" where "mtk_sec n = n * 1000 * 1000 * 1000"

definition mtk_msec :: "u64 \<Rightarrow> u64" where "mtk_msec n = n * 1000 * 1000"

definition mtk_usec :: "u64 \<Rightarrow> u64" where "mtk_usec n = n * 1000"

definition mtk_nsec :: "u64 \<Rightarrow> u64" where "mtk_nsec n = n"

type_synonym tspec = "u64 \<times> u64"

definition to_timespec :: "tspec \<Rightarrow> u64" where
  "to_timespec ts = fst ts * 1000 * 1000 * 1000 + snd ts"

definition of_duration :: "u64 \<Rightarrow> tspec" where
  "of_duration dur = (dur div (1000 * 1000 * 1000), dur mod (1000 * 1000 * 1000))"

section \<open>Sleeping\<close>

text \<open>
  \<open>SleepIntr left\<close> is the result -1 with \<open>EINTR\<close>, the time left written to \<open>*prs\<close>; \<open>SleepFail\<close> any other
  failure, which writes nothing.
\<close>

datatype sleep_result = SleepDone | SleepIntr tspec | SleepFail

datatype clock_fault = ReadUninitialised

text \<open>
  \<open>pts\<close> and \<open>prs\<close> hold what the two pointers point to; they are swapped after an interrupt, before
  \<open>ignore_intr\<close> is tested. The result is \<open>None\<close> as long as \<open>nanosleep\<close> has not answered.
\<close>

fun rawsleep_loop :: "bool \<Rightarrow> tspec \<Rightarrow> tspec option \<Rightarrow> sleep_result list \<Rightarrow> (clock_fault + u64) option" where
  "rawsleep_loop ignore_intr pts prs [] = None"
| "rawsleep_loop ignore_intr pts prs (SleepDone # rest) = Some (Inr 0)"
| "rawsleep_loop ignore_intr pts prs (SleepIntr left # rest) =
     (if \<not> ignore_intr then rawsleep_loop ignore_intr left (Some pts) rest
      else Some (Inr (to_timespec pts)))"
| "rawsleep_loop ignore_intr pts prs (SleepFail # rest) =
     Some (case prs of None \<Rightarrow> Inl ReadUninitialised | Some ts \<Rightarrow> Inr (to_timespec ts))"

definition rawsleep :: "u64 \<Rightarrow> bool \<Rightarrow> sleep_result list \<Rightarrow> (clock_fault + u64) option" where
  "rawsleep dur ignore_intr rs = rawsleep_loop ignore_intr (of_duration dur) None rs"

definition clock_sleep :: "u64 \<Rightarrow> sleep_result list \<Rightarrow> (clock_fault + u64) option" where
  "clock_sleep dur rs = rawsleep dur True rs"

definition clock_pause :: "u64 \<Rightarrow> sleep_result list \<Rightarrow> (clock_fault + u64) option" where
  "clock_pause dur rs = rawsleep dur False rs"

definition clock_now :: "tspec \<Rightarrow> u64" where
  "clock_now ts = to_timespec ts"

text \<open>Splitting a duration into seconds and nanoseconds loses nothing, at any 64-bit value.\<close>

lemma to_timespec_of_duration: "to_timespec (of_duration d) = d"
proof -
  have "to_timespec (of_duration d) = d div 1000000000 * 1000000000 + d mod 1000000000"
    by (simp add: to_timespec_def of_duration_def mult.assoc)
  then show ?thesis by (simp only: div_mult_mod_eq)
qed

lemma pause_interrupts:
  "rawsleep_loop False pts prs (map SleepIntr lefts @ rs) =
   rawsleep_loop False (last (pts # lefts)) (if lefts = [] then prs else Some (last (pts # butlast lefts))) rs"
proof (induction lefts arbitrary: pts prs)
  case Nil
  then show ?case by simp
next
  case (Cons l lefts)
  then show ?case by (cases lefts) auto
qed

text \<open>
  \<open>pause\<close> goes on over any number of interrupts and returns 0 when the sleep is done;
  \<open>sleep\<close> returns at the first interrupt, with the whole duration it was asked for as the time left.
\<close>

theorem sleep_and_pause_on_interrupts:
  "clock_pause d (map SleepIntr lefts @ [SleepDone]) = Some (Inr 0) \<and>
   clock_sleep d (SleepIntr left # rs) = Some (Inr d)"
  by (simp add: clock_pause_def clock_sleep_def rawsleep_def pause_interrupts to_timespec_of_duration)

text \<open>
  A first call of \<open>nanosleep\<close> that fails for another reason than a signal makes both functions
  return a time that was never written.
\<close>

theorem failed_sleep_reads_uninitialised:
  "clock_sleep d (SleepFail # rs) = Some (Inl ReadUninitialised) \<and>
   clock_pause d (SleepFail # rs) = Some (Inl ReadUninitialised)"
  by (simp add: clock_pause_def clock_sleep_def rawsleep_def)

end
