(* ===== verification/Logger.thy ===== *)
theory Logger
  imports Prelude Clock
begin

text \<open>
  The logger of \<open>logger.h\<close> and \<open>logger.cpp\<close> in its default build: records are passed to a writer in
  chunks, the last of a record marked. \<open>fmt::format\<close> of the body is a parameter.
\<close>

datatype level = trace | debug | info | warn | error | fatal | report | max_level

fun level_num :: "level \<Rightarrow> nat" where
  "level_num trace = 0"
| "level_num debug = 1"
| "level_num info = 2"
| "level_num warn = 3"
| "level_num error = 4"
| "level_num fatal = 5"
| "level_num report = 6"
| "level_num max_level = 7"

instantiation level :: linorder
begin

definition less_eq_level :: "level \<Rightarrow> level \<Rightarrow> bool" where
  "less_eq_level a b \<longleftrightarrow> level_num a \<le> level_num b"

definition less_level :: "level \<Rightarrow> level \<Rightarrow> bool" where
  "less_level a b \<longleftrightarrow> level_num a < level_num b"

instance
proof
  fix a b c :: level
  show "(a < b) = (a \<le> b \<and> \<not> b \<le> a)" by (auto simp: less_eq_level_def less_level_def)
  show "a \<le> a" by (simp add: less_eq_level_def)
  show "a \<le> b \<Longrightarrow> b \<le> c \<Longrightarrow> a \<le> c" by (simp add: less_eq_level_def)
  show "a \<le> b \<Longrightarrow> b \<le> a \<Longrightarrow> a = b" by (cases a; cases b) (simp_all add: less_eq_level_def)
  show "a \<le> b \<or> b \<le> a" by (auto simp: less_eq_level_def)
qed

end

text \<open>\<open>log_level_\<close> has one entry per level below \<open>max\<close>.\<close>

definition log_level_names :: "string list" where
  "log_level_names = [''trace'', ''debug'', ''info'', ''warn'', ''error'', ''fatal'', ''report'']"

definition level_name :: "level \<Rightarrow> string option" where
  "level_name lv = (if level_num lv < length log_level_names then Some (log_level_names ! level_num lv) else None)"

text \<open>\<open>WriterCb k\<close> is a callback of the host; \<open>log_out\<close> the calls of writers, in order.\<close>

datatype log_writer = DefaultWriter | WriterCb nat

record logger =
  log_writer :: log_writer
  log_name :: string
  log_out :: "(log_writer \<times> string \<times> bool) list"

definition logger_initial :: logger where
  "logger_initial = \<lparr>log_writer = DefaultWriter, log_name = ''mtk'', log_out = []\<rparr>"

definition configure :: "nat option \<Rightarrow> string \<Rightarrow> logger \<Rightarrow> logger" where
  "configure cb name l =
     (let l1 = (case cb of Some k \<Rightarrow> l\<lparr>log_writer := WriterCb k\<rparr> | None \<Rightarrow> l) in
      if length name > 0 then l1\<lparr>log_name := name\<rparr> else l1)"

definition call_writer :: "string \<Rightarrow> bool \<Rightarrow> logger \<Rightarrow> logger" where
  "call_writer s last_chunk l = l\<lparr>log_out := log_out l @ [(log_writer l, s, last_chunk)]\<rparr>"

definition write2 :: "string \<Rightarrow> string \<Rightarrow> logger \<Rightarrow> logger" where
  "write2 body footer l = call_writer footer True (call_writer body False l)"

definition write1 :: "string \<Rightarrow> logger \<Rightarrow> logger" where
  "write1 body l = call_writer body True l"

text \<open>\<open>show_int\<close> prints a \<open>long\<close>; reading \<open>log_level_\<close> at \<open>max\<close> is outside the array.\<close>

definition footer_text :: "(int \<Rightarrow> string) \<Rightarrow> string \<Rightarrow> int \<Rightarrow> int \<Rightarrow> string \<Rightarrow> string" where
  "footer_text show_int name s ns lv =
     '',sv_:'' @ name @ '',ts_:'' @ show_int s @ ''.'' @ show_int ns @ '',lv_:'' @ lv @ [CHR 0x0A]"

datatype log_fault = LevelOutOfRange

definition log_from :: "level \<Rightarrow> (int \<Rightarrow> string) \<Rightarrow> int \<times> int \<Rightarrow> level \<Rightarrow> string \<Rightarrow> logger \<Rightarrow> log_fault + logger" where
  "log_from plain show_int now lv body l =
     (if lv \<le> plain then Inr (write1 (body @ [CHR 0x0A]) l)
      else (case level_name lv of
              None \<Rightarrow> Inl LevelOutOfRange
            | Some nm \<Rightarrow> Inr (write2 body (footer_text show_int (log_name l) (fst now) (snd now) nm) l)))"

definition logger_log :: "(int \<Rightarrow> string) \<Rightarrow> int \<times> int \<Rightarrow> level \<Rightarrow> string \<Rightarrow> logger \<Rightarrow> log_fault + logger" where
  "logger_log show_int now lv body l = log_from trace show_int now lv body l"

definition log_no_arg :: "(int \<Rightarrow> string) \<Rightarrow> int \<times> int \<Rightarrow> level \<Rightarrow> string \<Rightarrow> logger \<Rightarrow> log_fault + logger" where
  "log_no_arg show_int now lv body l = log_from debug show_int now lv body l"

text \<open>\<open>mtk_log\<close>: \<open>vsnprintf\<close> keeps the first \<open>len\<close> characters of the formatted text.\<close>

definition mtk_log :: "(int \<Rightarrow> string) \<Rightarrow> int \<times> int \<Rightarrow> level \<Rightarrow> nat \<Rightarrow> string \<Rightarrow> logger \<Rightarrow> log_fault + logger" where
  "mtk_log show_int now lv len text l = log_no_arg show_int now lv (take len text) l"

text \<open>The records written: chunks up to the next marked one.\<close>

fun log_records :: "string \<Rightarrow> (log_writer \<times> string \<times> bool) list \<Rightarrow> string list" where
  "log_records acc [] = []"
| "log_records acc ((w, s, last_chunk) # out) =
     (if last_chunk then (acc @ s) # log_records [] out else log_records (acc @ s) out)"

lemma log_records_append:
  "out \<noteq> [] \<Longrightarrow> snd (snd (last out)) \<Longrightarrow> log_records a (out @ out') = log_records a out @ log_records [] out'"
proof (induction out arbitrary: a)
  case Nil
  then show ?case by simp
next
  case (Cons c out)
  obtain w s b where c: "c = (w, s, b)" by (cases c) auto
  show ?case
  proof (cases "out = []")
    case True
    with Cons.prems c show ?thesis by simp
  next
    case False
    with Cons c show ?thesis by simp
  qed
qed

definition closed :: "logger \<Rightarrow> bool" where
  "closed l \<longleftrightarrow> log_out l = [] \<or> snd (snd (last (log_out l)))"

lemma closed_records: "closed l \<Longrightarrow> log_records [] (log_out l @ out) = log_records [] (log_out l) @ log_records [] out"
  by (cases "log_out l = []") (auto simp: closed_def log_records_append)

interpretation log_machine: machine "\<lambda>l (lv, body). log_from plain show_int now lv body l" closed
  by unfold_locales
    (auto simp: log_from_def write1_def write2_def call_writer_def closed_def split: if_splits option.splits)

text \<open>
  A log call adds exactly one record to what the writers have received: the body and a line
  end at \<open>trace\<close> (for \<open>log_no_arg\<close> and \<open>mtk_log\<close> at \<open>debug\<close> too), the body and the footer otherwise.
\<close>

theorem one_record_per_call:
  assumes "run_steps (\<lambda>l (lv, body). log_from plain show_int now lv body l) logger_initial calls = Inr l"
    and "log_from plain show_int now lv body l = Inr l'"
  shows "log_records [] (log_out l') = log_records [] (log_out l) @
    [if lv \<le> plain then body @ [CHR 0x0A]
     else body @ footer_text show_int (log_name l) (fst now) (snd now) (log_level_names ! level_num lv)]"
proof -
  have "closed l" using assms(1) by (rule log_machine.run_inv [rotated]) (simp add: closed_def logger_initial_def)
  with assms(2) show ?thesis
    by (auto simp: log_from_def write1_def write2_def call_writer_def closed_records level_name_def
        split: if_splits option.splits)
qed

theorem one_record_per_call_witness:
  "\<exists>l l'. run_steps (\<lambda>l (lv, body). log_from debug (\<lambda>_. ''0'') (1, 2) lv body l) logger_initial [(info, ''a'')] = Inr l \<and>
    log_from debug (\<lambda>_. ''0'') (1, 2) warn ''b'' l = Inr l' \<and>
    log_records [] (log_out l') = log_records [] (log_out l) @ [''b'' @ footer_text (\<lambda>_. ''0'') ''mtk'' 1 2 ''warn'']"
proof -
  let ?log = "\<lambda>lv body l. log_from debug (\<lambda>_. ''0'') (1, 2) lv body l"
  obtain l where l: "?log info ''a'' logger_initial = Inr l" "log_name l = ''mtk''"
    by (simp add: log_from_def less_eq_level_def level_name_def log_level_names_def write2_def call_writer_def logger_initial_def)
  obtain l' where l': "?log warn ''b'' l = Inr l'"
    by (simp add: log_from_def less_eq_level_def level_name_def log_level_names_def)
  have "run_steps (\<lambda>l (lv, body). ?log lv body l) logger_initial [(info, ''a'')] = Inr l" using l(1) by simp
  from one_record_per_call [OF this l'] this l' l(2) show ?thesis
    by (auto simp: less_eq_level_def log_level_names_def)
qed

end
