(* ===== verification/Event_Queue.thy ===== *)
theory Event_Queue
  imports Prelude
begin

text \<open>
  Queues. The sources use \<open>moodycamel::ConcurrentQueue\<close> (vendored under \<open>src/ext\<close>) through \<open>enqueue\<close> and
  \<open>try_dequeue\<close>. Here and in the theories of its users it is the list of its elements, first in, first out; theory \<open>Cq_Runs\<close>
  shows what the real queue, modelled from its header, does to deserve that. \<open>mtk.cpp\<close> wraps it in \<open>Queue\<close>, whose destructor frees what was not taken.
\<close>

section \<open>The queue interface\<close>

locale fifo =
  fixes enq :: "'a \<Rightarrow> 'q \<Rightarrow> 'q"
    and deq :: "'q \<Rightarrow> ('a \<times> 'q) option"
    and content :: "'q \<Rightarrow> 'a list"
  assumes content_enq: "content (enq x q) = content q @ [x]"
    and deq_None: "deq q = None \<longleftrightarrow> content q = []"
    and deq_Some: "deq q = Some (x, q') \<Longrightarrow> content q = x # content q'"
begin

lemma content_enqs: "content (foldl (\<lambda>q x. enq x q) q xs) = content q @ xs"
  by (induction xs arbitrary: q) (auto simp: content_enq)

lemma deq_enq_empty: "content q = [] \<Longrightarrow> \<exists>q'. deq (enq x q) = Some (x, q') \<and> content q' = []"
  using deq_None [of "enq x q"] deq_Some [of "enq x q"] content_enq [of x q]
  by (cases "deq (enq x q)") auto

lemma deq_shrinks: "deq q = Some (x, q') \<Longrightarrow> length (content q') < length (content q)"
  by (auto dest: deq_Some)

end

definition tq_enqueue :: "'a \<Rightarrow> 'a list \<Rightarrow> 'a list" where
  "tq_enqueue x q = q @ [x]"

fun tq_try_dequeue :: "'a list \<Rightarrow> ('a \<times> 'a list) option" where
  "tq_try_dequeue [] = None"
| "tq_try_dequeue (x # q) = Some (x, q)"

interpretation tq: fifo tq_enqueue tq_try_dequeue "\<lambda>q. q"
proof unfold_locales
  show "tq_enqueue x q = q @ [x]" for x :: 'a and q by (simp add: tq_enqueue_def)
  show "(tq_try_dequeue q = None) = (q = [])" for q :: "'a list" by (cases q) auto
  show "tq_try_dequeue q = Some (x, q') \<Longrightarrow> q = x # q'" for x :: 'a and q q' by (cases q) auto
qed

text \<open>\<open>while (q.try_dequeue (x)) \<dots>\<close>: the elements taken, in order.\<close>

function tq_drain :: "'a list \<Rightarrow> 'a list" where
  "tq_drain q = (case tq_try_dequeue q of None \<Rightarrow> [] | Some (x, q') \<Rightarrow> x # tq_drain q')"
  by pat_completeness auto
termination
  by (relation "measure length") (auto dest: tq.deq_shrinks)

declare tq_drain.simps [simp del]

lemma tq_drain_all: "tq_drain q = q"
proof (induction q)
  case Nil
  then show ?case by (simp add: tq_drain.simps)
next
  case (Cons x q)
  then show ?case by (simp add: tq_drain.simps [of "x # q"])
qed

section \<open>The event queue of the C interface\<close>

text \<open>\<open>dtor_\<close> may be null; \<open>freed\<close> records the calls of it, in order.\<close>

record 'a evqueue =
  elems :: "'a list"
  has_dtor :: bool
  freed :: "'a list"

definition queue_create :: "bool \<Rightarrow> 'a evqueue" where
  "queue_create dtor = \<lparr>elems = [], has_dtor = dtor, freed = []\<rparr>"

definition queue_push :: "'a evqueue \<Rightarrow> 'a \<Rightarrow> 'a evqueue" where
  "queue_push q x = q\<lparr>elems := tq_enqueue x (elems q)\<rparr>"

definition queue_pop :: "'a evqueue \<Rightarrow> 'a option \<times> 'a evqueue" where
  "queue_pop q = (case tq_try_dequeue (elems q) of None \<Rightarrow> (None, q) | Some (x, r) \<Rightarrow> (Some x, q\<lparr>elems := r\<rparr>))"

definition queue_elem_free :: "'a evqueue \<Rightarrow> 'a \<Rightarrow> 'a evqueue" where
  "queue_elem_free q x = (if has_dtor q then q\<lparr>freed := freed q @ [x]\<rparr> else q)"

definition queue_destroy :: "'a evqueue \<Rightarrow> 'a evqueue" where
  "queue_destroy q = (foldl queue_elem_free q (tq_drain (elems q)))\<lparr>elems := []\<rparr>"

datatype 'a queue_op = QPush 'a | QPop

text \<open>Running operations, with the elements popped so far.\<close>

fun queue_run :: "'a queue_op list \<Rightarrow> 'a list \<times> 'a evqueue \<Rightarrow> 'a list \<times> 'a evqueue" where
  "queue_run [] (out, q) = (out, q)"
| "queue_run (QPush x # ops) (out, q) = queue_run ops (out, queue_push q x)"
| "queue_run (QPop # ops) (out, q) =
     (case queue_pop q of (None, q') \<Rightarrow> queue_run ops (out, q') | (Some x, q') \<Rightarrow> queue_run ops (out @ [x], q'))"

fun pushes :: "'a queue_op list \<Rightarrow> 'a list" where
  "pushes [] = []"
| "pushes (QPush x # ops) = x # pushes ops"
| "pushes (QPop # ops) = pushes ops"

lemma queue_run_content:
  "queue_run ops (out, q) = (out', q') \<Longrightarrow> out' @ elems q' = out @ elems q @ pushes ops \<and> freed q' = freed q \<and> has_dtor q' = has_dtor q"
proof (induction ops arbitrary: out q)
  case Nil
  then show ?case by simp
next
  case (Cons p ops)
  show ?case
  proof (cases p)
    case (QPush x)
    with Cons show ?thesis by (fastforce simp: queue_push_def tq_enqueue_def)
  next
    case QPop
    with Cons.prems Cons.IH show ?thesis
      by (cases "elems q") (fastforce simp: queue_pop_def split: prod.splits)+
  qed
qed

lemma foldl_elem_free: "freed (foldl queue_elem_free q xs) = (if has_dtor q then freed q @ xs else freed q)"
  by (induction xs arbitrary: q) (auto simp: queue_elem_free_def)

text \<open>
  Every element pushed is either popped or, when the queue is destroyed, handed to the
  destructor given at creation: once, and all of them in the order of the pushes.
\<close>

theorem queue_elements_once:
  "case queue_run ops ([], queue_create True) of (out, q) \<Rightarrow> out @ freed (queue_destroy q) = pushes ops"
proof -
  obtain out q where r: "queue_run ops ([], queue_create True) = (out, q)" by force
  with queue_run_content [OF r] show ?thesis
    by (simp add: queue_create_def queue_destroy_def tq_drain_all foldl_elem_free)
qed

section \<open>Memory slices\<close>

text \<open>\<open>leaked\<close> counts blocks that are still allocated but no longer pointed to.\<close>

record mem_slice =
  slice_ptr :: "string option"
  slice_len :: u32
  leaked :: nat

definition slice_create :: mem_slice where
  "slice_create = \<lparr>slice_ptr = None, slice_len = 0, leaked = 0\<rparr>"

definition slice_put :: "string \<Rightarrow> mem_slice \<Rightarrow> mem_slice" where
  "slice_put p s = s\<lparr>slice_ptr := Some p, slice_len := of_nat (length p),
     leaked := (case slice_ptr s of None \<Rightarrow> leaked s | Some _ \<Rightarrow> leaked s + 1)\<rparr>"

text \<open>The destructor frees the block pointed to; the blocks that stay allocated are left.\<close>

definition slice_destroy :: "mem_slice \<Rightarrow> nat" where
  "slice_destroy s = leaked s"

lemma slice_puts_leak: "leaked (foldl (\<lambda>s p. slice_put p s) s ps) =
    leaked s + (case slice_ptr s of None \<Rightarrow> length ps - 1 | Some _ \<Rightarrow> length ps)"
  by (induction ps arbitrary: s) (auto simp: slice_put_def split: option.splits)

text \<open>
  After \<open>n\<close> \<open>Put\<close>s a slice holds the last text, and \<open>n - 1\<close> blocks are never freed.
\<close>

theorem slice_put_leaks:
  "slice_ptr (slice_put p (foldl (\<lambda>s p. slice_put p s) slice_create ps)) = Some p \<and>
   slice_destroy (slice_put p (foldl (\<lambda>s p. slice_put p s) slice_create ps)) = length ps"
  using slice_puts_leak [of slice_create "ps @ [p]"]
  by (simp add: slice_destroy_def slice_create_def slice_put_def)

end
