(* ===== verification/Messages.thy ===== *)
theory Messages
  imports Prelude Event_Queue
begin

text \<open>
  The messages of \<open>mtk.proto\<close> as records, the error codes of \<open>mtk.h\<close>, and the codec. The wire format is
  Protocol Buffers, which is not part of the sources: a codec is a record of encoding and decoding
  functions, and what the code relies on is \<open>codec_ok\<close>, that decoding gives back what was encoded.
  A decoder merges into a given message: fields absent from the bytes stay, and in this format a
  field with its default value is absent.
\<close>

datatype kind = Normal | Ping | Connect | Login | Close

record proto_error =
  error_code :: int
  error_payload :: string

record request =
  rq_type :: u32
  rq_msgid :: u32
  rq_kind :: kind
  rq_payload :: string

record reply =
  rp_type :: u32
  rp_msgid :: u32
  rp_error :: "proto_error option"
  rp_payload :: string

record connect_payload =
  cn_id :: u64
  cn_payload :: string

record login_payload =
  lg_login_cid :: u64
  lg_id :: u64
  lg_msgid :: u32
  lg_payload :: string

definition new_request :: request where
  "new_request = \<lparr>rq_type = 0, rq_msgid = 0, rq_kind = Normal, rq_payload = []\<rparr>"

definition new_reply :: reply where
  "new_reply = \<lparr>rp_type = 0, rp_msgid = 0, rp_error = None, rp_payload = []\<rparr>"

definition new_connect :: connect_payload where
  "new_connect = \<lparr>cn_id = 0, cn_payload = []\<rparr>"

text \<open>\<open>mtk_error_t\<close>.\<close>

datatype mtk_error =
  MTK_APPLICATION_ERROR | MTK_TIMEOUT | MTK_ACCEPT_DENY | MTK_FIN | MTK_NOT_CONNECT | MTK_BROKEN_PAYLOAD

fun mtk_error_value :: "mtk_error \<Rightarrow> int" where
  "mtk_error_value MTK_APPLICATION_ERROR = -1"
| "mtk_error_value MTK_TIMEOUT = -2"
| "mtk_error_value MTK_ACCEPT_DENY = -3"
| "mtk_error_value MTK_FIN = -4"
| "mtk_error_value MTK_NOT_CONNECT = -5"
| "mtk_error_value MTK_BROKEN_PAYLOAD = -6"

section \<open>The codec\<close>

record codec =
  enc_connect :: "connect_payload \<Rightarrow> string"
  dec_connect :: "string \<Rightarrow> connect_payload option"
  enc_login :: "login_payload \<Rightarrow> string"
  dec_login :: "string \<Rightarrow> login_payload option"

definition codec_ok :: "codec \<Rightarrow> bool" where
  "codec_ok cd \<longleftrightarrow> (\<forall>m. dec_connect cd (enc_connect cd m) = Some m) \<and> (\<forall>m. dec_login cd (enc_login cd m) = Some m)"

text \<open>\<open>Codec::Pack\<close> into a buffer of the size the message asks for: its bytes, and their number.\<close>

definition pack :: "('m \<Rightarrow> string) \<Rightarrow> 'm \<Rightarrow> string \<times> int" where
  "pack enc m = (enc m, int (length (enc m)))"

text \<open>\<open>Codec::Unpack\<close>: the position reached, or -1; the message is merged into \<open>old\<close>.\<close>

definition unpack :: "(string \<Rightarrow> 'm option) \<Rightarrow> ('m \<Rightarrow> 'm \<Rightarrow> 'm) \<Rightarrow> string \<Rightarrow> 'm \<Rightarrow> int \<times> 'm" where
  "unpack dec merge bytes old = (case dec bytes of None \<Rightarrow> (-1, old) | Some m \<Rightarrow> (int (length bytes), merge old m))"

definition merge_connect :: "connect_payload \<Rightarrow> connect_payload \<Rightarrow> connect_payload" where
  "merge_connect old m =
     \<lparr>cn_id = (if cn_id m = 0 then cn_id old else cn_id m),
      cn_payload = (if cn_payload m = [] then cn_payload old else cn_payload m)\<rparr>"

lemma merge_new_connect: "merge_connect new_connect m = m"
  by (cases m) (simp add: merge_connect_def new_connect_def)

text \<open>Into a fresh message a packed one is unpacked as it was.\<close>

lemma unpack_pack:
  assumes "codec_ok cd"
  shows "unpack (dec_connect cd) merge_connect (fst (pack (enc_connect cd) m)) new_connect = (snd (pack (enc_connect cd) m), m)"
  using assms by (simp add: unpack_def pack_def codec_ok_def merge_new_connect)

text \<open>A concrete codec, to show that \<open>codec_ok\<close> can hold: numbers in unary.\<close>

definition put_num :: "nat \<Rightarrow> string" where
  "put_num n = replicate n (CHR ''1'') @ [CHR '';'']"

fun get_num :: "string \<Rightarrow> (nat \<times> string) option" where
  "get_num [] = None"
| "get_num (c # cs) =
     (if c = CHR '';'' then Some (0, cs)
      else (case get_num cs of None \<Rightarrow> None | Some (n, r) \<Rightarrow> Some (Suc n, r)))"

lemma get_put_num: "get_num (put_num n @ r) = Some (n, r)"
  by (induction n) (auto simp: put_num_def)

definition demo_codec :: codec where
  "demo_codec = \<lparr>
     enc_connect = (\<lambda>m. put_num (unat (cn_id m)) @ cn_payload m),
     dec_connect = (\<lambda>s. case get_num s of None \<Rightarrow> None | Some (n, p) \<Rightarrow> Some \<lparr>cn_id = of_nat n, cn_payload = p\<rparr>),
     enc_login = (\<lambda>m. put_num (unat (lg_login_cid m)) @ put_num (unat (lg_id m)) @ put_num (unat (lg_msgid m)) @ lg_payload m),
     dec_login = (\<lambda>s. case get_num s of None \<Rightarrow> None | Some (l, s1) \<Rightarrow>
        (case get_num s1 of None \<Rightarrow> None | Some (i, s2) \<Rightarrow>
        (case get_num s2 of None \<Rightarrow> None | Some (k, p) \<Rightarrow>
           Some \<lparr>lg_login_cid = of_nat l, lg_id = of_nat i, lg_msgid = of_nat k, lg_payload = p\<rparr>)))\<rparr>"

lemma demo_codec_ok: "codec_ok demo_codec"
  by (simp add: codec_ok_def demo_codec_def get_put_num)

end
