(* ===== verification/Sv_Stream.thy ===== *)
theory Sv_Stream
  imports Messages
begin

text \<open>
  \<open>SVStream\<close> of \<open>conn.h\<close> and \<open>conn.cpp\<close>: the server's end of one stream, with its queue of replies, its
  queue of tasks and its reference count. What it asks of gRPC (\<open>io_.Write\<close>, \<open>io_.Finish\<close>, \<open>io_.Read\<close>) is
  logged in \<open>sv_io\<close>; destroyed streams are handled where streams are owned, in theory \<open>Server_World\<close>.
\<close>

section \<open>State\<close>

datatype io_call = IoWrite reply | IoRead | IoFinish

record svstream =
  sv_queue :: "reply list"
  sv_tasks :: "request list"
  is_sending :: bool
  user_ctx :: "nat option"
  user_ctx_dtor :: bool
  refc :: int
  sv_io :: "io_call list"

definition new_svstream :: svstream where
  "new_svstream = \<lparr>sv_queue = [], sv_tasks = [], is_sending = False, user_ctx = None, user_ctx_dtor = False,
     refc = 0, sv_io = []\<rparr>"

section \<open>Operations\<close>

definition sv_ref :: "svstream \<Rightarrow> svstream" where
  "sv_ref s = s\<lparr>refc := refc s + 1\<rparr>"

text \<open>\<open>--refc_ <= 0\<close> deletes the object: the result is \<open>None\<close> then.\<close>

definition sv_unref :: "svstream \<Rightarrow> svstream option" where
  "sv_unref s = (let s1 = s\<lparr>refc := refc s - 1\<rparr> in if refc s1 \<le> 0 then None else Some s1)"

definition io_write :: "reply \<Rightarrow> svstream \<Rightarrow> svstream" where
  "io_write r s = s\<lparr>sv_io := sv_io s @ [IoWrite r]\<rparr>"

definition sv_send :: "reply \<Rightarrow> svstream \<Rightarrow> svstream" where
  "sv_send r s =
     (if \<not> is_sending s then io_write r (sv_ref (s\<lparr>is_sending := True\<rparr>))
      else s\<lparr>sv_queue := sv_queue s @ [r]\<rparr>)"

text \<open>\<open>Step\<close>, called when a write is done.\<close>

definition sv_step :: "svstream \<Rightarrow> svstream option" where
  "sv_step s =
     (case sv_queue s of
        r # rest \<Rightarrow> Some ((io_write r s)\<lparr>sv_queue := rest\<rparr>)
      | [] \<Rightarrow> sv_unref (s\<lparr>is_sending := False\<rparr>))"

text \<open>\<open>Destroy\<close>, called when a write has failed.\<close>

definition sv_destroy :: "svstream \<Rightarrow> svstream option" where
  "sv_destroy s = sv_unref s"

definition queue_size :: "svstream \<Rightarrow> nat" where
  "queue_size s = length (sv_queue s)"

definition set_user_ctx :: "nat \<Rightarrow> bool \<Rightarrow> svstream \<Rightarrow> svstream" where
  "set_user_ctx ud dtor s = s\<lparr>user_ctx := Some ud, user_ctx_dtor := dtor\<rparr>"

definition sv_finish :: "svstream \<Rightarrow> svstream" where
  "sv_finish s = s\<lparr>sv_io := sv_io s @ [IoFinish]\<rparr>"

definition sv_read :: "svstream \<Rightarrow> svstream" where
  "sv_read s = s\<lparr>sv_io := sv_io s @ [IoRead]\<rparr>"

text \<open>Setting up replies and tasks. \<open>w\<close> is the text already packed (for a \<open>std::string\<close>, itself).\<close>

definition setup_payload :: "string \<Rightarrow> reply \<Rightarrow> reply" where
  "setup_payload w rep = rep\<lparr>rp_payload := w\<rparr>"

definition setup_notify :: "u32 \<Rightarrow> string \<Rightarrow> reply \<Rightarrow> reply" where
  "setup_notify type w rep = (setup_payload w rep)\<lparr>rp_type := type, rp_msgid := 0\<rparr>"

definition setup_reply :: "u32 \<Rightarrow> string \<Rightarrow> reply \<Rightarrow> reply" where
  "setup_reply msgid w rep = (setup_payload w rep)\<lparr>rp_msgid := msgid\<rparr>"

definition setup_system_reply :: "u32 \<Rightarrow> string \<Rightarrow> reply \<Rightarrow> reply" where
  "setup_system_reply msgid w rep = rep\<lparr>rp_msgid := msgid, rp_payload := w\<rparr>"

definition setup_throw :: "u32 \<Rightarrow> proto_error \<Rightarrow> reply \<Rightarrow> reply" where
  "setup_throw msgid e rep = rep\<lparr>rp_msgid := msgid, rp_error := Some e\<rparr>"

definition setup_request :: "u32 \<Rightarrow> string \<Rightarrow> request \<Rightarrow> request" where
  "setup_request type w req = req\<lparr>rq_type := type, rq_payload := w\<rparr>"

definition setup_sys_task :: "kind \<Rightarrow> string \<Rightarrow> request \<Rightarrow> request" where
  "setup_sys_task k w req = req\<lparr>rq_kind := k, rq_payload := w\<rparr>"

definition sv_rep :: "u32 \<Rightarrow> string \<Rightarrow> svstream \<Rightarrow> svstream" where
  "sv_rep msgid w s = sv_send (setup_reply msgid w new_reply) s"

definition sv_sysrep :: "u32 \<Rightarrow> string \<Rightarrow> svstream \<Rightarrow> svstream" where
  "sv_sysrep msgid w s = sv_send (setup_system_reply msgid w new_reply) s"

definition sv_notify :: "u32 \<Rightarrow> string \<Rightarrow> svstream \<Rightarrow> svstream" where
  "sv_notify type w s = sv_send (setup_notify type w new_reply) s"

definition sv_throw :: "u32 \<Rightarrow> proto_error \<Rightarrow> svstream \<Rightarrow> svstream" where
  "sv_throw msgid e s = sv_send (setup_throw msgid e new_reply) s"

definition sv_add_task :: "u32 \<Rightarrow> string \<Rightarrow> svstream \<Rightarrow> svstream" where
  "sv_add_task type w s = s\<lparr>sv_tasks := tq_enqueue (setup_request type w new_request) (sv_tasks s)\<rparr>"

definition sv_sys_task :: "kind \<Rightarrow> string \<Rightarrow> svstream \<Rightarrow> svstream" where
  "sv_sys_task k w s = s\<lparr>sv_tasks := tq_enqueue (setup_sys_task k w new_request) (sv_tasks s)\<rparr>"

text \<open>\<open>SystemPayload::Close\<close> has no fields: its encoding is empty.\<close>

definition sv_close :: "svstream \<Rightarrow> svstream" where
  "sv_close s = sv_sys_task Close [] s"

text \<open>
  The destructor: the tasks left are deleted and the user context is given to its destructor; the replies
  left in \<open>queue_\<close> are not. The result: freed tasks, destroyed contexts, leaked replies.
\<close>

definition sv_dtor :: "svstream \<Rightarrow> request list \<times> nat list \<times> reply list" where
  "sv_dtor s =
     (tq_drain (sv_tasks s),
      (case user_ctx s of None \<Rightarrow> [] | Some ud \<Rightarrow> if user_ctx_dtor s then [ud] else []),
      sv_queue s)"

section \<open>Sending in order, one at a time\<close>

text \<open>
  The environment of a stream: replies sent by the application, references taken and given back by
  others, and the completion of the outstanding write.
\<close>

datatype sv_event = EvSend reply | EvWritten | EvRef | EvUnref | EvTask request

text \<open>\<open>writes s\<close> is what gRPC was given to write, in order.\<close>

fun written :: "io_call list \<Rightarrow> reply list" where
  "written [] = []"
| "written (IoWrite r # io) = r # written io"
| "written (_ # io) = written io"

lemma written_append: "written (a @ b) = written a @ written b"
  by (induction a rule: written.induct) auto

text \<open>
  \<open>outstanding\<close>, kept by gRPC, counts the writes that were started and are not yet complete. gRPC lets a
  stream have one: starting a second is a fault. So is touching a deleted stream, or the completion of a
  write that was not started.
\<close>

datatype sv_fault = SecondWrite | StreamDeleted | NoWrite

record sv_run =
  run_stream :: "svstream option"
  outstanding :: nat
  holders :: nat
  sent :: "reply list"
  on_wire :: "reply list"

definition count_writes :: "svstream option \<Rightarrow> nat" where
  "count_writes s = (case s of None \<Rightarrow> 0 | Some s \<Rightarrow> length (written (sv_io s)))"

text \<open>After an operation that gave \<open>s'\<close>: the writes it started become outstanding.\<close>

definition after :: "svstream \<Rightarrow> svstream option \<Rightarrow> nat \<Rightarrow> sv_run \<Rightarrow> sv_fault + sv_run" where
  "after s s' left r =
     (let started = (case s' of None \<Rightarrow> [] | Some t \<Rightarrow> drop (length (written (sv_io s))) (written (sv_io t))) in
      if left + length started > 1 then Inl SecondWrite
      else Inr (r\<lparr>run_stream := s', outstanding := left + length started, on_wire := on_wire r @ started\<rparr>))"

definition sv_event_step :: "sv_run \<Rightarrow> sv_event \<Rightarrow> sv_fault + sv_run" where
  "sv_event_step r e =
     (case run_stream r of
        None \<Rightarrow> Inl StreamDeleted
      | Some s \<Rightarrow>
          (case e of
             EvSend rep \<Rightarrow> after s (Some (sv_send rep s)) (outstanding r) (r\<lparr>sent := sent r @ [rep]\<rparr>)
           | EvWritten \<Rightarrow>
               (if outstanding r = 0 then Inl NoWrite else after s (sv_step s) (outstanding r - 1) r)
           | EvRef \<Rightarrow> after s (Some (sv_ref s)) (outstanding r) (r\<lparr>holders := holders r + 1\<rparr>)
           | EvUnref \<Rightarrow> after s (sv_unref s) (outstanding r) (r\<lparr>holders := holders r - 1\<rparr>)
           | EvTask t \<Rightarrow> after s (Some (s\<lparr>sv_tasks := tq_enqueue t (sv_tasks s)\<rparr>)) (outstanding r) r))"

text \<open>A new stream, referenced once by its \<open>Conn\<close>.\<close>

definition sv_run_start :: sv_run where
  "sv_run_start = \<lparr>run_stream = Some (sv_ref new_svstream), outstanding = 0, holders = 1, sent = [], on_wire = []\<rparr>"

text \<open>
  The contract: replies sent are written in order, the rest waiting in the queue; a write is outstanding
  exactly while the stream says so; the count is that of the holders and of the outstanding write, and
  the stream lives exactly as long as it is not zero.
\<close>

definition sv_inv :: "sv_run \<Rightarrow> bool" where
  "sv_inv r \<longleftrightarrow>
     (case run_stream r of
        None \<Rightarrow> holders r = 0 \<and> outstanding r = 0 \<and> sent r = on_wire r
      | Some s \<Rightarrow> sent r = on_wire r @ sv_queue s \<and> on_wire r = written (sv_io s) \<and>
          outstanding r = (if is_sending s then 1 else 0) \<and> (sv_queue s \<noteq> [] \<longrightarrow> is_sending s) \<and>
          refc s = int (holders r + outstanding r) \<and> 0 < holders r + outstanding r)"

text \<open>An event is possible when a holder is left for it (a write in progress is no holder).\<close>

fun sv_enabled :: "sv_run \<Rightarrow> sv_event \<Rightarrow> bool" where
  "sv_enabled r EvWritten = (0 < outstanding r)"
| "sv_enabled r _ = (0 < holders r)"

lemma sv_event_inv:
  assumes "sv_inv r" and "sv_enabled r e"
  obtains r' where "sv_event_step r e = Inr r'" and "sv_inv r'"
proof (cases "run_stream r")
  case None
  with assms show ?thesis by (cases e) (auto simp: sv_inv_def)
next
  case (Some s)
  with assms have "\<exists>r'. sv_event_step r e = Inr r' \<and> sv_inv r'"
    by (cases e; cases "is_sending s"; cases "sv_queue s"; cases "holders r")
      (auto simp: sv_event_step_def sv_inv_def after_def sv_send_def io_write_def sv_ref_def sv_unref_def sv_step_def
        written_append Let_def split: if_splits)
  then show ?thesis using that by blast
qed

definition sv_env :: "sv_run \<Rightarrow> sv_event \<Rightarrow> sv_fault + sv_run" where
  "sv_env r e = (if sv_enabled r e then sv_event_step r e else Inr r)"

interpretation sv: safe_machine sv_env sv_inv
proof unfold_locales
  fix r e r'
  assume "sv_inv r" and "sv_env r e = Inr r'"
  then show "sv_inv r'" by (cases "sv_enabled r e") (auto simp: sv_env_def elim: sv_event_inv)
next
  fix r e
  assume "sv_inv r"
  then show "\<exists>r'. sv_env r e = Inr r'" by (cases "sv_enabled r e") (auto simp: sv_env_def elim: sv_event_inv)
qed

lemma sv_start_inv: "sv_inv sv_run_start"
  by (simp add: sv_inv_def sv_run_start_def new_svstream_def sv_ref_def)

text \<open>
  Property C17. Whatever is sent, completed, referenced and released, in any order: no second write is
  started while one is outstanding, the stream is not touched after its deletion, and what was written,
  followed by what still waits, is what was sent, in order. The stream is deleted exactly when no holder
  and no write is left, and then everything sent had been written.
\<close>

theorem stream_writes_in_order:
  "\<exists>r. run_steps sv_env sv_run_start es = Inr r \<and> outstanding r \<le> 1 \<and>
    (run_stream r = None \<longleftrightarrow> holders r + outstanding r = 0) \<and>
    (case run_stream r of None \<Rightarrow> on_wire r = sent r
     | Some s \<Rightarrow> on_wire r @ sv_queue s = sent r \<and> on_wire r = written (sv_io s))"
proof -
  obtain r where "run_steps sv_env sv_run_start es = Inr r" "sv_inv r"
    using sv.run_safe [OF sv_start_inv] by blast
  then show ?thesis by (intro exI [of _ r]) (auto simp: sv_inv_def split: option.splits if_splits)
qed

lemma flush_step:
  assumes "sv_inv r" and "run_stream r = Some s" and "sv_queue s = q # qs"
  obtains r' s' where "sv_env r EvWritten = Inr r'" and "run_stream r' = Some s'" and "sv_queue s' = qs"
    and "sent r' = sent r" and "sv_inv r'"
proof -
  have en: "sv_enabled r EvWritten" using assms by (auto simp: sv_inv_def)
  obtain r' where r': "sv_event_step r EvWritten = Inr r'" "sv_inv r'" using sv_event_inv [OF assms(1) en] by blast
  have "\<exists>s'. run_stream r' = Some s' \<and> sv_queue s' = qs \<and> sent r' = sent r"
    using r'(1) assms(2,3) by (auto simp: sv_event_step_def sv_step_def after_def Let_def io_write_def split: if_splits)
  with r' en that show ?thesis by (auto simp: sv_env_def)
qed

text \<open>
  Property C19. As many completed writes as replies wait in the queue get all of them written.
\<close>

theorem queue_is_flushed:
  assumes "run_steps sv_env sv_run_start es = Inr r" and "run_stream r = Some s"
  shows "\<exists>r'. run_steps sv_env r (replicate (length (sv_queue s)) EvWritten) = Inr r' \<and> on_wire r' = sent r"
proof -
  have inv: "sv_inv r" using sv.run_inv [OF sv_start_inv assms(1)] .
  show ?thesis
    using inv assms(2)
  proof (induction "sv_queue s" arbitrary: r s)
    case Nil
    then show ?case by (auto simp: sv_inv_def)
  next
    case (Cons q qs)
    obtain r1 s1 where r1: "sv_env r EvWritten = Inr r1" "run_stream r1 = Some s1" "sv_queue s1 = qs"
      "sent r1 = sent r" "sv_inv r1"
      using flush_step [OF Cons.prems(1,2) Cons.hyps(2) [symmetric]] by blast
    from Cons.hyps(1) [OF r1(3) [symmetric] r1(5,2)] r1 show ?case
      by (auto simp: Cons.hyps(2) [symmetric])
  qed
qed

theorem queue_is_flushed_witness:
  "\<exists>r s r'. run_steps sv_env sv_run_start (replicate 3 (EvSend new_reply)) = Inr r \<and> run_stream r = Some s \<and>
    length (sv_queue s) = 2 \<and> run_steps sv_env r (replicate (length (sv_queue s)) EvWritten) = Inr r' \<and> on_wire r' = sent r"
proof -
  let ?es = "replicate 3 (EvSend new_reply)"
  obtain r where r: "run_steps sv_env sv_run_start ?es = Inr r"
    using sv.run_safe [OF sv_start_inv] by blast
  moreover from r obtain s where "run_stream r = Some s" "length (sv_queue s) = 2"
    by (auto simp: numeral_3_eq_3 sv_env_def sv_event_step_def after_def sv_run_start_def sv_ref_def sv_send_def
        new_svstream_def io_write_def written_append Let_def)
  moreover from queue_is_flushed [OF r] calculation obtain r' where
    "run_steps sv_env r (replicate (length (sv_queue s)) EvWritten) = Inr r'" "on_wire r' = sent r" by blast
  ultimately show ?thesis by blast
qed

text \<open>
  After a failed write the stream still believes that it is sending: what is sent from then on
  is only queued, and lost when the stream is deleted, without being freed.
\<close>

theorem failed_write_mutes_stream:
  assumes "is_sending s" and "sv_destroy s = Some s'"
  shows "sv_io (foldl (\<lambda>s r. sv_send r s) s' rs) = sv_io s \<and>
    (case sv_dtor (foldl (\<lambda>s r. sv_send r s) s' rs) of (_, _, lost) \<Rightarrow> lost = sv_queue s @ rs)"
proof -
  have "is_sending t \<Longrightarrow> sv_io (foldl (\<lambda>s r. sv_send r s) t rs) = sv_io t \<and>
      sv_queue (foldl (\<lambda>s r. sv_send r s) t rs) = sv_queue t @ rs" for t
    by (induction rs arbitrary: t) (auto simp: sv_send_def)
  moreover have "is_sending s'" "sv_io s' = sv_io s" "sv_queue s' = sv_queue s"
    using assms by (auto simp: sv_destroy_def sv_unref_def Let_def split: if_splits)
  ultimately show ?thesis by (simp add: sv_dtor_def)
qed

theorem failed_write_mutes_stream_witness:
  "sv_io (foldl (\<lambda>s r. sv_send r s) (sv_ref new_svstream\<lparr>is_sending := True\<rparr>) [new_reply]) =
   sv_io (sv_ref (sv_ref new_svstream\<lparr>is_sending := True\<rparr>))"
  using failed_write_mutes_stream [of "sv_ref (sv_ref new_svstream\<lparr>is_sending := True\<rparr>)" "sv_ref new_svstream\<lparr>is_sending := True\<rparr>" "[new_reply]"]
  by (simp add: sv_ref_def new_svstream_def sv_destroy_def sv_unref_def)

end
