(* ===== verification/Server_World.thy ===== *)
theory Server_World
  imports Sv_Stream
begin

text \<open>
  The server side: \<open>Conn\<close> (\<open>conn.h\<close>, \<open>conn.cpp\<close>), \<open>Worker\<close> (\<open>worker.h\<close>, \<open>worker.cpp\<close>) and the registries of
  \<open>IServer\<close> (\<open>server.cpp\<close>), as operations on a \<open>world\<close>: the live \<open>Conn\<close>s and \<open>SVStream\<close>s by address, the
  maps \<open>pmap_\<close> and \<open>cmap_\<close>, the workers, and the operations that were started with gRPC and whose
  completion will be delivered to a worker. Using an object that was deleted is the fault
  \<open>UseAfterFree\<close>. A \<open>Conn\<close> and the \<open>SVStream\<close> it creates have the same address here (they are different
  heaps), so \<open>stream_\<close> needs no field. Application callbacks are a record of functions of the world,
  whose calls back into the interface are a list of \<open>api\<close>.
\<close>

section \<open>State\<close>

datatype stream_status = INIT | ACCEPT | LOGIN | WAIT_LOGIN | READ | WRITE | CLOSE

fun status_num :: "stream_status \<Rightarrow> nat" where
  "status_num INIT = 0"
| "status_num ACCEPT = 1"
| "status_num LOGIN = 2"
| "status_num WAIT_LOGIN = 3"
| "status_num READ = 4"
| "status_num WRITE = 5"
| "status_num CLOSE = 6"

instantiation stream_status :: linorder
begin

definition less_eq_stream_status :: "stream_status \<Rightarrow> stream_status \<Rightarrow> bool" where
  "less_eq_stream_status a b \<longleftrightarrow> status_num a \<le> status_num b"

definition less_stream_status :: "stream_status \<Rightarrow> stream_status \<Rightarrow> bool" where
  "less_stream_status a b \<longleftrightarrow> status_num a < status_num b"

instance
proof
  fix a b c :: stream_status
  show "(a < b) = (a \<le> b \<and> \<not> b \<le> a)" by (auto simp: less_eq_stream_status_def less_stream_status_def)
  show "a \<le> a" by (simp add: less_eq_stream_status_def)
  show "a \<le> b \<Longrightarrow> b \<le> c \<Longrightarrow> a \<le> c" by (simp add: less_eq_stream_status_def)
  show "a \<le> b \<Longrightarrow> b \<le> a \<Longrightarrow> a = b" by (cases a; cases b) (simp_all add: less_eq_stream_status_def)
  show "a \<le> b \<or> b \<le> a" by (auto simp: less_eq_stream_status_def)
qed

end

record conn =
  conn_worker :: nat
  conn_status :: stream_status
  conn_req :: request
  conn_cid :: u64
  conn_lcid :: u64

text \<open>The tags given to gRPC are pointers to an \<open>IJob\<close>: a \<open>Conn\<close>, a \<open>SVStream\<close> or a \<open>StreamCloser\<close>.\<close>

datatype job = JConn nat | JStream nat | JCloser nat

datatype rpc_op = OpAccept | OpRead | OpWrite reply | OpFinish

record worker =
  connections :: "nat list"
  dying :: bool

text \<open>\<open>mtk_svevent_t\<close>; a field that was not written is \<open>None\<close>.\<close>

record svevent =
  ev_lcid :: u64
  ev_cid :: u64
  ev_msgid :: u32
  ev_result :: "int option"
  ev_data :: string

text \<open>
  \<open>svevents\<close> is the queue of a server that was started with \<open>use_queue\<close>;
  \<open>deferred\<close> records the login ids handed to the application, \<open>ctx_freed\<close> the user contexts destroyed.
\<close>

record world =
  streams :: "nat \<rightharpoonup> svstream"
  conns :: "nat \<rightharpoonup> conn"
  next_addr :: nat
  pmap :: "u64 \<rightharpoonup> nat"
  cid_seed :: u64
  cmap :: "u64 \<rightharpoonup> nat"
  workers :: "nat \<Rightarrow> worker"
  pending :: "(rpc_op \<times> job) list"
  deferred :: "(nat \<times> u64) list"
  ctx_freed :: "nat list"
  svevents :: "svevent list"

datatype conn_fault = UseAfterFree | OutOfFuel | NoSuchEvent

definition world_initial :: world where
  "world_initial = \<lparr>streams = Map.empty, conns = Map.empty, next_addr = 0, pmap = Map.empty, cid_seed = 0,
     cmap = Map.empty, workers = (\<lambda>_. \<lparr>connections = [], dying = False\<rparr>), pending = [], deferred = [], ctx_freed = [], svevents = []\<rparr>"

text \<open>\<open>std::map\<close> as used: \<open>m[k] = v\<close>, \<open>erase (k)\<close>, \<open>find (k)\<close>.\<close>

definition map_set :: "'k \<Rightarrow> 'v \<Rightarrow> ('k \<rightharpoonup> 'v) \<Rightarrow> ('k \<rightharpoonup> 'v)" where
  "map_set k v m = m(k \<mapsto> v)"

definition map_erase :: "'k \<Rightarrow> ('k \<rightharpoonup> 'v) \<Rightarrow> ('k \<rightharpoonup> 'v)" where
  "map_erase k m = m(k := None)"

definition map_find :: "('k \<rightharpoonup> 'v) \<Rightarrow> 'k \<rightharpoonup> 'v" where
  "map_find m k = m k"

interpretation std_map: registry map_set map_erase map_find
  by unfold_locales (simp_all add: map_set_def map_erase_def map_find_def)

definition has_peer :: "conn \<Rightarrow> bool" where
  "has_peer cn \<longleftrightarrow> conn_status cn > ACCEPT"

definition wait_login_accept :: "conn \<Rightarrow> bool" where
  "wait_login_accept cn \<longleftrightarrow> conn_status cn = WAIT_LOGIN"

section \<open>Objects\<close>

definition get_conn :: "nat \<Rightarrow> world \<Rightarrow> conn_fault + conn" where
  "get_conn c w = deref UseAfterFree (conns w) c"

definition set_conn :: "nat \<Rightarrow> (conn \<Rightarrow> conn) \<Rightarrow> world \<Rightarrow> conn_fault + world" where
  "set_conn c f w = bindE (get_conn c w) (\<lambda>cn. Inr (w\<lparr>conns := (conns w)(c \<mapsto> f cn)\<rparr>))"

definition set_status :: "nat \<Rightarrow> stream_status \<Rightarrow> world \<Rightarrow> conn_fault + world" where
  "set_status c st w = set_conn c (\<lambda>cn. cn\<lparr>conn_status := st\<rparr>) w"

definition get_sv :: "nat \<Rightarrow> world \<Rightarrow> conn_fault + svstream" where
  "get_sv s w = deref UseAfterFree (streams w) s"

definition on_sv :: "nat \<Rightarrow> (svstream \<Rightarrow> svstream) \<Rightarrow> world \<Rightarrow> conn_fault + world" where
  "on_sv s f w = bindE (get_sv s w) (\<lambda>st. Inr (w\<lparr>streams := (streams w)(s \<mapsto> f st)\<rparr>))"

definition add_pending :: "rpc_op \<Rightarrow> job \<Rightarrow> world \<Rightarrow> world" where
  "add_pending op j w = w\<lparr>pending := pending w @ [(op, j)]\<rparr>"

text \<open>A reference dropped: the destructor of the stream destroys the user context.\<close>

definition stream_gone :: "nat \<Rightarrow> svstream \<Rightarrow> svstream option \<Rightarrow> world \<Rightarrow> world" where
  "stream_gone s st st' w =
     (case st' of
        None \<Rightarrow> w\<lparr>streams := (streams w)(s := None), ctx_freed := ctx_freed w @ fst (snd (sv_dtor st))\<rparr>
      | Some t \<Rightarrow> w\<lparr>streams := (streams w)(s \<mapsto> t)\<rparr>)"

definition stream_unref :: "nat \<Rightarrow> world \<Rightarrow> conn_fault + world" where
  "stream_unref s w = bindE (get_sv s w) (\<lambda>st. Inr (stream_gone s st (sv_unref st) w))"

text \<open>\<open>Send\<close> from any thread: the write it starts carries the stream as its tag.\<close>

definition stream_send :: "nat \<Rightarrow> reply \<Rightarrow> world \<Rightarrow> conn_fault + world" where
  "stream_send s r w =
     bindE (get_sv s w) (\<lambda>st.
     bindE (on_sv s (sv_send r) w) (\<lambda>w1.
       Inr (if is_sending st then w1 else add_pending (OpWrite r) (JStream s) w1)))"

text \<open>\<open>SVStream::Step\<close> as the continuation of a completed write.\<close>

definition stream_step :: "nat \<Rightarrow> world \<Rightarrow> conn_fault + world" where
  "stream_step s w =
     bindE (get_sv s w) (\<lambda>st.
       let w1 = stream_gone s st (sv_step st) w in
       Inr (case sv_queue st of r # _ \<Rightarrow> add_pending (OpWrite r) (JStream s) w1 | [] \<Rightarrow> w1))"

section \<open>The registries\<close>

definition on_register :: "nat \<Rightarrow> nat \<Rightarrow> world \<Rightarrow> world" where
  "on_register wk c w = w\<lparr>workers := (workers w)(wk := (workers w wk)\<lparr>connections := connections (workers w wk) @ [c]\<rparr>)\<rparr>"

definition on_unregister :: "nat \<Rightarrow> nat \<Rightarrow> world \<Rightarrow> world" where
  "on_unregister wk c w = w\<lparr>workers := (workers w)(wk := (workers w wk)\<lparr>connections := remove1 c (connections (workers w wk))\<rparr>)\<rparr>"

definition server_register :: "u64 \<Rightarrow> nat \<Rightarrow> world \<Rightarrow> world" where
  "server_register cid c w = w\<lparr>cmap := map_set cid c (cmap w)\<rparr>"

definition server_unregister :: "u64 \<Rightarrow> nat \<Rightarrow> world \<Rightarrow> world" where
  "server_unregister cid c w =
     (case map_find (cmap w) cid of
        None \<Rightarrow> w
      | Some d \<Rightarrow> if d = c then w\<lparr>cmap := map_erase cid (cmap w)\<rparr> else w)"

definition new_login_cid :: "nat \<Rightarrow> world \<Rightarrow> conn_fault + world \<times> u64" where
  "new_login_cid c w =
     bindE (get_conn c w) (\<lambda>cn.
       let l = cid_seed w + 1 in
       bindE (set_conn c (\<lambda>cn. cn\<lparr>conn_lcid := l\<rparr>) (w\<lparr>cid_seed := l\<rparr>)) (\<lambda>w1.
         Inr (on_register (conn_worker cn) c (w1\<lparr>pmap := map_set l c (pmap w1)\<rparr>), l)))"

definition clear_login_cid :: "nat \<Rightarrow> world \<Rightarrow> conn_fault + world" where
  "clear_login_cid c w =
     bindE (get_conn c w) (\<lambda>cn.
       if conn_lcid cn \<noteq> 0 then
         bindE (set_conn c (\<lambda>cn. cn\<lparr>conn_lcid := 0\<rparr>) (w\<lparr>pmap := map_erase (conn_lcid cn) (pmap w)\<rparr>)) (\<lambda>w1.
           Inr (on_unregister (conn_worker cn) c w1))
       else Inr w)"

definition conn_register :: "nat \<Rightarrow> u64 \<Rightarrow> world \<Rightarrow> conn_fault + world" where
  "conn_register c cid w =
     bindE (clear_login_cid c w) (\<lambda>w1.
     bindE (set_conn c (\<lambda>cn. cn\<lparr>conn_cid := cid\<rparr>) w1) (\<lambda>w2.
     bindE (get_conn c w2) (\<lambda>cn.
       Inr (on_register (conn_worker cn) c (server_register cid c w2)))))"

definition conn_unregister :: "nat \<Rightarrow> world \<Rightarrow> conn_fault + world" where
  "conn_unregister c w =
     bindE (clear_login_cid c w) (\<lambda>w1.
     bindE (get_conn c w1) (\<lambda>cn.
       Inr (on_unregister (conn_worker cn) c (server_unregister (conn_cid cn) c w1))))"

section \<open>Calls from the application\<close>

datatype api =
    ApiSend u32 string
  | ApiNotify u32 string
  | ApiError u32 string
  | ApiTask u32 string
  | ApiClose
  | ApiDefer
  | ApiPutCtx nat bool
  | ApiPush svevent

definition app_error :: "string \<Rightarrow> proto_error" where
  "app_error data = \<lparr>error_code = mtk_error_value MTK_APPLICATION_ERROR, error_payload = data\<rparr>"

definition deny_error :: "string \<Rightarrow> proto_error" where
  "deny_error data = \<lparr>error_code = mtk_error_value MTK_ACCEPT_DENY, error_payload = data\<rparr>"

definition defer_login :: "nat \<Rightarrow> world \<Rightarrow> conn_fault + world" where
  "defer_login c w =
     bindE (set_status c WAIT_LOGIN w) (\<lambda>w1.
     bindE (new_login_cid c w1) (\<lambda>(w2, l). Inr (w2\<lparr>deferred := deferred w2 @ [(c, l)]\<rparr>)))"

fun run_api :: "nat \<Rightarrow> api \<Rightarrow> world \<Rightarrow> conn_fault + world" where
  "run_api c (ApiSend msgid data) w = bindE (get_conn c w) (\<lambda>_. stream_send c (setup_reply msgid data new_reply) w)"
| "run_api c (ApiNotify type data) w = bindE (get_conn c w) (\<lambda>_. stream_send c (setup_notify type data new_reply) w)"
| "run_api c (ApiError msgid data) w = bindE (get_conn c w) (\<lambda>_. stream_send c (setup_throw msgid (app_error data) new_reply) w)"
| "run_api c (ApiTask type data) w = bindE (get_conn c w) (\<lambda>_. on_sv c (sv_add_task type data) w)"
| "run_api c ApiClose w = set_status c CLOSE w"
| "run_api c ApiDefer w = defer_login c w"
| "run_api c (ApiPutCtx ud dtor) w = bindE (get_conn c w) (\<lambda>_. on_sv c (set_user_ctx ud dtor) w)"
| "run_api c (ApiPush e) w = bindE (get_conn c w) (\<lambda>_. Inr (w\<lparr>svevents := tq_enqueue e (svevents w)\<rparr>))"

fun run_apis :: "nat \<Rightarrow> api list \<Rightarrow> world \<Rightarrow> conn_fault + world" where
  "run_apis c [] w = Inr w"
| "run_apis c (a # as) w = bindE (run_api c a w) (run_apis c as)"

text \<open>
  The application: what its callbacks call and return. \<open>h_login\<close> returns the connection id (0 denies) and
  the text put into the slice, \<open>h_handle\<close> whether the status is OK.
\<close>

record handler =
  h_login :: "world \<Rightarrow> nat \<Rightarrow> request \<Rightarrow> api list \<times> u64 \<times> string"
  h_handle :: "world \<Rightarrow> nat \<Rightarrow> request \<Rightarrow> api list \<times> bool"
  h_close :: "world \<Rightarrow> nat \<Rightarrow> api list"

section \<open>A connection\<close>

definition conn_recv :: "nat \<Rightarrow> world \<Rightarrow> conn_fault + world" where
  "conn_recv c w = bindE (on_sv c sv_read w) (\<lambda>w1. Inr (add_pending OpRead (JConn c) w1))"

text \<open>\<open>Finish ()\<close>, not by a task.\<close>

definition conn_finish :: "nat \<Rightarrow> world \<Rightarrow> conn_fault + world" where
  "conn_finish c w =
     bindE (set_status c CLOSE w) (\<lambda>w1.
     bindE (on_sv c sv_finish w1) (\<lambda>w2. Inr (add_pending OpFinish (JConn c) w2)))"

text \<open>What \<open>Finish (true)\<close> does before it looks at the previous status: a \<open>StreamCloser\<close> holds the stream.\<close>

definition close_stream :: "nat \<Rightarrow> world \<Rightarrow> conn_fault + world" where
  "close_stream c w =
     bindE (set_status c CLOSE w) (\<lambda>w1.
     bindE (on_sv c (\<lambda>s. sv_finish (sv_ref s)) w1) (\<lambda>w2. Inr (add_pending OpFinish (JCloser c) w2)))"

definition delete_conn :: "nat \<Rightarrow> world \<Rightarrow> conn_fault + world" where
  "delete_conn c w = bindE (get_conn c w) (\<lambda>_. stream_unref c (w\<lparr>conns := (conns w)(c := None)\<rparr>))"

text \<open>\<open>Login ()\<close>: the id returned and the reply it sent, unless the login was deferred.\<close>

definition conn_login :: "codec \<Rightarrow> handler \<Rightarrow> nat \<Rightarrow> world \<Rightarrow> conn_fault + world \<times> u64" where
  "conn_login cd h c w =
     bindE (get_conn c w) (\<lambda>cn.
       let (cmds, cid, slice) = h_login h w c (conn_req cn); msgid = rq_msgid (conn_req cn) in
       bindE (run_apis c cmds w) (\<lambda>w1.
       bindE (get_conn c w1) (\<lambda>cn1.
         if wait_login_accept cn1 then Inr (w1, cid)
         else if cid \<noteq> 0 then
           bindE (stream_send c (setup_system_reply msgid (enc_connect cd \<lparr>cn_id = cid, cn_payload = slice\<rparr>) new_reply) w1)
             (\<lambda>w2. Inr (w2, cid))
         else
           bindE (stream_send c (setup_throw msgid (deny_error slice) new_reply) w1) (\<lambda>w2. Inr (w2, cid)))))"

text \<open>\<open>AcceptLogin (a)\<close>: false when the deferred login was denied.\<close>

definition accept_login :: "codec \<Rightarrow> nat \<Rightarrow> login_payload \<Rightarrow> world \<Rightarrow> conn_fault + world \<times> bool" where
  "accept_login cd c a w =
     (if lg_id a = 0 then
        bindE (stream_send c (setup_throw (lg_msgid a) (deny_error (lg_payload a)) new_reply) w) (\<lambda>w1. Inr (w1, False))
      else
        bindE (conn_register c (lg_id a) w) (\<lambda>w1.
        bindE (set_status c READ w1) (\<lambda>w2.
        bindE (conn_recv c w2) (\<lambda>w3.
        bindE (stream_send c (setup_system_reply (lg_msgid a)
            (enc_connect cd \<lparr>cn_id = lg_id a, cn_payload = lg_payload a\<rparr>) new_reply) w3) (\<lambda>w4. Inr (w4, True))))))"

text \<open>
  \<open>ConsumeTask\<close>, its loop, \<open>Finish (true)\<close> and \<open>Destroy\<close> call each other: each is written with the argument
  \<open>self\<close> for these calls, and \<open>conn_run\<close> ties the knot, with fuel, one unit a call. \<open>n\<close> is \<open>n_process\<close>,
  negative for "all"; a task's handler may itself add tasks.
\<close>

datatype conn_call = ConsumeTask int | ConsumeLoop int | FinishTask | Destroy

type_synonym conn_self = "conn_call \<Rightarrow> nat \<Rightarrow> world \<Rightarrow> conn_fault + world"

definition consume_task :: "conn_self \<Rightarrow> int \<Rightarrow> nat \<Rightarrow> world \<Rightarrow> conn_fault + world" where
  "consume_task self n c w =
     bindE (get_conn c w) (\<lambda>cn.
       if dying (workers w (conn_worker cn)) \<and> conn_status cn \<noteq> CLOSE then self FinishTask c w
       else self (ConsumeLoop n) c w)"

text \<open>One task. The result says whether the loop goes on (after a denied login the object is gone).\<close>

definition perform_task :: "codec \<Rightarrow> handler \<Rightarrow> conn_self \<Rightarrow> nat \<Rightarrow> request \<Rightarrow> world \<Rightarrow> conn_fault + world \<times> bool" where
  "perform_task cd h self c t w =
     (if rq_kind t = Normal then
        bindE (run_apis c (fst (h_handle h w c t)) w) (\<lambda>w1. Inr (w1, True))
      else if rq_kind t = Login then
        (case dec_login cd (rq_payload t) of
           Some a \<Rightarrow>
             bindE (accept_login cd c a w) (\<lambda>(w1, ok).
               if ok then Inr (w1, True) else bindE (self FinishTask c w1) (\<lambda>w2. Inr (w2, False)))
         | None \<Rightarrow> bindE (self FinishTask c w) (\<lambda>w1. Inr (w1, True)))
      else bindE (self FinishTask c w) (\<lambda>w1. Inr (w1, True)))"

definition consume_loop :: "codec \<Rightarrow> handler \<Rightarrow> conn_self \<Rightarrow> int \<Rightarrow> nat \<Rightarrow> world \<Rightarrow> conn_fault + world" where
  "consume_loop cd h self n c w =
     (if n = 0 then Inr w
      else
        bindE (get_conn c w) (\<lambda>cn. bindE (get_sv c w) (\<lambda>st.
          case tq_try_dequeue (sv_tasks st) of
            None \<Rightarrow> Inr w
          | Some (t, rest) \<Rightarrow>
              bindE (perform_task cd h self c t (w\<lparr>streams := (streams w)(c \<mapsto> st\<lparr>sv_tasks := rest\<rparr>)\<rparr>)) (\<lambda>(w1, go_on).
                if go_on then self (ConsumeLoop (n - 1)) c w1 else Inr w1))))"

definition finish_task :: "conn_self \<Rightarrow> nat \<Rightarrow> world \<Rightarrow> conn_fault + world" where
  "finish_task self c w =
     bindE (get_conn c w) (\<lambda>cn.
     bindE (close_stream c w) (\<lambda>w1.
       if conn_status cn = WAIT_LOGIN then self Destroy c w1 else Inr w1))"

definition destroy :: "handler \<Rightarrow> conn_self \<Rightarrow> nat \<Rightarrow> world \<Rightarrow> conn_fault + world" where
  "destroy h self c w =
     bindE (get_conn c w) (\<lambda>cn.
       if has_peer cn then
         bindE (self (ConsumeTask (-1)) c w) (\<lambda>w1.
         bindE (get_conn c w1) (\<lambda>_.
         bindE (run_apis c (h_close h w1 c) w1) (\<lambda>w2.
         bindE (conn_unregister c w2) (delete_conn c))))
       else delete_conn c w)"

primrec conn_run :: "nat \<Rightarrow> codec \<Rightarrow> handler \<Rightarrow> conn_self" where
  "conn_run 0 cd h call c w = Inl OutOfFuel"
| "conn_run (Suc k) cd h call c w =
     (case call of
        ConsumeTask n \<Rightarrow> consume_task (conn_run k cd h) n c w
      | ConsumeLoop n \<Rightarrow> consume_loop cd h (conn_run k cd h) n c w
      | FinishTask \<Rightarrow> finish_task (conn_run k cd h) c w
      | Destroy \<Rightarrow> destroy h (conn_run k cd h) c w)"

text \<open>\<open>Worker::New\<close>: a new \<open>Conn\<close>, its first step, and the wait for the next rpc.\<close>

definition worker_new :: "nat \<Rightarrow> world \<Rightarrow> world" where
  "worker_new wk w =
     (let c = next_addr w in
      add_pending OpAccept (JConn c)
        (w\<lparr>next_addr := c + 1, streams := (streams w)(c \<mapsto> sv_ref new_svstream),
           conns := (conns w)(c \<mapsto> \<lparr>conn_worker = wk, conn_status = ACCEPT, conn_req = new_request, conn_cid = 0, conn_lcid = 0\<rparr>)\<rparr>))"

definition step_login :: "codec \<Rightarrow> handler \<Rightarrow> nat \<Rightarrow> world \<Rightarrow> conn_fault + world" where
  "step_login cd h c w =
     bindE (get_conn c w) (\<lambda>cn.
       if rq_kind (conn_req cn) = Close then conn_finish c w
       else
         bindE (conn_login cd h c w) (\<lambda>(w1, cid).
         bindE (get_conn c w1) (\<lambda>cn1.
           if conn_status cn1 = CLOSE \<or> dying (workers w1 (conn_worker cn1)) then conn_finish c w1
           else if conn_status cn1 = WAIT_LOGIN then Inr w1
           else
             bindE (conn_register c cid w1) (\<lambda>w2.
             bindE (set_status c READ w2) (conn_recv c)))))"

definition step_read :: "handler \<Rightarrow> nat \<Rightarrow> world \<Rightarrow> conn_fault + world" where
  "step_read h c w =
     bindE (get_conn c w) (\<lambda>cn.
       if rq_kind (conn_req cn) = Close then conn_finish c w
       else
         let (cmds, ok) = h_handle h w c (conn_req cn) in
         bindE (run_apis c cmds w) (\<lambda>w1.
         bindE (get_conn c w1) (\<lambda>cn1.
           if ok \<and> conn_status cn1 \<noteq> CLOSE \<and> \<not> dying (workers w1 (conn_worker cn1)) then conn_recv c w1
           else conn_finish c w1)))"

definition conn_step :: "nat \<Rightarrow> codec \<Rightarrow> handler \<Rightarrow> nat \<Rightarrow> world \<Rightarrow> conn_fault + world" where
  "conn_step k cd h c w =
     bindE (get_conn c w) (\<lambda>cn.
       case conn_status cn of
         INIT \<Rightarrow> bindE (set_status c ACCEPT w) (\<lambda>w1. Inr (add_pending OpAccept (JConn c) w1))
       | ACCEPT \<Rightarrow> bindE (set_status c LOGIN (worker_new (conn_worker cn) w)) (conn_recv c)
       | LOGIN \<Rightarrow> step_login cd h c w
       | READ \<Rightarrow> step_read h c w
       | CLOSE \<Rightarrow> conn_run k cd h Destroy c w
       | WAIT_LOGIN \<Rightarrow> conn_finish c w
       | WRITE \<Rightarrow> conn_finish c w)"

section \<open>The worker\<close>

text \<open>
  \<open>Process (ok, tag)\<close> of the \<open>i\<close>-th started operation; a completed read has filled \<open>req_\<close> with \<open>msg\<close>. Both
  \<open>Step\<close> and \<open>Destroy\<close> of a \<open>StreamCloser\<close> delete it.
\<close>

definition process_job :: "nat \<Rightarrow> codec \<Rightarrow> handler \<Rightarrow> rpc_op \<Rightarrow> job \<Rightarrow> bool \<Rightarrow> request \<Rightarrow> world \<Rightarrow> conn_fault + world" where
  "process_job k cd h op j ok msg w =
     (case j of
        JConn c \<Rightarrow>
          bindE (if op = OpRead \<and> ok then set_conn c (\<lambda>cn. cn\<lparr>conn_req := msg\<rparr>) w else Inr w) (\<lambda>w1.
            if ok then conn_step k cd h c w1 else conn_run k cd h Destroy c w1)
      | JStream s \<Rightarrow> if ok then stream_step s w else stream_unref s w
      | JCloser s \<Rightarrow> stream_unref s w)"

definition worker_complete :: "nat \<Rightarrow> codec \<Rightarrow> handler \<Rightarrow> nat \<Rightarrow> bool \<Rightarrow> request \<Rightarrow> world \<Rightarrow> conn_fault + world" where
  "worker_complete k cd h i ok msg w =
     (if i < length (pending w) then
        (case pending w ! i of
           (op, j) \<Rightarrow> process_job k cd h op j ok msg (w\<lparr>pending := take i (pending w) @ drop (Suc i) (pending w)\<rparr>))
      else Inl NoSuchEvent)"

text \<open>The loop over \<open>connections_\<close> after each event; the vector may change under it.\<close>

fun tick_loop :: "nat \<Rightarrow> codec \<Rightarrow> handler \<Rightarrow> nat \<Rightarrow> nat \<Rightarrow> world \<Rightarrow> conn_fault + world" where
  "tick_loop 0 cd h i wk w = Inl OutOfFuel"
| "tick_loop (Suc k) cd h i wk w =
     (if i < length (connections (workers w wk)) then
        bindE (conn_run k cd h (ConsumeTask 3) (connections (workers w wk) ! i) w) (tick_loop k cd h (Suc i) wk)
      else Inr w)"

text \<open>The loop of the case \<open>SHUTDOWN\<close>.\<close>

fun shutdown_loop :: "nat \<Rightarrow> codec \<Rightarrow> handler \<Rightarrow> nat \<Rightarrow> nat \<Rightarrow> world \<Rightarrow> conn_fault + world" where
  "shutdown_loop 0 cd h i wk w = Inl OutOfFuel"
| "shutdown_loop (Suc k) cd h i wk w =
     (if i < length (connections (workers w wk)) then
        bindE (conn_run k cd h Destroy (connections (workers w wk) ! i) w) (shutdown_loop k cd h (Suc i) wk)
      else Inr w)"

definition prepare_shutdown :: "nat \<Rightarrow> world \<Rightarrow> world" where
  "prepare_shutdown wk w = w\<lparr>workers := (workers w)(wk := (workers w wk)\<lparr>dying := True\<rparr>)\<rparr>"

section \<open>Deferred logins and look-ups by id\<close>

definition finish_login :: "codec \<Rightarrow> u64 \<Rightarrow> u64 \<Rightarrow> u32 \<Rightarrow> string \<Rightarrow> world \<Rightarrow> conn_fault + world" where
  "finish_login cd lcid cid msgid data w =
     (case map_find (pmap w) lcid of
        None \<Rightarrow> Inr w
      | Some c \<Rightarrow>
          let w1 = w\<lparr>pmap := map_erase lcid (pmap w)\<rparr> in
          bindE (get_conn c w1) (\<lambda>_. on_sv c (sv_sys_task Login
            (enc_login cd \<lparr>lg_login_cid = lcid, lg_id = cid, lg_msgid = msgid, lg_payload = data\<rparr>)) w1))"

definition find_deferred :: "u64 \<Rightarrow> world \<Rightarrow> nat option" where
  "find_deferred lcid w = map_find (pmap w) lcid"

text \<open>
  \<open>Conn::Get\<close> reads \<open>stream_\<close> through the pointer found; the \<open>Stream\<close> it returns holds a reference until the
  end of the caller's scope.
\<close>

definition with_cid :: "u64 \<Rightarrow> (nat \<Rightarrow> world \<Rightarrow> conn_fault + world) \<Rightarrow> world \<Rightarrow> conn_fault + world" where
  "with_cid cid op w =
     (case map_find (cmap w) cid of
        None \<Rightarrow> Inr w
      | Some c \<Rightarrow>
          bindE (get_conn c w) (\<lambda>_.
          bindE (on_sv c sv_ref w) (\<lambda>w1.
          bindE (op c w1) (stream_unref c))))"

definition cid_send :: "u64 \<Rightarrow> u32 \<Rightarrow> string \<Rightarrow> world \<Rightarrow> conn_fault + world" where
  "cid_send cid msgid data = with_cid cid (\<lambda>s. stream_send s (setup_reply msgid data new_reply))"

definition cid_notify :: "u64 \<Rightarrow> u32 \<Rightarrow> string \<Rightarrow> world \<Rightarrow> conn_fault + world" where
  "cid_notify cid type data = with_cid cid (\<lambda>s. stream_send s (setup_notify type data new_reply))"

definition cid_error :: "u64 \<Rightarrow> u32 \<Rightarrow> string \<Rightarrow> world \<Rightarrow> conn_fault + world" where
  "cid_error cid msgid data = with_cid cid (\<lambda>s. stream_send s (setup_throw msgid (app_error data) new_reply))"

definition cid_task :: "u64 \<Rightarrow> u32 \<Rightarrow> string \<Rightarrow> world \<Rightarrow> conn_fault + world" where
  "cid_task cid type data = with_cid cid (\<lambda>s. on_sv s (sv_add_task type data))"

definition cid_close :: "u64 \<Rightarrow> world \<Rightarrow> conn_fault + world" where
  "cid_close cid = with_cid cid (\<lambda>s. on_sv s sv_close)"

definition cid_getctx :: "u64 \<Rightarrow> world \<Rightarrow> conn_fault + nat option" where
  "cid_getctx cid w =
     (case map_find (cmap w) cid of
        None \<Rightarrow> Inr None
      | Some c \<Rightarrow> bindE (get_conn c w) (\<lambda>_. bindE (get_sv c w) (\<lambda>st. Inr (user_ctx st))))"

end
