(* ===== verification/Server_Safety.thy ===== *)
theory Server_Safety
  imports Server_World
begin

text \<open>
  Memory safety of the server side. The invariant \<open>winv\<close> says which started operations refer to which
  object, what the reference counts count, and what the registries point to; every event keeps it and
  none uses a deleted object, as long as the application keeps to its side (\<open>polite\<close>) and no worker is
  being shut down. What happens otherwise is the subject of theory \<open>Server_Behaviour\<close>.
\<close>

section \<open>Results that are safe\<close>

text \<open>Either the fuel was not enough, or there is a result with the given property.\<close>

definition safe :: "conn_fault + 'a \<Rightarrow> ('a \<Rightarrow> bool) \<Rightarrow> bool" where
  "safe m P \<longleftrightarrow> (case m of Inl e \<Rightarrow> e = OutOfFuel | Inr x \<Rightarrow> P x)"

lemma safe_Inr [simp]: "safe (Inr x) P = P x"
  by (simp add: safe_def)

lemma safe_fuel [simp]: "safe (Inl OutOfFuel) P"
  by (simp add: safe_def)

lemma safe_bind: "safe m Q \<Longrightarrow> (\<And>x. Q x \<Longrightarrow> safe (k x) P) \<Longrightarrow> safe (bindE m k) P"
  by (cases m) (auto simp: safe_def)

lemma safe_mono: "safe m Q \<Longrightarrow> (\<And>x. Q x \<Longrightarrow> P x) \<Longrightarrow> safe m P"
  by (cases m) (auto simp: safe_def)

section \<open>The invariant\<close>

definition conn_jobs :: "nat \<Rightarrow> (rpc_op \<times> job) list \<Rightarrow> nat" where
  "conn_jobs c ps = length (filter (\<lambda>p. snd p = JConn c) ps)"

definition write_jobs :: "nat \<Rightarrow> (rpc_op \<times> job) list \<Rightarrow> nat" where
  "write_jobs s ps = length (filter (\<lambda>p. snd p = JStream s) ps)"

definition closer_jobs :: "nat \<Rightarrow> (rpc_op \<times> job) list \<Rightarrow> nat" where
  "closer_jobs s ps = length (filter (\<lambda>p. snd p = JCloser s) ps)"

lemma jobs_append [simp]:
  "conn_jobs c (ps @ qs) = conn_jobs c ps + conn_jobs c qs"
  "write_jobs c (ps @ qs) = write_jobs c ps + write_jobs c qs"
  "closer_jobs c (ps @ qs) = closer_jobs c ps + closer_jobs c qs"
  by (simp_all add: conn_jobs_def write_jobs_def closer_jobs_def)

lemma jobs_list [simp]:
  "conn_jobs c [] = 0" "write_jobs c [] = 0" "closer_jobs c [] = 0"
  "conn_jobs c ((op, j) # ps) = (if j = JConn c then 1 else 0) + conn_jobs c ps"
  "write_jobs c ((op, j) # ps) = (if j = JStream c then 1 else 0) + write_jobs c ps"
  "closer_jobs c ((op, j) # ps) = (if j = JCloser c then 1 else 0) + closer_jobs c ps"
  by (simp_all add: conn_jobs_def write_jobs_def closer_jobs_def)

text \<open>
  How many operations with its own tag a \<open>Conn\<close> may have: one while it waits for a client or for a
  message, none while it waits for a deferred login. \<open>idle\<close> names the \<open>Conn\<close> whose operation has just
  been completed and is being processed.
\<close>

definition ops_ok :: "stream_status \<Rightarrow> nat \<Rightarrow> bool" where
  "ops_ok st n \<longleftrightarrow> (case st of WAIT_LOGIN \<Rightarrow> n = 0 | CLOSE \<Rightarrow> n \<le> 1 | INIT \<Rightarrow> False | WRITE \<Rightarrow> False | _ \<Rightarrow> n = 1)"

definition idle_ok :: "stream_status \<Rightarrow> bool" where
  "idle_ok st \<longleftrightarrow> st \<in> {ACCEPT, LOGIN, READ, CLOSE}"

definition ops_at :: "bool \<Rightarrow> conn option \<Rightarrow> nat \<Rightarrow> bool" where
  "ops_at idle co n \<longleftrightarrow>
     (case co of
        None \<Rightarrow> n = 0
      | Some cn \<Rightarrow> if idle then n = 0 \<and> idle_ok (conn_status cn) else ops_ok (conn_status cn) n)"

definition ops_inv :: "nat option \<Rightarrow> (nat \<rightharpoonup> conn) \<Rightarrow> (rpc_op \<times> job) list \<Rightarrow> bool" where
  "ops_inv idle cs ps \<longleftrightarrow> (\<forall>c. ops_at (idle = Some c) (cs c) (conn_jobs c ps))"

text \<open>
  The count of a stream: its \<open>Conn\<close>, the write in progress, the closers, and \<open>held s\<close> handles.
\<close>

definition refs_ok :: "nat \<Rightarrow> bool \<Rightarrow> svstream \<Rightarrow> nat \<Rightarrow> nat \<Rightarrow> bool" where
  "refs_ok held live st nw nc \<longleftrightarrow>
     refc st = int (held + (if live then 1 else 0) + nw + nc) \<and> 0 < held + (if live then 1 else 0) + nw + nc \<and>
     nw \<le> 1 \<and> (\<not> is_sending st \<longrightarrow> nw = 0)"

definition refs_at :: "nat \<Rightarrow> bool \<Rightarrow> svstream option \<Rightarrow> nat \<Rightarrow> nat \<Rightarrow> bool \<Rightarrow> bool" where
  "refs_at held live so nw nc low \<longleftrightarrow>
     (case so of
        None \<Rightarrow> \<not> live \<and> nw = 0 \<and> nc = 0 \<and> held = 0
      | Some st \<Rightarrow> low \<and> refs_ok held live st nw nc)"

definition refs_inv :: "(nat \<Rightarrow> nat) \<Rightarrow> (nat \<rightharpoonup> conn) \<Rightarrow> (nat \<rightharpoonup> svstream) \<Rightarrow> (rpc_op \<times> job) list \<Rightarrow> nat \<Rightarrow> bool" where
  "refs_inv held cs ss ps na \<longleftrightarrow>
     (\<forall>s. refs_at (held s) (cs s \<noteq> None) (ss s) (write_jobs s ps) (closer_jobs s ps) (s < na))"

lemma refs_inv_stream:
  "refs_inv held cs ss ps na \<Longrightarrow> ss s = Some st \<Longrightarrow>
   s < na \<and> refs_ok (held s) (cs s \<noteq> None) st (write_jobs s ps) (closer_jobs s ps)"
  unfolding refs_inv_def by (drule spec [of _ s]) (simp add: refs_at_def)

lemma refs_inv_live: "refs_inv held cs ss ps na \<Longrightarrow> cs s \<noteq> None \<Longrightarrow> ss s \<noteq> None"
  unfolding refs_inv_def by (drule spec [of _ s]) (auto simp: refs_at_def split: option.splits)

definition cmap_inv :: "(nat \<rightharpoonup> conn) \<Rightarrow> (u64 \<rightharpoonup> nat) \<Rightarrow> bool" where
  "cmap_inv cs m \<longleftrightarrow>
     (\<forall>k c. m k = Some c \<longrightarrow> (\<exists>cn. cs c = Some cn \<and> conn_cid cn = k \<and> conn_status cn \<in> {READ, CLOSE}))"

text \<open>
  The tasks of a stream: an answer to a deferred login is there only while its \<open>Conn\<close> waits for it, at
  most once, and only when the login id was taken out of \<open>pmap_\<close>; a \<open>Close\<close> only once the login is done.
\<close>

definition tasks_ok :: "codec \<Rightarrow> stream_status \<Rightarrow> bool \<Rightarrow> request list \<Rightarrow> bool" where
  "tasks_ok cd st waiting ts \<longleftrightarrow>
     (\<forall>t \<in> set ts. rq_kind t \<in> {Normal, Login, Close}) \<and>
     (\<forall>t \<in> set ts. rq_kind t = Login \<longrightarrow> dec_login cd (rq_payload t) \<noteq> None) \<and>
     (st \<in> {ACCEPT, LOGIN, WAIT_LOGIN} \<longrightarrow> (\<forall>t \<in> set ts. rq_kind t \<noteq> Close)) \<and>
     (if st = WAIT_LOGIN then length (filter (\<lambda>t. rq_kind t = Login) ts) \<le> (if waiting then 0 else 1)
      else (\<forall>t \<in> set ts. rq_kind t \<noteq> Login))"

definition login_inv :: "codec \<Rightarrow> (nat \<rightharpoonup> conn) \<Rightarrow> (nat \<rightharpoonup> svstream) \<Rightarrow> (u64 \<rightharpoonup> nat) \<Rightarrow> bool" where
  "login_inv cd cs ss pm \<longleftrightarrow>
     (\<forall>l c. pm l = Some c \<longrightarrow> (\<exists>cn. cs c = Some cn \<and> conn_lcid cn = l \<and> conn_status cn = WAIT_LOGIN)) \<and>
     (\<forall>c cn st. cs c = Some cn \<longrightarrow> ss c = Some st \<longrightarrow>
        tasks_ok cd (conn_status cn) (pm (conn_lcid cn) = Some c) (sv_tasks st) \<and>
        (conn_status cn = WAIT_LOGIN \<longrightarrow> conn_lcid cn \<noteq> 0))"

definition work_inv :: "(nat \<rightharpoonup> conn) \<Rightarrow> (nat \<Rightarrow> worker) \<Rightarrow> bool" where
  "work_inv cs wks \<longleftrightarrow>
     (\<forall>k. distinct (connections (wks k)) \<and> \<not> dying (wks k) \<and>
       (\<forall>c \<in> set (connections (wks k)). \<exists>cn. cs c = Some cn \<and> conn_worker cn = k \<and>
          conn_status cn \<in> {WAIT_LOGIN, READ, CLOSE}))"

definition winv :: "codec \<Rightarrow> nat option \<Rightarrow> (nat \<Rightarrow> nat) \<Rightarrow> world \<Rightarrow> bool" where
  "winv cd idle held w \<longleftrightarrow>
     ops_inv idle (conns w) (pending w) \<and>
     refs_inv held (conns w) (streams w) (pending w) (next_addr w) \<and>
     cmap_inv (conns w) (cmap w) \<and>
     login_inv cd (conns w) (streams w) (pmap w) \<and>
     work_inv (conns w) (workers w)"

lemmas winv_parts = winv_def ops_inv_def refs_inv_def cmap_inv_def login_inv_def work_inv_def

lemma winv_stream:
  assumes "winv cd i held w" and "conns w c = Some cn"
  obtains st where "streams w c = Some st" and "refs_ok (held c) True st (write_jobs c (pending w)) (closer_jobs c (pending w))"
    and "tasks_ok cd (conn_status cn) (pmap w (conn_lcid cn) = Some c) (sv_tasks st)" and "c < next_addr w"
proof -
  have r: "refs_inv held (conns w) (streams w) (pending w) (next_addr w)" and l: "login_inv cd (conns w) (streams w) (pmap w)"
    using assms(1) by (auto simp: winv_def)
  obtain st where st: "streams w c = Some st" using refs_inv_live [OF r, of c] assms(2) by auto
  with refs_inv_stream [OF r st] l assms(2) that show ?thesis by (auto simp: login_inv_def)
qed

text \<open>How each part behaves when one object changes.\<close>

lemma ops_inv_upd:
  assumes "ops_inv i cs ps" and "\<And>d. d \<noteq> c \<Longrightarrow> conn_jobs d ps' = conn_jobs d ps"
    and "ops_at (i' = Some c) co (conn_jobs c ps')"
    and "\<And>d. d \<noteq> c \<Longrightarrow> i' = Some d \<longleftrightarrow> i = Some d"
  shows "ops_inv i' (cs(c := co)) ps'"
  unfolding ops_inv_def
proof
  fix d
  show "ops_at (i' = Some d) ((cs(c := co)) d) (conn_jobs d ps')"
    using assms by (cases "d = c") (simp_all add: ops_inv_def)
qed

lemma ops_inv_same_conn:
  assumes "ops_inv i cs ps" and "\<And>d. conn_jobs d ps' = conn_jobs d ps"
  shows "ops_inv i cs ps'"
  using assms by (simp add: ops_inv_def)

lemma refs_inv_upd:
  assumes "refs_inv held cs ss ps na" and "refs_at (held' s) (cs' s \<noteq> None) so (write_jobs s ps') (closer_jobs s ps') (s < na')"
    and "\<And>d. d \<noteq> s \<Longrightarrow> write_jobs d ps' = write_jobs d ps \<and> closer_jobs d ps' = closer_jobs d ps \<and> held' d = held d \<and>
      cs' d = cs d" and "na \<le> na'"
  shows "refs_inv held' cs' (ss(s := so)) ps' na'"
  unfolding refs_inv_def
proof
  fix d
  have "refs_at (held d) (cs d \<noteq> None) (ss d) (write_jobs d ps) (closer_jobs d ps) (d < na)"
    using assms(1) by (simp add: refs_inv_def)
  then show "refs_at (held' d) (cs' d \<noteq> None) ((ss(s := so)) d) (write_jobs d ps') (closer_jobs d ps') (d < na')"
    using assms(2,3,4) by (cases "d = s") (auto simp: refs_at_def split: option.splits)
qed

lemma refs_inv_same_stream:
  assumes "refs_inv held cs ss ps na" and "\<And>d. write_jobs d ps' = write_jobs d ps \<and> closer_jobs d ps' = closer_jobs d ps"
    and "\<And>d. (cs' d = None) = (cs d = None)"
  shows "refs_inv held cs' ss ps' na"
  using assms by (simp add: refs_inv_def)

lemma cmap_inv_upd:
  assumes "cmap_inv cs m" and "cs c = Some cn" and "conn_cid cn' = conn_cid cn"
    and "conn_status cn' \<in> {READ, CLOSE} \<or> conn_status cn \<notin> {READ, CLOSE}"
  shows "cmap_inv (cs(c \<mapsto> cn')) m"
  using assms unfolding cmap_inv_def by (metis fun_upd_apply option.inject)

definition status_change :: "stream_status \<Rightarrow> stream_status \<Rightarrow> bool" where
  "status_change st st' \<longleftrightarrow> st' = st \<or>
     (st \<noteq> WAIT_LOGIN \<and> st' \<noteq> WAIT_LOGIN \<and> (st' \<in> {ACCEPT, LOGIN} \<longrightarrow> st \<in> {ACCEPT, LOGIN}))"

lemma tasks_ok_other: "status_change st st' \<Longrightarrow> st' \<noteq> st \<Longrightarrow> tasks_ok cd st wt ts \<Longrightarrow> tasks_ok cd st' wt' ts"
  by (auto simp: tasks_ok_def status_change_def)

lemma login_inv_upd_conn:
  assumes "login_inv cd cs ss pm" and "cs c = Some cn" and "conn_lcid cn' = conn_lcid cn"
    and "status_change (conn_status cn) (conn_status cn')"
  shows "login_inv cd (cs(c \<mapsto> cn')) ss pm"
proof -
  have p: "\<exists>cn. (cs(c \<mapsto> cn')) d = Some cn \<and> conn_lcid cn = l \<and> conn_status cn = WAIT_LOGIN" if "pm l = Some d" for l d
    using assms that unfolding login_inv_def status_change_def by (metis fun_upd_apply option.inject)
  have t: "tasks_ok cd (conn_status dn) (pm (conn_lcid dn) = Some d) (sv_tasks st) \<and> (conn_status dn = WAIT_LOGIN \<longrightarrow> conn_lcid dn \<noteq> 0)"
    if "(cs(c \<mapsto> cn')) d = Some dn" "ss d = Some st" for d dn st
  proof (cases "d = c")
    case True
    with that assms have "tasks_ok cd (conn_status cn) (pm (conn_lcid cn) = Some c) (sv_tasks st) \<and> (conn_status cn = WAIT_LOGIN \<longrightarrow> conn_lcid cn \<noteq> 0)"
      by (auto simp: login_inv_def)
    with True that assms(3,4) tasks_ok_other [OF assms(4)] show ?thesis
      by (cases "conn_status cn' = conn_status cn") (auto simp: status_change_def)
  next
    case False
    with that assms(1) show ?thesis by (auto simp: login_inv_def)
  qed
  from p t show ?thesis by (auto simp: login_inv_def)
qed

lemma work_inv_upd:
  assumes "work_inv cs wks" and "cs c = Some cn" and "conn_worker cn' = conn_worker cn"
    and "conn_status cn' \<in> {WAIT_LOGIN, READ, CLOSE} \<or> conn_status cn \<notin> {WAIT_LOGIN, READ, CLOSE}"
  shows "work_inv (cs(c \<mapsto> cn')) wks"
  using assms unfolding work_inv_def by (metis fun_upd_apply option.inject)

section \<open>Operations on streams\<close>

text \<open>An operation of the application on a stream with a live \<open>Conn\<close> leaves all but that stream alone.\<close>

definition only_stream :: "nat \<Rightarrow> world \<Rightarrow> world \<Rightarrow> bool" where
  "only_stream c w w' \<longleftrightarrow> conns w' = conns w \<and> cmap w' = cmap w \<and> pmap w' = pmap w \<and> workers w' = workers w \<and>
     cid_seed w' = cid_seed w \<and> next_addr w' = next_addr w"

text \<open>A stream replaced, possibly with operations on it started.\<close>

lemma winv_stream_upd:
  assumes inv: "winv cd i held w" and st: "streams w c = Some st"
    and pend: "pending w' = pending w @ ps" "\<And>d. conn_jobs d ps = 0"
      "\<And>d. d \<noteq> c \<Longrightarrow> write_jobs d ps = 0 \<and> closer_jobs d ps = 0 \<and> held' d = held d"
    and w': "streams w' = (streams w)(c := so)" "only_stream c w w'"
    and refs: "refs_ok (held c) (conns w c \<noteq> None) st (write_jobs c (pending w)) (closer_jobs c (pending w)) \<Longrightarrow>
      refs_at (held' c) (conns w c \<noteq> None) so (write_jobs c (pending w) + write_jobs c ps) (closer_jobs c (pending w) + closer_jobs c ps) True"
    and tasks: "\<And>cn st'. conns w c = Some cn \<Longrightarrow> so = Some st' \<Longrightarrow>
      tasks_ok cd (conn_status cn) (pmap w (conn_lcid cn) = Some c) (sv_tasks st) \<Longrightarrow>
      tasks_ok cd (conn_status cn) (pmap w (conn_lcid cn) = Some c) (sv_tasks st')"
  shows "winv cd i held' w'"
proof -
  have r: "refs_inv held (conns w) (streams w) (pending w) (next_addr w)" using inv by (simp add: winv_def)
  have "c < next_addr w" using refs_inv_stream [OF r st] by simp
  then have "refs_inv held' (conns w) ((streams w)(c := so)) (pending w @ ps) (next_addr w)"
    using refs_inv_stream [OF r st] refs pend by (intro refs_inv_upd [OF r]) auto
  moreover have "login_inv cd (conns w) ((streams w)(c := so)) (pmap w)"
    using inv st tasks by (auto simp: winv_def login_inv_def)
  moreover have "ops_inv i (conns w) (pending w @ ps)"
    using inv pend(2) by (auto simp: winv_def intro: ops_inv_same_conn)
  ultimately show ?thesis using inv w' pend(1) by (simp add: winv_def only_stream_def)
qed

lemma send_safe:
  assumes inv: "winv cd i held w" and st: "streams w c = Some st"
  shows "safe (stream_send c r w) (\<lambda>w'. winv cd i held w' \<and> only_stream c w w' \<and> streams w' c \<noteq> None)"
proof (cases "is_sending st")
  case True
  have "winv cd i held (w\<lparr>streams := (streams w)(c \<mapsto> sv_send r st)\<rparr>)"
    by (rule winv_stream_upd [OF inv st, where ps = "[]"])
      (use True in \<open>auto simp: only_stream_def sv_send_def refs_at_def refs_ok_def\<close>)
  with st True show ?thesis by (simp add: stream_send_def on_sv_def get_sv_def only_stream_def)
next
  case False
  have "winv cd i held (add_pending (OpWrite r) (JStream c) (w\<lparr>streams := (streams w)(c \<mapsto> sv_send r st)\<rparr>))"
    by (rule winv_stream_upd [OF inv st, where ps = "[(OpWrite r, JStream c)]"])
      (use False in \<open>auto simp: only_stream_def add_pending_def sv_send_def io_write_def sv_ref_def refs_at_def refs_ok_def\<close>)
  with st False show ?thesis by (simp add: stream_send_def on_sv_def get_sv_def only_stream_def add_pending_def)
qed

lemma on_sv_safe:
  assumes inv: "winv cd i held w" and st: "streams w c = Some st"
    and f: "refc (f st) = refc st" "is_sending (f st) = is_sending st"
    and tasks: "\<And>cn. conns w c = Some cn \<Longrightarrow> tasks_ok cd (conn_status cn) (pmap w (conn_lcid cn) = Some c) (sv_tasks st) \<Longrightarrow>
      tasks_ok cd (conn_status cn) (pmap w (conn_lcid cn) = Some c) (sv_tasks (f st))"
  shows "safe (on_sv c f w) (\<lambda>w'. winv cd i held w' \<and> only_stream c w w' \<and> streams w' c \<noteq> None)"
proof -
  have "winv cd i held (w\<lparr>streams := (streams w)(c \<mapsto> f st)\<rparr>)"
    by (rule winv_stream_upd [OF inv st, where ps = "[]"])
      (use f tasks in \<open>auto simp: only_stream_def refs_at_def refs_ok_def\<close>)
  with st show ?thesis by (simp add: on_sv_def get_sv_def only_stream_def)
qed

lemma tasks_ok_normal: "tasks_ok cd s wt ts \<Longrightarrow> rq_kind t = Normal \<Longrightarrow> tasks_ok cd s wt (ts @ [t])"
  by (auto simp: tasks_ok_def)

lemma unref_safe:
  assumes inv: "winv cd i (held(c := Suc (held c))) w" and st: "streams w c = Some st"
  shows "safe (stream_unref c w) (\<lambda>w'. winv cd i held w' \<and> only_stream c w w')"
proof (cases "sv_unref st")
  case None
  have "winv cd i held (stream_gone c st None w)"
    by (rule winv_stream_upd [OF inv st, where ps = "[]" and so = None])
      (use None in \<open>auto simp: only_stream_def stream_gone_def sv_unref_def refs_at_def refs_ok_def Let_def split: if_splits\<close>)
  with st None show ?thesis by (simp add: stream_unref_def get_sv_def only_stream_def) (simp add: stream_gone_def)
next
  case (Some st')
  have "winv cd i held (stream_gone c st (Some st') w)"
    by (rule winv_stream_upd [OF inv st, where ps = "[]" and so = "Some st'"])
      (use Some in \<open>auto simp: only_stream_def stream_gone_def sv_unref_def refs_at_def refs_ok_def Let_def split: if_splits\<close>)
  with st Some show ?thesis by (simp add: stream_unref_def get_sv_def only_stream_def) (simp add: stream_gone_def)
qed

section \<open>Operations on connections\<close>

lemma ops_inv_at: "winv cd i held w \<Longrightarrow> ops_at (i = Some c) (conns w c) (conn_jobs c (pending w))"
  by (simp add: winv_def ops_inv_def)

text \<open>A \<open>Conn\<close> replaced, its ids and worker kept, possibly with operations of its own started.\<close>

lemma winv_conn_upd:
  assumes inv: "winv cd i held w" and c: "conns w c = Some cn"
    and cn': "conn_cid cn' = conn_cid cn" "conn_lcid cn' = conn_lcid cn" "conn_worker cn' = conn_worker cn"
    and st: "status_change (conn_status cn) (conn_status cn')"
    and ops: "ops_at (i' = Some c) (Some cn') (conn_jobs c (pending w) + conn_jobs c ps)"
      "\<And>d. d \<noteq> c \<Longrightarrow> conn_jobs d ps = 0 \<and> (i' = Some d \<longleftrightarrow> i = Some d)" "\<And>d. write_jobs d ps = 0 \<and> closer_jobs d ps = 0"
  shows "winv cd i' held (w\<lparr>conns := (conns w)(c \<mapsto> cn'), pending := pending w @ ps\<rparr>)"
proof -
  have opsi: "ops_inv i' ((conns w)(c \<mapsto> cn')) (pending w @ ps)"
    using inv ops by (intro ops_inv_upd [where i = i and ps = "pending w"]) (auto simp: winv_def)
  have refsi: "refs_inv held ((conns w)(c \<mapsto> cn')) (streams w) (pending w @ ps) (next_addr w)"
  proof (rule refs_inv_same_stream)
    show "refs_inv held (conns w) (streams w) (pending w) (next_addr w)" using inv by (simp add: winv_def)
    show "write_jobs d (pending w @ ps) = write_jobs d (pending w) \<and> closer_jobs d (pending w @ ps) = closer_jobs d (pending w)" for d
      using ops(3) [of d] by simp
    show "(((conns w)(c \<mapsto> cn')) d = None) = (conns w d = None)" for d using c by simp
  qed
  have "idle_ok (conn_status cn) \<or> ops_ok (conn_status cn) (conn_jobs c (pending w))"
    using ops_inv_at [OF inv, of c] c by (auto simp: ops_at_def split: if_splits)
  then have "conn_status cn \<notin> {INIT, WRITE}" by (auto simp: idle_ok_def ops_ok_def)
  moreover have "conn_status cn' \<notin> {INIT, WRITE}"
    using ops(1) by (auto simp: ops_at_def idle_ok_def ops_ok_def split: if_splits)
  ultimately have moved: "conn_status cn' \<in> {READ, CLOSE} \<or> conn_status cn \<notin> {READ, CLOSE}"
    "conn_status cn' \<in> {WAIT_LOGIN, READ, CLOSE} \<or> conn_status cn \<notin> {WAIT_LOGIN, READ, CLOSE}"
    using st by (cases "conn_status cn"; cases "conn_status cn'"; simp add: status_change_def)+
  have parts: "cmap_inv (conns w) (cmap w)" "login_inv cd (conns w) (streams w) (pmap w)" "work_inv (conns w) (workers w)"
    using inv by (simp_all add: winv_def)
  show ?thesis
    using opsi refsi cmap_inv_upd [OF parts(1) c cn'(1) moved(1)] login_inv_upd_conn [OF parts(2) c cn'(2) st]
      work_inv_upd [OF parts(3) c cn'(3) moved(2)] by (simp add: winv_def)
qed

text \<open>What the callbacks of a connection may change of it, apart from deferring its login.\<close>

definition maybe_closed :: "conn \<Rightarrow> conn \<Rightarrow> bool" where
  "maybe_closed cn cn' \<longleftrightarrow> cn' = cn \<or> cn' = cn\<lparr>conn_status := CLOSE\<rparr>"

lemma set_close_safe:
  assumes inv: "winv cd i held w" and c: "conns w c = Some cn" and st: "conn_status cn \<noteq> WAIT_LOGIN"
  shows "safe (set_status c CLOSE w) (\<lambda>w'. winv cd i held w' \<and> conns w' c = Some (cn\<lparr>conn_status := CLOSE\<rparr>) \<and>
    streams w' = streams w \<and> cid_seed w' = cid_seed w)"
proof -
  have "ops_at (i = Some c) (Some cn) (conn_jobs c (pending w))"
    using ops_inv_at [OF inv, of c] c by simp
  then have "ops_at (i = Some c) (Some (cn\<lparr>conn_status := CLOSE\<rparr>)) (conn_jobs c (pending w) + conn_jobs c [])"
    using st by (auto simp: ops_at_def idle_ok_def ops_ok_def split: if_splits stream_status.splits)
  from winv_conn_upd [OF inv c _ _ _ _ this] st
  have "winv cd i held (w\<lparr>conns := (conns w)(c \<mapsto> cn\<lparr>conn_status := CLOSE\<rparr>)\<rparr>)"
    by (simp add: status_change_def)
  then show ?thesis using c by (simp add: set_status_def set_conn_def get_conn_def)
qed

lemma only_stream_conn: "only_stream c w w' \<Longrightarrow> conns w' = conns w \<and> cid_seed w' = cid_seed w"
  by (simp add: only_stream_def)

lemma run_api_safe:
  assumes inv: "winv cd i held w" and c: "conns w c = Some cn" and a: "a \<noteq> ApiDefer" "a = ApiClose \<longrightarrow> conn_status cn \<noteq> WAIT_LOGIN"
  shows "safe (run_api c a w) (\<lambda>w'. winv cd i held w' \<and> (\<exists>cn'. conns w' c = Some cn' \<and> maybe_closed cn cn' \<and>
    (a \<noteq> ApiClose \<longrightarrow> cn' = cn)) \<and> cid_seed w' = cid_seed w)"
proof -
  obtain st where st: "streams w c = Some st" using winv_stream [OF inv c] by blast
  have get: "get_conn c w = Inr cn" using c by (simp add: get_conn_def)
  note send = safe_mono [OF send_safe [OF inv st]]
  show ?thesis
  proof (cases a)
    case ApiClose
    with set_close_safe [OF inv c] a show ?thesis
      by (auto simp: maybe_closed_def elim!: safe_mono)
  next
    case (ApiTask ty data)
    have "safe (on_sv c (sv_add_task ty data) w) (\<lambda>w'. winv cd i held w' \<and> only_stream c w w' \<and> streams w' c \<noteq> None)"
      by (rule on_sv_safe [OF inv st])
        (auto simp: sv_add_task_def tq_enqueue_def setup_request_def new_request_def intro!: tasks_ok_normal)
    with ApiTask get c show ?thesis
      by (auto simp: maybe_closed_def dest: only_stream_conn elim!: safe_mono)
  next
    case (ApiPutCtx ud dtor)
    have "safe (on_sv c (set_user_ctx ud dtor) w) (\<lambda>w'. winv cd i held w' \<and> only_stream c w w' \<and> streams w' c \<noteq> None)"
      by (rule on_sv_safe [OF inv st]) (auto simp: set_user_ctx_def)
    with ApiPutCtx get c show ?thesis
      by (auto simp: maybe_closed_def dest: only_stream_conn elim!: safe_mono)
  next
    case (ApiPush e)
    have "winv cd i held (w\<lparr>svevents := tq_enqueue e (svevents w)\<rparr>)" using inv by (simp add: winv_def)
    with ApiPush get c show ?thesis by (simp add: maybe_closed_def)
  qed (use a get c in \<open>auto simp: maybe_closed_def dest: only_stream_conn intro!: send\<close>)
qed

lemma run_apis_safe:
  assumes "winv cd i held w" and "conns w c = Some cn" and "ApiDefer \<notin> set as" and "ApiClose \<in> set as \<longrightarrow> conn_status cn \<noteq> WAIT_LOGIN"
  shows "safe (run_apis c as w) (\<lambda>w'. winv cd i held w' \<and> (\<exists>cn'. conns w' c = Some cn' \<and> maybe_closed cn cn' \<and>
    (ApiClose \<notin> set as \<longrightarrow> cn' = cn)) \<and> cid_seed w' = cid_seed w)"
  using assms
proof (induction as arbitrary: w cn)
  case Nil
  then show ?case by (auto simp: maybe_closed_def)
next
  case (Cons a as)
  show ?case
  proof (simp, rule safe_bind [OF run_api_safe [OF Cons.prems(1,2)]])
    show "a \<noteq> ApiDefer" "a = ApiClose \<longrightarrow> conn_status cn \<noteq> WAIT_LOGIN" using Cons.prems(3,4) by auto
  next
    fix w1
    assume "winv cd i held w1 \<and> (\<exists>cn'. conns w1 c = Some cn' \<and> maybe_closed cn cn' \<and> (a \<noteq> ApiClose \<longrightarrow> cn' = cn)) \<and>
      cid_seed w1 = cid_seed w"
    then obtain cn1 where w1: "winv cd i held w1" "conns w1 c = Some cn1" "maybe_closed cn cn1" "a \<noteq> ApiClose \<longrightarrow> cn1 = cn"
      "cid_seed w1 = cid_seed w" by blast
    have "ApiClose \<in> set as \<longrightarrow> conn_status cn1 \<noteq> WAIT_LOGIN"
      using Cons.prems(4) w1(3) by (auto simp: maybe_closed_def)
    from Cons.IH [OF w1(1,2) _ this] Cons.prems(3) w1(3-5) show "safe (run_apis c as w1)
        (\<lambda>w'. winv cd i held w' \<and> (\<exists>cn'. conns w' c = Some cn' \<and> maybe_closed cn cn' \<and>
          (ApiClose \<noteq> a \<and> ApiClose \<notin> set as \<longrightarrow> cn' = cn)) \<and> cid_seed w' = cid_seed w)"
      by (auto simp: maybe_closed_def elim!: safe_mono)
  qed
qed

text \<open>Starting an operation for the \<open>Conn\<close> being processed.\<close>

lemma add_conn_job:
  assumes inv: "winv cd (Some c) held w" and c: "conns w c = Some cn"
  shows "winv cd None held (add_pending op (JConn c) w)"
proof -
  have at: "ops_at True (Some cn) (conn_jobs c (pending w))" using ops_inv_at [OF inv, of c] c by simp
  then have "ops_at (None = Some c) (Some cn) (conn_jobs c (pending w) + conn_jobs c [(op, JConn c)])"
    by (auto simp: ops_at_def idle_ok_def ops_ok_def)
  from winv_conn_upd [OF inv c _ _ _ _ this] have
    "winv cd None held (w\<lparr>conns := (conns w)(c \<mapsto> cn), pending := pending w @ [(op, JConn c)]\<rparr>)"
    by (simp add: status_change_def)
  moreover have "(conns w)(c \<mapsto> cn) = conns w" using c by auto
  ultimately show ?thesis by (simp add: add_pending_def)
qed

lemma recv_safe:
  assumes inv: "winv cd (Some c) held w" and c: "conns w c = Some cn"
  shows "safe (conn_recv c w) (\<lambda>w'. winv cd None held w' \<and> conns w' = conns w)"
proof -
  obtain st where st: "streams w c = Some st" using winv_stream [OF inv c] by blast
  have "safe (on_sv c sv_read w) (\<lambda>w'. winv cd (Some c) held w' \<and> only_stream c w w' \<and> streams w' c \<noteq> None)"
    by (rule on_sv_safe [OF inv st]) (auto simp: sv_read_def)
  then show ?thesis
    unfolding conn_recv_def
    by (rule safe_bind) (use c in \<open>auto simp: only_stream_def intro!: add_conn_job\<close>, simp_all add: add_pending_def)
qed

lemma finish_safe:
  assumes inv: "winv cd (Some c) held w" and c: "conns w c = Some cn"
  shows "safe (conn_finish c w) (\<lambda>w'. winv cd None held w')"
proof -
  have "conn_status cn \<noteq> WAIT_LOGIN" using ops_inv_at [OF inv, of c] c by (auto simp: ops_at_def idle_ok_def)
  from set_close_safe [OF inv c this] show ?thesis
    unfolding conn_finish_def
  proof (rule safe_bind)
    fix w1
    assume w1: "winv cd (Some c) held w1 \<and> conns w1 c = Some (cn\<lparr>conn_status := CLOSE\<rparr>) \<and> streams w1 = streams w \<and> cid_seed w1 = cid_seed w"
    then obtain st where st: "streams w1 c = Some st" using winv_stream [of cd "Some c" held w1 c] by blast
    have "safe (on_sv c sv_finish w1) (\<lambda>w'. winv cd (Some c) held w' \<and> only_stream c w1 w' \<and> streams w' c \<noteq> None)"
      using w1 by (intro on_sv_safe [OF _ st]) (auto simp: sv_finish_def)
    then show "safe (bindE (on_sv c sv_finish w1) (\<lambda>w2. Inr (add_pending OpFinish (JConn c) w2))) (winv cd None held)"
      by (rule safe_bind) (use w1 in \<open>auto simp: only_stream_def intro!: add_conn_job\<close>)
  qed
qed

lemma closer_safe:
  assumes inv: "winv cd i held w" and c: "conns w c = Some cn"
  shows "safe (bindE (on_sv c (\<lambda>s. sv_finish (sv_ref s)) w) (\<lambda>w2. Inr (add_pending OpFinish (JCloser c) w2)))
    (\<lambda>w'. winv cd i held w' \<and> only_stream c w w')"
proof -
  obtain st where st: "streams w c = Some st" using winv_stream [OF inv c] by blast
  have "winv cd i held (add_pending OpFinish (JCloser c) (w\<lparr>streams := (streams w)(c \<mapsto> sv_finish (sv_ref st))\<rparr>))"
    by (rule winv_stream_upd [OF inv st, where ps = "[(OpFinish, JCloser c)]"])
      (use c in \<open>auto simp: only_stream_def add_pending_def sv_finish_def sv_ref_def refs_at_def refs_ok_def\<close>)
  with st show ?thesis by (simp add: on_sv_def get_sv_def only_stream_def add_pending_def)
qed

text \<open>Leaving the wait for a deferred login, once its answer was taken.\<close>

definition answered :: "nat \<Rightarrow> conn \<Rightarrow> world \<Rightarrow> bool" where
  "answered c cn w \<longleftrightarrow> conn_status cn = WAIT_LOGIN \<and> pmap w (conn_lcid cn) \<noteq> Some c \<and>
     (\<forall>st. streams w c = Some st \<longrightarrow> (\<forall>t \<in> set (sv_tasks st). rq_kind t \<noteq> Login))"

lemma waiting_not_registered:
  assumes "winv cd i held w" and "conns w c = Some cn" and "conn_status cn \<notin> {READ, CLOSE}"
  shows "cmap w k \<noteq> Some c"
proof
  assume "cmap w k = Some c"
  with assms(1) obtain dn where "conns w c = Some dn" "conn_status dn \<in> {READ, CLOSE}"
    unfolding winv_def cmap_inv_def by blast
  with assms(2,3) show False by simp
qed

lemma not_idle_wait: "winv cd i held w \<Longrightarrow> conns w c = Some cn \<Longrightarrow> conn_status cn = WAIT_LOGIN \<Longrightarrow>
    i \<noteq> Some c \<and> conn_jobs c (pending w) = 0"
  using ops_inv_at [of cd i held w c] by (auto simp: ops_at_def idle_ok_def ops_ok_def split: if_splits)

text \<open>
  The general step out of a login: the \<open>Conn\<close> gets a new status, login id 0 and possibly a new id under
  which it is registered; \<open>pm'\<close> and \<open>wks'\<close> are what is left of \<open>pmap_\<close> and of the lists of the workers.
\<close>

lemma winv_login_done:
  assumes inv: "winv cd i held w" and c: "conns w c = Some cn"
    and src: "i = Some c \<and> conn_status cn \<in> {ACCEPT, LOGIN} \<or> (i = None \<and> answered c cn w)"
    and cn': "conn_status cn' \<in> {READ, CLOSE}"
    and pm': "\<And>l d. pm' l = Some d \<Longrightarrow> pmap w l = Some d"
    and cm': "\<And>k d. cm' k = Some d \<Longrightarrow> if d = c then conn_cid cn' = k else cmap w k = Some d"
    and wks': "work_inv ((conns w)(c \<mapsto> cn')) wks'"
  shows "winv cd (Some c) held (w\<lparr>conns := (conns w)(c \<mapsto> cn'), pmap := pm', cmap := cm', workers := wks'\<rparr>)"
proof -
  have jobs: "conn_jobs c (pending w) = 0"
    using src ops_inv_at [OF inv, of c] c not_idle_wait [OF inv c] by (auto simp: ops_at_def answered_def)
  have ops: "ops_inv (Some c) ((conns w)(c \<mapsto> cn')) (pending w)"
  proof (rule ops_inv_upd)
    show "ops_inv i (conns w) (pending w)" using inv by (simp add: winv_def)
    show "ops_at (Some c = Some c) (Some cn') (conn_jobs c (pending w))"
      using jobs cn' by (auto simp: ops_at_def idle_ok_def)
    show "(Some c = Some d) = (i = Some d)" if "d \<noteq> c" for d using that src by auto
  qed simp
  have refs: "refs_inv held ((conns w)(c \<mapsto> cn')) (streams w) (pending w) (next_addr w)"
  proof (rule refs_inv_same_stream)
    show "refs_inv held (conns w) (streams w) (pending w) (next_addr w)" using inv by (simp add: winv_def)
    show "(((conns w)(c \<mapsto> cn')) d = None) = (conns w d = None)" for d using c by simp
  qed simp
  have cm: "cmap_inv ((conns w)(c \<mapsto> cn')) cm'"
    unfolding cmap_inv_def
  proof (intro allI impI)
    fix k d
    assume kd: "cm' k = Some d"
    show "\<exists>dn. ((conns w)(c \<mapsto> cn')) d = Some dn \<and> conn_cid dn = k \<and> conn_status dn \<in> {READ, CLOSE}"
    proof (cases "d = c")
      case True
      with cm' [OF kd] cn' show ?thesis by simp
    next
      case False
      with cm' [OF kd] inv show ?thesis by (simp add: winv_def cmap_inv_def)
    qed
  qed
  have old: "login_inv cd (conns w) (streams w) (pmap w)" using inv by (simp add: winv_def)
  have nopm: "pmap w l \<noteq> Some c" for l
  proof
    assume l: "pmap w l = Some c"
    with old obtain dn where "conns w c = Some dn" "conn_lcid dn = l" "conn_status dn = WAIT_LOGIN"
      unfolding login_inv_def by blast
    with c l src show False by (auto simp: answered_def)
  qed
  have lg: "login_inv cd ((conns w)(c \<mapsto> cn')) (streams w) pm'"
    unfolding login_inv_def
  proof (intro conjI allI impI)
    fix l d
    assume ld: "pm' l = Some d"
    with pm' nopm have "d \<noteq> c" "pmap w l = Some d" by blast+
    with old show "\<exists>dn. ((conns w)(c \<mapsto> cn')) d = Some dn \<and> conn_lcid dn = l \<and> conn_status dn = WAIT_LOGIN"
      by (simp add: login_inv_def)
  next
    fix d dn st
    assume d: "((conns w)(c \<mapsto> cn')) d = Some dn" and st: "streams w d = Some st"
    show "tasks_ok cd (conn_status dn) (pm' (conn_lcid dn) = Some d) (sv_tasks st)"
    proof (cases "d = c")
      case True
      have "tasks_ok cd (conn_status cn) (pmap w (conn_lcid cn) = Some c) (sv_tasks st)"
        using old c st True by (simp add: login_inv_def)
      with src st True cn' d show ?thesis by (auto simp: tasks_ok_def answered_def)
    next
      case False
      with old d st have "tasks_ok cd (conn_status dn) (pmap w (conn_lcid dn) = Some d) (sv_tasks st)"
        by (simp add: login_inv_def)
      then show ?thesis using pm' [of "conn_lcid dn" d]
        by (cases "conn_status dn = WAIT_LOGIN") (auto simp: tasks_ok_def split: if_splits)
    qed
  next
    fix d dn st
    assume d: "((conns w)(c \<mapsto> cn')) d = Some dn" and st: "streams w d = Some st" and wt: "conn_status dn = WAIT_LOGIN"
    with cn' have "d \<noteq> c" by auto
    with old d st wt show "conn_lcid dn \<noteq> 0" by (simp add: login_inv_def)
  qed
  show ?thesis using ops refs cm lg wks' by (simp add: winv_def)
qed

lemma conn_register_eq:
  assumes "conns w c = Some cn"
  shows "conn_register c cid w =
    Inr (w\<lparr>conns := (conns w)(c \<mapsto> cn\<lparr>conn_lcid := 0, conn_cid := cid\<rparr>),
      pmap := (if conn_lcid cn = 0 then pmap w else (pmap w)(conn_lcid cn := None)),
      cmap := (cmap w)(cid \<mapsto> c),
      workers := (workers w)(conn_worker cn := (workers w (conn_worker cn))\<lparr>connections :=
        (if conn_lcid cn = 0 then connections (workers w (conn_worker cn)) else remove1 c (connections (workers w (conn_worker cn)))) @ [c]\<rparr>)\<rparr>)"
proof (cases "conn_lcid cn = 0")
  case True
  then have eq: "cn\<lparr>conn_lcid := 0, conn_cid := cid\<rparr> = cn\<lparr>conn_cid := cid\<rparr>" by (cases cn) simp
  show ?thesis unfolding eq
    using True assms by (simp add: conn_register_def clear_login_cid_def get_conn_def set_conn_def on_register_def server_register_def map_set_def)
next
  case False
  with assms show ?thesis
    by (simp add: conn_register_def clear_login_cid_def get_conn_def set_conn_def on_register_def on_unregister_def
        server_register_def map_set_def map_erase_def)
qed

lemma register_read_safe:
  assumes inv: "winv cd i held w" and c: "conns w c = Some cn"
    and src: "i = Some c \<and> conn_status cn = LOGIN \<or> (i = None \<and> answered c cn w)"
  shows "safe (bindE (conn_register c cid w) (set_status c READ))
    (\<lambda>w'. winv cd (Some c) held w' \<and> (\<exists>cn'. conns w' c = Some cn' \<and> conn_status cn' = READ))"
proof -
  let ?cn = "cn\<lparr>conn_lcid := 0, conn_cid := cid, conn_status := READ\<rparr>"
  let ?wk = "conn_worker cn"
  let ?l = "(if conn_lcid cn = 0 then connections (workers w ?wk) else remove1 c (connections (workers w ?wk))) @ [c]"
  let ?wks = "(workers w)(?wk := (workers w ?wk)\<lparr>connections := ?l\<rparr>)"
  let ?pm = "if conn_lcid cn = 0 then pmap w else (pmap w)(conn_lcid cn := None)"
  have work: "work_inv (conns w) (workers w)" and lg: "login_inv cd (conns w) (streams w) (pmap w)"
    using inv by (simp_all add: winv_def)
  obtain st where st: "streams w c = Some st" using winv_stream [OF inv c] by blast
  have lcid: "conn_status cn = WAIT_LOGIN \<longrightarrow> conn_lcid cn \<noteq> 0" using lg c st by (simp add: login_inv_def)
  have dist: "distinct (connections (workers w k))" and alive: "\<not> dying (workers w k)"
    and mem: "\<And>d. d \<in> set (connections (workers w k)) \<Longrightarrow> \<exists>dn. conns w d = Some dn \<and> conn_worker dn = k \<and> conn_status dn \<in> {WAIT_LOGIN, READ, CLOSE}" for k
    using work by (auto simp: work_inv_def)
  have notin: "c \<notin> set (connections (workers w ?wk)) \<or> conn_lcid cn \<noteq> 0"
    using mem [of c ?wk] c src lcid by (auto simp: answered_def)
  have "work_inv ((conns w)(c \<mapsto> ?cn)) ?wks"
    unfolding work_inv_def
  proof (intro allI conjI ballI)
    fix k
    show "distinct (connections (?wks k))" using dist notin by auto
    show "\<not> dying (?wks k)" using alive by auto
    fix d
    assume d: "d \<in> set (connections (?wks k))"
    show "\<exists>dn. ((conns w)(c \<mapsto> ?cn)) d = Some dn \<and> conn_worker dn = k \<and> conn_status dn \<in> {WAIT_LOGIN, READ, CLOSE}"
    proof (cases "d = c")
      case True
      with d mem [of c k] c show ?thesis by (auto split: if_splits)
    next
      case False
      with d mem [of d k] show ?thesis by (auto split: if_splits dest: notin_set_remove1)
    qed
  qed
  moreover have "if d = c then conn_cid ?cn = k else cmap w k = Some d" if "((cmap w)(cid \<mapsto> c)) k = Some d" for k d
  proof -
    have "conn_status cn \<notin> {READ, CLOSE}" using src by (auto simp: answered_def)
    with that waiting_not_registered [OF inv c this, of k] show ?thesis by (auto split: if_splits)
  qed
  moreover have "?pm l = Some d \<Longrightarrow> pmap w l = Some d" for l d by (auto split: if_splits)
  ultimately have "winv cd (Some c) held (w\<lparr>conns := (conns w)(c \<mapsto> ?cn), pmap := ?pm, cmap := (cmap w)(cid \<mapsto> c), workers := ?wks\<rparr>)"
    using src by (intro winv_login_done [OF inv c]) auto
  moreover have "bindE (conn_register c cid w) (set_status c READ) =
      Inr (w\<lparr>conns := (conns w)(c \<mapsto> ?cn), pmap := ?pm, cmap := (cmap w)(cid \<mapsto> c), workers := ?wks\<rparr>)"
    using c by (simp add: conn_register_eq set_status_def set_conn_def get_conn_def)
  ultimately show ?thesis by simp
qed

end
