(* ===== verification/Server_Runs.thy ===== *)
theory Server_Runs
  imports Server_Safety
begin

text \<open>
  The rest of memory safety: \<open>ConsumeTask\<close>, \<open>Finish\<close>, \<open>Destroy\<close> and the steps of a connection, of a worker
  and of the application keep the invariant of theory \<open>Server_Safety\<close>, so whole runs do.
\<close>

section \<open>The application's side\<close>

text \<open>
  A login callback defers at most once and does not close what it deferred, a handler neither defers
  nor closes a connection whose login is deferred, and there are fewer than \<open>2 ^ 64\<close> deferred logins.
\<close>

definition polite_login :: "api list \<Rightarrow> bool" where
  "polite_login as \<longleftrightarrow> ApiDefer \<notin> set as \<or> (length (filter (\<lambda>a. a = ApiDefer) as) = 1 \<and> ApiClose \<notin> set as)"

definition polite :: "handler \<Rightarrow> bool" where
  "polite h \<longleftrightarrow>
     (\<forall>w c r. polite_login (fst (h_login h w c r)) \<and> (ApiDefer \<in> set (fst (h_login h w c r)) \<longrightarrow> cid_seed w \<noteq> -1)) \<and>
     (\<forall>w c r. ApiDefer \<notin> set (fst (h_handle h w c r)) \<and>
       (\<forall>cn. conns w c = Some cn \<longrightarrow> conn_status cn = WAIT_LOGIN \<longrightarrow> ApiClose \<notin> set (fst (h_handle h w c r)))) \<and>
     (\<forall>w c. ApiDefer \<notin> set (h_close h w c))"

section \<open>Sending to a waiting connection\<close>

lemma send_answered:
  assumes "stream_send c r w = Inr w'" and "answered c cn w"
  shows "answered c cn w'"
proof -
  from assms(1) obtain st where st: "streams w c = Some st"
    by (auto simp: stream_send_def get_sv_def fault_simps)
  with assms(1) have "streams w' = (streams w)(c \<mapsto> sv_send r st) \<and> pmap w' = pmap w"
    by (auto simp: stream_send_def get_sv_def on_sv_def add_pending_def)
  moreover have "sv_tasks (sv_send r st) = sv_tasks st"
    by (simp add: sv_send_def io_write_def sv_ref_def)
  ultimately show ?thesis using assms(2) st by (simp add: answered_def)
qed

lemma send_answered_safe:
  assumes inv: "winv cd i held w" and c: "conns w c = Some cn" and ans: "answered c cn w"
  shows "safe (stream_send c r w) (\<lambda>w'. winv cd i held w' \<and> conns w' c = Some cn \<and> answered c cn w')"
proof -
  obtain st where st: "streams w c = Some st" using winv_stream [OF inv c] by blast
  have s: "safe (stream_send c r w) (\<lambda>w'. winv cd i held w' \<and> only_stream c w w' \<and> streams w' c \<noteq> None)"
    by (rule send_safe [OF inv st])
  show ?thesis
  proof (cases "stream_send c r w")
    case (Inl e)
    with s show ?thesis by (simp add: safe_def)
  next
    case (Inr w')
    with s send_answered [OF Inr ans] c show ?thesis by (simp add: only_stream_def)
  qed
qed

text \<open>A message was read into the request of a connection.\<close>

lemma winv_req:
  assumes inv: "winv cd (Some c) held w" and c: "conns w c = Some cn"
  shows "winv cd (Some c) held (w\<lparr>conns := (conns w)(c \<mapsto> cn\<lparr>conn_req := msg\<rparr>)\<rparr>)"
proof -
  have "ops_at (Some c = Some c) (Some cn) (conn_jobs c (pending w))" using ops_inv_at [OF inv, of c] c by simp
  then have "ops_at (Some c = Some c) (Some (cn\<lparr>conn_req := msg\<rparr>)) (conn_jobs c (pending w) + conn_jobs c [])"
    by (simp add: ops_at_def)
  from winv_conn_upd [OF inv c _ _ _ _ this] show ?thesis by (simp add: status_change_def)
qed

section \<open>The end of a connection\<close>

text \<open>Deleting a \<open>Conn\<close> to which nothing refers any more.\<close>

lemma delete_safe:
  assumes inv: "winv cd (Some c) held w" and c: "conns w c = Some cn"
    and free: "\<And>k. cm' k \<noteq> Some c" "\<And>k d. cm' k = Some d \<Longrightarrow> cmap w k = Some d"
      "\<And>l d. pm' l = Some d \<Longrightarrow> pmap w l = Some d"
    and wks: "\<And>k. distinct (connections (wks' k)) \<and> \<not> dying (wks' k) \<and> c \<notin> set (connections (wks' k)) \<and>
      set (connections (wks' k)) \<subseteq> set (connections (workers w k))"
  shows "safe (delete_conn c (w\<lparr>conns := (conns w)(c \<mapsto> cn'), pmap := pm', cmap := cm', workers := wks'\<rparr>))
    (\<lambda>w'. winv cd None held w' \<and> conns w' c = None)"
proof -
  let ?w = "w\<lparr>conns := (conns w)(c := None), pmap := pm', cmap := cm', workers := wks'\<rparr>"
  let ?held = "held(c := Suc (held c))"
  have idle: "conn_jobs c (pending w) = 0" "idle_ok (conn_status cn)"
    using ops_inv_at [OF inv, of c] c by (simp_all add: ops_at_def)
  have old: "ops_inv (Some c) (conns w) (pending w)" "refs_inv held (conns w) (streams w) (pending w) (next_addr w)"
    "cmap_inv (conns w) (cmap w)" "login_inv cd (conns w) (streams w) (pmap w)" "work_inv (conns w) (workers w)"
    using inv by (simp_all add: winv_def)
  obtain st where st: "streams w c = Some st" using winv_stream [OF inv c] by blast
  have nopm: "pmap w l \<noteq> Some c" for l
  proof
    assume "pmap w l = Some c"
    with old(4) obtain dn where "conns w c = Some dn" "conn_status dn = WAIT_LOGIN" unfolding login_inv_def by blast
    with c idle(2) show False by (simp add: idle_ok_def)
  qed
  have "ops_inv None ((conns w)(c := None)) (pending w)"
    by (rule ops_inv_upd [OF old(1)]) (use idle in \<open>auto simp: ops_at_def\<close>)
  moreover have "refs_inv ?held ((conns w)(c := None)) ((streams w)(c := Some st)) (pending w) (next_addr w)"
    by (rule refs_inv_upd [OF old(2)]) (use refs_inv_stream [OF old(2) st] c in \<open>auto simp: refs_at_def refs_ok_def\<close>)
  then have "refs_inv ?held ((conns w)(c := None)) (streams w) (pending w) (next_addr w)"
    using st by (simp add: fun_upd_idem)
  moreover have "cmap_inv ((conns w)(c := None)) cm'"
    unfolding cmap_inv_def
  proof (intro allI impI)
    fix k d
    assume kd: "cm' k = Some d"
    with free(1) have "d \<noteq> c" by auto
    with free(2) [OF kd] old(3) show "\<exists>dn. ((conns w)(c := None)) d = Some dn \<and> conn_cid dn = k \<and> conn_status dn \<in> {READ, CLOSE}"
      by (simp add: cmap_inv_def)
  qed
  moreover have "login_inv cd ((conns w)(c := None)) (streams w) pm'"
    unfolding login_inv_def
  proof (intro conjI allI impI)
    fix l d
    assume "pm' l = Some d"
    with free(3) nopm have "d \<noteq> c" "pmap w l = Some d" by blast+
    with old(4) show "\<exists>dn. ((conns w)(c := None)) d = Some dn \<and> conn_lcid dn = l \<and> conn_status dn = WAIT_LOGIN"
      by (simp add: login_inv_def)
  next
    fix d dn t
    assume d: "((conns w)(c := None)) d = Some dn" and t: "streams w d = Some t"
    then have "d \<noteq> c" "tasks_ok cd (conn_status dn) (pmap w (conn_lcid dn) = Some d) (sv_tasks t)"
      using old(4) by (auto simp: login_inv_def split: if_splits)
    then show "tasks_ok cd (conn_status dn) (pm' (conn_lcid dn) = Some d) (sv_tasks t)"
      using free(3) [of "conn_lcid dn" d] by (cases "conn_status dn = WAIT_LOGIN") (auto simp: tasks_ok_def split: if_splits)
  next
    fix d dn t
    assume "((conns w)(c := None)) d = Some dn" and "streams w d = Some t" and "conn_status dn = WAIT_LOGIN"
    then show "conn_lcid dn \<noteq> 0" using old(4) by (auto simp: login_inv_def split: if_splits)
  qed
  moreover have "work_inv ((conns w)(c := None)) wks'"
    unfolding work_inv_def
  proof (intro allI conjI ballI)
    fix k
    show "distinct (connections (wks' k))" "\<not> dying (wks' k)" using wks by simp_all
    fix d
    assume "d \<in> set (connections (wks' k))"
    with wks [of k] have "d \<noteq> c" "d \<in> set (connections (workers w k))" by auto
    with old(5) show "\<exists>dn. ((conns w)(c := None)) d = Some dn \<and> conn_worker dn = k \<and> conn_status dn \<in> {WAIT_LOGIN, READ, CLOSE}"
      by (simp add: work_inv_def)
  qed
  ultimately have w: "winv cd None ?held ?w" by (simp add: winv_def)
  have "safe (stream_unref c ?w) (\<lambda>w'. winv cd None held w' \<and> only_stream c ?w w')"
    using st by (intro unref_safe [OF w]) simp
  then have "safe (stream_unref c ?w) (\<lambda>w'. winv cd None held w' \<and> conns w' c = None)"
    by (rule safe_mono) (simp add: only_stream_def)
  moreover have "delete_conn c (w\<lparr>conns := (conns w)(c \<mapsto> cn'), pmap := pm', cmap := cm', workers := wks'\<rparr>) = stream_unref c ?w"
    by (cases w) (simp add: delete_conn_def get_conn_def)
  ultimately show ?thesis by simp
qed

lemma conn_unregister_eq:
  assumes "conns w c = Some cn"
  shows "conn_unregister c w =
    Inr (w\<lparr>conns := (conns w)(c \<mapsto> cn\<lparr>conn_lcid := 0\<rparr>),
      pmap := (if conn_lcid cn = 0 then pmap w else (pmap w)(conn_lcid cn := None)),
      cmap := (if cmap w (conn_cid cn) = Some c then (cmap w)(conn_cid cn := None) else cmap w),
      workers := (workers w)(conn_worker cn := (workers w (conn_worker cn))\<lparr>connections := remove1 c
        (if conn_lcid cn = 0 then connections (workers w (conn_worker cn)) else remove1 c (connections (workers w (conn_worker cn))))\<rparr>)\<rparr>)"
proof (cases "conn_lcid cn = 0")
  case True
  then have eq: "cn\<lparr>conn_lcid := 0\<rparr> = cn" by (cases cn) simp
  have upd: "(conns w)(c \<mapsto> cn) = conns w" by (rule fun_upd_idem) (rule assms)
  show ?thesis unfolding eq upd
    using True assms by (cases "cmap w (conn_cid cn)")
      (simp_all add: conn_unregister_def clear_login_cid_def get_conn_def set_conn_def on_unregister_def server_unregister_def
        map_find_def map_erase_def)
next
  case False
  with assms show ?thesis
    by (cases "cmap w (conn_cid cn)")
      (simp_all add: conn_unregister_def clear_login_cid_def get_conn_def set_conn_def on_unregister_def server_unregister_def
        map_find_def map_erase_def)
qed

lemma unregister_delete_safe:
  assumes inv: "winv cd (Some c) held w" and c: "conns w c = Some cn"
  shows "safe (bindE (conn_unregister c w) (delete_conn c)) (\<lambda>w'. winv cd None held w' \<and> conns w' c = None)"
proof -
  have cm: "conn_cid cn = k" if "cmap w k = Some c" for k
    using inv c that by (fastforce simp: winv_def cmap_inv_def)
  have dist: "distinct (connections (workers w k))" and alive: "\<not> dying (workers w k)"
    and mem: "c \<in> set (connections (workers w k)) \<Longrightarrow> conn_worker cn = k" for k
    using inv c by (fastforce simp: winv_def work_inv_def)+
  show ?thesis
    unfolding conn_unregister_eq [OF c] bindE_Inr
  proof (rule delete_safe [OF inv c])
    fix k
    show "(if cmap w (conn_cid cn) = Some c then (cmap w)(conn_cid cn := None) else cmap w) k \<noteq> Some c"
      using cm [of k] by auto
  next
    fix k
    let ?wks = "(workers w)(conn_worker cn := (workers w (conn_worker cn))\<lparr>connections := remove1 c
        (if conn_lcid cn = 0 then connections (workers w (conn_worker cn)) else remove1 c (connections (workers w (conn_worker cn))))\<rparr>)"
    show "distinct (connections (?wks k)) \<and> \<not> dying (?wks k) \<and> c \<notin> set (connections (?wks k)) \<and>
      set (connections (?wks k)) \<subseteq> set (connections (workers w k))"
      using dist alive mem [of k] by (auto simp: distinct_remove1 dest: notin_set_remove1)
  qed (auto split: if_splits)
qed

text \<open>A \<open>Conn\<close> that no client has reached is in no registry.\<close>

lemma delete_accept_safe:
  assumes inv: "winv cd (Some c) held w" and c: "conns w c = Some cn" and st: "\<not> has_peer cn"
  shows "safe (delete_conn c w) (\<lambda>w'. winv cd None held w' \<and> conns w' c = None)"
proof -
  have acc: "conn_status cn = ACCEPT"
    using st ops_inv_at [OF inv, of c] c by (auto simp: has_peer_def ops_at_def idle_ok_def less_stream_status_def)
  have eq: "w\<lparr>conns := (conns w)(c \<mapsto> cn), pmap := pmap w, cmap := cmap w, workers := workers w\<rparr> = w"
    using c by (simp add: fun_upd_idem)
  have "safe (delete_conn c (w\<lparr>conns := (conns w)(c \<mapsto> cn), pmap := pmap w, cmap := cmap w, workers := workers w\<rparr>))
      (\<lambda>w'. winv cd None held w' \<and> conns w' c = None)"
  proof (rule delete_safe [OF inv c])
    show "cmap w k \<noteq> Some c" for k using waiting_not_registered [OF inv c] acc by simp
    show "distinct (connections (workers w k)) \<and> \<not> dying (workers w k) \<and> c \<notin> set (connections (workers w k)) \<and>
      set (connections (workers w k)) \<subseteq> set (connections (workers w k))" for k
      using inv c acc by (fastforce simp: winv_def work_inv_def)
  qed
  then show ?thesis unfolding eq .
qed

section \<open>Tasks, Finish and Destroy\<close>

lemma close_stream_safe:
  assumes inv: "winv cd i held w" and c: "conns w c = Some cn" and st: "conn_status cn \<noteq> WAIT_LOGIN"
  shows "safe (close_stream c w) (\<lambda>w'. winv cd i held w' \<and> conns w' c \<noteq> None)"
proof -
  have "safe (set_status c CLOSE w) (\<lambda>w1. winv cd i held w1 \<and> conns w1 c = Some (cn\<lparr>conn_status := CLOSE\<rparr>))"
    by (rule safe_mono [OF set_close_safe [OF inv c st]]) simp
  then show ?thesis
    unfolding close_stream_def
  proof (rule safe_bind)
    fix w1
    assume w1: "winv cd i held w1 \<and> conns w1 c = Some (cn\<lparr>conn_status := CLOSE\<rparr>)"
    then show "safe (bindE (on_sv c (\<lambda>s. sv_finish (sv_ref s)) w1) (\<lambda>w2. Inr (add_pending OpFinish (JCloser c) w2)))
        (\<lambda>w'. winv cd i held w' \<and> conns w' c \<noteq> None)"
      by (intro safe_mono [OF closer_safe [of cd i held w1 c]]) (auto dest: only_stream_conn)
  qed
qed

lemma close_waiting_safe:
  assumes inv: "winv cd None held w" and c: "conns w c = Some cn" and ans: "answered c cn w"
  shows "safe (close_stream c w) (\<lambda>w'. winv cd (Some c) held w' \<and> conns w' c \<noteq> None)"
proof -
  let ?cn = "cn\<lparr>conn_status := CLOSE\<rparr>"
  let ?w = "w\<lparr>conns := (conns w)(c \<mapsto> ?cn)\<rparr>"
  have wait: "conn_status cn = WAIT_LOGIN" using ans by (simp add: answered_def)
  have "work_inv ((conns w)(c \<mapsto> ?cn)) (workers w)"
    using inv c by (intro work_inv_upd [where cn = cn]) (simp_all add: winv_def)
  then have "winv cd (Some c) held (w\<lparr>conns := (conns w)(c \<mapsto> ?cn), pmap := pmap w, cmap := cmap w, workers := workers w\<rparr>)"
    using waiting_not_registered [OF inv c] wait ans by (intro winv_login_done [OF inv c]) auto
  then have w: "winv cd (Some c) held ?w" by simp
  have "safe (bindE (on_sv c (\<lambda>s. sv_finish (sv_ref s)) ?w) (\<lambda>w2. Inr (add_pending OpFinish (JCloser c) w2)))
      (\<lambda>w'. winv cd (Some c) held w' \<and> conns w' c \<noteq> None)"
    by (rule safe_mono [OF closer_safe [OF w]]) (auto dest: only_stream_conn)
  then show ?thesis using c by (simp add: close_stream_def set_status_def set_conn_def get_conn_def)
qed

text \<open>What is proved of the four mutually recursive operations.\<close>

definition run_ok :: "codec \<Rightarrow> conn_self \<Rightarrow> bool" where
  "run_ok cd self \<longleftrightarrow>
     (\<forall>n i held c w cn. winv cd i held w \<longrightarrow> conns w c = Some cn \<longrightarrow> i = None \<or> i = Some c \<longrightarrow>
        safe (self (ConsumeTask n) c w) (\<lambda>w'. winv cd i held w' \<and> (i = Some c \<longrightarrow> conns w' c \<noteq> None))) \<and>
     (\<forall>n i held c w cn. winv cd i held w \<longrightarrow> conns w c = Some cn \<longrightarrow> i = None \<or> i = Some c \<longrightarrow>
        safe (self (ConsumeLoop n) c w) (\<lambda>w'. winv cd i held w' \<and> (i = Some c \<longrightarrow> conns w' c \<noteq> None))) \<and>
     (\<forall>i held c w cn. winv cd i held w \<longrightarrow> conns w c = Some cn \<longrightarrow> conn_status cn \<noteq> WAIT_LOGIN \<longrightarrow>
        safe (self FinishTask c w) (\<lambda>w'. winv cd i held w' \<and> conns w' c \<noteq> None)) \<and>
     (\<forall>held c w cn. winv cd None held w \<longrightarrow> conns w c = Some cn \<longrightarrow> answered c cn w \<longrightarrow>
        safe (self FinishTask c w) (winv cd None held)) \<and>
     (\<forall>held c w cn. winv cd (Some c) held w \<longrightarrow> conns w c = Some cn \<longrightarrow>
        safe (self Destroy c w) (\<lambda>w'. winv cd None held w' \<and> conns w' c = None))"

lemma run_okD:
  assumes "run_ok cd self"
  shows "winv cd i held w \<Longrightarrow> conns w c = Some cn \<Longrightarrow> i = None \<or> i = Some c \<Longrightarrow>
      safe (self (ConsumeTask n) c w) (\<lambda>w'. winv cd i held w' \<and> (i = Some c \<longrightarrow> conns w' c \<noteq> None))"
    and "winv cd i held w \<Longrightarrow> conns w c = Some cn \<Longrightarrow> i = None \<or> i = Some c \<Longrightarrow>
      safe (self (ConsumeLoop n) c w) (\<lambda>w'. winv cd i held w' \<and> (i = Some c \<longrightarrow> conns w' c \<noteq> None))"
    and "winv cd i held w \<Longrightarrow> conns w c = Some cn \<Longrightarrow> conn_status cn \<noteq> WAIT_LOGIN \<Longrightarrow>
      safe (self FinishTask c w) (\<lambda>w'. winv cd i held w' \<and> conns w' c \<noteq> None)"
    and "winv cd None held w \<Longrightarrow> conns w c = Some cn \<Longrightarrow> answered c cn w \<Longrightarrow>
      safe (self FinishTask c w) (winv cd None held)"
    and "winv cd (Some c) held w \<Longrightarrow> conns w c = Some cn \<Longrightarrow>
      safe (self Destroy c w) (\<lambda>w'. winv cd None held w' \<and> conns w' c = None)"
  using assms by (auto simp: run_ok_def)

lemma consume_task_safe:
  assumes ok: "run_ok cd self" and inv: "winv cd i held w" and c: "conns w c = Some cn" and i: "i = None \<or> i = Some c"
  shows "safe (consume_task self n c w) (\<lambda>w'. winv cd i held w' \<and> (i = Some c \<longrightarrow> conns w' c \<noteq> None))"
proof -
  have "\<not> dying (workers w (conn_worker cn))" using inv by (simp add: winv_def work_inv_def)
  with c run_okD(2) [OF ok inv c i] show ?thesis by (simp add: consume_task_def get_conn_def)
qed

lemma finish_task_safe:
  assumes ok: "run_ok cd self" and inv: "winv cd i held w" and c: "conns w c = Some cn" and st: "conn_status cn \<noteq> WAIT_LOGIN"
  shows "safe (finish_task self c w) (\<lambda>w'. winv cd i held w' \<and> conns w' c \<noteq> None)"
proof -
  have "safe (bindE (close_stream c w) (\<lambda>w1. if conn_status cn = WAIT_LOGIN then self Destroy c w1 else Inr w1))
      (\<lambda>w'. winv cd i held w' \<and> conns w' c \<noteq> None)"
    by (rule safe_bind [OF close_stream_safe [OF inv c st]]) (simp add: st)
  with c show ?thesis by (simp add: finish_task_def get_conn_def)
qed

lemma finish_waiting_safe:
  assumes ok: "run_ok cd self" and inv: "winv cd None held w" and c: "conns w c = Some cn" and ans: "answered c cn w"
  shows "safe (finish_task self c w) (winv cd None held)"
proof -
  have "safe (bindE (close_stream c w) (\<lambda>w1. if conn_status cn = WAIT_LOGIN then self Destroy c w1 else Inr w1)) (winv cd None held)"
  proof (rule safe_bind [OF close_waiting_safe [OF inv c ans]])
    fix w1
    assume "winv cd (Some c) held w1 \<and> conns w1 c \<noteq> None"
    then obtain cn1 where w1: "winv cd (Some c) held w1" "conns w1 c = Some cn1" by auto
    show "safe (if conn_status cn = WAIT_LOGIN then self Destroy c w1 else Inr w1) (winv cd None held)"
      using ans by (auto simp: answered_def intro: safe_mono [OF run_okD(5) [OF ok w1]])
  qed
  with c show ?thesis by (simp add: finish_task_def get_conn_def)
qed

lemma destroy_safe:
  assumes pol: "polite h" and ok: "run_ok cd self" and inv: "winv cd (Some c) held w" and c: "conns w c = Some cn"
  shows "safe (destroy h self c w) (\<lambda>w'. winv cd None held w' \<and> conns w' c = None)"
proof (cases "has_peer cn")
  case False
  with delete_accept_safe [OF inv c] c show ?thesis by (simp add: destroy_def get_conn_def)
next
  case True
  have "safe (self (ConsumeTask (-1)) c w) (\<lambda>w'. winv cd (Some c) held w' \<and> (Some c = Some c \<longrightarrow> conns w' c \<noteq> None))"
    by (rule run_okD(1) [OF ok inv c]) simp
  then have "safe (bindE (self (ConsumeTask (-1)) c w) (\<lambda>w1. bindE (get_conn c w1) (\<lambda>_.
      bindE (run_apis c (h_close h w1 c) w1) (\<lambda>w2. bindE (conn_unregister c w2) (delete_conn c)))))
      (\<lambda>w'. winv cd None held w' \<and> conns w' c = None)"
  proof (rule safe_bind)
    fix w1
    assume "winv cd (Some c) held w1 \<and> (Some c = Some c \<longrightarrow> conns w1 c \<noteq> None)"
    then obtain cn1 where w1: "winv cd (Some c) held w1" "conns w1 c = Some cn1" by auto
    have "conn_status cn1 \<noteq> WAIT_LOGIN" using ops_inv_at [OF w1(1), of c] w1(2) by (auto simp: ops_at_def idle_ok_def)
    with pol w1 have "safe (run_apis c (h_close h w1 c) w1) (\<lambda>w'. winv cd (Some c) held w' \<and>
        (\<exists>cn'. conns w' c = Some cn' \<and> maybe_closed cn1 cn' \<and> (ApiClose \<notin> set (h_close h w1 c) \<longrightarrow> cn' = cn1)) \<and>
        cid_seed w' = cid_seed w1)"
      by (intro run_apis_safe) (auto simp: polite_def)
    then have "safe (bindE (run_apis c (h_close h w1 c) w1) (\<lambda>w2. bindE (conn_unregister c w2) (delete_conn c)))
        (\<lambda>w'. winv cd None held w' \<and> conns w' c = None)"
      by (rule safe_bind) (auto intro: unregister_delete_safe)
    with w1 show "safe (bindE (get_conn c w1) (\<lambda>_. bindE (run_apis c (h_close h w1 c) w1) (\<lambda>w2. bindE (conn_unregister c w2) (delete_conn c))))
        (\<lambda>w'. winv cd None held w' \<and> conns w' c = None)"
      by (simp add: get_conn_def)
  qed
  with True c show ?thesis by (simp add: destroy_def get_conn_def)
qed

text \<open>A task taken from the queue.\<close>

lemma tasks_ok_tl: "tasks_ok cd st wt (t # ts) \<Longrightarrow> tasks_ok cd st wt ts"
  by (auto simp: tasks_ok_def split: if_splits)

lemma dequeue_safe:
  assumes inv: "winv cd i held w" and st: "streams w c = Some st" and t: "sv_tasks st = t # rest"
  shows "winv cd i held (w\<lparr>streams := (streams w)(c \<mapsto> st\<lparr>sv_tasks := rest\<rparr>)\<rparr>)"
  by (rule winv_stream_upd [OF inv st, where ps = "[]"])
    (use t in \<open>auto simp: only_stream_def refs_at_def refs_ok_def dest: tasks_ok_tl\<close>)

lemma winv_tasks: "winv cd i held w \<Longrightarrow> conns w c = Some cn \<Longrightarrow> streams w c = Some st \<Longrightarrow>
    tasks_ok cd (conn_status cn) (pmap w (conn_lcid cn) = Some c) (sv_tasks st)"
  using winv_stream [of cd i held w c cn] by auto

text \<open>Taking the answer to a deferred login makes the connection \<open>answered\<close>.\<close>

lemma dequeue_answered:
  assumes inv: "winv cd i held w" and c: "conns w c = Some cn" and st: "streams w c = Some st"
    and t: "sv_tasks st = t # rest" "rq_kind t = Login"
  shows "conn_status cn = WAIT_LOGIN" and "dec_login cd (rq_payload t) \<noteq> None"
    and "answered c cn (w\<lparr>streams := (streams w)(c \<mapsto> st\<lparr>sv_tasks := rest\<rparr>)\<rparr>)"
proof -
  have ok: "tasks_ok cd (conn_status cn) (pmap w (conn_lcid cn) = Some c) (t # rest)"
    using winv_tasks [OF inv c st] t by simp
  then show wait: "conn_status cn = WAIT_LOGIN" and "dec_login cd (rq_payload t) \<noteq> None"
    using t(2) by (auto simp: tasks_ok_def split: if_splits)
  from ok t(2) wait show "answered c cn (w\<lparr>streams := (streams w)(c \<mapsto> st\<lparr>sv_tasks := rest\<rparr>)\<rparr>)"
    by (auto simp: tasks_ok_def answered_def filter_empty_conv split: if_splits)
qed

lemma dequeue_other:
  assumes inv: "winv cd i held w" and c: "conns w c = Some cn" and st: "streams w c = Some st"
    and t: "sv_tasks st = t # rest" "rq_kind t \<noteq> Login" "rq_kind t \<noteq> Normal"
  shows "conn_status cn \<noteq> WAIT_LOGIN"
proof -
  have "tasks_ok cd (conn_status cn) (pmap w (conn_lcid cn) = Some c) (t # rest)"
    using winv_tasks [OF inv c st] t by simp
  with t(2,3) show ?thesis by (auto simp: tasks_ok_def)
qed

lemma accept_login_safe:
  assumes inv: "winv cd None held w" and c: "conns w c = Some cn" and ans: "answered c cn w"
  shows "safe (accept_login cd c a w) (\<lambda>(w', ok). winv cd None held w' \<and>
    (if ok then conns w' c \<noteq> None else conns w' c = Some cn \<and> answered c cn w'))"
proof (cases "lg_id a = 0")
  case True
  then show ?thesis
    unfolding accept_login_def
    by (simp, intro safe_bind [OF send_answered_safe [OF inv c ans]]) simp
next
  case False
  have "safe (bindE (conn_register c (lg_id a) w) (set_status c READ))
      (\<lambda>w'. winv cd (Some c) held w' \<and> (\<exists>cn'. conns w' c = Some cn' \<and> conn_status cn' = READ))"
    by (rule register_read_safe [OF inv c]) (use ans in simp)
  then have "safe (bindE (bindE (conn_register c (lg_id a) w) (set_status c READ)) (\<lambda>w2.
      bindE (conn_recv c w2) (\<lambda>w3.
      bindE (stream_send c (setup_system_reply (lg_msgid a)
            (enc_connect cd \<lparr>cn_id = lg_id a, cn_payload = lg_payload a\<rparr>) new_reply) w3) (\<lambda>w4. Inr (w4, True)))))
      (\<lambda>(w', ok). winv cd None held w' \<and> (if ok then conns w' c \<noteq> None else conns w' c = Some cn \<and> answered c cn w'))"
  proof (rule safe_bind)
    fix w2
    assume w2: "winv cd (Some c) held w2 \<and> (\<exists>cn'. conns w2 c = Some cn' \<and> conn_status cn' = READ)"
    then obtain cn2 where c2: "conns w2 c = Some cn2" by blast
    show "safe (bindE (conn_recv c w2) (\<lambda>w3.
      bindE (stream_send c (setup_system_reply (lg_msgid a)
            (enc_connect cd \<lparr>cn_id = lg_id a, cn_payload = lg_payload a\<rparr>) new_reply) w3) (\<lambda>w4. Inr (w4, True))))
      (\<lambda>(w', ok). winv cd None held w' \<and> (if ok then conns w' c \<noteq> None else conns w' c = Some cn \<and> answered c cn w'))"
    proof (rule safe_bind [OF recv_safe [OF _ c2]])
      show "winv cd (Some c) held w2" using w2 by simp
    next
      fix w3
      assume w3: "winv cd None held w3 \<and> conns w3 = conns w2"
      then obtain st where st: "streams w3 c = Some st" using winv_stream [of cd None held w3 c] c2 by auto
      show "safe (bindE (stream_send c (setup_system_reply (lg_msgid a)
            (enc_connect cd \<lparr>cn_id = lg_id a, cn_payload = lg_payload a\<rparr>) new_reply) w3) (\<lambda>w4. Inr (w4, True)))
      (\<lambda>(w', ok). winv cd None held w' \<and> (if ok then conns w' c \<noteq> None else conns w' c = Some cn \<and> answered c cn w'))"
        by (rule safe_bind [OF send_safe [OF conjunct1 [OF w3] st]]) (use w3 c2 in \<open>simp add: only_stream_def\<close>)
    qed
  qed
  with False show ?thesis by (simp add: accept_login_def bindE_assoc)
qed

lemma perform_login_safe:
  assumes ok: "run_ok cd self" and inv: "winv cd None held w" and c: "conns w c = Some cn" and ans: "answered c cn w"
    and t: "rq_kind t = Login" "dec_login cd (rq_payload t) = Some a"
  shows "safe (perform_task cd h self c t w) (\<lambda>(w', go_on). winv cd None held w' \<and> (go_on \<longrightarrow> conns w' c \<noteq> None))"
proof -
  have "safe (bindE (accept_login cd c a w) (\<lambda>(w1, ok).
      if ok then Inr (w1, True) else bindE (self FinishTask c w1) (\<lambda>w2. Inr (w2, False))))
      (\<lambda>(w', go_on). winv cd None held w' \<and> (go_on \<longrightarrow> conns w' c \<noteq> None))"
  proof (rule safe_bind [OF accept_login_safe [OF inv c ans]])
    fix x
    assume x: "case x of (w', ok) \<Rightarrow> winv cd None held w' \<and>
      (if ok then conns w' c \<noteq> None else conns w' c = Some cn \<and> answered c cn w')"
    obtain w1 k where [simp]: "x = (w1, k)" by (cases x)
    show "safe (case x of (w1, ok) \<Rightarrow> if ok then Inr (w1, True) else bindE (self FinishTask c w1) (\<lambda>w2. Inr (w2, False)))
      (\<lambda>(w', go_on). winv cd None held w' \<and> (go_on \<longrightarrow> conns w' c \<noteq> None))"
    proof (cases k)
      case True
      with x show ?thesis by simp
    next
      case False
      with x have "winv cd None held w1" "conns w1 c = Some cn" "answered c cn w1" by simp_all
      from run_okD(4) [OF ok this] have "safe (bindE (self FinishTask c w1) (\<lambda>w2. Inr (w2, False)))
        (\<lambda>(w', go_on). winv cd None held w' \<and> (go_on \<longrightarrow> conns w' c \<noteq> None))"
        by (rule safe_bind) simp
      with False show ?thesis by simp
    qed
  qed
  with t show ?thesis by (simp add: perform_task_def)
qed

lemma perform_task_safe:
  assumes ok: "run_ok cd self" and pol: "polite h" and inv: "winv cd i held w" and c: "conns w c = Some cn"
    and i: "i = None \<or> i = Some c" and st: "streams w c = Some st" and t: "sv_tasks st = t # rest"
  shows "safe (perform_task cd h self c t (w\<lparr>streams := (streams w)(c \<mapsto> st\<lparr>sv_tasks := rest\<rparr>)\<rparr>))
    (\<lambda>(w', go_on). winv cd i held w' \<and> (go_on \<or> i = Some c \<longrightarrow> conns w' c \<noteq> None))"
proof -
  let ?w = "w\<lparr>streams := (streams w)(c \<mapsto> st\<lparr>sv_tasks := rest\<rparr>)\<rparr>"
  have w: "winv cd i held ?w" by (rule dequeue_safe [OF inv st t])
  have cw: "conns ?w c = Some cn" using c by simp
  consider (normal) "rq_kind t = Normal" | (login) "rq_kind t = Login" | (other) "rq_kind t \<noteq> Normal" "rq_kind t \<noteq> Login" by blast
  then show ?thesis
  proof cases
    case normal
    have "safe (run_apis c (fst (h_handle h ?w c t)) ?w) (\<lambda>w'. winv cd i held w' \<and>
        (\<exists>cn'. conns w' c = Some cn' \<and> maybe_closed cn cn' \<and> (ApiClose \<notin> set (fst (h_handle h ?w c t)) \<longrightarrow> cn' = cn)) \<and>
        cid_seed w' = cid_seed ?w)"
      by (rule run_apis_safe [OF w cw]) (use pol cw in \<open>auto simp: polite_def\<close>)
    then have "safe (bindE (run_apis c (fst (h_handle h ?w c t)) ?w) (\<lambda>w1. Inr (w1, True)))
        (\<lambda>(w', go_on). winv cd i held w' \<and> (go_on \<or> i = Some c \<longrightarrow> conns w' c \<noteq> None))"
      by (rule safe_bind) auto
    with normal show ?thesis by (simp add: perform_task_def)
  next
    case login
    have wait: "conn_status cn = WAIT_LOGIN" and dec: "dec_login cd (rq_payload t) \<noteq> None" and ans: "answered c cn ?w"
      using dequeue_answered [OF inv c st t login] by simp_all
    have "i = None" using not_idle_wait [OF inv c wait] i by auto
    with w have wn: "winv cd None held ?w" by simp
    from dec obtain a where "dec_login cd (rq_payload t) = Some a" by auto
    from perform_login_safe [OF ok wn cw ans login this, of h] \<open>i = None\<close> show ?thesis by simp
  next
    case other
    have "conn_status cn \<noteq> WAIT_LOGIN" using dequeue_other [OF inv c st t] other by simp
    from run_okD(3) [OF ok w cw this] have "safe (bindE (self FinishTask c ?w) (\<lambda>w1. Inr (w1, True)))
        (\<lambda>(w', go_on). winv cd i held w' \<and> (go_on \<or> i = Some c \<longrightarrow> conns w' c \<noteq> None))"
      by (rule safe_bind) simp
    with other show ?thesis by (simp add: perform_task_def)
  qed
qed

lemma consume_loop_safe:
  assumes ok: "run_ok cd self" and pol: "polite h" and inv: "winv cd i held w" and c: "conns w c = Some cn"
    and i: "i = None \<or> i = Some c"
  shows "safe (consume_loop cd h self n c w) (\<lambda>w'. winv cd i held w' \<and> (i = Some c \<longrightarrow> conns w' c \<noteq> None))"
proof -
  obtain st where st: "streams w c = Some st" using winv_stream [OF inv c] by blast
  show ?thesis
  proof (cases "n = 0 \<or> sv_tasks st = []")
    case True
    with inv c st show ?thesis by (auto simp: consume_loop_def get_conn_def get_sv_def)
  next
    case False
    then obtain t rest where t: "sv_tasks st = t # rest" by (cases "sv_tasks st") auto
    let ?w = "w\<lparr>streams := (streams w)(c \<mapsto> st\<lparr>sv_tasks := rest\<rparr>)\<rparr>"
    have "safe (bindE (perform_task cd h self c t ?w) (\<lambda>(w1, go_on). if go_on then self (ConsumeLoop (n - 1)) c w1 else Inr w1))
        (\<lambda>w'. winv cd i held w' \<and> (i = Some c \<longrightarrow> conns w' c \<noteq> None))"
    proof (rule safe_bind [OF perform_task_safe [OF ok pol inv c i st t]])
      fix x
      assume x: "case x of (w', go_on) \<Rightarrow> winv cd i held w' \<and> (go_on \<or> i = Some c \<longrightarrow> conns w' c \<noteq> None)"
      obtain w1 k where [simp]: "x = (w1, k)" by (cases x)
      show "safe (case x of (w1, go_on) \<Rightarrow> if go_on then self (ConsumeLoop (n - 1)) c w1 else Inr w1)
        (\<lambda>w'. winv cd i held w' \<and> (i = Some c \<longrightarrow> conns w' c \<noteq> None))"
      proof (cases k)
        case True
        with x obtain cn1 where "winv cd i held w1" "conns w1 c = Some cn1" by auto
        from run_okD(2) [OF ok this i] True show ?thesis by simp
      next
        case False
        with x show ?thesis by auto
      qed
    qed
    with False c st t show ?thesis by (simp add: consume_loop_def get_conn_def get_sv_def)
  qed
qed

lemma conn_run_safe: "polite h \<Longrightarrow> run_ok cd (conn_run k cd h)"
proof (induction k)
  case 0
  then show ?case by (simp add: run_ok_def)
next
  case (Suc k)
  then have ok: "run_ok cd (conn_run k cd h)" by simp
  show ?case
    unfolding run_ok_def
    using Suc.prems consume_task_safe [OF ok] consume_loop_safe [OF ok] finish_task_safe [OF ok]
      finish_waiting_safe [OF ok] destroy_safe [OF _ ok]
    by simp
qed

section \<open>Logins\<close>

lemma defer_login_eq:
  assumes "conns w c = Some cn"
  shows "defer_login c w =
    Inr (w\<lparr>conns := (conns w)(c \<mapsto> cn\<lparr>conn_status := WAIT_LOGIN, conn_lcid := cid_seed w + 1\<rparr>),
      cid_seed := cid_seed w + 1, pmap := (pmap w)(cid_seed w + 1 \<mapsto> c),
      workers := (workers w)(conn_worker cn := (workers w (conn_worker cn))\<lparr>connections := connections (workers w (conn_worker cn)) @ [c]\<rparr>),
      deferred := deferred w @ [(c, cid_seed w + 1)]\<rparr>)"
  using assms by (cases w) (simp add: defer_login_def set_status_def set_conn_def get_conn_def new_login_cid_def Let_def
      on_register_def map_set_def)

lemma defer_safe:
  assumes inv: "winv cd (Some c) held w" and c: "conns w c = Some cn" and st: "conn_status cn = LOGIN" and seed: "cid_seed w \<noteq> -1"
  shows "safe (defer_login c w) (\<lambda>w'. winv cd None held w' \<and> (\<exists>cn'. conns w' c = Some cn' \<and> conn_status cn' = WAIT_LOGIN))"
proof -
  let ?l = "cid_seed w + 1"
  let ?cn = "cn\<lparr>conn_status := WAIT_LOGIN, conn_lcid := ?l\<rparr>"
  let ?cs = "(conns w)(c \<mapsto> ?cn)"
  have old: "ops_inv (Some c) (conns w) (pending w)" "refs_inv held (conns w) (streams w) (pending w) (next_addr w)"
    "cmap_inv (conns w) (cmap w)" "login_inv cd (conns w) (streams w) (pmap w)" "work_inv (conns w) (workers w)"
    using inv by (simp_all add: winv_def)
  have l: "?l \<noteq> 0" using seed by (metis add.commute add_eq_0_iff)
  have jobs: "conn_jobs c (pending w) = 0" using ops_inv_at [OF inv, of c] c by (simp add: ops_at_def)
  have "ops_inv None ?cs (pending w)"
    by (rule ops_inv_upd [OF old(1)]) (use jobs in \<open>auto simp: ops_at_def ops_ok_def\<close>)
  moreover have "refs_inv held ?cs (streams w) (pending w) (next_addr w)"
    by (rule refs_inv_same_stream [OF old(2)]) (use c in auto)
  moreover have "cmap_inv ?cs (cmap w)"
    by (rule cmap_inv_upd [OF old(3) c]) (use st in simp_all)
  moreover have "login_inv cd ?cs (streams w) ((pmap w)(?l \<mapsto> c))"
    unfolding login_inv_def
  proof (intro conjI allI impI)
    fix k d
    assume kd: "((pmap w)(?l \<mapsto> c)) k = Some d"
    show "\<exists>dn. ?cs d = Some dn \<and> conn_lcid dn = k \<and> conn_status dn = WAIT_LOGIN"
    proof (cases "d = c")
      case True
      have "pmap w k \<noteq> Some c"
      proof
        assume "pmap w k = Some c"
        with old(4) obtain dn where "conns w c = Some dn" "conn_status dn = WAIT_LOGIN" unfolding login_inv_def by blast
        with c st show False by simp
      qed
      with kd True show ?thesis by (auto split: if_splits)
    next
      case False
      with kd old(4) show ?thesis by (auto simp: login_inv_def split: if_splits)
    qed
  next
    fix d dn t
    assume d: "?cs d = Some dn" and t: "streams w d = Some t"
    show "tasks_ok cd (conn_status dn) (((pmap w)(?l \<mapsto> c)) (conn_lcid dn) = Some d) (sv_tasks t)"
    proof (cases "d = c")
      case True
      have "tasks_ok cd (conn_status cn) (pmap w (conn_lcid cn) = Some c) (sv_tasks t)"
        using winv_tasks [OF inv c] t True by simp
      with True d st show ?thesis by (auto simp: tasks_ok_def filter_empty_conv)
    next
      case False
      with d t have "tasks_ok cd (conn_status dn) (pmap w (conn_lcid dn) = Some d) (sv_tasks t)"
        using old(4) by (simp add: login_inv_def)
      with False show ?thesis by (cases "conn_status dn = WAIT_LOGIN") (auto simp: tasks_ok_def split: if_splits)
    qed
  next
    fix d dn t
    assume "?cs d = Some dn" and "streams w d = Some t" and "conn_status dn = WAIT_LOGIN"
    then show "conn_lcid dn \<noteq> 0" using old(4) l by (auto simp: login_inv_def split: if_splits)
  qed
  moreover have "work_inv ?cs ((workers w)(conn_worker cn := (workers w (conn_worker cn))\<lparr>connections := connections (workers w (conn_worker cn)) @ [c]\<rparr>))"
  proof -
    have notin: "c \<notin> set (connections (workers w k))" for k using old(5) c st by (fastforce simp: work_inv_def)
    show ?thesis unfolding work_inv_def using old(5) notin by (auto simp: work_inv_def)
  qed
  ultimately show ?thesis unfolding defer_login_eq [OF c] by (simp add: winv_def)
qed

lemma run_apis_append: "run_apis c (as @ bs) w = bindE (run_apis c as w) (run_apis c bs)"
proof (induction as arbitrary: w)
  case (Cons a as)
  then have "run_apis c (as @ bs) = (\<lambda>x. bindE (run_apis c as x) (run_apis c bs))" by (intro ext)
  then show ?case by (simp add: bindE_assoc)
qed simp

lemma run_apis_login_safe:
  assumes inv: "winv cd (Some c) held w" and c: "conns w c = Some cn" and st: "conn_status cn = LOGIN"
    and pol: "polite_login as" and seed: "ApiDefer \<in> set as \<longrightarrow> cid_seed w \<noteq> -1"
  shows "safe (run_apis c as w) (\<lambda>w'. \<exists>cn'. conns w' c = Some cn' \<and>
    (if conn_status cn' = WAIT_LOGIN then winv cd None held w' else winv cd (Some c) held w' \<and> conn_status cn' \<in> {LOGIN, CLOSE}))"
proof (cases "ApiDefer \<in> set as")
  case False
  then show ?thesis
    using st by (intro safe_mono [OF run_apis_safe [OF inv c False]]) (auto simp: maybe_closed_def)
next
  case True
  then obtain pre post where as: "as = pre @ ApiDefer # post" "ApiDefer \<notin> set pre" by (meson split_list_first)
  have noc: "ApiClose \<notin> set as" and "length (filter (\<lambda>a. a = ApiDefer) as) = 1" using pol True by (auto simp: polite_login_def)
  then have post: "ApiDefer \<notin> set post" using as by (auto simp: filter_empty_conv)
  have "safe (run_apis c pre w) (\<lambda>w'. winv cd (Some c) held w' \<and> conns w' c = Some cn \<and> cid_seed w' = cid_seed w)"
    by (rule safe_mono [OF run_apis_safe [OF inv c as(2)]]) (use noc as in auto)
  then have "safe (bindE (run_apis c pre w) (\<lambda>w1. bindE (defer_login c w1) (run_apis c post)))
    (\<lambda>w'. \<exists>cn'. conns w' c = Some cn' \<and>
      (if conn_status cn' = WAIT_LOGIN then winv cd None held w' else winv cd (Some c) held w' \<and> conn_status cn' \<in> {LOGIN, CLOSE}))"
  proof (rule safe_bind)
    fix w1
    assume w1: "winv cd (Some c) held w1 \<and> conns w1 c = Some cn \<and> cid_seed w1 = cid_seed w"
    have "safe (defer_login c w1) (\<lambda>w'. winv cd None held w' \<and> (\<exists>cn'. conns w' c = Some cn' \<and> conn_status cn' = WAIT_LOGIN))"
      by (rule defer_safe [of cd c held w1 cn]) (use w1 st seed True in auto)
    then show "safe (bindE (defer_login c w1) (run_apis c post)) (\<lambda>w'. \<exists>cn'. conns w' c = Some cn' \<and>
      (if conn_status cn' = WAIT_LOGIN then winv cd None held w' else winv cd (Some c) held w' \<and> conn_status cn' \<in> {LOGIN, CLOSE}))"
    proof (rule safe_bind)
      fix w2
      assume "winv cd None held w2 \<and> (\<exists>cn'. conns w2 c = Some cn' \<and> conn_status cn' = WAIT_LOGIN)"
      then obtain cn2 where w2: "winv cd None held w2" "conns w2 c = Some cn2" "conn_status cn2 = WAIT_LOGIN" by blast
      show "safe (run_apis c post w2) (\<lambda>w'. \<exists>cn'. conns w' c = Some cn' \<and>
        (if conn_status cn' = WAIT_LOGIN then winv cd None held w' else winv cd (Some c) held w' \<and> conn_status cn' \<in> {LOGIN, CLOSE}))"
        by (rule safe_mono [OF run_apis_safe [OF w2(1,2) post]]) (use noc as w2 in auto)
    qed
  qed
  moreover have "run_apis c (ApiDefer # post) = (\<lambda>w1. bindE (defer_login c w1) (run_apis c post))"
    by (intro ext) simp
  ultimately show ?thesis unfolding as(1) run_apis_append by simp
qed

end
