(* ===== verification/Server_Events.thy ===== *)
theory Server_Events
  imports Server_Runs
begin

text \<open>
  Events of the server side, completions, ticks of a worker and calls from other threads, keep the
  invariant of theory \<open>Server_Safety\<close>: no run uses a deleted object.
\<close>

section \<open>Steps of a connection\<close>

definition logged_in :: "codec \<Rightarrow> (nat \<Rightarrow> nat) \<Rightarrow> nat \<Rightarrow> world \<Rightarrow> bool" where
  "logged_in cd held c w \<longleftrightarrow> (\<exists>cn. conns w c = Some cn \<and>
    (if conn_status cn = WAIT_LOGIN then winv cd None held w else winv cd (Some c) held w \<and> conn_status cn \<in> {LOGIN, CLOSE}))"

lemma conn_login_safe:
  assumes pol: "polite h" and inv: "winv cd (Some c) held w" and c: "conns w c = Some cn" and st: "conn_status cn = LOGIN"
  shows "safe (conn_login cd h c w) (\<lambda>(w', _). logged_in cd held c w')"
proof -
  obtain cmds cid slice where hl: "h_login h w c (conn_req cn) = (cmds, cid, slice)" by (cases "h_login h w c (conn_req cn)")
  have "polite_login (fst (h_login h w c (conn_req cn)))" "ApiDefer \<in> set (fst (h_login h w c (conn_req cn))) \<longrightarrow> cid_seed w \<noteq> -1"
    using pol unfolding polite_def by blast+
  with hl have pl: "polite_login cmds" "ApiDefer \<in> set cmds \<longrightarrow> cid_seed w \<noteq> -1" by simp_all
  let ?send = "\<lambda>w1. if cid \<noteq> 0 then
           bindE (stream_send c (setup_system_reply (rq_msgid (conn_req cn)) (enc_connect cd \<lparr>cn_id = cid, cn_payload = slice\<rparr>) new_reply) w1)
             (\<lambda>w2. Inr (w2, cid))
         else bindE (stream_send c (setup_throw (rq_msgid (conn_req cn)) (deny_error slice) new_reply) w1) (\<lambda>w2. Inr (w2, cid))"
  have "safe (run_apis c cmds w) (logged_in cd held c)"
    unfolding logged_in_def by (rule run_apis_login_safe [OF inv c st pl])
  then have "safe (bindE (run_apis c cmds w) (\<lambda>w1. bindE (get_conn c w1) (\<lambda>cn1.
      if wait_login_accept cn1 then Inr (w1, cid) else ?send w1))) (\<lambda>(w', _). logged_in cd held c w')"
  proof (rule safe_bind)
    fix w1
    assume lg: "logged_in cd held c w1"
    then obtain cn1 where c1: "conns w1 c = Some cn1" by (auto simp: logged_in_def)
    show "safe (bindE (get_conn c w1) (\<lambda>cn1. if wait_login_accept cn1 then Inr (w1, cid) else ?send w1)) (\<lambda>(w', _). logged_in cd held c w')"
    proof (cases "conn_status cn1 = WAIT_LOGIN")
      case True
      with lg c1 show ?thesis by (simp add: get_conn_def wait_login_accept_def)
    next
      case False
      with lg c1 have w1: "winv cd (Some c) held w1" "conn_status cn1 \<in> {LOGIN, CLOSE}" by (simp_all add: logged_in_def)
      obtain st where st1: "streams w1 c = Some st" using winv_stream [OF w1(1) c1] by blast
      have "safe (stream_send c r w1) (\<lambda>w2. logged_in cd held c w2)" for r
        by (rule safe_mono [OF send_safe [OF w1(1) st1]]) (use w1 c1 in \<open>auto simp: only_stream_def logged_in_def\<close>)
      then have "safe (bindE (stream_send c r w1) (\<lambda>w2. Inr (w2, k))) (\<lambda>(w', _). logged_in cd held c w')" for r and k :: u64
        by (rule safe_bind) simp
      with False c1 show ?thesis by (simp add: get_conn_def wait_login_accept_def)
    qed
  qed
  with c hl show ?thesis by (simp add: conn_login_def get_conn_def Let_def)
qed

lemma step_login_safe:
  assumes pol: "polite h" and inv: "winv cd (Some c) held w" and c: "conns w c = Some cn" and st: "conn_status cn = LOGIN"
  shows "safe (step_login cd h c w) (winv cd None held)"
proof (cases "rq_kind (conn_req cn) = Close")
  case True
  with finish_safe [OF inv c] c show ?thesis by (simp add: step_login_def get_conn_def)
next
  case False
  let ?rest = "\<lambda>cid w1. bindE (get_conn c w1) (\<lambda>cn1.
           if conn_status cn1 = CLOSE \<or> dying (workers w1 (conn_worker cn1)) then conn_finish c w1
           else if conn_status cn1 = WAIT_LOGIN then Inr w1
           else bindE (conn_register c cid w1) (\<lambda>w2. bindE (set_status c READ w2) (conn_recv c)))"
  have "safe (bindE (conn_login cd h c w) (\<lambda>(w1, cid). ?rest cid w1)) (winv cd None held)"
  proof (rule safe_bind [OF conn_login_safe [OF pol inv c st]])
    fix x :: "world \<times> u64"
    assume x: "case x of (w', _) \<Rightarrow> logged_in cd held c w'"
    obtain w1 cid where [simp]: "x = (w1, cid)" by (cases x)
    from x obtain cn1 where c1: "conns w1 c = Some cn1" by (auto simp: logged_in_def)
    have "safe (?rest cid w1) (winv cd None held)"
    proof (cases "conn_status cn1 = WAIT_LOGIN")
      case True
      with x c1 have "winv cd None held w1" by (simp add: logged_in_def)
      moreover from this have "\<not> dying (workers w1 (conn_worker cn1))" by (simp add: winv_def work_inv_def)
      ultimately show ?thesis using True c1 by (simp add: get_conn_def)
    next
      case False
      with x c1 have w1: "winv cd (Some c) held w1" "conn_status cn1 \<in> {LOGIN, CLOSE}" by (simp_all add: logged_in_def)
      have alive: "\<not> dying (workers w1 (conn_worker cn1))" using w1(1) by (simp add: winv_def work_inv_def)
      show ?thesis
      proof (cases "conn_status cn1 = CLOSE")
        case True
        with finish_safe [OF w1(1) c1] c1 show ?thesis by (simp add: get_conn_def)
      next
        case False
        with w1 have "conn_status cn1 = LOGIN" by simp
        then have "safe (bindE (bindE (conn_register c cid w1) (set_status c READ)) (conn_recv c)) (winv cd None held)"
          by (intro safe_bind [OF register_read_safe [OF w1(1) c1]]) (auto intro: safe_mono [OF recv_safe])
        with \<open>conn_status cn1 = LOGIN\<close> alive c1 show ?thesis by (simp add: get_conn_def bindE_assoc)
      qed
    qed
    then show "safe (case x of (w1, cid) \<Rightarrow> ?rest cid w1) (winv cd None held)" by simp
  qed
  with False c show ?thesis by (simp add: step_login_def get_conn_def)
qed

lemma step_read_safe:
  assumes pol: "polite h" and inv: "winv cd (Some c) held w" and c: "conns w c = Some cn"
  shows "safe (step_read h c w) (winv cd None held)"
proof (cases "rq_kind (conn_req cn) = Close")
  case True
  with finish_safe [OF inv c] c show ?thesis by (simp add: step_read_def get_conn_def)
next
  case False
  obtain cmds ok where hh: "h_handle h w c (conn_req cn) = (cmds, ok)" by (cases "h_handle h w c (conn_req cn)")
  have nowait: "conn_status cn \<noteq> WAIT_LOGIN" using ops_inv_at [OF inv, of c] c by (auto simp: ops_at_def idle_ok_def)
  have "ApiDefer \<notin> set (fst (h_handle h w c (conn_req cn)))" using pol unfolding polite_def by blast
  then have "ApiDefer \<notin> set cmds" using hh by simp
  then have "safe (run_apis c cmds w) (\<lambda>w'. winv cd (Some c) held w' \<and> (\<exists>cn'. conns w' c = Some cn'))"
    using nowait by (intro safe_mono [OF run_apis_safe [OF inv c]]) auto
  then have "safe (bindE (run_apis c cmds w) (\<lambda>w1. bindE (get_conn c w1) (\<lambda>cn1.
      if ok \<and> conn_status cn1 \<noteq> CLOSE \<and> \<not> dying (workers w1 (conn_worker cn1)) then conn_recv c w1 else conn_finish c w1)))
      (winv cd None held)"
    by (rule safe_bind) (auto simp: get_conn_def intro: safe_mono [OF recv_safe] safe_mono [OF finish_safe])
  with False c hh show ?thesis by (simp add: step_read_def get_conn_def)
qed

text \<open>A new \<open>Conn\<close>, waiting for a client.\<close>

lemma worker_new_inv:
  assumes inv: "winv cd i held w" and held: "held (next_addr w) = 0" and i: "i \<noteq> Some (next_addr w)"
  shows "winv cd i held (worker_new wk w)"
proof -
  let ?c = "next_addr w"
  let ?cn = "\<lparr>conn_worker = wk, conn_status = ACCEPT, conn_req = new_request, conn_cid = 0, conn_lcid = 0\<rparr>"
  have old: "ops_inv i (conns w) (pending w)" "refs_inv held (conns w) (streams w) (pending w) (next_addr w)"
    "cmap_inv (conns w) (cmap w)" "login_inv cd (conns w) (streams w) (pmap w)" "work_inv (conns w) (workers w)"
    using inv by (simp_all add: winv_def)
  have s: "streams w ?c = None" using refs_inv_stream [OF old(2), of ?c] by (cases "streams w ?c") auto
  then have cn: "conns w ?c = None" using refs_inv_live [OF old(2), of ?c] by blast
  have jobs: "conn_jobs ?c (pending w) = 0" using old(1) cn by (auto simp: ops_inv_def ops_at_def dest: spec [of _ ?c])
  have at: "refs_at (held ?c) (conns w ?c \<noteq> None) (streams w ?c) (write_jobs ?c (pending w)) (closer_jobs ?c (pending w)) (?c < ?c)"
    using old(2) unfolding refs_inv_def by blast
  have "ops_inv i ((conns w)(?c \<mapsto> ?cn)) (pending w @ [(OpAccept, JConn ?c)])"
    by (rule ops_inv_upd [OF old(1)]) (use jobs i in \<open>auto simp: ops_at_def ops_ok_def\<close>)
  moreover have "refs_inv held ((conns w)(?c \<mapsto> ?cn)) ((streams w)(?c \<mapsto> sv_ref new_svstream)) (pending w @ [(OpAccept, JConn ?c)]) (?c + 1)"
    by (rule refs_inv_upd [OF old(2)]) (use at s held in \<open>auto simp: refs_at_def refs_ok_def sv_ref_def new_svstream_def\<close>)
  moreover have "cmap_inv ((conns w)(?c \<mapsto> ?cn)) (cmap w)"
    using old(3) cn by (fastforce simp: cmap_inv_def)
  moreover have "login_inv cd ((conns w)(?c \<mapsto> ?cn)) ((streams w)(?c \<mapsto> sv_ref new_svstream)) (pmap w)"
    using old(4) cn by (fastforce simp: login_inv_def tasks_ok_def sv_ref_def new_svstream_def)
  moreover have "work_inv ((conns w)(?c \<mapsto> ?cn)) (workers w)"
    using old(5) cn by (fastforce simp: work_inv_def)
  ultimately show ?thesis by (simp add: winv_def worker_new_def Let_def add_pending_def)
qed

lemma worker_new_conn: "conns w c = Some cn \<Longrightarrow> c \<noteq> next_addr w \<Longrightarrow> conns (worker_new wk w) c = Some cn"
  by (simp add: worker_new_def Let_def add_pending_def)

lemma conn_step_safe:
  assumes pol: "polite h" and inv: "winv cd (Some c) (\<lambda>_. 0) w" and c: "conns w c = Some cn"
  shows "safe (conn_step k cd h c w) (winv cd None (\<lambda>_. 0))"
proof -
  have at: "ops_at (Some c = Some c) (Some cn) (conn_jobs c (pending w))" using ops_inv_at [OF inv, of c] c by simp
  then have idle: "idle_ok (conn_status cn)" by (simp add: ops_at_def)
  then consider "conn_status cn = ACCEPT" | "conn_status cn = LOGIN" | "conn_status cn = READ" | "conn_status cn = CLOSE"
    by (auto simp: idle_ok_def)
  then show ?thesis
  proof cases
    case 1
    obtain st where "c < next_addr w" using winv_stream [OF inv c] by blast
    then have ne: "c \<noteq> next_addr w" by simp
    let ?w = "worker_new (conn_worker cn) w"
    have w: "winv cd (Some c) (\<lambda>_. 0) ?w" using ne by (intro worker_new_inv [OF inv]) auto
    have cw: "conns ?w c = Some cn" by (rule worker_new_conn [OF c ne])
    have "ops_at (Some c = Some c) (Some cn) (conn_jobs c (pending ?w))" using ops_inv_at [OF w, of c] cw by simp
    then have "ops_at (Some c = Some c) (Some (cn\<lparr>conn_status := LOGIN\<rparr>)) (conn_jobs c (pending ?w) + conn_jobs c [])"
      by (simp add: ops_at_def idle_ok_def)
    from winv_conn_upd [OF w cw _ _ _ _ this] 1
    have w1: "winv cd (Some c) (\<lambda>_. 0) (?w\<lparr>conns := (conns ?w)(c \<mapsto> cn\<lparr>conn_status := LOGIN\<rparr>)\<rparr>)"
      by (simp add: status_change_def)
    have "safe (conn_recv c (?w\<lparr>conns := (conns ?w)(c \<mapsto> cn\<lparr>conn_status := LOGIN\<rparr>)\<rparr>)) (winv cd None (\<lambda>_. 0))"
      by (rule safe_mono [OF recv_safe [OF w1]]) auto
    with 1 c cw show ?thesis by (simp add: conn_step_def get_conn_def set_status_def set_conn_def)
  next
    case 2
    with step_login_safe [OF pol inv c 2] c show ?thesis by (simp add: conn_step_def get_conn_def)
  next
    case 3
    with step_read_safe [OF pol inv c] c show ?thesis by (simp add: conn_step_def get_conn_def)
  next
    case 4
    have "safe (conn_run k cd h Destroy c w) (winv cd None (\<lambda>_. 0))"
      by (rule safe_mono [OF run_okD(5) [OF conn_run_safe [OF pol] inv c]]) simp
    with 4 c show ?thesis by (simp add: conn_step_def get_conn_def)
  qed
qed

section \<open>Completions\<close>

lemma take_drop_jobs:
  assumes "n < length ps" and "ps ! n = (op, j)"
  shows "conn_jobs c ps = conn_jobs c (take n ps @ drop (Suc n) ps) + (if j = JConn c then 1 else 0)"
    and "write_jobs c ps = write_jobs c (take n ps @ drop (Suc n) ps) + (if j = JStream c then 1 else 0)"
    and "closer_jobs c ps = closer_jobs c (take n ps @ drop (Suc n) ps) + (if j = JCloser c then 1 else 0)"
proof -
  have "ps = take n ps @ (op, j) # drop (Suc n) ps" using assms by (metis id_take_nth_drop)
  then have eq: "f ps = f (take n ps @ (op, j) # drop (Suc n) ps)" for f :: "(rpc_op \<times> job) list \<Rightarrow> nat" by metis
  show "conn_jobs c ps = conn_jobs c (take n ps @ drop (Suc n) ps) + (if j = JConn c then 1 else 0)"
    by (subst eq) simp
  show "write_jobs c ps = write_jobs c (take n ps @ drop (Suc n) ps) + (if j = JStream c then 1 else 0)"
    by (subst eq) simp
  show "closer_jobs c ps = closer_jobs c (take n ps @ drop (Suc n) ps) + (if j = JCloser c then 1 else 0)"
    by (subst eq) simp
qed

text \<open>The completion delivered leaves its reference to the code that handles it.\<close>

lemma pop_conn:
  assumes inv: "winv cd None held w" and n: "n < length (pending w)" "pending w ! n = (op, JConn c)"
  obtains cn where "conns w c = Some cn"
    and "winv cd (Some c) held (w\<lparr>pending := take n (pending w) @ drop (Suc n) (pending w)\<rparr>)"
proof -
  let ?ps = "take n (pending w) @ drop (Suc n) (pending w)"
  note jobs = take_drop_jobs [OF n]
  have at: "ops_at False (conns w c) (conn_jobs c (pending w))" using ops_inv_at [OF inv, of c] by simp
  then obtain cn where c: "conns w c = Some cn" using jobs(1) [of c] by (cases "conns w c") (auto simp: ops_at_def)
  have "ops_inv (Some c) ((conns w)(c := Some cn)) ?ps"
  proof (rule ops_inv_upd)
    show "ops_inv None (conns w) (pending w)" using inv by (simp add: winv_def)
    show "conn_jobs d ?ps = conn_jobs d (pending w)" if "d \<noteq> c" for d using that jobs(1) [of d] by simp
    show "ops_at (Some c = Some c) (Some cn) (conn_jobs c ?ps)"
      using at c jobs(1) [of c] by (auto simp: ops_at_def ops_ok_def idle_ok_def split: stream_status.splits)
  qed simp
  moreover have "(conns w)(c := Some cn) = conns w" by (rule fun_upd_idem) (rule c)
  moreover have "refs_inv held (conns w) (streams w) ?ps (next_addr w)"
    by (rule refs_inv_same_stream [where ps = "pending w" and cs = "conns w"]) (use inv jobs(2,3) in \<open>auto simp: winv_def\<close>)
  ultimately have "winv cd (Some c) held (w\<lparr>pending := ?ps\<rparr>)" using inv by (simp add: winv_def)
  with c that show ?thesis by blast
qed

lemma pop_stream:
  assumes inv: "winv cd None held w" and n: "n < length (pending w)" "pending w ! n = (op, j)" and j: "j = JStream s \<or> j = JCloser s"
  obtains st where "streams w s = Some st" and "j = JStream s \<Longrightarrow> is_sending st"
    and "j = JStream s \<Longrightarrow> write_jobs s (take n (pending w) @ drop (Suc n) (pending w)) = 0"
    and "winv cd None (held(s := Suc (held s))) (w\<lparr>pending := take n (pending w) @ drop (Suc n) (pending w)\<rparr>)"
proof -
  let ?ps = "take n (pending w) @ drop (Suc n) (pending w)"
  note jobs = take_drop_jobs [OF n]
  have r: "refs_inv held (conns w) (streams w) (pending w) (next_addr w)" using inv by (simp add: winv_def)
  then have at: "refs_at (held s) (conns w s \<noteq> None) (streams w s) (write_jobs s (pending w)) (closer_jobs s (pending w)) (s < next_addr w)"
    unfolding refs_inv_def by blast
  then obtain st where s: "streams w s = Some st" using j jobs(2,3) [of s] by (cases "streams w s") (auto simp: refs_at_def)
  have snd: "j = JStream s \<Longrightarrow> is_sending st \<and> write_jobs s ?ps = 0"
    using at s jobs(2) [of s] by (auto simp: refs_at_def refs_ok_def)
  have "refs_inv (held(s := Suc (held s))) (conns w) ((streams w)(s := Some st)) ?ps (next_addr w)"
  proof (rule refs_inv_upd [OF r])
    show "write_jobs d ?ps = write_jobs d (pending w) \<and> closer_jobs d ?ps = closer_jobs d (pending w) \<and>
        (held(s := Suc (held s))) d = held d \<and> conns w d = conns w d" if "d \<noteq> s" for d
      using that j jobs(2,3) [of d] by auto
    show "refs_at ((held(s := Suc (held s))) s) (conns w s \<noteq> None) (Some st) (write_jobs s ?ps) (closer_jobs s ?ps) (s < next_addr w)"
      using at s j jobs(2,3) [of s] by (auto simp: refs_at_def refs_ok_def)
  qed simp
  moreover have "(streams w)(s := Some st) = streams w" by (rule fun_upd_idem) (rule s)
  moreover have "ops_inv None (conns w) ?ps"
    by (rule ops_inv_same_conn [where ps = "pending w"]) (use inv j jobs(1) in \<open>auto simp: winv_def\<close>)
  ultimately have "winv cd None (held(s := Suc (held s))) (w\<lparr>pending := ?ps\<rparr>)" using inv by (simp add: winv_def)
  with s snd that show ?thesis by blast
qed

lemma stream_step_safe:
  assumes inv: "winv cd None (held(s := Suc (held s))) w" and st: "streams w s = Some st" and snd: "is_sending st"
    and nw: "write_jobs s (pending w) = 0"
  shows "safe (stream_step s w) (winv cd None held)"
proof (cases "sv_queue st")
  case Nil
  let ?so = "sv_unref (st\<lparr>is_sending := False\<rparr>)"
  have upd: "streams (stream_gone s st ?so w) = (streams w)(s := ?so)" "only_stream s w (stream_gone s st ?so w)"
    "pending (stream_gone s st ?so w) = pending w @ []"
    by (simp_all add: stream_gone_def only_stream_def split: option.split)
  have "winv cd None held (stream_gone s st ?so w)"
    by (rule winv_stream_upd [OF inv st upd(3) _ _ upd(1,2)])
      (use nw in \<open>auto simp: sv_unref_def Let_def refs_at_def refs_ok_def split: if_splits\<close>)
  then show ?thesis using Nil st by (simp add: stream_step_def get_sv_def sv_step_def)
next
  case (Cons r rest)
  let ?st = "(io_write r st)\<lparr>sv_queue := rest\<rparr>"
  have "winv cd None held (add_pending (OpWrite r) (JStream s) (w\<lparr>streams := (streams w)(s \<mapsto> ?st)\<rparr>))"
    by (rule winv_stream_upd [OF inv st, where ps = "[(OpWrite r, JStream s)]" and so = "Some ?st"])
      (use nw snd in \<open>auto simp: only_stream_def add_pending_def io_write_def refs_at_def refs_ok_def\<close>)
  then show ?thesis using Cons st by (simp add: stream_step_def get_sv_def sv_step_def stream_gone_def)
qed

lemma worker_complete_safe:
  assumes pol: "polite h" and inv: "winv cd None (\<lambda>_. 0) w" and n: "n < length (pending w)"
  shows "safe (worker_complete k cd h n ok msg w) (winv cd None (\<lambda>_. 0))"
proof -
  obtain op j where j: "pending w ! n = (op, j)" by (cases "pending w ! n")
  let ?w = "w\<lparr>pending := take n (pending w) @ drop (Suc n) (pending w)\<rparr>"
  have "safe (process_job k cd h op j ok msg ?w) (winv cd None (\<lambda>_. 0))"
  proof (cases j)
    case (JConn c)
    with j have "pending w ! n = (op, JConn c)" by simp
    from pop_conn [OF inv n this] obtain cn where c: "conns w c = Some cn" and w: "winv cd (Some c) (\<lambda>_. 0) ?w" by blast
    have "safe (if op = OpRead \<and> ok then set_conn c (\<lambda>cn. cn\<lparr>conn_req := msg\<rparr>) ?w else Inr ?w)
        (\<lambda>w1. winv cd (Some c) (\<lambda>_. 0) w1 \<and> (\<exists>cn. conns w1 c = Some cn))"
      using w c winv_req [OF w, of cn msg] by (simp add: set_conn_def get_conn_def)
    then have "safe (bindE (if op = OpRead \<and> ok then set_conn c (\<lambda>cn. cn\<lparr>conn_req := msg\<rparr>) ?w else Inr ?w)
        (\<lambda>w1. if ok then conn_step k cd h c w1 else conn_run k cd h Destroy c w1)) (winv cd None (\<lambda>_. 0))"
      by (rule safe_bind)
        (auto intro: conn_step_safe [OF pol] safe_mono [OF run_okD(5) [OF conn_run_safe [OF pol]]])
    with JConn show ?thesis by (simp add: process_job_def)
  next
    case (JStream s)
    obtain st where st: "streams w s = Some st" "is_sending st" "write_jobs s (pending ?w) = 0" "winv cd None ((\<lambda>_. 0)(s := Suc 0)) ?w"
      by (rule pop_stream [OF inv n j, of s]) (use JStream in auto)
    then have w: "winv cd None ((\<lambda>_. 0)(s := Suc ((\<lambda>_. 0) s))) ?w" and s: "streams ?w s = Some st" by simp_all
    from stream_step_safe [OF w s st(2,3)] safe_mono [OF unref_safe [OF w s]] JStream
    show ?thesis by (simp add: process_job_def)
  next
    case (JCloser s)
    obtain st where st: "streams w s = Some st" "winv cd None ((\<lambda>_. 0)(s := Suc 0)) ?w"
      by (rule pop_stream [OF inv n j, of s]) (use JCloser in auto)
    then have w: "winv cd None ((\<lambda>_. 0)(s := Suc ((\<lambda>_. 0) s))) ?w" and s: "streams ?w s = Some st" by simp_all
    from safe_mono [OF unref_safe [OF w s]] JCloser show ?thesis by (simp add: process_job_def)
  qed
  with n j show ?thesis by (simp add: worker_complete_def)
qed

section \<open>Ticks\<close>

lemma tick_loop_safe:
  assumes "polite h" and "winv cd None (\<lambda>_. 0) w"
  shows "safe (tick_loop k cd h i wk w) (winv cd None (\<lambda>_. 0))"
  using assms
proof (induction k arbitrary: i w)
  case (Suc k)
  show ?case
  proof (cases "i < length (connections (workers w wk))")
    case True
    let ?c = "connections (workers w wk) ! i"
    have "?c \<in> set (connections (workers w wk))" using True by simp
    then obtain cn where "conns w ?c = Some cn" using Suc.prems(2) by (fastforce simp: winv_def work_inv_def)
    then have "safe (conn_run k cd h (ConsumeTask 3) ?c w) (\<lambda>w'. winv cd None (\<lambda>_. 0) w' \<and> (None = Some ?c \<longrightarrow> conns w' ?c \<noteq> None))"
      by (rule run_okD(1) [OF conn_run_safe [OF Suc.prems(1)] Suc.prems(2)]) simp
    then have "safe (bindE (conn_run k cd h (ConsumeTask 3) ?c w) (tick_loop k cd h (Suc i) wk)) (winv cd None (\<lambda>_. 0))"
      by (rule safe_bind) (use Suc.IH Suc.prems(1) in auto)
    with True show ?thesis by simp
  next
    case False
    with Suc.prems show ?thesis by simp
  qed
qed simp

section \<open>Calls from other threads\<close>

lemma finish_login_safe:
  assumes cdok: "codec_ok cd" and inv: "winv cd None held w"
  shows "safe (finish_login cd lcid cid msgid data w) (winv cd None held)"
proof (cases "pmap w lcid")
  case None
  with inv show ?thesis by (simp add: finish_login_def map_find_def)
next
  case (Some c)
  let ?a = "\<lparr>lg_login_cid = lcid, lg_id = cid, lg_msgid = msgid, lg_payload = data\<rparr>"
  have old: "login_inv cd (conns w) (streams w) (pmap w)" using inv by (simp add: winv_def)
  with Some obtain cn where c: "conns w c = Some cn" "conn_lcid cn = lcid" "conn_status cn = WAIT_LOGIN"
    unfolding login_inv_def by blast
  obtain st where st: "streams w c = Some st" using winv_stream [OF inv c(1)] by blast
  let ?st = "sv_sys_task Login (enc_login cd ?a) st"
  let ?pm = "(pmap w)(lcid := None)"
  have refs: "refs_inv held (conns w) (streams w) (pending w) (next_addr w)" using inv by (simp add: winv_def)
  have "refs_inv held (conns w) ((streams w)(c \<mapsto> ?st)) (pending w) (next_addr w)"
    by (rule refs_inv_upd [OF refs]) (use refs_inv_stream [OF refs st] in \<open>auto simp: refs_at_def refs_ok_def sv_sys_task_def\<close>)
  moreover have "login_inv cd (conns w) ((streams w)(c \<mapsto> ?st)) ?pm"
    unfolding login_inv_def
  proof (intro conjI allI impI)
    fix l d
    assume "?pm l = Some d"
    then show "\<exists>dn. conns w d = Some dn \<and> conn_lcid dn = l \<and> conn_status dn = WAIT_LOGIN"
      using old by (auto simp: login_inv_def split: if_splits)
  next
    fix d dn t
    assume d: "conns w d = Some dn" and t: "((streams w)(c \<mapsto> ?st)) d = Some t"
    show "tasks_ok cd (conn_status dn) (?pm (conn_lcid dn) = Some d) (sv_tasks t)"
    proof (cases "d = c")
      case True
      then have "tasks_ok cd WAIT_LOGIN True (sv_tasks st)" using winv_tasks [OF inv c(1) st] c Some by simp
      with True d t c cdok show ?thesis
        by (auto simp: tasks_ok_def sv_sys_task_def tq_enqueue_def setup_sys_task_def codec_ok_def)
    next
      case False
      with t have "tasks_ok cd (conn_status dn) (pmap w (conn_lcid dn) = Some d) (sv_tasks t)"
        using winv_tasks [OF inv d] by simp
      then show ?thesis by (auto simp: tasks_ok_def split: if_splits)
    qed
  next
    fix d dn t
    assume "conns w d = Some dn" and "((streams w)(c \<mapsto> ?st)) d = Some t" and "conn_status dn = WAIT_LOGIN"
    then show "conn_lcid dn \<noteq> 0" using old st by (auto simp: login_inv_def split: if_splits)
  qed
  ultimately have "winv cd None held (w\<lparr>streams := (streams w)(c \<mapsto> ?st), pmap := ?pm\<rparr>)" using inv by (simp add: winv_def)
  moreover have "finish_login cd lcid cid msgid data w = Inr (w\<lparr>streams := (streams w)(c \<mapsto> ?st), pmap := ?pm\<rparr>)"
    using Some c st by (simp add: finish_login_def map_find_def map_erase_def get_conn_def on_sv_def get_sv_def)
  ultimately show ?thesis by simp
qed

lemma with_cid_safe:
  assumes inv: "winv cd None (\<lambda>_. 0) w"
    and op: "\<And>c cn w1 st. winv cd None ((\<lambda>_. 0)(c := 1)) w1 \<Longrightarrow> conns w1 c = Some cn \<Longrightarrow> conn_status cn \<in> {READ, CLOSE} \<Longrightarrow>
      streams w1 c = Some st \<Longrightarrow>
      safe (f c w1) (\<lambda>w2. winv cd None ((\<lambda>_. 0)(c := 1)) w2 \<and> only_stream c w1 w2 \<and> streams w2 c \<noteq> None)"
  shows "safe (with_cid cid f w) (winv cd None (\<lambda>_. 0))"
proof (cases "cmap w cid")
  case None
  with inv show ?thesis by (simp add: with_cid_def map_find_def)
next
  case (Some c)
  with inv obtain cn where c: "conns w c = Some cn" "conn_status cn \<in> {READ, CLOSE}"
    unfolding winv_def cmap_inv_def by blast
  obtain st where st: "streams w c = Some st" using winv_stream [OF inv c(1)] by blast
  let ?w = "w\<lparr>streams := (streams w)(c \<mapsto> sv_ref st)\<rparr>"
  have w1: "winv cd None ((\<lambda>_. 0)(c := 1)) ?w"
    by (rule winv_stream_upd [OF inv st, where ps = "[]" and so = "Some (sv_ref st)"])
      (auto simp: only_stream_def refs_at_def refs_ok_def sv_ref_def)
  have "safe (f c ?w) (\<lambda>w2. winv cd None ((\<lambda>_. 0)(c := 1)) w2 \<and> only_stream c ?w w2 \<and> streams w2 c \<noteq> None)"
    by (rule op [OF w1]) (use c in simp_all)
  then have "safe (bindE (f c ?w) (stream_unref c)) (winv cd None (\<lambda>_. 0))"
    by (rule safe_bind) (auto intro: safe_mono [OF unref_safe])
  with Some c st show ?thesis by (simp add: with_cid_def map_find_def get_conn_def on_sv_def get_sv_def)
qed

lemma cid_ops_safe:
  assumes inv: "winv cd None (\<lambda>_. 0) w"
  shows "safe (cid_send cid msgid data w) (winv cd None (\<lambda>_. 0))"
    and "safe (cid_notify cid msgid data w) (winv cd None (\<lambda>_. 0))"
    and "safe (cid_error cid msgid data w) (winv cd None (\<lambda>_. 0))"
    and "safe (cid_task cid msgid data w) (winv cd None (\<lambda>_. 0))"
    and "safe (cid_close cid w) (winv cd None (\<lambda>_. 0))"
proof -
  show "safe (cid_send cid msgid data w) (winv cd None (\<lambda>_. 0))"
    unfolding cid_send_def by (rule with_cid_safe [OF inv]) (rule send_safe)
  show "safe (cid_notify cid msgid data w) (winv cd None (\<lambda>_. 0))"
    unfolding cid_notify_def by (rule with_cid_safe [OF inv]) (rule send_safe)
  show "safe (cid_error cid msgid data w) (winv cd None (\<lambda>_. 0))"
    unfolding cid_error_def by (rule with_cid_safe [OF inv]) (rule send_safe)
  show "safe (cid_task cid msgid data w) (winv cd None (\<lambda>_. 0))"
    unfolding cid_task_def
    by (rule with_cid_safe [OF inv], rule on_sv_safe)
      (auto simp: sv_add_task_def tq_enqueue_def setup_request_def new_request_def intro!: tasks_ok_normal)
  show "safe (cid_close cid w) (winv cd None (\<lambda>_. 0))"
    unfolding cid_close_def
    by (rule with_cid_safe [OF inv], rule on_sv_safe)
      (auto simp: sv_close_def sv_sys_task_def tq_enqueue_def setup_sys_task_def new_request_def tasks_ok_def)
qed

section \<open>The system\<close>

text \<open>
  What happens to the server side: a worker starts, the \<open>n\<close>-th of the started operations is completed, a
  worker goes through its connections, a deferred login is answered, and the calls by connection id.
  Completions of operations that do not exist do not occur.
\<close>

datatype server_event =
    Started nat
  | Completed nat bool request
  | Ticked nat
  | LoginFinished u64 u64 u32 string
  | SentTo u64 u32 string
  | NotifiedTo u64 u32 string
  | ThrownTo u64 u32 string
  | TaskFor u64 u32 string
  | ClosedFor u64

fun server_step :: "nat \<Rightarrow> codec \<Rightarrow> handler \<Rightarrow> world \<Rightarrow> server_event \<Rightarrow> conn_fault + world" where
  "server_step k cd h w (Started wk) = Inr (worker_new wk w)"
| "server_step k cd h w (Completed n ok msg) = (if n < length (pending w) then worker_complete k cd h n ok msg w else Inr w)"
| "server_step k cd h w (Ticked wk) = tick_loop k cd h 0 wk w"
| "server_step k cd h w (LoginFinished lcid cid msgid data) = finish_login cd lcid cid msgid data w"
| "server_step k cd h w (SentTo cid msgid data) = cid_send cid msgid data w"
| "server_step k cd h w (NotifiedTo cid type data) = cid_notify cid type data w"
| "server_step k cd h w (ThrownTo cid msgid data) = cid_error cid msgid data w"
| "server_step k cd h w (TaskFor cid type data) = cid_task cid type data w"
| "server_step k cd h w (ClosedFor cid) = cid_close cid w"

definition server_inv :: "codec \<Rightarrow> handler \<Rightarrow> world \<Rightarrow> bool" where
  "server_inv cd h w \<longleftrightarrow> polite h \<and> codec_ok cd \<and> winv cd None (\<lambda>_. 0) w"

lemma server_step_safe:
  assumes "server_inv cd h w"
  shows "safe (server_step k cd h w e) (server_inv cd h)"
proof -
  have h: "polite h" "codec_ok cd" and inv: "winv cd None (\<lambda>_. 0) w" using assms by (simp_all add: server_inv_def)
  have "safe (server_step k cd h w e) (winv cd None (\<lambda>_. 0))"
    using inv worker_new_inv [OF inv] worker_complete_safe [OF h(1) inv] tick_loop_safe [OF h(1) inv]
      finish_login_safe [OF h(2) inv] cid_ops_safe [OF inv]
    by (cases e) simp_all
  then show ?thesis by (rule safe_mono) (simp add: server_inv_def h)
qed

text \<open>A machine whose steps may also fail in a way that is allowed.\<close>

locale guarded_machine = machine +
  fixes allowed :: "'c \<Rightarrow> bool"
  assumes step_fault: "inv s \<Longrightarrow> step s e = Inl f \<Longrightarrow> allowed f"
begin

lemma run_fault: "inv s \<Longrightarrow> run_steps step s es = Inl f \<Longrightarrow> allowed f"
proof (induction es arbitrary: s)
  case (Cons e es)
  then show ?case by (cases "step s e") (auto dest: step_inv step_fault)
qed simp

lemma run_cases:
  assumes "inv s"
  shows "(\<exists>s'. run_steps step s es = Inr s' \<and> inv s') \<or> (\<exists>f. run_steps step s es = Inl f \<and> allowed f)"
  using run_inv [OF assms, of es] run_fault [OF assms, of es] by (cases "run_steps step s es") auto

end

interpretation served: guarded_machine "server_step k cd h" "server_inv cd h" "\<lambda>f. f = OutOfFuel"
  for k cd h
proof unfold_locales
  fix w e w'
  assume "server_inv cd h w" and "server_step k cd h w e = Inr w'"
  with server_step_safe [of cd h w k e] show "server_inv cd h w'" by (simp add: safe_def)
next
  fix w e f
  assume "server_inv cd h w" and "server_step k cd h w e = Inl f"
  with server_step_safe [of cd h w k e] show "f = OutOfFuel" by (simp add: safe_def)
qed

lemma world_initial_inv: "polite h \<Longrightarrow> codec_ok cd \<Longrightarrow> server_inv cd h world_initial"
  by (simp add: server_inv_def winv_def world_initial_def ops_inv_def ops_at_def refs_inv_def refs_at_def
      cmap_inv_def login_inv_def work_inv_def)

end
