(* ===== verification/Server_Fuel.thy ===== *)
theory Server_Fuel
  imports Server_Events
begin

text \<open>
  Termination of the server side. \<open>ConsumeTask\<close> empties a queue that a callback may fill again; when
  callbacks add no tasks (\<open>quiet\<close>) the recursion of \<open>ConsumeTask\<close>, \<open>Finish\<close> and \<open>Destroy\<close> and the loop over the
  connections of a worker end within fuel that the number of tasks and connections bounds. Together with
  theory \<open>Server_Events\<close>: every run succeeds.
\<close>

section \<open>Results that are not out of fuel\<close>

definition fin :: "conn_fault + 'a \<Rightarrow> ('a \<Rightarrow> bool) \<Rightarrow> bool" where
  "fin m P \<longleftrightarrow> (case m of Inl e \<Rightarrow> e \<noteq> OutOfFuel | Inr x \<Rightarrow> P x)"

lemma fin_Inr [simp]: "fin (Inr x) P = P x"
  by (simp add: fin_def)

lemma fin_Inl [simp]: "fin (Inl e) P = (e \<noteq> OutOfFuel)"
  by (simp add: fin_def)

lemma fin_bind: "fin m Q \<Longrightarrow> (\<And>x. Q x \<Longrightarrow> fin (k x) P) \<Longrightarrow> fin (bindE m k) P"
  by (cases m) (auto simp: fin_def)

lemma fin_mono: "fin m Q \<Longrightarrow> (\<And>x. Q x \<Longrightarrow> P x) \<Longrightarrow> fin m P"
  by (cases m) (auto simp: fin_def)

lemma fin_get: "(\<And>cn. conns w c = Some cn \<Longrightarrow> fin (k cn) P) \<Longrightarrow> fin (bindE (get_conn c w) k) P"
  by (cases "conns w c") (auto simp: get_conn_def)

lemma safe_fin: "safe m P \<Longrightarrow> fin m Q \<Longrightarrow> \<exists>x. m = Inr x \<and> P x \<and> Q x"
  by (cases m) (auto simp: safe_def fin_def)

section \<open>Operations that add no task\<close>

definition tasks_at :: "world \<Rightarrow> nat \<Rightarrow> nat" where
  "tasks_at w s = (case streams w s of None \<Rightarrow> 0 | Some st \<Rightarrow> length (sv_tasks st))"

definition fewer :: "world \<Rightarrow> world \<Rightarrow> bool" where
  "fewer w w' \<longleftrightarrow> (\<forall>s. tasks_at w' s \<le> tasks_at w s) \<and> next_addr w' = next_addr w"

lemma fewer_refl [simp]: "fewer w w"
  by (simp add: fewer_def)

lemma fewer_trans: "fewer a b \<Longrightarrow> fewer b c \<Longrightarrow> fewer a c"
  unfolding fewer_def by (metis le_trans)

lemma fewer_at: "fewer w w' \<Longrightarrow> tasks_at w' s \<le> tasks_at w s"
  by (simp add: fewer_def)

lemma fewer_same: "streams w' = streams w \<Longrightarrow> next_addr w' = next_addr w \<Longrightarrow> fewer w w'"
  by (simp add: fewer_def tasks_at_def)

lemma fewer_chain: "fin m (fewer w) \<Longrightarrow> (\<And>w1. fewer w w1 \<Longrightarrow> fin (k w1) (fewer w1)) \<Longrightarrow> fin (bindE m k) (fewer w)"
  by (rule fin_bind, assumption) (blast intro: fin_mono fewer_trans)

lemma fewer_Inr: "fewer w w' \<Longrightarrow> fin (Inr w') (fewer w)"
  by simp

lemma fewer_pending [simp]: "fewer w (add_pending op j w') = fewer w w'"
  by (simp add: fewer_def tasks_at_def add_pending_def)

lemma set_conn_fin: "fin (set_conn c f w) (fewer w)"
  unfolding set_conn_def by (rule fin_get) (simp add: fewer_same)

lemma set_status_fin: "fin (set_status c st w) (fewer w)"
  by (simp add: set_status_def set_conn_fin)

lemma on_sv_fin:
  assumes "\<And>st. length (sv_tasks (f st)) \<le> length (sv_tasks st)"
  shows "fin (on_sv s f w) (fewer w)"
proof (cases "streams w s")
  case (Some st)
  with assms [of st] show ?thesis by (simp add: on_sv_def get_sv_def fewer_def tasks_at_def)
qed (simp add: on_sv_def get_sv_def)

lemma stream_send_fin: "fin (stream_send s r w) (fewer w)"
proof (cases "streams w s")
  case (Some st)
  have "length (sv_tasks (sv_send r st)) = length (sv_tasks st)" by (simp add: sv_send_def io_write_def sv_ref_def)
  with Some show ?thesis by (simp add: stream_send_def on_sv_def get_sv_def fewer_def tasks_at_def add_pending_def)
qed (simp add: stream_send_def get_sv_def)

lemma stream_gone_fewer:
  assumes "streams w s = Some st" and "\<And>t. st' = Some t \<Longrightarrow> length (sv_tasks t) \<le> length (sv_tasks st)"
  shows "fewer w (stream_gone s st st' w)"
  using assms by (auto simp: stream_gone_def fewer_def tasks_at_def split: option.splits)

lemma stream_unref_fin: "fin (stream_unref s w) (fewer w)"
proof (cases "streams w s")
  case (Some st)
  then have "fewer w (stream_gone s st (sv_unref st) w)"
    by (rule stream_gone_fewer) (auto simp: sv_unref_def Let_def split: if_splits)
  with Some show ?thesis by (simp add: stream_unref_def get_sv_def)
qed (simp add: stream_unref_def get_sv_def)

lemma stream_step_fin: "fin (stream_step s w) (fewer w)"
proof (cases "streams w s")
  case (Some st)
  then have "fewer w (stream_gone s st (sv_step st) w)"
    by (rule stream_gone_fewer) (auto simp: sv_step_def sv_unref_def io_write_def Let_def split: if_splits list.splits)
  with Some show ?thesis by (simp add: stream_step_def get_sv_def Let_def split: list.split)
qed (simp add: stream_step_def get_sv_def)

lemma clear_login_cid_fin: "fin (clear_login_cid c w) (fewer w)"
  unfolding clear_login_cid_def
  by (rule fin_get) (auto simp: set_conn_def get_conn_def on_unregister_def intro!: fewer_same)

lemma conn_register_fin: "fin (conn_register c cid w) (fewer w)"
  unfolding conn_register_def
  by (intro fewer_chain clear_login_cid_fin set_conn_fin fin_get)
    (simp add: on_register_def server_register_def fewer_same)

lemma conn_unregister_fin: "fin (conn_unregister c w) (fewer w)"
  unfolding conn_unregister_def
  by (intro fewer_chain clear_login_cid_fin fin_get)
    (auto simp: on_unregister_def server_unregister_def intro!: fewer_same split: option.split)

lemma defer_login_fin: "fin (defer_login c w) (fewer w)"
proof (cases "conns w c")
  case (Some cn)
  then show ?thesis by (simp add: defer_login_eq fewer_same)
qed (simp add: defer_login_def set_status_def set_conn_def get_conn_def)

lemma delete_conn_fin: "fin (delete_conn c w) (fewer w)"
proof -
  have "fewer w (w\<lparr>conns := (conns w)(c := None)\<rparr>)" by (simp add: fewer_same)
  then have "fin (stream_unref c (w\<lparr>conns := (conns w)(c := None)\<rparr>)) (fewer w)"
    by (blast intro: fin_mono [OF stream_unref_fin] fewer_trans)
  then show ?thesis unfolding delete_conn_def by (intro fin_get)
qed

fun adds_task :: "api \<Rightarrow> bool" where
  "adds_task (ApiTask _ _) = True"
| "adds_task _ = False"

definition quiet :: "handler \<Rightarrow> bool" where
  "quiet h \<longleftrightarrow> (\<forall>w c r. \<not> list_ex adds_task (fst (h_login h w c r)) \<and> \<not> list_ex adds_task (fst (h_handle h w c r)) \<and>
     \<not> list_ex adds_task (h_close h w c))"

lemma run_api_fin: "\<not> adds_task a \<Longrightarrow> fin (run_api c a w) (fewer w)"
  by (cases a) (auto intro!: fin_get stream_send_fin set_status_fin defer_login_fin on_sv_fin fin_Inr
      simp: set_user_ctx_def fewer_def tasks_at_def)

lemma run_apis_fin: "\<not> list_ex adds_task as \<Longrightarrow> fin (run_apis c as w) (fewer w)"
  by (induction as arbitrary: w) (auto intro!: fewer_chain run_api_fin)

lemma conn_recv_fin: "fin (conn_recv c w) (fewer w)"
  unfolding conn_recv_def by (rule fin_bind [OF on_sv_fin]) (simp_all add: sv_read_def)

lemma conn_finish_fin: "fin (conn_finish c w) (fewer w)"
  unfolding conn_finish_def
  by (intro fewer_chain set_status_fin on_sv_fin) (simp_all add: sv_finish_def)

lemma close_stream_fin:
  "fin (close_stream c w) (\<lambda>w'. fewer w w' \<and> (\<exists>cn. conns w' c = Some cn \<and> conn_status cn = CLOSE))"
proof (cases "conns w c")
  case (Some cn)
  then show ?thesis
    by (cases "streams w c") (simp_all add: close_stream_def set_status_def set_conn_def get_conn_def on_sv_def get_sv_def
        add_pending_def fewer_def tasks_at_def sv_finish_def sv_ref_def)
qed (simp add: close_stream_def set_status_def set_conn_def get_conn_def)

lemma accept_login_fin: "fin (accept_login cd c a w) (\<lambda>(w', _). fewer w w')"
proof -
  have "fin (bindE (conn_register c (lg_id a) w) (\<lambda>w1. bindE (set_status c READ w1) (\<lambda>w2.
      bindE (conn_recv c w2) (\<lambda>w3. stream_send c r w3)))) (fewer w)" for r
    by (intro fewer_chain conn_register_fin set_status_fin conn_recv_fin stream_send_fin)
  then have "fin (bindE (bindE (conn_register c (lg_id a) w) (\<lambda>w1. bindE (set_status c READ w1) (\<lambda>w2.
      bindE (conn_recv c w2) (\<lambda>w3. stream_send c r w3)))) (\<lambda>w'. Inr (w', b))) (\<lambda>(w', _). fewer w w')" for r and b :: bool
    by (rule fin_bind) simp
  moreover have "fin (bindE (stream_send c r w) (\<lambda>w1. Inr (w1, b))) (\<lambda>(w', _). fewer w w')" for r and b :: bool
    by (rule fin_bind [OF stream_send_fin]) simp
  ultimately show ?thesis by (simp add: accept_login_def bindE_assoc)
qed

section \<open>Tasks, Finish and Destroy\<close>

definition is_closed :: "nat \<Rightarrow> world \<Rightarrow> bool" where
  "is_closed c w \<longleftrightarrow> (\<exists>cn. conns w c = Some cn \<and> conn_status cn = CLOSE)"

text \<open>The fuel a call needs, four units a task.\<close>

definition enough :: "nat \<Rightarrow> conn_call \<Rightarrow> nat \<Rightarrow> world \<Rightarrow> bool" where
  "enough k call c w \<longleftrightarrow>
     (let n = 4 * tasks_at w c in
      case call of
        ConsumeLoop _ \<Rightarrow> n + 1 \<le> k
      | ConsumeTask _ \<Rightarrow> (is_closed c w \<and> n + 2 \<le> k) \<or> n + 5 \<le> k
      | FinishTask \<Rightarrow> n + 4 \<le> k
      | Destroy \<Rightarrow> (is_closed c w \<and> n + 3 \<le> k) \<or> n + 6 \<le> k)"

definition self_fin :: "nat \<Rightarrow> conn_self \<Rightarrow> bool" where
  "self_fin k self \<longleftrightarrow> (\<forall>call c w. enough k call c w \<longrightarrow> fin (self call c w) (fewer w))"

lemma self_finD: "self_fin k self \<Longrightarrow> enough k call c w \<Longrightarrow> fin (self call c w) (fewer w)"
  by (simp add: self_fin_def)

lemma consume_task_fin:
  assumes self: "self_fin k self" and k: "enough (Suc k) (ConsumeTask n) c w"
  shows "fin (consume_task self n c w) (fewer w)"
  unfolding consume_task_def
proof (rule fin_get)
  fix cn
  assume c: "conns w c = Some cn"
  show "fin (if dying (workers w (conn_worker cn)) \<and> conn_status cn \<noteq> CLOSE then self FinishTask c w else self (ConsumeLoop n) c w) (fewer w)"
    using k c by (auto intro!: self_finD [OF self] simp: enough_def is_closed_def Let_def)
qed

lemma perform_task_fin:
  assumes q: "quiet h" and self: "self_fin k self" and k: "4 * tasks_at w c + 4 \<le> k"
  shows "fin (perform_task cd h self c t w) (\<lambda>(w', _). fewer w w')"
proof -
  have finish: "fin (bindE (self FinishTask c w1) (\<lambda>w2. Inr (w2, b))) (\<lambda>(w', _). fewer w w')" if "fewer w w1" for w1 and b :: bool
  proof -
    have "enough k FinishTask c w1" using fewer_at [OF that, of c] k by (simp add: enough_def Let_def)
    from self_finD [OF self this] show ?thesis
      by (rule fin_bind) (use that in \<open>auto intro: fewer_trans\<close>)
  qed
  have "\<not> list_ex adds_task (fst (h_handle h w c t))" using q unfolding quiet_def by blast
  from run_apis_fin [OF this] have normal: "fin (bindE (run_apis c (fst (h_handle h w c t)) w) (\<lambda>w1. Inr (w1, True))) (\<lambda>(w', _). fewer w w')"
    by (rule fin_bind) simp
  have login: "fin (bindE (accept_login cd c a w) (\<lambda>(w1, ok).
      if ok then Inr (w1, True) else bindE (self FinishTask c w1) (\<lambda>w2. Inr (w2, False)))) (\<lambda>(w', _). fewer w w')" for a
    by (rule fin_bind [OF accept_login_fin]) (auto intro: finish)
  show ?thesis
    using normal login finish [OF fewer_refl] by (auto simp: perform_task_def split: option.split)
qed

lemma consume_loop_fin:
  assumes q: "quiet h" and self: "self_fin k self" and k: "enough (Suc k) (ConsumeLoop n) c w"
  shows "fin (consume_loop cd h self n c w) (fewer w)"
proof (cases "n = 0 \<or> conns w c = None \<or> streams w c = None")
  case True
  then show ?thesis by (auto simp: consume_loop_def get_conn_def get_sv_def) (cases "conns w c"; simp)
next
  case False
  then obtain cn st where c: "conns w c = Some cn" "streams w c = Some st" by auto
  show ?thesis
  proof (cases "sv_tasks st")
    case Nil
    with False c show ?thesis by (simp add: consume_loop_def get_conn_def get_sv_def)
  next
    case (Cons t rest)
    let ?w = "w\<lparr>streams := (streams w)(c \<mapsto> st\<lparr>sv_tasks := rest\<rparr>)\<rparr>"
    have less: "tasks_at w c = Suc (tasks_at ?w c)" using c Cons by (simp add: tasks_at_def)
    have few: "fewer w ?w" using c Cons by (auto simp: fewer_def tasks_at_def)
    have room: "4 * tasks_at ?w c + 4 \<le> k" using k less by (simp add: enough_def Let_def)
    have "fin (bindE (perform_task cd h self c t ?w) (\<lambda>(w1, go_on). if go_on then self (ConsumeLoop (n - 1)) c w1 else Inr w1)) (fewer w)"
    proof (rule fin_bind [OF perform_task_fin [OF q self room]])
      fix x :: "world \<times> bool"
      assume x: "case x of (w', _) \<Rightarrow> fewer ?w w'"
      obtain w1 b where [simp]: "x = (w1, b)" by (cases x)
      have f: "fewer ?w w1" using x by simp
      have "enough k (ConsumeLoop (n - 1)) c w1" using fewer_at [OF f, of c] room by (simp add: enough_def Let_def)
      from self_finD [OF self this] show "fin (case x of (w1, go_on) \<Rightarrow> if go_on then self (ConsumeLoop (n - 1)) c w1 else Inr w1) (fewer w)"
        using fewer_trans [OF few f] by (auto elim!: fin_mono intro: fewer_trans)
    qed
    with False c Cons show ?thesis by (simp add: consume_loop_def get_conn_def get_sv_def)
  qed
qed

lemma finish_task_fin:
  assumes self: "self_fin k self" and k: "enough (Suc k) FinishTask c w"
  shows "fin (finish_task self c w) (fewer w)"
  unfolding finish_task_def
proof (rule fin_get, rule fin_bind [OF close_stream_fin])
  fix cn w1
  assume w1: "fewer w w1 \<and> (\<exists>cn. conns w1 c = Some cn \<and> conn_status cn = CLOSE)"
  then have "enough k Destroy c w1" using k fewer_at [of w w1 c] by (auto simp: enough_def is_closed_def Let_def)
  from self_finD [OF self this] w1 show "fin (if conn_status cn = WAIT_LOGIN then self Destroy c w1 else Inr w1) (fewer w)"
    by (auto elim!: fin_mono intro: fewer_trans)
qed

lemma destroy_fin:
  assumes q: "quiet h" and self: "self_fin k self" and k: "enough (Suc k) Destroy c w"
  shows "fin (destroy h self c w) (fewer w)"
proof -
  have "enough k (ConsumeTask (-1)) c w" using k by (auto simp: enough_def Let_def)
  then have all: "fin (self (ConsumeTask (-1)) c w) (fewer w)" by (rule self_finD [OF self])
  have "\<not> list_ex adds_task (h_close h w1 c)" for w1 using q unfolding quiet_def by blast
  then have "fin (bindE (self (ConsumeTask (-1)) c w) (\<lambda>w1. bindE (get_conn c w1) (\<lambda>_.
      bindE (run_apis c (h_close h w1 c) w1) (\<lambda>w2. bindE (conn_unregister c w2) (delete_conn c))))) (fewer w)"
    by (intro fewer_chain all fin_get run_apis_fin conn_unregister_fin delete_conn_fin)
  then show ?thesis
    unfolding destroy_def by (intro fin_get) (auto intro: delete_conn_fin)
qed

lemma conn_run_fin: "quiet h \<Longrightarrow> self_fin k (conn_run k cd h)"
proof (induction k)
  case 0
  then show ?case by (auto simp: self_fin_def enough_def Let_def split: conn_call.splits)
next
  case (Suc k)
  then have self: "self_fin k (conn_run k cd h)" by simp
  show ?case
    unfolding self_fin_def
  proof (intro allI impI)
    fix call c w
    assume "enough (Suc k) call c w"
    then show "fin (conn_run (Suc k) cd h call c w) (fewer w)"
      using consume_task_fin [OF self] consume_loop_fin [OF Suc.prems self] finish_task_fin [OF self] destroy_fin [OF Suc.prems self]
      by (cases call) simp_all
  qed
qed

section \<open>Steps and events\<close>

text \<open>What one event may add: a task to a stream, a connection.\<close>

definition grown :: "world \<Rightarrow> world \<Rightarrow> bool" where
  "grown w w' \<longleftrightarrow> (\<forall>s. tasks_at w' s \<le> Suc (tasks_at w s)) \<and> next_addr w' \<le> Suc (next_addr w)"

lemma fewer_grown: "fewer w w' \<Longrightarrow> grown w w'"
  by (simp add: fewer_def grown_def le_SucI)

lemma grown_fewer: "grown w w' \<Longrightarrow> fewer w' w'' \<Longrightarrow> grown w w''"
  unfolding fewer_def grown_def by (metis le_trans)

lemma grown_chain: "fin m (grown w) \<Longrightarrow> (\<And>w1. grown w w1 \<Longrightarrow> fin (k w1) (fewer w1)) \<Longrightarrow> fin (bindE m k) (grown w)"
  by (rule fin_bind, assumption) (blast intro: fin_mono grown_fewer)

lemma fewer_first: "fewer w w1 \<Longrightarrow> fin m (grown w1) \<Longrightarrow> fin m (grown w)"
  by (rule fin_mono, assumption) (auto simp: fewer_def grown_def intro: le_trans)

lemma worker_new_grown: "grown w (worker_new wk w)"
  by (auto simp: grown_def worker_new_def Let_def add_pending_def tasks_at_def sv_ref_def new_svstream_def)

lemma conn_login_fin:
  assumes "quiet h"
  shows "fin (conn_login cd h c w) (\<lambda>(w', _). fewer w w')"
  unfolding conn_login_def
proof (rule fin_get)
  fix cn
  obtain cmds cid slice where hl: "h_login h w c (conn_req cn) = (cmds, cid, slice)" by (cases "h_login h w c (conn_req cn)")
  have "\<not> list_ex adds_task (fst (h_login h w c (conn_req cn)))" using assms unfolding quiet_def by blast
  with hl have run: "fin (run_apis c cmds w) (fewer w)" by (simp add: run_apis_fin)
  have send: "fin (bindE (stream_send c r w1) (\<lambda>w2. Inr (w2, k))) (\<lambda>(w', _). fewer w w')" if "fewer w w1" for r w1 and k :: u64
    by (rule fin_bind [OF stream_send_fin]) (use that in \<open>auto intro: fewer_trans\<close>)
  have "fin (bindE (run_apis c cmds w) (\<lambda>w1. bindE (get_conn c w1) (\<lambda>cn1.
      if wait_login_accept cn1 then Inr (w1, cid)
      else if cid \<noteq> 0 then bindE (stream_send c (setup_system_reply (rq_msgid (conn_req cn)) (enc_connect cd \<lparr>cn_id = cid, cn_payload = slice\<rparr>) new_reply) w1)
             (\<lambda>w2. Inr (w2, cid))
      else bindE (stream_send c (setup_throw (rq_msgid (conn_req cn)) (deny_error slice) new_reply) w1) (\<lambda>w2. Inr (w2, cid)))))
      (\<lambda>(w', _). fewer w w')"
    by (rule fin_bind [OF run], rule fin_get) (use send in auto)
  then show "fin (let (cmds, cid, slice) = h_login h w c (conn_req cn); msgid = rq_msgid (conn_req cn)
      in bindE (run_apis c cmds w) (\<lambda>w1. bindE (get_conn c w1) (\<lambda>cn1.
        if wait_login_accept cn1 then Inr (w1, cid)
        else if cid \<noteq> 0 then bindE (stream_send c (setup_system_reply msgid (enc_connect cd \<lparr>cn_id = cid, cn_payload = slice\<rparr>) new_reply) w1)
             (\<lambda>w2. Inr (w2, cid))
        else bindE (stream_send c (setup_throw msgid (deny_error slice) new_reply) w1) (\<lambda>w2. Inr (w2, cid)))))
      (\<lambda>(w', _). fewer w w')"
    by (simp only: hl Let_def prod.case)
qed

lemma step_login_fin:
  assumes "quiet h"
  shows "fin (step_login cd h c w) (fewer w)"
proof -
  let ?rest = "\<lambda>cid w1. bindE (get_conn c w1) (\<lambda>cn1.
           if conn_status cn1 = CLOSE \<or> dying (workers w1 (conn_worker cn1)) then conn_finish c w1
           else if conn_status cn1 = WAIT_LOGIN then Inr w1
           else bindE (conn_register c cid w1) (\<lambda>w2. bindE (set_status c READ w2) (conn_recv c)))"
  have rest: "fin (?rest cid w1) (fewer w1)" for cid w1
  proof (rule fin_get)
    fix cn1
    have "fin (bindE (conn_register c cid w1) (\<lambda>w2. bindE (set_status c READ w2) (conn_recv c))) (fewer w1)"
      by (intro fewer_chain conn_register_fin set_status_fin conn_recv_fin)
    then show "fin (if conn_status cn1 = CLOSE \<or> dying (workers w1 (conn_worker cn1)) then conn_finish c w1
           else if conn_status cn1 = WAIT_LOGIN then Inr w1
           else bindE (conn_register c cid w1) (\<lambda>w2. bindE (set_status c READ w2) (conn_recv c))) (fewer w1)"
      by (auto intro: conn_finish_fin)
  qed
  have "fin (bindE (conn_login cd h c w) (\<lambda>(w1, cid). ?rest cid w1)) (fewer w)"
    by (rule fin_bind [OF conn_login_fin [OF assms]]) (auto intro: fin_mono [OF rest] fewer_trans)
  then show ?thesis
    unfolding step_login_def by (intro fin_get) (auto intro: conn_finish_fin)
qed

lemma step_read_fin:
  assumes "quiet h"
  shows "fin (step_read h c w) (fewer w)"
  unfolding step_read_def
proof (rule fin_get)
  fix cn
  obtain cmds ok where hh: "h_handle h w c (conn_req cn) = (cmds, ok)" by (cases "h_handle h w c (conn_req cn)")
  have "\<not> list_ex adds_task (fst (h_handle h w c (conn_req cn)))" using assms unfolding quiet_def by blast
  with hh have run: "fin (run_apis c cmds w) (fewer w)" by (simp add: run_apis_fin)
  have "fin (bindE (run_apis c cmds w) (\<lambda>w1. bindE (get_conn c w1) (\<lambda>cn1.
      if ok \<and> conn_status cn1 \<noteq> CLOSE \<and> \<not> dying (workers w1 (conn_worker cn1)) then conn_recv c w1 else conn_finish c w1))) (fewer w)"
    by (rule fewer_chain [OF run], rule fin_get) (auto intro: conn_recv_fin conn_finish_fin)
  with hh show "fin (if rq_kind (conn_req cn) = Close then conn_finish c w
      else let (cmds, ok) = h_handle h w c (conn_req cn)
        in bindE (run_apis c cmds w) (\<lambda>w1. bindE (get_conn c w1) (\<lambda>cn1.
          if ok \<and> conn_status cn1 \<noteq> CLOSE \<and> \<not> dying (workers w1 (conn_worker cn1)) then conn_recv c w1 else conn_finish c w1))) (fewer w)"
    by (simp add: conn_finish_fin)
qed

lemma conn_step_fin:
  assumes q: "quiet h" and k: "4 * tasks_at w c + 6 \<le> k"
  shows "fin (conn_step k cd h c w) (grown w)"
  unfolding conn_step_def
proof (rule fin_get)
  fix cn
  have few: "fin m (fewer w) \<Longrightarrow> fin m (grown w)" for m by (erule fin_mono) (rule fewer_grown)
  have "fin (bindE (set_status c LOGIN (worker_new (conn_worker cn) w)) (conn_recv c)) (grown w)"
  proof -
    have "fin (set_status c LOGIN (worker_new (conn_worker cn) w)) (grown w)"
      by (rule fin_mono [OF set_status_fin]) (rule grown_fewer [OF worker_new_grown])
    then show ?thesis by (rule grown_chain) (rule conn_recv_fin)
  qed
  moreover have "fin (bindE (set_status c ACCEPT w) (\<lambda>w1. Inr (add_pending OpAccept (JConn c) w1))) (grown w)"
    by (rule few, rule fewer_chain [OF set_status_fin]) simp
  moreover have "fin (conn_run k cd h Destroy c w) (grown w)"
    by (rule few, rule self_finD [OF conn_run_fin [OF q]]) (use k in \<open>simp add: enough_def Let_def\<close>)
  ultimately show "fin (case conn_status cn of
         INIT \<Rightarrow> bindE (set_status c ACCEPT w) (\<lambda>w1. Inr (add_pending OpAccept (JConn c) w1))
       | ACCEPT \<Rightarrow> bindE (set_status c LOGIN (worker_new (conn_worker cn) w)) (conn_recv c)
       | LOGIN \<Rightarrow> step_login cd h c w
       | WAIT_LOGIN \<Rightarrow> conn_finish c w
       | READ \<Rightarrow> step_read h c w
       | WRITE \<Rightarrow> conn_finish c w
       | CLOSE \<Rightarrow> conn_run k cd h Destroy c w) (grown w)"
    by (cases "conn_status cn") (simp_all add: few step_login_fin [OF q] step_read_fin [OF q] conn_finish_fin)
qed

lemma worker_complete_fin:
  assumes q: "quiet h" and k: "\<And>c. 4 * tasks_at w c + 6 \<le> k"
  shows "fin (worker_complete k cd h n ok msg w) (grown w)"
proof (cases "n < length (pending w)")
  case True
  obtain op j where j: "pending w ! n = (op, j)" by (cases "pending w ! n")
  let ?w = "w\<lparr>pending := take n (pending w) @ drop (Suc n) (pending w)\<rparr>"
  have few: "fewer w ?w" by (simp add: fewer_same)
  have "fin (process_job k cd h op j ok msg ?w) (grown ?w)"
  proof (cases j)
    case (JConn c)
    have "fin (if op = OpRead \<and> ok then set_conn c (\<lambda>cn. cn\<lparr>conn_req := msg\<rparr>) ?w else Inr ?w) (fewer ?w)"
      by (simp add: set_conn_fin)
    then have "fin (bindE (if op = OpRead \<and> ok then set_conn c (\<lambda>cn. cn\<lparr>conn_req := msg\<rparr>) ?w else Inr ?w)
        (\<lambda>w1. if ok then conn_step k cd h c w1 else conn_run k cd h Destroy c w1)) (grown ?w)"
    proof (rule fin_bind)
      fix w1
      assume f: "fewer ?w w1"
      then have room: "4 * tasks_at w1 c + 6 \<le> k" using k [of c] fewer_at [OF few, of c] fewer_at [OF f, of c] by linarith
      have "fin (conn_run k cd h Destroy c w1) (fewer w1)"
        by (rule self_finD [OF conn_run_fin [OF q]]) (use room in \<open>simp add: enough_def Let_def\<close>)
      then have "fin (conn_run k cd h Destroy c w1) (grown w1)" by (rule fin_mono) (rule fewer_grown)
      with conn_step_fin [OF q room, of cd] have "fin (if ok then conn_step k cd h c w1 else conn_run k cd h Destroy c w1) (grown w1)" by simp
      then show "fin (if ok then conn_step k cd h c w1 else conn_run k cd h Destroy c w1) (grown ?w)" by (rule fewer_first [OF f])
    qed
    with JConn show ?thesis by (simp add: process_job_def)
  next
    case (JStream s)
    then show ?thesis
      by (simp add: process_job_def fin_mono [OF stream_step_fin fewer_grown] fin_mono [OF stream_unref_fin fewer_grown])
  next
    case (JCloser s)
    then show ?thesis by (simp add: process_job_def fin_mono [OF stream_unref_fin fewer_grown])
  qed
  from fewer_first [OF few this] True j show ?thesis by (simp add: worker_complete_def)
qed (simp add: worker_complete_def)

text \<open>A worker has no more connections than addresses were given out.\<close>

lemma connections_bound:
  assumes "winv cd i held w"
  shows "length (connections (workers w k)) \<le> next_addr w"
proof -
  have "set (connections (workers w k)) \<subseteq> {..<next_addr w}"
  proof
    fix c
    assume "c \<in> set (connections (workers w k))"
    with assms obtain cn where "conns w c = Some cn" by (fastforce simp: winv_def work_inv_def)
    from winv_stream [OF assms this] show "c \<in> {..<next_addr w}" by auto
  qed
  from card_mono [OF _ this] have "card (set (connections (workers w k))) \<le> next_addr w" by simp
  moreover have "distinct (connections (workers w k))" using assms by (simp add: winv_def work_inv_def)
  ultimately show ?thesis by (simp add: distinct_card)
qed

lemma tick_loop_fin:
  assumes q: "quiet h" and p: "polite h"
  shows "winv cd None (\<lambda>_. 0) w \<Longrightarrow> (\<And>s. tasks_at w s \<le> N) \<Longrightarrow> next_addr w - i + 4 * N + 6 \<le> k \<Longrightarrow>
    fin (tick_loop k cd h i wk w) (fewer w)"
proof (induction k arbitrary: i w)
  case (Suc k)
  show ?case
  proof (cases "i < length (connections (workers w wk))")
    case True
    let ?c = "connections (workers w wk) ! i"
    have i: "i < next_addr w" using True connections_bound [OF Suc.prems(1), of wk] by simp
    have "?c \<in> set (connections (workers w wk))" using True by simp
    then obtain cn where c: "conns w ?c = Some cn" using Suc.prems(1) by (fastforce simp: winv_def work_inv_def)
    have "4 * tasks_at w ?c + 5 \<le> k" using Suc.prems(2) [of ?c] Suc.prems(3) i by linarith
    then have "enough k (ConsumeTask 3) ?c w" by (simp add: enough_def)
    then have f: "fin (conn_run k cd h (ConsumeTask 3) ?c w) (fewer w)" by (rule self_finD [OF conn_run_fin [OF q]])
    have "safe (conn_run k cd h (ConsumeTask 3) ?c w) (\<lambda>w'. winv cd None (\<lambda>_. 0) w' \<and> (None = Some ?c \<longrightarrow> conns w' ?c \<noteq> None))"
      by (rule run_okD(1) [OF conn_run_safe [OF p] Suc.prems(1) c]) simp
    from safe_fin [OF this f] obtain w1 where w1: "conn_run k cd h (ConsumeTask 3) ?c w = Inr w1" "winv cd None (\<lambda>_. 0) w1" "fewer w w1"
      by blast
    have "fin (tick_loop k cd h (Suc i) wk w1) (fewer w1)"
    proof (rule Suc.IH [OF w1(2)])
      show "tasks_at w1 s \<le> N" for s using fewer_at [OF w1(3), of s] Suc.prems(2) [of s] by simp
      show "next_addr w1 - Suc i + 4 * N + 6 \<le> k" using w1(3) Suc.prems(3) i by (simp add: fewer_def)
    qed
    then have "fin (tick_loop k cd h (Suc i) wk w1) (fewer w)" using w1(3) by (auto elim!: fin_mono intro: fewer_trans)
    with True w1(1) show ?thesis by simp
  qed simp
qed simp

lemma with_cid_fin:
  assumes "\<And>c w1. fin (f c w1) (grown w1)"
  shows "fin (with_cid cid f w) (grown w)"
proof (cases "cmap w cid")
  case None
  then show ?thesis by (simp add: with_cid_def map_find_def fewer_grown)
next
  case (Some c)
  have "fin (bindE (on_sv c sv_ref w) (\<lambda>w1. bindE (f c w1) (stream_unref c))) (grown w)"
  proof (rule fin_bind [OF on_sv_fin])
    fix w1
    assume few: "fewer w w1"
    have "fin (bindE (f c w1) (stream_unref c)) (grown w1)" by (rule grown_chain [OF assms]) (rule stream_unref_fin)
    then show "fin (bindE (f c w1) (stream_unref c)) (grown w)" by (rule fewer_first [OF few])
  qed (simp add: sv_ref_def)
  with Some show ?thesis by (auto simp: with_cid_def map_find_def intro: fin_get)
qed

lemma on_sv_grown:
  assumes "\<And>st. length (sv_tasks (f st)) \<le> Suc (length (sv_tasks st))"
  shows "fin (on_sv s f w) (grown w)"
proof (cases "streams w s")
  case (Some st)
  with assms [of st] show ?thesis by (simp add: on_sv_def get_sv_def grown_def tasks_at_def)
qed (simp add: on_sv_def get_sv_def)

lemma finish_login_fin: "fin (finish_login cd lcid cid msgid data w) (grown w)"
proof (cases "pmap w lcid")
  case None
  then show ?thesis by (simp add: finish_login_def map_find_def fewer_grown)
next
  case (Some c)
  have "fewer w (w\<lparr>pmap := map_erase lcid (pmap w)\<rparr>)" by (simp add: fewer_same)
  then have "fin (on_sv c (sv_sys_task Login
      (enc_login cd \<lparr>lg_login_cid = lcid, lg_id = cid, lg_msgid = msgid, lg_payload = data\<rparr>)) (w\<lparr>pmap := map_erase lcid (pmap w)\<rparr>)) (grown w)"
    by (rule fewer_first) (rule on_sv_grown, simp add: sv_sys_task_def tq_enqueue_def)
  with Some show ?thesis by (auto simp: finish_login_def map_find_def Let_def intro: fin_get)
qed

lemma cid_ops_fin:
  "fin (cid_send cid msgid data w) (grown w)" "fin (cid_notify cid msgid data w) (grown w)"
  "fin (cid_error cid msgid data w) (grown w)" "fin (cid_task cid msgid data w) (grown w)" "fin (cid_close cid w) (grown w)"
  unfolding cid_send_def cid_notify_def cid_error_def cid_task_def cid_close_def
  by (rule with_cid_fin, rule fin_mono [OF stream_send_fin fewer_grown], assumption)+
    (rule with_cid_fin, rule on_sv_grown, simp add: sv_add_task_def sv_close_def sv_sys_task_def tq_enqueue_def)+

lemma server_step_fin:
  assumes inv: "server_inv cd h w" and q: "quiet h" and N: "\<And>s. tasks_at w s \<le> N" "next_addr w \<le> N" and k: "5 * N + 6 \<le> k"
  shows "fin (server_step k cd h w e) (grown w)"
proof -
  have p: "polite h" and w: "winv cd None (\<lambda>_. 0) w" using inv by (simp_all add: server_inv_def)
  have room: "4 * tasks_at w c + 6 \<le> k" for c using N(1) [of c] k by simp
  have "fin (tick_loop k cd h 0 wk w) (fewer w)" for wk
    by (rule tick_loop_fin [OF q p w N(1)]) (use N(2) k in simp)
  then have "fin (tick_loop k cd h 0 wk w) (grown w)" for wk by (rule fin_mono) (rule fewer_grown)
  with worker_complete_fin [OF q room, of cd] finish_login_fin [of cd] cid_ops_fin worker_new_grown [of w] show ?thesis
    by (cases e) (simp_all add: fewer_grown)
qed

lemma server_runs_fin:
  assumes "server_inv cd h w" and "quiet h" and "\<And>s. tasks_at w s \<le> N" and "next_addr w \<le> N" and "5 * (N + length es) + 6 \<le> k"
  shows "\<exists>w'. run_steps (server_step k cd h) w es = Inr w' \<and> server_inv cd h w'"
  using assms
proof (induction es arbitrary: w N)
  case (Cons e es)
  have "fin (server_step k cd h w e) (grown w)"
    by (rule server_step_fin [OF Cons.prems(1-4)]) (use Cons.prems(5) in simp)
  from safe_fin [OF server_step_safe [OF Cons.prems(1)] this] obtain w1 where
    w1: "server_step k cd h w e = Inr w1" "server_inv cd h w1" "grown w w1" by blast
  have "\<exists>w'. run_steps (server_step k cd h) w1 es = Inr w' \<and> server_inv cd h w'"
  proof (rule Cons.IH [OF w1(2) Cons.prems(2)])
    show "tasks_at w1 s \<le> Suc N" for s using w1(3) Cons.prems(3) [of s] by (auto simp: grown_def intro: le_trans)
    show "next_addr w1 \<le> Suc N" using w1(3) Cons.prems(4) by (auto simp: grown_def)
    show "5 * (Suc N + length es) + 6 \<le> k" using Cons.prems(5) by simp
  qed
  with w1(1) show ?case by simp
qed simp

section \<open>Runs\<close>

text \<open>An application for the witnesses: it echoes, and defers the logins that ask for it.\<close>

definition demo_handler :: handler where
  "demo_handler = \<lparr>
     h_login = (\<lambda>w c r. (if rq_payload r = ''later'' \<and> cid_seed w \<noteq> -1 then [ApiDefer] else [], ucast (rq_type r), rq_payload r)),
     h_handle = (\<lambda>w c r. ([ApiSend (rq_msgid r) (rq_payload r)], rq_payload r \<noteq> ''quit'')),
     h_close = (\<lambda>w c. [])\<rparr>"

lemma demo_polite: "polite demo_handler"
  by (simp add: polite_def polite_login_def demo_handler_def)

lemma demo_quiet: "quiet demo_handler"
  by (simp add: quiet_def demo_handler_def)

lemma run_inv_initial:
  assumes "polite h" and "codec_ok cd" and "run_steps (server_step k cd h) world_initial es = Inr w"
  shows "winv cd None (\<lambda>_. 0) w"
  using served.run_inv [OF world_initial_inv [OF assms(1,2)] assms(3)] by (simp add: server_inv_def)





text \<open>
  Property C3. The reference count of every stream is the number of its owners: its connection, the write in
  progress (at most one) and the closers. A stream that is gone has none of them left.
\<close>

theorem references_exact:
  assumes "polite h" and "codec_ok cd" and "run_steps (server_step k cd h) world_initial es = Inr w"
  shows "case streams w s of
     Some st \<Rightarrow> refc st = int ((if conns w s = None then 0 else 1) + write_jobs s (pending w) + closer_jobs s (pending w)) \<and>
       0 < refc st \<and> write_jobs s (pending w) \<le> (if is_sending st then 1 else 0)
   | None \<Rightarrow> conns w s = None \<and> write_jobs s (pending w) = 0 \<and> closer_jobs s (pending w) = 0"
proof -
  have "refs_at 0 (conns w s \<noteq> None) (streams w s) (write_jobs s (pending w)) (closer_jobs s (pending w)) (s < next_addr w)"
    using run_inv_initial [OF assms] unfolding winv_def refs_inv_def by blast
  then show ?thesis by (auto simp: refs_at_def refs_ok_def split: option.splits)
qed

theorem references_exact_witness:
  "\<exists>w st. run_steps (server_step 16 demo_codec demo_handler) world_initial [Started 0, Completed 0 True new_request] = Inr w \<and>
     streams w 0 = Some st \<and> refc st = 1"
proof -
  obtain w where w: "run_steps (server_step 16 demo_codec demo_handler) world_initial [Started 0, Completed 0 True new_request] = Inr w"
    "streams w 0 \<noteq> None" "conns w 0 \<noteq> None" "write_jobs 0 (pending w) = 0" "closer_jobs 0 (pending w) = 0"
    by (simp add: worker_new_def Let_def add_pending_def world_initial_def worker_complete_def process_job_def conn_step_def
        get_conn_def set_status_def set_conn_def conn_recv_def on_sv_def get_sv_def)
  from references_exact [OF demo_polite demo_codec_ok w(1), of 0] w show ?thesis by auto
qed




lemma demo_login:
  "case run_steps (server_step 16 demo_codec demo_handler) world_initial
      [Started 0, Completed 0 True new_request, Completed 1 True (new_request\<lparr>rq_type := 7\<rparr>)] of
     Inl _ \<Rightarrow> False | Inr w \<Rightarrow> cmap w 7 = Some 0"
  by code_simp


end
