(* ===== verification/Server_Behaviour.thy ===== *)
theory Server_Behaviour
  imports Server_Fuel
begin

text \<open>
  What the operations of the server side do: logins granted, denied and deferred, messages sent by
  connection id, tasks in order. And what goes wrong: behaviour outside the hypotheses of theories
  \<open>Server_Safety\<close> to \<open>Server_Fuel\<close>, or that the code does not seem to mean.
\<close>

section \<open>Logins\<close>

text \<open>All replies given to a stream, in order: those passed to gRPC, then those that wait.\<close>

definition sent_by :: "svstream \<Rightarrow> reply list" where
  "sent_by st = written (sv_io st) @ sv_queue st"

text \<open>A stream in which a reply only ever waits behind a write, as theory \<open>Sv_Stream\<close> shows it to be.\<close>

definition flowing :: "svstream \<Rightarrow> bool" where
  "flowing st \<longleftrightarrow> (is_sending st \<or> sv_queue st = [])"

lemma sent_by_send: "flowing st \<Longrightarrow> sent_by (sv_send r st) = sent_by st @ [r] \<and> flowing (sv_send r st)"
  by (auto simp: sent_by_def sv_send_def io_write_def sv_ref_def written_append flowing_def)

lemma sent_by_read [simp]: "sent_by (sv_read st) = sent_by st" "flowing (sv_read st) = flowing st"
  by (simp_all add: sent_by_def sv_read_def written_append flowing_def)

lemma sent_by_more [simp]:
  "sent_by (sv_finish st) = sent_by st" "sent_by (sv_ref st) = sent_by st" "sent_by (st\<lparr>sv_tasks := ts\<rparr>) = sent_by st"
  "flowing (sv_finish st) = flowing st" "flowing (sv_ref st) = flowing st" "flowing (st\<lparr>sv_tasks := ts\<rparr>) = flowing st"
  by (simp_all add: sent_by_def sv_finish_def written_append sv_ref_def flowing_def)

lemma sv_send_tasks [simp]: "sv_tasks (sv_send r st) = sv_tasks st"
  by (simp add: sv_send_def io_write_def sv_ref_def)

lemma stream_send_eq:
  "streams w s = Some st \<Longrightarrow> stream_send s r w =
    Inr (w\<lparr>streams := (streams w)(s \<mapsto> sv_send r st), pending := pending w @ (if is_sending st then [] else [(OpWrite r, JStream s)])\<rparr>)"
  by (cases w) (simp add: stream_send_def on_sv_def get_sv_def add_pending_def)

definition connect_reply :: "codec \<Rightarrow> u32 \<Rightarrow> u64 \<Rightarrow> string \<Rightarrow> reply" where
  "connect_reply cd msgid cid data = setup_system_reply msgid (enc_connect cd \<lparr>cn_id = cid, cn_payload = data\<rparr>) new_reply"

definition deny_reply :: "u32 \<Rightarrow> string \<Rightarrow> reply" where
  "deny_reply msgid data = setup_throw msgid (deny_error data) new_reply"

text \<open>A connection in its login, its worker alive, a login message read.\<close>

definition logging_in :: "nat \<Rightarrow> conn \<Rightarrow> svstream \<Rightarrow> world \<Rightarrow> bool" where
  "logging_in c cn st w \<longleftrightarrow> conns w c = Some cn \<and> streams w c = Some st \<and> conn_status cn = LOGIN \<and>
     rq_kind (conn_req cn) \<noteq> Close \<and> \<not> dying (workers w (conn_worker cn)) \<and> flowing st"

text \<open>What the step of a login leaves when the callback returned at once, and what it sends.\<close>

definition login_reply :: "codec \<Rightarrow> u32 \<Rightarrow> u64 \<Rightarrow> string \<Rightarrow> reply" where
  "login_reply cd msgid cid data = (if cid = 0 then deny_reply msgid data else connect_reply cd msgid cid data)"

lemma step_login_world:
  assumes "logging_in c cn st w" and "h_login h w c (conn_req cn) = ([], cid, data)"
  shows "\<exists>w'. conn_step k cd h c w = Inr w' \<and>
    conns w' c = Some (cn\<lparr>conn_lcid := 0, conn_cid := cid, conn_status := READ\<rparr>) \<and> cmap w' = (cmap w)(cid \<mapsto> c) \<and>
    c \<in> set (connections (workers w' (conn_worker cn))) \<and> (\<forall>wk. dying (workers w' wk) = dying (workers w wk)) \<and>
    streams w' c = Some (sv_read (sv_send (login_reply cd (rq_msgid (conn_req cn)) cid data) st)) \<and>
    pending w' = pending w @ (if is_sending st then [] else [(OpWrite (login_reply cd (rq_msgid (conn_req cn)) cid data), JStream c)]) @
      [(OpRead, JConn c)]"
proof -
  have c: "conns w c = Some cn" "streams w c = Some st" "conn_status cn = LOGIN" "rq_kind (conn_req cn) \<noteq> Close"
    "\<not> dying (workers w (conn_worker cn))"
    using assms(1) by (simp_all add: logging_in_def)
  let ?r = "login_reply cd (rq_msgid (conn_req cn)) cid data"
  let ?w = "w\<lparr>streams := (streams w)(c \<mapsto> sv_send ?r st), pending := pending w @ (if is_sending st then [] else [(OpWrite ?r, JStream c)])\<rparr>"
  have "conn_login cd h c w = Inr (?w, cid)"
    using c assms(2)
    by (simp add: conn_login_def get_conn_def wait_login_accept_def stream_send_eq login_reply_def connect_reply_def deny_reply_def Let_def)
  moreover have w: "conns ?w c = Some cn" using c by simp
  ultimately have "conn_step k cd h c w = bindE (conn_register c cid ?w) (\<lambda>w2. bindE (set_status c READ w2) (conn_recv c))"
    using c by (simp add: conn_step_def step_login_def get_conn_def)
  also have "\<dots> = bindE (bindE (conn_register c cid ?w) (set_status c READ)) (conn_recv c)" by (simp add: bindE_assoc)
  finally show ?thesis
    using c
    by (simp add: conn_register_eq [OF w] set_status_def set_conn_def get_conn_def conn_recv_def on_sv_def get_sv_def add_pending_def)
qed

lemma step_login_result:
  assumes "logging_in c cn st w" and "h_login h w c (conn_req cn) = ([], cid, data)"
  shows "\<exists>w' st'. conn_step k cd h c w = Inr w' \<and>
    conns w' c = Some (cn\<lparr>conn_lcid := 0, conn_cid := cid, conn_status := READ\<rparr>) \<and> cmap w' = (cmap w)(cid \<mapsto> c) \<and>
    c \<in> set (connections (workers w' (conn_worker cn))) \<and> (OpRead, JConn c) \<in> set (pending w') \<and> streams w' c = Some st' \<and>
    sent_by st' = sent_by st @ [login_reply cd (rq_msgid (conn_req cn)) cid data]"
  using step_login_world [OF assms, of k cd] sent_by_send [of st "login_reply cd (rq_msgid (conn_req cn)) cid data"] assms(1)
  by (fastforce simp: logging_in_def)

text \<open>
  A login that the application grants with an id other than 0 registers the connection under it,
  answers with the id and the application's payload, and starts to read.
\<close>

theorem granted_login:
  assumes "logging_in c cn st w" and "h_login h w c (conn_req cn) = ([], cid, data)" and "cid \<noteq> 0"
  shows "\<exists>w' st'. conn_step k cd h c w = Inr w' \<and>
    conns w' c = Some (cn\<lparr>conn_lcid := 0, conn_cid := cid, conn_status := READ\<rparr>) \<and> cmap w' = (cmap w)(cid \<mapsto> c) \<and>
    c \<in> set (connections (workers w' (conn_worker cn))) \<and> (OpRead, JConn c) \<in> set (pending w') \<and> streams w' c = Some st' \<and>
    sent_by st' = sent_by st @ [connect_reply cd (rq_msgid (conn_req cn)) cid data]"
  using step_login_result [OF assms(1,2), of k cd] assms(3) by (simp add: login_reply_def)

text \<open>
  A login that the application denies (id 0, and no call of \<open>mtk_svconn_close\<close>) is answered with
  \<open>MTK_ACCEPT_DENY\<close>, and then goes on like a granted one: the connection is registered under the id 0 and
  its messages are read and handled.
\<close>

theorem denied_login_is_served:
  assumes "logging_in c cn st w" and "h_login h w c (conn_req cn) = ([], 0, data)"
  shows "\<exists>w' st'. conn_step k cd h c w = Inr w' \<and>
    conns w' c = Some (cn\<lparr>conn_lcid := 0, conn_cid := 0, conn_status := READ\<rparr>) \<and> cmap w' = (cmap w)(0 \<mapsto> c) \<and>
    (OpRead, JConn c) \<in> set (pending w') \<and> streams w' c = Some st' \<and>
    sent_by st' = sent_by st @ [deny_reply (rq_msgid (conn_req cn)) data]"
  using step_login_result [OF assms, of k cd] by (auto simp: login_reply_def)

text \<open>The concrete world of the witnesses: one connection, its login read.\<close>

definition one_conn :: conn where
  "one_conn = \<lparr>conn_worker = 0, conn_status = LOGIN, conn_req = new_request\<lparr>rq_type := 7, rq_msgid := 1, rq_payload := ''me''\<rparr>,
     conn_cid = 0, conn_lcid = 0\<rparr>"

definition one_stream :: svstream where
  "one_stream = sv_ref new_svstream"

definition one_world :: world where
  "one_world = world_initial\<lparr>streams := [0 \<mapsto> one_stream], conns := [0 \<mapsto> one_conn], next_addr := 1\<rparr>"

lemma one_world_logging_in: "logging_in 0 one_conn one_stream one_world"
  by (simp add: logging_in_def one_world_def one_conn_def one_stream_def new_request_def world_initial_def flowing_def sv_ref_def new_svstream_def)

theorem granted_login_witness:
  "\<exists>w' st'. conn_step 1 demo_codec demo_handler 0 one_world = Inr w' \<and> cmap w' 7 = Some 0 \<and> streams w' 0 = Some st' \<and>
    sent_by st' = [connect_reply demo_codec 1 7 ''me'']"
proof -
  have "h_login demo_handler one_world 0 (conn_req one_conn) = ([], 7, ''me'')"
    by (simp add: demo_handler_def one_conn_def)
  from granted_login [OF one_world_logging_in this, of 1 demo_codec] show ?thesis
    by (auto simp: one_conn_def sent_by_def one_stream_def sv_ref_def new_svstream_def)
qed

theorem denied_login_is_served_witness:
  "\<exists>w' st'. conn_step 1 demo_codec (demo_handler\<lparr>h_login := (\<lambda>_ _ _. ([], 0, ''no''))\<rparr>) 0 one_world = Inr w' \<and> cmap w' 0 = Some 0 \<and>
    streams w' 0 = Some st' \<and> sent_by st' = [deny_reply 1 ''no'']"
proof -
  have "h_login (demo_handler\<lparr>h_login := (\<lambda>_ _ _. ([], 0, ''no''))\<rparr>) one_world 0 (conn_req one_conn) = ([], 0, ''no'')"
    by simp
  from denied_login_is_served [OF one_world_logging_in this, of 1 demo_codec] show ?thesis
    by (auto simp: one_conn_def sent_by_def one_stream_def sv_ref_def new_svstream_def)
qed

section \<open>Deferred logins\<close>

text \<open>A connection that waits for the application to answer its login.\<close>

definition waiting :: "nat \<Rightarrow> conn \<Rightarrow> svstream \<Rightarrow> world \<Rightarrow> bool" where
  "waiting c cn st w \<longleftrightarrow> conns w c = Some cn \<and> streams w c = Some st \<and> conn_status cn = WAIT_LOGIN \<and> conn_lcid cn \<noteq> 0 \<and>
     pmap w (conn_lcid cn) = Some c \<and> sv_tasks st = [] \<and> \<not> dying (workers w (conn_worker cn)) \<and> flowing st"

definition login_answer :: "codec \<Rightarrow> u64 \<Rightarrow> u64 \<Rightarrow> u32 \<Rightarrow> string \<Rightarrow> request" where
  "login_answer cd lcid cid msgid data = setup_sys_task Login
     (enc_login cd \<lparr>lg_login_cid = lcid, lg_id = cid, lg_msgid = msgid, lg_payload = data\<rparr>) new_request"

lemma finish_login_eq:
  assumes "waiting c cn st w"
  shows "finish_login cd (conn_lcid cn) cid msgid data w =
    Inr (w\<lparr>streams := (streams w)(c \<mapsto> st\<lparr>sv_tasks := [login_answer cd (conn_lcid cn) cid msgid data]\<rparr>),
      pmap := (pmap w)(conn_lcid cn := None)\<rparr>)"
  using assms by (cases w) (simp add: waiting_def finish_login_def map_find_def map_erase_def get_conn_def on_sv_def get_sv_def
      sv_sys_task_def tq_enqueue_def login_answer_def Let_def)

lemma deferred_granted_run:
  assumes "waiting c cn st w" and "codec_ok cd" and "cid \<noteq> 0"
  shows "\<exists>w1 w2 st'. finish_login cd (conn_lcid cn) cid msgid data w = Inr w1 \<and> find_deferred (conn_lcid cn) w1 = None \<and>
    conn_run (Suc (Suc (Suc k))) cd h (ConsumeTask 3) c w1 = Inr w2 \<and>
    conns w2 c = Some (cn\<lparr>conn_lcid := 0, conn_cid := cid, conn_status := READ\<rparr>) \<and> cmap w2 = (cmap w)(cid \<mapsto> c) \<and>
    (OpRead, JConn c) \<in> set (pending w2) \<and> streams w2 c = Some st' \<and> sv_tasks st' = [] \<and>
    sent_by st' = sent_by st @ [connect_reply cd msgid cid data]"
proof -
  have c: "conns w c = Some cn" "streams w c = Some st" "conn_status cn = WAIT_LOGIN" "sv_tasks st = []"
    "\<not> dying (workers w (conn_worker cn))" "flowing st"
    using assms(1) by (simp_all add: waiting_def)
  let ?t = "login_answer cd (conn_lcid cn) cid msgid data"
  let ?w1 = "w\<lparr>streams := (streams w)(c \<mapsto> st\<lparr>sv_tasks := [?t]\<rparr>), pmap := (pmap w)(conn_lcid cn := None)\<rparr>"
  let ?w0 = "?w1\<lparr>streams := (streams w)(c \<mapsto> st\<lparr>sv_tasks := []\<rparr>)\<rparr>"
  let ?a = "\<lparr>lg_login_cid = conn_lcid cn, lg_id = cid, lg_msgid = msgid, lg_payload = data\<rparr>"
  have t: "rq_kind ?t = Login" "dec_login cd (rq_payload ?t) = Some ?a"
    using assms(2) by (simp_all add: login_answer_def setup_sys_task_def codec_ok_def)
  have acc: "\<exists>w2 st'. accept_login cd c ?a ?w0 = Inr (w2, True) \<and>
    conns w2 c = Some (cn\<lparr>conn_lcid := 0, conn_cid := cid, conn_status := READ\<rparr>) \<and> cmap w2 = (cmap w)(cid \<mapsto> c) \<and>
    (OpRead, JConn c) \<in> set (pending w2) \<and> streams w2 c = Some st' \<and> sv_tasks st' = [] \<and>
    sent_by st' = sent_by st @ [connect_reply cd msgid cid data]"
    using assms(3) c sent_by_send [of "sv_read (st\<lparr>sv_tasks := []\<rparr>)" "connect_reply cd msgid cid data"]
    by (simp add: accept_login_def conn_register_eq [where cn = cn] set_status_def set_conn_def get_conn_def conn_recv_def on_sv_def
        get_sv_def add_pending_def stream_send_eq connect_reply_def) (simp add: sv_read_def)
  then obtain w2 st' where w2: "accept_login cd c ?a ?w0 = Inr (w2, True)"
    "conns w2 c = Some (cn\<lparr>conn_lcid := 0, conn_cid := cid, conn_status := READ\<rparr>)" "cmap w2 = (cmap w)(cid \<mapsto> c)"
    "(OpRead, JConn c) \<in> set (pending w2)" "streams w2 c = Some st'" "sv_tasks st' = []"
    "sent_by st' = sent_by st @ [connect_reply cd msgid cid data]" by blast
  have "perform_task cd h self c ?t ?w0 = Inr (w2, True)" for self
    using t w2(1) by (simp add: perform_task_def)
  then have "conn_run (Suc (Suc (Suc k))) cd h (ConsumeTask 3) c ?w1 = Inr w2"
    using c w2(2,5,6) by (simp add: consume_task_def consume_loop_def get_conn_def get_sv_def)
  with finish_login_eq [OF assms(1), of cd cid msgid data] w2 show ?thesis
    by (simp add: find_deferred_def map_find_def)
qed


text \<open>The end of a closed connection that has no tasks, its stream being held by others.\<close>

lemma destroy_closed:
  assumes "conns w c = Some cn" and "conn_status cn = CLOSE" and "streams w c = Some st" and "sv_tasks st = []"
    and "1 < refc st" and "\<And>w'. h_close h w' c = []"
  shows "\<exists>w'. conn_run (Suc (Suc (Suc k))) cd h Destroy c w = Inr w' \<and> conns w' = (conns w)(c := None) \<and>
    streams w' = (streams w)(c \<mapsto> st\<lparr>refc := refc st - 1\<rparr>) \<and> pending w' = pending w \<and>
    cmap w' = (if cmap w (conn_cid cn) = Some c then (cmap w)(conn_cid cn := None) else cmap w) \<and>
    (conn_lcid cn \<noteq> 0 \<longrightarrow> connections (workers w' (conn_worker cn)) = remove1 c (remove1 c (connections (workers w (conn_worker cn)))))"
proof -
  have "has_peer cn" using assms(2) by (simp add: has_peer_def less_stream_status_def)
  then show ?thesis
    using assms by (simp add: destroy_def get_conn_def consume_task_def consume_loop_def get_sv_def conn_unregister_eq
        delete_conn_def stream_unref_def sv_unref_def Let_def stream_gone_def)
qed

text \<open>\<open>Finish (true)\<close> of a connection that waits.\<close>

lemma finish_waiting:
  assumes "conns w c = Some cn" and "conn_status cn = WAIT_LOGIN" and "streams w c = Some st" and "sv_tasks st = []"
    and "0 < refc st" and "\<And>w'. h_close h w' c = []"
  shows "\<exists>w'. conn_run (Suc (Suc (Suc (Suc k)))) cd h FinishTask c w = Inr w' \<and> conns w' = (conns w)(c := None) \<and>
    streams w' = (streams w)(c \<mapsto> sv_finish st) \<and> pending w' = pending w @ [(OpFinish, JCloser c)] \<and>
    cmap w' = (if cmap w (conn_cid cn) = Some c then (cmap w)(conn_cid cn := None) else cmap w) \<and>
    (conn_lcid cn \<noteq> 0 \<longrightarrow> connections (workers w' (conn_worker cn)) = remove1 c (remove1 c (connections (workers w (conn_worker cn)))))"
proof -
  let ?w = "w\<lparr>conns := (conns w)(c \<mapsto> cn\<lparr>conn_status := CLOSE\<rparr>), streams := (streams w)(c \<mapsto> sv_finish (sv_ref st)),
    pending := pending w @ [(OpFinish, JCloser c)]\<rparr>"
  have close: "close_stream c w = Inr ?w"
    using assms by (cases w) (simp add: close_stream_def set_status_def set_conn_def get_conn_def on_sv_def get_sv_def add_pending_def)
  have again: "(sv_finish (sv_ref st))\<lparr>refc := refc (sv_finish (sv_ref st)) - 1\<rparr> = sv_finish st"
    by (cases st) (simp add: sv_finish_def sv_ref_def)
  have "conn_run (Suc (Suc (Suc (Suc k)))) cd h FinishTask c w = conn_run (Suc (Suc (Suc k))) cd h Destroy c ?w"
    using assms close by (subst conn_run.simps(2)) (simp add: finish_task_def get_conn_def del: conn_run.simps)
  moreover have "\<exists>w'. conn_run (Suc (Suc (Suc k))) cd h Destroy c ?w = Inr w' \<and> conns w' = (conns ?w)(c := None) \<and>
    streams w' = (streams ?w)(c \<mapsto> (sv_finish (sv_ref st))\<lparr>refc := refc (sv_finish (sv_ref st)) - 1\<rparr>) \<and> pending w' = pending ?w \<and>
    cmap w' = (if cmap ?w (conn_cid cn) = Some c then (cmap ?w)(conn_cid cn := None) else cmap ?w) \<and>
    (conn_lcid cn \<noteq> 0 \<longrightarrow> connections (workers w' (conn_worker cn)) = remove1 c (remove1 c (connections (workers ?w (conn_worker cn)))))"
    using destroy_closed [of ?w c "cn\<lparr>conn_status := CLOSE\<rparr>" "sv_finish (sv_ref st)" h k cd] assms
    by (simp add: sv_finish_def sv_ref_def del: conn_run.simps cong: if_cong)
  ultimately show ?thesis unfolding again by (simp del: conn_run.simps cong: if_cong)
qed

text \<open>
  Property C27. A deferred login answered with id 0 is denied: the client gets \<open>MTK_ACCEPT_DENY\<close> and the payload,
  the stream is finished, and the connection is closed, unregistered and deleted, its stream being left to
  the closer that waits for the end of \<open>Finish\<close>.
\<close>

theorem deferred_login_denied:
  assumes "waiting c cn st w" and "codec_ok cd" and "\<And>w'. h_close h w' c = []" and "0 < refc st"
  shows "\<exists>w1 w2 st'. finish_login cd (conn_lcid cn) 0 msgid data w = Inr w1 \<and>
    conn_run (Suc (Suc (Suc (Suc (Suc (Suc k)))))) cd h (ConsumeTask 3) c w1 = Inr w2 \<and> conns w2 c = None \<and>
    cmap w2 = (if cmap w (conn_cid cn) = Some c then (cmap w)(conn_cid cn := None) else cmap w) \<and>
    connections (workers w2 (conn_worker cn)) = remove1 c (remove1 c (connections (workers w (conn_worker cn)))) \<and>
    (OpFinish, JCloser c) \<in> set (pending w2) \<and> conn_jobs c (pending w2) = conn_jobs c (pending w) \<and>
    streams w2 c = Some st' \<and> IoFinish \<in> set (sv_io st') \<and> sent_by st' = sent_by st @ [deny_reply msgid data]"
proof -
  have c: "conns w c = Some cn" "streams w c = Some st" "conn_status cn = WAIT_LOGIN" "sv_tasks st = []"
    "\<not> dying (workers w (conn_worker cn))" "flowing st" "conn_lcid cn \<noteq> 0"
    using assms(1) by (simp_all add: waiting_def)
  let ?t = "login_answer cd (conn_lcid cn) 0 msgid data"
  let ?w1 = "w\<lparr>streams := (streams w)(c \<mapsto> st\<lparr>sv_tasks := [?t]\<rparr>), pmap := (pmap w)(conn_lcid cn := None)\<rparr>"
  let ?w0 = "?w1\<lparr>streams := (streams w)(c \<mapsto> st\<lparr>sv_tasks := []\<rparr>)\<rparr>"
  let ?a = "\<lparr>lg_login_cid = conn_lcid cn, lg_id = 0, lg_msgid = msgid, lg_payload = data\<rparr>"
  let ?r = "deny_reply msgid data"
  let ?st1 = "sv_send ?r (st\<lparr>sv_tasks := []\<rparr>)"
  let ?w2 = "?w0\<lparr>streams := (streams w)(c \<mapsto> ?st1), pending := pending w @ (if is_sending st then [] else [(OpWrite ?r, JStream c)])\<rparr>"
  have t: "rq_kind ?t = Login" "dec_login cd (rq_payload ?t) = Some ?a"
    using assms(2) by (simp_all add: login_answer_def setup_sys_task_def codec_ok_def)
  have acc: "accept_login cd c ?a ?w0 = Inr (?w2, False)"
    using c by (cases w) (simp add: accept_login_def stream_send_eq deny_reply_def)
  have refs: "0 < refc ?st1" using assms(4) by (simp add: sv_ref_def sv_send_def io_write_def)
  obtain w2 where w2: "conn_run (Suc (Suc (Suc (Suc k)))) cd h FinishTask c ?w2 = Inr w2" "conns w2 = (conns ?w2)(c := None)"
    "streams w2 = (streams ?w2)(c \<mapsto> sv_finish ?st1)" "pending w2 = pending ?w2 @ [(OpFinish, JCloser c)]"
    "cmap w2 = (if cmap ?w2 (conn_cid cn) = Some c then (cmap ?w2)(conn_cid cn := None) else cmap ?w2)"
    "connections (workers w2 (conn_worker cn)) = remove1 c (remove1 c (connections (workers ?w2 (conn_worker cn))))"
    using finish_waiting [of ?w2 c cn ?st1 h k cd] c refs assms(3) by (auto simp del: conn_run.simps)
  have "perform_task cd h (conn_run (Suc (Suc (Suc (Suc k)))) cd h) c ?t ?w0 = Inr (w2, False)"
    using t w2(1) acc by (simp add: perform_task_def del: conn_run.simps)
  moreover have "tq_try_dequeue (sv_tasks (st\<lparr>sv_tasks := [?t]\<rparr>)) = Some (?t, [])" by simp
  ultimately have "consume_loop cd h (conn_run (Suc (Suc (Suc (Suc k)))) cd h) 3 c ?w1 = Inr w2"
    using c by (simp add: consume_loop_def get_conn_def get_sv_def del: conn_run.simps)
  then have "conn_run (Suc (Suc (Suc (Suc (Suc (Suc k)))))) cd h (ConsumeTask 3) c ?w1 = Inr w2"
    using c by (subst conn_run.simps(2), simp add: consume_task_def get_conn_def del: conn_run.simps)
      (subst conn_run.simps(2), simp del: conn_run.simps)
  moreover have "sent_by (sv_finish ?st1) = sent_by st @ [?r]"
    using c(6) sent_by_send [of "st\<lparr>sv_tasks := []\<rparr>" ?r] by simp
  ultimately show ?thesis
    using finish_login_eq [OF assms(1), of cd 0 msgid data] w2
    by (simp add: sv_finish_def del: conn_run.simps)
qed

definition waiting_conn :: conn where
  "waiting_conn = one_conn\<lparr>conn_status := WAIT_LOGIN, conn_lcid := 1\<rparr>"

definition waiting_world :: world where
  "waiting_world = one_world\<lparr>conns := [0 \<mapsto> waiting_conn], pmap := [1 \<mapsto> 0], cid_seed := 1\<rparr>"

lemma waiting_world_waits: "waiting 0 waiting_conn one_stream waiting_world"
  by (simp add: waiting_def waiting_world_def waiting_conn_def one_world_def one_conn_def one_stream_def world_initial_def
      flowing_def sv_ref_def new_svstream_def)


theorem deferred_login_denied_witness:
  "\<exists>w1 w2 st'. finish_login demo_codec 1 0 3 ''no'' waiting_world = Inr w1 \<and>
    conn_run 6 demo_codec demo_handler (ConsumeTask 3) 0 w1 = Inr w2 \<and> conns w2 0 = None \<and> streams w2 0 = Some st' \<and>
    sent_by st' = [deny_reply 3 ''no'']"
proof -
  have "conn_lcid waiting_conn = 1" "sent_by one_stream = []" "0 < refc one_stream" "h_close demo_handler w 0 = []" for w
    by (simp_all add: waiting_conn_def sent_by_def one_stream_def sv_ref_def new_svstream_def demo_handler_def)
  moreover have six: "6 = Suc (Suc (Suc (Suc (Suc (Suc 0)))))" by simp
  ultimately show ?thesis
    unfolding six using deferred_login_denied [OF waiting_world_waits demo_codec_ok, of demo_handler 3 "''no''" 0]
    by (auto simp del: conn_run.simps)
qed

text \<open>
  A deferred login can be answered once: after \<open>FinishLogin\<close> its id is unknown, and a second
  answer changes nothing.
\<close>

theorem login_answered_once:
  assumes "finish_login cd lcid cid msgid data w = Inr w1"
  shows "find_deferred lcid w1 = None \<and> finish_login cd' lcid cid' msgid' data' w1 = Inr w1"
proof -
  have "pmap w1 lcid = None"
  proof (cases "pmap w lcid")
    case None
    with assms show ?thesis by (simp add: finish_login_def map_find_def)
  next
    case (Some c)
    with assms show ?thesis
      by (auto simp: finish_login_def map_find_def map_erase_def get_conn_def on_sv_def get_sv_def fault_simps Let_def)
  qed
  then show ?thesis by (simp add: finish_login_def find_deferred_def map_find_def)
qed

theorem login_answered_once_witness:
  "\<exists>w1. finish_login demo_codec 1 7 3 ''hi'' waiting_world = Inr w1 \<and> finish_login demo_codec 1 8 3 ''ho'' w1 = Inr w1"
proof -
  obtain w1 where "finish_login demo_codec 1 7 3 ''hi'' waiting_world = Inr w1"
    using finish_login_eq [OF waiting_world_waits, of demo_codec 7 3 "''hi''"] by (auto simp: waiting_conn_def)
  with login_answered_once [OF this] show ?thesis by blast
qed

section \<open>Ids\<close>

text \<open>
  When a connection is closed, the id under which another one was registered since stays with
  that one; otherwise it is free again. No other id is touched.
\<close>

theorem successor_keeps_id:
  assumes "conns w c = Some cn"
  shows "\<exists>w'. conn_unregister c w = Inr w' \<and>
    cmap w' (conn_cid cn) = (if cmap w (conn_cid cn) = Some c then None else cmap w (conn_cid cn)) \<and>
    (\<forall>k. k \<noteq> conn_cid cn \<longrightarrow> cmap w' k = cmap w k)"
  using conn_unregister_eq [OF assms] by simp

theorem successor_keeps_id_witness:
  "\<exists>w'. conn_unregister 0 (waiting_world\<lparr>cmap := [0 \<mapsto> 4]\<rparr>) = Inr w' \<and> cmap w' 0 = Some 4"
  using successor_keeps_id [of "waiting_world\<lparr>cmap := [0 \<mapsto> 4]\<rparr>" 0 waiting_conn]
  by (auto simp: waiting_world_def waiting_conn_def one_conn_def)

text \<open>
  A message sent by connection id goes to the stream of the connection registered under it, after
  everything sent before, and the handle taken on the way is given back; to an unknown id, it is dropped.
\<close>

theorem send_by_id:
  assumes "\<And>c. cmap w cid = Some c \<Longrightarrow> \<exists>cn st. conns w c = Some cn \<and> streams w c = Some st \<and> 0 < refc st \<and> flowing st"
  shows "case cmap w cid of
     None \<Rightarrow> cid_send cid msgid data w = Inr w
   | Some c \<Rightarrow> \<exists>w' st st'. cid_send cid msgid data w = Inr w' \<and> streams w c = Some st \<and> streams w' c = Some st' \<and>
       sent_by st' = sent_by st @ [setup_reply msgid data new_reply] \<and> refc st' = refc st + (if is_sending st then 0 else 1)"
proof (cases "cmap w cid")
  case None
  then show ?thesis by (simp add: cid_send_def with_cid_def map_find_def)
next
  case (Some c)
  from assms [OF this] obtain cn st where c: "conns w c = Some cn" "streams w c = Some st" "0 < refc st" "flowing st" by blast
  let ?r = "setup_reply msgid data new_reply"
  let ?st = "sv_send ?r (sv_ref st)"
  have "sent_by (?st\<lparr>refc := refc ?st - 1\<rparr>) = sent_by ?st" by (simp add: sent_by_def)
  moreover have "sent_by ?st = sent_by st @ [?r]" using sent_by_send [of "sv_ref st" ?r] c(4) by simp
  moreover have "refc ?st - 1 = refc st + (if is_sending st then 0 else 1)"
    by (simp add: sv_send_def sv_ref_def io_write_def)
  moreover have "\<exists>w'. cid_send cid msgid data w = Inr w' \<and> streams w' c = Some (?st\<lparr>refc := refc ?st - 1\<rparr>)"
    using Some c by (simp add: cid_send_def with_cid_def map_find_def get_conn_def on_sv_def get_sv_def stream_send_eq
        stream_unref_def sv_unref_def Let_def stream_gone_def) (simp add: sv_send_def sv_ref_def io_write_def)
  ultimately show ?thesis using Some c by fastforce
qed

theorem send_by_id_witness:
  "\<exists>w' st'. cid_send 7 5 ''x'' (one_world\<lparr>cmap := [7 \<mapsto> 0]\<rparr>) = Inr w' \<and> streams w' 0 = Some st' \<and> refc st' = 2"
  using send_by_id [of "one_world\<lparr>cmap := [7 \<mapsto> 0]\<rparr>" 7 5 "''x''"]
  by (auto simp: one_world_def one_stream_def sv_ref_def new_svstream_def flowing_def split: if_splits)

section \<open>Tasks\<close>

text \<open>How many tasks a round takes: \<open>n\<close>, or all when \<open>n\<close> is negative.\<close>

definition round_size :: "int \<Rightarrow> nat \<Rightarrow> nat" where
  "round_size n len = (if n < 0 then len else min (nat n) len)"

lemma consume_loop_echo:
  assumes "\<And>w t. fst (h_handle h w c t) = [ApiSend (rq_msgid t) (rq_payload t)]"
  shows "conns w c = Some cn \<Longrightarrow> streams w c = Some st \<Longrightarrow> \<forall>t \<in> set (sv_tasks st). rq_kind t = Normal \<Longrightarrow> flowing st \<Longrightarrow>
    length (sv_tasks st) < k \<Longrightarrow>
    \<exists>w' st'. conn_run k cd h (ConsumeLoop n) c w = Inr w' \<and> conns w' = conns w \<and> streams w' c = Some st' \<and>
      sv_tasks st' = drop (round_size n (length (sv_tasks st))) (sv_tasks st) \<and>
      sent_by st' = sent_by st @ map (\<lambda>t. setup_reply (rq_msgid t) (rq_payload t) new_reply) (take (round_size n (length (sv_tasks st))) (sv_tasks st))"
proof (induction "sv_tasks st" arbitrary: st w n k)
  case Nil
  then show ?case by (cases k) (auto simp: consume_loop_def get_conn_def get_sv_def round_size_def)
next
  case (Cons t ts)
  then obtain k' where k: "k = Suc k'" by (cases k) auto
  note ts = Cons.hyps(2) [symmetric]
  show ?case
  proof (cases "n = 0")
    case True
    with Cons.prems k show ?thesis by (simp add: consume_loop_def round_size_def)
  next
    case False
    let ?r = "setup_reply (rq_msgid t) (rq_payload t) new_reply"
    let ?st = "sv_send ?r (st\<lparr>sv_tasks := ts\<rparr>)"
    let ?w = "w\<lparr>streams := (streams w)(c \<mapsto> st\<lparr>sv_tasks := ts\<rparr>)\<rparr>"
    have kind: "rq_kind t = Normal" using Cons.prems(3) ts by simp
    have "\<exists>w1. perform_task cd h self c t ?w = Inr (w1, True) \<and> conns w1 = conns w \<and> streams w1 c = Some ?st" for self
      using Cons.prems(1) kind assms by (simp add: perform_task_def get_conn_def stream_send_eq)
    then obtain w1 where w1: "perform_task cd h (conn_run k' cd h) c t ?w = Inr (w1, True)" "conns w1 = conns w" "streams w1 c = Some ?st"
      by blast
    have run: "conn_run k cd h (ConsumeLoop n) c w = conn_run k' cd h (ConsumeLoop (n - 1)) c w1"
      using False Cons.prems(1,2) ts w1(1) k by (simp add: consume_loop_def get_conn_def get_sv_def)
    have sent: "sent_by ?st = sent_by st @ [?r]" "flowing ?st" "sv_tasks ?st = ts"
      using sent_by_send [of "st\<lparr>sv_tasks := ts\<rparr>" ?r] Cons.prems(4) by simp_all
    have size: "round_size n (length (sv_tasks st)) = Suc (round_size (n - 1) (length ts))"
      using False ts by (auto simp: round_size_def nat_diff_distrib min_def)
    obtain w' st' where "conn_run k' cd h (ConsumeLoop (n - 1)) c w1 = Inr w'" "conns w' = conns w1" "streams w' c = Some st'"
      "sv_tasks st' = drop (round_size (n - 1) (length ts)) ts"
      "sent_by st' = sent_by ?st @ map (\<lambda>t. setup_reply (rq_msgid t) (rq_payload t) new_reply) (take (round_size (n - 1) (length ts)) ts)"
      using Cons.hyps(1) [of ?st w1 k' "n - 1"] w1 sent Cons.prems ts k by (auto simp: sent(3))
    with run w1(2) sent(1) size ts show ?thesis by simp
  qed
qed



end
