(* ===== verification/Server_Defects.thy ===== *)
theory Server_Defects
  imports Server_Behaviour
begin

text \<open>
  What the server side does outside the hypotheses of the theorems of theories \<open>Server_Safety\<close> to
  \<open>Server_Fuel\<close> (a worker shut down, a connection closed twice, callbacks that are not \<open>polite\<close> or not
  \<open>quiet\<close>), each on a concrete run that the kernel evaluates.
\<close>

section \<open>Shutting down\<close>

definition logged_in_world :: "handler \<Rightarrow> conn_fault + world" where
  "logged_in_world h = run_steps (server_step 30 demo_codec h) world_initial
     [Started 0, Completed 0 True new_request, Completed 1 True (new_request\<lparr>rq_type := 7, rq_msgid := 1\<rparr>)]"

text \<open>Two connections of one worker, both logged in and reading.\<close>

definition two_world :: world where
  "two_world = world_initial\<lparr>
     streams := [0 \<mapsto> one_stream, 1 \<mapsto> one_stream],
     conns := [0 \<mapsto> one_conn\<lparr>conn_status := READ, conn_cid := 7\<rparr>, 1 \<mapsto> one_conn\<lparr>conn_status := READ, conn_cid := 8\<rparr>],
     next_addr := 2, cmap := [7 \<mapsto> 0, 8 \<mapsto> 1],
     workers := (\<lambda>_. \<lparr>connections = [], dying = False\<rparr>)(0 := \<lparr>connections = [0, 1], dying = False\<rparr>),
     pending := [(OpRead, JConn 0), (OpRead, JConn 1)]\<rparr>"

text \<open>
  The loop of a worker that shuts down destroys connections by index while each \<open>Destroy\<close> removes
  its connection from the list: of two connections, the second is skipped and stays registered.
\<close>

theorem shutdown_skips_connections:
  "case shutdown_loop 30 demo_codec demo_handler 0 0 (prepare_shutdown 0 two_world) of
     Inl _ \<Rightarrow> False
   | Inr w' \<Rightarrow> connections (workers two_world 0) = [0, 1] \<and> connections (workers w' 0) = [1] \<and> conns w' 0 = None \<and> conns w' 1 \<noteq> None"
  by code_simp

definition waiting_login :: "conn_fault + world" where
  "waiting_login = run_steps (server_step 30 demo_codec demo_handler) world_initial
     [Started 0, Completed 0 True new_request, Completed 1 True (new_request\<lparr>rq_payload := ''later''\<rparr>)]"

text \<open>
  A connection whose login is deferred when its worker shuts down is deleted twice: \<open>Destroy\<close>
  consumes its tasks, which for a dying worker finishes the connection, and that calls \<open>Destroy\<close> again.
\<close>

theorem shutdown_of_deferred_login:
  "case waiting_login of
     Inl _ \<Rightarrow> False
   | Inr w \<Rightarrow> (\<exists>cn. conns w 0 = Some cn \<and> conn_status cn = WAIT_LOGIN) \<and>
       shutdown_loop 30 demo_codec demo_handler 0 0 (prepare_shutdown 0 w) = Inl UseAfterFree"
proof -
  have *: "case waiting_login of
     Inl _ \<Rightarrow> False
   | Inr w \<Rightarrow> (case conns w 0 of None \<Rightarrow> False | Some cn \<Rightarrow> conn_status cn = WAIT_LOGIN) \<and>
       (case shutdown_loop 30 demo_codec demo_handler 0 0 (prepare_shutdown 0 w) of Inl e \<Rightarrow> e = UseAfterFree | Inr _ \<Rightarrow> False)"
    by code_simp
  then show ?thesis
  proof (cases waiting_login)
    case (Inr w)
    with * show ?thesis unfolding Inr sum.case by (auto split: sum.splits option.splits)
  next
    case (Inl e)
    with * show ?thesis unfolding Inl sum.case by simp
  qed
qed

section \<open>Closing\<close>

definition finishes :: "svstream \<Rightarrow> nat" where
  "finishes st = length (filter (\<lambda>c. c = IoFinish) (sv_io st))"

text \<open>
  \<open>mtk_cid_close\<close> called twice before the worker's next round finishes the same stream twice, which
  gRPC does not allow.
\<close>

theorem closed_twice_finishes_twice:
  "case bindE (logged_in_world demo_handler) (\<lambda>w. run_steps (server_step 30 demo_codec demo_handler) w [ClosedFor 7, ClosedFor 7, Ticked 0]) of
     Inl _ \<Rightarrow> False
   | Inr w \<Rightarrow> (case streams w 0 of None \<Rightarrow> False | Some st \<Rightarrow> finishes st = 2)"
  by code_simp

definition closing_handler :: handler where
  "closing_handler = demo_handler\<lparr>h_handle := (\<lambda>w c r. ([ApiClose], True))\<rparr>"

text \<open>
  A connection closed with \<open>mtk_svconn_close\<close> while one of its tasks is handled is only marked: it
  stays until the client sends something, and is then deleted without its rpc being finished.
\<close>

theorem closed_in_task_never_finishes:
  "case bindE (logged_in_world closing_handler) (\<lambda>w. run_steps (server_step 30 demo_codec closing_handler) w [TaskFor 7 1 ''bye'', Ticked 0, Ticked 0]) of
     Inl _ \<Rightarrow> False
   | Inr w \<Rightarrow> (case conns w 0 of None \<Rightarrow> False | Some cn \<Rightarrow> conn_status cn = CLOSE) \<and>
       (case streams w 0 of None \<Rightarrow> False | Some st \<Rightarrow> finishes st = 0) \<and> pending w ! 2 = (OpRead, JConn 0) \<and>
       (case server_step 30 demo_codec closing_handler w (Completed 2 True new_request) of
          Inl _ \<Rightarrow> False
        | Inr w' \<Rightarrow> conns w' 0 = None \<and> \<not> list_ex (\<lambda>p. fst p = OpFinish) (pending w') \<and>
            (case streams w' 0 of None \<Rightarrow> True | Some st \<Rightarrow> finishes st = 0))"
  by code_simp

section \<open>Deferring twice\<close>

definition twice_handler :: handler where
  "twice_handler = demo_handler\<lparr>h_login := (\<lambda>w c r. ([ApiDefer, ApiDefer], 0, []))\<rparr>"

text \<open>
  A login deferred twice leaves the first login id pointing to the connection after its deletion:
  answering it uses a deleted object.
\<close>

theorem deferred_twice_dangles:
  "run_steps (server_step 30 demo_codec twice_handler) (one_world\<lparr>pending := [(OpRead, JConn 0)]\<rparr>)
     [Completed 0 True new_request, LoginFinished 2 0 1 ''no'', Ticked 0, LoginFinished 1 5 1 ''yes''] = Inl UseAfterFree"
proof -
  let ?cn = "one_conn\<lparr>conn_req := new_request, conn_status := WAIT_LOGIN, conn_lcid := 2\<rparr>"
  let ?w1 = "world_initial\<lparr>streams := [0 \<mapsto> one_stream], conns := [0 \<mapsto> ?cn], next_addr := 1, cid_seed := 2,
    pmap := [1 \<mapsto> 0, 2 \<mapsto> 0], workers := (\<lambda>_. \<lparr>connections = [], dying = False\<rparr>)(0 := \<lparr>connections = [0, 0], dying = False\<rparr>),
    deferred := [(0, 1), (0, 2)]\<rparr>"
  let ?w2 = "?w1\<lparr>streams := [0 \<mapsto> one_stream\<lparr>sv_tasks := [login_answer demo_codec 2 0 1 ''no'']\<rparr>], pmap := [1 \<mapsto> 0]\<rparr>"
  have one: "server_step 30 demo_codec twice_handler (one_world\<lparr>pending := [(OpRead, JConn 0)]\<rparr>) (Completed 0 True new_request) = Inr ?w1"
    by (simp add: worker_complete_def process_job_def set_conn_def get_conn_def one_world_def world_initial_def conn_step_def
        one_conn_def step_login_def conn_login_def twice_handler_def new_request_def defer_login_eq wait_login_accept_def)
  have two: "server_step 30 demo_codec twice_handler ?w1 (LoginFinished 2 0 1 ''no'') = Inr ?w2"
    by (simp add: finish_login_def map_find_def map_erase_def get_conn_def on_sv_def get_sv_def sv_sys_task_def tq_enqueue_def
        login_answer_def world_initial_def one_stream_def sv_ref_def new_svstream_def fun_upd_twist)
  have "\<exists>w3. server_step 30 demo_codec twice_handler ?w2 (Ticked 0) = Inr w3 \<and> pmap w3 = [1 \<mapsto> 0] \<and> conns w3 0 = None"
  proof -
    have ans: "rq_kind (login_answer demo_codec 2 0 1 ''no'') = Login"
      "dec_login demo_codec (rq_payload (login_answer demo_codec 2 0 1 ''no'')) = Some \<lparr>lg_login_cid = 2, lg_id = 0, lg_msgid = 1, lg_payload = ''no''\<rparr>"
      using demo_codec_ok by (simp_all add: login_answer_def setup_sys_task_def codec_ok_def)
    have num: "30 = Suc (Suc (Suc (Suc (Suc (Suc (Suc (Suc 22)))))))" by simp
    let ?k = "\<lambda>k. Suc (Suc (Suc (Suc (Suc (Suc (Suc (Suc k)))))))"
    have noclose: "h_close twice_handler w c = []" for w c by (simp add: twice_handler_def demo_handler_def)
    have "\<exists>w3. server_step (?k k) demo_codec twice_handler ?w2 (Ticked 0) = Inr w3 \<and> pmap w3 = [1 \<mapsto> 0] \<and> conns w3 0 = None" for k
      by (simp add: world_initial_def consume_task_def get_conn_def one_conn_def consume_loop_def get_sv_def perform_task_def ans
          accept_login_def stream_send_eq one_stream_def sv_ref_def new_svstream_def sv_send_def io_write_def
          finish_task_def close_stream_def set_status_def set_conn_def on_sv_def sv_finish_def add_pending_def destroy_def
          has_peer_def less_stream_status_def noclose conn_unregister_eq delete_conn_def stream_unref_def sv_unref_def
          stream_gone_def)
    from this [of 22] show ?thesis unfolding num .
  qed
  then obtain w3 where three: "server_step 30 demo_codec twice_handler ?w2 (Ticked 0) = Inr w3" "pmap w3 = [1 \<mapsto> 0]" "conns w3 0 = None"
    by blast
  have four: "server_step 30 demo_codec twice_handler w3 (LoginFinished 1 5 1 ''yes'') = Inl UseAfterFree"
    using three(2,3) by (simp add: finish_login_def map_find_def get_conn_def)
  show ?thesis
    unfolding run_steps.simps one two bindE_Inr three(1) four by simp
qed

section \<open>Tasks without end\<close>

lemma endless_loop:
  assumes "\<And>w t. h_handle h w c t = ([ApiTask ty data], True)"
  shows "conns w c = Some cn \<Longrightarrow> streams w c = Some st \<Longrightarrow> sv_tasks st \<noteq> [] \<Longrightarrow> \<forall>t \<in> set (sv_tasks st). rq_kind t = Normal \<Longrightarrow>
    n < 0 \<Longrightarrow> conn_run k cd h (ConsumeLoop n) c w = Inl OutOfFuel"
proof (induction k arbitrary: w st n)
  case (Suc k)
  obtain t ts where ts: "sv_tasks st = t # ts" using Suc.prems(3) by (cases "sv_tasks st") auto
  let ?w = "w\<lparr>streams := (streams w)(c \<mapsto> st\<lparr>sv_tasks := ts\<rparr>)\<rparr>"
  let ?st = "sv_add_task ty data (st\<lparr>sv_tasks := ts\<rparr>)"
  have kind: "rq_kind t = Normal" using Suc.prems(4) ts by simp
  then have "\<exists>w1. perform_task cd h self c t ?w = Inr (w1, True) \<and> conns w1 = conns w \<and> streams w1 c = Some ?st" for self
    using Suc.prems(1) assms by (simp add: perform_task_def get_conn_def on_sv_def get_sv_def)
  then obtain w1 where w1: "perform_task cd h (conn_run k cd h) c t ?w = Inr (w1, True)" "conns w1 = conns w" "streams w1 c = Some ?st"
    by blast
  have "conn_run k cd h (ConsumeLoop (n - 1)) c w1 = Inl OutOfFuel"
    using Suc.prems ts w1(2,3) by (intro Suc.IH [of w1 ?st])
      (auto simp: sv_add_task_def tq_enqueue_def setup_request_def new_request_def)
  with Suc.prems ts w1(1) show ?case by (simp add: consume_loop_def get_conn_def get_sv_def)
qed simp

text \<open>
  A connection with a task whose handler adds a task each time is never destroyed: \<open>Destroy\<close>
  consumes tasks until none is left, and does not return, whatever the fuel.
\<close>

theorem endless_tasks_never_return:
  assumes "\<And>w t. h_handle h w c t = ([ApiTask ty data], True)" and "conns w c = Some cn" and "has_peer cn"
    and "\<not> dying (workers w (conn_worker cn))" and "streams w c = Some st" and "sv_tasks st \<noteq> []"
    and "\<forall>t \<in> set (sv_tasks st). rq_kind t = Normal"
  shows "conn_run k cd h Destroy c w = Inl OutOfFuel"
proof (cases k)
  case (Suc k')
  have "conn_run k' cd h (ConsumeTask (-1)) c w = Inl OutOfFuel"
  proof (cases k')
    case (Suc k'')
    with endless_loop [OF assms(1,2,5,6,7), of "-1" k'' cd] assms(2,4) show ?thesis
      by (simp add: consume_task_def get_conn_def)
  qed simp
  with Suc assms(2,3) show ?thesis by (simp add: destroy_def get_conn_def)
qed simp

theorem endless_tasks_never_return_witness:
  "conn_run 100 demo_codec (demo_handler\<lparr>h_handle := (\<lambda>_ _ _. ([ApiTask 1 ''again''], True))\<rparr>) Destroy 0
     (one_world\<lparr>streams := [0 \<mapsto> one_stream\<lparr>sv_tasks := [new_request]\<rparr>]\<rparr>) = Inl OutOfFuel"
  by (rule endless_tasks_never_return [where st = "one_stream\<lparr>sv_tasks := [new_request]\<rparr>" and cn = one_conn and ty = 1 and data = "''again''"])
    (simp_all add: one_world_def world_initial_def one_conn_def has_peer_def less_stream_status_def new_request_def)

end
