(* ===== verification/Rpc_Client.thy ===== *)
theory Rpc_Client
  imports Messages Event_Queue Clock "HOL-Library.Multiset"
begin

text \<open>
  The client half of the protocol as the application's thread runs it: \<open>RPCStream\<close> (\<open>rpc.h\<close>, \<open>rpc.cpp\<close>) and its
  delegate \<open>Client\<close> (\<open>mtk.cpp\<close>). A \<open>client\<close> holds the two queues shared with the input/output thread, the map
  of calls that wait for a reply, and the connection state. Callbacks of the application are functions of
  the client that answer with the calls they make back into the interface. The clock and \<open>rand ()\<close> are
  fields set by whoever runs the client: one call of the interface sees one value of each. \<open>cl_log\<close> is a
  history: every call issued (a notification counts as one), every request put into the queue, and what
  became of the callbacks.
\<close>

section \<open>Ordered maps\<close>

text \<open>\<open>std::map\<close> where its order matters: the list of its entries by ascending key.\<close>

fun omap_set :: "'k::linorder \<Rightarrow> 'v \<Rightarrow> ('k \<times> 'v) list \<Rightarrow> ('k \<times> 'v) list" where
  "omap_set k v [] = [(k, v)]"
| "omap_set k v ((j, u) # m) =
     (if k < j then (k, v) # (j, u) # m else if k = j then (k, v) # m else (j, u) # omap_set k v m)"

fun omap_erase :: "'k::linorder \<Rightarrow> ('k \<times> 'v) list \<Rightarrow> ('k \<times> 'v) list" where
  "omap_erase k [] = []"
| "omap_erase k ((j, u) # m) = (if j = k then omap_erase k m else (j, u) # omap_erase k m)"

fun omap_find :: "('k::linorder \<times> 'v) list \<Rightarrow> 'k \<Rightarrow> 'v option" where
  "omap_find [] k = None"
| "omap_find ((j, u) # m) k = (if j = k then Some u else omap_find m k)"

interpretation omap: registry omap_set omap_erase omap_find
proof unfold_locales
  show "omap_find (omap_set k v m) j = (if j = k then Some v else omap_find m j)" for k :: 'a and v :: 'b and m j
    by (induction m) auto
  show "omap_find (omap_erase k m) j = (if j = k then None else omap_find m j)" for k :: 'a and m :: "('a \<times> 'b) list" and j
    by (induction m) auto
qed

abbreviation ordered :: "('k::linorder \<times> 'v) list \<Rightarrow> bool" where
  "ordered m \<equiv> sorted_wrt (<) (map fst m)"

lemma omap_set_keys: "fst ` set (omap_set k v m) = insert k (fst ` set m)"
proof (induction m)
  case (Cons e m)
  then show ?case by (cases e) (auto simp del: image_iff)
qed simp

lemma omap_erase_keys: "fst ` set (omap_erase k m) = fst ` set m - {k}"
proof (induction m)
  case (Cons e m)
  then show ?case by (cases e) (auto simp del: image_iff)
qed simp

lemma ordered_set: "ordered m \<Longrightarrow> ordered (omap_set k v m)"
proof (induction m)
  case (Cons e m)
  then show ?case using omap_set_keys [of k v m] by (cases e) (auto simp: image_iff)
qed simp

lemma ordered_erase: "ordered m \<Longrightarrow> ordered (omap_erase k m)"
proof (induction m)
  case (Cons e m)
  then show ?case using omap_erase_keys [of k m] by (cases e) auto
qed simp

lemma omap_erase_absent: "k \<notin> fst ` set m \<Longrightarrow> omap_erase k m = m"
  by (induction m) auto

lemma omap_find_key: "omap_find m k = Some v \<Longrightarrow> (k, v) \<in> set m"
  by (induction m) (auto split: if_splits)

lemma omap_find_None: "omap_find m k = None \<longleftrightarrow> k \<notin> fst ` set m"
proof (induction m)
  case (Cons e m)
  then show ?case by (cases e) (simp del: image_iff)
qed simp

lemma omap_find_mem: "ordered m \<Longrightarrow> (k, v) \<in> set m \<Longrightarrow> omap_find m k = Some v"
  by (induction m) (auto simp: image_iff)

lemma mset_omap_set:
  "ordered m \<Longrightarrow> image_mset snd (mset (omap_set k v m)) +
     (case omap_find m k of None \<Rightarrow> {#} | Some u \<Rightarrow> {#u#}) = add_mset v (image_mset snd (mset m))"
proof (induction m)
  case (Cons e m)
  obtain j u where e: "e = (j, u)" by force
  have "omap_find m k = None" if "k < j \<or> k = j"
    using Cons.prems e that by (auto simp: omap_find_None)
  with Cons e show ?case by (auto simp: ac_simps)
qed simp

lemma mset_omap_erase:
  "ordered m \<Longrightarrow> omap_find m k = Some v \<Longrightarrow>
   image_mset snd (mset m) = add_mset v (image_mset snd (mset (omap_erase k m)))"
proof (induction m)
  case (Cons e m)
  obtain j u where e: "e = (j, u)" by force
  show ?case
  proof (cases "j = k")
    case True
    then have "k \<notin> fst ` set m" using Cons.prems e by auto
    then show ?thesis using Cons.prems e True by (simp add: omap_erase_absent)
  qed (use Cons e in auto)
qed simp

section \<open>State\<close>

datatype network_status = DISCONNECT | CONNECTING | ESTABLISHED | INITIALIZING | CONNECT

fun network_num :: "network_status \<Rightarrow> nat" where
  "network_num DISCONNECT = 0"
| "network_num CONNECTING = 1"
| "network_num ESTABLISHED = 2"
| "network_num INITIALIZING = 3"
| "network_num CONNECT = 4"

instantiation network_status :: linorder
begin

definition less_eq_network_status :: "network_status \<Rightarrow> network_status \<Rightarrow> bool" where
  "less_eq_network_status a b \<longleftrightarrow> network_num a \<le> network_num b"

definition less_network_status :: "network_status \<Rightarrow> network_status \<Rightarrow> bool" where
  "less_network_status a b \<longleftrightarrow> network_num a < network_num b"

instance
proof
  fix a b c :: network_status
  show "(a < b) = (a \<le> b \<and> \<not> b \<le> a)" by (auto simp: less_eq_network_status_def less_network_status_def)
  show "a \<le> a" by (simp add: less_eq_network_status_def)
  show "a \<le> b \<Longrightarrow> b \<le> c \<Longrightarrow> a \<le> c" by (simp add: less_eq_network_status_def)
  show "a \<le> b \<Longrightarrow> b \<le> a \<Longrightarrow> a = b" by (cases a; cases b) (simp_all add: less_eq_network_status_def)
  show "a \<le> b \<or> b \<le> a" by (auto simp: less_eq_network_status_def)
qed

end

lemma network_less [simp]: "a < b \<longleftrightarrow> network_num a < network_num b" for a b :: network_status
  by (simp add: less_network_status_def)

lemma network_le [simp]: "a \<le> b \<longleftrightarrow> network_num a \<le> network_num b" for a b :: network_status
  by (simp add: less_eq_network_status_def)

text \<open>
  What the queues carry: pointers, of which three values are not objects but signals (0x0 and 0x1 among
  replies, 0x2 among requests).
\<close>

datatype reply_item = DISCONNECT_EVENT | ESTABLISHED_EVENT | RReply reply

datatype request_item = ESTABLISH_REQUEST | RReq request

text \<open>
  A \<open>Callback\<close>: a closure of the application, the closure without a function, or the one of \<open>StartWrite\<close>.
\<close>

datatype callback = AppCb nat | NopCb | OpenCb

record sentry =
  start_at :: u64
  ent_cb :: callback

datatype cl_out =
    Issued callback
  | Posted request
  | Answered callback int string
  | Forgotten callback
  | Leaked callback

record client =
  cl_replys :: "reply_item list"
  cl_requests :: "request_item list"
  cl_reqmap :: "(u32 \<times> sentry) list"
  cl_notifier :: "callback option"
  cl_restarting :: bool
  cl_when :: u64
  cl_timeout :: u64
  cl_seed :: i32
  cl_attempt :: i32
  cl_status :: network_status
  cl_started :: bool
  cl_cid :: u64
  cl_crep :: connect_payload
  cl_now :: u64
  cl_rand :: nat
  cl_log :: "cl_out list"

datatype cl_fault = BadPointer | EmptyFunction | ShiftOverflow | CallDepth | LoopFuel | NoSuchOperation

definition TIMEOUT_DURATION :: u64 where "TIMEOUT_DURATION = sec 30"

definition USE_DEFAULT :: u64 where "USE_DEFAULT = sec 0"

definition new_client :: client where
  "new_client = \<lparr>cl_replys = [], cl_requests = [], cl_reqmap = [], cl_notifier = None, cl_restarting = False, cl_when = 0,
     cl_timeout = TIMEOUT_DURATION, cl_seed = 0, cl_attempt = 0, cl_status = DISCONNECT, cl_started = False, cl_cid = 0,
     cl_crep = new_connect, cl_now = 0, cl_rand = 0, cl_log = []\<rparr>"

definition is_connected :: "client \<Rightarrow> bool" where
  "is_connected s \<longleftrightarrow> cl_status s = CONNECT"

definition is_connecting :: "client \<Rightarrow> bool" where
  "is_connecting s \<longleftrightarrow> cl_status s \<ge> CONNECTING \<and> cl_status s \<le> INITIALIZING"

definition log_out :: "cl_out \<Rightarrow> client \<Rightarrow> client" where
  "log_out x s = s\<lparr>cl_log := cl_log s @ [x]\<rparr>"

definition push_reply :: "reply_item \<Rightarrow> client \<Rightarrow> client" where
  "push_reply x s = s\<lparr>cl_replys := tq_enqueue x (cl_replys s)\<rparr>"

definition push_request :: "request_item \<Rightarrow> client \<Rightarrow> client" where
  "push_request x s =
     (let s1 = s\<lparr>cl_requests := tq_enqueue x (cl_requests s)\<rparr>
      in case x of RReq req \<Rightarrow> log_out (Posted req) s1 | ESTABLISH_REQUEST \<Rightarrow> s1)"

definition pop_request :: "client \<Rightarrow> (request_item \<times> client) option" where
  "pop_request s = (case tq_try_dequeue (cl_requests s) of None \<Rightarrow> None | Some (x, q) \<Rightarrow> Some (x, s\<lparr>cl_requests := q\<rparr>))"

definition send_shutdown_request :: "client \<Rightarrow> client" where
  "send_shutdown_request s = push_request (RReq (new_request\<lparr>rq_kind := Close\<rparr>)) s"

section \<open>The application\<close>

datatype cl_api = CallApi u32 string "nat option" | ResetApi | WatchApi "nat option" | TimeoutApi u64

fun closure :: "nat option \<Rightarrow> callback" where
  "closure (Some k) = AppCb k"
| "closure None = NopCb"

text \<open>
  \<open>mtk_clconf_t\<close> and the closures given with calls: \<open>None\<close> is a closure without a function. Each answers with
  the calls it makes, then with what it returns; \<open>on_start\<close> with the id and the text put into the slice.
\<close>

record cl_app =
  on_ready :: "(client \<Rightarrow> bool) option"
  on_start :: "(client \<Rightarrow> cl_api list \<times> u64 \<times> string) option"
  on_connect :: "(client \<Rightarrow> u64 \<Rightarrow> string \<Rightarrow> cl_api list \<times> bool) option"
  on_close :: "(client \<Rightarrow> u64 \<Rightarrow> int \<Rightarrow> cl_api list \<times> u64) option"
  on_msg :: "client \<Rightarrow> nat \<Rightarrow> int \<Rightarrow> string \<Rightarrow> cl_api list"

definition cl_ready :: "cl_app \<Rightarrow> client \<Rightarrow> bool" where
  "cl_ready ap s = (case on_ready ap of Some f \<Rightarrow> f s | None \<Rightarrow> True)"

text \<open>
  Calling a callback with a result and a text. Callbacks issue calls, and a call made while there is no
  connection is answered at once: the functions below have the argument \<open>resp\<close> for it, and \<open>respond\<close> ties
  the knot, the first argument bounding the depth of the C++ stack.
\<close>

type_synonym responder = "callback \<Rightarrow> int \<Rightarrow> string \<Rightarrow> client \<Rightarrow> cl_fault + client"

fun respond_args :: "reply \<Rightarrow> proto_error option \<Rightarrow> int \<times> string" where
  "respond_args rep (Some err) = (error_code err, error_payload err)"
| "respond_args rep None = (sint (rp_type rep), rp_payload rep)"

definition static_error :: "mtk_error \<Rightarrow> proto_error" where
  "static_error e = \<lparr>error_code = mtk_error_value e, error_payload = []\<rparr>"

definition respond_error :: "responder \<Rightarrow> callback \<Rightarrow> mtk_error \<Rightarrow> client \<Rightarrow> cl_fault + client" where
  "respond_error resp cb e s = resp cb (error_code (static_error e)) (error_payload (static_error e)) s"

definition next_msgid :: "i32 \<Rightarrow> i32" where
  "next_msgid expect = (if sint (expect + 1) \<ge> 2000000000 then 1 else expect + 1)"

definition new_msg_id :: "client \<Rightarrow> u32 \<times> client" where
  "new_msg_id s = (next_msgid (cl_seed s), s\<lparr>cl_seed := next_msgid (cl_seed s)\<rparr>)"

text \<open>\<open>reqmap_[msgid] = ent\<close>: an entry already there is no longer pointed to by anything.\<close>

definition add_entry :: "u32 \<Rightarrow> sentry \<Rightarrow> client \<Rightarrow> client" where
  "add_entry msgid ent s =
     (let s1 = (case omap_find (cl_reqmap s) msgid of None \<Rightarrow> s | Some old \<Rightarrow> log_out (Leaked (ent_cb old)) s)
      in s1\<lparr>cl_reqmap := omap_set msgid ent (cl_reqmap s1)\<rparr>)"

definition call_msg :: "responder \<Rightarrow> request \<Rightarrow> callback \<Rightarrow> u64 \<Rightarrow> client \<Rightarrow> cl_fault + client" where
  "call_msg resp msg cb timeout s =
     (let s0 = log_out (Issued cb) s in
      if cl_status s0 < ESTABLISHED then respond_error resp cb MTK_NOT_CONNECT s0
      else
        let (msgid, s1) = new_msg_id s0; ent = \<lparr>start_at = cl_now s1, ent_cb = cb\<rparr>
        in Inr (add_entry msgid ent (push_request (RReq (msg\<lparr>rq_msgid := msgid\<rparr>)) s1)))"

definition call_typed :: "responder \<Rightarrow> u32 \<Rightarrow> string \<Rightarrow> callback \<Rightarrow> u64 \<Rightarrow> client \<Rightarrow> cl_fault + client" where
  "call_typed resp type buff cb timeout s =
     call_msg resp (new_request\<lparr>rq_type := type, rq_payload := buff\<rparr>) cb
       (if timeout = USE_DEFAULT then cl_timeout s else timeout) s"

text \<open>The template for system payloads, which the sources instantiate for \<open>Connect\<close> and \<open>Ping\<close>.\<close>

definition call_system :: "responder \<Rightarrow> kind \<Rightarrow> string \<times> int \<Rightarrow> callback \<Rightarrow> client \<Rightarrow> cl_fault + client" where
  "call_system resp k packed cb s =
     (if snd packed < 0 then respond_error resp cb MTK_BROKEN_PAYLOAD (log_out (Issued cb) s)
      else call_msg resp (new_request\<lparr>rq_payload := fst packed, rq_kind := k\<rparr>) cb TIMEOUT_DURATION s)"

definition release :: "client \<Rightarrow> client" where
  "release s = push_reply DISCONNECT_EVENT (s\<lparr>cl_restarting := True\<rparr>)"

fun run_cl_api :: "responder \<Rightarrow> cl_api \<Rightarrow> client \<Rightarrow> cl_fault + client" where
  "run_cl_api resp (CallApi type p clsr) s = call_typed resp type p (closure clsr) USE_DEFAULT s"
| "run_cl_api resp ResetApi s = Inr (release s)"
| "run_cl_api resp (WatchApi clsr) s = Inr (s\<lparr>cl_notifier := Some (closure clsr)\<rparr>)"
| "run_cl_api resp (TimeoutApi d) s = Inr (s\<lparr>cl_timeout := d\<rparr>)"

fun run_cl_apis :: "responder \<Rightarrow> cl_api list \<Rightarrow> client \<Rightarrow> cl_fault + client" where
  "run_cl_apis resp [] s = Inr s"
| "run_cl_apis resp (a # as) s = bindE (run_cl_api resp a s) (run_cl_apis resp as)"

section \<open>Opening and closing the stream\<close>

definition call_on_connect :: "responder \<Rightarrow> cl_app \<Rightarrow> u64 \<Rightarrow> string \<Rightarrow> client \<Rightarrow> cl_fault + client \<times> bool" where
  "call_on_connect resp ap cid p s =
     (case on_connect ap of
        None \<Rightarrow> Inl BadPointer
      | Some f \<Rightarrow> bindE (run_cl_apis resp (fst (f s cid p)) s) (\<lambda>s1. Inr (s1, snd (f s cid p))))"

definition on_open_stream :: "responder \<Rightarrow> cl_app \<Rightarrow> codec \<Rightarrow> int \<Rightarrow> string \<Rightarrow> client \<Rightarrow> cl_fault + client \<times> bool" where
  "on_open_stream resp ap cd r p s =
     (if r < 0 then call_on_connect resp ap 0 [] s
      else
        let (n, crep) = unpack (dec_connect cd) merge_connect p (cl_crep s); s1 = s\<lparr>cl_crep := crep\<rparr> in
        if n < 0 then Inr (s1, False)
        else call_on_connect resp ap (cn_id crep) (cn_payload crep) (s1\<lparr>cl_cid := cn_id crep\<rparr>))"

definition open_callback :: "responder \<Rightarrow> cl_app \<Rightarrow> codec \<Rightarrow> int \<Rightarrow> string \<Rightarrow> client \<Rightarrow> cl_fault + client" where
  "open_callback resp ap cd r p s =
     (if r \<ge> 0 then
        bindE (on_open_stream resp ap cd r p s) (\<lambda>(s1, ok).
          Inr (if ok then s1\<lparr>cl_status := CONNECT\<rparr> else push_reply DISCONNECT_EVENT s1))
      else Inr (push_reply DISCONNECT_EVENT s))"

primrec respond :: "nat \<Rightarrow> cl_app \<Rightarrow> codec \<Rightarrow> responder" where
  "respond 0 = (\<lambda>ap cd cb r p s. Inl CallDepth)"
| "respond (Suc n) = (\<lambda>ap cd cb r p s.
     let s0 = log_out (Answered cb r p) s in
     case cb of
       AppCb k \<Rightarrow> run_cl_apis (respond n ap cd) (on_msg ap s0 k r p) s0
     | NopCb \<Rightarrow> Inl BadPointer
     | OpenCb \<Rightarrow> open_callback (respond n ap cd) ap cd r p s0)"

definition add_payload :: "responder \<Rightarrow> cl_app \<Rightarrow> client \<Rightarrow> cl_fault + client \<times> connect_payload" where
  "add_payload resp ap s =
     (case on_start ap of
        None \<Rightarrow> Inl BadPointer
      | Some f \<Rightarrow>
          let (cmds, cid, slice) = f s in
          bindE (run_cl_apis resp cmds s) (\<lambda>s1.
            let c = new_connect\<lparr>cn_id := cid\<rparr>
            in Inr (s1, if length slice > 0 then c\<lparr>cn_payload := slice\<rparr> else c)))"

definition start_write :: "responder \<Rightarrow> cl_app \<Rightarrow> codec \<Rightarrow> client \<Rightarrow> cl_fault + client" where
  "start_write resp ap cd s =
     bindE (add_payload resp ap s) (\<lambda>(s1, payload). call_system resp Connect (pack (enc_connect cd) payload) OpenCb s1)"

text \<open>
  The wait before a new attempt. The product and the quotient of doubles are exact for the bases that
  occur (multiples of a second up to 300 seconds), so that \<open>ceil\<close> is the division of naturals rounded up.
  \<open>5 << 29\<close> does not fit into an \<open>int\<close>.
\<close>

definition calc_jitter :: "nat \<Rightarrow> u64 \<Rightarrow> u64" where
  "calc_jitter rnd base = of_nat (((800 + rnd mod 500) * unat base + 999) div 1000)"

definition calc_reconnect_wait_duration :: "nat \<Rightarrow> i32 \<Rightarrow> cl_fault + u64" where
  "calc_reconnect_wait_duration rnd n_attempt =
     (if sint n_attempt \<le> 1 then Inr (calc_jitter rnd (sec 5))
      else if nat (sint n_attempt - 2) \<ge> 29 then Inl ShiftOverflow
      else Inr (calc_jitter rnd (sec (of_nat (min 300 (5 * 2 ^ nat (sint n_attempt - 2)))))))"

definition on_close_stream :: "responder \<Rightarrow> cl_app \<Rightarrow> i32 \<Rightarrow> client \<Rightarrow> cl_fault + client \<times> u64" where
  "on_close_stream resp ap attempt s =
     bindE (case on_close ap of
              None \<Rightarrow> Inr (s, 0)
            | Some f \<Rightarrow> let (cmds, dur) = f s (cl_cid s) (sint attempt)
                in bindE (run_cl_apis resp cmds s) (\<lambda>s1. Inr (s1, dur)))
       (\<lambda>(s1, dur). if dur \<noteq> 0 then Inr (s1, dur)
          else bindE (calc_reconnect_wait_duration (cl_rand s1) attempt) (\<lambda>d. Inr (s1, d)))"

definition reconnect_wait :: "client \<Rightarrow> u64" where
  "reconnect_wait s = (if cl_when s < cl_now s then 0 else cl_when s - cl_now s)"

section \<open>Draining, replies and timeouts\<close>

text \<open>\<open>delete\<close> of the signal 0x2 is a use of a pointer to nothing.\<close>

definition drain_request_queue :: "client \<Rightarrow> cl_fault + client" where
  "drain_request_queue s =
     (if ESTABLISH_REQUEST \<in> set (tq_drain (cl_requests s)) then Inl BadPointer else Inr (s\<lparr>cl_requests := []\<rparr>))"

definition drain_queue :: "client \<Rightarrow> cl_fault + client" where
  "drain_queue s =
     bindE (drain_request_queue (s\<lparr>cl_replys := []\<rparr>)) (\<lambda>s1.
       Inr (s1\<lparr>cl_reqmap := [], cl_log := cl_log s1 @ map (\<lambda>(k, ent). Forgotten (ent_cb ent)) (cl_reqmap s1)\<rparr>))"

definition process_one :: "responder \<Rightarrow> reply \<Rightarrow> client \<Rightarrow> cl_fault + client" where
  "process_one resp rep s =
     (if cl_restarting s then Inr s
      else if rp_msgid rep = 0 then
        (case cl_notifier s of
           None \<Rightarrow> Inl EmptyFunction
         | Some cb \<Rightarrow> (case respond_args rep None of (r, p) \<Rightarrow> resp cb r p (log_out (Issued cb) s)))
      else
        (case omap_find (cl_reqmap s) (rp_msgid rep) of
           None \<Rightarrow> Inr s
         | Some ent \<Rightarrow>
             (case respond_args rep (rp_error rep) of
                (r, p) \<Rightarrow> resp (ent_cb ent) r p (s\<lparr>cl_reqmap := omap_erase (rp_msgid rep) (cl_reqmap s)\<rparr>))))"

definition stream_closed :: "responder \<Rightarrow> cl_app \<Rightarrow> client \<Rightarrow> cl_fault + client" where
  "stream_closed resp ap s =
     bindE (on_close_stream resp ap (cl_attempt s) (s\<lparr>cl_status := DISCONNECT\<rparr>)) (\<lambda>(s1, d).
       Inr (s1\<lparr>cl_when := cl_now s1 + d\<rparr>))"

definition stream_established :: "client \<Rightarrow> client" where
  "stream_established s = s\<lparr>cl_attempt := 0, cl_when := 0, cl_restarting := False, cl_status := ESTABLISHED\<rparr>"

primrec process_reply :: "nat \<Rightarrow> responder \<Rightarrow> cl_app \<Rightarrow> client \<Rightarrow> cl_fault + client" where
  "process_reply 0 = (\<lambda>resp ap s. Inl LoopFuel)"
| "process_reply (Suc n) = (\<lambda>resp ap s.
     case tq_try_dequeue (cl_replys s) of
       None \<Rightarrow> Inr s
     | Some (item, q) \<Rightarrow>
         (let s0 = s\<lparr>cl_replys := q\<rparr> in
          case item of
            DISCONNECT_EVENT \<Rightarrow> bindE (drain_queue s0) (stream_closed resp ap)
          | ESTABLISHED_EVENT \<Rightarrow> bindE (drain_queue s0) (\<lambda>s1. Inr (stream_established s1))
          | RReply rep \<Rightarrow> bindE (process_one resp rep s0) (process_reply n resp ap)))"

definition overdue :: "u64 \<Rightarrow> sentry \<Rightarrow> bool" where
  "overdue now ent \<longleftrightarrow> start_at ent + TIMEOUT_DURATION < now"

fun erase_all :: "u32 list \<Rightarrow> (u32 \<times> sentry) list \<Rightarrow> (u32 \<times> sentry) list" where
  "erase_all [] m = m"
| "erase_all (k # ks) m = erase_all ks (omap_erase k m)"

fun respond_timeouts :: "responder \<Rightarrow> sentry list \<Rightarrow> client \<Rightarrow> cl_fault + client" where
  "respond_timeouts resp [] s = Inr s"
| "respond_timeouts resp (e # es) s = bindE (respond_error resp (ent_cb e) MTK_TIMEOUT s) (respond_timeouts resp es)"

definition process_timeout :: "responder \<Rightarrow> u64 \<Rightarrow> client \<Rightarrow> cl_fault + client" where
  "process_timeout resp now s =
     (let late = filter (\<lambda>(k, ent). overdue now ent) (cl_reqmap s)
      in respond_timeouts resp (map snd late) (s\<lparr>cl_reqmap := erase_all (map fst late) (cl_reqmap s)\<rparr>))"

section \<open>The poll\<close>

definition try_connect :: "cl_app \<Rightarrow> u64 \<Rightarrow> client \<Rightarrow> client" where
  "try_connect ap now s =
     (if \<not> cl_ready ap s \<or> cl_when s > now then s
      else (push_request ESTABLISH_REQUEST (s\<lparr>cl_status := CONNECTING, cl_attempt := cl_attempt s + 1\<rparr>))\<lparr>cl_started := True\<rparr>)"

text \<open>The first half of the poll: the queue of replies, or what happens when the application is not ready.\<close>

definition update_head :: "responder \<Rightarrow> cl_app \<Rightarrow> client \<Rightarrow> cl_fault + client" where
  "update_head resp ap s =
     (if \<not> cl_ready ap s then
        bindE (drain_queue s) (\<lambda>s1. Inr (s1\<lparr>cl_restarting := True, cl_status := DISCONNECT\<rparr>))
      else process_reply (length (cl_replys s) + 1) resp ap s)"

definition update :: "nat \<Rightarrow> cl_app \<Rightarrow> codec \<Rightarrow> client \<Rightarrow> cl_fault + client" where
  "update depth ap cd s =
     (let resp = respond depth ap cd; now = cl_now s in
      bindE (update_head resp ap s) (\<lambda>s1.
        case cl_status s1 of
          DISCONNECT \<Rightarrow> Inr (try_connect ap now s1)
        | CONNECTING \<Rightarrow> Inr s1
        | ESTABLISHED \<Rightarrow>
            bindE (start_write resp ap cd (s1\<lparr>cl_status := INITIALIZING\<rparr>)) (process_timeout resp now)
        | INITIALIZING \<Rightarrow> process_timeout resp now s1
        | CONNECT \<Rightarrow> process_timeout resp now s1))"

end
