(* ===== verification/Rpc_Steps.thy ===== *)
theory Rpc_Steps
  imports Rpc_Client
begin

text \<open>
  What the operations of a client do, broken into steps of an inductive relation: a step is on the client
  and the callbacks that are \<open>owed\<close>, taken off the map or just issued but not yet called. Every operation is
  a sequence of such steps (a refinement), so that an invariant is shown once a step.
\<close>

section \<open>The steps\<close>

definition same_calls :: "client \<Rightarrow> client \<Rightarrow> bool" where
  "same_calls s t \<longleftrightarrow> cl_reqmap t = cl_reqmap s \<and> cl_status t = cl_status s \<and> cl_log t = cl_log s \<and>
     cl_seed t = cl_seed s \<and> cl_requests t = cl_requests s"

definition register_call :: "request \<Rightarrow> callback \<Rightarrow> client \<Rightarrow> client" where
  "register_call msg cb s =
     add_entry (next_msgid (cl_seed s)) \<lparr>start_at = cl_now s, ent_cb = cb\<rparr>
       (push_request (RReq (msg\<lparr>rq_msgid := next_msgid (cl_seed s)\<rparr>)) (s\<lparr>cl_seed := next_msgid (cl_seed s)\<rparr>))"

definition forget_all :: "client \<Rightarrow> client" where
  "forget_all s = s\<lparr>cl_reqmap := [], cl_log := cl_log s @ map (\<lambda>(k, ent). Forgotten (ent_cb ent)) (cl_reqmap s)\<rparr>"

inductive cl_step :: "client \<times> callback multiset \<Rightarrow> client \<times> callback multiset \<Rightarrow> bool" where
  step_frame: "same_calls s t \<Longrightarrow> cl_step (s, X) (t, X)"
| step_issue: "cl_step (s, X) (log_out (Issued cb) s, add_mset cb X)"
| step_answer: "cl_step (s, add_mset cb X) (log_out (Answered cb r p) s, X)"
| step_register: "cl_status s \<ge> ESTABLISHED \<Longrightarrow> cl_step (s, add_mset cb X) (register_call msg cb s, X)"
| step_take: "omap_find (cl_reqmap s) k = Some ent \<Longrightarrow>
    cl_step (s, X) (s\<lparr>cl_reqmap := omap_erase k (cl_reqmap s)\<rparr>, add_mset (ent_cb ent) X)"
| step_forget: "cl_step (s, X) (forget_all s, X)"
| step_no_requests: "cl_step (s, X) (s\<lparr>cl_requests := []\<rparr>, X)"
| step_pop: "cl_requests s = x # q \<Longrightarrow> cl_step (s, X) (s\<lparr>cl_requests := q\<rparr>, X)"
| step_leave: "cl_reqmap s = [] \<Longrightarrow> cl_step (s, X) (s\<lparr>cl_status := DISCONNECT\<rparr>, X)"
| step_try: "cl_status s = DISCONNECT \<Longrightarrow>
    cl_step (s, X) (push_request ESTABLISH_REQUEST (s\<lparr>cl_status := CONNECTING\<rparr>), X)"
| step_establish: "cl_reqmap s = [] \<Longrightarrow> cl_step (s, X) (s\<lparr>cl_status := ESTABLISHED\<rparr>, X)"
| step_initialize: "cl_status s = ESTABLISHED \<Longrightarrow> cl_step (s, X) (s\<lparr>cl_status := INITIALIZING\<rparr>, X)"
| step_connect: "cl_step (s, X) (s\<lparr>cl_status := CONNECT\<rparr>, X)"

abbreviation cl_steps :: "client \<times> callback multiset \<Rightarrow> client \<times> callback multiset \<Rightarrow> bool" where
  "cl_steps \<equiv> cl_step\<^sup>*\<^sup>*"

text \<open>\<open>goes s X m Y\<close>: when \<open>m\<close> is a client, steps lead there from \<open>s\<close>, and turn the owed callbacks \<open>X\<close> into \<open>Y\<close>.\<close>

definition goes :: "client \<Rightarrow> callback multiset \<Rightarrow> cl_fault + client \<Rightarrow> callback multiset \<Rightarrow> bool" where
  "goes s X m Y \<longleftrightarrow> (\<forall>s'. m = Inr s' \<longrightarrow> cl_steps (s, X) (s', Y))"

definition goes2 :: "client \<Rightarrow> callback multiset \<Rightarrow> cl_fault + client \<times> 'a \<Rightarrow> callback multiset \<Rightarrow> bool" where
  "goes2 s X m Y \<longleftrightarrow> (\<forall>s' a. m = Inr (s', a) \<longrightarrow> cl_steps (s, X) (s', Y))"

named_theorems goes_intros \<open>composition of steps\<close>

lemma goes_Inl [goes_intros]: "goes s X (Inl e) Y" "goes2 s X (Inl e) Y"
  by (simp_all add: goes_def goes2_def)

lemma goes_same: "same_calls s t \<Longrightarrow> goes s X (Inr t) X"
  by (auto simp: goes_def intro: step_frame)

lemma goes_refl [goes_intros]: "goes s X (Inr s) X" "goes2 s X (Inr (s, a)) X"
  by (simp_all add: goes_def goes2_def)

lemma goes_step: "cl_step (s, X) (t, Y) \<Longrightarrow> goes t Y m Z \<Longrightarrow> goes s X m Z"
  by (auto simp: goes_def intro: converse_rtranclp_into_rtranclp)

lemma goes2_step: "cl_step (s, X) (t, Y) \<Longrightarrow> goes2 t Y m Z \<Longrightarrow> goes2 s X m Z"
  by (auto simp: goes2_def intro: converse_rtranclp_into_rtranclp)

lemma goes_bind: "goes s X m Y \<Longrightarrow> (\<And>t. m = Inr t \<Longrightarrow> goes t Y (k t) Z) \<Longrightarrow> goes s X (bindE m k) Z"
  by (fastforce simp: goes_def fault_simps intro: rtranclp_trans)

lemma goes_bind2: "goes2 s X m Y \<Longrightarrow> (\<And>t a. m = Inr (t, a) \<Longrightarrow> goes t Y (k (t, a)) Z) \<Longrightarrow> goes s X (bindE m k) Z"
  by (fastforce simp: goes_def goes2_def fault_simps intro: rtranclp_trans)

lemma goes2_bind: "goes s X m Y \<Longrightarrow> (\<And>t. m = Inr t \<Longrightarrow> goes2 t Y (k t) Z) \<Longrightarrow> goes2 s X (bindE m k) Z"
  by (fastforce simp: goes_def goes2_def fault_simps intro: rtranclp_trans)

lemma goes2_bind2: "goes2 s X m Y \<Longrightarrow> (\<And>t a. m = Inr (t, a) \<Longrightarrow> goes2 t Y (k (t, a)) Z) \<Longrightarrow> goes2 s X (bindE m k) Z"
  by (fastforce simp: goes2_def fault_simps intro: rtranclp_trans)

lemma goes_Inr: "cl_steps (s, X) (t, Y) \<Longrightarrow> goes s X (Inr t) Y"
  by (simp add: goes_def)

lemma goes2_Inr: "cl_steps (s, X) (t, Y) \<Longrightarrow> goes2 s X (Inr (t, a)) Y"
  by (simp add: goes2_def)

lemma frame_steps: "same_calls s t \<Longrightarrow> cl_steps (s, X) (t, X)"
  by (auto intro: step_frame)

section \<open>Every operation is made of steps\<close>

text \<open>A responder answers one owed callback.\<close>

definition answers :: "responder \<Rightarrow> bool" where
  "answers resp \<longleftrightarrow> (\<forall>cb r p s X. goes s (add_mset cb X) (resp cb r p s) X)"

lemma answersD: "answers resp \<Longrightarrow> goes s (add_mset cb X) (resp cb r p s) X"
  by (simp add: answers_def)

lemma call_msg_goes:
  assumes "answers resp"
  shows "goes s X (call_msg resp msg cb t s) X"
proof -
  let ?s0 = "log_out (Issued cb) s"
  have i: "cl_step (s, X) (?s0, add_mset cb X)" by (rule step_issue)
  show ?thesis
  proof (cases "cl_status s < ESTABLISHED")
    case True
    then have "call_msg resp msg cb t s = respond_error resp cb MTK_NOT_CONNECT ?s0"
      by (simp add: call_msg_def log_out_def Let_def)
    with goes_step [OF i answersD [OF assms]] show ?thesis by (simp add: respond_error_def)
  next
    case False
    then have "call_msg resp msg cb t s = Inr (register_call msg cb ?s0)"
      by (simp add: call_msg_def log_out_def register_call_def new_msg_id_def Let_def)
    moreover have "cl_step (?s0, add_mset cb X) (register_call msg cb ?s0, X)"
      using False by (intro step_register) (simp add: log_out_def)
    ultimately show ?thesis by (auto intro: goes_step [OF i] goes_step goes_refl)
  qed
qed

lemma run_cl_api_goes: "answers resp \<Longrightarrow> goes s X (run_cl_api resp a s) X"
  by (cases a) (auto simp: call_typed_def release_def push_reply_def intro!: call_msg_goes goes_same simp: same_calls_def)

lemma run_cl_apis_goes: "answers resp \<Longrightarrow> goes s X (run_cl_apis resp as s) X"
proof (induction as arbitrary: s)
  case (Cons a as)
  then show ?case by (auto intro: goes_bind run_cl_api_goes)
qed (simp add: goes_intros)

lemma call_on_connect_goes: "answers resp \<Longrightarrow> goes2 s X (call_on_connect resp ap cid p s) X"
  by (auto simp: call_on_connect_def intro!: goes_intros goes2_bind [OF run_cl_apis_goes] split: option.split)

lemma on_open_stream_goes:
  assumes "answers resp"
  shows "goes2 s X (on_open_stream resp ap cd r p s) X"
proof (cases "r < 0")
  case True
  then show ?thesis by (simp add: on_open_stream_def call_on_connect_goes [OF assms])
next
  case False
  obtain n c where u: "unpack (dec_connect cd) merge_connect p (cl_crep s) = (n, c)" by force
  have "cl_step (s, X) (s\<lparr>cl_crep := c\<rparr>, X)" "cl_step (s, X) (s\<lparr>cl_crep := c, cl_cid := cn_id c\<rparr>, X)"
    by (auto intro!: step_frame simp: same_calls_def)
  with False show ?thesis
    by (auto simp: on_open_stream_def u Let_def intro: goes2_step goes_intros call_on_connect_goes [OF assms])
qed

lemma open_callback_goes:
  assumes "answers resp"
  shows "goes s X (open_callback resp ap cd r p s) X"
proof -
  have f: "goes t X (Inr (push_reply DISCONNECT_EVENT t)) X" for t
    by (rule goes_same) (simp add: same_calls_def push_reply_def)
  have c: "goes t X (Inr (t\<lparr>cl_status := CONNECT\<rparr>)) X" for t
    by (auto simp: goes_def intro: step_connect)
  show ?thesis
    by (auto simp: open_callback_def f c intro!: goes_bind2 [OF on_open_stream_goes [OF assms]])
qed

lemma respond_goes: "answers (respond n ap cd)"
proof (induction n)
  case 0
  then show ?case by (simp add: answers_def goes_intros)
next
  case (Suc n)
  have "goes s (add_mset cb X) (respond (Suc n) ap cd cb r p s) X" for cb r p s X
    by (rule goes_step [OF step_answer [of s cb X r p]])
      (auto simp: Let_def intro: run_cl_apis_goes [OF Suc] open_callback_goes [OF Suc] goes_intros split: callback.split)
  then show ?case by (simp add: answers_def)
qed

lemma start_write_goes:
  assumes "answers resp"
  shows "goes s X (start_write resp ap cd s) X"
proof -
  have "goes2 s X (add_payload resp ap s) X"
    by (auto simp: add_payload_def Let_def intro!: goes_intros goes2_bind [OF run_cl_apis_goes [OF assms]]
        split: option.split prod.split)
  moreover have "\<not> snd (pack e m) < 0" for e and m :: connect_payload by (simp add: pack_def)
  ultimately show ?thesis
    by (auto simp: start_write_def call_system_def intro!: goes_bind2 call_msg_goes [OF assms])
qed

lemma drain_queue_eq:
  "drain_queue s = (if ESTABLISH_REQUEST \<in> set (cl_requests s) then Inl BadPointer
     else Inr (forget_all (s\<lparr>cl_replys := [], cl_requests := []\<rparr>)))"
  by (simp add: drain_queue_def drain_request_queue_def tq_drain_all forget_all_def)

lemma forget_all_idem: "cl_reqmap (forget_all s) = []"
  by (simp add: forget_all_def)

lemma drain_queue_goes: "goes s X (drain_queue s) X"
proof -
  have "cl_step (s, X) (s\<lparr>cl_replys := []\<rparr>, X)"
    by (rule step_frame) (simp add: same_calls_def)
  moreover have "cl_step (s\<lparr>cl_replys := []\<rparr>, X) (s\<lparr>cl_replys := [], cl_requests := []\<rparr>, X)"
    using step_no_requests [of "s\<lparr>cl_replys := []\<rparr>"] by simp
  moreover have "cl_step (s\<lparr>cl_replys := [], cl_requests := []\<rparr>, X) (forget_all (s\<lparr>cl_replys := [], cl_requests := []\<rparr>), X)"
    by (rule step_forget)
  ultimately show ?thesis
    by (auto simp: drain_queue_eq goes_def intro: converse_rtranclp_into_rtranclp)
qed

lemma drain_queue_empty: "drain_queue s = Inr t \<Longrightarrow> cl_reqmap t = [] \<and> cl_replys t = [] \<and> cl_requests t = []"
  by (auto simp: drain_queue_eq forget_all_def split: if_splits)

lemma process_one_goes:
  assumes "answers resp"
  shows "goes s X (process_one resp rep s) X"
proof -
  have n: "goes s X (resp cb r p (log_out (Issued cb) s)) X" for cb r p
    by (rule goes_step [OF step_issue answersD [OF assms]])
  have a: "goes s X (resp (ent_cb ent) r p (s\<lparr>cl_reqmap := omap_erase k (cl_reqmap s)\<rparr>)) X"
    if "omap_find (cl_reqmap s) k = Some ent" for k ent r p
    by (rule goes_step [OF step_take [OF that] answersD [OF assms]])
  show ?thesis
    by (auto simp: process_one_def n intro: a goes_intros split: option.split prod.split)
qed

lemma stream_closed_goes:
  assumes "answers resp" and "cl_reqmap s = []"
  shows "goes s X (stream_closed resp ap s) X"
proof -
  let ?s = "s\<lparr>cl_status := DISCONNECT\<rparr>"
  have "goes2 ?s X (on_close_stream resp ap (cl_attempt s) ?s) X"
    unfolding on_close_stream_def
    by (rule goes2_bind2 [of _ _ _ X])
      (auto simp: fault_simps goes2_def Let_def split: option.splits prod.splits if_splits
        dest!: run_cl_apis_goes [OF assms(1), unfolded goes_def, rule_format])
  then show ?thesis
    unfolding stream_closed_def
    by (intro goes_step [OF step_leave [OF assms(2)]] goes_bind2)
      (auto intro!: goes_same simp: same_calls_def)
qed

lemma process_reply_goes: "answers resp \<Longrightarrow> goes s X (process_reply n resp ap s) X"
proof (induction n arbitrary: s)
  case 0
  then show ?case by (simp add: goes_intros)
next
  case (Suc n)
  note r = Suc.prems
  show ?case
  proof (cases "cl_replys s")
    case Nil
    then show ?thesis by (simp add: goes_intros)
  next
    case (Cons item q)
    let ?s = "s\<lparr>cl_replys := q\<rparr>"
    have f: "cl_step (s, X) (?s, X)" by (rule step_frame) (simp add: same_calls_def)
    have e: "goes t X (Inr (stream_established t)) X" if "cl_reqmap t = []" for t
      by (rule goes_step [OF step_establish [OF that] goes_same]) (simp add: same_calls_def stream_established_def)
    have "goes ?s X (case item of DISCONNECT_EVENT \<Rightarrow> bindE (drain_queue ?s) (stream_closed resp ap)
        | ESTABLISHED_EVENT \<Rightarrow> bindE (drain_queue ?s) (\<lambda>s1. Inr (stream_established s1))
        | RReply rep \<Rightarrow> bindE (process_one resp rep ?s) (process_reply n resp ap)) X"
      by (cases item)
        (auto intro!: goes_bind [OF drain_queue_goes] goes_bind [OF process_one_goes [OF r]] e stream_closed_goes [OF r]
          Suc.IH [OF r] dest: drain_queue_empty)
    then show ?thesis using goes_step [OF f] by (simp add: Cons Let_def)
  qed
qed

section \<open>Timeouts and the poll\<close>

lemma log_out_simps [simp]:
  "cl_reqmap (log_out x s) = cl_reqmap s" "cl_status (log_out x s) = cl_status s" "cl_seed (log_out x s) = cl_seed s"
  "cl_requests (log_out x s) = cl_requests s" "cl_log (log_out x s) = cl_log s @ [x]" "cl_now (log_out x s) = cl_now s"
  "cl_replys (log_out x s) = cl_replys s"
  by (simp_all add: log_out_def)

lemma push_request_simps [simp]:
  "cl_reqmap (push_request x s) = cl_reqmap s" "cl_status (push_request x s) = cl_status s"
  "cl_seed (push_request x s) = cl_seed s" "cl_requests (push_request x s) = cl_requests s @ [x]"
  "cl_replys (push_request x s) = cl_replys s"
  "cl_log (push_request x s) = cl_log s @ (case x of RReq req \<Rightarrow> [Posted req] | ESTABLISH_REQUEST \<Rightarrow> [])"
  by (simp_all add: push_request_def tq_enqueue_def Let_def split: request_item.split)

lemma register_call_reqmap: "cl_reqmap (register_call msg cb s) =
    omap_set (next_msgid (cl_seed s)) \<lparr>start_at = cl_now s, ent_cb = cb\<rparr> (cl_reqmap s)"
  by (simp add: register_call_def add_entry_def Let_def split: option.split)

lemma step_ordered: "cl_step p q \<Longrightarrow> ordered (cl_reqmap (fst p)) \<Longrightarrow> ordered (cl_reqmap (fst q))"
  by (induction rule: cl_step.induct) (auto simp: same_calls_def register_call_reqmap ordered_set ordered_erase forget_all_def)

lemma steps_ordered: "cl_steps (s, X) (t, Y) \<Longrightarrow> ordered (cl_reqmap s) \<Longrightarrow> ordered (cl_reqmap t)"
  by (induction "(t, Y)" arbitrary: t Y rule: rtranclp_induct) (auto dest: step_ordered)

lemma respond_timeouts_goes:
  assumes "answers resp"
  shows "goes s (mset (map ent_cb es) + X) (respond_timeouts resp es s) X"
proof (induction es arbitrary: s)
  case (Cons e es)
  then show ?case
    by (auto simp: respond_error_def intro!: goes_bind [OF answersD [OF assms]])
qed (simp add: goes_intros)

lemma take_all_steps:
  "ordered (cl_reqmap s) \<Longrightarrow> ordered late \<Longrightarrow> set late \<subseteq> set (cl_reqmap s) \<Longrightarrow>
   cl_steps (s, X) (s\<lparr>cl_reqmap := erase_all (map fst late) (cl_reqmap s)\<rparr>, mset (map (ent_cb \<circ> snd) late) + X)"
proof (induction late arbitrary: s X)
  case (Cons e late)
  obtain k ent where e: "e = (k, ent)" by force
  let ?t = "s\<lparr>cl_reqmap := omap_erase k (cl_reqmap s)\<rparr>"
  have found: "omap_find (cl_reqmap s) k = Some ent"
    using Cons.prems e by (intro omap_find_mem) auto
  have keep: "x \<in> set (omap_erase k m)" if "x \<in> set m" "fst x \<noteq> k" for x and m :: "(u32 \<times> sentry) list"
    using that by (induction m) auto
  have "fst x \<noteq> k" if "x \<in> set late" for x
    using Cons.prems(2) e that by fastforce
  then have "set late \<subseteq> set (cl_reqmap ?t)" using Cons.prems(3) keep by auto
  with Cons.prems have "cl_steps (?t, add_mset (ent_cb ent) X)
      (?t\<lparr>cl_reqmap := erase_all (map fst late) (cl_reqmap ?t)\<rparr>, mset (map (ent_cb \<circ> snd) late) + add_mset (ent_cb ent) X)"
    by (intro Cons.IH) (auto simp: ordered_erase)
  from converse_rtranclp_into_rtranclp [OF step_take [OF found] this] show ?case
    by (simp add: e comp_def)
qed simp

lemma ordered_filter: "ordered m \<Longrightarrow> ordered (filter P m)"
  by (induction m) auto

lemma process_timeout_goes:
  assumes "answers resp" and "ordered (cl_reqmap s)"
  shows "goes s X (process_timeout resp now s) X"
proof -
  let ?late = "filter (\<lambda>(k, ent). overdue now ent) (cl_reqmap s)"
  have "cl_steps (s, X) (s\<lparr>cl_reqmap := erase_all (map fst ?late) (cl_reqmap s)\<rparr>, mset (map (ent_cb \<circ> snd) ?late) + X)"
    by (rule take_all_steps) (use assms(2) in \<open>auto intro: ordered_filter\<close>)
  moreover have "goes t (mset (map (ent_cb \<circ> snd) ?late) + X) (respond_timeouts resp (map snd ?late) t) X" for t
    using respond_timeouts_goes [OF assms(1), of t "map snd ?late" X] by simp
  ultimately show ?thesis
    by (fastforce simp: process_timeout_def goes_def Let_def intro: rtranclp_trans)
qed

lemma try_connect_steps:
  assumes "cl_status s = DISCONNECT"
  shows "cl_steps (s, X) (try_connect ap now s, X)"
proof -
  let ?t = "push_request ESTABLISH_REQUEST (s\<lparr>cl_status := CONNECTING\<rparr>)"
  have "cl_step (s, X) (?t, X)" by (rule step_try [OF assms])
  moreover have "cl_step (?t, X) (?t\<lparr>cl_attempt := cl_attempt s + 1, cl_started := True\<rparr>, X)"
    by (rule step_frame) (simp add: same_calls_def)
  moreover have "?t\<lparr>cl_attempt := cl_attempt s + 1, cl_started := True\<rparr> =
      (push_request ESTABLISH_REQUEST (s\<lparr>cl_status := CONNECTING, cl_attempt := cl_attempt s + 1\<rparr>))\<lparr>cl_started := True\<rparr>"
    by (simp add: push_request_def)
  ultimately show ?thesis
    by (simp add: try_connect_def) (metis converse_rtranclp_into_rtranclp r_into_rtranclp)
qed

lemma update_head_goes:
  assumes "answers resp"
  shows "goes s X (update_head resp ap s) X"
proof -
  have d: "goes t X (Inr (t\<lparr>cl_restarting := True, cl_status := DISCONNECT\<rparr>)) X" if "cl_reqmap t = []" for t
    by (rule goes_step [OF step_leave [OF that] goes_same]) (simp add: same_calls_def)
  show ?thesis
    by (auto simp: update_head_def process_reply_goes [OF assms] intro!: goes_bind [OF drain_queue_goes] d
        dest: drain_queue_empty simp del: process_reply.simps)
qed

theorem update_goes:
  assumes "ordered (cl_reqmap s)"
  shows "goes s X (update depth ap cd s) X"
proof -
  let ?resp = "respond depth ap cd"
  note r = respond_goes [of depth ap cd]
  have "goes t X (case cl_status t of
          DISCONNECT \<Rightarrow> Inr (try_connect ap (cl_now s) t)
        | CONNECTING \<Rightarrow> Inr t
        | ESTABLISHED \<Rightarrow> bindE (start_write ?resp ap cd (t\<lparr>cl_status := INITIALIZING\<rparr>)) (process_timeout ?resp (cl_now s))
        | INITIALIZING \<Rightarrow> process_timeout ?resp (cl_now s) t
        | CONNECT \<Rightarrow> process_timeout ?resp (cl_now s) t) X" if t: "update_head ?resp ap s = Inr t" for t
  proof -
    have o: "ordered (cl_reqmap t)"
      using update_head_goes [OF r, of s X ap] t assms by (auto simp: goes_def intro: steps_ordered)
    show ?thesis
    proof (cases "cl_status t")
      case ESTABLISHED
      let ?t = "t\<lparr>cl_status := INITIALIZING\<rparr>"
      have "ordered (cl_reqmap u)" if "start_write ?resp ap cd ?t = Inr u" for u
        using start_write_goes [OF r, of ?t X ap cd] that o steps_ordered [of ?t X u X] by (auto simp: goes_def)
      then show ?thesis
        using ESTABLISHED
        by (auto intro!: goes_step [OF step_initialize] goes_bind [OF start_write_goes [OF r]] process_timeout_goes [OF r])
    qed (auto simp: goes_def try_connect_steps intro: process_timeout_goes [OF r o, unfolded goes_def, rule_format])
  qed
  then show ?thesis
    unfolding update_def Let_def by (rule goes_bind [OF update_head_goes [OF r]])
qed

end
