(* ===== verification/Rpc_IO.thy ===== *)
theory Rpc_IO
  imports Rpc_Steps "HOL-Library.Sublist"
begin

unbundle bit_operations_syntax

text \<open>
  The input/output thread of a client, \<open>IOThread\<close> (\<open>rpc.h\<close>, \<open>rpc.cpp\<close>), and a client together with it. What is
  outstanding at gRPC is a list of operations, each with the number of the stream it was started on and its
  tag; gRPC may complete any of them, with or without success, and a successful read with any reply. The
  thread and the application's thread meet in the two queues only: a run is a list of events, each of which
  is one call of the interface or one turn of the thread's loop. \<open>ASSERT\<close> is empty, as in a release build.
\<close>

section \<open>Tags\<close>

text \<open>The shift is made in 32 bits; the result is then made a pointer.\<close>

definition generate_write_tag :: "u32 \<Rightarrow> u64" where
  "generate_write_tag msgid = ucast (push_bit 8 msgid + 1)"

definition generate_read_tag :: "u32 \<Rightarrow> u64" where
  "generate_read_tag connect_sequence_num = ucast (push_bit 8 connect_sequence_num + 0)"

definition generate_close_tag :: "u32 \<Rightarrow> u64" where
  "generate_close_tag connect_sequence_num = ucast (push_bit 8 connect_sequence_num + 2)"

definition is_write_operation :: "u64 \<Rightarrow> bool" where
  "is_write_operation tag \<longleftrightarrow> tag AND 0xFF = 1"

definition is_read_operation :: "u64 \<Rightarrow> bool" where
  "is_read_operation tag \<longleftrightarrow> tag AND 0xFF = 0"

definition is_close_operation :: "u64 \<Rightarrow> bool" where
  "is_close_operation tag \<longleftrightarrow> tag AND 0xFF = 2"

definition connect_sequence_from_read_tag :: "u64 \<Rightarrow> u32" where
  "connect_sequence_from_read_tag tag = ucast (drop_bit 8 tag)"

definition connect_sequence_from_close_tag :: "u64 \<Rightarrow> u32" where
  "connect_sequence_from_close_tag tag = connect_sequence_from_read_tag tag"

definition tag_value :: "u32 \<Rightarrow> u32 \<Rightarrow> u64" where
  "tag_value n k = ucast (push_bit 8 n + k)"

lemma and_255: "tag AND 0xFF = tag mod 256" for tag :: u64
proof -
  have "tag AND 0xFF = take_bit 8 tag" by (simp add: take_bit_eq_mask mask_eq_exp_minus_1)
  then show ?thesis by (simp add: take_bit_eq_mod)
qed

lemma unat_tag: "unat (tag_value n k) = (unat n * 256 + unat k) mod 2 ^ 32"
proof -
  have "push_bit 8 n = n * 256" by (simp add: push_bit_eq_mult)
  then show ?thesis
    by (simp add: tag_value_def unsigned_ucast_eq unat_word_ariths take_bit_eq_mod mod_simps unat_arith_simps)
qed

lemma unat_mod_256: "unat (x mod 256) = unat x mod 256" for x :: u64
  by (simp add: unat_mod_distrib)

lemma tag_low_byte:
  assumes "unat k < 256"
  shows "tag_value n k AND 0xFF = ucast k"
proof -
  have "unat (tag_value n k) mod 256 = (unat n * 256 + unat k) mod 256"
    unfolding unat_tag by (rule mod_mod_cancel) simp
  also have "\<dots> = unat k" using assms by simp
  finally have "unat (tag_value n k AND 0xFF) = unat (ucast k :: u64)"
    by (simp add: and_255 unat_mod_256 unsigned_ucast_eq take_bit_eq_mod unat_mod_distrib)
  then show ?thesis by (simp add: word_unat_eq_iff)
qed

lemma tag_sequence:
  assumes "unat k < 256"
  shows "connect_sequence_from_read_tag (tag_value n k) = n mod 2 ^ 24"
proof -
  let ?t = "unat (tag_value n k)"
  have "?t div 256 = unat n mod 2 ^ 24"
  proof -
    have "unat n * 256 + unat k = (unat n mod 2 ^ 24 * 256 + unat k) + unat n div 2 ^ 24 * 2 ^ 32"
    proof -
      have "a = q * 2 ^ 24 + r \<Longrightarrow> a * 256 + c = (r * 256 + c) + q * 2 ^ 32" for a q r c :: nat by simp
      then show ?thesis using div_mult_mod_eq [of "unat n" "2 ^ 24"] by metis
    qed
    then have "?t = (unat n mod 2 ^ 24 * 256 + unat k) mod 2 ^ 32"
      unfolding unat_tag by (simp only: mod_mult_self1)
    moreover have "unat n mod 2 ^ 24 * 256 + unat k < 2 ^ 32"
    proof -
      have "r < 2 ^ 24 \<Longrightarrow> c < 256 \<Longrightarrow> r * 256 + c < 2 ^ 32" for r c :: nat by simp
      then show ?thesis using assms mod_less_divisor [of "2 ^ 24" "unat n"] by simp
    qed
    ultimately have "?t = unat n mod 2 ^ 24 * 256 + unat k" by simp
    then show ?thesis using assms by simp
  qed
  then have "unat (drop_bit 8 (tag_value n k)) = unat (n mod 2 ^ 24)"
    by (simp add: unsigned_drop_bit_eq drop_bit_eq_div unat_mod_distrib unat_div_distrib)
  moreover have "unat (n mod 2 ^ 24) < 2 ^ 32"
    by (rule order_less_le_trans [OF unsigned_less]) simp
  ultimately have "unat (ucast (drop_bit 8 (tag_value n k)) :: u32) = unat (n mod 2 ^ 24)"
    by (simp add: unsigned_ucast_eq take_bit_eq_mod)
  then show ?thesis by (simp add: connect_sequence_from_read_tag_def word_unat_eq_iff)
qed

lemma tags_are_values:
  "generate_write_tag n = tag_value n 1" "generate_read_tag n = tag_value n 0" "generate_close_tag n = tag_value n 2"
  by (simp_all add: generate_write_tag_def generate_read_tag_def generate_close_tag_def tag_value_def)

lemma tag_kinds [simp]:
  "is_write_operation (generate_write_tag n)" "\<not> is_read_operation (generate_write_tag n)"
  "is_read_operation (generate_read_tag n)" "\<not> is_write_operation (generate_read_tag n)"
  using tag_low_byte [of 1 n] tag_low_byte [of 0 n]
  by (auto simp: tags_are_values is_write_operation_def is_read_operation_def)

text \<open>
  A tag tells its kind back, and a read tag the number of its stream, up to 24 bits: after
  2^24 reconnections the end of a stream is taken for the end of an older one, and no
  disconnection is reported.
\<close>

theorem tag_roundtrip:
  "is_read_operation (generate_read_tag n) \<and> is_write_operation (generate_write_tag m) \<and>
   is_close_operation (generate_close_tag n) \<and> \<not> is_write_operation (generate_read_tag n) \<and>
   connect_sequence_from_read_tag (generate_read_tag n) = n mod 2 ^ 24 \<and>
   connect_sequence_from_close_tag (generate_close_tag n) = n mod 2 ^ 24"
  using tag_low_byte [of 2 n] tag_sequence [of 0 n] tag_sequence [of 2 n]
  by (auto simp: is_close_operation_def connect_sequence_from_close_tag_def simp flip: tags_are_values(2))
    (simp_all add: tags_are_values)

section \<open>The thread\<close>

text \<open>\<open>mtk_addr_t\<close>: pointers that may be null; a \<open>std::string\<close> cannot be assigned from a null pointer.\<close>

record mtk_addr =
  addr_host :: string
  addr_cert :: "string option"
  addr_key :: "string option"
  addr_ca :: "string option"

record cred_options =
  pem_cert_chain :: string
  pem_private_key :: string
  pem_root_certs :: string

definition create_cred :: "mtk_addr \<Rightarrow> cl_fault + cred_options option" where
  "create_cred settings =
     (case addr_cert settings of
        None \<Rightarrow> Inr None
      | Some cert \<Rightarrow>
          (case (addr_key settings, addr_ca settings) of
             (Some key, Some ca) \<Rightarrow> Inr (Some \<lparr>pem_cert_chain = cert, pem_private_key = key, pem_root_certs = ca\<rparr>)
           | _ \<Rightarrow> Inl BadPointer))"

datatype deadline = InfFuture | AfterMsec u32

text \<open>
  \<open>io_channel\<close> is what \<open>stub_\<close> was made from (the address and the credentials), \<open>io_context\<close> the deadline of
  the context, \<open>io_open\<close> whether \<open>io_\<close> is set, \<open>io_reply\<close> whether \<open>reply_work_\<close> is. \<open>io_ops\<close> are the operations
  outstanding at gRPC, \<open>io_wire\<close> the requests written, each with the number of its stream.
\<close>

record io_thread =
  io_channel :: "(string \<times> cred_options option) option"
  io_context :: "deadline option"
  io_open :: bool
  io_reply :: bool
  io_seq :: u32
  io_sending :: bool
  io_alive :: bool
  io_shutdown :: bool
  io_cq_down :: bool
  io_ops :: "(u32 \<times> u64) list"
  io_wire :: "(u32 \<times> request) list"

definition new_io_thread :: io_thread where
  "new_io_thread = \<lparr>io_channel = None, io_context = None, io_open = False, io_reply = False, io_seq = 0, io_sending = False,
     io_alive = True, io_shutdown = False, io_cq_down = False, io_ops = [], io_wire = []\<rparr>"

definition io_initialize :: "string \<Rightarrow> cred_options option \<Rightarrow> io_thread \<Rightarrow> io_thread" where
  "io_initialize addr options t = t\<lparr>io_channel := Some (addr, options)\<rparr>"

definition io_finalize :: "io_thread \<Rightarrow> io_thread" where
  "io_finalize t = t\<lparr>io_context := None\<rparr>"

definition set_deadline :: "u32 \<Rightarrow> io_thread \<Rightarrow> io_thread" where
  "set_deadline duration_msec t =
     (if duration_msec = 0xFFFFFFFF then t\<lparr>io_context := Some InfFuture\<rparr>
      else t\<lparr>io_context := Some (AfterMsec duration_msec)\<rparr>)"

definition io_close :: "io_thread \<Rightarrow> io_thread" where
  "io_close t = (if io_context t \<noteq> None then t\<lparr>io_context := None\<rparr> else t)"

definition start_op :: "u64 \<Rightarrow> io_thread \<Rightarrow> io_thread" where
  "start_op tag t = t\<lparr>io_ops := io_ops t @ [(io_seq t, tag)]\<rparr>"

definition open_stream :: "io_thread \<Rightarrow> cl_fault + io_thread" where
  "open_stream t =
     (if io_channel t = None then Inl BadPointer
      else
        let t1 = io_close t; t2 = t1\<lparr>io_seq := io_seq t1 + 1\<rparr>; t3 = set_deadline 0xFFFFFFFF t2
        in Inr (start_op (generate_read_tag (io_seq t3)) (t3\<lparr>io_open := True\<rparr>)))"

definition stream_write :: "request \<Rightarrow> io_thread \<Rightarrow> cl_fault + io_thread" where
  "stream_write req t =
     (if \<not> io_open t then Inl BadPointer
      else Inr (start_op (generate_write_tag (rq_msgid req)) (t\<lparr>io_wire := io_wire t @ [(io_seq t, req)]\<rparr>)))"

definition io_read :: "io_thread \<Rightarrow> io_thread" where
  "io_read t = start_op (generate_read_tag (io_seq t)) (t\<lparr>io_reply := True\<rparr>)"

section \<open>A client with its thread\<close>

record rpc =
  owner :: client
  iothr :: io_thread

definition new_rpc :: "string \<Rightarrow> cred_options option \<Rightarrow> rpc" where
  "new_rpc addr options = \<lparr>owner = new_client, iothr = io_initialize addr options new_io_thread\<rparr>"

text \<open>\<open>mtk_connect\<close>.\<close>

definition mtk_connect :: "mtk_addr \<Rightarrow> cl_fault + rpc" where
  "mtk_connect addr = bindE (create_cred addr) (\<lambda>opts. Inr (new_rpc (addr_host addr) opts))"

text \<open>A turn of \<open>Run\<close> when \<open>AsyncNext\<close> has timed out.\<close>

definition io_idle :: "rpc \<Rightarrow> cl_fault + rpc" where
  "io_idle r =
     (if io_sending (iothr r) then Inr r
      else
        (case pop_request (owner r) of
           None \<Rightarrow> Inr r
         | Some (ESTABLISH_REQUEST, c) \<Rightarrow> bindE (open_stream (iothr r)) (\<lambda>t. Inr (r\<lparr>owner := c, iothr := t\<rparr>))
         | Some (RReq req, c) \<Rightarrow>
             bindE (stream_write req (iothr r)) (\<lambda>t. Inr (r\<lparr>owner := c, iothr := t\<lparr>io_sending := True\<rparr>\<rparr>))))"

text \<open>
  \<open>HandleEvent\<close>. The request popped after a write is taken for a request whatever it is. \<open>rep\<close> is what gRPC put
  into the reply that was waiting to be read.
\<close>

definition write_done :: "bool \<Rightarrow> rpc \<Rightarrow> cl_fault + rpc" where
  "write_done ok r =
     (if \<not> ok then Inr r
      else
        (case pop_request (owner r) of
           None \<Rightarrow> Inr (r\<lparr>iothr := (iothr r)\<lparr>io_sending := False\<rparr>\<rparr>)
         | Some (ESTABLISH_REQUEST, c) \<Rightarrow> Inl BadPointer
         | Some (RReq req, c) \<Rightarrow> bindE (stream_write req (iothr r)) (\<lambda>t. Inr (r\<lparr>owner := c, iothr := t\<rparr>))))"

definition read_done :: "bool \<Rightarrow> u64 \<Rightarrow> reply \<Rightarrow> rpc \<Rightarrow> cl_fault + rpc" where
  "read_done ok tag rep r =
     (let had = io_reply (iothr r); t = (iothr r)\<lparr>io_reply := False\<rparr> in
      if \<not> ok then
        if io_shutdown t then Inr (r\<lparr>iothr := t\<lparr>io_cq_down := True\<rparr>\<rparr>)
        else
          bindE (drain_request_queue (owner r)) (\<lambda>c.
            Inr (r\<lparr>owner := (if io_seq t = connect_sequence_from_read_tag tag then push_reply DISCONNECT_EVENT c else c),
                   iothr := t\<rparr>))
      else
        Inr (r\<lparr>owner := push_reply (if had then RReply rep else ESTABLISHED_EVENT) (owner r), iothr := io_read t\<rparr>))"

definition handle_event :: "bool \<Rightarrow> u64 \<Rightarrow> reply \<Rightarrow> rpc \<Rightarrow> cl_fault + rpc" where
  "handle_event ok tag rep r =
     (if is_write_operation tag then write_done ok r
      else if is_read_operation tag then read_done ok tag rep r
      else if is_close_operation tag then Inr (r\<lparr>iothr := (iothr r)\<lparr>io_alive := False\<rparr>\<rparr>)
      else Inr r)"

text \<open>One turn of \<open>Run\<close>: the completion of the \<open>i\<close>-th outstanding operation, a time-out, or the end of the queue.\<close>

datatype next_status = GotEvent nat bool reply | NextTimeout | NextShutdown

fun io_turn :: "next_status \<Rightarrow> rpc \<Rightarrow> cl_fault + rpc" where
  "io_turn (GotEvent i ok rep) r =
     (if i < length (io_ops (iothr r)) then
        handle_event ok (snd (io_ops (iothr r) ! i)) rep
          (r\<lparr>iothr := (iothr r)\<lparr>io_ops := take i (io_ops (iothr r)) @ drop (Suc i) (io_ops (iothr r))\<rparr>\<rparr>)
      else Inl NoSuchOperation)"
| "io_turn NextTimeout r = io_idle r"
| "io_turn NextShutdown r = Inr (r\<lparr>iothr := (iothr r)\<lparr>io_alive := False\<rparr>\<rparr>)"

text \<open>The loop, on the list of what \<open>AsyncNext\<close> answers.\<close>

fun io_run :: "next_status list \<Rightarrow> rpc \<Rightarrow> cl_fault + rpc" where
  "io_run [] r = Inr r"
| "io_run (n # ns) r = (if \<not> io_alive (iothr r) then Inr r else bindE (io_turn n r) (io_run ns))"

section \<open>Stopping\<close>

text \<open>
  \<open>Stop\<close> up to the wait; the wait, on what \<open>alive_\<close> is at each look (the number of looks, and whether it was
  still set at the last, \<open>None\<close> as long as it goes on); what follows a wait without success; and the end after the thread was joined.
\<close>

definition stop_begin :: "rpc \<Rightarrow> rpc" where
  "stop_begin r =
     (if cl_started (owner r) then
        let r1 = r\<lparr>iothr := (iothr r)\<lparr>io_shutdown := True\<rparr>\<rparr> in
        if is_connecting (owner r1) \<or> is_connected (owner r1) then r1\<lparr>owner := send_shutdown_request (owner r1)\<rparr>
        else r1\<lparr>iothr := (iothr r1)\<lparr>io_cq_down := True\<rparr>\<rparr>
      else r)"

fun stop_wait :: "nat \<Rightarrow> bool list \<Rightarrow> (nat \<times> bool) option" where
  "stop_wait cnt [] = None"
| "stop_wait cnt (alive # later) = (if cnt < 20 \<and> alive then stop_wait (cnt + 1) later else Some (cnt, alive))"

definition stop_force :: "rpc \<Rightarrow> rpc" where
  "stop_force r = (if io_alive (iothr r) then r\<lparr>iothr := (iothr r)\<lparr>io_cq_down := True, io_alive := False\<rparr>\<rparr> else r)"

definition stop_end :: "rpc \<Rightarrow> rpc" where
  "stop_end r = r\<lparr>iothr := io_finalize (iothr r)\<rparr>"

section \<open>Runs\<close>

text \<open>
  \<open>Poll now rnd\<close> is \<open>mtk_conn_poll\<close>, \<open>Api now a\<close> a call made outside of callbacks, \<open>Turn n\<close> a turn of the thread,
  which takes place only when it was started and has not ended.
\<close>

datatype rpc_event = Poll u64 nat | Api u64 cl_api | Turn next_status

fun rpc_step :: "nat \<Rightarrow> cl_app \<Rightarrow> codec \<Rightarrow> rpc \<Rightarrow> rpc_event \<Rightarrow> cl_fault + rpc" where
  "rpc_step depth ap cd r (Poll now rnd) =
     bindE (update depth ap cd ((owner r)\<lparr>cl_now := now, cl_rand := rnd\<rparr>)) (\<lambda>c. Inr (r\<lparr>owner := c\<rparr>))"
| "rpc_step depth ap cd r (Api now a) =
     bindE (run_cl_api (respond depth ap cd) a ((owner r)\<lparr>cl_now := now\<rparr>)) (\<lambda>c. Inr (r\<lparr>owner := c\<rparr>))"
| "rpc_step depth ap cd r (Turn n) =
     (if cl_started (owner r) \<and> io_alive (iothr r) then io_turn n r else Inr r)"

end
