(* ===== verification/Rpc_Calls.thy ===== *)
theory Rpc_Calls
  imports Rpc_IO
begin

text \<open>
  What holds of a client in every run, whatever the application and the server do: each call is accounted for,
  the ids of the calls that wait are distinct, and nothing waits without a connection. Each is an invariant
  of the steps, lifted to runs by the locale below.
\<close>

section \<open>Invariants of steps are invariants of runs\<close>

lemma pop_request_steps:
  assumes "pop_request s = Some (x, t)"
  shows "cl_steps (s, X) (t, X)"
proof -
  obtain q where q: "cl_requests s = x # q" "t = s\<lparr>cl_requests := q\<rparr>"
    using assms by (cases "cl_requests s") (auto simp: pop_request_def)
  then show ?thesis using step_pop by blast
qed

lemma push_reply_steps: "cl_steps (s, X) (push_reply x s, X)"
  by (rule frame_steps) (simp add: same_calls_def push_reply_def)

lemma drain_request_steps:
  assumes "drain_request_queue s = Inr t"
  shows "cl_steps (s, X) (t, X)"
proof -
  have "t = s\<lparr>cl_requests := []\<rparr>" using assms by (auto simp: drain_request_queue_def split: if_splits)
  then show ?thesis using step_no_requests by blast
qed

lemma io_turn_steps:
  assumes "io_turn n r = Inr r'"
  shows "cl_steps (owner r, X) (owner r', X)"
proof (cases n)
  case (GotEvent i ok rep)
  with assms show ?thesis
    by (auto simp: handle_event_def write_done_def read_done_def Let_def fault_simps
        split: if_splits option.splits request_item.splits
        intro: pop_request_steps push_reply_steps drain_request_steps
          rtranclp_trans [OF drain_request_steps push_reply_steps])
      (erule pop_request_steps)
next
  case NextTimeout
  with assms show ?thesis
    by (auto simp: io_idle_def fault_simps split: if_splits option.splits request_item.splits) (erule pop_request_steps)+
qed (use assms in auto)

lemma rpc_step_steps:
  assumes "rpc_step depth ap cd r e = Inr r'" and "ordered (cl_reqmap (owner r))"
  shows "cl_steps (owner r, X) (owner r', X)"
proof (cases e)
  case (Poll now rnd)
  let ?s = "(owner r)\<lparr>cl_now := now, cl_rand := rnd\<rparr>"
  have "goes ?s X (update depth ap cd ?s) X" by (rule update_goes) (use assms(2) in simp)
  moreover have "cl_steps (owner r, X) (?s, X)" by (rule frame_steps) (simp add: same_calls_def)
  ultimately show ?thesis using assms(1) Poll by (auto simp: goes_def fault_simps intro: rtranclp_trans)
next
  case (Api now a)
  let ?s = "(owner r)\<lparr>cl_now := now\<rparr>"
  have "goes ?s X (run_cl_api (respond depth ap cd) a ?s) X" by (rule run_cl_api_goes [OF respond_goes])
  moreover have "cl_steps (owner r, X) (?s, X)" by (rule frame_steps) (simp add: same_calls_def)
  ultimately show ?thesis using assms(1) Api by (auto simp: goes_def fault_simps intro: rtranclp_trans)
next
  case (Turn n)
  then show ?thesis using assms(1) by (auto intro: io_turn_steps split: if_splits)
qed

lemma new_rpc_owner [simp]: "owner (new_rpc addr opts) = new_client"
  by (simp add: new_rpc_def)

text \<open>A predicate kept by every step, and true of a new client.\<close>

locale kept =
  fixes I :: "client \<times> callback multiset \<Rightarrow> bool"
  assumes kept_step: "cl_step p q \<Longrightarrow> I p \<Longrightarrow> I q"
    and kept_new: "I (new_client, {#})"
begin

lemma kept_steps: "cl_steps p q \<Longrightarrow> I p \<Longrightarrow> I q"
  by (induction rule: rtranclp_induct) (auto intro: kept_step)

lemma kept_machine: "machine (rpc_step depth ap cd) (\<lambda>r. ordered (cl_reqmap (owner r)) \<and> I (owner r, {#}))"
  by unfold_locales (auto intro: kept_steps [OF rpc_step_steps] steps_ordered [OF rpc_step_steps])

lemma kept_run:
  assumes "run_steps (rpc_step depth ap cd) (new_rpc addr opts) es = Inr r"
  shows "ordered (cl_reqmap (owner r))" and "I (owner r, {#})"
  using machine.run_inv [OF kept_machine _ assms] kept_new by (auto simp: new_client_def)

end

section \<open>Accounts\<close>

fun issued_by :: "cl_out \<Rightarrow> callback multiset" where
  "issued_by (Issued cb) = {#cb#}"
| "issued_by _ = {#}"

fun answered_by :: "cl_out \<Rightarrow> callback multiset" where
  "answered_by (Answered cb r p) = {#cb#}"
| "answered_by _ = {#}"

fun forgotten_by :: "cl_out \<Rightarrow> callback multiset" where
  "forgotten_by (Forgotten cb) = {#cb#}"
| "forgotten_by _ = {#}"

fun leaked_by :: "cl_out \<Rightarrow> callback multiset" where
  "leaked_by (Leaked cb) = {#cb#}"
| "leaked_by _ = {#}"

fun posted_by :: "cl_out \<Rightarrow> request list" where
  "posted_by (Posted req) = [req]"
| "posted_by _ = []"

definition tally :: "(cl_out \<Rightarrow> callback multiset) \<Rightarrow> client \<Rightarrow> callback multiset" where
  "tally f s = sum_list (map f (cl_log s))"

definition posted :: "client \<Rightarrow> request list" where
  "posted s = concat (map posted_by (cl_log s))"

definition waiting :: "client \<Rightarrow> callback multiset" where
  "waiting s = image_mset (ent_cb \<circ> snd) (mset (cl_reqmap s))"

lemma tally_log [simp]: "tally f (log_out x s) = tally f s + f x"
  by (simp add: tally_def)

lemma tally_same: "cl_log t = cl_log s \<Longrightarrow> tally f t = tally f s"
  by (simp add: tally_def)

lemma waiting_same: "cl_reqmap t = cl_reqmap s \<Longrightarrow> waiting t = waiting s"
  by (simp add: waiting_def)

lemma posted_log [simp]: "posted (log_out x s) = posted s @ posted_by x"
  by (simp add: posted_def)

lemma posted_same: "cl_log t = cl_log s \<Longrightarrow> posted t = posted s"
  by (simp add: posted_def)

text \<open>What the registration of a call changes.\<close>

lemma register_call_facts:
  fixes s :: client
  defines "m \<equiv> next_msgid (cl_seed s)"
  shows "cl_log (register_call msg cb s) = cl_log s @ Posted (msg\<lparr>rq_msgid := m\<rparr>) #
      (case omap_find (cl_reqmap s) m of None \<Rightarrow> [] | Some old \<Rightarrow> [Leaked (ent_cb old)])"
    and "cl_seed (register_call msg cb s) = m"
    and "cl_status (register_call msg cb s) = cl_status s"
    and "cl_requests (register_call msg cb s) = cl_requests s @ [RReq (msg\<lparr>rq_msgid := m\<rparr>)]"
    and "cl_reqmap (register_call msg cb s) = omap_set m \<lparr>start_at = cl_now s, ent_cb = cb\<rparr> (cl_reqmap s)"
  by (simp_all add: m_def register_call_def add_entry_def Let_def split: option.split)

lemma forget_all_facts:
  "cl_reqmap (forget_all s) = []" "cl_status (forget_all s) = cl_status s" "cl_seed (forget_all s) = cl_seed s"
  "cl_requests (forget_all s) = cl_requests s"
  "cl_log (forget_all s) = cl_log s @ map (\<lambda>(k, ent). Forgotten (ent_cb ent)) (cl_reqmap s)"
  by (simp_all add: forget_all_def)

lemma forgotten_all: "sum_list (map (f \<circ> (\<lambda>(k, ent). Forgotten (ent_cb ent))) m) =
    image_mset (ent_cb \<circ> snd) (mset m)" if "\<And>cb. f (Forgotten cb) = {#cb#}"
  using that by (induction m) (auto simp: case_prod_unfold)

lemma forgotten_none: "sum_list (map (f \<circ> (\<lambda>(k, ent). Forgotten (ent_cb ent))) m) = {#}"
  if "\<And>cb. f (Forgotten cb) = {#}"
  using that by (induction m) (auto simp: case_prod_unfold)

definition accounts :: "client \<times> callback multiset \<Rightarrow> bool" where
  "accounts p \<longleftrightarrow> (case p of (s, X) \<Rightarrow> ordered (cl_reqmap s) \<and>
     tally issued_by s = tally answered_by s + tally forgotten_by s + tally leaked_by s + waiting s + X)"

lemma waiting_set:
  assumes "ordered m"
  shows "image_mset (ent_cb \<circ> snd) (mset (omap_set k ent m)) +
      (case omap_find m k of None \<Rightarrow> {#} | Some old \<Rightarrow> {#ent_cb old#}) =
    add_mset (ent_cb ent) (image_mset (ent_cb \<circ> snd) (mset m))"
  using arg_cong [OF mset_omap_set [OF assms, of k ent], of "image_mset ent_cb"]
  by (auto simp: multiset.map_comp split: option.splits)

lemma waiting_erase:
  assumes "ordered m" and "omap_find m k = Some ent"
  shows "image_mset (ent_cb \<circ> snd) (mset m) = add_mset (ent_cb ent) (image_mset (ent_cb \<circ> snd) (mset (omap_erase k m)))"
  using arg_cong [OF mset_omap_erase [OF assms], of "image_mset ent_cb"]
  by (simp add: multiset.map_comp)

interpretation acc: kept accounts
proof unfold_locales
  show "accounts (new_client, {#})"
    by (simp add: accounts_def new_client_def tally_def waiting_def)
next
  fix u v
  assume "cl_step u v" and "accounts u"
  then show "accounts v"
  proof (cases rule: cl_step.cases)
    case (step_frame s t X)
    with \<open>accounts u\<close> show ?thesis by (simp add: accounts_def same_calls_def tally_def waiting_def)
  next
    case (step_register s cb X msg)
    have o: "ordered (cl_reqmap s)" using \<open>accounts u\<close> step_register(1) by (simp add: accounts_def)
    with \<open>accounts u\<close> step_register waiting_set [OF o, of "next_msgid (cl_seed s)" "\<lparr>start_at = cl_now s, ent_cb = cb\<rparr>"]
    show ?thesis
      by (auto simp: accounts_def tally_def waiting_def register_call_facts ordered_set ac_simps split: option.splits)
  next
    case (step_take s k ent X)
    have o: "ordered (cl_reqmap s)" using \<open>accounts u\<close> step_take(1) by (simp add: accounts_def)
    with \<open>accounts u\<close> step_take waiting_erase [OF o step_take(3)] show ?thesis
      by (simp add: accounts_def tally_def waiting_def ordered_erase)
  next
    case (step_forget s X)
    with \<open>accounts u\<close> show ?thesis
      by (simp add: accounts_def tally_def waiting_def forget_all_facts forgotten_all forgotten_none ac_simps)
  next
    case (step_answer s cb X r p)
    with \<open>accounts u\<close> show ?thesis by (simp add: accounts_def waiting_def ac_simps)
  qed (use \<open>accounts u\<close> in \<open>auto simp: accounts_def tally_def waiting_def\<close>)
qed

text \<open>
  Property C8. Every callback that was issued is answered once, forgotten when the connection ended, lost when its id
  was given again, or waits still: as many times as it was issued, and never more.
\<close>

theorem calls_accounted:
  assumes "run_steps (rpc_step depth ap cd) (new_rpc addr opts) es = Inr r"
  shows "tally issued_by (owner r) = tally answered_by (owner r) + tally forgotten_by (owner r) +
    tally leaked_by (owner r) + waiting (owner r)"
  using acc.kept_run(2) [OF assms] by (simp add: accounts_def)

text \<open>A concrete run: a client connects, logs in as 7, makes a call and gets its reply.\<close>

definition demo_app :: cl_app where
  "demo_app = \<lparr>on_ready = None, on_start = Some (\<lambda>_. ([], 7, ''me'')), on_connect = Some (\<lambda>_ cid p. ([], True)), on_close = None,
     on_msg = (\<lambda>_ k r p. [])\<rparr>"

definition demo_events :: "rpc_event list" where
  "demo_events = [Poll 1 0, Turn NextTimeout, Turn (GotEvent 0 True new_reply), Poll 2 0, Turn NextTimeout,
     Turn (GotEvent 1 True new_reply),
     Turn (GotEvent 0 True (new_reply\<lparr>rp_msgid := 1, rp_payload := enc_connect demo_codec \<lparr>cn_id = 7, cn_payload = ''hi''\<rparr>\<rparr>)),
     Poll 3 0, Api 4 (CallApi 5 ''x'' (Some 9)), Turn NextTimeout, Turn (GotEvent 0 True (new_reply\<lparr>rp_msgid := 2, rp_type := 6\<rparr>)), Poll 5 0]"

lemma demo_run:
  "case run_steps (rpc_step 3 demo_app demo_codec) (new_rpc ''host'' None) demo_events of
     Inl _ \<Rightarrow> False
   | Inr r \<Rightarrow> cl_status (owner r) = CONNECT \<and> cl_cid (owner r) = 7 \<and> cl_reqmap (owner r) = [] \<and>
       last (cl_log (owner r)) = Answered (AppCb 9) 6 [] \<and> map rq_payload (posted (owner r)) = [enc_connect demo_codec \<lparr>cn_id = 7, cn_payload = ''me''\<rparr>, ''x'']"
  by code_simp

theorem calls_accounted_witness:
  "\<exists>r. run_steps (rpc_step 3 demo_app demo_codec) (new_rpc ''host'' None) demo_events = Inr r \<and>
    tally issued_by (owner r) = tally answered_by (owner r) + tally forgotten_by (owner r) + tally leaked_by (owner r) + waiting (owner r)"
proof -
  obtain r where "run_steps (rpc_step 3 demo_app demo_codec) (new_rpc ''host'' None) demo_events = Inr r"
    using demo_run by (auto split: sum.splits)
  then show ?thesis using calls_accounted by blast
qed

section \<open>Ids\<close>

lemma sint_small:
  fixes x :: u32
  assumes "unat x < 2147483648"
  shows "sint x = uint x" and "uint x < 2147483648"
proof -
  show u: "uint x < 2147483648" unfolding uint_nat using assms by linarith
  then show "sint x = uint x" unfolding sint_uint
    by (intro signed_take_bit_int_eq_self) (simp_all add: order_trans [OF _ unsigned_greater_eq])
qed

lemma next_msgid_nat:
  assumes "unat x \<le> 1999999999"
  shows "unat (next_msgid x) = (if unat x = 1999999999 then 1 else unat x + 1)"
proof -
  have u: "unat (x + 1) = unat x + 1" using assms by (simp add: unat_word_ariths)
  have "sint (x + 1) = uint (x + 1)" using assms u by (intro sint_small) simp
  then have "sint (x + 1) = int (unat x + 1)" unfolding uint_nat u .
  then have "sint (x + 1) \<ge> 2000000000 \<longleftrightarrow> unat x = 1999999999" using assms by linarith
  then show ?thesis by (simp add: next_msgid_def u)
qed

text \<open>
  Ids lie between 1 and 1999999999. As long as no more than 1999999999 requests have been posted, they are
  given in ascending order, and no entry is replaced.
\<close>

definition keys :: "client \<Rightarrow> u32 set" where
  "keys s = fst ` set (cl_reqmap s)"

lemma keys_simps:
  "cl_reqmap t = cl_reqmap s \<Longrightarrow> keys t = keys s" "keys (forget_all s) = {}"
  "keys (s\<lparr>cl_reqmap := omap_erase k (cl_reqmap s)\<rparr>) = keys s - {k}"
  "keys (register_call msg cb s) = insert (next_msgid (cl_seed s)) (keys s)"
  by (simp_all add: keys_def forget_all_facts omap_erase_keys register_call_facts omap_set_keys)

definition ids :: "client \<times> callback multiset \<Rightarrow> bool" where
  "ids p \<longleftrightarrow> (case p of (s, X) \<Rightarrow>
     unat (cl_seed s) \<le> 1999999999 \<and>
     (\<forall>k \<in> keys s. k \<noteq> 0 \<and> unat k \<le> 1999999999) \<and>
     (length (posted s) \<le> 1999999999 \<longrightarrow>
        unat (cl_seed s) \<le> length (posted s) \<and> tally leaked_by s = {#} \<and>
        (\<forall>k \<in> keys s. k \<le> cl_seed s) \<and>
        sorted_wrt (<) (map rq_msgid (posted s)) \<and> (\<forall>req \<in> set (posted s). rq_msgid req \<le> cl_seed s)))"

lemma posted_forgotten: "posted (forget_all s) = posted s"
proof -
  have "concat (map (posted_by \<circ> (\<lambda>(k, ent). Forgotten (ent_cb ent))) m) = []" for m :: "(u32 \<times> sentry) list"
    by (induction m) auto
  then show ?thesis by (simp add: posted_def forget_all_facts)
qed

lemma ids_register:
  assumes "ids (s, add_mset cb X)"
  shows "ids (register_call msg cb s, X)"
proof -
  let ?m = "next_msgid (cl_seed s)" and ?t = "register_call msg cb s"
  have range: "unat (cl_seed s) \<le> 1999999999" "\<And>k. k \<in> keys s \<Longrightarrow> k \<noteq> 0 \<and> unat k \<le> 1999999999"
    using assms by (auto simp: ids_def)
  have m: "unat ?m \<le> 1999999999" "?m \<noteq> 0"
    using next_msgid_nat [OF range(1)] range(1) by (auto simp: unat_eq_zero simp flip: unat_eq_0 split: if_splits)
  have keys: "keys ?t = insert ?m (keys s)"
    by (rule keys_simps)
  have post: "posted ?t = posted s @ [msg\<lparr>rq_msgid := ?m\<rparr>]"
    by (cases "omap_find (cl_reqmap s) ?m") (simp_all add: posted_def register_call_facts)
  have "unat (cl_seed ?t) \<le> length (posted ?t) \<and> tally leaked_by ?t = {#} \<and>
        (\<forall>k \<in> keys ?t. k \<le> cl_seed ?t) \<and>
        sorted_wrt (<) (map rq_msgid (posted ?t)) \<and> (\<forall>req \<in> set (posted ?t). rq_msgid req \<le> cl_seed ?t)"
    if few: "length (posted ?t) \<le> 1999999999"
  proof -
    have "length (posted s) \<le> 1999999998" using few by (simp add: post)
    then have old: "unat (cl_seed s) \<le> length (posted s)" "tally leaked_by s = {#}"
        "\<And>k. k \<in> keys s \<Longrightarrow> k \<le> cl_seed s" "sorted_wrt (<) (map rq_msgid (posted s))"
        "\<And>req. req \<in> set (posted s) \<Longrightarrow> rq_msgid req \<le> cl_seed s"
      using assms by (auto simp: ids_def)
    have up: "unat ?m = unat (cl_seed s) + 1"
      using next_msgid_nat [OF range(1)] old(1) \<open>length (posted s) \<le> 1999999998\<close> by simp
    then have lt: "cl_seed s < ?m" by (simp add: word_less_nat_alt)
    have fresh: "omap_find (cl_reqmap s) ?m = None"
      using old(3) lt by (force simp: omap_find_None keys_def)
    have "k \<le> ?m" if "k \<le> cl_seed s" for k using that lt by simp
    with old lt up fresh show ?thesis
      by (auto simp: register_call_facts(1,2) post keys tally_def sorted_wrt_append dest: old(3) old(5)
          intro: order_le_less_trans)
  qed
  with range m keys show ?thesis by (auto simp: ids_def register_call_facts(2))
qed

interpretation ids: kept ids
proof unfold_locales
  show "ids (new_client, {#})"
    by (simp add: ids_def new_client_def tally_def posted_def keys_def)
next
  fix u v
  assume "cl_step u v" and "ids u"
  then show "ids v"
  proof (cases rule: cl_step.cases)
    case (step_frame s t X)
    with \<open>ids u\<close> show ?thesis by (simp add: ids_def same_calls_def tally_def posted_def keys_def)
  next
    case (step_register s cb X msg)
    with \<open>ids u\<close> show ?thesis by (simp add: ids_register)
  next
    case (step_take s k ent X)
    with \<open>ids u\<close> show ?thesis by (simp add: ids_def tally_def posted_def keys_simps(3))
  next
    case (step_forget s X)
    with \<open>ids u\<close> show ?thesis
      by (simp add: ids_def posted_forgotten forget_all_facts(3) keys_simps(2)) (simp add: tally_def forget_all_facts forgotten_none)
  next
    case (step_try s X)
    with \<open>ids u\<close> show ?thesis by (simp add: ids_def tally_def posted_def keys_def)
  qed (use \<open>ids u\<close> in \<open>auto simp: ids_def tally_def posted_def keys_def\<close>)
qed

text \<open>
  Property C32. Every call that waits has its own id, never 0, which marks notifications, and below 2000000000. Until
  2000000000 requests have been posted, all of them have had different ids, and no call has been lost.
\<close>

theorem ids_unique:
  assumes "run_steps (rpc_step depth ap cd) (new_rpc addr opts) es = Inr r"
  shows "distinct (map fst (cl_reqmap (owner r))) \<and>
    (\<forall>k \<in> fst ` set (cl_reqmap (owner r)). k \<noteq> 0 \<and> unat k < 2000000000) \<and>
    (length (posted (owner r)) < 2000000000 \<longrightarrow>
      distinct (map rq_msgid (posted (owner r))) \<and> tally leaked_by (owner r) = {#})"
  using ids.kept_run [OF assms] by (auto simp: ids_def keys_def strict_sorted_iff)

theorem ids_unique_witness:
  "\<exists>r. run_steps (rpc_step 3 demo_app demo_codec) (new_rpc ''host'' None) demo_events = Inr r \<and> tally leaked_by (owner r) = {#}"
proof -
  obtain r where r: "run_steps (rpc_step 3 demo_app demo_codec) (new_rpc ''host'' None) demo_events = Inr r"
    and "map rq_payload (posted (owner r)) = [enc_connect demo_codec \<lparr>cn_id = 7, cn_payload = ''me''\<rparr>, ''x'']"
    using demo_run by (auto split: sum.splits)
  then have "length (map rq_payload (posted (owner r))) = 2" by simp
  with ids_unique [OF r] r show ?thesis by simp
qed

section \<open>Phases\<close>

text \<open>Without a connection no call waits.\<close>

definition phases :: "client \<times> callback multiset \<Rightarrow> bool" where
  "phases p \<longleftrightarrow> (case p of (s, X) \<Rightarrow> cl_reqmap s \<noteq> [] \<longrightarrow> cl_status s \<ge> ESTABLISHED)"

interpretation phases: kept phases
proof unfold_locales
  show "phases (new_client, {#})" by (simp add: phases_def new_client_def)
next
  fix u v
  assume "cl_step u v" and "phases u"
  then show "phases v"
    by (cases rule: cl_step.cases) (auto simp: phases_def same_calls_def register_call_facts forget_all_facts)
qed

text \<open>
  After a poll the client is never between the establishment and the login: when the stream is established, the
  login request goes out in the same poll.
\<close>

definition calm :: "responder \<Rightarrow> bool" where
  "calm resp \<longleftrightarrow> (\<forall>cb r p s s'. resp cb r p s = Inr s' \<longrightarrow> cl_status s' \<in> {cl_status s, CONNECT})"

lemma calmD: "calm resp \<Longrightarrow> resp cb r p s = Inr s' \<Longrightarrow> cl_status s' \<in> {cl_status s, CONNECT}"
  by (simp add: calm_def)

lemma call_msg_status:
  assumes "calm resp" and "call_msg resp msg cb t s = Inr s'"
  shows "cl_status s' \<in> {cl_status s, CONNECT}"
proof (cases "cl_status s < ESTABLISHED")
  case True
  with assms(2) have "resp cb (error_code (static_error MTK_NOT_CONNECT)) (error_payload (static_error MTK_NOT_CONNECT)) (log_out (Issued cb) s) = Inr s'"
    by (simp add: call_msg_def respond_error_def Let_def)
  from calmD [OF assms(1) this] show ?thesis by simp
next
  case False
  with assms(2) show ?thesis
    by (auto simp: call_msg_def new_msg_id_def add_entry_def Let_def split: option.splits)
qed

lemma run_cl_api_status: "calm resp \<Longrightarrow> run_cl_api resp a s = Inr s' \<Longrightarrow> cl_status s' \<in> {cl_status s, CONNECT}"
  by (cases a) (auto simp: call_typed_def release_def push_reply_def dest: call_msg_status)

lemma run_cl_apis_status: "calm resp \<Longrightarrow> run_cl_apis resp as s = Inr s' \<Longrightarrow> cl_status s' \<in> {cl_status s, CONNECT}"
proof (induction as arbitrary: s)
  case (Cons a as)
  then obtain t where t: "run_cl_api resp a s = Inr t" "run_cl_apis resp as t = Inr s'" by (auto simp: fault_simps)
  from run_cl_api_status [OF Cons.prems(1) t(1)] Cons.IH [OF Cons.prems(1) t(2)] show ?case by auto
qed simp

lemma call_on_connect_status:
  "calm resp \<Longrightarrow> call_on_connect resp ap cid p s = Inr (s', ok) \<Longrightarrow> cl_status s' \<in> {cl_status s, CONNECT}"
  by (auto simp: call_on_connect_def fault_simps split: option.splits dest: run_cl_apis_status)

lemma on_open_stream_status:
  assumes "calm resp" and "on_open_stream resp ap cd r p s = Inr (s', ok)"
  shows "cl_status s' \<in> {cl_status s, CONNECT}"
  using assms(2) call_on_connect_status [OF assms(1)]
  by (fastforce simp: on_open_stream_def Let_def split: if_splits prod.splits)

lemma open_callback_status:
  assumes "calm resp" and "open_callback resp ap cd r p s = Inr s'"
  shows "cl_status s' \<in> {cl_status s, CONNECT}"
proof (cases "r \<ge> 0")
  case True
  then obtain t ok where t: "on_open_stream resp ap cd r p s = Inr (t, ok)"
      "s' = (if ok then t\<lparr>cl_status := CONNECT\<rparr> else push_reply DISCONNECT_EVENT t)"
    using assms(2) by (auto simp: open_callback_def fault_simps)
  from on_open_stream_status [OF assms(1) t(1)] t(2) show ?thesis by (auto simp: push_reply_def)
qed (use assms(2) in \<open>auto simp: open_callback_def push_reply_def\<close>)

lemma respond_calm: "calm (respond n ap cd)"
proof (induction n)
  case (Suc n)
  show ?case
    unfolding calm_def
  proof (intro allI impI)
    fix cb r p s s'
    assume a: "respond (Suc n) ap cd cb r p s = Inr s'"
    show "cl_status s' \<in> {cl_status s, CONNECT}"
      using a run_cl_apis_status [OF Suc, of _ "log_out (Answered cb r p) s" s']
        open_callback_status [OF Suc, of ap cd r p "log_out (Answered cb r p) s" s']
      by (cases cb) (auto simp: Let_def)
  qed
qed (simp add: calm_def)

lemma start_write_status:
  assumes "calm resp" and "start_write resp ap cd s = Inr s'"
  shows "cl_status s' \<in> {cl_status s, CONNECT}"
proof -
  obtain t c where t: "add_payload resp ap s = Inr (t, c)" "call_system resp Connect (pack (enc_connect cd) c) OpenCb t = Inr s'"
    using assms(2) by (auto simp: start_write_def fault_simps)
  have "cl_status t \<in> {cl_status s, CONNECT}"
    using t(1) by (auto simp: add_payload_def Let_def fault_simps split: option.splits prod.splits
        dest: run_cl_apis_status [OF assms(1)])
  moreover have "cl_status s' \<in> {cl_status t, CONNECT}"
    using t(2) by (auto simp: call_system_def pack_def dest: call_msg_status [OF assms(1)])
  ultimately show ?thesis by auto
qed

lemma respond_timeouts_status:
  "calm resp \<Longrightarrow> respond_timeouts resp es s = Inr s' \<Longrightarrow> cl_status s' \<in> {cl_status s, CONNECT}"
proof (induction es arbitrary: s)
  case (Cons e es)
  then obtain t where t: "respond_error resp (ent_cb e) MTK_TIMEOUT s = Inr t" "respond_timeouts resp es t = Inr s'"
    by (auto simp: fault_simps)
  from calmD [OF Cons.prems(1) t(1) [unfolded respond_error_def]] Cons.IH [OF Cons.prems(1) t(2)] show ?case by auto
qed simp

lemma process_timeout_status:
  "calm resp \<Longrightarrow> process_timeout resp now s = Inr s' \<Longrightarrow> cl_status s' \<in> {cl_status s, CONNECT}"
  by (auto simp: process_timeout_def Let_def dest: respond_timeouts_status)

lemma update_status:
  assumes "update depth ap cd s = Inr s'"
  shows "cl_status s' \<noteq> ESTABLISHED"
proof -
  note calm = respond_calm [of depth ap cd]
  obtain t where t: "(case cl_status t of
          DISCONNECT \<Rightarrow> Inr (try_connect ap (cl_now s) t)
        | CONNECTING \<Rightarrow> Inr t
        | ESTABLISHED \<Rightarrow> bindE (start_write (respond depth ap cd) ap cd (t\<lparr>cl_status := INITIALIZING\<rparr>))
            (process_timeout (respond depth ap cd) (cl_now s))
        | INITIALIZING \<Rightarrow> process_timeout (respond depth ap cd) (cl_now s) t
        | CONNECT \<Rightarrow> process_timeout (respond depth ap cd) (cl_now s) t) = Inr s'"
    using assms by (auto simp: update_def Let_def fault_simps)
  show ?thesis
  proof (cases "cl_status t")
    case ESTABLISHED
    with t obtain u where u: "start_write (respond depth ap cd) ap cd (t\<lparr>cl_status := INITIALIZING\<rparr>) = Inr u"
        "process_timeout (respond depth ap cd) (cl_now s) u = Inr s'"
      by (auto simp: fault_simps)
    from start_write_status [OF calm u(1)] process_timeout_status [OF calm u(2)] show ?thesis by auto
  qed (use t in \<open>auto simp: try_connect_def dest: process_timeout_status [OF calm] split: if_splits\<close>)
qed

lemma io_turn_status: "io_turn n r = Inr r' \<Longrightarrow> cl_status (owner r') = cl_status (owner r)"
  by (cases n)
    (auto simp: handle_event_def write_done_def read_done_def io_idle_def pop_request_def drain_request_queue_def push_reply_def Let_def
      fault_simps split: if_splits option.splits prod.splits request_item.splits)

interpretation rest: machine "rpc_step depth ap cd" "\<lambda>r. cl_status (owner r) \<noteq> ESTABLISHED" for depth ap cd
proof unfold_locales
  fix r e r'
  assume "cl_status (owner r) \<noteq> ESTABLISHED" and "rpc_step depth ap cd r e = Inr r'"
  then show "cl_status (owner r') \<noteq> ESTABLISHED"
    by (cases e) (auto simp: fault_simps update_status io_turn_status dest!: run_cl_api_status [OF respond_calm] split: if_splits)
qed

text \<open>
  Property C33. A call waits for its reply only while its stream is open: without a connection none does, and the client
  never rests between the establishment of the stream and its login.
\<close>

theorem calls_wait_when_open:
  assumes "run_steps (rpc_step depth ap cd) (new_rpc addr opts) es = Inr r" and "cl_reqmap (owner r) \<noteq> []"
  shows "cl_status (owner r) = INITIALIZING \<or> cl_status (owner r) = CONNECT"
proof -
  have "cl_status (owner r) \<ge> ESTABLISHED" using phases.kept_run(2) [OF assms(1)] assms(2) by (simp add: phases_def)
  moreover have "cl_status (owner r) \<noteq> ESTABLISHED"
    using rest.run_inv [OF _ assms(1)] by (simp add: new_client_def)
  ultimately show ?thesis by (cases "cl_status (owner r)") auto
qed

lemma demo_login_sent:
  "case run_steps (rpc_step 3 demo_app demo_codec) (new_rpc ''host'' None) (take 4 demo_events) of
     Inl _ \<Rightarrow> False | Inr r \<Rightarrow> cl_reqmap (owner r) \<noteq> []"
  by code_simp

theorem calls_wait_when_open_witness:
  "\<exists>r. run_steps (rpc_step 3 demo_app demo_codec) (new_rpc ''host'' None) (take 4 demo_events) = Inr r \<and>
    (cl_status (owner r) = INITIALIZING \<or> cl_status (owner r) = CONNECT)"
proof -
  obtain r where "run_steps (rpc_step 3 demo_app demo_codec) (new_rpc ''host'' None) (take 4 demo_events) = Inr r"
    "cl_reqmap (owner r) \<noteq> []"
    using demo_login_sent by (auto split: sum.splits)
  then show ?thesis using calls_wait_when_open by blast
qed

end
