(* ===== verification/Rpc_Wire.thy ===== *)
theory Rpc_Wire
  imports Rpc_Calls
begin

text \<open>
  What reaches gRPC: requests are written in the order they were posted, one at a time. And what stops the
  client: a write that fails, and the signals among the requests taken for requests.
\<close>

section \<open>The order of requests\<close>

definition requests_of :: "request_item list \<Rightarrow> request list" where
  "requests_of q = concat (map (\<lambda>x. case x of RReq req \<Rightarrow> [req] | ESTABLISH_REQUEST \<Rightarrow> []) q)"

lemma requests_of_simps [simp]:
  "requests_of [] = []" "requests_of (RReq req # q) = req # requests_of q"
  "requests_of (ESTABLISH_REQUEST # q) = requests_of q" "requests_of (q @ q') = requests_of q @ requests_of q'"
  by (simp_all add: requests_of_def)

definition in_order :: "request list \<Rightarrow> client \<Rightarrow> bool" where
  "in_order w s \<longleftrightarrow> subseq (w @ requests_of (cl_requests s)) (posted s)"

lemma subseq_drop_mid: "subseq (w @ x @ q) p \<Longrightarrow> subseq (w @ q) p"
  by (erule subseq_order.trans [rotated]) (intro list_emb_append_mono list_emb_append2 subseq_order.refl)

lemma step_in_order:
  assumes "cl_step (s, X) (t, Y)" and "in_order w s"
  shows "in_order w t"
  using assms(1)
proof (cases rule: cl_step.cases)
  case step_frame
  then show ?thesis using assms(2) by (simp add: in_order_def same_calls_def posted_def)
next
  case (step_register cb msg)
  let ?req = "msg\<lparr>rq_msgid := next_msgid (cl_seed s)\<rparr>"
  have "posted t = posted s @ [?req]"
    using step_register by (cases "omap_find (cl_reqmap s) (next_msgid (cl_seed s))") (simp_all add: posted_def register_call_facts)
  moreover have "subseq ((w @ requests_of (cl_requests s)) @ [?req]) (posted s @ [?req])"
    using assms(2) by (intro list_emb_append_mono) (auto simp: in_order_def)
  ultimately show ?thesis using step_register by (simp add: in_order_def register_call_facts)
next
  case step_forget
  then show ?thesis using assms(2) by (simp add: in_order_def posted_forgotten forget_all_facts)
next
  case step_no_requests
  then show ?thesis using assms(2) subseq_drop_mid [of w "requests_of (cl_requests s)" "[]"]
    by (simp add: in_order_def posted_def)
next
  case (step_pop x q)
  then show ?thesis using assms(2) subseq_drop_mid [of w "requests_of [x]" "requests_of q"]
    by (cases x) (auto simp: in_order_def posted_def)
next
  case step_try
  then show ?thesis using assms(2) by (simp add: in_order_def posted_def)
qed (use assms(2) in \<open>auto simp: in_order_def posted_def\<close>)

lemma steps_in_order: "cl_steps (s, X) (t, Y) \<Longrightarrow> in_order w s \<Longrightarrow> in_order w t"
  by (induction "(t, Y)" arbitrary: t Y rule: rtranclp_induct) (auto dest: step_in_order)

definition writes :: "io_thread \<Rightarrow> nat" where
  "writes t = length (filter (\<lambda>(n, tag). is_write_operation tag) (io_ops t))"

definition wire_ok :: "rpc \<Rightarrow> bool" where
  "wire_ok r \<longleftrightarrow> ordered (cl_reqmap (owner r)) \<and> in_order (map snd (io_wire (iothr r))) (owner r) \<and>
     writes (iothr r) \<le> (if io_sending (iothr r) then 1 else 0)"

lemma write_count:
  "stream_write req t = Inr t' \<Longrightarrow> writes t' = writes t + 1 \<and> io_wire t' = io_wire t @ [(io_seq t, req)] \<and>
    io_sending t' = io_sending t \<and> io_seq t' = io_seq t"
  by (auto simp: stream_write_def start_op_def writes_def split: if_splits)

lemma open_count:
  "open_stream t = Inr t' \<Longrightarrow> writes t' = writes t \<and> io_wire t' = io_wire t \<and> io_sending t' = io_sending t"
  by (auto simp: open_stream_def start_op_def writes_def io_close_def set_deadline_def Let_def split: if_splits)

lemma read_count: "writes (io_read t) = writes t" "io_wire (io_read t) = io_wire t" "io_sending (io_read t) = io_sending t"
  "io_seq (io_read t) = io_seq t"
  by (simp_all add: io_read_def start_op_def writes_def)

definition op_done :: "nat \<Rightarrow> io_thread \<Rightarrow> io_thread" where
  "op_done i t = t\<lparr>io_ops := take i (io_ops t) @ drop (Suc i) (io_ops t)\<rparr>"

lemma filter_without:
  assumes "i < length xs"
  shows "length (filter P xs) = length (filter P (take i xs @ drop (Suc i) xs)) + (if P (xs ! i) then 1 else 0)"
proof -
  have "length (filter P xs) = length (filter P (take i xs @ xs ! i # drop (Suc i) xs))"
    by (rule arg_cong [OF id_take_nth_drop [OF assms]])
  then show ?thesis by simp
qed

lemma op_done_count:
  assumes "i < length (io_ops t)"
  shows "writes t = writes (op_done i t) + (if is_write_operation (snd (io_ops t ! i)) then 1 else 0)"
  using filter_without [OF assms, of "\<lambda>(n, tag). is_write_operation tag"]
  by (simp add: writes_def op_done_def case_prod_unfold)

lemma op_done_simps [simp]:
  "io_wire (op_done i t) = io_wire t" "io_sending (op_done i t) = io_sending t" "io_seq (op_done i t) = io_seq t"
  "io_shutdown (op_done i t) = io_shutdown t" "io_reply (op_done i t) = io_reply t"
  by (simp_all add: op_done_def)

text \<open>A request popped and written moves from the queue to the wire.\<close>

lemma pop_write_in_order:
  assumes "pop_request s = Some (RReq req, c)" and "in_order w s"
  shows "in_order (w @ [req]) c"
  using assms by (cases "cl_requests s") (auto simp: pop_request_def in_order_def posted_def)

lemma pop_in_order: "pop_request s = Some (x, c) \<Longrightarrow> in_order w s \<Longrightarrow> in_order w c"
  by (rule steps_in_order [OF pop_request_steps])

lemma flags_count: "writes (t\<lparr>io_reply := x\<rparr>) = writes t" "writes (t\<lparr>io_cq_down := x\<rparr>) = writes t"
  by (simp_all add: writes_def)

lemma read_done_thread:
  assumes "read_done ok tag rep r = Inr r'"
  shows "iothr r' \<in> {io_read ((iothr r)\<lparr>io_reply := False\<rparr>), (iothr r)\<lparr>io_reply := False\<rparr>,
     (iothr r)\<lparr>io_reply := False, io_cq_down := True\<rparr>}"
proof (cases ok)
  case False
  then show ?thesis using assms
    by (cases "io_shutdown (iothr r)"; cases "drain_request_queue (owner r)") (auto simp: read_done_def Let_def)
qed (use assms in \<open>auto simp: read_done_def Let_def\<close>)

lemma read_done_wire:
  assumes "read_done ok tag rep r = Inr r'"
  shows "writes (iothr r') = writes (iothr r) \<and> io_wire (iothr r') = io_wire (iothr r) \<and>
     io_sending (iothr r') = io_sending (iothr r) \<and> io_seq (iothr r') = io_seq (iothr r)"
  using read_done_thread [OF assms] by (auto simp: read_count flags_count)

lemma write_done_wire:
  assumes "write_done ok r = Inr r'" and "writes (iothr r) = 0" and "io_sending (iothr r)"
    and "in_order (map snd (io_wire (iothr r))) (owner r)"
  shows "in_order (map snd (io_wire (iothr r'))) (owner r') \<and> writes (iothr r') \<le> (if io_sending (iothr r') then 1 else 0)"
proof (cases "ok \<and> pop_request (owner r) \<noteq> None")
  case True
  with assms(1) obtain req c t where p: "pop_request (owner r) = Some (RReq req, c)" "stream_write req (iothr r) = Inr t"
      "r' = r\<lparr>owner := c, iothr := t\<rparr>"
    by (auto simp: write_done_def fault_simps split: if_splits option.splits request_item.splits)
  then show ?thesis
    using write_count [OF p(2)] pop_write_in_order [OF p(1) assms(4)] assms(2,3) by simp
next
  case False
  then have "r' = r \<or> r' = r\<lparr>iothr := (iothr r)\<lparr>io_sending := False\<rparr>\<rparr>"
    using assms(1) by (cases ok; cases "pop_request (owner r)") (auto simp: write_done_def)
  then show ?thesis using assms(2-4) by (auto simp: writes_def)
qed

lemma idle_wire:
  assumes "io_idle r = Inr r'" and "wire_ok r"
  shows "in_order (map snd (io_wire (iothr r'))) (owner r') \<and> writes (iothr r') \<le> (if io_sending (iothr r') then 1 else 0)"
proof (cases "io_sending (iothr r) \<or> pop_request (owner r) = None")
  case True
  then show ?thesis using assms by (auto simp: io_idle_def wire_ok_def split: option.splits)
next
  case False
  then obtain x c where p: "pop_request (owner r) = Some (x, c)" by auto
  show ?thesis
  proof (cases x)
    case ESTABLISH_REQUEST
    with False p assms(1) obtain t where t: "open_stream (iothr r) = Inr t" "r' = r\<lparr>owner := c, iothr := t\<rparr>"
      by (auto simp: io_idle_def fault_simps)
    then show ?thesis
      using open_count [OF t(1)] pop_in_order [OF p] assms(2) False by (simp add: wire_ok_def)
  next
    case (RReq req)
    with False p assms(1) obtain t where t: "stream_write req (iothr r) = Inr t"
        "r' = r\<lparr>owner := c, iothr := t\<lparr>io_sending := True\<rparr>\<rparr>"
      by (auto simp: io_idle_def fault_simps)
    then show ?thesis
      using write_count [OF t(1)] pop_write_in_order [of "owner r" req c] p RReq assms(2) False
      by (simp add: wire_ok_def writes_def)
  qed
qed

lemma turn_wire:
  assumes "io_turn n r = Inr r'" and "wire_ok r"
  shows "in_order (map snd (io_wire (iothr r'))) (owner r') \<and> writes (iothr r') \<le> (if io_sending (iothr r') then 1 else 0)"
proof (cases n)
  case (GotEvent i ok rep)
  let ?tag = "snd (io_ops (iothr r) ! i)" and ?r = "r\<lparr>iothr := op_done i (iothr r)\<rparr>"
  from assms(1) GotEvent have i: "i < length (io_ops (iothr r))" and h: "handle_event ok ?tag rep ?r = Inr r'"
    by (auto simp: op_done_def split: if_splits)
  note count = op_done_count [OF i]
  have o: "in_order (map snd (io_wire (iothr ?r))) (owner ?r)" and le: "writes (iothr r) \<le> (if io_sending (iothr r) then 1 else 0)"
    using assms(2) by (simp_all add: wire_ok_def)
  show ?thesis
  proof (cases "is_write_operation ?tag")
    case True
    then have "writes (iothr ?r) = 0" "io_sending (iothr ?r)" using count le by (auto split: if_splits)
    moreover have "write_done ok ?r = Inr r'" using h True by (simp add: handle_event_def)
    ultimately show ?thesis using write_done_wire o by blast
  next
    case False
    then have c: "writes (op_done i (iothr r)) = writes (iothr r)" using count by simp
    show ?thesis
    proof (cases "is_read_operation ?tag")
      case True
      with False h have rd: "read_done ok ?tag rep ?r = Inr r'" by (simp add: handle_event_def)
      have "cl_steps (owner r, {#}) (owner r', {#})" using io_turn_steps [OF assms(1)] .
      with o have "in_order (map snd (io_wire (iothr r))) (owner r')" by (auto intro: steps_in_order)
      with read_done_wire [OF rd] c le show ?thesis by simp
    next
      case nr: False
      with False h o c le show ?thesis by (auto simp: handle_event_def writes_def split: if_splits)
    qed
  qed
next
  case NextTimeout
  then show ?thesis using assms idle_wire by simp
next
  case NextShutdown
  then show ?thesis using assms by (auto simp: wire_ok_def writes_def)
qed

interpretation wire: machine "rpc_step depth ap cd" wire_ok for depth ap cd
proof unfold_locales
  fix r e r'
  assume ok: "wire_ok r" and st: "rpc_step depth ap cd r e = Inr r'"
  have o: "ordered (cl_reqmap (owner r))" using ok by (simp add: wire_ok_def)
  note steps = rpc_step_steps [OF st o, of "{#}"]
  have or': "ordered (cl_reqmap (owner r'))" by (rule steps_ordered [OF steps o])
  have "in_order (map snd (io_wire (iothr r'))) (owner r') \<and> writes (iothr r') \<le> (if io_sending (iothr r') then 1 else 0)"
  proof (cases e)
    case (Turn n)
    show ?thesis
    proof (cases "cl_started (owner r) \<and> io_alive (iothr r)")
      case True
      with st Turn have "io_turn n r = Inr r'" by simp
      then show ?thesis using turn_wire ok by blast
    next
      case False
      with st Turn have "r' = r" by auto
      then show ?thesis using ok by (simp add: wire_ok_def)
    qed
  next
    case (Poll now rnd)
    with st have "iothr r' = iothr r" by (auto simp: fault_simps)
    with ok steps_in_order [OF steps] show ?thesis by (simp add: wire_ok_def)
  next
    case (Api now a)
    with st have "iothr r' = iothr r" by (auto simp: fault_simps)
    with ok steps_in_order [OF steps] show ?thesis by (simp add: wire_ok_def)
  qed
  with or' show "wire_ok r'" by (simp add: wire_ok_def)
qed

lemma wire_ok_new: "wire_ok (new_rpc addr opts)"
  by (simp add: wire_ok_def new_rpc_def new_client_def new_io_thread_def io_initialize_def in_order_def posted_def writes_def)

text \<open>
  Property C18. Requests reach the server in the order in which they were issued, over all streams; the only ones
  missing are those dropped with a closed stream or still in the queue. At most one write is in progress,
  and one is only while \<open>is_sending_\<close> says so.
\<close>

theorem requests_in_order:
  assumes "run_steps (rpc_step depth ap cd) (new_rpc addr opts) es = Inr r"
  shows "subseq (map snd (io_wire (iothr r)) @ requests_of (cl_requests (owner r))) (posted (owner r)) \<and>
    writes (iothr r) \<le> (if io_sending (iothr r) then 1 else 0)"
  using wire.run_inv [OF wire_ok_new assms] by (auto simp: wire_ok_def in_order_def)

theorem requests_in_order_witness:
  "\<exists>r. run_steps (rpc_step 3 demo_app demo_codec) (new_rpc ''host'' None) demo_events = Inr r \<and>
    subseq (map snd (io_wire (iothr r)) @ requests_of (cl_requests (owner r))) (posted (owner r))"
proof -
  obtain r where "run_steps (rpc_step 3 demo_app demo_codec) (new_rpc ''host'' None) demo_events = Inr r"
    using demo_run by (auto split: sum.splits)
  then show ?thesis using requests_in_order by blast
qed

section \<open>A failed write\<close>

definition stuck :: "(u32 \<times> request) list \<Rightarrow> u32 \<Rightarrow> rpc \<Rightarrow> bool" where
  "stuck w n r \<longleftrightarrow> io_sending (iothr r) \<and> writes (iothr r) = 0 \<and> io_wire (iothr r) = w \<and> io_seq (iothr r) = n"

interpretation stuck: machine "rpc_step depth ap cd" "stuck w n" for depth ap cd w n
proof unfold_locales
  fix r e r'
  assume s: "stuck w n r" and st: "rpc_step depth ap cd r e = Inr r'"
  show "stuck w n r'"
  proof (cases e)
    case (Turn ns)
    show ?thesis
    proof (cases "cl_started (owner r) \<and> io_alive (iothr r)")
      case True
      with Turn st have t: "io_turn ns r = Inr r'" by simp
      show ?thesis
      proof (cases ns)
        case (GotEvent i ok rep)
        let ?tag = "snd (io_ops (iothr r) ! i)" and ?r = "r\<lparr>iothr := op_done i (iothr r)\<rparr>"
        from t GotEvent have i: "i < length (io_ops (iothr r))" and h: "handle_event ok ?tag rep ?r = Inr r'"
          by (auto simp: op_done_def split: if_splits)
        have nw: "\<not> is_write_operation ?tag" and c: "writes (op_done i (iothr r)) = 0"
          using op_done_count [OF i] s by (auto simp: stuck_def split: if_splits)
        show ?thesis
        proof (cases "is_read_operation ?tag")
          case True
          with nw h have "read_done ok ?tag rep ?r = Inr r'" by (simp add: handle_event_def)
          from read_done_wire [OF this] c s show ?thesis by (simp add: stuck_def)
        next
          case False
          with nw h c s show ?thesis by (auto simp: handle_event_def stuck_def writes_def split: if_splits)
        qed
      next
        case NextTimeout
        with t s show ?thesis by (simp add: io_idle_def stuck_def)
      next
        case NextShutdown
        with t s show ?thesis by (auto simp: stuck_def writes_def)
      qed
    next
      case False
      with st Turn have "r' = r" by auto
      then show ?thesis using s by simp
    qed
  qed (use st s in \<open>auto simp: fault_simps stuck_def\<close>)
qed

text \<open>
  Property C37. When a write fails, as it does when the connection breaks during it, \<open>is_sending_\<close> stays set for good: the
  thread never takes a request again, so that nothing is written any more and no new stream is ever
  opened, though the client goes on to ask for one.
\<close>

theorem failed_write_ends_sending:
  assumes "run_steps (rpc_step depth ap cd) (new_rpc addr opts) es = Inr r"
    and "i < length (io_ops (iothr r))" and "is_write_operation (snd (io_ops (iothr r) ! i))"
    and "io_turn (GotEvent i False rep) r = Inr r1"
    and "run_steps (rpc_step depth ap cd) r1 es' = Inr r2"
  shows "io_wire (iothr r2) = io_wire (iothr r) \<and> io_seq (iothr r2) = io_seq (iothr r)"
proof -
  have ok: "wire_ok r" by (rule wire.run_inv [OF wire_ok_new assms(1)])
  have "r1 = r\<lparr>iothr := op_done i (iothr r)\<rparr>"
    using assms(2-4) by (simp add: handle_event_def write_done_def op_done_def)
  moreover have "writes (op_done i (iothr r)) = 0" "io_sending (iothr r)"
    using op_done_count [OF assms(2)] assms(3) ok by (auto simp: wire_ok_def split: if_splits)
  ultimately have "stuck (io_wire (iothr r)) (io_seq (iothr r)) r1" by (simp add: stuck_def)
  from stuck.run_inv [OF this assms(5)] show ?thesis by (simp add: stuck_def)
qed

text \<open>The concrete run: the login is being written when the connection breaks; the client waits and tries again.\<close>

definition retry_app :: cl_app where
  "retry_app = demo_app\<lparr>on_close := Some (\<lambda>_ _ _. ([], 5))\<rparr>"

definition broken_events :: "rpc_event list" where
  "broken_events = [Poll 1 0, Turn NextTimeout, Turn (GotEvent 0 True new_reply), Poll 2 0, Turn NextTimeout]"

definition retry_events :: "rpc_event list" where
  "retry_events = [Turn (GotEvent 0 False new_reply), Poll 3 0, Poll 9 0, Turn NextTimeout, Turn NextTimeout]"

lemma broken_run:
  "case run_steps (rpc_step 3 retry_app demo_codec) (new_rpc ''host'' None) broken_events of
     Inl _ \<Rightarrow> False
   | Inr r \<Rightarrow> length (io_ops (iothr r)) = 2 \<and> is_write_operation (snd (io_ops (iothr r) ! 1)) \<and> io_seq (iothr r) = 1 \<and>
       (case io_turn (GotEvent 1 False new_reply) r of
          Inl _ \<Rightarrow> False
        | Inr r1 \<Rightarrow>
            (case run_steps (rpc_step 3 retry_app demo_codec) r1 retry_events of
               Inl _ \<Rightarrow> False
             | Inr r2 \<Rightarrow> cl_status (owner r2) = CONNECTING \<and> cl_requests (owner r2) = [ESTABLISH_REQUEST]))"
  by code_simp

theorem failed_write_ends_sending_witness:
  "\<exists>r r1 r2. run_steps (rpc_step 3 retry_app demo_codec) (new_rpc ''host'' None) broken_events = Inr r \<and>
     io_turn (GotEvent 1 False new_reply) r = Inr r1 \<and> run_steps (rpc_step 3 retry_app demo_codec) r1 retry_events = Inr r2 \<and>
     cl_status (owner r2) = CONNECTING \<and> io_seq (iothr r2) = 1"
proof -
  obtain r r1 r2 where "run_steps (rpc_step 3 retry_app demo_codec) (new_rpc ''host'' None) broken_events = Inr r"
      "1 < length (io_ops (iothr r))" "is_write_operation (snd (io_ops (iothr r) ! 1))"
      "io_turn (GotEvent 1 False new_reply) r = Inr r1" "run_steps (rpc_step 3 retry_app demo_codec) r1 retry_events = Inr r2"
      "cl_status (owner r2) = CONNECTING" "io_seq (iothr r) = 1"
    using broken_run by (auto split: sum.splits)
  then show ?thesis using failed_write_ends_sending by metis
qed

section \<open>Signals taken for objects\<close>

text \<open>
  A reset while the signal to open a stream is still in the queue: the next poll drains the queue and
  deletes the pointer 0x2.
\<close>

theorem reset_while_connecting:
  assumes "cl_ready ap (release s)" and "cl_replys s = []" and "ESTABLISH_REQUEST \<in> set (cl_requests s)"
  shows "update depth ap cd (release s) = Inl BadPointer"
proof -
  have "update_head (respond depth ap cd) ap (release s) = Inl BadPointer"
    using assms by (simp add: update_head_def release_def push_reply_def tq_enqueue_def drain_queue_eq)
  then show ?thesis by (simp add: update_def Let_def)
qed

theorem reset_while_connecting_witness:
  "\<exists>s. update 3 demo_app demo_codec new_client = Inr s \<and> cl_status s = CONNECTING \<and>
     update 3 demo_app demo_codec (release s) = Inl BadPointer"
proof -
  have "case update 3 demo_app demo_codec new_client of
      Inl _ \<Rightarrow> False
    | Inr s \<Rightarrow> cl_status s = CONNECTING \<and> cl_replys s = [] \<and> cl_requests s = [ESTABLISH_REQUEST]"
    by code_simp
  then obtain s where "update 3 demo_app demo_codec new_client = Inr s" "cl_status s = CONNECTING" "cl_replys s = []"
      "ESTABLISH_REQUEST \<in> set (cl_requests s)"
    by (auto split: sum.splits)
  moreover have "cl_ready demo_app (release s)" by (simp add: cl_ready_def demo_app_def)
  ultimately show ?thesis using reset_while_connecting by blast
qed

text \<open>
  A write that completes when the signal is the first of the queue: it is used as a request.
\<close>

theorem signal_written_as_request:
  assumes "cl_requests (owner r) = ESTABLISH_REQUEST # q"
  shows "write_done True r = Inl BadPointer"
  using assms by (simp add: write_done_def pop_request_def)

end
