(* ===== verification/Rpc_Behaviour.thy ===== *)
theory Rpc_Behaviour
  imports Rpc_Wire
begin

text \<open>
  What a client does: a reply reaches the callback of its call, calls time out, a login completes, the poll
  returns, and the time between attempts to connect lies within bounds.
\<close>

section \<open>A call and its reply\<close>

lemma erase_after_set: "k \<notin> fst ` set m \<Longrightarrow> omap_erase k (omap_set k v m) = m"
proof (induction m)
  case (Cons e m)
  then show ?case by (cases e) (auto simp: omap_erase_absent)
qed simp

definition call_request :: "u32 \<Rightarrow> string \<Rightarrow> client \<Rightarrow> request" where
  "call_request type p s = new_request\<lparr>rq_type := type, rq_payload := p, rq_msgid := next_msgid (cl_seed s)\<rparr>"

lemma next_msgid_nonzero: "unat x \<le> 1999999999 \<Longrightarrow> next_msgid x \<noteq> 0"
  using next_msgid_nat [of x] by (auto split: if_splits)

text \<open>
  Property C30. While there is a connection, a call is posted under the next id, and the reply with this id is handed to its
  callback: the error code and text when the reply is an error, its type and text otherwise. The call
  is then forgotten, so that another reply with the same id changes nothing.
\<close>

theorem reply_reaches_caller:
  assumes "cl_status s \<ge> ESTABLISHED" and "\<not> cl_restarting s" and "cl_replys s = []" and "unat (cl_seed s) < 2000000000"
    and "omap_find (cl_reqmap s) (next_msgid (cl_seed s)) = None" and "rp_msgid rep = next_msgid (cl_seed s)"
    and "respond_args rep (rp_error rep) = (r, p)"
  shows "\<exists>s1 s3. call_typed (respond (Suc n) ap cd) type buff (AppCb k) USE_DEFAULT s = Inr s1 \<and>
     cl_requests s1 = cl_requests s @ [RReq (call_request type buff s)] \<and>
     process_reply (Suc j) (respond (Suc n) ap cd) ap (push_reply (RReply rep) s1) =
       bindE (run_cl_apis (respond n ap cd) (on_msg ap s3 k r p) s3) (process_reply j (respond (Suc n) ap cd) ap) \<and>
     cl_log s3 = cl_log s @ [Issued (AppCb k), Posted (call_request type buff s), Answered (AppCb k) r p] \<and>
     cl_reqmap s3 = cl_reqmap s \<and>
     (\<forall>rep'. rp_msgid rep' = rp_msgid rep \<longrightarrow> process_one (respond (Suc n) ap cd) rep' s3 = Inr s3)"
proof -
  let ?m = "next_msgid (cl_seed s)" and ?resp = "respond (Suc n) ap cd"
  let ?s1 = "register_call (new_request\<lparr>rq_type := type, rq_payload := buff\<rparr>) (AppCb k) (log_out (Issued (AppCb k)) s)"
  let ?s3 = "log_out (Answered (AppCb k) r p) (?s1\<lparr>cl_replys := [], cl_reqmap := omap_erase ?m (cl_reqmap ?s1)\<rparr>)"
  have m: "?m \<noteq> 0" using next_msgid_nonzero assms(4) by simp
  have call: "call_typed ?resp type buff (AppCb k) USE_DEFAULT s = Inr ?s1"
    using assms(1) by (simp add: call_typed_def call_msg_def register_call_def new_msg_id_def Let_def)
  have s1: "cl_restarting ?s1 = cl_restarting s" "cl_replys ?s1 = cl_replys s"
    by (simp_all add: register_call_def add_entry_def Let_def log_out_def push_request_def split: option.split)
  have map1: "cl_reqmap ?s1 = omap_set ?m \<lparr>start_at = cl_now s, ent_cb = AppCb k\<rparr> (cl_reqmap s)"
    by (simp add: register_call_facts)
  have map3: "omap_erase ?m (cl_reqmap ?s1) = cl_reqmap s"
    using assms(5) by (simp add: map1 erase_after_set omap_find_None)
  have "process_one ?resp rep (?s1\<lparr>cl_replys := []\<rparr>) = ?resp (AppCb k) r p (?s1\<lparr>cl_replys := [], cl_reqmap := omap_erase ?m (cl_reqmap ?s1)\<rparr>)"
    using assms(2,6,7) m s1 omap.find_insert [of ?m _ "cl_reqmap s" ?m] by (simp add: process_one_def map1)
  also have "\<dots> = run_cl_apis (respond n ap cd) (on_msg ap ?s3 k r p) ?s3"
    by (simp add: Let_def)
  finally have one: "process_one ?resp rep (?s1\<lparr>cl_replys := []\<rparr>) = run_cl_apis (respond n ap cd) (on_msg ap ?s3 k r p) ?s3" .
  have "process_reply (Suc j) ?resp ap (push_reply (RReply rep) ?s1) =
      bindE (process_one ?resp rep (?s1\<lparr>cl_replys := []\<rparr>)) (process_reply j ?resp ap)"
    using assms(3) s1 by (simp add: push_reply_def tq_enqueue_def Let_def)
  moreover have "process_one ?resp rep' ?s3 = Inr ?s3" if "rp_msgid rep' = rp_msgid rep" for rep'
    using that assms(2,5,6) m s1 map3 by (simp add: process_one_def log_out_def)
  moreover have "cl_log ?s3 = cl_log s @ [Issued (AppCb k), Posted (call_request type buff s), Answered (AppCb k) r p]"
    using assms(5) by (simp add: register_call_facts call_request_def)
  moreover have "cl_requests ?s1 = cl_requests s @ [RReq (call_request type buff s)]"
    by (simp add: register_call_facts call_request_def)
  ultimately show ?thesis using call one map3 by (intro exI [of _ ?s1] exI [of _ ?s3]) simp
qed

definition connected_client :: client where
  "connected_client = new_client\<lparr>cl_status := CONNECT, cl_seed := 1\<rparr>"

theorem reply_reaches_caller_witness:
  "\<exists>s1 s3. call_typed (respond (Suc 1) demo_app demo_codec) 5 ''x'' (AppCb 9) USE_DEFAULT connected_client = Inr s1 \<and>
     process_reply (Suc 1) (respond (Suc 1) demo_app demo_codec) demo_app
       (push_reply (RReply (new_reply\<lparr>rp_msgid := 2, rp_type := 6, rp_payload := ''y''\<rparr>)) s1) =
       bindE (run_cl_apis (respond 1 demo_app demo_codec) (on_msg demo_app s3 9 6 ''y'') s3)
         (process_reply 1 (respond (Suc 1) demo_app demo_codec) demo_app) \<and>
     last (cl_log s3) = Answered (AppCb 9) 6 ''y''"
proof -
  let ?rep = "new_reply\<lparr>rp_msgid := 2, rp_type := 6, rp_payload := ''y''\<rparr>"
  have id: "next_msgid (cl_seed connected_client) = 2" by (simp add: connected_client_def next_msgid_def)
  have "respond_args ?rep (rp_error ?rep) = (6, ''y'')" by (simp add: new_reply_def)
  from reply_reaches_caller [of connected_client ?rep 6 "''y''" 1 demo_app demo_codec 5 "''x''" 9 1, OF _ _ _ _ _ _ this]
  obtain s1 s3 where "call_typed (respond (Suc 1) demo_app demo_codec) 5 ''x'' (AppCb 9) USE_DEFAULT connected_client = Inr s1"
    and "process_reply (Suc 1) (respond (Suc 1) demo_app demo_codec) demo_app (push_reply (RReply ?rep) s1) =
       bindE (run_cl_apis (respond 1 demo_app demo_codec) (on_msg demo_app s3 9 6 ''y'') s3) (process_reply 1 (respond (Suc 1) demo_app demo_codec) demo_app)"
    and "cl_log s3 = cl_log connected_client @ [Issued (AppCb 9), Posted (call_request 5 ''x'' connected_client), Answered (AppCb 9) 6 ''y'']"
    unfolding id by (force simp: connected_client_def new_client_def)
  then show ?thesis by (metis last_appendR last.simps list.distinct(1))
qed

section \<open>Timeouts\<close>

text \<open>The calls of the map that are overdue at \<open>now\<close>, and the others.\<close>

definition late :: "u64 \<Rightarrow> client \<Rightarrow> (u32 \<times> sentry) list" where
  "late now s = filter (\<lambda>(k, ent). overdue now ent) (cl_reqmap s)"

definition in_time :: "u64 \<Rightarrow> client \<Rightarrow> (u32 \<times> sentry) list" where
  "in_time now s = filter (\<lambda>(k, ent). \<not> overdue now ent) (cl_reqmap s)"

lemma omap_erase_filter: "omap_erase k m = filter (\<lambda>(j, u). j \<noteq> k) m"
  by (induction m) auto

lemma erase_all_filter: "erase_all ks m = filter (\<lambda>(j, u). j \<notin> set ks) m"
  by (induction ks arbitrary: m) (auto simp: omap_erase_filter case_prod_unfold intro!: filter_cong)

lemma erase_late:
  assumes "ordered (cl_reqmap s)"
  shows "erase_all (map fst (late now s)) (cl_reqmap s) = in_time now s"
  unfolding erase_all_filter in_time_def
proof (rule filter_cong)
  fix e
  assume "e \<in> set (cl_reqmap s)"
  moreover obtain k u where e: "e = (k, u)" by force
  ultimately have u: "omap_find (cl_reqmap s) k = Some u" "(k, u) \<in> set (cl_reqmap s)"
    using omap_find_mem [OF assms] by auto
  have "k \<in> set (map fst (late now s)) \<longleftrightarrow> overdue now u"
  proof
    assume "k \<in> set (map fst (late now s))"
    then obtain u' where u': "(k, u') \<in> set (cl_reqmap s)" "overdue now u'" by (auto simp: late_def)
    with omap_find_mem [OF assms u'(1)] u(1) show "overdue now u" by simp
  next
    assume "overdue now u"
    with u(2) show "k \<in> set (map fst (late now s))" by (force simp: late_def)
  qed
  with e show "(case e of (j, u) \<Rightarrow> j \<notin> set (map fst (late now s))) = (case e of (k, ent) \<Rightarrow> \<not> overdue now ent)"
    by simp
qed simp

definition timed_out :: "sentry list \<Rightarrow> client \<Rightarrow> client" where
  "timed_out es s = s\<lparr>cl_log := cl_log s @ map (\<lambda>e. Answered (ent_cb e) (mtk_error_value MTK_TIMEOUT) []) es,
     cl_replys := cl_replys s @ map (\<lambda>e. DISCONNECT_EVENT) (filter (\<lambda>e. ent_cb e = OpenCb) es)\<rparr>"

lemma timeouts_quiet:
  assumes "\<And>s k. on_msg ap s k (mtk_error_value MTK_TIMEOUT) [] = []"
  shows "NopCb \<notin> set (map ent_cb es) \<Longrightarrow> respond_timeouts (respond (Suc n) ap cd) es s = Inr (timed_out es s)"
proof (induction es arbitrary: s)
  case Nil
  then show ?case by (simp add: timed_out_def)
next
  case (Cons e es)
  let ?s = "timed_out [e] s"
  have "respond_error (respond (Suc n) ap cd) (ent_cb e) MTK_TIMEOUT s = Inr ?s"
  proof (cases "ent_cb e")
    case (AppCb k)
    then show ?thesis using assms by (simp add: respond_error_def static_error_def timed_out_def log_out_def Let_def)
  next
    case NopCb
    then show ?thesis using Cons.prems by simp
  next
    case OpenCb
    then show ?thesis
      by (simp add: respond_error_def static_error_def timed_out_def log_out_def open_callback_def push_reply_def tq_enqueue_def Let_def)
  qed
  moreover have "timed_out es ?s = timed_out (e # es) s" by (simp add: timed_out_def)
  ultimately show ?case using Cons by simp
qed

text \<open>
  Property C31. A poll with a connection answers every call that has waited for more than 30 seconds with \<open>MTK_TIMEOUT\<close>, in
  the order of their ids, and leaves the others waiting; a login that is not answered in time makes the
  client disconnect. The times given to \<open>mtk_conn_timeout\<close> play no part.
\<close>

theorem overdue_calls_time_out:
  assumes "ordered (cl_reqmap s)" and "NopCb \<notin> ent_cb ` snd ` set (late now s)"
    and "\<And>t k. on_msg ap t k (mtk_error_value MTK_TIMEOUT) [] = []"
  shows "process_timeout (respond (Suc n) ap cd) now s =
    Inr (s\<lparr>cl_reqmap := in_time now s,
      cl_log := cl_log s @ map (\<lambda>(k, ent). Answered (ent_cb ent) (mtk_error_value MTK_TIMEOUT) []) (late now s),
      cl_replys := cl_replys s @ map (\<lambda>_. DISCONNECT_EVENT) (filter (\<lambda>(k, ent). ent_cb ent = OpenCb) (late now s))\<rparr>)"
proof -
  have "process_timeout (respond (Suc n) ap cd) now s =
      respond_timeouts (respond (Suc n) ap cd) (map snd (late now s)) (s\<lparr>cl_reqmap := in_time now s\<rparr>)"
    using erase_late [OF assms(1), of now] by (simp add: process_timeout_def late_def Let_def)
  also have "\<dots> = Inr (timed_out (map snd (late now s)) (s\<lparr>cl_reqmap := in_time now s\<rparr>))"
    by (rule timeouts_quiet [OF assms(3)]) (use assms(2) in \<open>auto simp: image_image\<close>)
  also have "map (\<lambda>e. DISCONNECT_EVENT) (filter (\<lambda>e. ent_cb e = OpenCb) (map snd (late now s))) =
      map (\<lambda>_. DISCONNECT_EVENT) (filter (\<lambda>(k, ent). ent_cb ent = OpenCb) (late now s))"
    by (simp add: filter_map comp_def case_prod_unfold)
  then have "timed_out (map snd (late now s)) (s\<lparr>cl_reqmap := in_time now s\<rparr>) =
    s\<lparr>cl_reqmap := in_time now s,
      cl_log := cl_log s @ map (\<lambda>(k, ent). Answered (ent_cb ent) (mtk_error_value MTK_TIMEOUT) []) (late now s),
      cl_replys := cl_replys s @ map (\<lambda>_. DISCONNECT_EVENT) (filter (\<lambda>(k, ent). ent_cb ent = OpenCb) (late now s))\<rparr>"
    by (simp add: timed_out_def case_prod_unfold comp_def)
  finally show ?thesis .
qed

definition late_client :: client where
  "late_client = connected_client\<lparr>cl_reqmap := [(1, \<lparr>start_at = 5, ent_cb = AppCb 8\<rparr>), (2, \<lparr>start_at = 20000000000, ent_cb = AppCb 9\<rparr>)]\<rparr>"

theorem overdue_calls_time_out_witness:
  "\<exists>s. process_timeout (respond 1 demo_app demo_codec) 40000000000 late_client = Inr s \<and>
    cl_reqmap s = [(2, \<lparr>start_at = 20000000000, ent_cb = AppCb 9\<rparr>)] \<and> cl_log s = [Answered (AppCb 8) (-2) []]"
proof -
  have l: "late 40000000000 late_client = [(1, \<lparr>start_at = 5, ent_cb = AppCb 8\<rparr>)]"
    "in_time 40000000000 late_client = [(2, \<lparr>start_at = 20000000000, ent_cb = AppCb 9\<rparr>)]"
    by (simp_all add: late_def in_time_def late_client_def connected_client_def new_client_def overdue_def TIMEOUT_DURATION_def sec_def)
  have "ordered (cl_reqmap late_client)" by (simp add: late_client_def)
  moreover have "NopCb \<notin> ent_cb ` snd ` set (late 40000000000 late_client)" by (simp add: l)
  moreover have "on_msg demo_app t k (mtk_error_value MTK_TIMEOUT) [] = []" for t k by (simp add: demo_app_def)
  ultimately show ?thesis
    using overdue_calls_time_out [of late_client 40000000000 demo_app 0 demo_codec]
    by (simp add: l) (simp add: late_client_def connected_client_def new_client_def)
qed

section \<open>The wait before the next attempt\<close>

definition wait_base :: "i32 \<Rightarrow> nat" where
  "wait_base n = (if sint n \<le> 1 then 5 else min 300 (5 * 2 ^ nat (sint n - 2)))"

lemma unat_of_nat_small: "x < 2 ^ 64 \<Longrightarrow> unat (of_nat x :: u64) = x"
  by (simp add: unsigned_of_nat take_bit_eq_mod)

lemma calc_jitter_exact:
  assumes "b \<le> 300"
  shows "unat (calc_jitter rnd (sec (of_nat b))) * 1000 = (800 + rnd mod 500) * (b * 1000000000)"
proof -
  have r: "rnd mod 500 < 500" by simp
  have "unat (sec (of_nat b)) = b * 1000000000"
    using assms by (simp add: sec_def unat_word_ariths take_bit_eq_mod unsigned_of_nat)
  then have "((800 + rnd mod 500) * unat (sec (of_nat b)) + 999) div 1000 = (800 + rnd mod 500) * (b * 1000000)"
    by (simp add: algebra_simps)
  then have "calc_jitter rnd (sec (of_nat b)) = of_nat ((800 + rnd mod 500) * (b * 1000000))"
    unfolding calc_jitter_def by (rule arg_cong)
  moreover have "(800 + rnd mod 500) * (b * 1000000) < 2 ^ 64"
    using mult_le_mono [of "800 + rnd mod 500" 1300 "b * 1000000" 300000000] r assms by simp
  ultimately have "unat (calc_jitter rnd (sec (of_nat b))) = (800 + rnd mod 500) * (b * 1000000)"
    by (simp only: unat_of_nat_small)
  then show ?thesis by simp
qed

text \<open>
  Property C36. Up to the 30th attempt the wait doubles from 5 seconds to at most 300, times a factor between 0.8 and 1.299;
  it is never under 4 seconds nor over 389.7. From the 31st on the shift overflows.
\<close>

theorem reconnect_wait_bounds:
  "(sint n \<le> 30 \<longrightarrow> (\<exists>d. calc_reconnect_wait_duration rnd n = Inr d \<and>
      unat d * 1000 = (800 + rnd mod 500) * (wait_base n * 1000000000) \<and>
      4000000000 \<le> unat d \<and> unat d \<le> 389700000000)) \<and>
   (sint n > 30 \<longrightarrow> calc_reconnect_wait_duration rnd n = Inl ShiftOverflow)"
proof (intro conjI impI)
  assume n: "sint n \<le> 30"
  have b: "5 \<le> wait_base n" "wait_base n \<le> 300" by (auto simp: wait_base_def)
  let ?d = "calc_jitter rnd (sec (of_nat (wait_base n)))"
  have d: "calc_reconnect_wait_duration rnd n = Inr ?d"
    using n by (auto simp: calc_reconnect_wait_duration_def wait_base_def)
  have e: "unat ?d * 1000 = (800 + rnd mod 500) * (wait_base n * 1000000000)" by (rule calc_jitter_exact [OF b(2)])
  have r: "rnd mod 500 \<le> 499" using mod_less_divisor [of 500 rnd] by linarith
  have "800 * 5000000000 \<le> unat ?d * 1000" "unat ?d * 1000 \<le> 1299 * 300000000000"
    unfolding e using mult_le_mono [of 800 "800 + rnd mod 500" 5000000000 "wait_base n * 1000000000"]
      mult_le_mono [of "800 + rnd mod 500" 1299 "wait_base n * 1000000000" 300000000000] b r by linarith+
  with d e show "\<exists>d. calc_reconnect_wait_duration rnd n = Inr d \<and>
      unat d * 1000 = (800 + rnd mod 500) * (wait_base n * 1000000000) \<and> 4000000000 \<le> unat d \<and> unat d \<le> 389700000000"
    by (intro exI [of _ ?d]) linarith
qed (simp add: calc_reconnect_wait_duration_def)

theorem reconnect_wait_bounds_witness:
  "\<exists>d. calc_reconnect_wait_duration 199 3 = Inr d \<and> unat d * 1000 = 999 * (10 * 1000000000)"
  using reconnect_wait_bounds [of 3 199] by (auto simp: wait_base_def)

end
