(* ===== verification/Rpc_Returns.thy ===== *)
theory Rpc_Returns
  imports Rpc_Behaviour
begin

text \<open>
  The poll returns. Two things could keep it from doing so: the loop over the queue of replies, whose callbacks
  push events, and callbacks that call again when they are told that there is no connection, which are then
  called at once. The loop always ends; the recursion does for an application that does not answer
  \<open>MTK_NOT_CONNECT\<close> with a call.
\<close>

fun is_call :: "cl_api \<Rightarrow> bool" where
  "is_call (CallApi type p clsr) \<longleftrightarrow> True"
| "is_call _ \<longleftrightarrow> False"

definition polite_app :: "cl_app \<Rightarrow> bool" where
  "polite_app ap \<longleftrightarrow> (\<forall>s k p. \<forall>a \<in> set (on_msg ap s k (mtk_error_value MTK_NOT_CONNECT) p). \<not> is_call a)"

definition returns :: "cl_fault + 'a \<Rightarrow> bool" where
  "returns m \<longleftrightarrow> m \<noteq> Inl LoopFuel \<and> m \<noteq> Inl CallDepth"

lemma returns_simps [simp]: "returns (Inr x)" "returns (Inl BadPointer)" "returns (Inl EmptyFunction)" "returns (Inl ShiftOverflow)"
  by (simp_all add: returns_def)

lemma returns_bind: "returns m \<Longrightarrow> (\<And>x. m = Inr x \<Longrightarrow> returns (k x)) \<Longrightarrow> returns (bindE m k)"
  by (cases m) (auto simp: returns_def)

section \<open>Callbacks\<close>

definition settles :: "responder \<Rightarrow> bool" where
  "settles resp \<longleftrightarrow> (\<forall>cb r p s. returns (resp cb r p s))"

definition settles_refused :: "responder \<Rightarrow> bool" where
  "settles_refused resp \<longleftrightarrow> (\<forall>cb p s. returns (resp cb (mtk_error_value MTK_NOT_CONNECT) p s))"

lemma settles_refusedI: "settles resp \<Longrightarrow> settles_refused resp"
  by (simp add: settles_def settles_refused_def)

lemma call_msg_returns: "settles_refused resp \<Longrightarrow> returns (call_msg resp msg cb t s)"
  by (simp add: call_msg_def respond_error_def static_error_def settles_refused_def new_msg_id_def Let_def)

lemma run_cl_api_returns: "settles_refused resp \<Longrightarrow> returns (run_cl_api resp a s)"
  by (cases a) (simp_all add: call_typed_def call_msg_returns)

lemma run_cl_apis_returns: "settles_refused resp \<Longrightarrow> returns (run_cl_apis resp as s)"
  by (induction as arbitrary: s) (auto intro!: returns_bind run_cl_api_returns)

lemma run_cl_apis_calm: "\<forall>a \<in> set as. \<not> is_call a \<Longrightarrow> returns (run_cl_apis resp as s)"
proof (induction as arbitrary: s)
  case (Cons a as)
  have "returns (run_cl_api resp a s)" using Cons.prems by (cases a) auto
  with Cons show ?case by (auto intro: returns_bind)
qed simp

lemma call_on_connect_returns: "settles_refused resp \<Longrightarrow> returns (call_on_connect resp ap cid p s)"
  by (auto simp: call_on_connect_def intro!: returns_bind run_cl_apis_returns split: option.split)

lemma open_callback_returns: "settles_refused resp \<Longrightarrow> returns (open_callback resp ap cd r p s)"
  by (auto simp: open_callback_def on_open_stream_def Let_def intro!: returns_bind call_on_connect_returns split: prod.split)

lemma respond_refused: "polite_app ap \<Longrightarrow> settles_refused (respond (Suc n) ap cd)"
  unfolding settles_refused_def
proof (intro allI)
  fix cb p s
  assume "polite_app ap"
  then show "returns (respond (Suc n) ap cd cb (mtk_error_value MTK_NOT_CONNECT) p s)"
    by (cases cb) (auto simp: Let_def polite_app_def open_callback_def intro: run_cl_apis_calm)
qed

lemma respond_settles: "polite_app ap \<Longrightarrow> settles (respond (Suc (Suc n)) ap cd)"
  unfolding settles_def
proof (intro allI)
  fix cb r p s
  assume "polite_app ap"
  note r = respond_refused [OF this, of n cd]
  show "returns (respond (Suc (Suc n)) ap cd cb r p s)"
    by (cases cb) (simp_all add: Let_def run_cl_apis_returns [OF r] open_callback_returns [OF r] del: respond.simps(2)
        add: respond.simps(2) [of "Suc n"])
qed

section \<open>What callbacks push\<close>

definition pushes_ends :: "client \<Rightarrow> cl_fault + client \<Rightarrow> bool" where
  "pushes_ends s m \<longleftrightarrow> (\<forall>s'. m = Inr s' \<longrightarrow> (\<exists>k. cl_replys s' = cl_replys s @ replicate k DISCONNECT_EVENT))"

lemma pushes_same: "cl_replys t = cl_replys s \<Longrightarrow> pushes_ends s (Inr t)"
  by (auto simp: pushes_ends_def intro: exI [of _ 0])

lemma pushes_one: "cl_replys t = cl_replys s \<Longrightarrow> pushes_ends s (Inr (push_reply DISCONNECT_EVENT t))"
  by (auto simp: pushes_ends_def push_reply_def tq_enqueue_def intro: exI [of _ 1])

lemma pushes_from: "cl_replys t = cl_replys s \<Longrightarrow> pushes_ends t m \<Longrightarrow> pushes_ends s m"
  by (simp add: pushes_ends_def)

lemma pushes_bind: "pushes_ends s m \<Longrightarrow> (\<And>t. m = Inr t \<Longrightarrow> pushes_ends t (k t)) \<Longrightarrow> pushes_ends s (bindE m k)"
  by (fastforce simp: pushes_ends_def fault_simps simp flip: replicate_add)

definition pushing :: "responder \<Rightarrow> bool" where
  "pushing resp \<longleftrightarrow> (\<forall>cb r p s. pushes_ends s (resp cb r p s))"

lemma call_msg_pushes:
  assumes "pushing resp"
  shows "pushes_ends s (call_msg resp msg cb t s)"
proof (cases "cl_status s < ESTABLISHED")
  case True
  have "pushes_ends (log_out (Issued cb) s) (resp cb r p (log_out (Issued cb) s))" for r p
    using assms by (simp add: pushing_def)
  from pushes_from [OF _ this] True show ?thesis by (simp add: call_msg_def respond_error_def Let_def)
next
  case False
  then show ?thesis
    by (auto simp: call_msg_def new_msg_id_def add_entry_def Let_def intro!: pushes_same split: option.split)
qed

lemma run_cl_api_pushes: "pushing resp \<Longrightarrow> pushes_ends s (run_cl_api resp a s)"
  using pushes_one [of "s\<lparr>cl_restarting := True\<rparr>" s]
  by (cases a) (simp_all add: call_typed_def release_def call_msg_pushes pushes_same)

lemma run_cl_apis_pushes: "pushing resp \<Longrightarrow> pushes_ends s (run_cl_apis resp as s)"
  by (induction as arbitrary: s) (auto intro!: pushes_bind run_cl_api_pushes pushes_same)

lemma on_open_stream_pushes:
  assumes "pushing resp"
  shows "on_open_stream resp ap cd r p s = Inr (s', ok) \<Longrightarrow> \<exists>k. cl_replys s' = cl_replys s @ replicate k DISCONNECT_EVENT"
proof -
  have a: "\<exists>k. cl_replys u = cl_replys t @ replicate k DISCONNECT_EVENT" if "run_cl_apis resp as t = Inr u" for as t u
    using run_cl_apis_pushes [OF assms, of t as] that by (auto simp: pushes_ends_def)
  have c: "\<exists>k. cl_replys s' = cl_replys t @ replicate k DISCONNECT_EVENT" if "call_on_connect resp ap cid q t = Inr (s', ok)" for cid q t
    using that by (auto simp: call_on_connect_def fault_simps split: option.splits dest!: a)
  show "on_open_stream resp ap cd r p s = Inr (s', ok) \<Longrightarrow> \<exists>k. cl_replys s' = cl_replys s @ replicate k DISCONNECT_EVENT"
    by (auto simp: on_open_stream_def Let_def split: if_splits prod.splits dest!: c intro: exI [of _ 0])
qed

lemma open_callback_pushes:
  assumes "pushing resp"
  shows "pushes_ends s (open_callback resp ap cd r p s)"
proof (cases "r \<ge> 0")
  case True
  show ?thesis
    unfolding pushes_ends_def
  proof (intro allI impI)
    fix s'
    assume "open_callback resp ap cd r p s = Inr s'"
    with True obtain t ok where t: "on_open_stream resp ap cd r p s = Inr (t, ok)"
        "s' = (if ok then t\<lparr>cl_status := CONNECT\<rparr> else push_reply DISCONNECT_EVENT t)"
      by (auto simp: open_callback_def fault_simps)
    from on_open_stream_pushes [OF assms t(1)] obtain k where "cl_replys t = cl_replys s @ replicate k DISCONNECT_EVENT" by blast
    with t(2) show "\<exists>k. cl_replys s' = cl_replys s @ replicate k DISCONNECT_EVENT"
      by (auto simp: push_reply_def tq_enqueue_def replicate_append_same simp flip: replicate_Suc)
  qed
qed (simp add: open_callback_def pushes_one)

lemma respond_pushes: "pushing (respond n ap cd)"
proof (induction n)
  case (Suc n)
  have "pushes_ends s (respond (Suc n) ap cd cb r p s)" for cb r p s
  proof -
    have f: "cl_replys (log_out (Answered cb r p) s) = cl_replys s" by simp
    from pushes_from [OF f run_cl_apis_pushes [OF Suc]] pushes_from [OF f open_callback_pushes [OF Suc]] show ?thesis
      by (cases cb) (auto simp: Let_def pushes_ends_def [of _ "Inl _"])
  qed
  then show ?case by (simp add: pushing_def)
qed (simp add: pushing_def pushes_ends_def)

lemma process_one_pushes:
  assumes "pushing resp"
  shows "pushes_ends s (process_one resp rep s)"
proof -
  have a: "pushes_ends s (resp cb r p t)" if "cl_replys t = cl_replys s" for cb r p t
    using pushes_from [OF that] assms by (simp add: pushing_def)
  have i: "pushes_ends s (Inl e)" for e by (simp add: pushes_ends_def)
  show ?thesis
    by (auto simp: process_one_def intro!: a i pushes_same split: option.split prod.split)
qed

section \<open>The loop and the poll\<close>

fun is_reply :: "reply_item \<Rightarrow> bool" where
  "is_reply (RReply rep) \<longleftrightarrow> True"
| "is_reply _ \<longleftrightarrow> False"

lemma take_replies: "length (takeWhile is_reply (q @ replicate k DISCONNECT_EVENT)) = length (takeWhile is_reply q)"
  by (induction q) (auto simp: takeWhile_eq_Nil_iff hd_replicate)

lemma drain_returns: "returns (drain_queue s)"
  by (simp add: drain_queue_eq)

lemma stream_closed_returns: "settles_refused resp \<Longrightarrow> returns (stream_closed resp ap s)"
  by (auto simp: stream_closed_def on_close_stream_def calc_reconnect_wait_duration_def Let_def
      intro!: returns_bind run_cl_apis_returns split: option.split prod.split)

lemma process_one_returns: "settles resp \<Longrightarrow> returns (process_one resp rep s)"
  by (simp add: process_one_def settles_def split: option.split prod.split)

lemma process_reply_returns:
  assumes "settles resp" and "pushing resp"
  shows "length (takeWhile is_reply (cl_replys s)) < n \<Longrightarrow> returns (process_reply n resp ap s)"
proof (induction n arbitrary: s)
  case (Suc n)
  note refused = settles_refusedI [OF assms(1)]
  show ?case
  proof (cases "cl_replys s")
    case (Cons item q)
    let ?s = "s\<lparr>cl_replys := q\<rparr>"
    have rep: "returns (bindE (process_one resp rep ?s) (process_reply n resp ap))" if "item = RReply rep" for rep
    proof (rule returns_bind [OF process_one_returns [OF assms(1)]])
      fix t
      assume "process_one resp rep ?s = Inr t"
      then obtain k where "cl_replys t = q @ replicate k DISCONNECT_EVENT"
        using process_one_pushes [OF assms(2), of ?s rep] by (auto simp: pushes_ends_def)
      then have "length (takeWhile is_reply (cl_replys t)) = length (takeWhile is_reply q)" by (simp add: take_replies)
      with Suc.prems Cons that show "returns (process_reply n resp ap t)" by (intro Suc.IH) simp
    qed
    show ?thesis
      by (cases item) (auto simp: Cons Let_def rep intro!: returns_bind drain_returns stream_closed_returns refused)
  qed simp
qed simp

lemma respond_timeouts_returns: "settles resp \<Longrightarrow> returns (respond_timeouts resp es s)"
  by (induction es arbitrary: s) (auto simp: respond_error_def settles_def intro!: returns_bind)

text \<open>
  Property C34. The poll of a polite application always comes to its end: the loop over the replies runs at most once for each
  reply in the queue, and callbacks nest at most two deep. (It may still end in one of the faults that the
  theories on the wire and on the behaviour describe.)
\<close>

theorem poll_returns:
  assumes "polite_app ap" and "2 \<le> depth"
  shows "update depth ap cd s \<noteq> Inl LoopFuel \<and> update depth ap cd s \<noteq> Inl CallDepth"
proof -
  obtain n where n: "depth = Suc (Suc n)" using assms(2) by (metis add_2_eq_Suc le_Suc_ex)
  let ?resp = "respond depth ap cd"
  have set: "settles ?resp" unfolding n by (rule respond_settles [OF assms(1)])
  note refused = settles_refusedI [OF set]
  have "length (takeWhile is_reply (cl_replys s)) < length (cl_replys s) + 1"
    using length_takeWhile_le [of is_reply "cl_replys s"] by linarith
  then have head: "returns (update_head ?resp ap s)"
    by (auto simp: update_head_def intro!: returns_bind drain_returns process_reply_returns [OF set respond_pushes]
        simp del: process_reply.simps)
  have time: "returns (process_timeout ?resp now t)" for now t
    by (simp add: process_timeout_def Let_def respond_timeouts_returns [OF set])
  have start: "returns (start_write ?resp ap cd t)" for t
    by (auto simp: start_write_def add_payload_def call_system_def pack_def Let_def
        intro!: returns_bind run_cl_apis_returns [OF refused] call_msg_returns [OF refused] split: option.split prod.split)
  have "returns (update depth ap cd s)"
    unfolding update_def Let_def
    by (rule returns_bind [OF head]) (auto intro!: returns_bind start time split: network_status.split)
  then show ?thesis by (simp add: returns_def)
qed

theorem poll_returns_witness:
  "update 2 (demo_app\<lparr>on_msg := (\<lambda>_ k r p. if r = mtk_error_value MTK_NOT_CONNECT then [] else [CallApi 1 ''again'' (Some k), ResetApi])\<rparr>) demo_codec
     late_client \<noteq> Inl LoopFuel"
proof -
  have "polite_app (demo_app\<lparr>on_msg := (\<lambda>_ k r p. if r = mtk_error_value MTK_NOT_CONNECT then [] else [CallApi 1 ''again'' (Some k), ResetApi])\<rparr>)"
    by (simp add: polite_app_def)
  from poll_returns [OF this order_refl] show ?thesis by simp
qed

text \<open>An application that calls again whenever it is told that there is no connection overflows the stack.\<close>

lemma impolite_recursion:
  assumes "cl_status s < ESTABLISHED" and "\<And>s k p. on_msg ap s k (mtk_error_value MTK_NOT_CONNECT) p = [CallApi 1 ''again'' (Some k)]"
  shows "respond depth ap cd (AppCb k) (mtk_error_value MTK_NOT_CONNECT) p s = Inl CallDepth"
  using assms(1)
proof (induction depth arbitrary: s p)
  case (Suc n)
  then show ?case
    using assms(2) by (simp add: Let_def call_typed_def call_msg_def respond_error_def static_error_def)
qed simp

end
