(* ===== verification/Rpc_Login.thy ===== *)
theory Rpc_Login
  imports Rpc_Returns
begin

text \<open>
  How a client logs in: from no connection, through the stages of the stream, to the application's answer. One
  predicate describes a stage, one lemma each step from a stage to the next.
\<close>

section \<open>Stages\<close>

text \<open>
  The status, the two queues, the calls that wait, the outstanding operations, \<open>is_sending_\<close>, whether a reply
  is being read, the number of the stream, what was written, the last id given and the last login reply.
\<close>

definition stage :: "network_status \<Rightarrow> request_item list \<Rightarrow> reply_item list \<Rightarrow> (u32 \<times> sentry) list \<Rightarrow> (u32 \<times> u64) list \<Rightarrow> bool \<Rightarrow> bool \<Rightarrow>
    u32 \<Rightarrow> (u32 \<times> request) list \<Rightarrow> i32 \<Rightarrow> connect_payload \<Rightarrow> rpc \<Rightarrow> bool" where
  "stage st reqs reps calls ops sending had n w m k r \<longleftrightarrow>
     cl_status (owner r) = st \<and> cl_requests (owner r) = reqs \<and> cl_replys (owner r) = reps \<and> cl_reqmap (owner r) = calls \<and>
     cl_seed (owner r) = m \<and> cl_crep (owner r) = k \<and>
     (st \<noteq> DISCONNECT \<longrightarrow> cl_started (owner r)) \<and> (st \<ge> ESTABLISHED \<longrightarrow> \<not> cl_restarting (owner r)) \<and>
     io_ops (iothr r) = ops \<and> io_sending (iothr r) = sending \<and> io_reply (iothr r) = had \<and> io_seq (iothr r) = n \<and>
     io_wire (iothr r) = w \<and> io_alive (iothr r) \<and> \<not> io_shutdown (iothr r) \<and> io_channel (iothr r) \<noteq> None \<and>
     (ops \<noteq> [] \<longrightarrow> io_open (iothr r))"

abbreviation at_rest :: "u32 \<Rightarrow> (u32 \<times> request) list \<Rightarrow> i32 \<Rightarrow> connect_payload \<Rightarrow> rpc \<Rightarrow> bool" where
  "at_rest \<equiv> stage DISCONNECT [] [] [] [] False False"

lemma new_rpc_at_rest: "at_rest 0 [] 0 new_connect (new_rpc addr opts)"
  by (simp add: stage_def new_rpc_def new_client_def new_io_thread_def io_initialize_def)

text \<open>An application that is always ready, starts with an id and a text, and accepts what it is answered.\<close>

definition willing :: "cl_app \<Rightarrow> u64 \<Rightarrow> string \<Rightarrow> bool" where
  "willing ap cid0 greet \<longleftrightarrow> on_ready ap = None \<and> on_start ap = Some (\<lambda>_. ([], cid0, greet)) \<and>
     on_connect ap = Some (\<lambda>_ _ _. ([], True))"

definition login_request :: "codec \<Rightarrow> u64 \<Rightarrow> string \<Rightarrow> i32 \<Rightarrow> request" where
  "login_request cd cid0 greet m = new_request\<lparr>rq_payload := enc_connect cd \<lparr>cn_id = cid0, cn_payload = greet\<rparr>,
     rq_kind := Connect, rq_msgid := next_msgid m\<rparr>"

lemma poll_connects:
  assumes "at_rest n w m k r" and "willing ap cid0 greet" and "cl_when (owner r) \<le> t"
  shows "\<exists>r'. rpc_step depth ap cd r (Poll t rnd) = Inr r' \<and> stage CONNECTING [ESTABLISH_REQUEST] [] [] [] False False n w m k r'"
  using assms
  by (simp add: stage_def willing_def update_def update_head_def cl_ready_def try_connect_def not_less [symmetric])
    (simp add: not_less push_request_def tq_enqueue_def)

lemma turn_opens:
  assumes "stage CONNECTING [ESTABLISH_REQUEST] [] [] [] False False n w m k r"
  shows "\<exists>r'. rpc_step depth ap cd r (Turn NextTimeout) = Inr r' \<and>
     stage CONNECTING [] [] [] [(n + 1, generate_read_tag (n + 1))] False False (n + 1) w m k r'"
  using assms
  by (auto simp: stage_def io_idle_def pop_request_def open_stream_def io_close_def set_deadline_def start_op_def Let_def)

lemma turn_established:
  assumes "stage CONNECTING [] [] [] [(n, generate_read_tag n)] False False n w m k r"
  shows "\<exists>r'. rpc_step depth ap cd r (Turn (GotEvent 0 True x)) = Inr r' \<and>
     stage CONNECTING [] [ESTABLISHED_EVENT] [] [(n, generate_read_tag n)] False True n w m k r'"
  using assms
  by (simp add: stage_def handle_event_def read_done_def io_read_def start_op_def push_reply_def tq_enqueue_def Let_def)

lemma empty_timeout: "filter (\<lambda>(k, ent). overdue now ent) (cl_reqmap s) = [] \<Longrightarrow> process_timeout resp now s = Inr s"
  by (simp add: process_timeout_def)

lemma start_write_eq:
  assumes "willing ap cid0 greet" and "cl_status s = INITIALIZING" and "cl_reqmap s = []"
  shows "start_write resp ap cd s = Inr (s\<lparr>cl_requests := cl_requests s @ [RReq (login_request cd cid0 greet (cl_seed s))],
     cl_seed := next_msgid (cl_seed s), cl_reqmap := [(next_msgid (cl_seed s), \<lparr>start_at = cl_now s, ent_cb = OpenCb\<rparr>)],
     cl_log := cl_log s @ [Issued OpenCb, Posted (login_request cd cid0 greet (cl_seed s))]\<rparr>)"
  using assms
  by (cases s) (auto simp: willing_def start_write_def add_payload_def call_system_def pack_def call_msg_def new_msg_id_def
      add_entry_def push_request_def tq_enqueue_def log_out_def login_request_def new_request_def new_connect_def Let_def)

lemma poll_logs_in:
  assumes "stage CONNECTING [] [ESTABLISHED_EVENT] [] ops False True n w m k r" and "willing ap cid0 greet"
    and "t \<le> t + TIMEOUT_DURATION"
  shows "\<exists>r'. rpc_step depth ap cd r (Poll t rnd) = Inr r' \<and>
     stage INITIALIZING [RReq (login_request cd cid0 greet m)] [] [(next_msgid m, \<lparr>start_at = t, ent_cb = OpenCb\<rparr>)] ops False True n w
       (next_msgid m) k r'"
proof -
  let ?s = "(owner r)\<lparr>cl_now := t, cl_rand := rnd\<rparr>" and ?resp = "respond depth ap cd"
  let ?e = "stream_established (?s\<lparr>cl_replys := []\<rparr>)"
  have c: "cl_requests ?s = []" "cl_replys ?s = [ESTABLISHED_EVENT]" "cl_reqmap ?s = []"
    using assms(1) by (simp_all add: stage_def)
  have "drain_queue (?s\<lparr>cl_replys := []\<rparr>) = Inr (?s\<lparr>cl_replys := []\<rparr>)"
    using c by (cases "owner r") (simp add: drain_queue_eq forget_all_def)
  then have head: "update_head ?resp ap ?s = Inr ?e"
    using c assms(2) by (simp add: update_head_def cl_ready_def willing_def)
  let ?i = "?e\<lparr>cl_status := INITIALIZING\<rparr>"
  have i: "cl_status ?i = INITIALIZING" "cl_reqmap ?i = []" "cl_now ?i = t" "cl_seed ?i = m" "cl_requests ?i = []"
    using assms(1) by (simp_all add: stage_def stream_established_def)
  obtain u where w: "start_write ?resp ap cd ?i = Inr u" "u = ?i\<lparr>cl_requests := [RReq (login_request cd cid0 greet m)],
     cl_seed := next_msgid m, cl_reqmap := [(next_msgid m, \<lparr>start_at = t, ent_cb = OpenCb\<rparr>)],
     cl_log := cl_log ?i @ [Issued OpenCb, Posted (login_request cd cid0 greet m)]\<rparr>"
    using start_write_eq [OF assms(2) i(1,2), of ?resp cd] i by simp
  have p: "process_timeout ?resp t u = Inr u"
    by (rule empty_timeout) (use assms(3) w(2) in \<open>simp add: overdue_def not_less\<close>)
  have st: "cl_status ?e = ESTABLISHED" by (simp add: stream_established_def)
  have "update depth ap cd ?s = bindE (start_write ?resp ap cd ?i) (process_timeout ?resp t)"
    by (simp add: update_def Let_def head st)
  with w(1) p have "update depth ap cd ?s = Inr u" by simp
  then have "rpc_step depth ap cd r (Poll t rnd) = Inr (r\<lparr>owner := u\<rparr>)" by simp
  moreover have "stage INITIALIZING [RReq (login_request cd cid0 greet m)] [] [(next_msgid m, \<lparr>start_at = t, ent_cb = OpenCb\<rparr>)] ops False True n w
       (next_msgid m) k (r\<lparr>owner := u\<rparr>)"
    using assms(1) by (simp add: stage_def w(2) stream_established_def)
  ultimately show ?thesis by blast
qed

lemma turn_writes_login:
  assumes "stage INITIALIZING [RReq req] reps calls [(n, tag)] False had n w m k r"
  shows "\<exists>r'. rpc_step depth ap cd r (Turn NextTimeout) = Inr r' \<and>
     stage INITIALIZING [] reps calls [(n, tag), (n, generate_write_tag (rq_msgid req))] True had n (w @ [(n, req)]) m k r'"
  using assms by (simp add: stage_def io_idle_def pop_request_def stream_write_def start_op_def)

lemma turn_written:
  assumes "stage INITIALIZING [] reps calls [(n, tag), (n, generate_write_tag i)] True had n w m k r"
  shows "\<exists>r'. rpc_step depth ap cd r (Turn (GotEvent 1 True x)) = Inr r' \<and>
     stage INITIALIZING [] reps calls [(n, tag)] False had n w m k r'"
  using assms by (simp add: stage_def handle_event_def write_done_def pop_request_def)

lemma turn_reads:
  assumes "stage INITIALIZING [] [] calls [(n, generate_read_tag n)] False True n w m k r"
  shows "\<exists>r'. rpc_step depth ap cd r (Turn (GotEvent 0 True rep)) = Inr r' \<and>
     stage INITIALIZING [] [RReply rep] calls [(n, generate_read_tag n)] False True n w m k r'"
  using assms
  by (simp add: stage_def handle_event_def read_done_def io_read_def start_op_def push_reply_def tq_enqueue_def Let_def)

lemma poll_opens:
  assumes "stage INITIALIZING [] [RReply rep] [(rp_msgid rep, \<lparr>start_at = t0, ent_cb = OpenCb\<rparr>)] ops False True n w m k r"
    and "willing ap cid0 greet" and "rp_msgid rep \<noteq> 0" and "rp_error rep = None" and "sint (rp_type rep) \<ge> 0"
    and "dec_connect cd (rp_payload rep) = Some c" and "depth > 0"
  shows "\<exists>r'. rpc_step depth ap cd r (Poll t rnd) = Inr r' \<and>
     stage CONNECT [] [] [] ops False True n w m (merge_connect k c) r' \<and> cl_cid (owner r') = cn_id (merge_connect k c)"
proof -
  let ?s = "(owner r)\<lparr>cl_now := t, cl_rand := rnd\<rparr>" and ?resp = "respond depth ap cd"
  obtain d where d: "depth = Suc d" using assms(7) by (cases depth) auto
  let ?a = "log_out (Answered OpenCb (sint (rp_type rep)) (rp_payload rep)) (?s\<lparr>cl_replys := [], cl_reqmap := []\<rparr>)"
  let ?u = "?a\<lparr>cl_crep := merge_connect k c, cl_cid := cn_id (merge_connect k c), cl_status := CONNECT\<rparr>"
  have k: "cl_crep ?a = k" using assms(1) by (simp add: stage_def log_out_def)
  have one: "process_one ?resp rep (?s\<lparr>cl_replys := []\<rparr>) = Inr ?u"
    using assms k
    by (simp add: process_one_def stage_def d Let_def open_callback_def on_open_stream_def unpack_def call_on_connect_def willing_def)
  have "update_head ?resp ap ?s = Inr ?u"
    using assms(1,2) one by (simp add: update_head_def cl_ready_def willing_def stage_def)
  moreover have "process_timeout ?resp t ?u = Inr ?u" by (rule empty_timeout) simp
  ultimately have "update depth ap cd ?s = Inr ?u" by (simp add: update_def Let_def)
  then have "rpc_step depth ap cd r (Poll t rnd) = Inr (r\<lparr>owner := ?u\<rparr>)" by simp
  moreover have "stage CONNECT [] [] [] ops False True n w m (merge_connect k c) (r\<lparr>owner := ?u\<rparr>)"
    using assms(1) by (simp add: stage_def log_out_def)
  ultimately show ?thesis by force
qed

section \<open>The whole login\<close>

text \<open>The events of a login: four polls and turns of the thread; \<open>rep\<close> is what the server answers.\<close>

definition login_events :: "u64 \<Rightarrow> u64 \<Rightarrow> u64 \<Rightarrow> nat \<Rightarrow> reply \<Rightarrow> rpc_event list" where
  "login_events t0 t1 t2 rnd rep = [Poll t0 rnd, Turn NextTimeout, Turn (GotEvent 0 True new_reply), Poll t1 rnd, Turn NextTimeout,
     Turn (GotEvent 1 True new_reply), Turn (GotEvent 0 True rep), Poll t2 rnd]"

lemma login_stages:
  assumes "at_rest n w m k r" and "willing ap cid0 greet" and "cl_when (owner r) \<le> t0" and "t1 \<le> t1 + TIMEOUT_DURATION"
    and "unat m < 2000000000" and "depth > 0" and "rp_msgid rep = next_msgid m" and "rp_error rep = None" and "sint (rp_type rep) \<ge> 0"
    and "dec_connect cd (rp_payload rep) = Some c"
  shows "\<exists>r'. run_steps (rpc_step depth ap cd) r (login_events t0 t1 t2 rnd rep) = Inr r' \<and>
     stage CONNECT [] [] [] [(n + 1, generate_read_tag (n + 1))] False True (n + 1) (w @ [(n + 1, login_request cd cid0 greet m)])
       (next_msgid m) (merge_connect k c) r' \<and> cl_cid (owner r') = cn_id (merge_connect k c)"
proof -
  let ?step = "rpc_step depth ap cd" and ?tag = "generate_read_tag (n + 1)" and ?req = "login_request cd cid0 greet m"
  let ?calls = "[(next_msgid m, \<lparr>start_at = t1, ent_cb = OpenCb\<rparr>)]"
  have id: "rq_msgid ?req = next_msgid m" by (simp add: login_request_def)
  obtain r1 where r1: "?step r (Poll t0 rnd) = Inr r1" "stage CONNECTING [ESTABLISH_REQUEST] [] [] [] False False n w m k r1"
    using poll_connects [OF assms(1-3)] by blast
  obtain r2 where r2: "?step r1 (Turn NextTimeout) = Inr r2" "stage CONNECTING [] [] [] [(n + 1, ?tag)] False False (n + 1) w m k r2"
    using turn_opens [OF r1(2)] by blast
  obtain r3 where r3: "?step r2 (Turn (GotEvent 0 True new_reply)) = Inr r3"
      "stage CONNECTING [] [ESTABLISHED_EVENT] [] [(n + 1, ?tag)] False True (n + 1) w m k r3"
    using turn_established [OF r2(2)] by blast
  obtain r4 where r4: "?step r3 (Poll t1 rnd) = Inr r4"
      "stage INITIALIZING [RReq ?req] [] ?calls [(n + 1, ?tag)] False True (n + 1) w (next_msgid m) k r4"
    using poll_logs_in [OF r3(2) assms(2,4)] by blast
  obtain r5 where r5: "?step r4 (Turn NextTimeout) = Inr r5"
      "stage INITIALIZING [] [] ?calls [(n + 1, ?tag), (n + 1, generate_write_tag (next_msgid m))] True True (n + 1) (w @ [(n + 1, ?req)]) (next_msgid m) k r5"
    using turn_writes_login [OF r4(2)] unfolding id by blast
  obtain r6 where r6: "?step r5 (Turn (GotEvent 1 True new_reply)) = Inr r6"
      "stage INITIALIZING [] [] ?calls [(n + 1, ?tag)] False True (n + 1) (w @ [(n + 1, ?req)]) (next_msgid m) k r6"
    using turn_written [OF r5(2)] by blast
  obtain r7 where r7: "?step r6 (Turn (GotEvent 0 True rep)) = Inr r7"
      "stage INITIALIZING [] [RReply rep] ?calls [(n + 1, ?tag)] False True (n + 1) (w @ [(n + 1, ?req)]) (next_msgid m) k r7"
    using turn_reads [OF r6(2)] by blast
  have "rp_msgid rep \<noteq> 0" using next_msgid_nonzero [of m] assms(5,7) by simp
  then obtain r8 where r8: "?step r7 (Poll t2 rnd) = Inr r8"
      "stage CONNECT [] [] [] [(n + 1, ?tag)] False True (n + 1) (w @ [(n + 1, ?req)]) (next_msgid m) (merge_connect k c) r8"
      "cl_cid (owner r8) = cn_id (merge_connect k c)"
    unfolding assms(7) [symmetric] using poll_opens [OF r7(2) [folded assms(7)] assms(2) _ assms(8-10) assms(6)] by blast
  have "run_steps ?step r (login_events t0 t1 t2 rnd rep) = Inr r8"
    unfolding login_events_def run_steps.simps r1(1) r2(1) r3(1) r4(1) r5(1) r6(1) r7(1) r8(1) bindE_Inr ..
  with r8 show ?thesis by blast
qed

lemma login_runs:
  assumes "at_rest n w m k r" and "willing ap cid0 greet" and "cl_when (owner r) \<le> t0" and "t1 \<le> t1 + TIMEOUT_DURATION"
    and "unat m < 2000000000" and "depth > 0" and "rp_msgid rep = next_msgid m" and "rp_error rep = None" and "sint (rp_type rep) \<ge> 0"
    and "dec_connect cd (rp_payload rep) = Some c"
  shows "\<exists>r'. run_steps (rpc_step depth ap cd) r (login_events t0 t1 t2 rnd rep) = Inr r' \<and>
     cl_status (owner r') = CONNECT \<and> cl_cid (owner r') = cn_id (merge_connect k c) \<and> cl_crep (owner r') = merge_connect k c \<and>
     cl_reqmap (owner r') = [] \<and> io_seq (iothr r') = n + 1 \<and> io_wire (iothr r') = w @ [(n + 1, login_request cd cid0 greet m)]"
  using login_stages [OF assms, of t2 rnd] by (auto simp: stage_def)

text \<open>
  From no connection, whenever the time has come, a willing application and a server that accepts bring the client to
  \<open>CONNECT\<close>: it opens a new stream, writes its login request there as the only one, and takes the
  id and the text of the answer.
\<close>

theorem login_completes:
  assumes "at_rest n w m k r" and "willing ap cid0 greet" and "cl_when (owner r) \<le> t0" and "t1 \<le> t1 + TIMEOUT_DURATION"
    and "unat m < 2000000000" and "depth > 0" and "rp_msgid rep = next_msgid m" and "rp_error rep = None" and "sint (rp_type rep) \<ge> 0"
    and "dec_connect cd (rp_payload rep) = Some c"
  shows "\<exists>r'. run_steps (rpc_step depth ap cd) r (login_events t0 t1 t2 rnd rep) = Inr r' \<and>
     cl_status (owner r') = CONNECT \<and> cl_cid (owner r') = cn_id (merge_connect k c) \<and> cl_crep (owner r') = merge_connect k c \<and>
     cl_reqmap (owner r') = [] \<and> io_seq (iothr r') = n + 1 \<and> io_wire (iothr r') = w @ [(n + 1, login_request cd cid0 greet m)]"
  by (rule login_runs [OF assms])

theorem login_completes_witness:
  "\<exists>r'. run_steps (rpc_step 2 demo_app demo_codec) (new_rpc ''host'' None)
      (login_events 1 2 3 0 (new_reply\<lparr>rp_msgid := 1, rp_payload := enc_connect demo_codec \<lparr>cn_id = 7, cn_payload = ''hi''\<rparr>\<rparr>)) = Inr r' \<and>
     cl_status (owner r') = CONNECT \<and> cl_cid (owner r') = 7"
proof -
  let ?rep = "new_reply\<lparr>rp_msgid := 1, rp_payload := enc_connect demo_codec \<lparr>cn_id = 7, cn_payload = ''hi''\<rparr>\<rparr>"
  have "willing demo_app 7 ''me''" by (simp add: willing_def demo_app_def)
  moreover have "cl_when (owner (new_rpc ''host'' None)) \<le> 1" by (simp add: new_client_def)
  moreover have "(2 :: u64) \<le> 2 + TIMEOUT_DURATION" by (simp add: TIMEOUT_DURATION_def sec_def)
  moreover have "rp_msgid ?rep = next_msgid 0" by (simp add: next_msgid_def)
  moreover have "dec_connect demo_codec (rp_payload ?rep) = Some \<lparr>cn_id = 7, cn_payload = ''hi''\<rparr>"
    using demo_codec_ok by (simp add: codec_ok_def)
  ultimately show ?thesis
    using login_completes [OF new_rpc_at_rest, of demo_app 7 "''me''" "''host''" None 1 2 2 ?rep demo_codec _ 3 0]
    by (force simp: new_reply_def merge_new_connect)
qed

text \<open>
  What the application is told of an answer without a text is the text of an earlier login: the answer is
  merged into the message that the client keeps.
\<close>

theorem stale_login_text:
  assumes "dec_connect cd p = Some \<lparr>cn_id = cid, cn_payload = []\<rparr>" and "cid \<noteq> 0" and "r \<ge> 0"
  shows "on_open_stream resp ap cd r p s =
    call_on_connect resp ap cid (cn_payload (cl_crep s))
      (s\<lparr>cl_crep := \<lparr>cn_id = cid, cn_payload = cn_payload (cl_crep s)\<rparr>, cl_cid := cid\<rparr>)"
  using assms by (simp add: on_open_stream_def unpack_def merge_connect_def Let_def)

section \<open>Stopping\<close>

text \<open>
  Stopping looks at the thread at most 21 times, a tenth of a second apart, and then ends it: afterwards it makes no
  more turn, whatever gRPC does.
\<close>

lemma stop_wait_ends: "cnt \<le> 20 \<Longrightarrow> length looks > 20 - cnt \<Longrightarrow> \<exists>k alive. stop_wait cnt looks = Some (k, alive) \<and> k \<le> 20"
proof (induction looks arbitrary: cnt)
  case (Cons a looks)
  then show ?case by (cases "cnt < 20 \<and> a") auto
qed simp

theorem stop_ends:
  assumes "length looks > 20"
  shows "(\<exists>k alive. stop_wait 0 looks = Some (k, alive) \<and> k \<le> 20) \<and> rpc_step depth ap cd (stop_force r) (Turn n) = Inr (stop_force r)"
  using stop_wait_ends [of 0 looks] assms by (auto simp: stop_force_def)

end
