(* ===== verification/Login_Protocol.thy ===== *)
theory Login_Protocol
  imports Rpc_Login Server_Behaviour
begin

text \<open>
  The two halves of the protocol together: the login request that a client writes, handled by a connection of
  the server, and the reply of the server, delivered to the client.
\<close>

lemma connect_reply_fields:
  "rp_msgid (connect_reply cd i cid data) = i" "rp_error (connect_reply cd i cid data) = None"
  "rp_type (connect_reply cd i cid data) = 0"
  "rp_payload (connect_reply cd i cid data) = enc_connect cd \<lparr>cn_id = cid, cn_payload = data\<rparr>"
  by (simp_all add: connect_reply_def setup_system_reply_def new_reply_def)

text \<open>
  Property C7. When the connection has read the request that the client writes in its login, and the application on the server
  grants the id \<open>cid\<close>, then the server has the connection registered under \<open>cid\<close>, and the reply it sends
  brings the client to \<open>CONNECT\<close> with the same id. In between nothing but this request was written.
\<close>

theorem login_agrees:
  assumes "codec_ok cd"
    and "at_rest n w m k r" and "willing ap cid0 greet" and "cl_when (owner r) \<le> t0" and "t1 \<le> t1 + TIMEOUT_DURATION"
    and "unat m < 2000000000" and "depth > 0"
    and "logging_in c cn st wd" and "conn_req cn = login_request cd cid0 greet m"
    and "h_login h wd c (conn_req cn) = ([], cid, data)" and "cid \<noteq> 0"
  shows "\<exists>wd' st' r'. conn_step fuel cd h c wd = Inr wd' \<and> cmap wd' cid = Some c \<and> streams wd' c = Some st' \<and>
     run_steps (rpc_step depth ap cd) r (login_events t0 t1 t2 rnd (last (sent_by st'))) = Inr r' \<and>
     cl_status (owner r') = CONNECT \<and> cl_cid (owner r') = cid \<and> io_wire (iothr r') = w @ [(n + 1, conn_req cn)]"
proof -
  obtain wd' st' where s: "conn_step fuel cd h c wd = Inr wd'" "cmap wd' = (cmap wd)(cid \<mapsto> c)" "streams wd' c = Some st'"
      "sent_by st' = sent_by st @ [connect_reply cd (rq_msgid (conn_req cn)) cid data]"
    using step_login_result [OF assms(8,10), of fuel cd] assms(11) by (auto simp: login_reply_def)
  let ?rep = "connect_reply cd (next_msgid m) cid data"
  have rep: "last (sent_by st') = ?rep" by (simp add: s(4) assms(9) login_request_def)
  have "dec_connect cd (rp_payload ?rep) = Some \<lparr>cn_id = cid, cn_payload = data\<rparr>"
    using assms(1) by (simp add: connect_reply_fields codec_ok_def)
  from login_runs [OF assms(2-7) _ _ _ this]
  obtain r' where "run_steps (rpc_step depth ap cd) r (login_events t0 t1 t2 rnd ?rep) = Inr r'"
      "cl_status (owner r') = CONNECT" "cl_cid (owner r') = cn_id (merge_connect k \<lparr>cn_id = cid, cn_payload = data\<rparr>)"
      "io_wire (iothr r') = w @ [(n + 1, login_request cd cid0 greet m)]"
    by (auto simp: connect_reply_fields)
  with s rep assms(9,11) show ?thesis by (auto simp: merge_connect_def)
qed

definition meeting_world :: world where
  "meeting_world = one_world\<lparr>conns := [0 \<mapsto> one_conn\<lparr>conn_req := login_request demo_codec 7 ''me'' 0\<rparr>]\<rparr>"

theorem login_agrees_witness:
  "\<exists>wd' st' r'. conn_step 1 demo_codec (demo_handler\<lparr>h_login := (\<lambda>_ _ _. ([], 7, ''welcome''))\<rparr>) 0 meeting_world = Inr wd' \<and>
     cmap wd' 7 = Some 0 \<and> streams wd' 0 = Some st' \<and>
     run_steps (rpc_step 2 demo_app demo_codec) (new_rpc ''host'' None) (login_events 1 2 3 0 (last (sent_by st'))) = Inr r' \<and>
     cl_cid (owner r') = 7"
proof -
  let ?h = "demo_handler\<lparr>h_login := (\<lambda>_ _ _. ([], 7, ''welcome''))\<rparr>" and ?cn = "one_conn\<lparr>conn_req := login_request demo_codec 7 ''me'' 0\<rparr>"
  have "logging_in 0 ?cn one_stream meeting_world"
    using one_world_logging_in by (simp add: logging_in_def meeting_world_def one_world_def login_request_def)
  moreover have "conn_req ?cn = login_request demo_codec 7 ''me'' 0" by simp
  moreover have "h_login ?h meeting_world 0 (conn_req ?cn) = ([], 7, ''welcome'')" by simp
  moreover have "willing demo_app 7 ''me''" by (simp add: willing_def demo_app_def)
  moreover have "cl_when (owner (new_rpc ''host'' None)) \<le> 1" by (simp add: new_client_def)
  moreover have "(2 :: u64) \<le> 2 + TIMEOUT_DURATION" by (simp add: TIMEOUT_DURATION_def sec_def)
  ultimately show ?thesis
    using login_agrees [OF demo_codec_ok new_rpc_at_rest, of demo_app 7 "''me''" "''host''" None 1 2 2 0 ?cn one_stream meeting_world ?h 7 "''welcome''" 1 3 0]
    by fastforce
qed

end
