(* ===== verification/Call_Client.thy ===== *)
theory Call_Client
  imports Login_Protocol
begin

text \<open>
  The client's half of a session of calls: from the moment it is connected, which calls were made, which replies were
  handed to which callbacks, and which calls still wait, kept by every operation of the application's thread. The
  application may make calls from its callbacks.
\<close>

section \<open>Calls and their answers\<close>

text \<open>
  A call is its request together with the number of its callback. The \<open>j\<close>-th call of a session which starts with the id
  \<open>m\<close> as the last one given has the id \<open>m + j + 1\<close>.
\<close>

type_synonym a_call = "request \<times> nat"

definition call_id :: "nat \<Rightarrow> nat \<Rightarrow> u32" where
  "call_id m j = word_of_nat (m + j + 1)"

fun answer_of :: "cl_out \<Rightarrow> (callback \<times> int \<times> string) list" where
  "answer_of (Answered cb r p) = [(cb, r, p)]"
| "answer_of _ = []"

fun issue_of :: "cl_out \<Rightarrow> callback list" where
  "issue_of (Issued cb) = [cb]"
| "issue_of _ = []"

definition answers_in :: "cl_out list \<Rightarrow> (callback \<times> int \<times> string) list" where
  "answers_in L = concat (map answer_of L)"

text \<open>\<open>made L C\<close>: the calls made according to the history \<open>L\<close>.\<close>

definition made :: "cl_out list \<Rightarrow> a_call list \<Rightarrow> bool" where
  "made L C \<longleftrightarrow> concat (map posted_by L) = map fst C \<and> concat (map issue_of L) = map (AppCb \<circ> snd) C"

text \<open>
  The right answer to the \<open>i\<close>-th call: what the service \<open>svc\<close> answers to its type and text, or a time-out, if two of
  the times \<open>W\<close> are that far apart.
\<close>

definition far_apart :: "u64 set \<Rightarrow> bool" where
  "far_apart W \<longleftrightarrow> (\<exists>u \<in> W. \<exists>v \<in> W. u + TIMEOUT_DURATION < v)"

definition right_answer :: "(u32 \<Rightarrow> string \<Rightarrow> string) \<Rightarrow> u64 set \<Rightarrow> a_call list \<Rightarrow> nat \<Rightarrow> callback \<times> int \<times> string \<Rightarrow> bool" where
  "right_answer svc W C i a \<longleftrightarrow> i < length C \<and>
     (a = (AppCb (snd (C ! i)), 0, svc (rq_type (fst (C ! i))) (rq_payload (fst (C ! i)))) \<or>
      far_apart W \<and> a = (AppCb (snd (C ! i)), mtk_error_value MTK_TIMEOUT, []))"

lemma right_answer_more: "right_answer svc W C i a \<Longrightarrow> right_answer svc W (C @ X) i a"
  by (simp add: right_answer_def nth_append)

text \<open>The waiting calls are those whose index is not in \<open>A\<close>.\<close>

definition still_waiting :: "nat \<Rightarrow> u64 set \<Rightarrow> a_call list \<Rightarrow> nat set \<Rightarrow> (u32 \<times> sentry) list \<Rightarrow> bool" where
  "still_waiting m W C A rm \<longleftrightarrow> ordered rm \<and>
     (\<forall>(k, e) \<in> set rm. \<exists>j < length C. j \<notin> A \<and> k = call_id m j \<and> ent_cb e = AppCb (snd (C ! j)) \<and> start_at e \<in> W) \<and>
     (\<forall>j < length C. j \<notin> A \<longrightarrow> call_id m j \<in> fst ` set rm)"

definition numbered :: "nat \<Rightarrow> a_call list \<Rightarrow> bool" where
  "numbered m C \<longleftrightarrow> m + length C \<le> 1999999999 \<and> (\<forall>j < length C. rq_msgid (fst (C ! j)) = call_id m j \<and> rq_kind (fst (C ! j)) = Normal)"

text \<open>
  \<open>talking svc W m log0 C A Q s\<close>: since the history was \<open>log0\<close>, the calls \<open>C\<close> were made, those with the indices \<open>A\<close> were
  answered in this order, and those of \<open>Q\<close> are owed an answer, being off the map.
\<close>

definition talking :: "(u32 \<Rightarrow> string \<Rightarrow> string) \<Rightarrow> u64 set \<Rightarrow> nat \<Rightarrow> cl_out list \<Rightarrow> a_call list \<Rightarrow> nat list \<Rightarrow> nat list \<Rightarrow> client \<Rightarrow> bool" where
  "talking svc W m log0 C A Q s \<longleftrightarrow> cl_status s = CONNECT \<and> \<not> cl_restarting s \<and>
     (\<exists>L. cl_log s = log0 @ L \<and> made L C \<and> list_all2 (right_answer svc W C) A (answers_in L)) \<and>
     numbered m C \<and> cl_seed s = word_of_nat (m + length C) \<and> still_waiting m W C (set (A @ Q)) (cl_reqmap s) \<and>
     distinct (A @ Q) \<and> set Q \<subseteq> {..<length C}"

lemma unat_small_nat: "n < 2 ^ 32 \<Longrightarrow> unat (word_of_nat n :: u32) = n"
  by (simp add: unsigned_of_nat take_bit_nat_eq_self)

lemma call_id_unat: "m + j < 2000000000 \<Longrightarrow> unat (call_id m j) = m + j + 1"
  unfolding call_id_def by (rule unat_small_nat) simp

lemma call_id_eq:
  assumes "m + i < 2000000000" and "m + j < 2000000000"
  shows "call_id m i = call_id m j \<longleftrightarrow> i = j"
  using call_id_unat [OF assms(1)] call_id_unat [OF assms(2)] by (metis add.commute add_left_cancel)

lemma call_id_nonzero:
  assumes "m + j < 2000000000"
  shows "call_id m j \<noteq> 0"
  using call_id_unat [OF assms] by (metis Suc_eq_plus1 nat.distinct(1) unsigned_0)

lemma next_msgid_small:
  assumes "n < 1999999999"
  shows "next_msgid (word_of_nat n) = word_of_nat (n + 1)"
proof -
  have u: "unat (word_of_nat n :: u32) = n" by (rule unat_small_nat) (use assms in simp)
  have "unat (next_msgid (word_of_nat n)) = n + 1"
    using next_msgid_nat [of "word_of_nat n"] assms by (simp add: u)
  also have "\<dots> = unat (word_of_nat (n + 1) :: u32)" by (rule unat_small_nat [symmetric]) (use assms in simp)
  finally show ?thesis by (rule unsigned_word_eqI)
qed

lemma next_call_id: "m + j < 1999999999 \<Longrightarrow> next_msgid (word_of_nat (m + j)) = call_id m j"
  unfolding call_id_def by (rule next_msgid_small)

lemma answered_indices: "talking svc W m log0 C A Q s \<Longrightarrow> set A \<subseteq> {..<length C}"
  by (auto simp: talking_def right_answer_def list_all2_conv_all_nth in_set_conv_nth)

section \<open>Calls\<close>

lemma still_waiting_call:
  assumes "still_waiting m W C A rm" and "A \<subseteq> {..<length C}" and "m + length C < 1999999999" and "t \<in> W"
  shows "omap_find rm (call_id m (length C)) = None"
    and "still_waiting m W (C @ [(q, k)]) A (omap_set (call_id m (length C)) \<lparr>start_at = t, ent_cb = AppCb k\<rparr> rm)"
proof -
  let ?e = "\<lparr>start_at = t, ent_cb = AppCb k\<rparr>" and ?k = "call_id m (length C)"
  have "?k \<notin> fst ` set rm"
  proof
    assume "?k \<in> fst ` set rm"
    then obtain j where "j < length C" "?k = call_id m j" using assms(1) by (auto simp: still_waiting_def)
    with assms(3) show False by (simp add: call_id_eq)
  qed
  then show none: "omap_find rm ?k = None" by (simp add: omap_find_None)
  have entries: "x \<in> set rm \<or> x = (?k, ?e)" if "x \<in> set (omap_set ?k ?e rm)" for x
    using that by (induction rm) (auto split: if_splits)
  have "\<exists>j < length (C @ [(q, k)]). j \<notin> A \<and> k' = call_id m j \<and> ent_cb e = AppCb (snd ((C @ [(q, k)]) ! j)) \<and> start_at e \<in> W"
    if "(k', e) \<in> set (omap_set ?k ?e rm)" for k' e
  proof (cases "(k', e) \<in> set rm")
    case True
    then obtain j where "j < length C" "j \<notin> A" "k' = call_id m j" "ent_cb e = AppCb (snd (C ! j))" "start_at e \<in> W"
      using assms(1) by (auto simp: still_waiting_def)
    then show ?thesis by (intro exI [of _ j]) (simp add: nth_append)
  next
    case False
    then have "k' = ?k" "e = ?e" using entries [OF that] by simp_all
    then show ?thesis using assms(2,4) by (intro exI [of _ "length C"]) auto
  qed
  then show "still_waiting m W (C @ [(q, k)]) A (omap_set ?k ?e rm)"
    using assms(1) by (auto simp: still_waiting_def ordered_set omap_set_keys less_Suc_eq simp del: image_iff)
qed

lemma made_call: "made L C \<Longrightarrow> made (L @ [Issued (AppCb k), Posted q]) (C @ [(q, k)])"
  by (simp add: made_def)

lemma made_answer: "made L C \<Longrightarrow> made (L @ [Answered cb r p]) C"
  by (simp add: made_def)

lemma answers_in_append [simp]: "answers_in (L @ L') = answers_in L @ answers_in L'"
  by (simp add: answers_in_def)

text \<open>What an operation leaves: calls \<open>X\<close> were made, their requests are in the queue, the replies are untouched.\<close>

definition calls_put :: "client \<Rightarrow> a_call list \<Rightarrow> client \<Rightarrow> bool" where
  "calls_put s X s1 \<longleftrightarrow> cl_requests s1 = cl_requests s @ map (RReq \<circ> fst) X \<and> cl_replys s1 = cl_replys s \<and> cl_started s1 = cl_started s \<and>
     cl_now s1 = cl_now s"

lemma calls_put_refl: "calls_put s [] s"
  by (simp add: calls_put_def)

lemma calls_put_trans: "calls_put s X t \<Longrightarrow> calls_put t Y u \<Longrightarrow> calls_put s (X @ Y) u"
  by (simp add: calls_put_def)

lemma talk_call:
  assumes "talking svc W m log0 C A Q s" and "m + length C < 1999999999" and "cl_now s \<in> W"
  shows "\<exists>q s1. call_typed resp type p (AppCb k) USE_DEFAULT s = Inr s1 \<and> talking svc W m log0 (C @ [(q, k)]) A Q s1 \<and>
    q = call_request type p s \<and> calls_put s [(q, k)] s1"
proof -
  let ?q = "call_request type p s" and ?C = "C @ [(call_request type p s, k)]"
  let ?s1 = "register_call (new_request\<lparr>rq_type := type, rq_payload := p\<rparr>) (AppCb k) (log_out (Issued (AppCb k)) s)"
  have st: "cl_status s = CONNECT" "\<not> cl_restarting s" "numbered m C" "cl_seed s = word_of_nat (m + length C)"
      "still_waiting m W C (set (A @ Q)) (cl_reqmap s)" "distinct (A @ Q)" "set Q \<subseteq> {..<length C}"
    using assms(1) by (simp_all add: talking_def)
  obtain L where L: "cl_log s = log0 @ L" "made L C" "list_all2 (right_answer svc W C) A (answers_in L)"
    using assms(1) by (auto simp: talking_def)
  have id: "next_msgid (cl_seed s) = call_id m (length C)" using next_call_id [of m "length C"] assms(2) st(4) by simp
  have A: "set (A @ Q) \<subseteq> {..<length C}" using answered_indices [OF assms(1)] st(7) by auto
  note wait = still_waiting_call [OF st(5) A assms(2,3)]
  have call: "call_typed resp type p (AppCb k) USE_DEFAULT s = Inr ?s1"
    using st(1) by (simp add: call_typed_def call_msg_def register_call_def new_msg_id_def Let_def)
  have q: "?q = new_request\<lparr>rq_type := type, rq_payload := p, rq_msgid := call_id m (length C)\<rparr>"
    by (simp add: call_request_def id)
  have log: "cl_log ?s1 = log0 @ (L @ [Issued (AppCb k), Posted ?q])"
    using L(1) wait(1) by (simp add: register_call_facts id q)
  have keep: "cl_restarting ?s1 = cl_restarting s" "cl_now ?s1 = cl_now s" "cl_replys ?s1 = cl_replys s" "cl_started ?s1 = cl_started s"
    by (simp_all add: register_call_def add_entry_def Let_def log_out_def push_request_def split: option.split)
  have "list_all2 (right_answer svc W ?C) A (answers_in L)"
    by (rule list_all2_mono [OF L(3)]) (rule right_answer_more)
  then have right: "list_all2 (right_answer svc W ?C) A (answers_in (L @ [Issued (AppCb k), Posted ?q]))"
    by (simp add: answers_in_def)
  have num: "numbered m ?C" using st(3) assms(2) by (auto simp: numbered_def nth_append less_Suc_eq q new_request_def)
  have "cl_seed ?s1 = word_of_nat (m + length ?C)" by (simp add: register_call_facts id call_id_def)
  moreover have "still_waiting m W ?C (set (A @ Q)) (cl_reqmap ?s1)" using wait(2) by (simp add: register_call_facts id)
  moreover have "set Q \<subseteq> {..<length ?C}" using st(7) by auto
  ultimately have talk: "talking svc W m log0 ?C A Q ?s1"
    unfolding talking_def using st keep log made_call [OF L(2)] right num by (auto simp: register_call_facts(3))
  have "cl_requests ?s1 = cl_requests s @ [RReq ?q]" by (simp add: register_call_facts call_request_def)
  then have "calls_put s [(?q, k)] ?s1" using keep by (simp add: calls_put_def)
  with talk show ?thesis using call by blast
qed

text \<open>
  The application: always ready, and its callbacks for messages make calls only, and none that would bring the last id
  given over \<open>N\<close>.
\<close>

definition caller :: "nat \<Rightarrow> cl_app \<Rightarrow> bool" where
  "caller N ap \<longleftrightarrow> (\<forall>s. cl_ready ap s) \<and>
     (\<forall>s k r p. (\<forall>a \<in> set (on_msg ap s k r p). \<exists>type q j. a = CallApi type q (Some j)) \<and>
       (on_msg ap s k r p \<noteq> [] \<longrightarrow> unat (cl_seed s) + length (on_msg ap s k r p) \<le> N))"

lemma caller_calls:
  assumes "caller N ap"
  shows "\<forall>a \<in> set (on_msg ap s k r p). \<exists>type q j. a = CallApi type q (Some j)"
    and "on_msg ap s k r p \<noteq> [] \<longrightarrow> unat (cl_seed s) + length (on_msg ap s k r p) \<le> N"
  using assms unfolding caller_def by blast+

lemma talk_calls:
  assumes "\<forall>a \<in> set as. \<exists>type q j. a = CallApi type q (Some j)"
  shows "talking svc W m log0 C A Q s \<Longrightarrow> as \<noteq> [] \<longrightarrow> m + length C + length as \<le> 1999999999 \<Longrightarrow> cl_now s \<in> W \<Longrightarrow>
    \<exists>X s1. run_cl_apis resp as s = Inr s1 \<and> talking svc W m log0 (C @ X) A Q s1 \<and> calls_put s X s1 \<and> length X = length as"
  using assms
proof (induction as arbitrary: C s)
  case Nil
  then show ?case by (intro exI [of _ "[]"] exI [of _ s]) (simp add: calls_put_refl)
next
  case (Cons a as)
  then obtain type p k where a: "a = CallApi type p (Some k)" by auto
  have "m + length C < 1999999999" using Cons.prems(2) by simp
  from talk_call [OF Cons.prems(1) this Cons.prems(3), of resp type p k]
  obtain q s1 where s1: "call_typed resp type p (AppCb k) USE_DEFAULT s = Inr s1" "talking svc W m log0 (C @ [(q, k)]) A Q s1"
      "calls_put s [(q, k)] s1" by blast
  obtain X s2 where s2: "run_cl_apis resp as s1 = Inr s2" "talking svc W m log0 ((C @ [(q, k)]) @ X) A Q s2" "calls_put s1 X s2"
      "length X = length as"
    using Cons.IH [OF s1(2)] Cons.prems s1(3) by (auto simp: calls_put_def)
  have "calls_put s ([(q, k)] @ X) s2" by (rule calls_put_trans [OF s1(3) s2(3)])
  then show ?case using s1(1) s2 a by (intro exI [of _ "(q, k) # X"] exI [of _ s2]) simp
qed

text \<open>An answer that is owed is given, and the application reacts to it.\<close>

lemma talk_answer:
  assumes "talking svc W m log0 C A (i # Q) s" and "right_answer svc W C i (cb, r, p)" and "caller N ap" and "N \<le> 1999999999" and "cl_now s \<in> W"
  shows "\<exists>X s1. respond (Suc n) ap cd cb r p s = Inr s1 \<and> talking svc W m log0 (C @ X) (A @ [i]) Q s1 \<and> calls_put s X s1 \<and>
    (X = [] \<or> m + length (C @ X) \<le> N)"
proof -
  let ?s = "log_out (Answered cb r p) s"
  obtain k where cb: "cb = AppCb k" using assms(2) by (auto simp: right_answer_def)
  obtain L where L: "cl_log s = log0 @ L" "made L C" "list_all2 (right_answer svc W C) A (answers_in L)"
    using assms(1) by (auto simp: talking_def)
  have "cl_log ?s = log0 @ (L @ [Answered cb r p])" using L(1) by simp
  moreover have "list_all2 (right_answer svc W C) (A @ [i]) (answers_in (L @ [Answered cb r p]))"
    using L(3) assms(2) by (auto simp: answers_in_def intro: list_all2_appendI)
  moreover have "cl_restarting ?s = cl_restarting s" by (simp add: log_out_def)
  ultimately have t: "talking svc W m log0 C (A @ [i]) Q ?s"
    using assms(1) made_answer [OF L(2)] unfolding talking_def by auto
  let ?as = "on_msg ap ?s k r p"
  note as = caller_calls [OF assms(3), of ?s k r p]
  have "m + length C \<le> 1999999999" using t by (simp add: talking_def numbered_def)
  then have "unat (cl_seed ?s) = m + length C" using t unat_small_nat [of "m + length C"] by (simp add: talking_def)
  then have "?as \<noteq> [] \<longrightarrow> m + length C + length ?as \<le> N" using as(2) by simp
  then obtain X s1 where s1: "run_cl_apis (respond n ap cd) ?as ?s = Inr s1" "talking svc W m log0 (C @ X) (A @ [i]) Q s1"
      "calls_put ?s X s1" "length X = length ?as"
    using talk_calls [OF as(1) t, of "respond n ap cd"] assms(4,5) by auto
  have "X = [] \<or> m + length (C @ X) \<le> N" using s1(4) \<open>?as \<noteq> [] \<longrightarrow> m + length C + length ?as \<le> N\<close> by auto
  moreover have "calls_put s X s1" using s1(3) by (simp add: calls_put_def log_out_def)
  ultimately show ?thesis using s1(1,2) cb by (intro exI [of _ X] exI [of _ s1]) (simp add: Let_def)
qed

section \<open>Replies\<close>

text \<open>
  What all operations below have in common: calls \<open>X\<close> are made, the indices \<open>B\<close> are among those answered at the end.
\<close>

definition talks_on :: "(u32 \<Rightarrow> string \<Rightarrow> string) \<Rightarrow> u64 set \<Rightarrow> nat \<Rightarrow> cl_out list \<Rightarrow> nat \<Rightarrow> a_call list \<Rightarrow> nat set \<Rightarrow> client \<Rightarrow>
    cl_fault + client \<Rightarrow> bool" where
  "talks_on svc W m log0 N C B s ms \<longleftrightarrow> (\<exists>X A s1. ms = Inr s1 \<and> talking svc W m log0 (C @ X) A [] s1 \<and> calls_put s X s1 \<and> B \<subseteq> set A \<and>
     (X = [] \<or> m + length (C @ X) \<le> N))"

lemma talks_on_refl: "talking svc W m log0 C A [] s \<Longrightarrow> talks_on svc W m log0 N C (set A) s (Inr s)"
  unfolding talks_on_def by (intro exI [of _ "[]"] exI [of _ A] exI [of _ s]) (simp add: calls_put_refl)

lemma talks_on_trans:
  assumes "calls_put s X t" and "X = [] \<or> m + length (C @ X) \<le> N" and "talks_on svc W m log0 N (C @ X) B t ms"
  shows "talks_on svc W m log0 N C B s ms"
proof -
  obtain Y A s1 where s1: "ms = Inr s1" "talking svc W m log0 ((C @ X) @ Y) A [] s1" "calls_put t Y s1" "B \<subseteq> set A"
      "Y = [] \<or> m + length ((C @ X) @ Y) \<le> N"
    using assms(3) unfolding talks_on_def by blast
  have "X @ Y = [] \<or> m + length (C @ X @ Y) \<le> N" using assms(2) s1(5) by auto
  with s1 calls_put_trans [OF assms(1) s1(3)] show ?thesis unfolding talks_on_def
    by (intro exI [of _ "X @ Y"] exI [of _ A] exI [of _ s1]) simp
qed

lemma still_waiting_without:
  assumes "still_waiting m W C A rm" and "\<And>j. j < length C \<Longrightarrow> call_id m j \<in> K \<longleftrightarrow> j \<in> B"
  shows "still_waiting m W C (A \<union> B) (filter (\<lambda>(k, e). k \<notin> K) rm)"
proof -
  have "ordered (filter (\<lambda>(k, e). k \<notin> K) rm)"
    using assms(1) by (auto simp: still_waiting_def sorted_wrt_map intro: sorted_wrt_filter)
  moreover have "\<exists>j < length C. j \<notin> A \<union> B \<and> k = call_id m j \<and> ent_cb e = AppCb (snd (C ! j)) \<and> start_at e \<in> W"
    if "(k, e) \<in> set (filter (\<lambda>(k, e). k \<notin> K) rm)" for k e
  proof -
    have "(k, e) \<in> set rm" "k \<notin> K" using that by auto
    then obtain j where "j < length C" "j \<notin> A" "k = call_id m j" "ent_cb e = AppCb (snd (C ! j))" "start_at e \<in> W"
      using assms(1) by (auto simp: still_waiting_def)
    then show ?thesis using assms(2) [of j] \<open>k \<notin> K\<close> by auto
  qed
  moreover have "call_id m j \<in> fst ` set (filter (\<lambda>(k, e). k \<notin> K) rm)" if j: "j < length C" "j \<notin> A \<union> B" for j
  proof -
    have "call_id m j \<in> fst ` set rm" using assms(1) j by (simp add: still_waiting_def)
    then show ?thesis using assms(2) [OF j(1)] j(2) by force
  qed
  ultimately show ?thesis by (auto simp: still_waiting_def)
qed

text \<open>The server's answer to a request.\<close>

definition reply_to :: "(u32 \<Rightarrow> string \<Rightarrow> string) \<Rightarrow> request \<Rightarrow> reply" where
  "reply_to svc q = setup_reply (rq_msgid q) (svc (rq_type q) (rq_payload q)) new_reply"

lemma reply_to_fields:
  "rp_msgid (reply_to svc q) = rq_msgid q" "rp_error (reply_to svc q) = None" "rp_type (reply_to svc q) = 0"
  "rp_payload (reply_to svc q) = svc (rq_type q) (rq_payload q)"
  by (simp_all add: reply_to_def setup_reply_def setup_payload_def new_reply_def)

lemma talk_reply:
  assumes "talking svc W m log0 C A [] s" and "i < length C" and "caller N ap" and "N \<le> 1999999999" and "cl_now s \<in> W"
  shows "talks_on svc W m log0 N C (insert i (set A)) s (process_one (respond (Suc n) ap cd) (reply_to svc (fst (C ! i))) s)"
proof -
  let ?q = "fst (C ! i)" and ?resp = "respond (Suc n) ap cd"
  have num: "numbered m C" and wait: "still_waiting m W C (set A) (cl_reqmap s)" and on: "\<not> cl_restarting s" "distinct A"
    using assms(1) by (simp_all add: talking_def)
  then have id: "rq_msgid ?q = call_id m i" "call_id m i \<noteq> 0" and few: "m + length C \<le> 1999999999"
    using assms(2) call_id_nonzero [of m i] by (auto simp: numbered_def)
  show ?thesis
  proof (cases "omap_find (cl_reqmap s) (call_id m i)")
    case None
    then have "i \<in> set A" using wait assms(2) by (auto simp: still_waiting_def omap_find_None)
    then have "insert i (set A) = set A" by blast
    with None on id talks_on_refl [OF assms(1)] show ?thesis by (simp add: process_one_def reply_to_fields)
  next
    case (Some e)
    obtain j where j: "j < length C" "j \<notin> set A" "call_id m i = call_id m j" "ent_cb e = AppCb (snd (C ! j))"
      using wait omap_find_key [OF Some] by (auto simp: still_waiting_def)
    then have ij: "j = i" using assms(2) few by (simp add: call_id_eq)
    let ?s = "s\<lparr>cl_reqmap := omap_erase (call_id m i) (cl_reqmap s)\<rparr>"
    have "still_waiting m W C (set A \<union> {i}) (cl_reqmap ?s)"
      using still_waiting_without [OF wait, of "{call_id m i}" "{i}"] assms(2) few by (simp add: omap_erase_filter call_id_eq)
    then have t: "talking svc W m log0 C A [i] ?s" using assms(1,2) j(2) ij by (simp add: talking_def)
    have right: "right_answer svc W C i (ent_cb e, 0, svc (rq_type ?q) (rq_payload ?q))"
      using assms(2) j(4) ij by (simp add: right_answer_def)
    have "process_one ?resp (reply_to svc ?q) s = ?resp (ent_cb e) 0 (svc (rq_type ?q) (rq_payload ?q)) ?s"
      using Some on id by (simp add: process_one_def reply_to_fields del: respond.simps)
    moreover obtain X s1 where "?resp (ent_cb e) 0 (svc (rq_type ?q) (rq_payload ?q)) ?s = Inr s1"
        "talking svc W m log0 (C @ X) (A @ [i]) [] s1" "calls_put ?s X s1" "X = [] \<or> m + length (C @ X) \<le> N"
      using talk_answer [OF t right assms(3,4), of n cd] assms(5) by auto
    ultimately show ?thesis unfolding talks_on_def
      by (intro exI [of _ X] exI [of _ "A @ [i]"] exI [of _ s1]) (auto simp: calls_put_def)
  qed
qed

section \<open>Timeouts\<close>

lemma talk_owed:
  assumes "caller N ap" and "N \<le> 1999999999"
  shows "talking svc W m log0 C A Q s \<Longrightarrow> list_all2 (\<lambda>i e. i < length C \<and> ent_cb e = AppCb (snd (C ! i))) Q es \<Longrightarrow> es \<noteq> [] \<longrightarrow> far_apart W \<Longrightarrow>
    cl_now s \<in> W \<Longrightarrow>
    talks_on svc W m log0 N C (set A) s (respond_timeouts (respond (Suc n) ap cd) es s)"
proof (induction es arbitrary: C A Q s)
  case Nil
  then show ?case using talks_on_refl [of svc W m log0 C A s N] by simp
next
  case (Cons e es)
  let ?resp = "respond (Suc n) ap cd"
  obtain i Q' where Q: "Q = i # Q'" "i < length C" "ent_cb e = AppCb (snd (C ! i))"
      "list_all2 (\<lambda>i e. i < length C \<and> ent_cb e = AppCb (snd (C ! i))) Q' es"
    using Cons.prems(2) by (auto simp: list_all2_Cons2)
  have "right_answer svc W C i (ent_cb e, mtk_error_value MTK_TIMEOUT, [])" using Q Cons.prems(3) by (simp add: right_answer_def)
  from talk_answer [OF Cons.prems(1) [unfolded Q(1)] this assms Cons.prems(4), of n cd]
  obtain X s1 where s1: "respond_error ?resp (ent_cb e) MTK_TIMEOUT s = Inr s1" "talking svc W m log0 (C @ X) (A @ [i]) Q' s1"
      "calls_put s X s1" "X = [] \<or> m + length (C @ X) \<le> N"
    by (auto simp: respond_error_def static_error_def simp del: respond.simps)
  have "list_all2 (\<lambda>i e. i < length (C @ X) \<and> ent_cb e = AppCb (snd ((C @ X) ! i))) Q' es"
    by (rule list_all2_mono [OF Q(4)]) (simp add: nth_append)
  then have "talks_on svc W m log0 N (C @ X) (set (A @ [i])) s1 (respond_timeouts ?resp es s1)"
    using Cons.IH [OF s1(2)] Cons.prems(3,4) s1(3) by (simp add: calls_put_def)
  then have "talks_on svc W m log0 N C (set (A @ [i])) s (respond_timeouts ?resp es s1)" by (rule talks_on_trans [OF s1(3,4)])
  then show ?case using s1(1) by (auto simp: talks_on_def simp del: respond.simps)
qed

lemma talk_timeouts:
  assumes "talking svc W m log0 C A [] s" and "caller N ap" and "N \<le> 1999999999" and "now \<in> W" and "cl_now s \<in> W"
  shows "talks_on svc W m log0 N C (set A) s (process_timeout (respond (Suc n) ap cd) now s)"
proof -
  let ?rm = "cl_reqmap s" and ?late = "late now s"
  let ?s = "s\<lparr>cl_reqmap := erase_all (map fst ?late) ?rm\<rparr>"
  have wait: "still_waiting m W C (set A) ?rm" and num: "numbered m C" "distinct A" using assms(1) by (simp_all add: talking_def)
  have "\<forall>x \<in> set ?late. \<exists>j. j < length C \<and> j \<notin> set A \<and> fst x = call_id m j \<and> ent_cb (snd x) = AppCb (snd (C ! j)) \<and> start_at (snd x) \<in> W"
    using wait by (fastforce simp: still_waiting_def late_def)
  then obtain f where f: "\<forall>x \<in> set ?late. f x < length C \<and> f x \<notin> set A \<and> fst x = call_id m (f x) \<and> ent_cb (snd x) = AppCb (snd (C ! f x)) \<and>
      start_at (snd x) \<in> W" by metis
  let ?Q = "map f ?late"
  have keys: "map fst ?late = map (call_id m) ?Q" using f by simp
  have "distinct (map fst ?rm)" using wait by (auto simp: still_waiting_def strict_sorted_iff)
  then have "distinct (map fst ?late)" by (simp add: late_def distinct_map_filter)
  then have d: "distinct ?Q" unfolding keys by (auto simp: distinct_map dest: inj_on_imageI2)
  have mem: "call_id m j \<in> set (map fst ?late) \<longleftrightarrow> j \<in> set ?Q" if "j < length C" for j
  proof -
    have "call_id m j = call_id m i \<longleftrightarrow> j = i" if "i \<in> set ?Q" for i
      using that \<open>j < length C\<close> f num(1) by (intro call_id_eq) (auto simp: numbered_def)
    then show ?thesis unfolding keys set_map [of "call_id m"] by blast
  qed
  have "still_waiting m W C (set (A @ ?Q)) (cl_reqmap ?s)"
    using still_waiting_without [OF wait mem] by (simp add: erase_all_filter)
  then have t: "talking svc W m log0 C A ?Q ?s" using assms(1) d f num(2) by (auto simp: talking_def)
  have all: "list_all2 (\<lambda>i e. i < length C \<and> ent_cb e = AppCb (snd (C ! i))) ?Q (map snd ?late)"
    using f by (auto simp: list_all2_map1 list_all2_map2 list_all2_same)
  have "map snd ?late \<noteq> [] \<longrightarrow> far_apart W"
  proof
    assume "map snd ?late \<noteq> []"
    then obtain x where x: "x \<in> set ?late" by (cases ?late) auto
    then have "start_at (snd x) + TIMEOUT_DURATION < now" by (auto simp: late_def overdue_def)
    moreover have "start_at (snd x) \<in> W" using f x by blast
    ultimately show "far_apart W" using assms(4) by (auto simp: far_apart_def)
  qed
  from talk_owed [OF assms(2,3) t all this, of n cd] assms(5) show ?thesis
    by (simp add: process_timeout_def late_def talks_on_def calls_put_def Let_def del: respond.simps)
qed

section \<open>The poll\<close>

lemma talking_replys [simp]: "talking svc W m log0 C A Q (s\<lparr>cl_replys := x\<rparr>) = talking svc W m log0 C A Q s"
  by (simp add: talking_def)

lemma talks_onD:
  assumes "talks_on svc W m log0 N C B s ms"
  obtains X A t where "ms = Inr t" and "talking svc W m log0 (C @ X) A [] t" and "calls_put s X t" and "B \<subseteq> set A"
    and "X = [] \<or> m + length (C @ X) \<le> N"
  using assms unfolding talks_on_def by blast

lemma talks_on_less: "talks_on svc W m log0 N C B s ms \<Longrightarrow> B' \<subseteq> B \<Longrightarrow> talks_on svc W m log0 N C B' s ms"
  by (blast elim: talks_onD intro: talks_on_def [THEN iffD2])

lemma talk_replies:
  assumes "caller N ap" and "N \<le> 1999999999"
  shows "talking svc W m log0 C A [] s \<Longrightarrow> cl_replys s = map (\<lambda>i. RReply (reply_to svc (fst (C ! i)))) js \<Longrightarrow> set js \<subseteq> {..<length C} \<Longrightarrow>
    length js < k \<Longrightarrow> cl_now s \<in> W \<Longrightarrow>
    talks_on svc W m log0 N C (set A \<union> set js) (s\<lparr>cl_replys := []\<rparr>) (process_reply k (respond (Suc n) ap cd) ap s)"
proof (induction js arbitrary: C A s k)
  case Nil
  then have "process_reply k (respond (Suc n) ap cd) ap s = Inr (s\<lparr>cl_replys := []\<rparr>)" by (cases k) auto
  moreover have "talking svc W m log0 C A [] (s\<lparr>cl_replys := []\<rparr>)" using Nil.prems(1) by simp
  ultimately show ?case using talks_on_refl by fastforce
next
  case (Cons i js)
  let ?resp = "respond (Suc n) ap cd" and ?rest = "map (\<lambda>i. RReply (reply_to svc (fst (C ! i)))) js"
  let ?s = "s\<lparr>cl_replys := ?rest\<rparr>"
  obtain k' where k: "k = Suc k'" "length js < k'" using Cons.prems(4) by (cases k) auto
  have "talks_on svc W m log0 N C (insert i (set A)) ?s (process_one ?resp (reply_to svc (fst (C ! i))) ?s)"
    by (rule talk_reply) (use Cons.prems assms in auto)
  then obtain X A' t where t: "process_one ?resp (reply_to svc (fst (C ! i))) ?s = Inr t" "talking svc W m log0 (C @ X) A' [] t"
      "calls_put ?s X t" "insert i (set A) \<subseteq> set A'" "X = [] \<or> m + length (C @ X) \<le> N"
    by (rule talks_onD)
  have "cl_replys t = map (\<lambda>i. RReply (reply_to svc (fst ((C @ X) ! i)))) js"
    using t(3) Cons.prems(3) by (auto simp: calls_put_def nth_append)
  then have "talks_on svc W m log0 N (C @ X) (set A' \<union> set js) (t\<lparr>cl_replys := []\<rparr>) (process_reply k' ?resp ap t)"
    by (rule Cons.IH [OF t(2)]) (use Cons.prems(3,5) k(2) t(3) in \<open>auto simp: calls_put_def\<close>)
  then have "talks_on svc W m log0 N C (set A' \<union> set js) (s\<lparr>cl_replys := []\<rparr>) (process_reply k' ?resp ap t)"
    by (rule talks_on_trans [OF _ t(5), rotated]) (use t(3) in \<open>simp add: calls_put_def\<close>)
  moreover have "process_reply k ?resp ap s = process_reply k' ?resp ap t"
    using Cons.prems(2) k(1) t(1) by (simp add: Let_def del: respond.simps)
  moreover have "set A \<union> set (i # js) \<subseteq> set A' \<union> set js" using t(4) by auto
  ultimately show ?case by (simp only: talks_on_less)
qed

lemma talk_poll:
  assumes "talking svc W m log0 C A [] s" and "cl_replys s = map (\<lambda>i. RReply (reply_to svc (fst (C ! i)))) js" and "set js \<subseteq> {..<length C}"
    and "caller N ap" and "N \<le> 1999999999" and "cl_now s \<in> W"
  shows "talks_on svc W m log0 N C (set A \<union> set js) (s\<lparr>cl_replys := []\<rparr>) (update (Suc n) ap cd s)"
proof -
  let ?resp = "respond (Suc n) ap cd"
  have head: "update_head ?resp ap s = process_reply (length (cl_replys s) + 1) ?resp ap s"
    using assms(4) by (simp add: update_head_def caller_def)
  have "talks_on svc W m log0 N C (set A \<union> set js) (s\<lparr>cl_replys := []\<rparr>) (update_head ?resp ap s)"
    unfolding head by (rule talk_replies [OF assms(4,5,1,2,3)]) (simp_all add: assms(2,6))
  then obtain X A' t where t: "update_head ?resp ap s = Inr t" "talking svc W m log0 (C @ X) A' [] t"
      "calls_put (s\<lparr>cl_replys := []\<rparr>) X t" "set A \<union> set js \<subseteq> set A'" "X = [] \<or> m + length (C @ X) \<le> N"
    by (rule talks_onD)
  have "cl_now s \<in> W" "cl_now t \<in> W" "cl_status t = CONNECT" using assms(6) t(2,3) by (simp_all add: talking_def calls_put_def)
  then have "talks_on svc W m log0 N (C @ X) (set A') t (update (Suc n) ap cd s)"
    using talk_timeouts [OF t(2) assms(4,5), of "cl_now s" n cd] t(1) by (simp add: update_def Let_def del: respond.simps)
  then show ?thesis using talks_on_trans [OF t(3,5)] t(4) talks_on_less by blast
qed

end
