(* ===== verification/Call_Session.thy ===== *)
theory Call_Session
  imports Call_Client
begin

text \<open>
  A client and its connection on the server together: calls go from the application of the one to the handler of the
  other and their answers back, through both queues of the client, its input/output thread, gRPC, the stream on the
  server and its queue. gRPC carries requests and replies in order, each when it likes; all else may interleave.
\<close>

section \<open>The two ends\<close>

text \<open>
  The client, the server, and how many of the requests and replies written at one end have arrived at the other.
\<close>

record link =
  client_end :: rpc
  server_end :: world
  reqs_read :: nat
  reps_read :: nat

text \<open>
  What happens: a call of the application, its poll, a turn of the client's thread without an event, a write completed
  and a reply read there, a request read and a write completed on the server. \<open>i\<close> is which of the operations started with gRPC is
  completed; nothing happens when it is not one that can be.
\<close>

datatype link_event =
    CallMade u64 u32 string nat
  | Polled u64 nat
  | LoopTurned
  | RequestWritten nat
  | ReplyRead nat
  | RequestRead nat
  | ReplyWritten nat

type_synonym link_fault = "cl_fault + conn_fault"

definition at_client :: "cl_fault + rpc \<Rightarrow> link \<Rightarrow> link_fault + link" where
  "at_client m L = (case m of Inl f \<Rightarrow> Inl (Inl f) | Inr r \<Rightarrow> Inr (L\<lparr>client_end := r\<rparr>))"

definition at_server :: "conn_fault + world \<Rightarrow> link \<Rightarrow> link_fault + link" where
  "at_server m L = (case m of Inl f \<Rightarrow> Inl (Inr f) | Inr w \<Rightarrow> Inr (L\<lparr>server_end := w\<rparr>))"

definition replies_written :: "nat \<Rightarrow> world \<Rightarrow> reply list" where
  "replies_written c w = (case streams w c of None \<Rightarrow> [] | Some st \<Rightarrow> written (sv_io st))"

definition op_tag :: "nat \<Rightarrow> rpc \<Rightarrow> u64 option" where
  "op_tag i r = (if i < length (io_ops (iothr r)) then Some (snd (io_ops (iothr r) ! i)) else None)"

definition started_op :: "nat \<Rightarrow> world \<Rightarrow> (rpc_op \<times> job) option" where
  "started_op i w = (if i < length (pending w) then Some (pending w ! i) else None)"

fun link_step :: "nat \<Rightarrow> nat \<Rightarrow> cl_app \<Rightarrow> codec \<Rightarrow> handler \<Rightarrow> nat \<Rightarrow> link \<Rightarrow> link_event \<Rightarrow> link_fault + link" where
  "link_step fuel depth ap cd h c L (CallMade t type p k) =
     at_client (rpc_step depth ap cd (client_end L) (Api t (CallApi type p (Some k)))) L"
| "link_step fuel depth ap cd h c L (Polled t rnd) = at_client (rpc_step depth ap cd (client_end L) (Poll t rnd)) L"
| "link_step fuel depth ap cd h c L LoopTurned = at_client (rpc_step depth ap cd (client_end L) (Turn NextTimeout)) L"
| "link_step fuel depth ap cd h c L (RequestWritten i) =
     (case op_tag i (client_end L) of
        Some tag \<Rightarrow>
          if is_write_operation tag then at_client (rpc_step depth ap cd (client_end L) (Turn (GotEvent i True new_reply))) L else Inr L
      | None \<Rightarrow> Inr L)"
| "link_step fuel depth ap cd h c L (ReplyRead i) =
     (case op_tag i (client_end L) of
        Some tag \<Rightarrow>
          if is_read_operation tag \<and> reps_read L < length (replies_written c (server_end L)) then
            at_client (rpc_step depth ap cd (client_end L) (Turn (GotEvent i True (replies_written c (server_end L) ! reps_read L))))
              (L\<lparr>reps_read := reps_read L + 1\<rparr>)
          else Inr L
      | None \<Rightarrow> Inr L)"
| "link_step fuel depth ap cd h c L (RequestRead i) =
     (if started_op i (server_end L) = Some (OpRead, JConn c) \<and> reqs_read L < length (io_wire (iothr (client_end L))) then
        at_server (server_step fuel cd h (server_end L) (Completed i True (snd (io_wire (iothr (client_end L)) ! reqs_read L))))
          (L\<lparr>reqs_read := reqs_read L + 1\<rparr>)
      else Inr L)"
| "link_step fuel depth ap cd h c L (ReplyWritten i) =
     (case started_op i (server_end L) of
        Some (OpWrite r, JStream s) \<Rightarrow>
          if s = c then at_server (server_step fuel cd h (server_end L) (Completed i True new_request)) L else Inr L
      | _ \<Rightarrow> Inr L)"

text \<open>The times an event brings, the last call and the last poll having been before.\<close>

fun time_of :: "link_event \<Rightarrow> u64 list" where
  "time_of (CallMade t type p k) = [t]"
| "time_of (Polled t rnd) = [t]"
| "time_of _ = []"

definition times :: "link_event list \<Rightarrow> u64 set" where
  "times es = set (concat (map time_of es))"

section \<open>The connection on the server\<close>

text \<open>A handler that answers each request with what the service \<open>svc\<close> makes of it, and never closes the connection.\<close>

definition serves :: "(u32 \<Rightarrow> string \<Rightarrow> string) \<Rightarrow> handler \<Rightarrow> nat \<Rightarrow> bool" where
  "serves svc h c \<longleftrightarrow> (\<forall>w q. h_handle h w c q = ([ApiSend (rq_msgid q) (svc (rq_type q) (rq_payload q))], True))"

definition writes_pending :: "nat \<Rightarrow> (rpc_op \<times> job) list \<Rightarrow> nat" where
  "writes_pending c ps = length (filter (\<lambda>(op, j). j = JStream c) ps)"

text \<open>The connection reads requests; its stream has a write started exactly while it says so, and is held meanwhile.\<close>

definition attending :: "nat \<Rightarrow> world \<Rightarrow> svstream \<Rightarrow> bool" where
  "attending c w st \<longleftrightarrow> (\<exists>cn. conns w c = Some cn \<and> conn_status cn = READ \<and> \<not> dying (workers w (conn_worker cn))) \<and>
     streams w c = Some st \<and> flowing st \<and> writes_pending c (pending w) = (if is_sending st then 1 else 0) \<and>
     refc st \<ge> (if is_sending st then 2 else 1)"

lemma filter_without_nth:
  "i < length xs \<Longrightarrow> length (filter P (take i xs @ drop (Suc i) xs)) + (if P (xs ! i) then 1 else 0) = length (filter P xs)"
  by (subst (3) id_take_nth_drop [of i xs]) simp_all

lemma writes_pending_simps [simp]:
  "writes_pending c [] = 0" "writes_pending c (ps @ qs) = writes_pending c ps + writes_pending c qs"
  "writes_pending c ((op, j) # ps) = (if j = JStream c then 1 else 0) + writes_pending c ps"
  by (simp_all add: writes_pending_def)

lemma written_growing: "length (written (sv_io st)) \<le> length (written (sv_io (sv_send r st)))"
  by (simp add: sv_send_def io_write_def sv_ref_def written_append)

lemma request_served:
  assumes "attending c w st" and "serves svc h c" and "rq_kind q = Normal" and "started_op i w = Some (OpRead, JConn c)"
  shows "\<exists>w' st'. server_step k cd h w (Completed i True q) = Inr w' \<and> attending c w' st' \<and>
    sent_by st' = sent_by st @ [reply_to svc q] \<and> length (written (sv_io st)) \<le> length (written (sv_io st'))"
proof -
  obtain cn where cn: "conns w c = Some cn" "conn_status cn = READ" "\<not> dying (workers w (conn_worker cn))"
      and st: "streams w c = Some st" "flowing st" "writes_pending c (pending w) = (if is_sending st then 1 else 0)"
        "refc st \<ge> (if is_sending st then 2 else 1)"
    using assms(1) by (auto simp: attending_def)
  have i: "i < length (pending w)" "pending w ! i = (OpRead, JConn c)" using assms(4) by (auto simp: started_op_def split: if_splits)
  let ?ps = "take i (pending w) @ drop (Suc i) (pending w)" and ?r = "reply_to svc q" and ?cn = "cn\<lparr>conn_req := q\<rparr>"
  have ps: "writes_pending c ?ps = writes_pending c (pending w)"
    using filter_without_nth [OF i(1), of "\<lambda>(op, j). j = JStream c"] i(2) by (simp add: writes_pending_def)
  let ?w1 = "w\<lparr>pending := ?ps, conns := (conns w)(c \<mapsto> ?cn)\<rparr>" and ?st' = "sv_read (sv_send ?r st)"
  let ?w2 = "?w1\<lparr>streams := (streams w)(c \<mapsto> sv_send ?r st), pending := ?ps @ (if is_sending st then [] else [(OpWrite ?r, JStream c)])\<rparr>"
  let ?w3 = "?w2\<lparr>streams := (streams w)(c \<mapsto> ?st'), pending := pending ?w2 @ [(OpRead, JConn c)]\<rparr>"
  have "server_step k cd h w (Completed i True q) = conn_step k cd h c ?w1"
    using i cn(1) by (simp add: worker_complete_def process_job_def set_conn_def get_conn_def)
  also have "\<dots> = step_read h c ?w1" using cn(2) by (simp add: conn_step_def get_conn_def)
  also have "\<dots> = conn_recv c ?w2"
    using assms(2,3) cn st(1) by (simp add: step_read_def get_conn_def serves_def stream_send_eq reply_to_def)
  also have "\<dots> = Inr ?w3" by (simp add: conn_recv_def on_sv_def get_sv_def add_pending_def)
  finally have step: "server_step k cd h w (Completed i True q) = Inr ?w3" .
  have "attending c ?w3 ?st'"
    using cn st ps by (auto simp: attending_def sent_by_send sv_read_def sv_send_def io_write_def sv_ref_def flowing_def)
  moreover have "sent_by ?st' = sent_by st @ [?r]" using sent_by_send [OF st(2), of ?r] by simp
  moreover have "length (written (sv_io st)) \<le> length (written (sv_io ?st'))"
    using written_growing [of st ?r] by (simp add: sv_read_def written_append)
  ultimately show ?thesis using step by blast
qed

lemma write_completed:
  assumes "attending c w st" and "started_op i w = Some (OpWrite r, JStream c)"
  shows "\<exists>w' st'. server_step k cd h w (Completed i True q) = Inr w' \<and> attending c w' st' \<and>
    sent_by st' = sent_by st \<and> length (written (sv_io st)) \<le> length (written (sv_io st'))"
proof -
  obtain cn where cn: "conns w c = Some cn" "conn_status cn = READ" "\<not> dying (workers w (conn_worker cn))"
      and st: "streams w c = Some st" "flowing st" "writes_pending c (pending w) = (if is_sending st then 1 else 0)"
        "refc st \<ge> (if is_sending st then 2 else 1)"
    using assms(1) by (auto simp: attending_def)
  have i: "i < length (pending w)" "pending w ! i = (OpWrite r, JStream c)" using assms(2) by (auto simp: started_op_def split: if_splits)
  let ?ps = "take i (pending w) @ drop (Suc i) (pending w)"
  have "writes_pending c ?ps + 1 = writes_pending c (pending w)"
    using filter_without_nth [OF i(1), of "\<lambda>(op, j). j = JStream c"] i(2) by (simp add: writes_pending_def)
  then have ps: "is_sending st" "writes_pending c ?ps = 0" using st(3) by (auto split: if_splits)
  have step: "server_step k cd h w (Completed i True q) = stream_step c (w\<lparr>pending := ?ps\<rparr>)"
    using i by (simp add: worker_complete_def process_job_def)
  show ?thesis
  proof (cases "sv_queue st")
    case Nil
    let ?st' = "st\<lparr>is_sending := False, refc := refc st - 1\<rparr>"
    have "sv_step st = Some ?st'" using Nil st(4) ps(1) by (simp add: sv_step_def sv_unref_def Let_def)
    then have "stream_step c (w\<lparr>pending := ?ps\<rparr>) = Inr (w\<lparr>pending := ?ps, streams := (streams w)(c \<mapsto> ?st')\<rparr>)"
      using Nil st(1) by (simp add: stream_step_def get_sv_def stream_gone_def Let_def)
    moreover have "attending c (w\<lparr>pending := ?ps, streams := (streams w)(c \<mapsto> ?st')\<rparr>) ?st'"
      using cn st(4) ps Nil by (simp add: attending_def flowing_def)
    ultimately show ?thesis using step by (intro exI [of _ "w\<lparr>pending := ?ps, streams := (streams w)(c \<mapsto> ?st')\<rparr>"] exI [of _ ?st'])
      (simp add: sent_by_def)
  next
    case (Cons x rest)
    let ?st' = "(io_write x st)\<lparr>sv_queue := rest\<rparr>"
    let ?w' = "w\<lparr>pending := ?ps @ [(OpWrite x, JStream c)], streams := (streams w)(c \<mapsto> ?st')\<rparr>"
    have "stream_step c (w\<lparr>pending := ?ps\<rparr>) = Inr ?w'"
      using Cons st(1) by (simp add: stream_step_def get_sv_def stream_gone_def sv_step_def add_pending_def Let_def)
    moreover have "attending c ?w' ?st'" using cn st(4) ps by (simp add: attending_def flowing_def io_write_def)
    ultimately show ?thesis using step Cons
      by (intro exI [of _ ?w'] exI [of _ ?st']) (simp add: sent_by_def io_write_def written_append)
  qed
qed

section \<open>The invariant\<close>

text \<open>
  Of the calls \<open>C\<close> the requests of the first \<open>x\<close> were written, those of the first \<open>u\<close> reached the server and were answered, the
  replies to the first \<open>g\<close> reached the client, those to the first \<open>d\<close> were handled there. \<open>wb\<close> requests and \<open>sb\<close>
  replies had been written before; at most \<open>left\<close> calls are to come that are not made by callbacks.
\<close>

definition wired :: "a_call list \<Rightarrow> nat \<Rightarrow> nat \<Rightarrow> rpc \<Rightarrow> bool" where
  "wired C x wb r \<longleftrightarrow> x \<le> length C \<and> cl_requests (owner r) = map (RReq \<circ> fst) (drop x C) \<and>
     length (io_wire (iothr r)) = wb + x \<and> map snd (drop wb (io_wire (iothr r))) = map fst (take x C) \<and>
     cl_started (owner r) \<and> io_alive (iothr r) \<and> io_open (iothr r) \<and> io_reply (iothr r)"

definition replied :: "(u32 \<Rightarrow> string \<Rightarrow> string) \<Rightarrow> a_call list \<Rightarrow> nat \<Rightarrow> nat \<Rightarrow> nat \<Rightarrow> svstream \<Rightarrow> bool" where
  "replied svc C u g sb st \<longleftrightarrow> length (sent_by st) = sb + u \<and> drop sb (sent_by st) = map (reply_to svc \<circ> fst) (take u C) \<and>
     sb + g \<le> length (written (sv_io st))"

definition to_handle :: "(u32 \<Rightarrow> string \<Rightarrow> string) \<Rightarrow> a_call list \<Rightarrow> nat \<Rightarrow> nat \<Rightarrow> nat list \<Rightarrow> client \<Rightarrow> bool" where
  "to_handle svc C d g A s \<longleftrightarrow> d \<le> g \<and> {..<d} \<subseteq> set A \<and> cl_replys s = map (\<lambda>i. RReply (reply_to svc (fst (C ! i)))) [d..<g]"

definition link_at :: "(u32 \<Rightarrow> string \<Rightarrow> string) \<Rightarrow> u64 set \<Rightarrow> nat \<Rightarrow> cl_out list \<Rightarrow> nat \<Rightarrow> nat \<Rightarrow> nat \<Rightarrow> nat \<Rightarrow> link \<Rightarrow>
    a_call list \<Rightarrow> nat list \<Rightarrow> svstream \<Rightarrow> nat \<Rightarrow> nat \<Rightarrow> nat \<Rightarrow> nat \<Rightarrow> bool" where
  "link_at svc W m log0 c wb sb left L C A st x u g d \<longleftrightarrow>
     talking svc W m log0 C A [] (owner (client_end L)) \<and> m + length C + left \<le> 1999999999 \<and> wired C x wb (client_end L) \<and>
     reqs_read L = wb + u \<and> u \<le> x \<and> attending c (server_end L) st \<and> replied svc C u g sb st \<and> reps_read L = sb + g \<and>
     to_handle svc C d g A (owner (client_end L))"

definition linked :: "(u32 \<Rightarrow> string \<Rightarrow> string) \<Rightarrow> u64 set \<Rightarrow> nat \<Rightarrow> cl_out list \<Rightarrow> nat \<Rightarrow> nat \<Rightarrow> nat \<Rightarrow> nat \<Rightarrow> link \<Rightarrow> bool" where
  "linked svc W m log0 c wb sb left L \<longleftrightarrow> (\<exists>C A st x u g d. link_at svc W m log0 c wb sb left L C A st x u g d)"

lemma linkedI: "link_at svc W m log0 c wb sb left L C A st x u g d \<Longrightarrow> linked svc W m log0 c wb sb left L"
  unfolding linked_def by blast

lemma replied_reach: "replied svc C u g sb st \<Longrightarrow> g \<le> u"
  by (simp add: replied_def sent_by_def)

lemma linked_less: "link_at svc W m log0 c wb sb (Suc left) L C A st x u g d \<Longrightarrow> link_at svc W m log0 c wb sb left L C A st x u g d"
  by (simp add: link_at_def)

text \<open>More calls do not change what was done for the first ones.\<close>

lemma wired_more:
  assumes "wired C x wb r" and "calls_put (owner r) X s"
  shows "wired (C @ X) x wb (r\<lparr>owner := s\<rparr>)"
  using assms by (simp add: wired_def calls_put_def)

lemma replied_more: "replied svc C u g sb st \<Longrightarrow> u \<le> length C \<Longrightarrow> replied svc (C @ X) u g sb st"
  by (simp add: replied_def)

lemma calls_put_replys: "calls_put (s\<lparr>cl_replys := []\<rparr>) X t \<Longrightarrow> calls_put s X (t\<lparr>cl_replys := cl_replys s\<rparr>)"
  by (simp add: calls_put_def)

section \<open>Every event keeps it\<close>

lemma event_call:
  assumes "link_at svc W m log0 c wb sb (Suc left) L C A st x u g d" and "t \<in> W"
  shows "\<exists>L'. link_step fuel depth ap cd h c L (CallMade t type p k) = Inr L' \<and> linked svc W m log0 c wb sb left L'"
proof -
  let ?r = "client_end L" and ?s = "(owner (client_end L))\<lparr>cl_now := t\<rparr>"
  have l: "talking svc W m log0 C A [] (owner ?r)" "m + length C + Suc left \<le> 1999999999" "wired C x wb ?r" "u \<le> x"
      "replied svc C u g sb st" "to_handle svc C d g A (owner ?r)"
    using assms(1) by (simp_all add: link_at_def)
  have s: "talking svc W m log0 C A [] ?s" using l(1) by (simp add: talking_def)
  obtain q s1 where s1: "call_typed (respond depth ap cd) type p (AppCb k) USE_DEFAULT ?s = Inr s1"
      "talking svc W m log0 (C @ [(q, k)]) A [] s1" "calls_put ?s [(q, k)] s1"
    using talk_call [OF s, of "respond depth ap cd" type p k] l(2) assms(2) by auto
  let ?L = "L\<lparr>client_end := ?r\<lparr>owner := s1\<rparr>\<rparr>"
  have "wired (C @ [(q, k)]) x wb (?r\<lparr>owner := s1\<rparr>)" using l(3) s1(3) by (simp add: wired_def calls_put_def)
  moreover have "replied svc (C @ [(q, k)]) u g sb st" using l(3,4) by (intro replied_more [OF l(5)]) (simp add: wired_def)
  moreover have "to_handle svc (C @ [(q, k)]) d g A s1"
    using l(3,4,6) s1(3) replied_reach [OF l(5)] by (simp add: to_handle_def calls_put_def wired_def nth_append)
  ultimately have "link_at svc W m log0 c wb sb left ?L (C @ [(q, k)]) A st x u g d"
    using assms(1) s1(2) by (simp add: link_at_def)
  then show ?thesis using s1(1) by (auto simp: at_client_def intro: linkedI)
qed

lemma event_poll:
  assumes "link_at svc W m log0 c wb sb (Suc left) L C A st x u g d" and "t \<in> W" and "caller N ap" and "N + left \<le> 1999999999"
  shows "\<exists>L'. link_step fuel (Suc n) ap cd h c L (Polled t rnd) = Inr L' \<and> linked svc W m log0 c wb sb left L'"
proof -
  let ?r = "client_end L" and ?s = "(owner (client_end L))\<lparr>cl_now := t, cl_rand := rnd\<rparr>"
  have l: "talking svc W m log0 C A [] (owner ?r)" "m + length C + Suc left \<le> 1999999999" "wired C x wb ?r" "u \<le> x"
      "replied svc C u g sb st" "to_handle svc C d g A (owner ?r)"
    using assms(1) by (simp_all add: link_at_def)
  have g: "g \<le> length C" using replied_reach [OF l(5)] l(3,4) by (simp add: wired_def)
  have s: "talking svc W m log0 C A [] ?s" using l(1) by (simp add: talking_def)
  have q: "cl_replys ?s = map (\<lambda>i. RReply (reply_to svc (fst (C ! i)))) [d..<g]" using l(6) by (simp add: to_handle_def)
  obtain X A' s1 where s1: "update (Suc n) ap cd ?s = Inr s1" "talking svc W m log0 (C @ X) A' [] s1"
      "calls_put (?s\<lparr>cl_replys := []\<rparr>) X s1" "set A \<union> set [d..<g] \<subseteq> set A'" "X = [] \<or> m + length (C @ X) \<le> N"
    by (rule talks_onD [OF talk_poll [OF s q _ assms(3), where n = n and cd = cd]]) (use g assms(2,4) in auto)
  let ?L = "L\<lparr>client_end := ?r\<lparr>owner := s1\<rparr>\<rparr>"
  have "wired (C @ X) x wb (?r\<lparr>owner := s1\<rparr>)" using l(3) s1(3) by (simp add: wired_def calls_put_def)
  moreover have "replied svc (C @ X) u g sb st" using l(3,4) by (intro replied_more [OF l(5)]) (simp add: wired_def)
  moreover have "to_handle svc (C @ X) g g A' s1"
  proof -
    have "{..<g} \<subseteq> {..<d} \<union> set [d..<g]" by auto
    also have "\<dots> \<subseteq> set A'" using l(6) s1(4) by (auto simp: to_handle_def)
    finally show ?thesis using s1(3) by (simp add: to_handle_def calls_put_def)
  qed
  moreover have "m + length (C @ X) + left \<le> 1999999999" using s1(5) l(2) assms(4) by auto
  ultimately have "link_at svc W m log0 c wb sb left ?L (C @ X) A' st x u g g"
    using assms(1) s1(2) by (simp add: link_at_def)
  then show ?thesis using s1(1) by (auto simp: at_client_def intro: linkedI)
qed

lemma talking_requests [simp]: "talking svc W m log0 C A Q (s\<lparr>cl_requests := x\<rparr>) = talking svc W m log0 C A Q s"
  by (simp add: talking_def)

lemma to_handle_requests [simp]: "to_handle svc C d g A (s\<lparr>cl_requests := x\<rparr>) = to_handle svc C d g A s"
  by (simp add: to_handle_def)

lemma pop_wired:
  assumes "wired C x wb r"
  shows "pop_request (owner r) = (if x < length C then
    Some (RReq (fst (C ! x)), (owner r)\<lparr>cl_requests := map (RReq \<circ> fst) (drop (Suc x) C)\<rparr>) else None)"
  using assms by (simp add: wired_def pop_request_def flip: Cons_nth_drop_Suc)

lemma write_wired:
  assumes "wired C x wb r" and "x < length C" and "io_wire t = io_wire (iothr r)" and "io_open t" and "io_alive t" and "io_reply t"
  shows "\<exists>t'. stream_write (fst (C ! x)) t = Inr t' \<and>
    (\<forall>b. wired C (Suc x) wb (r\<lparr>owner := (owner r)\<lparr>cl_requests := map (RReq \<circ> fst) (drop (Suc x) C)\<rparr>, iothr := t'\<lparr>io_sending := b\<rparr>\<rparr>))"
  using assms by (simp add: wired_def stream_write_def start_op_def take_Suc_conv_app_nth)

text \<open>A request, if there is one, leaves the queue and is written; then the client has done what it can.\<close>

lemma request_leaves:
  assumes "link_at svc W m log0 c wb sb (Suc left) L C A st x u g d" and "r = client_end L" and "x < length C"
    and "wired C (Suc x) wb r'" and "owner r' = (owner r)\<lparr>cl_requests := q\<rparr>"
  shows "linked svc W m log0 c wb sb left (L\<lparr>client_end := r'\<rparr>)"
proof (rule linkedI)
  show "link_at svc W m log0 c wb sb left (L\<lparr>client_end := r'\<rparr>) C A st (Suc x) u g d"
    using assms by (simp add: link_at_def)
qed

lemma event_loop:
  assumes "link_at svc W m log0 c wb sb (Suc left) L C A st x u g d"
  shows "\<exists>L'. link_step fuel depth ap cd h c L LoopTurned = Inr L' \<and> linked svc W m log0 c wb sb left L'"
proof -
  let ?r = "client_end L"
  have w: "wired C x wb ?r" using assms by (simp add: link_at_def)
  then have run: "cl_started (owner ?r)" "io_alive (iothr ?r)" by (simp_all add: wired_def)
  show ?thesis
  proof (cases "io_sending (iothr ?r) \<or> \<not> x < length C")
    case True
    then have "io_idle ?r = Inr ?r" using pop_wired [OF w] by (auto simp: io_idle_def)
    then show ?thesis using run linkedI [OF linked_less [OF assms]] by (simp add: at_client_def)
  next
    case False
    obtain t where t: "stream_write (fst (C ! x)) (iothr ?r) = Inr t"
        "\<forall>b. wired C (Suc x) wb (?r\<lparr>owner := (owner ?r)\<lparr>cl_requests := map (RReq \<circ> fst) (drop (Suc x) C)\<rparr>, iothr := t\<lparr>io_sending := b\<rparr>\<rparr>)"
      using write_wired [OF w, of "iothr ?r"] False w by (auto simp: wired_def)
    then show ?thesis using False run request_leaves [OF assms refl _ t(2) [rule_format, of True]]
      by (simp add: io_idle_def pop_wired [OF w] at_client_def)
  qed
qed

lemma event_request_written:
  assumes "link_at svc W m log0 c wb sb (Suc left) L C A st x u g d"
  shows "\<exists>L'. link_step fuel depth ap cd h c L (RequestWritten i) = Inr L' \<and> linked svc W m log0 c wb sb left L'"
proof (cases "\<exists>tag. op_tag i (client_end L) = Some tag \<and> is_write_operation tag")
  case False
  then have "link_step fuel depth ap cd h c L (RequestWritten i) = Inr L" by (auto split: option.split)
  then show ?thesis using linkedI [OF linked_less [OF assms]] by simp
next
  case True
  let ?r = "client_end L"
  let ?t = "(iothr ?r)\<lparr>io_ops := take i (io_ops (iothr ?r)) @ drop (Suc i) (io_ops (iothr ?r))\<rparr>"
  obtain tag where tag: "op_tag i ?r = Some tag" "is_write_operation tag" using True by blast
  have w: "wired C x wb ?r" using assms by (simp add: link_at_def)
  then have run: "cl_started (owner ?r)" "io_alive (iothr ?r)" by (simp_all add: wired_def)
  have w': "wired C x wb (?r\<lparr>iothr := ?t\<rparr>)" using w by (simp add: wired_def)
  have step: "link_step fuel depth ap cd h c L (RequestWritten i) = at_client (write_done True (?r\<lparr>iothr := ?t\<rparr>)) L"
    using tag run by (auto simp: op_tag_def handle_event_def split: if_splits)
  show ?thesis
  proof (cases "x < length C")
    case True
    obtain t where t: "stream_write (fst (C ! x)) ?t = Inr t"
        "\<forall>b. wired C (Suc x) wb (?r\<lparr>owner := (owner ?r)\<lparr>cl_requests := map (RReq \<circ> fst) (drop (Suc x) C)\<rparr>, iothr := t\<lparr>io_sending := b\<rparr>\<rparr>)"
      using write_wired [OF w True, of ?t] w by (auto simp: wired_def)
    have "t\<lparr>io_sending := io_sending t\<rparr> = t" by simp
    with t(2) [rule_format, of "io_sending t"]
    have "wired C (Suc x) wb (?r\<lparr>owner := (owner ?r)\<lparr>cl_requests := map (RReq \<circ> fst) (drop (Suc x) C)\<rparr>, iothr := t\<rparr>)" by simp
    from request_leaves [OF assms refl True this] show ?thesis
      unfolding step using True t(1) pop_wired [OF w'] by (simp add: write_done_def at_client_def)
  next
    case False
    let ?r' = "?r\<lparr>iothr := ?t\<lparr>io_sending := False\<rparr>\<rparr>"
    have "wired C x wb ?r'" using w by (simp add: wired_def)
    then have "link_at svc W m log0 c wb sb left (L\<lparr>client_end := ?r'\<rparr>) C A st x u g d" using assms by (simp add: link_at_def)
    then show ?thesis unfolding step using False pop_wired [OF w'] by (auto simp: write_done_def at_client_def intro: linkedI)
  qed
qed

lemma event_reply_read:
  assumes "link_at svc W m log0 c wb sb (Suc left) L C A st x u g d"
  shows "\<exists>L'. link_step fuel depth ap cd h c L (ReplyRead i) = Inr L' \<and> linked svc W m log0 c wb sb left L'"
proof (cases "(\<exists>tag. op_tag i (client_end L) = Some tag \<and> is_read_operation tag) \<and> reps_read L < length (replies_written c (server_end L))")
  case False
  then have "link_step fuel depth ap cd h c L (ReplyRead i) = Inr L" by (auto split: option.split)
  then show ?thesis using linkedI [OF linked_less [OF assms]] by simp
next
  case True
  let ?r = "client_end L" and ?out = "replies_written c (server_end L)"
  let ?t = "(iothr ?r)\<lparr>io_ops := take i (io_ops (iothr ?r)) @ drop (Suc i) (io_ops (iothr ?r))\<rparr>"
  obtain tag where tag: "op_tag i ?r = Some tag" "is_read_operation tag" using True by blast
  have w: "wired C x wb ?r" and rep: "replied svc C u g sb st" and h: "to_handle svc C d g A (owner ?r)" and read: "reps_read L = sb + g"
      and st: "streams (server_end L) c = Some st" and ux: "u \<le> x"
    using assms by (simp_all add: link_at_def attending_def)
  have out: "?out = written (sv_io st)" by (simp add: replies_written_def st)
  have more: "sb + Suc g \<le> length (written (sv_io st))" using True read out by simp
  have "replied svc C u (Suc g) sb st" using rep more by (simp add: replied_def)
  then have g: "g < u" using replied_reach by fastforce
  have "?out ! (sb + g) = sent_by st ! (sb + g)" using more by (simp add: out sent_by_def nth_append)
  also have "\<dots> = drop sb (sent_by st) ! g" by (rule nth_drop [symmetric]) (use rep in \<open>simp add: replied_def\<close>)
  also have "\<dots> = reply_to svc (fst (C ! g))" using rep g ux w by (simp add: replied_def wired_def)
  finally have this_one: "?out ! (sb + g) = reply_to svc (fst (C ! g))" .
  let ?item = "RReply (reply_to svc (fst (C ! g)))"
  let ?r' = "?r\<lparr>owner := push_reply ?item (owner ?r), iothr := io_read (?t\<lparr>io_reply := False\<rparr>)\<rparr>"
  let ?L = "L\<lparr>client_end := ?r', reps_read := reps_read L + 1\<rparr>"
  have "\<not> is_write_operation tag" using tag(2) by (simp add: is_read_operation_def is_write_operation_def)
  then have step: "link_step fuel depth ap cd h c L (ReplyRead i) = Inr ?L"
    using True tag w read this_one
    by (auto simp: op_tag_def handle_event_def read_done_def wired_def at_client_def Let_def split: if_splits)
  have "wired C x wb ?r'" using w by (simp add: wired_def push_reply_def io_read_def start_op_def)
  moreover have "to_handle svc C d (Suc g) A (push_reply ?item (owner ?r))"
    using h by (simp add: to_handle_def push_reply_def tq_enqueue_def)
  moreover have "talking svc W m log0 C A [] (push_reply ?item (owner ?r))" using assms by (simp add: link_at_def push_reply_def)
  ultimately have "link_at svc W m log0 c wb sb left ?L C A st x u (Suc g) d"
    using assms \<open>replied svc C u (Suc g) sb st\<close> by (simp add: link_at_def)
  then show ?thesis using step by (auto intro: linkedI)
qed

lemma event_request_read:
  assumes "link_at svc W m log0 c wb sb (Suc left) L C A st x u g d" and "serves svc h c"
  shows "\<exists>L'. link_step fuel depth ap cd h c L (RequestRead i) = Inr L' \<and> linked svc W m log0 c wb sb left L'"
proof (cases "started_op i (server_end L) = Some (OpRead, JConn c) \<and> reqs_read L < length (io_wire (iothr (client_end L)))")
  case False
  then have "link_step fuel depth ap cd h c L (RequestRead i) = Inr L" by (auto simp del: server_step.simps)
  then show ?thesis using linkedI [OF linked_less [OF assms(1)]] by simp
next
  case True
  let ?wire = "io_wire (iothr (client_end L))"
  have w: "wired C x wb (client_end L)" and rep: "replied svc C u g sb st" and read: "reqs_read L = wb + u" and ux: "u \<le> x"
      and at: "attending c (server_end L) st" and num: "numbered m C"
    using assms(1) by (simp_all add: link_at_def talking_def)
  have u: "u < x" using True read w by (simp add: wired_def)
  have len: "length ?wire = wb + x" "x \<le> length C" and same: "map snd (drop wb ?wire) = map fst (take x C)" using w by (simp_all add: wired_def)
  have "snd (?wire ! (wb + u)) = map snd (drop wb ?wire) ! u" using len u by simp
  also have "\<dots> = map fst (take x C) ! u" by (simp only: same)
  also have "\<dots> = fst (C ! u)" using len u by simp
  finally have q: "snd (?wire ! (wb + u)) = fst (C ! u)" .
  have "rq_kind (fst (C ! u)) = Normal" using num u w by (simp add: numbered_def wired_def)
  with request_served [OF at assms(2) _ True [THEN conjunct1], of "fst (C ! u)" fuel cd]
  obtain w' st' where s: "server_step fuel cd h (server_end L) (Completed i True (fst (C ! u))) = Inr w'" "attending c w' st'"
      "sent_by st' = sent_by st @ [reply_to svc (fst (C ! u))]" "length (written (sv_io st)) \<le> length (written (sv_io st'))"
    by blast
  let ?L = "L\<lparr>server_end := w', reqs_read := reqs_read L + 1\<rparr>"
  have "replied svc C (Suc u) g sb st'"
    using rep s(3,4) u w by (simp add: replied_def wired_def take_Suc_conv_app_nth)
  then have "link_at svc W m log0 c wb sb left ?L C A st' x (Suc u) g d" using assms(1) s(2) u by (simp add: link_at_def)
  moreover have "link_step fuel depth ap cd h c L (RequestRead i) = Inr ?L"
    using True s(1) read q by (simp add: at_server_def del: server_step.simps)
  ultimately show ?thesis by (blast intro: linkedI)
qed

lemma event_reply_written:
  assumes "link_at svc W m log0 c wb sb (Suc left) L C A st x u g d"
  shows "\<exists>L'. link_step fuel depth ap cd h c L (ReplyWritten i) = Inr L' \<and> linked svc W m log0 c wb sb left L'"
proof (cases "\<exists>r. started_op i (server_end L) = Some (OpWrite r, JStream c)")
  case False
  then have "link_step fuel depth ap cd h c L (ReplyWritten i) = Inr L" by (auto split: option.split rpc_op.split job.split)
  then show ?thesis using linkedI [OF linked_less [OF assms]] by simp
next
  case True
  then obtain r where r: "started_op i (server_end L) = Some (OpWrite r, JStream c)" by blast
  have at: "attending c (server_end L) st" and rep: "replied svc C u g sb st" using assms by (simp_all add: link_at_def)
  obtain w' st' where s: "server_step fuel cd h (server_end L) (Completed i True new_request) = Inr w'" "attending c w' st'"
      "sent_by st' = sent_by st" "length (written (sv_io st)) \<le> length (written (sv_io st'))"
    using write_completed [OF at r, of fuel cd h new_request] by blast
  have "replied svc C u g sb st'" using rep s(3,4) by (simp add: replied_def)
  then have "link_at svc W m log0 c wb sb left (L\<lparr>server_end := w'\<rparr>) C A st' x u g d" using assms s(2) by (simp add: link_at_def)
  moreover have "link_step fuel depth ap cd h c L (ReplyWritten i) = Inr (L\<lparr>server_end := w'\<rparr>)" using r s(1) by (simp add: at_server_def del: server_step.simps)
  ultimately show ?thesis by (blast intro: linkedI)
qed

lemma event_linked:
  assumes "linked svc W m log0 c wb sb (Suc left) L" and "set (time_of e) \<subseteq> W" and "caller N ap" and "N + left \<le> 1999999999" and "serves svc h c"
  shows "\<exists>L'. link_step fuel (Suc n) ap cd h c L e = Inr L' \<and> linked svc W m log0 c wb sb left L'"
proof -
  obtain C A st x u g d where l: "link_at svc W m log0 c wb sb (Suc left) L C A st x u g d" using assms(1) by (auto simp: linked_def)
  show ?thesis
    by (cases e) (use event_call [OF l] event_poll [OF l _ assms(3,4)] event_loop [OF l] event_request_written [OF l] event_reply_read [OF l]
        event_request_read [OF l assms(5)] event_reply_written [OF l] assms(2) in \<open>simp_all del: link_step.simps\<close>)
qed

lemma run_linked:
  assumes "caller N ap" and "serves svc h c"
  shows "linked svc W m log0 c wb sb (length es) L \<Longrightarrow> times es \<subseteq> W \<Longrightarrow> N + length es \<le> 1999999999 \<Longrightarrow>
    \<exists>L'. run_steps (link_step fuel (Suc n) ap cd h c) L es = Inr L' \<and> linked svc W m log0 c wb sb 0 L'"
proof (induction es arbitrary: L)
  case (Cons e es)
  have t: "set (time_of e) \<subseteq> W" "times es \<subseteq> W" using Cons.prems(2) by (auto simp: times_def)
  have l: "linked svc W m log0 c wb sb (Suc (length es)) L" "N + length es \<le> 1999999999" using Cons.prems(1,3) by simp_all
  obtain L1 where "link_step fuel (Suc n) ap cd h c L e = Inr L1" "linked svc W m log0 c wb sb (length es) L1"
    using event_linked [OF l(1) t(1) assms(1) l(2) assms(2), of fuel n cd] by blast
  with Cons.IH [OF _ t(2)] Cons.prems(3) show ?case by (auto simp del: link_step.simps)
qed simp

section \<open>The session\<close>

text \<open>
  The start: the client is connected, no call waits, nothing is on the way, the last reply of the server was read.
\<close>

definition in_session :: "nat \<Rightarrow> link \<Rightarrow> bool" where
  "in_session c L \<longleftrightarrow> (let s = owner (client_end L); t = iothr (client_end L) in
     cl_status s = CONNECT \<and> \<not> cl_restarting s \<and> cl_started s \<and> cl_requests s = [] \<and> cl_replys s = [] \<and> cl_reqmap s = [] \<and>
     io_alive t \<and> io_open t \<and> io_reply t \<and> reqs_read L = length (io_wire t) \<and>
     (\<exists>st. attending c (server_end L) st \<and> sv_queue st = [] \<and> reps_read L = length (sent_by st)))"

text \<open>Nothing is on the way, in any of the queues or between them.\<close>

definition settled :: "nat \<Rightarrow> link \<Rightarrow> bool" where
  "settled c L \<longleftrightarrow> cl_requests (owner (client_end L)) = [] \<and> reqs_read L = length (io_wire (iothr (client_end L))) \<and>
     (\<exists>st. streams (server_end L) c = Some st \<and> sv_queue st = []) \<and> reps_read L = length (replies_written c (server_end L)) \<and>
     cl_replys (owner (client_end L)) = []"

definition history :: "link \<Rightarrow> cl_out list" where
  "history L = cl_log (owner (client_end L))"

lemma start_linked:
  assumes "in_session c L" and "unat (cl_seed (owner (client_end L))) + n \<le> 1999999999"
  shows "linked svc W (unat (cl_seed (owner (client_end L)))) (history L) c (length (io_wire (iothr (client_end L)))) (reps_read L) n L"
proof -
  obtain st where st: "attending c (server_end L) st" "sv_queue st = []" "reps_read L = length (sent_by st)"
    using assms(1) by (auto simp: in_session_def Let_def)
  have "replied svc [] 0 0 (reps_read L) st" using st by (simp add: replied_def sent_by_def)
  moreover have "wired [] 0 (length (io_wire (iothr (client_end L)))) (client_end L)"
    using assms(1) by (simp add: wired_def in_session_def Let_def)
  moreover have "talking svc W (unat (cl_seed (owner (client_end L)))) (history L) [] [] [] (owner (client_end L))"
    using assms by (simp add: talking_def in_session_def Let_def made_def answers_in_def numbered_def still_waiting_def history_def)
  ultimately have "link_at svc W (unat (cl_seed (owner (client_end L)))) (history L) c (length (io_wire (iothr (client_end L)))) (reps_read L) n L
      [] [] st 0 0 0 0"
    using assms st(1) by (simp add: link_at_def in_session_def to_handle_def Let_def)
  then show ?thesis by (rule linkedI)
qed

lemma settled_answered:
  assumes "link_at svc W m log0 c wb sb left L C A st x u g d" and "settled c L"
  shows "set A = {..<length C}"
proof -
  have l: "talking svc W m log0 C A [] (owner (client_end L))" "wired C x wb (client_end L)" "reqs_read L = wb + u" "u \<le> x"
      "attending c (server_end L) st" "replied svc C u g sb st" "reps_read L = sb + g" "to_handle svc C d g A (owner (client_end L))"
    using assms(1) by (simp_all add: link_at_def)
  have "x = length C" using l(2) assms(2) by (simp add: wired_def settled_def)
  moreover have "u = x" using l(2,3) assms(2) by (simp add: wired_def settled_def)
  moreover have "g = u" using l(5,6,7) assms(2) by (auto simp: replied_def settled_def attending_def sent_by_def replies_written_def)
  moreover have "d = g" using l(8) assms(2) by (auto simp: to_handle_def settled_def)
  ultimately have "{..<length C} \<subseteq> set A" using l(8) by (simp add: to_handle_def)
  then show ?thesis using answered_indices [OF l(1)] by blast
qed

text \<open>
  Property C9. However calls, polls, turns of the client's thread, writes, reads and the steps of the connection interleave, no step
  faults, and every answer handed to a callback is the right one: each call is answered at most once, by what the service makes of its own
  type and text, or by a time-out, this only if times are more than 30 seconds apart. When nothing is on the way
  any more, every call was answered.
\<close>

theorem calls_answered:
  assumes "in_session c L" and "caller N ap" and "serves svc h c" and "N + length es \<le> 1999999999"
    and "unat (cl_seed (owner (client_end L))) + length es \<le> 1999999999"
  shows "\<exists>L' new C A. run_steps (link_step fuel (Suc n) ap cd h c) L es = Inr L' \<and> history L' = history L @ new \<and> made new C \<and>
    list_all2 (right_answer svc (times es) C) A (answers_in new) \<and> distinct A \<and> (settled c L' \<longrightarrow> set A = {..<length C})"
proof -
  let ?m = "unat (cl_seed (owner (client_end L)))" and ?wb = "length (io_wire (iothr (client_end L)))"
  obtain L' where run: "run_steps (link_step fuel (Suc n) ap cd h c) L es = Inr L'"
      and "linked svc (times es) ?m (history L) c ?wb (reps_read L) 0 L'"
    using run_linked [OF assms(2,3) start_linked [OF assms(1,5)] order_refl assms(4)] by blast
  then obtain C A st x u g d where l: "link_at svc (times es) ?m (history L) c ?wb (reps_read L) 0 L' C A st x u g d" by (auto simp: linked_def)
  then obtain new where "history L' = history L @ new" "made new C" "list_all2 (right_answer svc (times es) C) A (answers_in new)" "distinct A"
    unfolding link_at_def talking_def history_def by auto
  with run settled_answered [OF l] show ?thesis by blast
qed

text \<open>A login, as theory \<open>Login_Protocol\<close> describes it, ends where a session starts.\<close>

theorem login_opens_session:
  assumes "codec_ok cd"
    and "at_rest n w m k r" and "willing ap cid0 greet" and "cl_when (owner r) \<le> t0" and "t1 \<le> t1 + TIMEOUT_DURATION"
    and "unat m < 2000000000" and "depth > 0"
    and "logging_in c cn st wd" and "conn_req cn = login_request cd cid0 greet m"
    and "h_login h wd c (conn_req cn) = ([], cid, data)" and "cid \<noteq> 0"
    and "\<not> is_sending st" and "writes_pending c (pending wd) = 0" and "refc st \<ge> 1"
  shows "\<exists>wd' st' r'. conn_step fuel cd h c wd = Inr wd' \<and> streams wd' c = Some st' \<and>
     run_steps (rpc_step depth ap cd) r (login_events t0 t1 t2 rnd (last (sent_by st'))) = Inr r' \<and>
     in_session c \<lparr>client_end = r', server_end = wd', reqs_read = length (io_wire (iothr r')), reps_read = length (sent_by st')\<rparr>"
proof -
  let ?rep = "connect_reply cd (next_msgid m) cid data" and ?st = "sv_read (sv_send (connect_reply cd (next_msgid m) cid data) st)"
  have id: "rq_msgid (conn_req cn) = next_msgid m" by (simp add: assms(9) login_request_def)
  have flow: "flowing st" and live: "\<not> dying (workers wd (conn_worker cn))" using assms(8) by (simp_all add: logging_in_def)
  obtain wd' where s: "conn_step fuel cd h c wd = Inr wd'" "conns wd' c = Some (cn\<lparr>conn_lcid := 0, conn_cid := cid, conn_status := READ\<rparr>)"
      "\<forall>wk. dying (workers wd' wk) = dying (workers wd wk)" "streams wd' c = Some ?st"
      "pending wd' = pending wd @ [(OpWrite ?rep, JStream c), (OpRead, JConn c)]"
    using step_login_world [OF assms(8,10), of fuel cd] assms(11,12) by (auto simp: login_reply_def id)
  have "attending c wd' ?st"
    using s live flow assms(12-14) by (auto simp: attending_def flowing_def sv_read_def sv_send_def io_write_def sv_ref_def)
  moreover have "sv_queue ?st = []" using flow assms(12) by (simp add: flowing_def sv_read_def sv_send_def io_write_def sv_ref_def)
  moreover have rep: "last (sent_by ?st) = ?rep" using sent_by_send [OF flow, of ?rep] by simp
  have "dec_connect cd (rp_payload ?rep) = Some \<lparr>cn_id = cid, cn_payload = data\<rparr>"
    using assms(1) by (simp add: connect_reply_fields codec_ok_def)
  from login_stages [OF assms(2-7) _ _ _ this, of t2 rnd]
  obtain r' where "run_steps (rpc_step depth ap cd) r (login_events t0 t1 t2 rnd ?rep) = Inr r'"
      "stage CONNECT [] [] [] [(n + 1, generate_read_tag (n + 1))] False True (n + 1) (w @ [(n + 1, login_request cd cid0 greet m)])
        (next_msgid m) (merge_connect k \<lparr>cn_id = cid, cn_payload = data\<rparr>) r'"
    by (auto simp: connect_reply_fields)
  ultimately show ?thesis using s(1,4) rep
    by (intro exI [of _ wd'] exI [of _ ?st] exI [of _ r']) (auto simp: in_session_def stage_def Let_def)
qed

theorem login_opens_session_witness:
  "\<exists>wd' st' r'. conn_step 1 demo_codec (demo_handler\<lparr>h_login := (\<lambda>_ _ _. ([], 7, ''welcome''))\<rparr>) 0 meeting_world = Inr wd' \<and>
     run_steps (rpc_step 2 demo_app demo_codec) (new_rpc ''host'' None) (login_events 1 2 3 0 (last (sent_by st'))) = Inr r' \<and>
     in_session 0 \<lparr>client_end = r', server_end = wd', reqs_read = length (io_wire (iothr r')), reps_read = length (sent_by st')\<rparr>"
proof -
  let ?h = "demo_handler\<lparr>h_login := (\<lambda>_ _ _. ([], 7, ''welcome''))\<rparr>" and ?cn = "one_conn\<lparr>conn_req := login_request demo_codec 7 ''me'' 0\<rparr>"
  have l: "logging_in 0 ?cn one_stream meeting_world"
    using one_world_logging_in by (simp add: logging_in_def meeting_world_def one_world_def login_request_def)
  have w: "willing demo_app 7 ''me''" by (simp add: willing_def demo_app_def)
  have t: "cl_when (owner (new_rpc ''host'' None)) \<le> 1" "(2 :: u64) \<le> 2 + TIMEOUT_DURATION" "unat (0 :: i32) < 2000000000" "(2 :: nat) > 0"
    by (simp_all add: new_client_def TIMEOUT_DURATION_def sec_def)
  have c: "conn_req ?cn = login_request demo_codec 7 ''me'' 0" "h_login ?h meeting_world 0 (conn_req ?cn) = ([], 7, ''welcome'')" "(7 :: u64) \<noteq> 0"
    by simp_all
  have "\<not> is_sending one_stream" "writes_pending 0 (pending meeting_world) = 0" "refc one_stream \<ge> 1"
    by (simp_all add: one_stream_def sv_ref_def new_svstream_def meeting_world_def one_world_def world_initial_def)
  from login_opens_session [OF demo_codec_ok new_rpc_at_rest w t l c this, of 1 3 0] show ?thesis by blast
qed

text \<open>A service that answers with the text it was given, called twice at once, with a third call from the first answer.\<close>

definition chatty_app :: cl_app where
  "chatty_app = demo_app\<lparr>on_msg := (\<lambda>s k r p. if k = 1 \<and> unat (cl_seed s) < 10 then [CallApi 7 ''c'' (Some 3)] else [])\<rparr>"

definition echo_handler :: handler where
  "echo_handler = demo_handler\<lparr>h_handle := (\<lambda>w c r. ([ApiSend (rq_msgid r) (rq_payload r)], True))\<rparr>"

definition session_link :: link where
  "session_link = \<lparr>client_end = (new_rpc ''host'' None)\<lparr>owner := new_client\<lparr>cl_status := CONNECT, cl_started := True, cl_seed := 1\<rparr>,
       iothr := (iothr (new_rpc ''host'' None))\<lparr>io_open := True, io_reply := True, io_seq := 1, io_ops := [(1, generate_read_tag 1)]\<rparr>\<rparr>,
     server_end = one_world\<lparr>conns := [0 \<mapsto> one_conn\<lparr>conn_status := READ\<rparr>], pending := [(OpRead, JConn 0)]\<rparr>,
     reqs_read = 0, reps_read = 0\<rparr>"

definition session_events :: "link_event list" where
  "session_events = [CallMade 1 5 ''a'' 1, CallMade 2 6 ''b'' 2, LoopTurned, RequestRead 0, RequestWritten 1, ReplyRead 0, RequestRead 1,
     ReplyWritten 0, ReplyRead 0, Polled 3 0, RequestWritten 0, ReplyWritten 1, RequestRead 0, ReplyRead 0, ReplyRead 1, ReplyRead 0, Polled 4 0]"

lemma session_run:
  "case run_steps (link_step 1 (Suc 1) chatty_app demo_codec echo_handler 0) session_link session_events of
     Inl _ \<Rightarrow> False
   | Inr L \<Rightarrow> answers_in (history L) = [(AppCb 1, 0, ''a''), (AppCb 2, 0, ''b''), (AppCb 3, 0, ''c'')]"
  by code_simp

theorem calls_answered_witness:
  "\<exists>L' C A. run_steps (link_step 1 (Suc 1) chatty_app demo_codec echo_handler 0) session_link session_events = Inr L' \<and>
    answers_in (history L') = [(AppCb 1, 0, ''a''), (AppCb 2, 0, ''b''), (AppCb 3, 0, ''c'')] \<and>
    made (history L') C \<and> distinct A \<and> list_all2 (right_answer (\<lambda>type p. p) (times session_events) C) A (answers_in (history L'))"
proof -
  have "attending 0 (server_end session_link) one_stream"
    by (simp add: attending_def session_link_def one_world_def one_conn_def one_stream_def world_initial_def flowing_def sv_ref_def new_svstream_def)
  then have s: "in_session 0 session_link"
    by (auto simp: in_session_def session_link_def Let_def new_client_def new_rpc_def new_io_thread_def io_initialize_def one_stream_def
        sent_by_def sv_ref_def new_svstream_def)
  have c: "caller 11 chatty_app" by (simp add: caller_def chatty_app_def demo_app_def cl_ready_def)
  have v: "serves (\<lambda>type p. p) echo_handler 0" by (simp add: serves_def echo_handler_def)
  have n: "11 + length session_events \<le> 1999999999" "unat (cl_seed (owner (client_end session_link))) + length session_events \<le> 1999999999"
    by (simp_all add: session_events_def session_link_def)
  have "history session_link = []" by (simp add: history_def session_link_def new_client_def)
  with calls_answered [OF s c v n, of 1 1 demo_codec] session_run show ?thesis by (auto simp del: run_steps.simps split: sum.splits)
qed

end
