(* ===== verification/Event_Handler.thy ===== *)
theory Event_Handler
  imports Server_Behaviour
begin

text \<open>
  The two handlers of \<open>mtk.cpp\<close> that stand between a connection and the application: \<open>FunctionHandler\<close>, which calls the
  closures of \<open>mtk_svconf_t\<close>, and \<open>QueueReadHandler\<close>, whose closures put an event into a queue for the
  application to take, and which defers every login.
\<close>

section \<open>Closures\<close>

text \<open>
  The closures of \<open>mtk_svconf_t\<close>: what they call, then what they return. The handler and the acceptor are called
  without a test and have to be valid; the closer is optional.
\<close>

record svconf =
  cb_handler :: "world \<Rightarrow> nat \<Rightarrow> int \<Rightarrow> string \<Rightarrow> api list \<times> int"
  cb_acceptor :: "world \<Rightarrow> nat \<Rightarrow> u32 \<Rightarrow> u64 \<Rightarrow> string \<Rightarrow> api list \<times> u64 \<times> string"
  cb_closer :: "(world \<Rightarrow> nat \<Rightarrow> api list) option"

definition function_handle :: "svconf \<Rightarrow> world \<Rightarrow> nat \<Rightarrow> request \<Rightarrow> api list \<times> bool" where
  "function_handle conf w c req =
     (let (cmds, r) = cb_handler conf w c (sint (rq_type req)) (rq_payload req) in (cmds, r \<ge> 0))"

definition function_close :: "svconf \<Rightarrow> world \<Rightarrow> nat \<Rightarrow> api list" where
  "function_close conf w c = (case cb_closer conf of Some f \<Rightarrow> f w c | None \<Rightarrow> [])"

definition function_login :: "codec \<Rightarrow> svconf \<Rightarrow> world \<Rightarrow> nat \<Rightarrow> request \<Rightarrow> api list \<times> u64 \<times> string" where
  "function_login cd conf w c req =
     (let (n, creq) = unpack (dec_connect cd) merge_connect (rq_payload req) new_connect in
      if n < 0 then ([], 0, [])
      else cb_acceptor conf w c (rq_msgid req) (cn_id creq) (cn_payload creq))"

definition function_handler :: "codec \<Rightarrow> svconf \<Rightarrow> handler" where
  "function_handler cd conf = \<lparr>h_login = function_login cd conf, h_handle = function_handle conf, h_close = function_close conf\<rparr>"

section \<open>Events\<close>

definition svconn_cid :: "world \<Rightarrow> nat \<Rightarrow> u64" where
  "svconn_cid w c = (case conns w c of Some cn \<Rightarrow> conn_cid cn | None \<Rightarrow> 0)"

definition svconn_msgid :: "world \<Rightarrow> nat \<Rightarrow> u32" where
  "svconn_msgid w c = (case conns w c of Some cn \<Rightarrow> rq_msgid (conn_req cn) | None \<Rightarrow> 0)"

definition recv_event :: "world \<Rightarrow> nat \<Rightarrow> int \<Rightarrow> string \<Rightarrow> svevent" where
  "recv_event w c r p = \<lparr>ev_lcid = 0, ev_cid = svconn_cid w c, ev_msgid = svconn_msgid w c, ev_result = Some r, ev_data = p\<rparr>"

definition close_event :: "world \<Rightarrow> nat \<Rightarrow> svevent" where
  "close_event w c = \<lparr>ev_lcid = 0, ev_cid = svconn_cid w c, ev_msgid = 0, ev_result = Some 0, ev_data = []\<rparr>"

text \<open>The result of an accept event is not written.\<close>

definition accept_event :: "u64 \<Rightarrow> u32 \<Rightarrow> u64 \<Rightarrow> string \<Rightarrow> svevent" where
  "accept_event lcid msgid cid p = \<lparr>ev_lcid = lcid, ev_cid = cid, ev_msgid = msgid, ev_result = None, ev_data = p\<rparr>"

definition queue_recv :: "world \<Rightarrow> nat \<Rightarrow> int \<Rightarrow> string \<Rightarrow> api list \<times> int" where
  "queue_recv w c r p = ([ApiPush (recv_event w c r p)], 0)"

definition queue_close :: "world \<Rightarrow> nat \<Rightarrow> api list" where
  "queue_close w c = [ApiPush (close_event w c)]"

text \<open>\<open>mtk_svconn_defer_login\<close> returns the login id it takes from the counter.\<close>

definition queue_accept :: "world \<Rightarrow> nat \<Rightarrow> u32 \<Rightarrow> u64 \<Rightarrow> string \<Rightarrow> api list \<times> u64 \<times> string" where
  "queue_accept w c msgid cid p = ([ApiDefer, ApiPush (accept_event (cid_seed w + 1) msgid cid p)], 0, [])"

definition queue_conf :: svconf where
  "queue_conf = \<lparr>cb_handler = queue_recv, cb_acceptor = queue_accept, cb_closer = Some queue_close\<rparr>"

definition queue_handler :: "codec \<Rightarrow> handler" where
  "queue_handler cd = function_handler cd queue_conf"

lemma queue_handler_quiet: "quiet (queue_handler cd)"
  by (auto simp: quiet_def queue_handler_def function_handler_def function_login_def function_handle_def function_close_def queue_conf_def
      queue_recv_def queue_accept_def queue_close_def Let_def split: prod.splits)

lemma tq_append [simp]: "tq_enqueue x q = q @ [x]"
  by (simp add: tq_enqueue_def)

section \<open>Logins\<close>

lemma queued_login_step:
  assumes "logging_in c cn st w" and "dec_connect cd (rq_payload (conn_req cn)) = Some creq"
  defines "l \<equiv> cid_seed w + 1"
  shows "conn_step k cd (queue_handler cd) c w = Inr (w\<lparr>
      conns := (conns w)(c \<mapsto> cn\<lparr>conn_status := WAIT_LOGIN, conn_lcid := l\<rparr>),
      cid_seed := l, pmap := (pmap w)(l \<mapsto> c),
      workers := (workers w)(conn_worker cn := (workers w (conn_worker cn))\<lparr>connections := connections (workers w (conn_worker cn)) @ [c]\<rparr>),
      deferred := deferred w @ [(c, l)],
      svevents := svevents w @ [accept_event l (rq_msgid (conn_req cn)) (cn_id creq) (cn_payload creq)]\<rparr>)"
proof -
  have c: "conns w c = Some cn" "conn_status cn = LOGIN" "rq_kind (conn_req cn) \<noteq> Close" "\<not> dying (workers w (conn_worker cn))"
    using assms(1) by (simp_all add: logging_in_def)
  have h: "h_login (queue_handler cd) w c (conn_req cn) =
      ([ApiDefer, ApiPush (accept_event l (rq_msgid (conn_req cn)) (cn_id creq) (cn_payload creq))], 0, [])"
    using assms(2) by (simp add: queue_handler_def function_handler_def function_login_def unpack_def merge_new_connect
        queue_conf_def queue_accept_def l_def)
  show ?thesis
    using c by (simp add: conn_step_def step_login_def get_conn_def conn_login_def h defer_login_eq [OF c(1)] wait_login_accept_def
        l_def Let_def)
qed

text \<open>
  Property C29. A server that reads from a queue: a login message makes the connection wait and puts one event into the queue, which
  carries the id the client asks for, its text, the message id and the login id under which the connection
  waits. When the application answers with what the event carries, the worker's next round registers the
  connection under the id given and sends the reply to the client's message.
\<close>

theorem queued_login_completes:
  assumes "logging_in c cn st w" and "dec_connect cd (rq_payload (conn_req cn)) = Some creq" and "codec_ok cd"
    and "sv_tasks st = []" and "cid_seed w \<noteq> -1" and "cid \<noteq> 0"
  shows "\<exists>w1 e w2 w3 st'. conn_step k cd (queue_handler cd) c w = Inr w1 \<and> svevents w1 = svevents w @ [e] \<and>
     ev_cid e = cn_id creq \<and> ev_data e = cn_payload creq \<and> ev_lcid e \<noteq> 0 \<and> find_deferred (ev_lcid e) w1 = Some c \<and>
     finish_login cd (ev_lcid e) cid (ev_msgid e) data w1 = Inr w2 \<and>
     conn_run (Suc (Suc (Suc n))) cd (queue_handler cd) (ConsumeTask 3) c w2 = Inr w3 \<and>
     cmap w3 = (cmap w)(cid \<mapsto> c) \<and> streams w3 c = Some st' \<and>
     sent_by st' = sent_by st @ [connect_reply cd (rq_msgid (conn_req cn)) cid data]"
proof -
  let ?l = "cid_seed w + 1" and ?cn = "cn\<lparr>conn_status := WAIT_LOGIN, conn_lcid := cid_seed w + 1\<rparr>"
  obtain w1 where w1: "conn_step k cd (queue_handler cd) c w = Inr w1"
    "conns w1 c = Some ?cn" "streams w1 = streams w" "pmap w1 ?l = Some c" "cmap w1 = cmap w"
    "\<not> dying (workers w1 (conn_worker cn))"
    "svevents w1 = svevents w @ [accept_event ?l (rq_msgid (conn_req cn)) (cn_id creq) (cn_payload creq)]"
    using queued_login_step [OF assms(1,2), of k] assms(1) by (simp add: logging_in_def)
  have l: "?l \<noteq> 0" using assms(5) by (metis add_eq_0_iff2)
  have wait: "waiting c ?cn st w1"
    using w1 assms(1,4) l by (simp add: waiting_def logging_in_def)
  from deferred_granted_run [OF wait assms(3,6), of "rq_msgid (conn_req cn)" data n "queue_handler cd"]
  obtain w2 w3 st' where "finish_login cd ?l cid (rq_msgid (conn_req cn)) data w1 = Inr w2"
    "conn_run (Suc (Suc (Suc n))) cd (queue_handler cd) (ConsumeTask 3) c w2 = Inr w3"
    "cmap w3 = (cmap w1)(cid \<mapsto> c)" "streams w3 c = Some st'"
    "sent_by st' = sent_by st @ [connect_reply cd (rq_msgid (conn_req cn)) cid data]"
    by (auto simp del: conn_run.simps)
  with w1 l show ?thesis
    by (intro exI [of _ w1] exI [of _ "accept_event ?l (rq_msgid (conn_req cn)) (cn_id creq) (cn_payload creq)"] exI [of _ w2]
        exI [of _ w3] exI [of _ st']) (simp add: accept_event_def find_deferred_def map_find_def del: conn_run.simps)
qed

definition queue_world :: world where
  "queue_world = one_world\<lparr>conns := [0 \<mapsto> one_conn\<lparr>conn_req := new_request\<lparr>rq_msgid := 4, rq_payload := enc_connect demo_codec \<lparr>cn_id = 9, cn_payload = ''hi''\<rparr>\<rparr>\<rparr>]\<rparr>"

theorem queued_login_completes_witness:
  "\<exists>w1 e. conn_step 1 demo_codec (queue_handler demo_codec) 0 queue_world = Inr w1 \<and> svevents w1 = [e] \<and> ev_cid e = 9 \<and> ev_data e = ''hi''"
proof -
  let ?cn = "one_conn\<lparr>conn_req := new_request\<lparr>rq_msgid := 4, rq_payload := enc_connect demo_codec \<lparr>cn_id = 9, cn_payload = ''hi''\<rparr>\<rparr>\<rparr>"
  have "logging_in 0 ?cn one_stream queue_world"
    using one_world_logging_in by (simp add: logging_in_def queue_world_def one_world_def new_request_def)
  moreover have "dec_connect demo_codec (rq_payload (conn_req ?cn)) = Some \<lparr>cn_id = 9, cn_payload = ''hi''\<rparr>"
    using demo_codec_ok by (simp add: codec_ok_def)
  moreover have "sv_tasks one_stream = []" "cid_seed queue_world \<noteq> -1" "svevents queue_world = []"
    by (simp_all add: one_stream_def sv_ref_def new_svstream_def queue_world_def one_world_def world_initial_def)
  ultimately show ?thesis
    using queued_login_completes [of 0 ?cn one_stream queue_world demo_codec "\<lparr>cn_id = 9, cn_payload = ''hi''\<rparr>" 7 1 "''''" 0, OF _ _ demo_codec_ok]
    by (auto simp del: conn_run.simps)
qed

section \<open>Messages\<close>

text \<open>
  A message of a logged-in client becomes one event, with the id of the connection, the id and type of the
  message and its payload, and the connection reads on.
\<close>

theorem queued_message:
  assumes "conns w c = Some cn" and "streams w c = Some st" and "conn_status cn = READ" and "rq_kind (conn_req cn) \<noteq> Close"
    and "\<not> dying (workers w (conn_worker cn))"
  shows "\<exists>w'. conn_step k cd (queue_handler cd) c w = Inr w' \<and> conns w' = conns w \<and>
     svevents w' = svevents w @ [\<lparr>ev_lcid = 0, ev_cid = conn_cid cn, ev_msgid = rq_msgid (conn_req cn),
       ev_result = Some (sint (rq_type (conn_req cn))), ev_data = rq_payload (conn_req cn)\<rparr>] \<and>
     pending w' = pending w @ [(OpRead, JConn c)]"
  using assms
  by (simp add: conn_step_def step_read_def get_conn_def queue_handler_def function_handler_def function_handle_def queue_conf_def
      queue_recv_def recv_event_def svconn_cid_def svconn_msgid_def conn_recv_def on_sv_def get_sv_def add_pending_def Let_def)

theorem queued_message_witness:
  "\<exists>w'. conn_step 1 demo_codec (queue_handler demo_codec) 0 (one_world\<lparr>conns := [0 \<mapsto> one_conn\<lparr>conn_status := READ, conn_cid := 7\<rparr>]\<rparr>) = Inr w' \<and>
     map ev_cid (svevents w') = [7]"
proof -
  let ?w = "one_world\<lparr>conns := [0 \<mapsto> one_conn\<lparr>conn_status := READ, conn_cid := 7\<rparr>]\<rparr>"
  have w: "conns ?w 0 = Some (one_conn\<lparr>conn_status := READ, conn_cid := 7\<rparr>)" "streams ?w 0 = Some one_stream"
    "rq_kind (conn_req one_conn) \<noteq> Close" "\<not> dying (workers ?w 0)" "conn_worker one_conn = 0" "svevents ?w = []"
    by (simp_all add: one_world_def one_conn_def world_initial_def new_request_def)
  from queued_message [OF w(1,2), of 1 demo_codec] w(3-6) show ?thesis by auto
qed

text \<open>
  The event of a closed connection cannot be told from the event of an empty message of type 0 and message id 0.
\<close>

theorem close_event_ambiguous:
  assumes "conns w c = Some cn" and "rq_msgid (conn_req cn) = 0"
  shows "queue_close w c = fst (queue_recv w c 0 [])"
  using assms by (simp add: queue_close_def queue_recv_def close_event_def recv_event_def svconn_msgid_def)

end
