(* ===== verification/Server_Start.thy ===== *)
theory Server_Start
  imports Rpc_IO
begin

text \<open>
  How a server starts and ends: \<open>IServer\<close> (\<open>server.h\<close>, \<open>server.cpp\<close>), \<open>Worker\<close> as a thread (\<open>worker.h\<close>, \<open>worker.cpp\<close>) and the
  \<open>Server\<close> of \<open>mtk.cpp\<close>. Files and gRPC's server builder are parameters: what a path names, and whether the server
  could be built. What \<open>Kick\<close> does is the list of its actions; the handshake between the thread that
  starts a server and the server's own is a step relation on the mutex, the condition and the two threads.
\<close>

section \<open>Credentials\<close>

text \<open>What \<open>stat\<close>, \<open>fopen\<close> and \<open>fread\<close> find at a path.\<close>

datatype file_state = NoFile | Unreadable | Readable string

type_synonym files = "string \<Rightarrow> file_state"

text \<open>The result of \<open>LoadFile\<close>, and the string it leaves in \<open>content\<close>.\<close>

definition load_file :: "files \<Rightarrow> string option \<Rightarrow> string \<Rightarrow> bool \<times> string" where
  "load_file fs path content =
     (case path of
        None \<Rightarrow> (False, content)
      | Some p \<Rightarrow> (case fs p of NoFile \<Rightarrow> (True, p) | Unreadable \<Rightarrow> (False, content) | Readable text \<Rightarrow> (True, text)))"

record server_cred =
  root_certs :: string
  private_key :: string
  cert_chain :: string

definition server_create_cred :: "files \<Rightarrow> mtk_addr \<Rightarrow> server_cred option" where
  "server_create_cred fs a =
     (let (ok1, cert) = load_file fs (addr_cert a) []; (ok2, ca) = load_file fs (addr_ca a) []; (ok3, key) = load_file fs (addr_key a) [] in
      if \<not> ok1 \<or> \<not> ok2 \<or> \<not> ok3 then None
      else Some \<lparr>root_certs = ca, private_key = key, cert_chain = cert\<rparr>)"

text \<open>
  A server whose certificate, key or authority is missing or cannot be read listens all the same, without encryption;
  the client with the same address takes the texts as they are, and asks for encryption as soon as it has a
  certificate.
\<close>

theorem partial_credentials_are_insecure:
  assumes "addr_cert a = Some cert" and "addr_ca a = None"
  shows "server_create_cred fs a = None" and "create_cred a \<noteq> Inr None"
  using assms by (auto simp: server_create_cred_def load_file_def create_cred_def split: prod.splits option.splits)

text \<open>With three texts that name no files, server and client use the same texts.\<close>

theorem raw_credentials_agree:
  assumes "fs cert = NoFile" and "fs key = NoFile" and "fs ca = NoFile"
    and "addr_cert a = Some cert" and "addr_key a = Some key" and "addr_ca a = Some ca"
  shows "\<exists>s c. server_create_cred fs a = Some s \<and> create_cred a = Inr (Some c) \<and>
    cert_chain s = pem_cert_chain c \<and> private_key s = pem_private_key c \<and> root_certs s = pem_root_certs c"
  using assms by (simp add: server_create_cred_def load_file_def create_cred_def)

section \<open>Kick\<close>

datatype kick_action =
    AddPort string "server_cred option"
  | RegisterService
  | NewWorker nat
  | BuildAndStart bool
  | Launch nat
  | NotifyReady
  | WaitServer
  | ShutdownQueue nat
  | JoinWorker nat

definition kick_setup :: "files \<Rightarrow> mtk_addr list \<Rightarrow> nat \<Rightarrow> kick_action list" where
  "kick_setup fs addrs n_worker =
     map (\<lambda>a. AddPort (addr_host a) (server_create_cred fs a)) addrs @ [RegisterService] @ map NewWorker [0..<n_worker]"

definition kick :: "files \<Rightarrow> bool \<Rightarrow> mtk_addr list \<Rightarrow> nat \<Rightarrow> kick_action list" where
  "kick fs built addrs n_worker =
     kick_setup fs addrs n_worker @ [BuildAndStart built] @
     (if \<not> built then [NotifyReady]
      else map Launch [0..<n_worker] @ [NotifyReady, WaitServer] @ map ShutdownQueue [0..<n_worker] @ map JoinWorker [0..<n_worker])"

text \<open>
  The starting thread is told exactly once, whether or not the server could be built; no worker runs before that without
  having been launched, and every queue is shut down before any worker is waited for.
\<close>

lemma kick_notifies_once: "length (filter (\<lambda>a. a = NotifyReady) (kick fs built addrs n)) = 1"
proof -
  have "filter (\<lambda>a. a = NotifyReady) (map f xs) = []" if "\<And>x. f x \<noteq> NotifyReady" for f :: "'a \<Rightarrow> kick_action" and xs
    using that by (induction xs) auto
  then show ?thesis by (simp add: kick_def kick_setup_def)
qed

section \<open>What \<open>Kick\<close> leaves of its workers\<close>

text \<open>
  The thread of a worker and its completion queue. Waiting for the thread of a worker whose queue is not shut down
  does not return: the loop of the worker ends only at \<open>SHUTDOWN\<close>.
\<close>

record worker_thread =
  wt_launched :: bool
  wt_joinable :: bool
  wt_queue_shut :: bool

datatype kick_fault = NeverReturns | NoSuchWorker | LaunchedTwice

definition new_worker_thread :: worker_thread where
  "new_worker_thread = \<lparr>wt_launched = False, wt_joinable = False, wt_queue_shut = False\<rparr>"

definition worker_launch :: "worker_thread \<Rightarrow> kick_fault + worker_thread" where
  "worker_launch t = (if wt_joinable t then Inl LaunchedTwice else Inr (t\<lparr>wt_launched := True, wt_joinable := True\<rparr>))"

definition worker_shutdown :: "worker_thread \<Rightarrow> kick_fault + worker_thread" where
  "worker_shutdown t = Inr (t\<lparr>wt_queue_shut := True\<rparr>)"

definition worker_join :: "worker_thread \<Rightarrow> kick_fault + worker_thread" where
  "worker_join t =
     (if wt_joinable t then (if wt_queue_shut t then Inr (t\<lparr>wt_joinable := False\<rparr>) else Inl NeverReturns) else Inr t)"

record kick_state =
  ks_ports :: "(string \<times> server_cred option) list"
  ks_workers :: "worker_thread list"
  ks_built :: bool
  ks_notified :: nat

definition kick_initial :: kick_state where
  "kick_initial = \<lparr>ks_ports = [], ks_workers = [], ks_built = False, ks_notified = 0\<rparr>"

definition on_worker :: "(worker_thread \<Rightarrow> kick_fault + worker_thread) \<Rightarrow> nat \<Rightarrow> kick_state \<Rightarrow> kick_fault + kick_state" where
  "on_worker f i s =
     (if i < length (ks_workers s) then bindE (f (ks_workers s ! i)) (\<lambda>t. Inr (s\<lparr>ks_workers := (ks_workers s)[i := t]\<rparr>))
      else Inl NoSuchWorker)"

fun kick_step :: "kick_state \<Rightarrow> kick_action \<Rightarrow> kick_fault + kick_state" where
  "kick_step s (AddPort host cred) = Inr (s\<lparr>ks_ports := ks_ports s @ [(host, cred)]\<rparr>)"
| "kick_step s RegisterService = Inr s"
| "kick_step s (NewWorker i) = Inr (s\<lparr>ks_workers := ks_workers s @ [new_worker_thread]\<rparr>)"
| "kick_step s (BuildAndStart built) = Inr (s\<lparr>ks_built := built\<rparr>)"
| "kick_step s (Launch i) = on_worker worker_launch i s"
| "kick_step s NotifyReady = Inr (s\<lparr>ks_notified := ks_notified s + 1\<rparr>)"
| "kick_step s WaitServer = Inr s"
| "kick_step s (ShutdownQueue i) = on_worker worker_shutdown i s"
| "kick_step s (JoinWorker i) = on_worker worker_join i s"

text \<open>A loop over the workers that does the same with each.\<close>

lemma each_worker:
  assumes "\<And>s i. kick_step s (A i) = on_worker f i s" and "f t = Inr t'"
  shows "ks_workers s = replicate n t \<Longrightarrow> run_steps kick_step s (map A [0..<n]) = Inr (s\<lparr>ks_workers := replicate n t'\<rparr>)"
proof -
  have "run_steps kick_step s (map A [0..<m]) = Inr (s\<lparr>ks_workers := replicate m t' @ replicate (n - m) t\<rparr>)"
    if "ks_workers s = replicate n t" "m \<le> n" for m
    using that
  proof (induction m)
    case 0
    then show ?case by (cases s) simp
  next
    case (Suc m)
    then have "n - m = Suc (n - Suc m)" by simp
    with Suc assms show ?case
      by (simp add: run_steps_append on_worker_def nth_append list_update_append replicate_app_Cons_same
          del: replicate_Suc) (simp add: replicate_append_same)
  qed
  from this [of n] show "ks_workers s = replicate n t \<Longrightarrow> run_steps kick_step s (map A [0..<n]) = Inr (s\<lparr>ks_workers := replicate n t'\<rparr>)"
    by simp
qed

lemma new_workers: "run_steps kick_step s (map NewWorker xs) = Inr (s\<lparr>ks_workers := ks_workers s @ replicate (length xs) new_worker_thread\<rparr>)"
  by (induction xs arbitrary: s) simp_all

lemma add_ports: "run_steps kick_step s (map (\<lambda>a. AddPort (f a) (g a)) as) = Inr (s\<lparr>ks_ports := ks_ports s @ map (\<lambda>a. (f a, g a)) as\<rparr>)"
  by (induction as arbitrary: s) simp_all


section \<open>The handshake of \<open>Start\<close>\<close>

text \<open>
  The starting thread: it takes the mutex, creates the server's thread, waits on the condition (which releases
  the mutex and takes it again) and returns. The server's thread: it sets the server up, takes the mutex,
  notifies one waiting thread, releases the mutex and goes on.
\<close>

datatype starter = Enter | Locked | Spawned | Waiting | Woken | Returned

datatype kicker = NotRunning | SettingUp | Holding | Notified | Running

datatype owner_of = Free | Starter | Kicker

record handshake =
  starter_at :: starter
  kicker_at :: kicker
  mutex :: owner_of

definition handshake_start :: handshake where
  "handshake_start = \<lparr>starter_at = Enter, kicker_at = NotRunning, mutex = Free\<rparr>"

inductive start_step :: "handshake \<Rightarrow> handshake \<Rightarrow> bool" where
  start_lock: "starter_at s = Enter \<Longrightarrow> mutex s = Free \<Longrightarrow> start_step s (s\<lparr>starter_at := Locked, mutex := Starter\<rparr>)"
| start_spawn: "starter_at s = Locked \<Longrightarrow> start_step s (s\<lparr>starter_at := Spawned, kicker_at := SettingUp\<rparr>)"
| start_wait: "starter_at s = Spawned \<Longrightarrow> start_step s (s\<lparr>starter_at := Waiting, mutex := Free\<rparr>)"
| start_relock: "starter_at s = Woken \<Longrightarrow> mutex s = Free \<Longrightarrow> start_step s (s\<lparr>starter_at := Returned, mutex := Free\<rparr>)"
| kick_lock: "kicker_at s = SettingUp \<Longrightarrow> mutex s = Free \<Longrightarrow> start_step s (s\<lparr>kicker_at := Holding, mutex := Kicker\<rparr>)"
| kick_notify: "kicker_at s = Holding \<Longrightarrow>
    start_step s (s\<lparr>kicker_at := Notified, starter_at := (if starter_at s = Waiting then Woken else starter_at s)\<rparr>)"
| kick_unlock: "kicker_at s = Notified \<Longrightarrow> start_step s (s\<lparr>kicker_at := Running, mutex := Free\<rparr>)"

inductive_cases start_stepE: "start_step s t"

inductive start_reachable :: "handshake \<Rightarrow> bool" where
  start_init: "start_reachable handshake_start"
| start_more: "start_reachable s \<Longrightarrow> start_step s t \<Longrightarrow> start_reachable t"

definition handshake_inv :: "handshake \<Rightarrow> bool" where
  "handshake_inv s \<longleftrightarrow>
     (kicker_at s = NotRunning \<longleftrightarrow> starter_at s \<in> {Enter, Locked}) \<and>
     (mutex s = Starter \<longleftrightarrow> starter_at s \<in> {Locked, Spawned}) \<and>
     (mutex s = Kicker \<longleftrightarrow> kicker_at s \<in> {Holding, Notified}) \<and>
     (kicker_at s \<in> {Notified, Running} \<longleftrightarrow> starter_at s \<in> {Woken, Returned})"

lemma handshake_step: "start_step s t \<Longrightarrow> handshake_inv s \<Longrightarrow> handshake_inv t"
  by (induction rule: start_step.induct) (auto simp: handshake_inv_def intro: starter.exhaust)

lemma handshake_reachable: "start_reachable s \<Longrightarrow> handshake_inv s"
proof (induction rule: start_reachable.induct)
  case start_init
  then show ?case by (simp add: handshake_inv_def handshake_start_def)
next
  case (start_more s t)
  then show ?case by (blast intro: handshake_step)
qed

text \<open>
  Property C38. The notification cannot be lost, and starting a server never hangs: whenever neither thread can go on, the starting
  thread has returned, and the server's thread has notified it before.
\<close>

theorem start_returns:
  assumes "start_reachable s" and "\<And>t. \<not> start_step s t"
  shows "starter_at s = Returned \<and> kicker_at s = Running"
proof -
  have inv: "handshake_inv s" by (rule handshake_reachable [OF assms(1)])
  show ?thesis
  proof (cases "starter_at s")
    case Enter
    with inv have "mutex s = Free" by (cases "mutex s") (auto simp: handshake_inv_def)
    with Enter start_lock assms(2) show ?thesis by blast
  next
    case Locked
    then show ?thesis using start_spawn assms(2) by blast
  next
    case Spawned
    then show ?thesis using start_wait assms(2) by blast
  next
    case Waiting
    with inv have "kicker_at s \<in> {SettingUp, Holding}" "kicker_at s = SettingUp \<longrightarrow> mutex s = Free"
      by (cases "kicker_at s"; cases "mutex s"; auto simp: handshake_inv_def)+
    then show ?thesis using kick_lock kick_notify assms(2) by blast
  next
    case Woken
    with inv have "kicker_at s \<in> {Notified, Running}" "kicker_at s = Running \<longrightarrow> mutex s = Free"
      by (cases "mutex s"; auto simp: handshake_inv_def)+
    then show ?thesis using Woken kick_unlock start_relock assms(2) by blast
  next
    case Returned
    with inv have "kicker_at s \<in> {Notified, Running}" by (simp add: handshake_inv_def)
    then show ?thesis using Returned kick_unlock assms(2) by blast
  qed
qed

theorem start_returns_witness:
  "\<exists>s. start_reachable s \<and> starter_at s = Returned \<and> kicker_at s = Running"
proof -
  let ?s = "\<lambda>a b m. \<lparr>starter_at = a, kicker_at = b, mutex = m\<rparr>"
  have "start_reachable (?s Enter NotRunning Free)" using start_init by (simp add: handshake_start_def)
  from start_more [OF this start_lock] have "start_reachable (?s Locked NotRunning Starter)" by simp
  from start_more [OF this start_spawn] have "start_reachable (?s Spawned SettingUp Starter)" by simp
  from start_more [OF this start_wait] have "start_reachable (?s Waiting SettingUp Free)" by simp
  from start_more [OF this kick_lock] have "start_reachable (?s Waiting Holding Kicker)" by simp
  from start_more [OF this kick_notify] have "start_reachable (?s Woken Notified Kicker)" by simp
  from start_more [OF this kick_unlock] have "start_reachable (?s Woken Running Free)" by simp
  from start_more [OF this start_relock] have r: "start_reachable (?s Returned Running Free)" by simp
  moreover have "\<not> start_step (?s Returned Running Free) t" for t by (auto elim: start_stepE)
  ultimately show ?thesis using start_returns by blast
qed

section \<open>The server object\<close>

text \<open>
  \<open>Server\<close> with what it inherits: its addresses, \<open>use_queue\<close> and \<open>n_worker\<close> of its configuration, whether the
  queue exists, its workers (each with \<open>dying_\<close>), whether \<open>server_\<close> is set and whether its thread is joinable.
\<close>

record server_obj =
  so_addrs :: "mtk_addr list"
  so_use_queue :: bool
  so_n_worker :: nat
  so_queue :: bool
  so_dying :: "bool list"
  so_server :: bool
  so_stopped :: bool
  so_joinable :: bool

definition new_server :: "mtk_addr list \<Rightarrow> bool \<Rightarrow> nat \<Rightarrow> server_obj" where
  "new_server addrs use_queue n_worker = \<lparr>so_addrs = addrs, so_use_queue = use_queue, so_n_worker = n_worker, so_queue = False,
     so_dying = [], so_server = False, so_stopped = False, so_joinable = False\<rparr>"

text \<open>\<open>Run\<close> up to the point where the starting thread is told, and the outcome of building the server.\<close>

definition server_run :: "bool \<Rightarrow> server_obj \<Rightarrow> server_obj" where
  "server_run built s =
     (let s1 = (if so_use_queue s then s\<lparr>so_queue := True\<rparr> else s)
      in s1\<lparr>so_dying := replicate (so_n_worker s1) False, so_server := built\<rparr>)"

definition server_start :: "bool \<Rightarrow> server_obj \<Rightarrow> server_obj" where
  "server_start built s = server_run built (s\<lparr>so_joinable := True\<rparr>)"

definition server_shutdown :: "server_obj \<Rightarrow> server_obj" where
  "server_shutdown s =
     (let s1 = s\<lparr>so_dying := map (\<lambda>_. True) (so_dying s)\<rparr> in if so_server s1 then s1\<lparr>so_stopped := True\<rparr> else s1)"

text \<open>
  \<open>mtk_listen\<close>: the pointer is given out before the server runs, and the call returns, when it is not exclusive,
  after the handshake. \<open>mtk_server_queue\<close> gives the queue, null when there is none.
\<close>

definition mtk_listen :: "bool \<Rightarrow> bool \<Rightarrow> mtk_addr list \<Rightarrow> bool \<Rightarrow> nat \<Rightarrow> server_obj" where
  "mtk_listen exclusive built addrs use_queue n_worker =
     (let sv = new_server addrs use_queue n_worker in if exclusive then server_run built sv else server_start built sv)"

definition mtk_server_queue :: "server_obj \<Rightarrow> bool" where
  "mtk_server_queue s = so_queue s"

text \<open>\<open>Join\<close>: a server whose thread was started is shut down and waited for; then it is deleted.\<close>

definition server_join :: "server_obj \<Rightarrow> server_obj" where
  "server_join s = (if so_joinable s then (server_shutdown s)\<lparr>so_joinable := False\<rparr> else s)"

text \<open>
  What the destructors free: the queue and the addresses of \<open>Server\<close>, the workers of \<open>IServer\<close>. A thread that is still
  joinable when it is destroyed ends the process.
\<close>

datatype server_fault = StillJoinable

definition server_delete :: "server_obj \<Rightarrow> server_fault + nat \<times> bool \<times> nat" where
  "server_delete s =
     (if so_joinable s then Inl StillJoinable else Inr (length (so_addrs s), so_queue s, length (so_dying s)))"

text \<open>
  A server that was started and is joined has told all of its workers to end, and is deleted with all it has; a server
  without workers or one that could not be built is, too.
\<close>

theorem joined_server_is_freed:
  assumes "s = mtk_listen exclusive built addrs use_queue n"
  shows "mtk_server_queue s = use_queue \<and>
    server_delete (server_join s) = Inr (length addrs, use_queue, n) \<and>
    (\<not> exclusive \<longrightarrow> so_dying (server_join s) = replicate n True \<and> so_stopped (server_join s) = built)"
  using assms
  by (auto simp: mtk_listen_def new_server_def server_run_def server_start_def server_join_def server_shutdown_def server_delete_def
      mtk_server_queue_def Let_def map_replicate_const)

end
