(* ===== verification/Worker_Loop.thy ===== *)
theory Worker_Loop
  imports Server_Behaviour
begin

text \<open>
  The loop of a worker's thread, \<open>Worker::Run\<close>: what \<open>AsyncNext\<close> answers drives it, and what other threads do between
  two turns is an event of theory \<open>Server_Events\<close>. The loop is shown to be a run of those events, so the invariants of
  the server side hold in it. \<open>TlsInit\<close>, \<open>TlsFin\<close> and \<open>Poll\<close> are empty in both handlers of \<open>mtk.cpp\<close>.
\<close>

section \<open>Turns\<close>

text \<open>
  \<open>QueueEvent n ok msg\<close> is the completion of the \<open>n\<close>-th operation in progress. A call of \<open>AsyncNext\<close> waits for 50
  milliseconds at most.
\<close>

datatype next_result = QueueShutdown | QueueEvent nat bool request | QueueTimeout

definition n_process :: int where "n_process = 3"

definition next_wait_millis :: nat where "next_wait_millis = 50"

definition worker_event :: "nat \<Rightarrow> codec \<Rightarrow> handler \<Rightarrow> next_result \<Rightarrow> world \<Rightarrow> conn_fault + world" where
  "worker_event k cd h r w = (case r of QueueEvent n ok msg \<Rightarrow> worker_complete k cd h n ok msg w | _ \<Rightarrow> Inr w)"

definition worker_turn :: "nat \<Rightarrow> codec \<Rightarrow> handler \<Rightarrow> nat \<Rightarrow> next_result \<Rightarrow> world \<Rightarrow> conn_fault + world" where
  "worker_turn k cd h wk r w = bindE (worker_event k cd h r w) (tick_loop k cd h 0 wk)"

datatype worker_input = Next next_result | Meanwhile server_event

text \<open>The result says whether the loop has returned.\<close>

fun worker_loop :: "nat \<Rightarrow> codec \<Rightarrow> handler \<Rightarrow> nat \<Rightarrow> worker_input list \<Rightarrow> world \<Rightarrow> conn_fault + world \<times> bool" where
  "worker_loop k cd h wk [] w = Inr (w, False)"
| "worker_loop k cd h wk (Meanwhile e # rest) w = bindE (server_step k cd h w e) (worker_loop k cd h wk rest)"
| "worker_loop k cd h wk (Next r # rest) w =
     (if r = QueueShutdown then bindE (shutdown_loop k cd h 0 wk w) (\<lambda>w1. Inr (w1, True))
      else bindE (worker_turn k cd h wk r w) (worker_loop k cd h wk rest))"

definition worker_run :: "nat \<Rightarrow> codec \<Rightarrow> handler \<Rightarrow> nat \<Rightarrow> worker_input list \<Rightarrow> world \<Rightarrow> conn_fault + world \<times> bool" where
  "worker_run k cd h wk inputs w = worker_loop k cd h wk inputs (worker_new wk w)"

section \<open>The loop as events\<close>

fun input_events :: "nat \<Rightarrow> worker_input \<Rightarrow> server_event list" where
  "input_events wk (Meanwhile e) = [e]"
| "input_events wk (Next (QueueEvent n ok msg)) = [Completed n ok msg, Ticked wk]"
| "input_events wk (Next QueueTimeout) = [Ticked wk]"
| "input_events wk (Next QueueShutdown) = []"

definition loop_events :: "nat \<Rightarrow> worker_input list \<Rightarrow> server_event list" where
  "loop_events wk inputs = Started wk # concat (map (input_events wk) inputs)"

lemma bindE_Inr_eta [simp]: "bindE r (\<lambda>x. Inr x) = r"
  by (cases r) simp_all

lemma turn_events:
  assumes "worker_turn k cd h wk r w \<noteq> Inl NoSuchEvent" and "r \<noteq> QueueShutdown"
  shows "worker_turn k cd h wk r w = run_steps (server_step k cd h) w (input_events wk (Next r))"
proof (cases r)
  case (QueueEvent n ok msg)
  with assms(1) have "n < length (pending w)"
    by (cases "n < length (pending w)") (simp_all add: worker_turn_def worker_event_def worker_complete_def)
  with QueueEvent show ?thesis by (simp add: worker_turn_def worker_event_def)
next
  case QueueTimeout
  then show ?thesis by (simp add: worker_turn_def worker_event_def)
qed (use assms(2) in simp)

lemma loop_is_events:
  assumes "Next QueueShutdown \<notin> set inputs" and "worker_loop k cd h wk inputs w \<noteq> Inl NoSuchEvent"
  shows "worker_loop k cd h wk inputs w =
    bindE (run_steps (server_step k cd h) w (concat (map (input_events wk) inputs))) (\<lambda>w'. Inr (w', False))"
  using assms
proof (induction inputs arbitrary: w)
  case Nil
  then show ?case by simp
next
  case (Cons i inputs)
  have "\<exists>e. worker_loop k cd h wk (i # inputs) w = bindE e (worker_loop k cd h wk inputs) \<and>
      (e \<noteq> Inl NoSuchEvent \<longrightarrow> e = run_steps (server_step k cd h) w (input_events wk i))"
  proof (cases i)
    case (Next r)
    with Cons.prems(1) turn_events [of k cd h wk r w] show ?thesis by auto
  next
    case (Meanwhile e)
    then show ?thesis by auto
  qed
  then obtain e where e: "worker_loop k cd h wk (i # inputs) w = bindE e (worker_loop k cd h wk inputs)"
    and eq: "e \<noteq> Inl NoSuchEvent \<longrightarrow> e = run_steps (server_step k cd h) w (input_events wk i)" by blast
  show ?case
  proof (cases e)
    case (Inl f)
    with e eq Cons.prems(2) show ?thesis by (simp add: run_steps_append flip: eq)
  next
    case (Inr w1)
    with e eq Cons.prems Cons.IH [of w1] show ?thesis by (simp add: run_steps_append flip: eq)
  qed
qed


definition demo_inputs :: "worker_input list" where
  "demo_inputs = [Next (QueueEvent 0 True new_request), Next QueueTimeout, Meanwhile (SentTo 7 1 ''x'')]"


text \<open>
  So a worker of a server whose application keeps to its side never uses a deleted object and never hangs, whatever its
  completion queue answers and whatever other threads call, until the queue is shut down.
\<close>

theorem worker_never_faults:
  assumes "polite h" and "quiet h" and "codec_ok cd" and "Next QueueShutdown \<notin> set inputs"
    and "5 * length (loop_events wk inputs) + 6 \<le> k"
  shows "(\<exists>w. worker_run k cd h wk inputs world_initial = Inr (w, False) \<and> server_inv cd h w) \<or>
    worker_run k cd h wk inputs world_initial = Inl NoSuchEvent"
proof -
  obtain w where w: "run_steps (server_step k cd h) world_initial (loop_events wk inputs) = Inr w" "server_inv cd h w"
    using server_runs_fin [OF world_initial_inv [OF assms(1,3)] assms(2), where N = 0] assms(5)
    by (fastforce simp: tasks_at_def world_initial_def)
  with loop_is_events [OF assms(4), of k cd h wk "worker_new wk world_initial"] show ?thesis
    by (auto simp: worker_run_def loop_events_def)
qed

text \<open>A worker that has no connections leaves its loop as soon as its queue is shut down.\<close>

lemma idle_worker_returns:
  assumes "connections (workers w wk) = []" and "0 < k"
  shows "worker_loop k cd h wk (Next QueueShutdown # rest) w = Inr (w, True)"
  using assms by (cases k) simp_all

end
