(* ===== verification/Conn_Handle.thy ===== *)
theory Conn_Handle
  imports Server_Behaviour
begin

text \<open>
  What stands around a connection: the handle \<open>Conn::Stream\<close> through which any thread reaches a stream, the
  \<open>StreamCloser\<close>, the members of \<open>Conn\<close> that pass on to its stream, and the functions of \<open>mtk.cpp\<close> on them. The
  operations by connection id of theory \<open>Server_World\<close> are shown to be what the code does with a handle; the
  two steps in which \<open>IServer::GetStream\<close> makes one are shown not to be safe when they are not taken together.
\<close>

section \<open>Handles\<close>

text \<open>A handle is its \<open>stream_\<close>, \<open>None\<close> when null. The class has no copy constructor: a copy takes no reference.\<close>

type_synonym stream_handle = "nat option"

definition handle_make :: "nat \<Rightarrow> world \<Rightarrow> conn_fault + world \<times> stream_handle" where
  "handle_make s w = bindE (on_sv s sv_ref w) (\<lambda>w1. Inr (w1, Some s))"

definition handle_default :: stream_handle where
  "handle_default = None"

definition handle_copy :: "stream_handle \<Rightarrow> world \<Rightarrow> conn_fault + world \<times> stream_handle" where
  "handle_copy h w = Inr (w, h)"

definition handle_drop :: "stream_handle \<Rightarrow> world \<Rightarrow> conn_fault + world" where
  "handle_drop h w = (case h of None \<Rightarrow> Inr w | Some s \<Rightarrow> stream_unref s w)"

definition handle_is_null :: "stream_handle \<Rightarrow> bool" where
  "handle_is_null h \<longleftrightarrow> h = None"

text \<open>
  \<open>GetStream\<close> looks the connection up while it holds \<open>cmap_mtx_\<close>, and reads its \<open>stream_\<close> after it has
  released it.
\<close>

definition get_stream_lookup :: "u64 \<Rightarrow> world \<Rightarrow> nat option" where
  "get_stream_lookup uid w = map_find (cmap w) uid"

definition get_stream_take :: "nat option \<Rightarrow> world \<Rightarrow> conn_fault + world \<times> stream_handle" where
  "get_stream_take found w =
     (case found of
        None \<Rightarrow> handle_copy handle_default w
      | Some c \<Rightarrow> bindE (get_conn c w) (\<lambda>_. handle_make c w))"

definition get_stream :: "u64 \<Rightarrow> world \<Rightarrow> conn_fault + world \<times> stream_handle" where
  "get_stream uid w = get_stream_take (get_stream_lookup uid w) w"

definition conn_get :: "u64 \<Rightarrow> world \<Rightarrow> conn_fault + world \<times> stream_handle" where
  "conn_get uid w = get_stream uid w"

text \<open>The shape of \<open>mtk_cid_*\<close>: get a handle, use it unless it is null, drop it at the end of the scope.\<close>

definition use_stream :: "u64 \<Rightarrow> (nat \<Rightarrow> world \<Rightarrow> conn_fault + world) \<Rightarrow> world \<Rightarrow> conn_fault + world" where
  "use_stream uid op w =
     bindE (conn_get uid w) (\<lambda>(w1, h).
     bindE (case h of None \<Rightarrow> Inr w1 | Some s \<Rightarrow> op s w1) (handle_drop h))"

lemma handle_drop_simps [simp]: "handle_drop None = Inr" "handle_drop (Some s) = stream_unref s"
  by (simp_all add: fun_eq_iff handle_drop_def)

text \<open>The operations by id are their operations on the stream under a handle.\<close>

theorem with_cid_is_use_stream: "with_cid uid op w = use_stream uid op w"
proof (cases "cmap w uid")
  case None
  then show ?thesis
    by (simp add: with_cid_def use_stream_def conn_get_def get_stream_def get_stream_lookup_def get_stream_take_def
        handle_copy_def handle_default_def map_find_def)
next
  case (Some c)
  have assoc: "bindE (bindE a f) g = bindE a (\<lambda>x. bindE (f x) g)"
    for a :: "'x + 'a" and f :: "'a \<Rightarrow> 'x + 'b" and g :: "'b \<Rightarrow> 'x + 'c" by (cases a) simp_all
  from Some show ?thesis
    by (simp add: with_cid_def use_stream_def conn_get_def get_stream_def get_stream_lookup_def get_stream_take_def
        handle_make_def map_find_def assoc)
qed

text \<open>Reading the user context through a handle leaves the world as it was.\<close>

lemma handle_round:
  assumes "streams w s = Some st" and "0 < refc st"
  shows "bindE (handle_make s w) (\<lambda>(w1, h). handle_drop h w1) = Inr w"
  using assms
  by (cases w) (auto simp: handle_make_def handle_drop_def on_sv_def get_sv_def stream_unref_def stream_gone_def sv_unref_def
      sv_ref_def fun_upd_idem)

section \<open>A connection that goes away in between\<close>

lemma delete_conn_gone: "delete_conn c w = Inr w' \<Longrightarrow> conns w' c = None"
  by (auto simp: delete_conn_def stream_unref_def stream_gone_def fault_simps split: option.splits)

lemma destroy_gone: "destroy h self c w = Inr w' \<Longrightarrow> conns w' c = None"
  by (auto simp: destroy_def fault_simps delete_conn_gone split: if_splits)

text \<open>
  Between the two steps of \<open>GetStream\<close> the worker may destroy the connection, which unregisters it under the same
  mutex and deletes it: the second step then reads the stream of a deleted connection.
\<close>

theorem get_stream_races:
  assumes "get_stream_lookup uid w = Some c" and "conn_run k cd h Destroy c w = Inr w'"
  shows "get_stream_take (get_stream_lookup uid w) w' = Inl UseAfterFree"
proof -
  from assms(2) have "conns w' c = None" by (cases k) (auto dest: destroy_gone)
  with assms(1) show ?thesis by (simp add: get_stream_take_def get_conn_def)
qed

definition closing_world :: world where
  "closing_world = one_world\<lparr>conns := [0 \<mapsto> one_conn\<lparr>conn_status := CLOSE, conn_cid := 7\<rparr>], cmap := [7 \<mapsto> 0]\<rparr>"

theorem get_stream_races_witness:
  "\<exists>w'. conn_run 9 demo_codec demo_handler Destroy 0 closing_world = Inr w' \<and>
     get_stream_take (get_stream_lookup 7 closing_world) w' = Inl UseAfterFree"
proof -
  have "case conn_run 9 demo_codec demo_handler Destroy 0 closing_world of Inl _ \<Rightarrow> False | Inr _ \<Rightarrow> True"
    by code_simp
  then obtain w' where w': "conn_run 9 demo_codec demo_handler Destroy 0 closing_world = Inr w'"
    by (auto split: sum.splits)
  have "get_stream_lookup 7 closing_world = Some 0"
    by (simp add: get_stream_lookup_def map_find_def closing_world_def)
  from get_stream_races [OF this w'] w' show ?thesis by blast
qed

text \<open>
  A handle that is copied gives its reference back twice: if only the connection held the stream, the stream is deleted
  while the connection still uses it.
\<close>

theorem copied_handle_drops_twice:
  assumes "conns w c = Some cn" and "streams w c = Some st" and "refc st = 1"
  shows "\<exists>w1 w2. handle_make c w = Inr (w1, Some c) \<and> handle_copy (Some c) w1 = Inr (w1, Some c) \<and>
    bindE (handle_drop (Some c) w1) (handle_drop (Some c)) = Inr w2 \<and> conns w2 c = Some cn \<and> conn_recv c w2 = Inl UseAfterFree"
  using assms
  by (simp add: handle_make_def handle_copy_def handle_drop_def on_sv_def get_sv_def stream_unref_def stream_gone_def
      sv_unref_def sv_ref_def conn_recv_def)

section \<open>Stream closers\<close>

definition closer_make :: "nat \<Rightarrow> world \<Rightarrow> conn_fault + world" where
  "closer_make s w = on_sv s sv_ref w"

definition closer_destroy :: "nat \<Rightarrow> world \<Rightarrow> conn_fault + world" where
  "closer_destroy s w = stream_unref s w"

definition closer_step :: "nat \<Rightarrow> world \<Rightarrow> conn_fault + world" where
  "closer_step s w = closer_destroy s w"

text \<open>Whatever its \<open>Finish\<close> ends with, a closer gives back the one reference it took.\<close>

lemma closer_processed: "process_job k cd h op (JCloser s) ok msg w = (if ok then closer_step s w else closer_destroy s w)"
  by (simp add: process_job_def closer_step_def closer_destroy_def)

lemma closer_round:
  assumes "streams w s = Some st" and "0 < refc st"
  shows "bindE (closer_make s w) (closer_step s) = Inr w"
  using handle_round [OF assms] assms
  by (simp add: closer_make_def closer_step_def closer_destroy_def handle_make_def handle_drop_def on_sv_def get_sv_def)

section \<open>Members of \<open>Conn\<close>\<close>

definition new_conn :: "nat \<Rightarrow> conn" where
  "new_conn wk = \<lparr>conn_worker = wk, conn_status = INIT, conn_req = new_request, conn_cid = 0, conn_lcid = 0\<rparr>"

definition conn_close :: "nat \<Rightarrow> world \<Rightarrow> conn_fault + world" where
  "conn_close c w = bindE (get_conn c w) (\<lambda>_. on_sv c sv_close w)"

definition internal_close :: "nat \<Rightarrow> world \<Rightarrow> conn_fault + world" where
  "internal_close c w = set_status c CLOSE w"

definition conn_rep :: "nat \<Rightarrow> u32 \<Rightarrow> string \<Rightarrow> world \<Rightarrow> conn_fault + world" where
  "conn_rep c msgid p w = bindE (get_conn c w) (\<lambda>_. stream_send c (setup_reply msgid p new_reply) w)"

definition conn_notify :: "nat \<Rightarrow> u32 \<Rightarrow> string \<Rightarrow> world \<Rightarrow> conn_fault + world" where
  "conn_notify c type p w = bindE (get_conn c w) (\<lambda>_. stream_send c (setup_notify type p new_reply) w)"

definition conn_throw :: "nat \<Rightarrow> u32 \<Rightarrow> proto_error \<Rightarrow> world \<Rightarrow> conn_fault + world" where
  "conn_throw c msgid e w = bindE (get_conn c w) (\<lambda>_. stream_send c (setup_throw msgid e new_reply) w)"

definition conn_add_task :: "nat \<Rightarrow> u32 \<Rightarrow> string \<Rightarrow> world \<Rightarrow> conn_fault + world" where
  "conn_add_task c type p w = bindE (get_conn c w) (\<lambda>_. on_sv c (sv_add_task type p) w)"

definition conn_sysrep :: "nat \<Rightarrow> u32 \<Rightarrow> string \<Rightarrow> world \<Rightarrow> conn_fault + world" where
  "conn_sysrep c msgid p w = bindE (get_conn c w) (\<lambda>_. stream_send c (setup_system_reply msgid p new_reply) w)"

definition conn_sys_task :: "nat \<Rightarrow> kind \<Rightarrow> string \<Rightarrow> world \<Rightarrow> conn_fault + world" where
  "conn_sys_task c k p w = bindE (get_conn c w) (\<lambda>_. on_sv c (sv_sys_task k p) w)"

definition attached_worker :: "nat \<Rightarrow> world \<Rightarrow> conn_fault + nat" where
  "attached_worker c w = bindE (get_conn c w) (\<lambda>cn. Inr (conn_worker cn))"

definition conn_set_user_ctx :: "nat \<Rightarrow> nat \<Rightarrow> bool \<Rightarrow> world \<Rightarrow> conn_fault + world" where
  "conn_set_user_ctx c ud dtor w = bindE (get_conn c w) (\<lambda>_. on_sv c (set_user_ctx ud dtor) w)"

definition conn_user_ctx :: "nat \<Rightarrow> world \<Rightarrow> conn_fault + nat option" where
  "conn_user_ctx c w = bindE (get_conn c w) (\<lambda>_. bindE (get_sv c w) (\<lambda>st. Inr (user_ctx st)))"

text \<open>The calls a callback makes through \<open>mtk_svconn_*\<close> are these members.\<close>

lemma run_api_members:
  "run_api c (ApiSend msgid p) = conn_rep c msgid p"
  "run_api c (ApiNotify type p) = conn_notify c type p"
  "run_api c (ApiError msgid p) = conn_throw c msgid (app_error p)"
  "run_api c (ApiTask type p) = conn_add_task c type p"
  "run_api c ApiClose = internal_close c"
  "run_api c (ApiPutCtx ud dtor) = conn_set_user_ctx c ud dtor"
  by (simp_all add: fun_eq_iff conn_rep_def conn_notify_def conn_throw_def conn_add_task_def internal_close_def conn_set_user_ctx_def)

text \<open>Finishing a login is a system task of the connection that waits.\<close>

lemma finish_login_task:
  "find_deferred lcid w = Some c \<Longrightarrow> finish_login cd lcid cid msgid data w =
     conn_sys_task c Login (enc_login cd \<lparr>lg_login_cid = lcid, lg_id = cid, lg_msgid = msgid, lg_payload = data\<rparr>)
       (w\<lparr>pmap := map_erase lcid (pmap w)\<rparr>)"
  by (simp add: finish_login_def find_deferred_def conn_sys_task_def Let_def)

definition svconn_getctx :: "nat \<Rightarrow> world \<Rightarrow> conn_fault + nat option" where
  "svconn_getctx c w = conn_user_ctx c w"

text \<open>A second context replaces the first, which no destructor will see.\<close>

lemma putctx_twice:
  assumes "conns w c = Some cn" and "streams w c = Some st"
  shows "bindE (run_api c (ApiPutCtx a da) w) (\<lambda>w1. run_api c (ApiPutCtx b True) w1) =
    Inr (w\<lparr>streams := (streams w)(c \<mapsto> st\<lparr>user_ctx := Some b, user_ctx_dtor := True\<rparr>)\<rparr>)"
  using assms by (simp add: on_sv_def get_sv_def get_conn_def set_user_ctx_def)

section \<open>Operating on the registry\<close>

definition scan_conn :: "((u64 \<rightharpoonup> nat) \<Rightarrow> (u64 \<rightharpoonup> nat)) \<Rightarrow> world \<Rightarrow> world" where
  "scan_conn op w = w\<lparr>cmap := op (cmap w)\<rparr>"

definition conn_operate :: "((u64 \<rightharpoonup> nat) \<Rightarrow> (u64 \<rightharpoonup> nat)) \<Rightarrow> world \<Rightarrow> world" where
  "conn_operate op w = scan_conn op w"

text \<open>\<open>GetPorts\<close> writes nothing into its buffer: the number of ports is always 0.\<close>

definition get_ports :: "int \<Rightarrow> int list \<Rightarrow> nat \<Rightarrow> int list \<times> nat" where
  "get_ports port_index ports_buf n_ports_buf = (ports_buf, 0)"

text \<open>The text of a log call of a connection, for any way to print ids.\<close>

definition conn_log_text :: "(u64 \<Rightarrow> string) \<Rightarrow> string \<Rightarrow> conn \<Rightarrow> string \<Rightarrow> string" where
  "conn_log_text show_id peer cn msg = ''tag:conn,id:'' @ show_id (conn_cid cn) @ '',a:'' @ peer @ '','' @ msg"

section \<open>Waiting logins through the C interface\<close>

definition svconn_defer_login :: "nat \<Rightarrow> world \<Rightarrow> conn_fault + world \<times> u64" where
  "svconn_defer_login c w =
     bindE (defer_login c w) (\<lambda>w1. bindE (get_conn c w1) (\<lambda>cn. Inr (w1, conn_lcid cn)))"

definition svconn_find_deferred :: "u64 \<Rightarrow> world \<Rightarrow> nat option" where
  "svconn_find_deferred lcid w = find_deferred lcid w"

definition svconn_finish_login :: "codec \<Rightarrow> u64 \<Rightarrow> u64 \<Rightarrow> u32 \<Rightarrow> string \<Rightarrow> world \<Rightarrow> conn_fault + world" where
  "svconn_finish_login cd lcid cid msgid data w = finish_login cd lcid cid msgid data w"

text \<open>
  The id \<open>mtk_svconn_defer_login\<close> returns is the one under which \<open>mtk_svconn_find_deferred\<close> finds the connection, until
  the login is finished; finishing it makes the id unknown and leaves one task for the worker.
\<close>

theorem deferred_id_found:
  assumes "conns w c = Some cn" and "streams w c = Some st"
  shows "\<exists>w1 l w2. svconn_defer_login c w = Inr (w1, l) \<and> svconn_find_deferred l w1 = Some c \<and>
    svconn_finish_login cd l cid msgid data w1 = Inr w2 \<and> svconn_find_deferred l w2 = None \<and>
    svconn_finish_login cd l cid' msgid' data' w2 = Inr w2 \<and>
    (\<exists>st2. streams w2 c = Some st2 \<and> sv_tasks st2 = sv_tasks st @ [setup_sys_task Login
       (enc_login cd \<lparr>lg_login_cid = l, lg_id = cid, lg_msgid = msgid, lg_payload = data\<rparr>) new_request])"
  using assms
  by (simp add: svconn_defer_login_def defer_login_eq [OF assms(1)] get_conn_def svconn_find_deferred_def find_deferred_def
      svconn_finish_login_def finish_login_def map_find_def map_erase_def on_sv_def get_sv_def sv_sys_task_def tq_enqueue_def Let_def)

theorem deferred_id_found_witness:
  "\<exists>w1 l. svconn_defer_login 0 one_world = Inr (w1, l) \<and> svconn_find_deferred l w1 = Some 0"
proof -
  have "conns one_world 0 = Some one_conn" "streams one_world 0 = Some one_stream" by (simp_all add: one_world_def)
  from deferred_id_found [OF this, of demo_codec 7 1 "''''" 8 2 "''''"] show ?thesis by blast
qed

end
