(* ===== verification/User_Ctx.thy ===== *)
theory User_Ctx
  imports Sv_Stream
begin

text \<open>
  What becomes of the user context of a stream that is destroyed. The usual build calls the context's destructor at once
  (\<open>sv_dtor\<close> of theory \<open>Sv_Stream\<close>); the build for OSX puts it into a queue, \<open>s_garbages\<close>, which the main
  thread empties with \<open>SweepUserCtx\<close>. Both are shown to destroy the same contexts in the same order.
\<close>

section \<open>The two builds\<close>

text \<open>The state of either build: the garbage (with a destructor, as all that is in it has) and the contexts destroyed.\<close>

record ctx_store =
  garbages :: "nat list"
  destroyed :: "nat list"

definition destroy_user_ctx_osx :: "svstream \<Rightarrow> ctx_store \<Rightarrow> ctx_store" where
  "destroy_user_ctx_osx s g =
     (case user_ctx s of
        None \<Rightarrow> g
      | Some ud \<Rightarrow> if user_ctx_dtor s then g\<lparr>garbages := tq_enqueue ud (garbages g)\<rparr> else g)"

definition sweep_user_ctx_osx :: "ctx_store \<Rightarrow> ctx_store" where
  "sweep_user_ctx_osx g = g\<lparr>garbages := [], destroyed := destroyed g @ tq_drain (garbages g)\<rparr>"

definition destroy_user_ctx :: "svstream \<Rightarrow> ctx_store \<Rightarrow> ctx_store" where
  "destroy_user_ctx s g =
     (case user_ctx s of
        None \<Rightarrow> g
      | Some ud \<Rightarrow> if user_ctx_dtor s then g\<lparr>destroyed := destroyed g @ [ud]\<rparr> else g)"

definition sweep_user_ctx :: "ctx_store \<Rightarrow> ctx_store" where
  "sweep_user_ctx g = g"

text \<open>\<open>mtk_svconn_sweep_ctx\<close> in either build.\<close>

definition svconn_sweep_ctx :: "bool \<Rightarrow> ctx_store \<Rightarrow> ctx_store" where
  "svconn_sweep_ctx osx g = (if osx then sweep_user_ctx_osx g else sweep_user_ctx g)"

datatype ctx_event = StreamGone svstream | Swept

fun ctx_step :: "bool \<Rightarrow> ctx_store \<Rightarrow> ctx_event \<Rightarrow> ctx_store" where
  "ctx_step osx g (StreamGone s) = (if osx then destroy_user_ctx_osx s g else destroy_user_ctx s g)"
| "ctx_step osx g Swept = svconn_sweep_ctx osx g"

definition ctx_store_initial :: ctx_store where
  "ctx_store_initial = \<lparr>garbages = [], destroyed = []\<rparr>"

section \<open>They agree\<close>

lemma destroy_is_dtor: "destroyed (destroy_user_ctx s g) = destroyed g @ fst (snd (sv_dtor s))"
  by (auto simp: destroy_user_ctx_def sv_dtor_def split: option.splits)

lemma osx_step:
  "destroyed (ctx_step True g e) @ garbages (ctx_step True g e) = destroyed (ctx_step False h e)"
  if "destroyed g @ garbages g = destroyed h"
  using that by (cases e)
    (auto simp: destroy_user_ctx_osx_def destroy_user_ctx_def svconn_sweep_ctx_def sweep_user_ctx_osx_def sweep_user_ctx_def
      tq_enqueue_def tq_drain_all split: option.splits)

lemma osx_run: "destroyed g @ garbages g = destroyed h \<Longrightarrow>
    destroyed (foldl (ctx_step True) g es) @ garbages (foldl (ctx_step True) g es) = destroyed (foldl (ctx_step False) h es)"
  by (induction es arbitrary: g h) (simp_all add: osx_step)

lemma usual_run: "destroyed (foldl (ctx_step False) h es) =
    destroyed h @ concat (map (\<lambda>e. case e of StreamGone s \<Rightarrow> fst (snd (sv_dtor s)) | Swept \<Rightarrow> []) es)"
proof (induction es arbitrary: h)
  case (Cons e es)
  then show ?case by (cases e) (simp_all add: destroy_is_dtor svconn_sweep_ctx_def sweep_user_ctx_def)
qed simp

text \<open>
  Whenever streams are destroyed and contexts swept, after one more sweep the two builds have called the same destructors in
  the same order: for every stream that is gone, once, that of the context it had last.
\<close>

theorem contexts_destroyed_once:
  "let osx = sweep_user_ctx_osx (foldl (ctx_step True) ctx_store_initial es); usual = foldl (ctx_step False) ctx_store_initial es in
    garbages osx = [] \<and> destroyed osx = destroyed usual \<and>
    destroyed usual = concat (map (\<lambda>e. case e of StreamGone s \<Rightarrow> fst (snd (sv_dtor s)) | Swept \<Rightarrow> []) es)"
  using osx_run [of ctx_store_initial ctx_store_initial es] usual_run [of ctx_store_initial es]
  by (simp add: sweep_user_ctx_osx_def tq_drain_all ctx_store_initial_def)

end
