(* ===== verification/Util_Api.thy ===== *)
theory Util_Api
  imports Logger Event_Queue
begin

text \<open>
  The utilities of \<open>mtk.h\<close>: time, log and slices as \<open>mtk.cpp\<close> gives them to the host, and the logger of the builds that
  do not call the writer at once: for OSX it queues the records for the main thread, and with
  \<open>NO_LOG_WRITE_CALLBACK\<close> it prints them.
\<close>

section \<open>Time\<close>

definition clock_now_parts :: "tspec \<Rightarrow> u64 \<times> u64" where
  "clock_now_parts ts = (fst ts, snd ts)"

definition mtk_time :: "tspec \<Rightarrow> u64" where
  "mtk_time ts = clock_now ts"

definition mtk_second :: "tspec \<Rightarrow> u64" where
  "mtk_second ts = fst (clock_now_parts ts)"

definition mtk_sleep :: "u64 \<Rightarrow> sleep_result list \<Rightarrow> (clock_fault + u64) option" where
  "mtk_sleep d rs = clock_sleep d rs"

definition mtk_pause :: "u64 \<Rightarrow> sleep_result list \<Rightarrow> (clock_fault + u64) option" where
  "mtk_pause d rs = clock_pause d rs"

text \<open>
  Until the year 2554 (\<open>2 ^ 64\<close> nanoseconds) the seconds of \<open>mtk_second\<close> are those of \<open>mtk_time\<close>.
\<close>

lemma seconds_of_time:
  assumes "unat (fst ts) * 10 ^ 9 + unat (snd ts) < 2 ^ 64" and "unat (snd ts) < 10 ^ 9"
  shows "unat (mtk_second ts) = unat (mtk_time ts) div 10 ^ 9"
proof -
  have eq: "mtk_time ts = fst ts * 1000000000 + snd ts"
    by (simp add: mtk_time_def clock_now_def to_timespec_def mult.assoc)
  have "unat (mtk_time ts) = (unat (fst ts) * 10 ^ 9 + unat (snd ts)) mod 2 ^ 64"
    unfolding eq by (simp add: unat_word_ariths mod_simps)
  with assms show ?thesis by (simp add: mtk_second_def clock_now_parts_def)
qed

section \<open>Levels\<close>

definition logger_trace where "logger_trace show_int now body l = logger_log show_int now trace body l"

definition logger_debug where "logger_debug show_int now body l = logger_log show_int now debug body l"

definition logger_info where "logger_info show_int now body l = logger_log show_int now info body l"

definition logger_warn where "logger_warn show_int now body l = logger_log show_int now warn body l"

definition logger_error where "logger_error show_int now body l = logger_log show_int now error body l"

definition logger_fatal where "logger_fatal show_int now body l = logger_log show_int now fatal body l"

definition logger_report where "logger_report show_int now body l = logger_log show_int now report body l"

text \<open>The functions of the levels never read outside the table of level names.\<close>

lemma levels_log:
  "\<exists>l'. logger_trace si now b l = Inr l'" "\<exists>l'. logger_debug si now b l = Inr l'" "\<exists>l'. logger_info si now b l = Inr l'"
  "\<exists>l'. logger_warn si now b l = Inr l'" "\<exists>l'. logger_error si now b l = Inr l'" "\<exists>l'. logger_fatal si now b l = Inr l'"
  "\<exists>l'. logger_report si now b l = Inr l'"
  by (simp_all add: logger_trace_def logger_debug_def logger_info_def logger_warn_def logger_error_def logger_fatal_def
      logger_report_def logger_log_def log_from_def level_name_def log_level_names_def)

section \<open>The builds of the logger\<close>

datatype log_build = PlainBuild | NoCallback | OsxBuild

text \<open>\<open>s_logs\<close> holds the records that wait for the main thread.\<close>

record queued_logger =
  ql_logger :: logger
  s_logs :: "string list"

definition svname :: "queued_logger \<Rightarrow> string" where
  "svname q = log_name (ql_logger q)"

definition print_chunk :: "string \<Rightarrow> bool \<Rightarrow> logger \<Rightarrow> logger" where
  "print_chunk s last_chunk l = l\<lparr>log_out := log_out l @ [(DefaultWriter, s, last_chunk)]\<rparr>"

definition build_write2 :: "log_build \<Rightarrow> string \<Rightarrow> string \<Rightarrow> queued_logger \<Rightarrow> queued_logger" where
  "build_write2 b body footer q =
     (let l = ql_logger q in
      case b of
        NoCallback \<Rightarrow> q\<lparr>ql_logger := print_chunk footer True (print_chunk body False l)\<rparr>
      | OsxBuild \<Rightarrow> if log_writer l \<noteq> DefaultWriter then q\<lparr>s_logs := tq_enqueue (body @ footer) (s_logs q)\<rparr>
                    else q\<lparr>ql_logger := write2 body footer l\<rparr>
      | PlainBuild \<Rightarrow> q\<lparr>ql_logger := write2 body footer l\<rparr>)"

definition build_write1 :: "log_build \<Rightarrow> string \<Rightarrow> queued_logger \<Rightarrow> queued_logger" where
  "build_write1 b body q =
     (let l = ql_logger q in
      case b of
        NoCallback \<Rightarrow> q\<lparr>ql_logger := print_chunk body True l\<rparr>
      | OsxBuild \<Rightarrow> if log_writer l \<noteq> DefaultWriter then q\<lparr>s_logs := tq_enqueue body (s_logs q)\<rparr>
                    else q\<lparr>ql_logger := write1 body l\<rparr>
      | PlainBuild \<Rightarrow> q\<lparr>ql_logger := write1 body l\<rparr>)"

definition flush_from_main_thread :: "log_build \<Rightarrow> queued_logger \<Rightarrow> queued_logger" where
  "flush_from_main_thread b q =
     (case b of
        OsxBuild \<Rightarrow> q\<lparr>ql_logger := foldl (\<lambda>l s. call_writer s True l) (ql_logger q) (tq_drain (s_logs q)), s_logs := []\<rparr>
      | _ \<Rightarrow> q)"

definition mtk_log_flush :: "log_build \<Rightarrow> queued_logger \<Rightarrow> queued_logger" where
  "mtk_log_flush b q = flush_from_main_thread b q"

definition mtk_log_config :: "string \<Rightarrow> nat option \<Rightarrow> queued_logger \<Rightarrow> queued_logger" where
  "mtk_log_config name cb q = q\<lparr>ql_logger := configure cb name (ql_logger q)\<rparr>"

datatype log_op = LogWrite string "string option" | LogFlush

fun log_op_step :: "log_build \<Rightarrow> queued_logger \<Rightarrow> log_op \<Rightarrow> queued_logger" where
  "log_op_step b q (LogWrite body (Some footer)) = build_write2 b body footer q"
| "log_op_step b q (LogWrite body None) = build_write1 b body q"
| "log_op_step b q LogFlush = mtk_log_flush b q"

definition op_records :: "log_op \<Rightarrow> string list" where
  "op_records p = (case p of LogWrite body (Some footer) \<Rightarrow> [body @ footer] | LogWrite body None \<Rightarrow> [body] | LogFlush \<Rightarrow> [])"

definition records_of :: "queued_logger \<Rightarrow> string list" where
  "records_of q = log_records [] (log_out (ql_logger q)) @ s_logs q"

lemma closed_call: "closed (call_writer s True l)"
  by (simp add: closed_def call_writer_def)

lemma call_writers:
  assumes "closed l"
  shows "closed (foldl (\<lambda>l s. call_writer s True l) l ss) \<and>
    log_records [] (log_out (foldl (\<lambda>l s. call_writer s True l) l ss)) = log_records [] (log_out l) @ ss"
  using assms
proof (induction ss arbitrary: l)
  case (Cons s ss)
  have "log_records [] (log_out (call_writer s True l)) = log_records [] (log_out l) @ [s]"
    using Cons.prems by (simp add: call_writer_def closed_records)
  with Cons.IH [OF closed_call] show ?case by simp
qed simp

text \<open>Records wait only in the build for OSX, and only for a writer of the host.\<close>

definition queue_ok :: "log_build \<Rightarrow> queued_logger \<Rightarrow> bool" where
  "queue_ok b q \<longleftrightarrow> closed (ql_logger q) \<and> (s_logs q = [] \<or> b = OsxBuild \<and> log_writer (ql_logger q) \<noteq> DefaultWriter)"

lemma flush_writer: "log_writer (foldl (\<lambda>l s. call_writer s True l) l ss) = log_writer l"
  by (induction ss arbitrary: l) (simp_all add: call_writer_def)

lemma write2_records:
  "queue_ok b q \<Longrightarrow> queue_ok b (build_write2 b body footer q) \<and> records_of (build_write2 b body footer q) = records_of q @ [body @ footer]"
  by (cases b) (auto simp: queue_ok_def build_write2_def print_chunk_def write2_def call_writer_def records_of_def closed_records
      tq_enqueue_def Let_def closed_def [of "_\<lparr>log_out := _\<rparr>"])

lemma write1_records:
  "queue_ok b q \<Longrightarrow> queue_ok b (build_write1 b body q) \<and> records_of (build_write1 b body q) = records_of q @ [body]"
  by (cases b) (auto simp: queue_ok_def build_write1_def print_chunk_def write1_def call_writer_def records_of_def closed_records
      tq_enqueue_def Let_def closed_def [of "_\<lparr>log_out := _\<rparr>"])

lemma flush_records:
  "queue_ok b q \<Longrightarrow> queue_ok b (mtk_log_flush b q) \<and> records_of (mtk_log_flush b q) = records_of q"
  using call_writers [of "ql_logger q" "s_logs q"]
  by (cases b) (auto simp: queue_ok_def mtk_log_flush_def flush_from_main_thread_def records_of_def tq_drain_all)

lemma run_records:
  "queue_ok b q \<Longrightarrow> queue_ok b (foldl (log_op_step b) q ps) \<and>
     records_of (foldl (log_op_step b) q ps) = records_of q @ concat (map op_records ps)"
proof (induction ps arbitrary: q)
  case (Cons p ps)
  have "queue_ok b (log_op_step b q p) \<and> records_of (log_op_step b q p) = records_of q @ op_records p"
    using write2_records [OF Cons.prems] write1_records [OF Cons.prems] flush_records [OF Cons.prems]
    by (cases "(b, q, p)" rule: log_op_step.cases) (simp_all add: op_records_def)
  with Cons.IH [of "log_op_step b q p"] show ?case by simp
qed simp

definition queued_initial :: queued_logger where
  "queued_initial = \<lparr>ql_logger = logger_initial, s_logs = []\<rparr>"

text \<open>
  In each of the three builds, writes and flushes in any order and one more flush give the writers the same records in the
  same order, one per write, whatever the writer and name configured at the start.
\<close>

theorem builds_write_same_records:
  "log_records [] (log_out (ql_logger (mtk_log_flush b (foldl (log_op_step b) (mtk_log_config name cb queued_initial) ps)))) =
    concat (map op_records ps)"
proof -
  let ?q = "mtk_log_config name cb queued_initial"
  let ?r = "foldl (log_op_step b) ?q ps"
  have "queue_ok b ?q" "records_of ?q = []"
    by (auto simp: queue_ok_def mtk_log_config_def configure_def queued_initial_def logger_initial_def closed_def records_of_def
        Let_def split: option.splits)
  then have r: "queue_ok b ?r" "records_of ?r = concat (map op_records ps)" using run_records [of b ?q ps] by auto
  moreover have "s_logs (mtk_log_flush b ?r) = []"
    using r(1) by (cases b) (auto simp: queue_ok_def mtk_log_flush_def flush_from_main_thread_def)
  ultimately show ?thesis using flush_records [OF r(1)] by (simp add: records_of_def)
qed

section \<open>Slices and the library\<close>

definition mtk_slice_put :: "string \<Rightarrow> mem_slice \<Rightarrow> mem_slice" where
  "mtk_slice_put p s = slice_put p s"

definition mtk_slice_destroy :: "mem_slice \<Rightarrow> nat" where
  "mtk_slice_destroy s = slice_destroy s"

definition mtk_queue_destroy :: "'a evqueue \<Rightarrow> 'a evqueue" where
  "mtk_queue_destroy q = queue_destroy q"

text \<open>Pinning the library has been turned off in the sources: neither call changes anything.\<close>

definition mtk_lib_ref :: "'a \<Rightarrow> 'a" where
  "mtk_lib_ref s = s"

definition mtk_lib_unref :: "'a \<Rightarrow> 'a" where
  "mtk_lib_unref s = s"

end
