(* ===== verification/Http_Access.thy ===== *)
theory Http_Access
  imports Http_Server
begin

text \<open>
  What the host reads of a request and writes of a response: the small members of \<open>HttpFSM\<close> and the functions
  \<open>mtk_httpsrv_*\<close> of \<open>mtk.cpp\<close>, whose sizes are read and written through a pointer.
\<close>

section \<open>Members of the parser\<close>

definition set_state :: "http_state \<Rightarrow> http_fsm \<Rightarrow> http_fsm" where
  "set_state s f = f\<lparr>m_state := s\<rparr>"

definition get_state :: "http_fsm \<Rightarrow> http_state" where
  "get_state f = m_state f"

definition fsm_error :: "http_fsm \<Rightarrow> bool" where
  "fsm_error f \<longleftrightarrow> get_state f = state_error"

definition fsm_version :: "http_fsm \<Rightarrow> int" where
  "fsm_version f = int (m_version f)"

definition body_ptr :: "http_fsm \<Rightarrow> nat option" where
  "body_ptr f = m_bd f"

text \<open>Whether the text received so far ends in an empty line: four bytes, two, or not.\<close>

definition recv_lflf :: "http_fsm \<Rightarrow> mem_fault + nat" where
  "recv_lflf f =
     bindE (if m_len f > 4 then
              bindE (crlf_at (m_p f) (m_len f - 4)) (\<lambda>a. bindE (crlf_at (m_p f) (m_len f - 2)) (\<lambda>b. Inr (a \<and> b)))
            else Inr False) (\<lambda>is_crlfcrlf.
       if is_crlfcrlf then Inr 4
       else if m_len f > 2 then
         bindE (rd (m_p f) (m_len f - 2)) (\<lambda>c. bindE (rd (m_p f) (m_len f - 1)) (\<lambda>d. Inr (if c = LF \<and> d = LF then 2 else 0)))
       else Inr 0)"

section \<open>Reading a request\<close>

text \<open>
  The size is passed on as an \<open>int\<close>: from \<open>2 ^ 31\<close> on it is negative, and then only an empty text is found. The
  result is what is returned (\<open>None\<close> for null) and the size afterwards.
\<close>

definition narrowed :: "(nat \<Rightarrow> mem_fault + string option) \<Rightarrow> u32 \<Rightarrow> mem_fault + string option" where
  "narrowed look sz =
     (if sint sz \<ge> 0 then look (unat sz)
      else bindE (look (unat sz)) (\<lambda>r. Inr (if r = Some [] then r else None)))"

definition sized :: "u32 \<Rightarrow> string option \<Rightarrow> string option \<times> u32" where
  "sized sz r = (r, case r of None \<Rightarrow> sz | Some p \<Rightarrow> of_nat (length p))"

definition httpsrv_read_path :: "http_fsm \<Rightarrow> u32 \<Rightarrow> mem_fault + string option \<times> u32" where
  "httpsrv_read_path f sz = bindE (narrowed (url f) sz) (\<lambda>r. Inr (sized sz r))"

definition httpsrv_read_header :: "http_fsm \<Rightarrow> string \<Rightarrow> u32 \<Rightarrow> mem_fault + string option \<times> u32" where
  "httpsrv_read_header f key sz = bindE (narrowed (hdrstr f key) sz) (\<lambda>r. Inr (sized sz r))"

definition httpsrv_read_body :: "http_fsm \<Rightarrow> nat option \<times> u32" where
  "httpsrv_read_body f = (body_ptr f, word_of_int (bodylen f))"

definition httpsrv_write_header :: "int \<Rightarrow> (string \<times> string) list \<Rightarrow> string list \<Rightarrow> mem_fault + string list" where
  "httpsrv_write_header status hcl res = write_header status hcl res"

definition httpsrv_write_body :: "string \<Rightarrow> string list \<Rightarrow> string list" where
  "httpsrv_write_body p res = write_body p res"

lemma narrowed_small: "sint sz \<ge> 0 \<Longrightarrow> narrowed look sz = look (unat sz)"
  by (simp add: narrowed_def)

lemma small_size:
  assumes "unat (sz :: u32) < 2 ^ 31"
  shows "sint sz \<ge> 0"
proof -
  have "int (unat sz) < int (2 ^ 31)" using assms by (simp only: of_nat_less_iff)
  then have "uint sz < 2 ^ 31" by simp
  moreover have "- (2 ^ 31) \<le> uint sz" by (rule order_trans [OF _ uint_ge_0]) simp
  ultimately have "sint sz = uint sz" by (simp add: sint_uint signed_take_bit_int_eq_self)
  then show ?thesis by simp
qed

text \<open>
  Property C23. A handler reads, of a request without a body, the path it was sent for and the headers it was sent with, with
  their lengths, in buffers of its own size; a header that is absent leaves the size as it was. A path that is as long as
  the buffer, or longer, is written past its end.
\<close>

theorem handler_reads_request:
  assumes "chunk_ok (unat n)" and "lines_ok (request_line meth path rest # lines)"
    and "no_body (request_line meth path rest # lines)" and "plain_request (request_line meth path rest)"
    and "CHR '' '' \<notin> set meth" and "CHR '' '' \<notin> set path"
    and "length (header_text (request_line meth path rest # lines) @ [CR, LF]) < 2 * (unat n - 1)"
    and "unat sz < 2 ^ 31" and "0 < sz" and "NUL \<notin> set key"
  shows "\<exists>f. http_append (header_text (request_line meth path rest # lines) @ [CR, LF]) (http_reset n f0) = Inr f \<and>
    get_state f = state_recv_finish \<and> \<not> fsm_error f \<and>
    httpsrv_read_path f sz = (if length path < unat sz then Inr (Some path, of_nat (length path)) else Inl OutOfBounds) \<and>
    httpsrv_read_header f key sz = Inr (sized sz (hdr_find (unat sz) key (request_line meth path rest # lines))) \<and>
    fst (httpsrv_read_body f) = None"
proof -
  obtain f where "http_append (header_text (request_line meth path rest # lines) @ [CR, LF]) (http_reset n f0) = Inr f"
    "m_state f = state_recv_finish" "m_bd f = None"
    "\<forall>l. url f l = (if length path < l then Inr (Some path) else Inl OutOfBounds)"
    "\<forall>key l. NUL \<notin> set key \<and> 0 < l \<longrightarrow> hdrstr f key l = Inr (hdr_find l key (request_line meth path rest # lines))"
    using bodyless_request [OF assms(1-7), of f0] by blast
  moreover have "0 < unat sz" using assms(9) by (simp add: word_less_nat_alt)
  ultimately show ?thesis
    using assms(9,10) narrowed_small [OF small_size [OF assms(8)]]
    by (intro exI [of _ f]) (auto simp: httpsrv_read_path_def httpsrv_read_header_def httpsrv_read_body_def body_ptr_def
        get_state_def fsm_error_def sized_def simp del: header_text.simps)
qed

theorem handler_reads_request_witness:
  "\<forall>f0. \<exists>f. http_append (header_text [''GET /index HTTP/1.1'', ''Host: a''] @ [CR, LF]) (http_reset 512 f0) = Inr f \<and>
    httpsrv_read_path f 6 = Inr (Some ''index'', 5) \<and> httpsrv_read_header f ''Host'' 6 = Inr (Some ''a'', 1)"
proof
  fix f0 :: http_fsm
  let ?line = "request_line ''GET'' ''index'' ''HTTP/1.1''" and ?rest = "[''Host: a'']"
  have a: "chunk_ok (unat (512 :: u32))" by (simp add: chunk_ok_def)
  have b: "lines_ok (?line # ?rest)" by (simp add: lines_ok_def line_ok_def MAX_HEADER_def request_line_def)
  have c: "no_body (?line # ?rest)" by code_simp
  have d: "plain_request ?line" by (simp add: plain_request_def request_line_def)
  have e: "length (header_text (?line # ?rest) @ [CR, LF]) < 2 * (unat (512 :: u32) - 1)"
    by (simp add: request_line_def)
  have h: "hdr_find (unat (6 :: u32)) ''Host'' (?line # ?rest) = Some ''a''" by code_simp
  have l: "?line = ''GET /index HTTP/1.1''" by (simp add: request_line_def)
  show "\<exists>f. http_append (header_text [''GET /index HTTP/1.1'', ''Host: a''] @ [CR, LF]) (http_reset 512 f0) = Inr f \<and>
    httpsrv_read_path f 6 = Inr (Some ''index'', 5) \<and> httpsrv_read_header f ''Host'' 6 = Inr (Some ''a'', 1)"
    using handler_reads_request [OF a b c d _ _ e, of 6 "''Host''" f0] h unfolding l by (auto simp: sized_def)
qed

end
