(* ===== verification/Http_Client.thy ===== *)
theory Http_Client
  imports Http_Web
begin

text \<open>
  What the HTTP client shares with its thread: the pollset that \<open>HttpClient::Init\<close> makes, the thread works on and
  \<open>Fin\<close> gives up, its mutex, and the requests that refer to it; and the functions \<open>mtk_httpcli_*\<close>. Memory of a pollset
  belongs to the heap of the process: using one that was freed, or the null pointer, is a fault.
\<close>

section \<open>Pollsets\<close>

text \<open>
  The globals \<open>g_root_cert\<close>, \<open>g_pollset\<close>, \<open>g_polling_mu\<close> (a mutex inside a pollset), \<open>g_pollsets\<close> and \<open>g_http_alive\<close>; the
  pollsets that are allocated, those whose shutdown has been started (each with its \<open>PollsetDestroyContext\<close>), and for
  every request in progress the pollset of its \<open>pollent_\<close>.
\<close>

datatype pollset_fault = NullPollset | FreedPollset

record http_client =
  root_cert :: string
  pollset :: "nat option"
  polling_mu :: "nat option"
  all_pollsets :: "nat list"
  alive :: bool
  allocated :: "nat list"
  next_pollset :: nat
  shutting :: "nat list"
  in_progress :: "nat option list"

definition http_client_initial :: http_client where
  "http_client_initial = \<lparr>root_cert = [], pollset = None, polling_mu = None, all_pollsets = [], alive = False,
     allocated = [], next_pollset = 0, shutting = [], in_progress = []\<rparr>"

text \<open>Dereferencing a pollset, or the mutex inside one.\<close>

definition touch :: "nat option \<Rightarrow> http_client \<Rightarrow> pollset_fault + nat" where
  "touch p s = (case p of None \<Rightarrow> Inl NullPollset | Some a \<Rightarrow> if a \<in> set (allocated s) then Inr a else Inl FreedPollset)"

definition pemer :: "http_client \<Rightarrow> string" where
  "pemer s = root_cert s"

definition client_init :: "string \<Rightarrow> http_client \<Rightarrow> http_client" where
  "client_init cert s =
     (let s1 = s\<lparr>root_cert := cert\<rparr>; a = next_pollset s in
      if pollset s1 = None then
        s1\<lparr>pollset := Some a, polling_mu := Some a, all_pollsets := all_pollsets s1 @ [a],
           allocated := a # allocated s1, next_pollset := a + 1\<rparr>
      else s1)"

definition client_fin :: "http_client \<Rightarrow> http_client" where
  "client_fin s =
     (case pollset s of
        None \<Rightarrow> s
      | Some a \<Rightarrow> s\<lparr>pollset := None, all_pollsets := [], shutting := shutting s @ [a]\<rparr>)"

text \<open>The closure of a shutdown: the pollset is destroyed and freed.\<close>

definition destroy_pollset :: "nat \<Rightarrow> http_client \<Rightarrow> pollset_fault + http_client" where
  "destroy_pollset a s =
     bindE (touch (Some a) s) (\<lambda>_. Inr (s\<lparr>allocated := removeAll a (allocated s), shutting := remove1 a (shutting s)\<rparr>))"

fun destroy_pollsets :: "nat list \<Rightarrow> http_client \<Rightarrow> pollset_fault + http_client" where
  "destroy_pollsets [] s = Inr s"
| "destroy_pollsets (a # as) s = bindE (destroy_pollset a s) (destroy_pollsets as)"

definition client_update :: "http_client \<Rightarrow> pollset_fault + http_client" where
  "client_update s = bindE (touch (polling_mu s) s) (\<lambda>_. bindE (touch (pollset s) s) (\<lambda>_. Inr s))"

definition client_start :: "string \<Rightarrow> http_client \<Rightarrow> http_client" where
  "client_start cert s = (if alive s then s else (client_init cert s)\<lparr>alive := True\<rparr>)"

text \<open>
  \<open>Stop\<close> waits for the thread, which leaves its loop, calls \<open>Fin\<close>, and runs what is scheduled when its \<open>ExecCtx\<close> goes out of
  scope.
\<close>

definition client_stop :: "http_client \<Rightarrow> pollset_fault + http_client" where
  "client_stop s =
     (if \<not> alive s then Inr s
      else let s1 = client_fin (s\<lparr>alive := False\<rparr>) in destroy_pollsets (shutting s1) s1)"

text \<open>The beginning of \<open>RequestContext::Init\<close> and its \<open>Fin\<close>.\<close>

definition request_open :: "http_client \<Rightarrow> pollset_fault + http_client" where
  "request_open s = bindE (touch (polling_mu s) s) (\<lambda>_. Inr (s\<lparr>in_progress := in_progress s @ [pollset s]\<rparr>))"

definition request_fin :: "nat \<Rightarrow> http_client \<Rightarrow> pollset_fault + http_client" where
  "request_fin i s =
     (if i < length (in_progress s) then
        bindE (touch (in_progress s ! i) s) (\<lambda>_. Inr (s\<lparr>in_progress := take i (in_progress s) @ drop (Suc i) (in_progress s)\<rparr>))
      else Inr s)"

section \<open>Runs\<close>

datatype client_event = ClientStart string | ClientStop | ThreadTurn | RequestOpened | RequestDone nat

fun client_step :: "http_client \<Rightarrow> client_event \<Rightarrow> pollset_fault + http_client" where
  "client_step s (ClientStart cert) = Inr (client_start cert s)"
| "client_step s ClientStop = client_stop s"
| "client_step s ThreadTurn = (if alive s then client_update s else Inr s)"
| "client_step s RequestOpened = request_open s"
| "client_step s (RequestDone i) = request_fin i s"

text \<open>What a caller has to see to: requests are made while the client runs, and none is in progress when it is stopped.\<close>

definition client_proper :: "http_client \<Rightarrow> client_event \<Rightarrow> bool" where
  "client_proper s e \<longleftrightarrow> (e = RequestOpened \<longrightarrow> alive s) \<and> (e = ClientStop \<longrightarrow> in_progress s = [])"

definition client_env :: "http_client \<Rightarrow> client_event \<Rightarrow> pollset_fault + http_client" where
  "client_env s e = (if client_proper s e then client_step s e else Inr s)"

definition client_inv :: "http_client \<Rightarrow> bool" where
  "client_inv s \<longleftrightarrow> shutting s = [] \<and> (\<forall>p \<in> set (in_progress s). alive s \<and> p = pollset s) \<and>
     (if alive s then \<exists>a. pollset s = Some a \<and> polling_mu s = Some a \<and> allocated s = [a] \<and> all_pollsets s = [a] \<and> a < next_pollset s
      else pollset s = None \<and> allocated s = [] \<and> all_pollsets s = [])"

lemma client_stop_running:
  assumes "client_inv s" and "alive s"
  shows "client_stop s = Inr (s\<lparr>alive := False, pollset := None, all_pollsets := [], allocated := []\<rparr>)"
  using assms by (cases s) (auto simp: client_inv_def client_stop_def client_fin_def destroy_pollset_def touch_def Let_def)

lemma request_fin_running:
  assumes "client_inv s" and "i < length (in_progress s)"
  shows "request_fin i s = Inr (s\<lparr>in_progress := take i (in_progress s) @ drop (Suc i) (in_progress s)\<rparr>)"
proof -
  have "in_progress s ! i \<in> set (in_progress s)" using assms(2) by (rule nth_mem)
  with assms(1) obtain a where "in_progress s ! i = Some a" "allocated s = [a]"
    by (auto simp: client_inv_def split: if_splits)
  with assms(2) show ?thesis by (simp add: request_fin_def touch_def)
qed

lemma client_env_ok:
  assumes "client_inv s"
  shows "case client_env s e of Inl _ \<Rightarrow> False | Inr s' \<Rightarrow> client_inv s'"
proof (cases e)
  case ClientStop
  with assms client_stop_running [of s] show ?thesis
    by (cases "alive s") (auto simp: client_env_def client_proper_def client_stop_def client_inv_def)
next
  case (RequestDone i)
  with assms request_fin_running [of s i] show ?thesis
    by (cases "i < length (in_progress s)")
      (auto simp: client_env_def client_proper_def client_inv_def request_fin_def dest: in_set_takeD in_set_dropD split: if_splits)
qed (use assms in \<open>auto simp: client_env_def client_proper_def client_start_def client_init_def client_update_def
    request_open_def touch_def client_inv_def Let_def split: if_splits\<close>)

interpretation client_machine: safe_machine client_env client_inv
proof unfold_locales
  fix s e s'
  assume "client_inv s" and "client_env s e = Inr s'"
  with client_env_ok [of s e] show "client_inv s'" by simp
next
  fix s e
  assume "client_inv s"
  with client_env_ok [of s e] show "\<exists>s'. client_env s e = Inr s'" by (cases "client_env s e") simp_all
qed


text \<open>
  A request made before the client is started locks the null mutex, one made after it was stopped locks a
  mutex that was freed, and one that is still in progress when it is stopped kicks a freed pollset at its end.
\<close>

theorem requests_outside_a_run_fault:
  assumes "client_inv s" and "alive s" and "i < length (in_progress s)"
  shows "request_open http_client_initial = Inl NullPollset \<and>
    (\<exists>s'. client_stop s = Inr s' \<and> request_open s' = Inl FreedPollset \<and> request_fin i s' = Inl FreedPollset)"
proof -
  obtain a where a: "pollset s = Some a" "polling_mu s = Some a" using assms(1,2) by (auto simp: client_inv_def)
  have "in_progress s ! i = Some a" using assms nth_mem [OF assms(3)] a by (auto simp: client_inv_def)
  with a assms(3) show ?thesis
    by (simp add: client_stop_running [OF assms(1,2)] request_open_def request_fin_def touch_def http_client_initial_def)
qed

theorem requests_outside_a_run_fault_witness:
  "\<exists>s s'. run_steps client_env http_client_initial [ClientStart ''pem'', RequestOpened] = Inr s \<and> client_stop s = Inr s' \<and>
    request_fin 0 s' = Inl FreedPollset"
proof -
  obtain s where s: "run_steps client_env http_client_initial [ClientStart ''pem'', RequestOpened] = Inr s" "alive s" "length (in_progress s) = 1"
    by (simp add: client_env_def client_proper_def client_start_def client_init_def request_open_def touch_def http_client_initial_def Let_def)
  have "client_inv http_client_initial" by (simp add: client_inv_def http_client_initial_def)
  from client_machine.run_inv [OF this s(1)] have "client_inv s" .
  from requests_outside_a_run_fault [OF this s(2), of 0] s show ?thesis by auto
qed

section \<open>The calls of the host\<close>

definition default_timeout_msec :: u32 where
  "default_timeout_msec = 30000"

definition httpcli_get_raw where
  "httpcli_get_raw uri_ok transport secure host path headers =
     httpcli_get uri_ok transport host path headers secure default_timeout_msec"

definition httpcli_post_raw where
  "httpcli_post_raw uri_ok transport secure host path headers body =
     httpcli_post uri_ok transport host path headers body secure default_timeout_msec"

definition mtk_httpcli_get where
  "mtk_httpcli_get uri_ok transport host path headers = httpcli_get_raw uri_ok transport True host path headers"

definition mtk_httpcli_post where
  "mtk_httpcli_post uri_ok transport host path headers body = httpcli_post_raw uri_ok transport True host path headers body"

definition mtk_httpcli_get_insecure where
  "mtk_httpcli_get_insecure uri_ok transport host path headers = httpcli_get_raw uri_ok transport False host path headers"

definition mtk_httpcli_post_insecure where
  "mtk_httpcli_post_insecure uri_ok transport host path headers body = httpcli_post_raw uri_ok transport False host path headers body"

text \<open>
  The four calls differ in the scheme and the method only; the method follows from the body, so a post without one (a null
  pointer) is sent as a get.
\<close>

theorem httpcli_calls:
  assumes "\<And>scheme. uri_ok scheme host path"
  shows "\<exists>call. call = (\<lambda>scheme body. \<lparr>call_method = (if body = None then HttpGet else HttpPost), call_scheme = scheme, call_host = host,
      call_path = path, call_hdrs = hds, call_body = body, call_timeout = 30000\<rparr>) \<and>
    mtk_httpcli_get uri_ok transport host path hds = [tranpoline (transport (call ''https'' None))] \<and>
    mtk_httpcli_post uri_ok transport host path hds body = [tranpoline (transport (call ''https'' body))] \<and>
    mtk_httpcli_get_insecure uri_ok transport host path hds = [tranpoline (transport (call ''http'' None))] \<and>
    mtk_httpcli_post_insecure uri_ok transport host path hds body = [tranpoline (transport (call ''http'' body))] \<and>
    mtk_httpcli_post uri_ok transport host path hds None = mtk_httpcli_get uri_ok transport host path hds"
  using assms
  by (simp add: mtk_httpcli_get_def mtk_httpcli_post_def mtk_httpcli_get_insecure_def mtk_httpcli_post_insecure_def httpcli_get_raw_def
      httpcli_post_raw_def httpcli_get_def httpcli_post_def http_request_calls_def request_init_def default_timeout_msec_def Let_def)

section \<open>The server's side\<close>

definition srv_listen :: "'cb http_server \<Rightarrow> nat \<Rightarrow> 'cb \<Rightarrow> mem_fault + 'cb http_server \<times> bool" where
  "srv_listen s port cb = bindE (add_handler s (port, cb)) (\<lambda>s1. Inr (s1, True))"

definition on_destroy :: "'cb http_server \<Rightarrow> 'cb http_server" where
  "on_destroy s = s"

lemma listen_adds: "table_ok s \<Longrightarrow> \<exists>s'. srv_listen s port cb = Inr (s', True) \<and> entries s' = entries s @ [(port, cb)]"
  by (metis add_handler_step bindE_Inr srv_listen_def)

end
