(* ===== verification/Client_Api.thy ===== *)
theory Client_Api
  imports Rpc_Calls
begin

text \<open>
  The rest of the client: closures as \<open>mtk.h\<close> has them and the configuration made of them, the small members of
  \<open>RPCStream\<close> and \<open>IOThread\<close>, and \<open>mtk_conn_close\<close>, which ends the thread and deletes the client.
\<close>

section \<open>Closures\<close>

text \<open>
  \<open>mtk_closure_t\<close>: an argument and a function pointer, which \<open>check\<close> reads as a pointer whatever its type. Calling the
  null pointer is a fault.
\<close>

record ('a, 'f) mtk_closure =
  clo_arg :: "'a option"
  clo_check :: "'f option"

definition mtk_closure_init :: "'f \<Rightarrow> 'a \<Rightarrow> ('a, 'f) mtk_closure" where
  "mtk_closure_init cb arg = \<lparr>clo_arg = Some arg, clo_check = Some cb\<rparr>"

definition mtk_closure_nop :: "('a, 'f) mtk_closure" where
  "mtk_closure_nop = \<lparr>clo_arg = None, clo_check = None\<rparr>"

definition mtk_closure_valid :: "('a, 'f) mtk_closure \<Rightarrow> bool" where
  "mtk_closure_valid c \<longleftrightarrow> clo_check c \<noteq> None"

definition mtk_closure_call :: "('a, 'a option \<Rightarrow> 'r) mtk_closure \<Rightarrow> cl_fault + 'r" where
  "mtk_closure_call c = (case clo_check c of None \<Rightarrow> Inl EmptyFunction | Some f \<Rightarrow> Inr (f (clo_arg c)))"

definition mtk_closure_call_noarg :: "('a, 'a option \<Rightarrow> 'r) mtk_closure \<Rightarrow> cl_fault + 'r" where
  "mtk_closure_call_noarg c = mtk_closure_call c"

lemma closure_calls:
  "mtk_closure_valid (mtk_closure_init f a)" "\<not> mtk_closure_valid mtk_closure_nop"
  "mtk_closure_call (mtk_closure_init g a) = Inr (g (Some a))" "mtk_closure_call mtk_closure_nop = Inl EmptyFunction"
  by (simp_all add: mtk_closure_init_def mtk_closure_nop_def mtk_closure_valid_def mtk_closure_call_def)

lemma valid_closure_called: "mtk_closure_valid c \<longleftrightarrow> (\<exists>r. mtk_closure_call c = Inr r)"
  by (auto simp: mtk_closure_valid_def mtk_closure_call_def split: option.splits)

text \<open>\<open>mtk_clconf_t\<close>, and the application (\<open>cl_app\<close>) that a client configured with it has.\<close>

record 'a clconf =
  conf_connect :: "('a, 'a option \<Rightarrow> client \<Rightarrow> u64 \<Rightarrow> string \<Rightarrow> cl_api list \<times> bool) mtk_closure"
  conf_close :: "('a, 'a option \<Rightarrow> client \<Rightarrow> u64 \<Rightarrow> int \<Rightarrow> cl_api list \<times> u64) mtk_closure"
  conf_ready :: "('a, 'a option \<Rightarrow> client \<Rightarrow> bool) mtk_closure"
  conf_start :: "('a, 'a option \<Rightarrow> client \<Rightarrow> cl_api list \<times> u64 \<times> string) mtk_closure"

definition closure_option :: "('a, 'a option \<Rightarrow> 'r) mtk_closure \<Rightarrow> 'r option" where
  "closure_option c = (case mtk_closure_call c of Inl _ \<Rightarrow> None | Inr r \<Rightarrow> Some r)"

definition app_of_clconf :: "'a clconf \<Rightarrow> (client \<Rightarrow> nat \<Rightarrow> int \<Rightarrow> string \<Rightarrow> cl_api list) \<Rightarrow> cl_app" where
  "app_of_clconf conf msg =
     \<lparr>on_ready = closure_option (conf_ready conf), on_start = closure_option (conf_start conf),
      on_connect = closure_option (conf_connect conf), on_close = closure_option (conf_close conf), on_msg = msg\<rparr>"

lemma ready_of_clconf:
  "cl_ready (app_of_clconf conf msg) s =
     (if mtk_closure_valid (conf_ready conf) then the (clo_check (conf_ready conf)) (clo_arg (conf_ready conf)) s else True)"
  by (auto simp: cl_ready_def app_of_clconf_def closure_option_def mtk_closure_call_def mtk_closure_valid_def split: option.splits)

section \<open>Members\<close>

definition client_id :: "client \<Rightarrow> u64" where
  "client_id s = cl_cid s"

definition register_notify_cb :: "callback \<Rightarrow> client \<Rightarrow> client" where
  "register_notify_cb cb s = s\<lparr>cl_notifier := Some cb\<rparr>"

definition set_default_timeout :: "u64 \<Rightarrow> client \<Rightarrow> client" where
  "set_default_timeout d s = s\<lparr>cl_timeout := d\<rparr>"

definition network_status_of :: "client \<Rightarrow> network_status" where
  "network_status_of s = cl_status s"

definition tick :: "client \<Rightarrow> u64" where
  "tick s = cl_now s"

definition conn_reset :: "client \<Rightarrow> client" where
  "conn_reset s = release s"

lemma api_members:
  "run_cl_api resp (WatchApi clsr) s = Inr (register_notify_cb (closure clsr) s)"
  "run_cl_api resp (TimeoutApi d) s = Inr (set_default_timeout d s)"
  "run_cl_api resp ResetApi s = Inr (conn_reset s)"
  by (simp_all add: register_notify_cb_def set_default_timeout_def conn_reset_def)

text \<open>
  \<open>RPCStream::IClientDelegate\<close>: what the stream asks of its owner. \<open>Client\<close> is its own delegate.
\<close>

record client_delegate =
  del_id :: "client \<Rightarrow> u64"
  del_ready :: "client \<Rightarrow> bool"
  del_add_payload :: "client \<Rightarrow> cl_fault + client \<times> connect_payload"
  del_open :: "int \<Rightarrow> string \<Rightarrow> client \<Rightarrow> cl_fault + client \<times> bool"
  del_close :: "i32 \<Rightarrow> client \<Rightarrow> cl_fault + client \<times> u64"

definition client_as_delegate :: "responder \<Rightarrow> cl_app \<Rightarrow> codec \<Rightarrow> client_delegate" where
  "client_as_delegate resp ap cd = \<lparr>del_id = client_id, del_ready = cl_ready ap, del_add_payload = add_payload resp ap,
     del_open = on_open_stream resp ap cd, del_close = on_close_stream resp ap\<rparr>"

lemma start_write_delegates:
  "start_write resp ap cd s =
     bindE (del_add_payload (client_as_delegate resp ap cd) s) (\<lambda>(s1, payload).
       call_system resp Connect (pack (enc_connect cd) payload) OpenCb s1)"
  by (simp add: start_write_def client_as_delegate_def)

lemma refused_login_asks_delegate:
  "r < 0 \<Longrightarrow> del_open (client_as_delegate resp ap cd) r p s = call_on_connect resp ap 0 [] s"
  by (simp add: client_as_delegate_def on_open_stream_def)

datatype system_payload = ConnectPayload | PingPayload

definition set_system_payload_kind :: "system_payload \<Rightarrow> request \<Rightarrow> request" where
  "set_system_payload_kind p req = req\<lparr>rq_kind := (case p of ConnectPayload \<Rightarrow> Connect | PingPayload \<Rightarrow> Ping)\<rparr>"

text \<open>The errors of all streams are made by the first \<open>Initialize\<close> and kept.\<close>

record static_errors =
  timeout_error :: "proto_error option"
  not_connect_error :: "proto_error option"
  broken_payload_error :: "proto_error option"

definition keep_or_make :: "mtk_error \<Rightarrow> proto_error option \<Rightarrow> proto_error option" where
  "keep_or_make e old = (case old of None \<Rightarrow> Some (static_error e) | Some x \<Rightarrow> Some x)"

definition rpc_initialize :: "string \<Rightarrow> cred_options option \<Rightarrow> static_errors \<Rightarrow> rpc \<Rightarrow> static_errors \<times> rpc \<times> int" where
  "rpc_initialize addr options es r =
     (\<lparr>timeout_error = keep_or_make MTK_TIMEOUT (timeout_error es), not_connect_error = keep_or_make MTK_NOT_CONNECT (not_connect_error es),
       broken_payload_error = keep_or_make MTK_BROKEN_PAYLOAD (broken_payload_error es)\<rparr>,
      r\<lparr>iothr := io_initialize addr options (iothr r)\<rparr>, 0)"

lemma initialize_twice:
  "rpc_initialize a o1 es r = (es1, r1, n) \<Longrightarrow> fst (rpc_initialize b o2 es1 r2) = es1"
  by (auto simp: rpc_initialize_def keep_or_make_def split: option.splits)

lemma initialized_rpc: "rpc_initialize addr opts es \<lparr>owner = new_client, iothr = new_io_thread\<rparr> = (es1, r, n) \<Longrightarrow> r = new_rpc addr opts"
  by (auto simp: rpc_initialize_def new_rpc_def)

text \<open>A point in time \<open>duration_msec\<close> after \<open>now\<close> (in nanoseconds, as \<open>system_clock\<close> counts).\<close>

definition grpc_time :: "nat \<Rightarrow> u32 \<Rightarrow> nat \<times> nat" where
  "grpc_time now duration_msec =
     (let t = now + unat duration_msec * 1000000 in (t div 1000000000, t mod 1000000000))"

lemma grpc_time_value: "fst (grpc_time now d) * 1000000000 + snd (grpc_time now d) = now + unat d * 1000000"
  by (simp add: grpc_time_def Let_def)

definition io_start :: "client \<Rightarrow> client" where
  "io_start s = (if \<not> cl_started s then s\<lparr>cl_started := True\<rparr> else s)"

lemma connecting_starts:
  assumes "cl_ready ap s" and "cl_when s \<le> now"
  shows "try_connect ap now s =
    io_start (push_request ESTABLISH_REQUEST (s\<lparr>cl_status := CONNECTING, cl_attempt := cl_attempt s + 1\<rparr>))"
  using assms by (auto simp: try_connect_def io_start_def push_request_def not_less)

text \<open>Pinning the gRPC library has been turned off in the sources.\<close>

definition pin_library :: "'a \<Rightarrow> 'a" where
  "pin_library s = s"

definition unpin_library :: "'a \<Rightarrow> 'a" where
  "unpin_library s = s"

definition conn_cid_of :: "rpc \<Rightarrow> u64" where
  "conn_cid_of r = client_id (owner r)"

definition conn_connected :: "rpc \<Rightarrow> bool" where
  "conn_connected r \<longleftrightarrow> is_connected (owner r)"

section \<open>Closing\<close>

text \<open>
  \<open>mtk_conn_close\<close>: what the thread does while it is waited for and after that are lists of the answers of \<open>AsyncNext\<close>.
  The result is \<open>None\<close> as long as the thread has not ended and \<open>join\<close> does not return.
\<close>

definition join_io :: "cl_fault + rpc \<Rightarrow> (cl_fault + rpc) option" where
  "join_io m =
     (case m of Inl e \<Rightarrow> Some (Inl e) | Inr r \<Rightarrow> if io_alive (iothr r) then None else Some (Inr (stop_end r)))"

definition io_stop :: "next_status list \<Rightarrow> next_status list \<Rightarrow> rpc \<Rightarrow> (cl_fault + rpc) option" where
  "io_stop during after r =
     (if \<not> cl_started (owner r) then Some (Inr (stop_end r))
      else if is_connecting (owner r) \<or> is_connected (owner r) then
        join_io (bindE (io_run during (stop_begin r)) (\<lambda>r1. io_run after (stop_force r1)))
      else join_io (io_run after (stop_begin r)))"

definition rpc_finalize :: "next_status list \<Rightarrow> next_status list \<Rightarrow> rpc \<Rightarrow> (cl_fault + rpc) option" where
  "rpc_finalize during after r = io_stop during after r"

definition conn_close_all :: "next_status list \<Rightarrow> next_status list \<Rightarrow> rpc \<Rightarrow> (cl_fault + rpc) option" where
  "conn_close_all during after r = rpc_finalize during after r"

lemma io_run_ended: "\<not> io_alive (iothr r) \<Longrightarrow> io_run ns r = Inr r"
  by (cases ns) simp_all

lemma io_run_shutdown: "NextShutdown \<in> set ns \<Longrightarrow> io_run ns r = Inr r' \<Longrightarrow> \<not> io_alive (iothr r')"
proof (induction ns arbitrary: r)
  case (Cons n ns)
  show ?case
  proof (cases "io_alive (iothr r) \<and> n \<noteq> NextShutdown")
    case True
    with Cons show ?thesis by (auto simp: fault_simps)
  next
    case False
    with Cons.prems(2) io_run_ended show ?thesis by (auto split: if_splits)
  qed
qed simp

text \<open>The thread calls no callback and answers no call.\<close>

lemma io_turn_silent:
  "io_turn n r = Inr r' \<Longrightarrow> cl_log (owner r') = cl_log (owner r) \<and> cl_reqmap (owner r') = cl_reqmap (owner r)"
  by (cases n)
    (auto simp: handle_event_def write_done_def read_done_def io_idle_def pop_request_def push_reply_def drain_request_queue_def
      fault_simps Let_def split: if_splits option.splits request_item.splits prod.splits)

lemma io_run_silent:
  "io_run ns r = Inr r' \<Longrightarrow> cl_log (owner r') = cl_log (owner r) \<and> cl_reqmap (owner r') = cl_reqmap (owner r)"
proof (induction ns arbitrary: r)
  case (Cons n ns)
  then show ?case by (cases "io_alive (iothr r)") (auto simp: fault_simps dest!: io_turn_silent)
qed simp

definition farewell :: "client \<Rightarrow> cl_out list" where
  "farewell s = (if cl_started s \<and> (is_connecting s \<or> is_connected s) then [Posted (new_request\<lparr>rq_kind := Close\<rparr>)] else [])"

lemma stop_silent:
  "cl_log (owner (stop_begin r)) = cl_log (owner r) @ farewell (owner r)" "cl_reqmap (owner (stop_begin r)) = cl_reqmap (owner r)"
  "owner (stop_force r) = owner r" "owner (stop_end r) = owner r" "\<not> io_alive (iothr (stop_force r))"
  by (simp_all add: stop_begin_def stop_force_def stop_end_def send_shutdown_request_def farewell_def Let_def)

lemma joined:
  assumes "\<And>r1. m = Inr r1 \<Longrightarrow> \<not> io_alive (iothr r1) \<and> P (owner r1)"
  shows "\<exists>n. join_io m = Some n \<and> (\<forall>r'. n = Inr r' \<longrightarrow> P (owner r') \<and> io_context (iothr r') = None \<and> \<not> io_alive (iothr r'))"
  using assms by (cases m) (auto simp: join_io_def stop_end_def io_finalize_def)



end
