(* ===== verification/Cq_Pool.thy ===== *)
theory Cq_Pool
  imports Prelude
begin

unbundle bit_operations_syntax

text \<open>
  The memory of \<open>moodycamel::ConcurrentQueue\<close> (\<open>src/ext/MoodyCamel/concurrentqueue.h\<close>), the queue between the threads of
  the program: blocks of \<open>BLOCK_SIZE\<close> = 32 elements, the pool a queue is constructed with and the free list that used blocks go back
  to. This theory and those that build on it, \<open>Cq_Index\<close>, \<open>Cq_Producer\<close>, \<open>Cq_Hash\<close> and \<open>Concurrent_Queue\<close>, model what the program
  uses of the header: \<open>enqueue\<close> and \<open>try_dequeue\<close> without tokens, on the default traits, one operation at a time, so that a
  compare-and-exchange finds the value just loaded. A pointer to a block is its number in \<open>blocks\<close>, in the order of
  allocation, the initial pool first. The assertions of the header are modelled as faults.
\<close>

section \<open>Faults and tables\<close>

datatype cq_fault = NullPointer | BadPointer | RawMemory | AssertFailed | LoopsForever

definition fetch :: "'e \<Rightarrow> 'a list \<Rightarrow> nat \<Rightarrow> 'e + 'a" where
  "fetch e xs i = (if i < length xs then Inr (xs ! i) else Inl e)"

lemma fetch_ok [simp]: "i < length xs \<Longrightarrow> fetch e xs i = Inr (xs ! i)"
  by (simp add: fetch_def)

definition non_null :: "nat option \<Rightarrow> cq_fault + nat" where
  "non_null q = (case q of None \<Rightarrow> Inl NullPointer | Some n \<Rightarrow> Inr n)"

lemma non_null_Some [simp]: "non_null (Some n) = Inr n"
  by (simp add: non_null_def)

definition assertion :: "bool \<Rightarrow> cq_fault + unit" where
  "assertion b = (if b then Inr () else Inl AssertFailed)"

lemma assertion_ok [simp]: "b \<Longrightarrow> assertion b = Inr ()"
  by (simp add: assertion_def)

section \<open>Blocks\<close>

text \<open>A cell of \<open>elements\<close> is \<open>None\<close> while it is raw memory.\<close>

record 'a cq_block =
  elements :: "'a option list"
  elementsCompletelyDequeued :: u64
  freeListRefs :: u32
  freeListNext :: "nat option"
  dynamicallyAllocated :: bool

definition block_new :: "'a cq_block" where
  "block_new = \<lparr>elements = replicate 32 None, elementsCompletelyDequeued = 0, freeListRefs = 0, freeListNext = None,
    dynamicallyAllocated = True\<rparr>"

text \<open>\<open>operator[]\<close>: the cell of an index.\<close>

definition block_cell :: "u64 \<Rightarrow> nat" where
  "block_cell idx = unat (idx AND 31)"

text \<open>Placement new in a cell, and the element moved out of a cell and destroyed.\<close>

definition block_put :: "u64 \<Rightarrow> 'a \<Rightarrow> 'a cq_block \<Rightarrow> 'a cq_block" where
  "block_put idx x b = b\<lparr>elements := (elements b)[block_cell idx := Some x]\<rparr>"

definition block_take :: "u64 \<Rightarrow> 'a cq_block \<Rightarrow> cq_fault + ('a \<times> 'a cq_block)" where
  "block_take idx b = bindE (fetch BadPointer (elements b) (block_cell idx)) (\<lambda>c.
    case c of None \<Rightarrow> Inl RawMemory
    | Some x \<Rightarrow> Inr (x, b\<lparr>elements := (elements b)[block_cell idx := None]\<rparr>))"

text \<open>\<open>set_empty\<close> and \<open>reset_empty\<close> in the context of implicit producers, which count.\<close>

definition block_set_empty :: "'a cq_block \<Rightarrow> cq_fault + (bool \<times> 'a cq_block)" where
  "block_set_empty b = (let prevVal = elementsCompletelyDequeued b in
    bindE (assertion (prevVal < 32)) (\<lambda>_. Inr (prevVal = 31, b\<lparr>elementsCompletelyDequeued := prevVal + 1\<rparr>)))"

definition block_reset_empty :: "'a cq_block \<Rightarrow> 'a cq_block" where
  "block_reset_empty b = b\<lparr>elementsCompletelyDequeued := 0\<rparr>"

section \<open>Pool and free list\<close>

text \<open>
  \<open>mallocs\<close> counts the calls of \<open>malloc\<close>; which of them succeed is the argument \<open>mem\<close> of the operations that allocate.
\<close>

record 'a cq_pool =
  blocks :: "'a cq_block list"
  freeListHead :: "nat option"
  initialBlockPoolIndex :: u64
  initialBlockPoolSize :: u64
  mallocs :: nat

definition map_block :: "nat \<Rightarrow> ('a cq_block \<Rightarrow> 'a cq_block) \<Rightarrow> 'a cq_pool \<Rightarrow> cq_fault + 'a cq_pool" where
  "map_block n f p = bindE (fetch BadPointer (blocks p) n) (\<lambda>b. Inr (p\<lparr>blocks := (blocks p)[n := f b]\<rparr>))"

text \<open>\<open>populate_initial_block_list\<close>: \<open>create_array\<close> allocates the whole pool at once.\<close>

definition populate_initial_block_list :: "(nat \<Rightarrow> bool) \<Rightarrow> u64 \<Rightarrow> 'a cq_pool \<Rightarrow> 'a cq_pool" where
  "populate_initial_block_list mem blockCount p =
    (if blockCount = 0 then p\<lparr>initialBlockPoolSize := 0\<rparr>
     else if mem (mallocs p) then
       p\<lparr>blocks := replicate (unat blockCount) (block_new\<lparr>dynamicallyAllocated := False\<rparr>),
         initialBlockPoolSize := blockCount, mallocs := mallocs p + 1\<rparr>
     else p\<lparr>initialBlockPoolSize := 0, mallocs := mallocs p + 1\<rparr>)"

definition try_get_block_from_initial_pool :: "'a cq_pool \<Rightarrow> nat option \<times> 'a cq_pool" where
  "try_get_block_from_initial_pool p =
    (if initialBlockPoolSize p \<le> initialBlockPoolIndex p then (None, p)
     else let index = initialBlockPoolIndex p in
       (if index < initialBlockPoolSize p then Some (unat index) else None, p\<lparr>initialBlockPoolIndex := index + 1\<rparr>))"

definition REFS_MASK :: u32 where "REFS_MASK = 0x7FFFFFFF"
definition SHOULD_BE_ON_FREELIST :: u32 where "SHOULD_BE_ON_FREELIST = 0x80000000"

definition add_knowing_refcount_is_zero :: "nat \<Rightarrow> 'a cq_pool \<Rightarrow> cq_fault + 'a cq_pool" where
  "add_knowing_refcount_is_zero n p =
    bindE (map_block n (\<lambda>b. b\<lparr>freeListNext := freeListHead p, freeListRefs := 1\<rparr>) p) (\<lambda>p.
    Inr (p\<lparr>freeListHead := Some n\<rparr>))"

text \<open>\<open>FreeList::add\<close>, and \<open>add_block_to_free_list\<close>, which only calls it.\<close>

definition free_list_add :: "nat \<Rightarrow> 'a cq_pool \<Rightarrow> cq_fault + 'a cq_pool" where
  "free_list_add n p = bindE (fetch BadPointer (blocks p) n) (\<lambda>b. let refs = freeListRefs b in
    bindE (map_block n (\<lambda>b. b\<lparr>freeListRefs := refs + SHOULD_BE_ON_FREELIST\<rparr>) p) (\<lambda>p.
    if refs = 0 then add_knowing_refcount_is_zero n p else Inr p))"

definition add_block_to_free_list :: "nat \<Rightarrow> 'a cq_pool \<Rightarrow> cq_fault + 'a cq_pool" where
  "add_block_to_free_list = free_list_add"

text \<open>
  \<open>FreeList::try_get\<close>: a head whose count is zero is loaded again until another thread changes it, which here would be
  for ever. The reference taken (one more) and given back with the list's (two less) is one less.
\<close>

definition free_list_try_get :: "'a cq_pool \<Rightarrow> cq_fault + (nat option \<times> 'a cq_pool)" where
  "free_list_try_get p = (case freeListHead p of None \<Rightarrow> Inr (None, p)
    | Some n \<Rightarrow> bindE (fetch BadPointer (blocks p) n) (\<lambda>b. let refs = freeListRefs b in
        if refs AND REFS_MASK = 0 then Inl LoopsForever
        else let next = freeListNext b in
          bindE (assertion ((refs + 1) AND SHOULD_BE_ON_FREELIST = 0)) (\<lambda>_.
          bindE (map_block n (\<lambda>b. b\<lparr>freeListRefs := refs + 1 - 2\<rparr>) p) (\<lambda>p.
          Inr (Some n, p\<lparr>freeListHead := next\<rparr>)))))"

text \<open>\<open>create<Block>\<close>, then \<open>requisition_block<CanAlloc>\<close>.\<close>

definition create_block :: "(nat \<Rightarrow> bool) \<Rightarrow> 'a cq_pool \<Rightarrow> nat option \<times> 'a cq_pool" where
  "create_block mem p =
    (if mem (mallocs p) then (Some (length (blocks p)), p\<lparr>blocks := blocks p @ [block_new], mallocs := mallocs p + 1\<rparr>)
     else (None, p\<lparr>mallocs := mallocs p + 1\<rparr>))"

definition requisition_block :: "(nat \<Rightarrow> bool) \<Rightarrow> 'a cq_pool \<Rightarrow> cq_fault + (nat option \<times> 'a cq_pool)" where
  "requisition_block mem p = (case try_get_block_from_initial_pool p of
      (Some n, p) \<Rightarrow> Inr (Some n, p)
    | (None, p) \<Rightarrow> bindE (free_list_try_get p) (\<lambda>(block, p). case block of
        Some n \<Rightarrow> Inr (Some n, p)
      | None \<Rightarrow> Inr (create_block mem p)))"

section \<open>Who owns a block\<close>

text \<open>The free list as the list of its blocks; each counts the list's reference.\<close>

fun chain :: "'a cq_block list \<Rightarrow> nat option \<Rightarrow> nat list \<Rightarrow> bool" where
  "chain bs None ns = (ns = [])"
| "chain bs (Some n) [] = False"
| "chain bs (Some n) (m # ms) = (n = m \<and> n < length bs \<and> freeListRefs (bs ! n) = 1 \<and> chain bs (freeListNext (bs ! n)) ms)"

text \<open>
  \<open>fl\<close> is the free list, \<open>live\<close> the blocks that producers hold. The rest is the part of the initial pool not given out yet.
\<close>

definition pool_ok :: "'a cq_pool \<Rightarrow> nat list \<Rightarrow> nat set \<Rightarrow> bool" where
  "pool_ok p fl live \<longleftrightarrow>
    chain (blocks p) (freeListHead p) fl \<and> distinct fl \<and>
    initialBlockPoolIndex p \<le> initialBlockPoolSize p \<and> unat (initialBlockPoolSize p) \<le> length (blocks p) \<and>
    set fl \<union> live \<union> {unat (initialBlockPoolIndex p)..<unat (initialBlockPoolSize p)} = {..<length (blocks p)} \<and>
    set fl \<inter> live = {} \<and> (set fl \<union> live) \<inter> {unat (initialBlockPoolIndex p)..<unat (initialBlockPoolSize p)} = {} \<and>
    (\<forall>n < length (blocks p). length (elements (blocks p ! n)) = 32) \<and>
    (\<forall>n < length (blocks p). n \<notin> set fl \<longrightarrow> freeListRefs (blocks p ! n) = 0) \<and>
    (\<forall>n < length (blocks p). n \<notin> live \<longrightarrow> elements (blocks p ! n) = replicate 32 None) \<and>
    (\<forall>n < length (blocks p). dynamicallyAllocated (blocks p ! n) \<longleftrightarrow> unat (initialBlockPoolSize p) \<le> n)"

lemma chain_frame: "n \<notin> set ns \<Longrightarrow> chain (bs[n := b]) q ns = chain bs q ns"
  by (induction bs q ns rule: chain.induct) (auto simp: nth_list_update)

lemma chain_append: "chain bs q ns \<Longrightarrow> chain (bs @ [b]) q ns"
  by (induction bs q ns rule: chain.induct) (auto simp: nth_append)

lemma chain_bound: "chain bs q ns \<Longrightarrow> set ns \<subseteq> {..<length bs}"
  by (induction bs q ns rule: chain.induct) auto

lemma refs_one: "(1 :: u32) AND REFS_MASK \<noteq> 0" "(2 :: u32) AND SHOULD_BE_ON_FREELIST = 0"
  by (simp_all add: REFS_MASK_def SHOULD_BE_ON_FREELIST_def)

lemma pool_upd:
  assumes ok: "pool_ok p fl live" and n: "n \<in> live" and len: "length (elements b) = 32" and refs: "freeListRefs b = 0"
    and dyn: "dynamicallyAllocated b = dynamicallyAllocated (blocks p ! n)"
  shows "pool_ok (p\<lparr>blocks := (blocks p)[n := b]\<rparr>) fl live"
proof -
  have "n < length (blocks p)" using ok n by (auto simp: pool_ok_def)
  then have "dynamicallyAllocated b \<longleftrightarrow> unat (initialBlockPoolSize p) \<le> n" using ok dyn by (simp add: pool_ok_def)
  moreover have "n \<notin> set fl" using ok n by (auto simp: pool_ok_def)
  ultimately show ?thesis using ok n len refs by (auto simp: pool_ok_def chain_frame nth_list_update split: if_splits)
qed

lemma pool_live: "pool_ok p fl live \<Longrightarrow> n \<in> live \<Longrightarrow> n < length (blocks p) \<and> length (elements (blocks p ! n)) = 32 \<and> freeListRefs (blocks p ! n) = 0"
  by (auto simp: pool_ok_def)

lemma live_finite: "pool_ok p fl live \<Longrightarrow> finite live"
  by (rule finite_subset [of _ "{..<length (blocks p)}"]) (auto simp: pool_ok_def)

text \<open>A block given back, with nothing left in it.\<close>

lemma pool_put:
  assumes ok: "pool_ok p fl live" and n: "n \<in> live" and raw: "elements (blocks p ! n) = replicate 32 None"
  shows "\<exists>p'. free_list_add n p = Inr p' \<and> pool_ok p' (n # fl) (live - {n}) \<and> mallocs p' = mallocs p \<and>
    length (blocks p') = length (blocks p) \<and> (\<forall>m. m \<noteq> n \<longrightarrow> blocks p' ! m = blocks p ! m)"
proof -
  let ?b = "(blocks p ! n)\<lparr>freeListNext := freeListHead p, freeListRefs := 1\<rparr>"
  let ?p = "p\<lparr>blocks := (blocks p)[n := ?b], freeListHead := Some n\<rparr>"
  have n': "n < length (blocks p)" and refs: "freeListRefs (blocks p ! n) = 0" and nfl: "n \<notin> set fl"
    using pool_live [OF ok n] ok n by (auto simp: pool_ok_def)
  have run: "free_list_add n p = Inr ?p"
    using n' refs by (simp add: free_list_add_def map_block_def add_knowing_refcount_is_zero_def Let_def)
  have "pool_ok ?p (n # fl) (live - {n})"
    using ok n n' nfl raw by (auto simp: pool_ok_def chain_frame nth_list_update)
  then show ?thesis using run by simp
qed

lemma pool_from_initial:
  assumes ok: "pool_ok p fl live" and get: "try_get_block_from_initial_pool p = (Some n, p')"
  shows "pool_ok p' fl (insert n live) \<and> n \<notin> live \<and> blocks p' = blocks p \<and> mallocs p' = mallocs p \<and>
    n < length (blocks p) \<and> elements (blocks p ! n) = replicate 32 None"
proof -
  let ?i = "initialBlockPoolIndex p" and ?s = "initialBlockPoolSize p"
  have lt: "?i < ?s" and n: "n = unat ?i" and p': "p' = p\<lparr>initialBlockPoolIndex := ?i + 1\<rparr>"
    using get by (auto simp: try_get_block_from_initial_pool_def Let_def split: if_splits)
  from lt have nat: "unat ?i < unat ?s" by (simp add: word_less_nat_alt)
  have suc: "unat (?i + 1) = Suc (unat ?i)" using nat unsigned_less [of ?s, where 'a = nat]
    by (simp add: unat_word_ariths)
  have nin: "n \<in> {unat ?i..<unat ?s}" using nat n by simp
  then have out: "n \<notin> set fl" "n \<notin> live" and bound: "n < length (blocks p)"
    using ok by (auto simp: pool_ok_def)
  have split: "{unat ?i..<unat ?s} = insert n {unat (?i + 1)..<unat ?s}"
    using nat n suc by auto
  have le: "?i + 1 \<le> ?s" using nat suc by (simp add: word_le_nat_alt)
  have "pool_ok p' fl (insert n live)"
    using ok out le unfolding pool_ok_def split p' using n suc by auto
  then show ?thesis using ok out bound p' by (auto simp: pool_ok_def)
qed

lemma pool_from_list:
  assumes ok: "pool_ok p fl live"
  shows "case free_list_try_get p of Inl _ \<Rightarrow> False
    | Inr (None, p') \<Rightarrow> p' = p
    | Inr (Some n, p') \<Rightarrow> (\<exists>fl'. pool_ok p' fl' (insert n live)) \<and> n \<notin> live \<and> mallocs p' = mallocs p \<and> n < length (blocks p) \<and>
        length (blocks p') = length (blocks p) \<and> elements (blocks p' ! n) = replicate 32 None \<and>
        (\<forall>m. m \<noteq> n \<longrightarrow> blocks p' ! m = blocks p ! m)"
proof (cases "freeListHead p")
  case None
  then show ?thesis by (simp add: free_list_try_get_def)
next
  case (Some n)
  obtain ms where fl: "fl = n # ms" and n: "n < length (blocks p)" and refs: "freeListRefs (blocks p ! n) = 1"
    and ms: "chain (blocks p) (freeListNext (blocks p ! n)) ms"
    using ok Some by (cases fl) (auto simp: pool_ok_def)
  let ?p = "p\<lparr>blocks := (blocks p)[n := (blocks p ! n)\<lparr>freeListRefs := 0\<rparr>], freeListHead := freeListNext (blocks p ! n)\<rparr>"
  have run: "free_list_try_get p = Inr (Some n, ?p)"
    using Some n refs by (simp add: free_list_try_get_def map_block_def Let_def refs_one)
  have d: "n \<notin> set ms" "n \<notin> live" using ok fl by (auto simp: pool_ok_def)
  have "pool_ok ?p ms (insert n live)"
    using ok fl n refs ms d by (auto simp: pool_ok_def chain_frame nth_list_update)
  then show ?thesis using run n d ok by (auto simp: pool_ok_def)
qed

lemma pool_created:
  assumes ok: "pool_ok p fl live" and new: "create_block mem p = (Some n, p')"
  shows "pool_ok p' fl (insert n live) \<and> n \<notin> live \<and> n = length (blocks p) \<and> length (blocks p') = Suc n \<and>
    elements (blocks p' ! n) = replicate 32 None \<and> (\<forall>m < n. blocks p' ! m = blocks p ! m)"
proof -
  have n: "n = length (blocks p)" and p': "p' = p\<lparr>blocks := blocks p @ [block_new], mallocs := mallocs p + 1\<rparr>"
    using new by (auto simp: create_block_def split: if_splits)
  have out: "n \<notin> set fl" "n \<notin> live" "n \<notin> {unat (initialBlockPoolIndex p)..<unat (initialBlockPoolSize p)}"
    using ok n by (auto simp: pool_ok_def)
  have cover: "set fl \<union> insert n live \<union> {unat (initialBlockPoolIndex p)..<unat (initialBlockPoolSize p)} = {..<Suc n}"
    using ok n by (auto simp: pool_ok_def)
  have "pool_ok p' fl (insert n live)"
    using ok out n p' cover
    by (simp add: pool_ok_def chain_append nth_append less_Suc_eq block_new_def)
  then show ?thesis using out n p' by (auto simp: nth_append block_new_def)
qed

text \<open>
  A requisition finds a block that nobody holds, with nothing in it; only when the pool is used up, the free list empty and
  memory short there is none.
\<close>

lemma requisition_ok:
  assumes ok: "pool_ok p fl live"
  shows "case requisition_block mem p of Inl _ \<Rightarrow> False
    | Inr (None, p') \<Rightarrow> p' = p\<lparr>mallocs := mallocs p + 1\<rparr> \<and> \<not> mem (mallocs p)
    | Inr (Some n, p') \<Rightarrow> (\<exists>fl'. pool_ok p' fl' (insert n live)) \<and> n \<notin> live \<and> elements (blocks p' ! n) = replicate 32 None \<and>
        (\<forall>m \<in> live. blocks p' ! m = blocks p ! m)"
proof -
  obtain q1 p1 where one: "try_get_block_from_initial_pool p = (q1, p1)" by fastforce
  show ?thesis
  proof (cases q1)
    case (Some n)
    then show ?thesis using pool_from_initial [OF ok, of n p1] one
      by (auto simp: requisition_block_def)
  next
    case None
    then have p1: "p1 = p" using one by (auto simp: try_get_block_from_initial_pool_def Let_def split: if_splits)
    from pool_from_list [OF ok] obtain q2 p2 where two: "free_list_try_get p = Inr (q2, p2)"
      by (auto split: sum.splits)
    have run: "requisition_block mem p = (case q2 of Some n \<Rightarrow> Inr (Some n, p2) | None \<Rightarrow> Inr (create_block mem p2))"
      using one None p1 two by (simp add: requisition_block_def)
    show ?thesis
    proof (cases q2)
      case (Some n)
      then show ?thesis using pool_from_list [OF ok] two run by auto
    next
      case q2: None
      then have p2: "p2 = p" using pool_from_list [OF ok] two by simp
      obtain q3 p3 where three: "create_block mem p = (q3, p3)" by fastforce
      show ?thesis
      proof (cases q3)
        case q3: None
        then show ?thesis using run q2 p2 three by (auto simp: create_block_def split: if_splits)
      next
        case (Some n)
        then have new: "create_block mem p = (Some n, p3)" using three by simp
        have "\<forall>m \<in> live. m < n" using pool_created [OF ok new] ok by (auto simp: pool_ok_def)
        then show ?thesis using pool_created [OF ok new] run q2 p2 new by auto
      qed
    qed
  qed
qed

end
