(* ===== verification/Cq_Words.thy ===== *)
theory Cq_Words
  imports Prelude
begin

unbundle bit_operations_syntax

text \<open>
  The arithmetic of the queue's indices: counters of 64 bits that wrap around, compared by \<open>circular_less_than\<close>, masks by a
  power of two, and the hash of a thread's id.
\<close>

definition circular_less_than :: "u64 \<Rightarrow> u64 \<Rightarrow> bool" where
  "circular_less_than a b \<longleftrightarrow> push_bit 63 1 < a - b"

text \<open>The finalizer of MurmurHash3 (\<open>_hash_32_or_64<1>::hash\<close>, for ids of more than four bytes).\<close>

definition hash_thread_id :: "u64 \<Rightarrow> u64" where
  "hash_thread_id h = (let h = h XOR drop_bit 33 h; h = h * 0xff51afd7ed558ccd; h = h XOR drop_bit 33 h;
     h = h * 0xc4ceb9fe1a85ec53 in h XOR drop_bit 33 h)"

section \<open>Masks\<close>

lemma pow64_bounds:
  assumes "k < 64"
  shows "(2::nat) ^ k < 2 ^ 64" and "(2::nat) ^ k \<le> 2 ^ 64" and "(2::nat) ^ k dvd 2 ^ 64"
proof -
  show "(2::nat) ^ k < 2 ^ 64" using assms by (intro power_strict_increasing) auto
  then show "(2::nat) ^ k \<le> 2 ^ 64" by (rule less_imp_le)
  show "(2::nat) ^ k dvd 2 ^ 64" using assms by (intro le_imp_power_dvd) simp
qed

lemma unat_small: "n < 2 ^ 64 \<Longrightarrow> unat (word_of_nat n :: u64) = n"
  by (simp add: unat_of_nat)

lemma pow64: "k < 64 \<Longrightarrow> unat (2 ^ k :: u64) = 2 ^ k"
  using unat_small [OF pow64_bounds(1)] by simp

lemma unat_mask:
  assumes "k < 64"
  shows "unat (w AND (2 ^ k - 1)) = unat (w :: u64) mod 2 ^ k"
proof -
  have "w AND (2 ^ k - 1) = take_bit k w"
    by (simp only: take_bit_eq_mask mask_eq_exp_minus_1)
  then show ?thesis by (simp only: unsigned_take_bit_eq) (simp only: take_bit_eq_mod)
qed

lemma unat_diff_mod:
  assumes k: "k < 64" and m: "m \<le> 2 ^ k"
  shows "unat (w - word_of_nat m :: u64) mod 2 ^ k = (unat w + 2 ^ k - m) mod 2 ^ k"
proof -
  have le: "(2::nat) ^ k \<le> 2 ^ 64" using k by (rule pow64_bounds)
  have dv: "(2::nat) ^ k dvd 2 ^ 64" using k by (rule pow64_bounds)
  have eq: "w - word_of_nat m = (word_of_nat (unat w + 2 ^ 64 - m) :: u64)"
  proof -
    have "(word_of_nat (unat w + 2 ^ 64 - m) :: u64) = word_of_nat (unat w) + word_of_nat (2 ^ 64) - word_of_nat m"
      using m le by (simp add: of_nat_diff)
    then show ?thesis by simp
  qed
  have "unat (w - word_of_nat m :: u64) = (unat w + 2 ^ 64 - m) mod 2 ^ 64"
    unfolding eq unat_of_nat by simp
  then have "unat (w - word_of_nat m :: u64) mod 2 ^ k = (unat w + 2 ^ 64 - m) mod 2 ^ k"
    using dv by (simp add: mod_mod_cancel)
  also have "unat w + 2 ^ 64 - m = (unat w + 2 ^ k - m) + 2 ^ k * (2 ^ (64 - k) - 1)"
  proof -
    have "(2::nat) ^ 64 = 2 ^ k * 2 ^ (64 - k)" using k by (simp flip: power_add)
    then show ?thesis using m le by (simp add: diff_mult_distrib2)
  qed
  finally show ?thesis by simp
qed

lemma unat_add_mod:
  assumes "k < 64"
  shows "unat (w + word_of_nat x :: u64) mod 2 ^ k = (unat w + x) mod 2 ^ k"
proof -
  have dv: "(2::nat) ^ k dvd 2 ^ 64" using assms by (rule pow64_bounds)
  have "w + word_of_nat x = (word_of_nat (unat w + x) :: u64)" by simp
  then have "unat (w + word_of_nat x :: u64) = (unat w + x) mod 2 ^ 64" by (simp only: unat_of_nat) simp
  then show ?thesis using dv by (simp only: mod_mod_cancel)
qed

lemma unat_suc_mod:
  assumes "k < 64"
  shows "unat (w + 1 :: u64) mod 2 ^ k = Suc (unat w) mod 2 ^ k"
proof -
  have dv: "(2::nat) ^ k dvd 2 ^ 64" using assms by (rule pow64_bounds)
  have "unat (w + 1) = Suc (unat w) mod 2 ^ 64" by (simp add: unat_word_ariths)
  then show ?thesis using dv by (simp only: mod_mod_cancel)
qed

lemma suc_mask:
  assumes "k < 64"
  shows "unat ((w + 1) AND (2 ^ k - 1) :: u64) = Suc (unat w) mod 2 ^ k"
  using assms by (simp only: unat_mask unat_suc_mod)

lemma pred_mask:
  assumes "k < 64"
  shows "unat ((w - 1) AND (2 ^ k - 1) :: u64) = (unat w + 2 ^ k - 1) mod 2 ^ k"
  using assms unat_diff_mod [of k 1 w] by (simp only: unat_mask of_nat_1 one_le_power one_le_numeral)

lemma block_cell_of_nat: "unat (word_of_nat i AND 31 :: u64) = i mod 32"
  using unat_mask [of 5 "word_of_nat i :: u64"] by (simp add: unat_of_nat mod_mod_cancel)

lemma block_base_of_nat: "(word_of_nat i AND NOT 31 :: u64) = word_of_nat (32 * (i div 32))"
proof -
  let ?w = "word_of_nat i :: u64"
  have "?w = (?w AND NOT 31) + (?w AND 31)"
    by (subst disjunctive_add) (auto simp: bit_simps intro!: bit_eqI)
  moreover have "?w AND 31 = word_of_nat (i mod 32)"
    by (simp add: word_unat_eq_iff block_cell_of_nat unat_small)
  moreover have "?w = word_of_nat (32 * (i div 32)) + word_of_nat (i mod 32)"
    by (metis mult_div_mod_eq of_nat_add)
  ultimately show ?thesis by simp
qed

section \<open>Counters\<close>

lemma unat_minus_of_nat: "0 < d \<Longrightarrow> d < 2 ^ 64 \<Longrightarrow> unat (- word_of_nat d :: u64) = 2 ^ 64 - d"
proof -
  assume d: "0 < d" "d < 2 ^ 64"
  have "- word_of_nat d = (word_of_nat (2 ^ 64 - d) :: u64)"
    using d by (simp add: of_nat_diff)
  then show ?thesis using d by (simp only: unat_of_nat) simp
qed

lemma circular_ahead:
  assumes "d < 2 ^ 64"
  shows "circular_less_than a (a + word_of_nat d) \<longleftrightarrow> 0 < d \<and> d < 2 ^ 63"
proof (cases "d = 0")
  case False
  then have "unat (- word_of_nat d :: u64) = 2 ^ 64 - d" using assms by (intro unat_minus_of_nat) auto
  then show ?thesis using False assms by (auto simp: circular_less_than_def word_less_nat_alt)
qed (simp add: circular_less_than_def)

lemma circular_of_nat:
  assumes "h \<le> t" and "t - h < 2 ^ 64"
  shows "circular_less_than (word_of_nat h) (word_of_nat t) \<longleftrightarrow> h < t \<and> t - h < 2 ^ 63"
proof -
  have "(word_of_nat t :: u64) = word_of_nat h + word_of_nat (t - h)"
    using assms(1) by (metis le_add_diff_inverse of_nat_add)
  then show ?thesis using circular_ahead [OF assms(2), of "word_of_nat h"] assms(1) by simp
qed

end
