(* ===== verification/Cq_Index.thy ===== *)
theory Cq_Index
  imports Cq_Pool Cq_Words
begin

unbundle bit_operations_syntax

text \<open>
  The block index of an implicit producer: a ring of entries that map the first index of a block to the block, from the
  oldest to the newest, and that doubles when it is full. Entries are allocated with the header that first has them and shared by the headers
  after it; an entry is its number in \<open>ientries\<close>, in the order of allocation. A header's \<open>prev\<close> is the rest of the list
  \<open>blockIndex\<close>, and null is the empty list.
\<close>

section \<open>State\<close>

text \<open>The value of a fresh entry is not initialised: \<open>None\<close>. \<open>Some None\<close> is the null pointer.\<close>

record cq_entry =
  ekey :: u64
  evalue :: "nat option option"

record cq_header =
  hcapacity :: u64
  htail :: u64
  hindex :: "nat list"

text \<open>\<open>ProducerBase\<close> and \<open>ImplicitProducer\<close>.\<close>

record cq_producer =
  tailIndex :: u64
  headIndex :: u64
  dequeueOptimisticCount :: u64
  dequeueOvercommit :: u64
  tailBlock :: "nat option"
  inactive :: bool
  nextBlockIndexCapacity :: u64
  blockIndex :: "cq_header list"
  ientries :: "cq_entry list"

definition INVALID_BLOCK_BASE :: u64 where "INVALID_BLOCK_BASE = 1"

definition entry_key_is_invalid :: "cq_entry \<Rightarrow> bool" where
  "entry_key_is_invalid e \<longleftrightarrow> ekey e = INVALID_BLOCK_BASE"

definition entry_load :: "cq_entry \<Rightarrow> cq_fault + nat option" where
  "entry_load e = (case evalue e of None \<Rightarrow> Inl RawMemory | Some v \<Rightarrow> Inr v)"

definition entry_store :: "nat \<Rightarrow> nat option \<Rightarrow> cq_producer \<Rightarrow> cq_fault + cq_producer" where
  "entry_store a v pr = bindE (fetch BadPointer (ientries pr) a) (\<lambda>e.
    Inr (pr\<lparr>ientries := (ientries pr)[a := e\<lparr>evalue := Some v\<rparr>]\<rparr>))"

section \<open>Operations\<close>

text \<open>
  The copying loop of \<open>new_block_index\<close>, from the entry after the tail to the tail; every position is visited within one round,
  so a loop of more turns than entries never ends.
\<close>

fun copy_index :: "nat \<Rightarrow> cq_header \<Rightarrow> u64 \<Rightarrow> cq_fault + nat list" where
  "copy_index 0 prev prevPos = Inl LoopsForever"
| "copy_index (Suc n) prev prevPos = (let prevPos = (prevPos + 1) AND (hcapacity prev - 1) in
    bindE (fetch BadPointer (hindex prev) (unat prevPos)) (\<lambda>a.
    if prevPos = htail prev then Inr [a] else bindE (copy_index n prev prevPos) (\<lambda>as. Inr (a # as))))"

definition new_block_index :: "(nat \<Rightarrow> bool) \<Rightarrow> cq_producer \<Rightarrow> nat \<Rightarrow> cq_fault + (bool \<times> cq_producer \<times> nat)" where
  "new_block_index mem pr n = (
    let prevCapacity = (case blockIndex pr of [] \<Rightarrow> 0 | prev # _ \<Rightarrow> hcapacity prev);
        entryCount = (case blockIndex pr of [] \<Rightarrow> nextBlockIndexCapacity pr | prev # _ \<Rightarrow> prevCapacity) in
    if \<not> mem n then Inr (False, pr, n + 1)
    else bindE (case blockIndex pr of [] \<Rightarrow> Inr []
        | prev # _ \<Rightarrow> bindE (copy_index (unat prevCapacity) prev (htail prev)) (\<lambda>as.
            bindE (assertion (length as = unat prevCapacity)) (\<lambda>_. Inr as))) (\<lambda>old.
      let base = length (ientries pr);
          index = old @ [base..<base + unat entryCount];
          header = \<lparr>hcapacity = nextBlockIndexCapacity pr, htail = (prevCapacity - 1) AND (nextBlockIndexCapacity pr - 1),
                    hindex = index\<rparr> in
      if unat (nextBlockIndexCapacity pr) < length index then Inl BadPointer
      else Inr (True, pr\<lparr>nextBlockIndexCapacity := push_bit 1 (nextBlockIndexCapacity pr), blockIndex := header # blockIndex pr,
          ientries := ientries pr @ replicate (unat entryCount) \<lparr>ekey = INVALID_BLOCK_BASE, evalue = None\<rparr>\<rparr>, n + 1)))"

text \<open>\<open>ImplicitProducer (parent)\<close>: the result of \<open>new_block_index\<close> is not looked at.\<close>

definition implicit_producer_new :: "(nat \<Rightarrow> bool) \<Rightarrow> nat \<Rightarrow> cq_fault + (cq_producer \<times> nat)" where
  "implicit_producer_new mem n =
    bindE (new_block_index mem \<lparr>tailIndex = 0, headIndex = 0, dequeueOptimisticCount = 0, dequeueOvercommit = 0,
      tailBlock = None, inactive = False, nextBlockIndexCapacity = 32, blockIndex = [], ientries = []\<rparr> n)
    (\<lambda>(_, pr, n). Inr (pr, n))"

text \<open>
  The two halves of \<open>insert_block_index_entry\<close>: the entry after the tail, and the tail moved to it. \<open>None\<close> in place of an entry is the
  result \<open>false\<close>.
\<close>

definition next_entry :: "cq_producer \<Rightarrow> cq_fault + (u64 \<times> nat \<times> cq_entry)" where
  "next_entry pr = (case blockIndex pr of [] \<Rightarrow> Inl NullPointer
    | localBlockIndex # _ \<Rightarrow> let newTail = (htail localBlockIndex + 1) AND (hcapacity localBlockIndex - 1) in
        bindE (fetch BadPointer (hindex localBlockIndex) (unat newTail)) (\<lambda>a.
        bindE (fetch BadPointer (ientries pr) a) (\<lambda>e. Inr (newTail, a, e))))"

definition set_index_tail :: "u64 \<Rightarrow> cq_producer \<Rightarrow> cq_producer" where
  "set_index_tail t pr = pr\<lparr>blockIndex := (case blockIndex pr of [] \<Rightarrow> [] | h # hs \<Rightarrow> h\<lparr>htail := t\<rparr> # hs)\<rparr>"

definition take_entry :: "u64 \<Rightarrow> u64 \<Rightarrow> nat \<Rightarrow> cq_entry \<Rightarrow> cq_producer \<Rightarrow> cq_producer" where
  "take_entry blockStartIndex newTail a e pr =
    set_index_tail newTail (pr\<lparr>ientries := (ientries pr)[a := e\<lparr>ekey := blockStartIndex\<rparr>]\<rparr>)"

definition insert_block_index_entry ::
  "(nat \<Rightarrow> bool) \<Rightarrow> u64 \<Rightarrow> cq_producer \<Rightarrow> nat \<Rightarrow> cq_fault + (nat option \<times> cq_producer \<times> nat)" where
  "insert_block_index_entry mem blockStartIndex pr n =
    bindE (next_entry pr) (\<lambda>(newTail, a, e).
    bindE (if entry_key_is_invalid e then Inr True else bindE (entry_load e) (\<lambda>v. Inr (v = None))) (\<lambda>free.
    if free then Inr (Some a, take_entry blockStartIndex newTail a e pr, n)
    else bindE (new_block_index mem pr n) (\<lambda>(done, pr, n).
      if \<not> done then Inr (None, pr, n)
      else bindE (next_entry pr) (\<lambda>(newTail, a, e).
        bindE (assertion (entry_key_is_invalid e)) (\<lambda>_.
        Inr (Some a, take_entry blockStartIndex newTail a e pr, n))))))"

definition rewind_block_index_tail :: "cq_producer \<Rightarrow> cq_fault + cq_producer" where
  "rewind_block_index_tail pr = (case blockIndex pr of [] \<Rightarrow> Inl NullPointer
    | h # _ \<Rightarrow> Inr (set_index_tail ((htail h - 1) AND (hcapacity h - 1)) pr))"

text \<open>
  The quotient of a signed difference and \<open>BLOCK_SIZE\<close>, which is unsigned: C++ converts the difference first, so the sign is not
  preserved as the comment there says; the quotient is right because the capacity divides \<open>2 ^ 64 / BLOCK_SIZE\<close>.
\<close>

definition get_block_index_index_for_index :: "u64 \<Rightarrow> cq_producer \<Rightarrow> cq_fault + (u64 \<times> cq_header)" where
  "get_block_index_index_for_index index pr = (let index = index AND NOT 31 in
    case blockIndex pr of [] \<Rightarrow> Inl NullPointer
    | localBlockIndex # _ \<Rightarrow> let tail = htail localBlockIndex in
        bindE (fetch BadPointer (hindex localBlockIndex) (unat tail)) (\<lambda>a.
        bindE (fetch BadPointer (ientries pr) a) (\<lambda>e.
        bindE (assertion (\<not> entry_key_is_invalid e)) (\<lambda>_.
        let offset = (index - ekey e) div 32;
            idx = (tail + offset) AND (hcapacity localBlockIndex - 1) in
        bindE (fetch BadPointer (hindex localBlockIndex) (unat idx)) (\<lambda>b.
        bindE (fetch BadPointer (ientries pr) b) (\<lambda>f.
        bindE (entry_load f) (\<lambda>v.
        bindE (assertion (ekey f = index \<and> v \<noteq> None)) (\<lambda>_.
        Inr (idx, localBlockIndex)))))))))"

definition get_block_index_entry_for_index :: "u64 \<Rightarrow> cq_producer \<Rightarrow> cq_fault + nat" where
  "get_block_index_entry_for_index index pr =
    bindE (get_block_index_index_for_index index pr) (\<lambda>(idx, h). fetch BadPointer (hindex h) (unat idx))"

section \<open>The ring\<close>

text \<open>The entries of the current header from the oldest to the newest.\<close>

definition ring :: "cq_header \<Rightarrow> nat list" where
  "ring h = rotate (Suc (unat (htail h))) (hindex h)"

definition header_ok :: "cq_producer \<Rightarrow> nat \<Rightarrow> cq_header \<Rightarrow> bool" where
  "header_ok pr k h \<longleftrightarrow> 5 \<le> k \<and> k \<le> 59 \<and> hcapacity h = 2 ^ k \<and> nextBlockIndexCapacity pr = 2 ^ Suc k \<and>
    length (hindex h) = 2 ^ k \<and> unat (htail h) < 2 ^ k \<and> distinct (hindex h) \<and> set (hindex h) \<subseteq> {..<length (ientries pr)}"

definition entry_free :: "cq_entry \<Rightarrow> bool" where
  "entry_free e \<longleftrightarrow> entry_key_is_invalid e \<or> evalue e = Some None"
text \<open>The entry of block \<open>j\<close>, the one with the indices from \<open>32 * j\<close> on, when \<open>bv\<close> are the values stored.\<close>

definition entry_of :: "(nat \<Rightarrow> nat option option) \<Rightarrow> nat \<Rightarrow> cq_entry" where
  "entry_of bv j = \<lparr>ekey = word_of_nat (32 * j), evalue = bv j\<rparr>"

text \<open>
  The index of the blocks with the numbers \<open>L\<close> to \<open>C\<close> (excluded): \<open>en\<close> are their entries, \<open>old\<close> those that can be used next. \<open>B\<close> is
  the number of the next block to be begun; when its entry is taken and its value not stored yet, \<open>C\<close> is one more. The newest of the entries
  before that of \<open>B\<close> has its key, even if the block has left the index.
\<close>

definition index_upto :: "cq_producer \<Rightarrow> nat \<Rightarrow> nat \<Rightarrow> nat \<Rightarrow> (nat \<Rightarrow> nat option option) \<Rightarrow> (nat \<Rightarrow> nat) \<Rightarrow> bool" where
  "index_upto pr L B C bv en \<longleftrightarrow> L \<le> B \<and> B \<le> C \<and> C \<le> Suc B \<and> (\<exists>k h hs old. blockIndex pr = h # hs \<and> header_ok pr k h \<and>
    ring h = old @ map en [L..<C] \<and> (\<forall>a \<in> set old. entry_free (ientries pr ! a)) \<and>
    (\<forall>j \<in> {L..<C}. ientries pr ! en j = entry_of bv j) \<and>
    (L = B \<and> 0 < B \<longrightarrow> ekey (ientries pr ! last old) = word_of_nat (32 * (B - 1))))"

text \<open>When operations do not overlap, the blocks of a producer are consecutive, and all of them are in the index.\<close>

definition in_index :: "(nat \<Rightarrow> nat) \<Rightarrow> nat \<Rightarrow> nat option option" where
  "in_index bl = (\<lambda>j. Some (Some (bl j)))"

definition index_ok :: "cq_producer \<Rightarrow> nat \<Rightarrow> nat \<Rightarrow> (nat \<Rightarrow> nat) \<Rightarrow> bool" where
  "index_ok pr L B bl \<longleftrightarrow> (\<exists>en. index_upto pr L B B (in_index bl) en)"

definition index_reserved :: "cq_producer \<Rightarrow> nat \<Rightarrow> nat \<Rightarrow> (nat \<Rightarrow> nat) \<Rightarrow> nat \<Rightarrow> bool" where
  "index_reserved pr L B bl a \<longleftrightarrow> (\<exists>en v. index_upto pr L B (Suc B) ((in_index bl)(B := v)) (en(B := a)))"

lemma entry_of_simps [simp]: "ekey (entry_of bv j) = word_of_nat (32 * j)" "evalue (entry_of bv j) = bv j"
  by (simp_all add: entry_of_def)

lemma in_index_simp [simp]: "in_index bl j = Some (Some (bl j))"
  by (simp add: in_index_def)

lemma base_is_valid: "(word_of_nat (32 * j) :: u64) \<noteq> 1"
proof
  assume "(word_of_nat (32 * j) :: u64) = 1"
  then have "unat (word_of_nat (32 * j) AND 31 :: u64) = unat (1 AND 31 :: u64)" by simp
  then show False by (simp only: block_cell_of_nat) simp
qed

lemma entry_of_valid [simp]: "\<not> entry_key_is_invalid (entry_of bv j)"
  using base_is_valid [of j] by (simp add: entry_key_is_invalid_def INVALID_BLOCK_BASE_def)

lemma length_ring: "header_ok pr k h \<Longrightarrow> length (ring h) = 2 ^ k"
  by (simp add: ring_def header_ok_def)

lemma set_ring [simp]: "set (ring h) = set (hindex h)" "distinct (ring h) = distinct (hindex h)"
  by (simp_all add: ring_def)

lemma ring_nonempty: "header_ok pr k h \<Longrightarrow> ring h \<noteq> []"
  using length_ring [of pr k h] by auto

lemma ring_nth: "header_ok pr k h \<Longrightarrow> i < 2 ^ k \<Longrightarrow> ring h ! i = hindex h ! ((Suc (unat (htail h)) + i) mod 2 ^ k)"
  by (simp add: ring_def header_ok_def nth_rotate del: rotate_Suc)

text \<open>Moving the tail by one turns the ring by one.\<close>

lemma turn:
  assumes ok: "header_ok pr k h" and t: "unat t = Suc (unat (htail h)) mod 2 ^ k"
  shows "ring (h\<lparr>htail := t\<rparr>) = rotate1 (ring h)" and "hindex h ! unat t = hd (ring h)" and "unat t < length (hindex h)"
    and "header_ok pr k (h\<lparr>htail := t\<rparr>)"
proof -
  have len: "length (hindex h) = 2 ^ k" using ok by (simp add: header_ok_def)
  show "ring (h\<lparr>htail := t\<rparr>) = rotate1 (ring h)"
  proof -
    have "rotate (unat t) (hindex h) = rotate (Suc (unat (htail h))) (hindex h)"
      using len t by (metis rotate_conv_mod)
    then show ?thesis by (simp add: ring_def)
  qed
  show "hindex h ! unat t = hd (ring h)"
    using t ring_nth [OF ok, of 0] ring_nonempty [OF ok] by (simp add: hd_conv_nth)
  show "unat t < length (hindex h)" using t len by simp
  show "header_ok pr k (h\<lparr>htail := t\<rparr>)" using ok t by (simp add: header_ok_def)
qed

lemma turn_back:
  assumes ok: "header_ok pr k h" and t: "unat t = (unat (htail h) + 2 ^ k - 1) mod 2 ^ k"
  shows "rotate1 (ring (h\<lparr>htail := t\<rparr>)) = ring h" and "header_ok pr k (h\<lparr>htail := t\<rparr>)"
proof -
  show ok': "header_ok pr k (h\<lparr>htail := t\<rparr>)" using ok t by (simp add: header_ok_def)
  have lt: "unat (htail h) < 2 ^ k" using ok by (simp add: header_ok_def)
  have "Suc (unat t) mod 2 ^ k = Suc (unat (htail h) + 2 ^ k - 1) mod 2 ^ k" unfolding t by (rule mod_Suc_eq)
  also have "Suc (unat (htail h) + 2 ^ k - 1) = unat (htail h) + 2 ^ k" by (simp add: Suc_diff_le)
  finally have prev: "unat (htail h) = Suc (unat t) mod 2 ^ k" using lt by simp
  show "rotate1 (ring (h\<lparr>htail := t\<rparr>)) = ring h"
    using turn(1) [OF ok', of "htail h"] prev by simp
qed

lemma next_entry_ring:
  assumes pr: "blockIndex pr = h # hs" and ok: "header_ok pr k h"
  obtains t where "next_entry pr = Inr (t, hd (ring h), ientries pr ! hd (ring h))"
    and "unat t = Suc (unat (htail h)) mod 2 ^ k"
proof -
  let ?t = "(htail h + 1) AND (hcapacity h - 1)"
  have t: "unat ?t = Suc (unat (htail h)) mod 2 ^ k"
    using ok suc_mask [of k "htail h"] by (simp add: header_ok_def)
  have "hd (ring h) \<in> set (hindex h)" using ring_nonempty [OF ok] hd_in_set [of "ring h"] by simp
  then have "hd (ring h) < length (ientries pr)" using ok by (auto simp: header_ok_def)
  then have "next_entry pr = Inr (?t, hd (ring h), ientries pr ! hd (ring h))"
    using pr turn(2,3) [OF ok t] by (simp add: next_entry_def Let_def)
  then show thesis using t by (rule that)
qed

lemma copy_index_ring:
  assumes ok: "header_ok pr k h"
  shows "0 < n \<Longrightarrow> n \<le> 2 ^ k \<Longrightarrow> unat pos = (unat (htail h) + (2 ^ k - n)) mod 2 ^ k \<Longrightarrow>
    copy_index n h pos = Inr (drop (2 ^ k - n) (ring h))"
proof (induction n arbitrary: pos)
  case (Suc n)
  let ?i = "2 ^ k - Suc n" and ?t = "unat (htail h)"
  have lt: "?t < 2 ^ k" and k: "k < 64" and cap: "hcapacity h = 2 ^ k" and len: "length (hindex h) = 2 ^ k"
    using ok by (auto simp: header_ok_def)
  let ?pos = "(pos + 1) AND (hcapacity h - 1)"
  have pos: "unat ?pos = (Suc ?t + ?i) mod 2 ^ k"
    using suc_mask [OF k, of pos] Suc.prems(3) cap by (simp add: mod_Suc_eq)
  have i: "?i < 2 ^ k" using Suc.prems by simp
  have here: "hindex h ! unat ?pos = ring h ! ?i" using ring_nth [OF ok i] pos by simp
  have bound: "unat ?pos < length (hindex h)" using pos len by simp
  have drop: "drop ?i (ring h) = ring h ! ?i # drop (Suc ?i) (ring h)"
    using i length_ring [OF ok] by (simp add: Cons_nth_drop_Suc)
  show ?case
  proof (cases n)
    case 0
    have "(Suc ?t + (2 ^ k - 1)) mod 2 ^ k = ?t" using lt by simp
    then have "?pos = htail h" using pos 0 by (simp add: word_unat_eq_iff)
    moreover have "drop (Suc ?i) (ring h) = []" using 0 length_ring [OF ok] by simp
    ultimately show ?thesis using 0 bound here drop by (simp add: Let_def)
  next
    case (Suc m)
    have "unat ?pos \<noteq> ?t"
    proof
      assume "unat ?pos = ?t"
      then have "(Suc ?t + ?i) mod 2 ^ k = ?t mod 2 ^ k" using pos lt by simp
      then have "2 ^ k dvd Suc ?t + ?i - ?t" by (subst (asm) mod_eq_dvd_iff_nat) auto
      then have "2 ^ k dvd Suc ?i" by simp
      then show False using Suc Suc.prems i by (auto dest: dvd_imp_le)
    qed
    then have ne: "?pos \<noteq> htail h" by auto
    have "Suc ?i = 2 ^ k - n" using Suc.prems(2) by simp
    moreover have "copy_index n h ?pos = Inr (drop (2 ^ k - n) (ring h))"
    proof (rule Suc.IH)
      have "Suc ?t + ?i = ?t + (2 ^ k - n)" using Suc.prems(2) by simp
      then show "unat ?pos = (?t + (2 ^ k - n)) mod 2 ^ k" using pos by (simp only:)
    qed (use Suc Suc.prems(2) in auto)
    ultimately show ?thesis using bound here drop ne by (simp add: Let_def)
  qed
qed simp

text \<open>The doubled index: the old ring, newest last, after as many fresh entries.\<close>

lemma new_block_index_ring:
  assumes pr: "blockIndex pr = h # hs" and ok: "header_ok pr k h" and k: "k < 59" and mem: "mem n"
  obtains h' where "new_block_index mem pr n = Inr (True, pr\<lparr>nextBlockIndexCapacity := 2 ^ Suc (Suc k), blockIndex := h' # h # hs,
        ientries := ientries pr @ replicate (2 ^ k) \<lparr>ekey = INVALID_BLOCK_BASE, evalue = None\<rparr>\<rparr>, n + 1)"
    and "ring h' = [length (ientries pr)..<length (ientries pr) + 2 ^ k] @ ring h"
    and "header_ok (pr\<lparr>nextBlockIndexCapacity := 2 ^ Suc (Suc k), blockIndex := h' # h # hs,
        ientries := ientries pr @ replicate (2 ^ k) \<lparr>ekey = INVALID_BLOCK_BASE, evalue = None\<rparr>\<rparr>) (Suc k) h'"
proof -
  let ?new = "[length (ientries pr)..<length (ientries pr) + 2 ^ k]"
  let ?h = "\<lparr>hcapacity = 2 ^ Suc k, htail = (2 ^ k - 1) AND (2 ^ Suc k - 1), hindex = ring h @ ?new\<rparr>"
  have cap: "hcapacity h = 2 ^ k" and ncap: "nextBlockIndexCapacity pr = 2 ^ Suc k" and sub: "set (hindex h) \<subseteq> {..<length (ientries pr)}"
    and dist: "distinct (hindex h)" and k5: "5 \<le> k" and lt: "unat (htail h) < 2 ^ k" using ok by (auto simp: header_ok_def)
  have u: "unat (2 ^ k :: u64) = 2 ^ k" "unat (2 ^ Suc k :: u64) = 2 ^ Suc k" using k by (simp_all add: pow64 del: power_Suc)
  have "copy_index (2 ^ k) h (htail h) = Inr (drop (2 ^ k - 2 ^ k) (ring h))"
    by (rule copy_index_ring [OF ok]) (use lt in auto)
  then have copy: "copy_index (unat (hcapacity h)) h (htail h) = Inr (ring h)" using cap u by simp
  have shift: "push_bit 1 (2 ^ Suc k :: u64) = 2 ^ Suc (Suc k)" by (simp add: push_bit_eq_mult)
  have run: "new_block_index mem pr n = Inr (True, pr\<lparr>nextBlockIndexCapacity := 2 ^ Suc (Suc k), blockIndex := ?h # h # hs,
        ientries := ientries pr @ replicate (2 ^ k) \<lparr>ekey = INVALID_BLOCK_BASE, evalue = None\<rparr>\<rparr>, n + 1)"
    using pr mem copy length_ring [OF ok] cap ncap u shift
    by (simp add: new_block_index_def Let_def del: power_Suc) simp
  have pred: "unat (2 ^ k - 1 :: u64) = 2 ^ k - 1"
    using u(1) by (simp add: unat_sub word_le_nat_alt)
  have less: "(2::nat) ^ k - 1 < 2 ^ Suc k" by (simp add: less_imp_diff_less)
  then have tail: "unat (htail ?h) = 2 ^ k - 1"
    using unat_mask [of "Suc k" "2 ^ k - 1"] k pred by (simp del: power_Suc)
  have turned: "ring ?h = rotate (length (ring h)) (ring h @ ?new)"
    using length_ring [OF ok] tail by (simp add: ring_def del: rotate_Suc)
  have ring: "ring ?h = ?new @ ring h"
    unfolding turned by (rule rotate_append)
  have "header_ok (pr\<lparr>nextBlockIndexCapacity := 2 ^ Suc (Suc k), blockIndex := ?h # h # hs,
        ientries := ientries pr @ replicate (2 ^ k) \<lparr>ekey = INVALID_BLOCK_BASE, evalue = None\<rparr>\<rparr>) (Suc k) ?h"
    using k k5 sub dist tail less length_ring [OF ok] by (auto simp: header_ok_def)
  then show thesis using that run ring by blast
qed

section \<open>Blocks enter and leave the index\<close>

text \<open>The fields of a producer that its index does not touch.\<close>

definition same_counters :: "cq_producer \<Rightarrow> cq_producer \<Rightarrow> bool" where
  "same_counters pr pr' \<longleftrightarrow> tailIndex pr' = tailIndex pr \<and> headIndex pr' = headIndex pr \<and> tailBlock pr' = tailBlock pr \<and>
    dequeueOptimisticCount pr' = dequeueOptimisticCount pr \<and> dequeueOvercommit pr' = dequeueOvercommit pr \<and>
    inactive pr' = inactive pr"

lemma same_counters_trans: "same_counters p q \<Longrightarrow> same_counters q r \<Longrightarrow> same_counters p r"
  by (simp add: same_counters_def)

lemma header_ok_entries: "header_ok pr k h \<Longrightarrow> length (ientries pr') = length (ientries pr) \<Longrightarrow>
    nextBlockIndexCapacity pr' = nextBlockIndexCapacity pr \<Longrightarrow> header_ok pr' k h"
  by (simp add: header_ok_def)

lemma nth_upd_out: "a \<notin> S \<Longrightarrow> b \<in> S \<Longrightarrow> ys[a := y] ! b = ys ! b"
  by (metis nth_list_update_neq)

lemma map_nth_upd: "a \<notin> set xs \<Longrightarrow> map (\<lambda>b. ys[a := y] ! b) xs = map (\<lambda>b. ys ! b) xs"
  by (simp add: nth_upd_out [where S = "set xs"])

text \<open>Entries of different blocks are different, and not among those that can be used next.\<close>

lemma entry_here:
  assumes "index_upto pr L B C bv en" and "L \<le> j" and "j < C"
  shows "en j < length (ientries pr)" and "ientries pr ! en j = entry_of bv j"
proof -
  obtain k h hs old where hok: "header_ok pr k h" and ring: "ring h = old @ map en [L..<C]"
    and ents: "\<forall>j \<in> {L..<C}. ientries pr ! en j = entry_of bv j" using assms(1) unfolding index_upto_def by blast
  have "en j \<in> set (ring h)" using assms(2,3) ring by simp
  then show "en j < length (ientries pr)" using hok by (auto simp: header_ok_def)
  show "ientries pr ! en j = entry_of bv j" using ents assms(2,3) by simp
qed

lemma ring_apart:
  assumes "header_ok pr k h" and "ring h = old @ map en [L..<C]" and "L \<le> j" and "j < C"
  shows "en j \<notin> set old" and "L \<le> i \<Longrightarrow> i < C \<Longrightarrow> i \<noteq> j \<Longrightarrow> en i \<noteq> en j"
proof -
  have d: "distinct (old @ map en [L..<C])" using assms(1,2) set_ring [of h] by (metis header_ok_def)
  then show "en j \<notin> set old" using assms(3,4) by auto
  show "L \<le> i \<Longrightarrow> i < C \<Longrightarrow> i \<noteq> j \<Longrightarrow> en i \<noteq> en j" using d assms(3,4) by (auto simp: distinct_map dest: inj_onD)
qed

lemma index_upto_cong:
  assumes "index_upto pr L B C bv en" and "\<And>j. L \<le> j \<Longrightarrow> j < C \<Longrightarrow> bv' j = bv j \<and> en' j = en j"
  shows "index_upto pr L B C bv' en'"
proof -
  have "map en' [L..<C] = map en [L..<C]" using assms(2) by simp
  moreover have "(\<forall>j \<in> {L..<C}. ientries pr ! en' j = entry_of bv' j) \<longleftrightarrow> (\<forall>j \<in> {L..<C}. ientries pr ! en j = entry_of bv j)"
    using assms(2) by (simp add: entry_of_def)
  ultimately show ?thesis using assms(1) unfolding index_upto_def by (simp only:)
qed

lemma last_segment [simp]: "L < C \<Longrightarrow> last (map en [L..<C]) = en (C - 1)"
  by (simp add: last_map)

text \<open>A block that has left the index need not be counted.\<close>

lemma skip_dead:
  assumes ok: "index_upto pr L B C bv en" and L: "L < B" "bv L = Some None"
  shows "index_upto pr (Suc L) B C bv en"
proof -
  obtain k h hs old where BC: "B \<le> C" "C \<le> Suc B" and pr: "blockIndex pr = h # hs" and hok: "header_ok pr k h"
    and ring: "ring h = old @ map en [L..<C]" and old: "\<forall>a \<in> set old. entry_free (ientries pr ! a)"
    and ents: "\<forall>j \<in> {L..<C}. ientries pr ! en j = entry_of bv j" using ok unfolding index_upto_def by blast
  have here: "ientries pr ! en L = entry_of bv L" using ents L(1) BC by simp
  show ?thesis
    unfolding index_upto_def
  proof (intro conjI exI)
    show "ring h = (old @ [en L]) @ map en [Suc L..<C]" using ring L(1) BC by (simp add: upt_conv_Cons)
    show "\<forall>a \<in> set (old @ [en L]). entry_free (ientries pr ! a)" using old here L(2) by (simp add: entry_free_def)
    show "Suc L = B \<and> 0 < B \<longrightarrow> ekey (ientries pr ! last (old @ [en L])) = word_of_nat (32 * (B - 1))" using here by auto
  qed (use L BC pr hok ents in auto)
qed

text \<open>The value of an entry stored, by whatever thread.\<close>

lemma store_entry:
  assumes ok: "index_upto pr L B C bv en" and j: "L \<le> j" "j < C"
  obtains pr' where "entry_store (en j) v pr = Inr pr'" and "index_upto pr' L B C (bv(j := Some v)) en" and "same_counters pr pr'"
proof -
  obtain k h hs old where LB: "L \<le> B" "B \<le> C" "C \<le> Suc B" and pr: "blockIndex pr = h # hs" and hok: "header_ok pr k h"
    and ring: "ring h = old @ map en [L..<C]" and old: "\<forall>a \<in> set old. entry_free (ientries pr ! a)"
    and ents: "\<forall>j \<in> {L..<C}. ientries pr ! en j = entry_of bv j"
    and key: "L = B \<and> 0 < B \<longrightarrow> ekey (ientries pr ! last old) = word_of_nat (32 * (B - 1))"
    using ok unfolding index_upto_def by blast
  let ?a = "en j"
  let ?pr = "pr\<lparr>ientries := (ientries pr)[?a := (ientries pr ! ?a)\<lparr>evalue := Some v\<rparr>]\<rparr>"
  have a: "?a < length (ientries pr)" and here: "ientries pr ! ?a = entry_of bv j" using entry_here [OF ok j] by simp_all
  have out: "?a \<notin> set old" by (rule ring_apart(1) [OF hok ring j])
  have keys: "ekey (ientries ?pr ! b) = ekey (ientries pr ! b)" for b using a by (cases "b = ?a") auto
  have "index_upto ?pr L B C (bv(j := Some v)) en"
    unfolding index_upto_def
  proof (intro conjI exI ballI)
    show "blockIndex ?pr = h # hs" using pr by simp
    show "header_ok ?pr k h" by (rule header_ok_entries [OF hok]) simp_all
    show "entry_free (ientries ?pr ! b)" if "b \<in> set old" for b
      using old out that by (simp add: nth_upd_out [where S = "set old"])
    show "ientries ?pr ! en i = entry_of (bv(j := Some v)) i" if i: "i \<in> {L..<C}" for i
    proof (cases "i = j")
      case True
      then show ?thesis using a here by (simp add: entry_of_def)
    next
      case False
      then have "en i \<noteq> ?a" using ring_apart(2) [OF hok ring j] i by simp
      then show ?thesis using ents i False by (simp add: entry_of_def)
    qed
    show "L = B \<and> 0 < B \<longrightarrow> ekey (ientries ?pr ! last old) = word_of_nat (32 * (B - 1))" using key keys by simp
  qed (use LB ring in simp_all)
  moreover have "entry_store ?a v pr = Inr ?pr" using a by (simp add: entry_store_def)
  ultimately show thesis using that by (simp add: same_counters_def)
qed

text \<open>The entry after the tail taken for block \<open>B\<close>.\<close>

lemma take_entry_reserves:
  assumes pr: "blockIndex pr = h # hs" and ok: "header_ok pr k h" and LB: "L \<le> B"
    and ring: "ring h = a # old @ map en [L..<B]" and old: "\<forall>b \<in> set old. entry_free (ientries pr ! b)"
    and ents: "\<forall>j \<in> {L..<B}. ientries pr ! en j = entry_of bv j"
    and key: "0 < B \<longrightarrow> ekey (ientries pr ! last (ring h)) = word_of_nat (32 * (B - 1))"
    and t: "unat t = Suc (unat (htail h)) mod 2 ^ k"
  shows "(\<exists>v. index_upto (take_entry (word_of_nat (32 * B)) t a (ientries pr ! a) pr) L B (Suc B) (bv(B := v)) (en(B := a))) \<and>
    same_counters pr (take_entry (word_of_nat (32 * B)) t a (ientries pr ! a) pr)"
proof -
  let ?pr = "take_entry (word_of_nat (32 * B)) t a (ientries pr ! a) pr"
  let ?bv = "bv(B := evalue (ientries pr ! a))" and ?en = "en(B := a)"
  have out: "a \<notin> set old" "a \<notin> set (map en [L..<B])" and a: "a < length (ientries pr)"
    using ok ring set_ring [of h] by (auto simp: header_ok_def)
  have "2 \<le> length (ring h)"
    using length_ring [OF ok] ok power_increasing [of 1 k "2::nat"] by (simp add: header_ok_def)
  then have ne: "L = B \<Longrightarrow> old \<noteq> []" using ring by auto
  have ie: "ientries ?pr = (ientries pr)[a := (ientries pr ! a)\<lparr>ekey := word_of_nat (32 * B)\<rparr>]"
    by (simp add: take_entry_def set_index_tail_def)
  have same: "map ?en [L..<B] = map en [L..<B]" by simp
  have "index_upto ?pr L B (Suc B) ?bv ?en"
    unfolding index_upto_def
  proof (intro exI conjI ballI)
    show "blockIndex ?pr = h\<lparr>htail := t\<rparr> # hs" using pr by (simp add: take_entry_def set_index_tail_def)
    show "header_ok ?pr k (h\<lparr>htail := t\<rparr>)"
      by (rule header_ok_entries [OF turn(4) [OF ok t]]) (simp_all add: take_entry_def set_index_tail_def)
    show "ring (h\<lparr>htail := t\<rparr>) = old @ map ?en [L..<Suc B]" using turn(1) [OF ok t] ring same LB by simp
    show "entry_free (ientries ?pr ! b)" if "b \<in> set old" for b
      using old out(1) ie that by (simp add: nth_upd_out [where S = "set old"])
    show "ientries ?pr ! ?en j = entry_of ?bv j" if j: "j \<in> {L..<Suc B}" for j
    proof (cases "j = B")
      case True
      then show ?thesis using a ie by (simp add: entry_of_def)
    next
      case False
      then have "en j \<noteq> a" using out(2) j by auto
      then show ?thesis using False j ents ie by (simp add: entry_of_def)
    qed
    show "L = B \<and> 0 < B \<longrightarrow> ekey (ientries ?pr ! last old) = word_of_nat (32 * (B - 1))"
    proof
      assume LB: "L = B \<and> 0 < B"
      then have "last (ring h) = last old" using ring ne by simp
      moreover have "last old \<noteq> a" using out(1) ne LB last_in_set [of old] by auto
      ultimately show "ekey (ientries ?pr ! last old) = word_of_nat (32 * (B - 1))" using key ie LB by simp
    qed
  qed (use LB in simp_all)
  then show ?thesis by (auto simp: same_counters_def take_entry_def set_index_tail_def)
qed

text \<open>The index doubled when every entry is in use.\<close>

lemma insert_full:
  assumes pr: "blockIndex pr = h # hs" and hok: "header_ok pr k h" and LB: "L < B" and few: "B - L \<le> 2 ^ 58"
    and ring: "ring h = map en [L..<B]" and ents: "\<forall>j \<in> {L..<B}. ientries pr ! en j = entry_of bv j" and busy: "bv L = Some (Some n0)"
    and mem: "mem n"
  obtains a pr' v where "insert_block_index_entry mem (word_of_nat (32 * B)) pr n = Inr (Some a, pr', n + 1)"
    and "index_upto pr' L B (Suc B) (bv(B := v)) (en(B := a))" and "same_counters pr pr'"
proof -
  obtain t where nxt: "next_entry pr = Inr (t, hd (ring h), ientries pr ! hd (ring h))" using next_entry_ring [OF pr hok] by blast
  have "hd (ring h) = en L" using ring LB by (simp add: upt_conv_Cons)
  then have hd: "ientries pr ! hd (ring h) = entry_of bv L" using ents LB by simp
  have "2 ^ k = B - L" using length_ring [OF hok] ring by simp
  then have "(2::nat) ^ k \<le> 2 ^ 58" using few by simp
  then have k: "k < 59" using power_le_imp_le_exp [of "2::nat" k 58] by simp
  obtain h' where run: "new_block_index mem pr n = Inr (True, pr\<lparr>nextBlockIndexCapacity := 2 ^ Suc (Suc k), blockIndex := h' # h # hs,
        ientries := ientries pr @ replicate (2 ^ k) \<lparr>ekey = INVALID_BLOCK_BASE, evalue = None\<rparr>\<rparr>, n + 1)"
    and ring': "ring h' = [length (ientries pr)..<length (ientries pr) + 2 ^ k] @ ring h"
    and hok': "header_ok (pr\<lparr>nextBlockIndexCapacity := 2 ^ Suc (Suc k), blockIndex := h' # h # hs,
        ientries := ientries pr @ replicate (2 ^ k) \<lparr>ekey = INVALID_BLOCK_BASE, evalue = None\<rparr>\<rparr>) (Suc k) h'"
    (is "header_ok ?pr _ _")
    using new_block_index_ring [where mem = mem and n = n, OF pr hok k mem] by blast
  let ?old = "[Suc (length (ientries pr))..<length (ientries pr) + 2 ^ k]" and ?a = "length (ientries pr)"
  have fresh: "ientries ?pr ! i = \<lparr>ekey = INVALID_BLOCK_BASE, evalue = None\<rparr>"
    if "?a \<le> i" "i < ?a + 2 ^ k" for i using that by (simp add: nth_append)
  have bi: "blockIndex ?pr = h' # h # hs" by simp
  have ring'': "ring h' = ?a # ?old @ map en [L..<B]" using ring' ring by (simp add: upt_conv_Cons)
  obtain t' where nxt': "next_entry ?pr = Inr (t', hd (ring h'), ientries ?pr ! hd (ring h'))"
    and t': "unat t' = Suc (unat (htail h')) mod 2 ^ Suc k"
    using next_entry_ring [OF bi hok'] by blast
  have inv: "entry_key_is_invalid (ientries ?pr ! ?a)" using fresh [of ?a] by (simp add: entry_key_is_invalid_def)
  have ins: "insert_block_index_entry mem (word_of_nat (32 * B)) pr n =
      Inr (Some ?a, take_entry (word_of_nat (32 * B)) t' ?a (ientries ?pr ! ?a) ?pr, n + 1)"
    using nxt hd busy run nxt' ring'' inv by (simp add: insert_block_index_entry_def entry_load_def)
  have free: "\<forall>b\<in>set ?old. entry_free (ientries ?pr ! b)"
    using fresh by (auto simp: entry_free_def entry_key_is_invalid_def)
  have old: "en j < ?a" if "j \<in> {L..<B}" for j
  proof -
    have "en j \<in> set (ring h)" using ring that by simp
    then show ?thesis using hok by (auto simp: header_ok_def)
  qed
  have ents': "\<forall>j\<in>{L..<B}. ientries ?pr ! en j = entry_of bv j" using ents old by (simp add: nth_append)
  have "last (ring h') = en (B - 1)" using ring'' LB by simp
  then have key: "0 < B \<longrightarrow> ekey (ientries ?pr ! last (ring h')) = word_of_nat (32 * (B - 1))" using ents' LB by auto
  obtain v where "index_upto (take_entry (word_of_nat (32 * B)) t' ?a (ientries ?pr ! ?a) ?pr) L B (Suc B) (bv(B := v)) (en(B := ?a))"
    and "same_counters ?pr (take_entry (word_of_nat (32 * B)) t' ?a (ientries ?pr ! ?a) ?pr)"
    using take_entry_reserves [OF bi hok' _ ring'' free ents' key t'] LB by auto
  then show thesis using that [OF ins] by (simp add: same_counters_def)
qed

lemma insert_upto:
  assumes ok: "index_upto pr L B B bv en" and few: "B - L \<le> 2 ^ 58" and known: "\<forall>j \<in> {L..<B}. bv j \<noteq> None"
  shows "case insert_block_index_entry mem (word_of_nat (32 * B)) pr n of Inl _ \<Rightarrow> False
    | Inr (None, pr', n') \<Rightarrow> pr' = pr \<and> n' = n + 1 \<and> \<not> mem n
    | Inr (Some a, pr', n') \<Rightarrow> same_counters pr pr' \<and> (\<exists>L' v. L \<le> L' \<and> L' \<le> B \<and> (\<forall>j \<in> {L..<L'}. bv j = Some None) \<and>
        index_upto pr' L' B (Suc B) (bv(B := v)) (en(B := a)))"
proof -
  obtain k h hs old where pr: "blockIndex pr = h # hs" and hok: "header_ok pr k h" and LB: "L \<le> B"
    and ring: "ring h = old @ map en [L..<B]" and old: "\<forall>a \<in> set old. entry_free (ientries pr ! a)"
    and ents: "\<forall>j \<in> {L..<B}. ientries pr ! en j = entry_of bv j"
    and key0: "L = B \<and> 0 < B \<longrightarrow> ekey (ientries pr ! last old) = word_of_nat (32 * (B - 1))"
    using ok unfolding index_upto_def by blast
  obtain t where nxt: "next_entry pr = Inr (t, hd (ring h), ientries pr ! hd (ring h))"
    and t: "unat t = Suc (unat (htail h)) mod 2 ^ k" using next_entry_ring [OF pr hok] by blast
  have key: "0 < B \<longrightarrow> ekey (ientries pr ! last (ring h)) = word_of_nat (32 * (B - 1))"
  proof (cases "L < B")
    case True
    then have "last (ring h) = en (B - 1)" using ring by simp
    then show ?thesis using ents True by auto
  qed (use key0 ring LB in simp)
  have taken: ?thesis if ring': "ring h = a # old' @ map en [L'..<B]" and free: "entry_free (ientries pr ! a)"
    and old': "\<forall>b \<in> set old'. entry_free (ientries pr ! b)" and L': "L \<le> L'" "L' \<le> B" "\<forall>j \<in> {L..<L'}. bv j = Some None" for a old' L'
  proof -
    have ins: "insert_block_index_entry mem (word_of_nat (32 * B)) pr n =
        Inr (Some a, take_entry (word_of_nat (32 * B)) t a (ientries pr ! a) pr, n)"
      using nxt free ring' by (auto simp: insert_block_index_entry_def entry_free_def entry_load_def)
    have "\<forall>j \<in> {L'..<B}. ientries pr ! en j = entry_of bv j" using ents L' by simp
    from take_entry_reserves [OF pr hok L'(2) ring' old' this key t] show ?thesis using ins L' by auto
  qed
  show ?thesis
  proof (cases old)
    case (Cons a old')
    then show ?thesis using taken [of a old' L] ring old LB by auto
  next
    case Nil
    then have L: "L < B" using ring ring_nonempty [OF hok] by (cases "L < B") auto
    have here: "ientries pr ! en L = entry_of bv L" using ents L by simp
    have ring': "ring h = en L # [] @ map en [Suc L..<B]" using ring Nil L by (simp add: upt_conv_Cons)
    have "bv L \<noteq> None" using known L by simp
    then obtain v where v: "bv L = Some v" by blast
    show ?thesis
    proof (cases v)
      case None
      then show ?thesis using taken [OF ring'] here v L by (simp add: entry_free_def less_Suc_eq)
    next
      case (Some n0)
      show ?thesis
      proof (cases "mem n")
        case False
        then show ?thesis
          using nxt ring' here v Some by (simp add: insert_block_index_entry_def new_block_index_def Let_def entry_load_def)
      next
        case True
        obtain a pr' w where "insert_block_index_entry mem (word_of_nat (32 * B)) pr n = Inr (Some a, pr', n + 1)"
          and "index_upto pr' L B (Suc B) (bv(B := w)) (en(B := a))" and "same_counters pr pr'"
          by (rule insert_full [where mem = mem and n = n, OF pr hok L few _ ents _ True]) (use ring Nil v Some in simp_all)
        then show ?thesis using L by auto
      qed
    qed
  qed
qed

text \<open>The new block's entry completed.\<close>

lemma index_grows: "index_upto pr L B (Suc B) bv en \<Longrightarrow> index_upto pr L (Suc B) (Suc B) bv en"
  unfolding index_upto_def by fastforce

text \<open>The tail moved back, and null stored, when there is no block.\<close>

lemma rewind_upto:
  assumes ok: "index_upto pr L B (Suc B) bv en"
  obtains pr' where "bindE (rewind_block_index_tail pr) (entry_store (en B) None) = Inr pr'" and "index_upto pr' L B B bv en"
    and "same_counters pr pr'"
proof -
  obtain k h hs old where LB: "L \<le> B" and pr: "blockIndex pr = h # hs" and hok: "header_ok pr k h"
    and ring: "ring h = old @ map en [L..<Suc B]" and old: "\<forall>b \<in> set old. entry_free (ientries pr ! b)"
    and ents: "\<forall>j \<in> {L..<Suc B}. ientries pr ! en j = entry_of bv j"
    and key: "L = B \<and> 0 < B \<longrightarrow> ekey (ientries pr ! last old) = word_of_nat (32 * (B - 1))"
    using ok unfolding index_upto_def by blast
  let ?a = "en B"
  let ?t = "(htail h - 1) AND (hcapacity h - 1)" and ?e = "(ientries pr ! ?a)\<lparr>evalue := Some None\<rparr>"
  let ?h = "h\<lparr>htail := ?t\<rparr>"
  let ?pr = "(set_index_tail ?t pr)\<lparr>ientries := (ientries pr)[?a := ?e]\<rparr>"
  have a: "?a < length (ientries pr)" using entry_here [OF ok LB] by simp
  have t: "unat ?t = (unat (htail h) + 2 ^ k - 1) mod 2 ^ k"
    using pred_mask [of k "htail h"] hok by (simp add: header_ok_def)
  have hok': "header_ok pr k ?h" by (rule turn_back [OF hok t])
  have "rotate1 (ring ?h) = (old @ map en [L..<B]) @ [?a]" using turn_back(1) [OF hok t] ring LB by simp
  then have ring': "ring ?h = ?a # old @ map en [L..<B]" using ring_nonempty [OF hok'] by (cases "ring ?h") auto
  have "distinct (ring ?h)" using hok by (simp add: header_ok_def)
  then have "distinct (?a # old @ map en [L..<B])" unfolding ring' .
  then have out: "?a \<notin> set old" "?a \<notin> set (map en [L..<B])" by auto
  have "2 \<le> length (ring ?h)"
    using length_ring [OF hok'] hok power_increasing [of 1 k "2::nat"] by (simp add: header_ok_def)
  then have ne: "L = B \<Longrightarrow> old \<noteq> []" using ring' by auto
  have "index_upto ?pr L B B bv en"
    unfolding index_upto_def
  proof (intro exI conjI ballI)
    show "blockIndex ?pr = ?h # hs" using pr by (simp add: set_index_tail_def)
    show "header_ok ?pr k ?h" by (rule header_ok_entries [OF hok']) (simp_all add: set_index_tail_def)
    show "ring ?h = (?a # old) @ map en [L..<B]" using ring' by simp
    show "entry_free (ientries ?pr ! b)" if "b \<in> set (?a # old)" for b
      using old out(1) a that by (cases "b = ?a") (auto simp: entry_free_def nth_upd_out [where S = "set old"])
    show "ientries ?pr ! en j = entry_of bv j" if j: "j \<in> {L..<B}" for j
    proof -
      have "en j \<in> set (map en [L..<B])" using j by simp
      then have "en j \<noteq> ?a" using out(2) by metis
      then show ?thesis using ents j by simp
    qed
    show "L = B \<and> 0 < B \<longrightarrow> ekey (ientries ?pr ! last (?a # old)) = word_of_nat (32 * (B - 1))"
    proof
      assume LB: "L = B \<and> 0 < B"
      then have "last old \<in> set old" using ne by (intro last_in_set) simp
      then have "last old \<noteq> ?a" using out(1) by metis
      then show "ekey (ientries ?pr ! last (?a # old)) = word_of_nat (32 * (B - 1))" using key ne LB by simp
    qed
  qed (use LB in simp_all)
  then show thesis
    using that a pr by (simp add: rewind_block_index_tail_def entry_store_def set_index_tail_def same_counters_def)
qed

text \<open>The entry of an index that is in a block of the index, however the counters have wrapped.\<close>

lemma ring_from_tail:
  assumes ok: "header_ok pr k h" and m: "m < 2 ^ k" and idx: "unat idx = (unat (htail h) + 2 ^ k - m) mod 2 ^ k"
  shows "hindex h ! unat idx = ring h ! (2 ^ k - 1 - m)"
proof -
  have "ring h ! (2 ^ k - 1 - m) = hindex h ! ((Suc (unat (htail h)) + (2 ^ k - 1 - m)) mod 2 ^ k)"
    using m by (intro ring_nth [OF ok]) simp
  also have "Suc (unat (htail h)) + (2 ^ k - 1 - m) = unat (htail h) + 2 ^ k - m" using m by simp
  finally show ?thesis using idx by simp
qed

lemma block_offset:
  assumes "m < 2 ^ 59"
  shows "(word_of_nat (32 * j) - word_of_nat (32 * (j + m)) :: u64) div 32 = (if m = 0 then 0 else word_of_nat (2 ^ 59 - m))"
proof (cases "m = 0")
  case False
  have "(word_of_nat (32 * j) - word_of_nat (32 * (j + m)) :: u64) = - word_of_nat (32 * m)"
    by (simp add: distrib_left)
  moreover have "unat (- word_of_nat (32 * m) :: u64) = 2 ^ 64 - 32 * m"
    using False assms by (intro unat_minus_of_nat) auto
  moreover have "(2 ^ 64 - 32 * m) div 32 = 2 ^ 59 - m"
  proof -
    have "(2 ^ 64 - 32 * m :: nat) = 32 * (2 ^ 59 - m)" by (simp add: diff_mult_distrib2)
    then show ?thesis by simp
  qed
  ultimately have "unat ((word_of_nat (32 * j) - word_of_nat (32 * (j + m)) :: u64) div 32) = 2 ^ 59 - m"
    by (simp add: unat_div)
  moreover have "unat (word_of_nat (2 ^ 59 - m) :: u64) = 2 ^ 59 - m" by (intro unat_small) simp
  ultimately show ?thesis using False by (simp only: word_unat_eq_iff if_False)
qed simp

lemma offset_mask:
  assumes k: "k \<le> 59" and m: "m < 2 ^ k"
  shows "unat ((t + (if m = 0 then 0 else word_of_nat (2 ^ 59 - m))) AND (2 ^ k - 1) :: u64) = (unat t + 2 ^ k - m) mod 2 ^ k"
proof -
  have k64: "k < 64" using k by simp
  have pow: "(2::nat) ^ k \<le> 2 ^ 59" using k by (intro power_increasing) auto
  from m pow have m59: "m < 2 ^ 59" by (rule less_le_trans)
  show ?thesis
  proof (cases "m = 0")
    case True
    then show ?thesis using k64 by (simp only: unat_mask if_True add_0_right diff_zero) simp
  next
    case False
    have "(2::nat) ^ 59 = 2 ^ k * 2 ^ (59 - k)" using k by (simp flip: power_add)
    then have "unat t + (2 ^ 59 - m) = (unat t + 2 ^ k - m) + 2 ^ k * (2 ^ (59 - k) - 1)"
      using m pow by (simp add: diff_mult_distrib2)
    then have "(unat t + (2 ^ 59 - m)) mod 2 ^ k = (unat t + 2 ^ k - m) mod 2 ^ k" by simp
    then show ?thesis using False k64 by (simp only: unat_mask unat_add_mod if_False)
  qed
qed

lemma look_up:
  assumes ok: "index_upto pr L B C bv en" and i: "L \<le> i div 32" "i div 32 < C" and v: "bv (i div 32) = Some (Some n)"
  shows "get_block_index_entry_for_index (word_of_nat i) pr = Inr (en (i div 32))"
proof -
  obtain k h hs old where pr: "blockIndex pr = h # hs" and hok: "header_ok pr k h" and ring: "ring h = old @ map en [L..<C]"
    using ok unfolding index_upto_def by blast
  define j m where "j = i div 32" and "m = C - 1 - j"
  have j: "L \<le> j" "j < C" and C: "C - 1 = j + m" "0 < C" using i by (auto simp: j_def m_def)
  have k: "5 \<le> k" "k \<le> 59" "k < 64" and cap: "hcapacity h = 2 ^ k" and tail: "unat (htail h) < length (hindex h)"
    and idx_len: "length (hindex h) = 2 ^ k" using hok by (auto simp: header_ok_def)
  have total: "length old + (C - L) = 2 ^ k" using length_ring [OF hok] ring by simp
  have m: "m < 2 ^ k" using total j by (simp add: m_def)
  let ?t = "hindex h ! unat (htail h)"
  have "(unat (htail h) + 2 ^ k - 0) mod 2 ^ k = unat (htail h)" using tail idx_len by simp
  then have "?t = ring h ! (2 ^ k - 1 - 0)" using ring_from_tail [OF hok, of 0 "htail h"] by simp
  then have "?t = last (ring h)" using length_ring [OF hok] ring_nonempty [OF hok] by (simp add: last_conv_nth)
  also have "\<dots> = en (C - 1)" using ring j by simp
  finally have t: "?t = en (j + m)" using C by simp
  have tb: "?t < length (ientries pr)" "ientries pr ! ?t = entry_of bv (j + m)"
    using entry_here [OF ok, of "j + m"] j C unfolding t by auto
  let ?idx = "(htail h + (if m = 0 then 0 else word_of_nat (2 ^ 59 - m))) AND (2 ^ k - 1)"
  have idx: "unat ?idx = (unat (htail h) + 2 ^ k - m) mod 2 ^ k" by (rule offset_mask [OF k(2) m])
  have "(2::nat) ^ k \<le> 2 ^ 59" using k by (intro power_increasing) auto
  then have off: "(word_of_nat (32 * j) - word_of_nat (32 * (j + m)) :: u64) div 32 = (if m = 0 then 0 else word_of_nat (2 ^ 59 - m))"
    using m by (intro block_offset) simp
  have pos: "2 ^ k - 1 - m = length old + (j - L)" using total j m by (simp add: m_def)
  have "ring h ! (length old + (j - L)) = map en [L..<C] ! (j - L)" unfolding ring by (rule nth_append_length_plus)
  then have "ring h ! (length old + (j - L)) = en j" using j by simp
  then have a: "hindex h ! unat ?idx = en j" using ring_from_tail [OF hok m idx] unfolding pos by simp
  have ab: "en j < length (ientries pr)" "ientries pr ! en j = entry_of bv j" by (rule entry_here [OF ok j])+
  have base: "(word_of_nat i AND NOT 31 :: u64) = word_of_nat (32 * j)" unfolding j_def by (rule block_base_of_nat)
  have "bv j = Some (Some n)" using v by (simp add: j_def)
  then show ?thesis
    unfolding j_def [symmetric]
    using pr tail tb off a ab idx cap idx_len base
    by (simp add: get_block_index_entry_for_index_def get_block_index_index_for_index_def Let_def entry_load_def
        del: of_nat_mult of_nat_add cong: if_cong)
qed

section \<open>Operations that do not overlap\<close>

lemma index_cong: "index_ok pr L B bl \<Longrightarrow> (\<And>j. L \<le> j \<Longrightarrow> j < B \<Longrightarrow> bl' j = bl j) \<Longrightarrow> index_ok pr L B bl'"
  unfolding index_ok_def using index_upto_cong [where bv = "in_index bl" and bv' = "in_index bl'"] by fastforce

lemma insert_entry:
  assumes ok: "index_ok pr L B bl" and few: "B - L \<le> 2 ^ 58"
  shows "case insert_block_index_entry mem (word_of_nat (32 * B)) pr n of Inl _ \<Rightarrow> False
    | Inr (None, pr', n') \<Rightarrow> pr' = pr \<and> n' = n + 1 \<and> \<not> mem n
    | Inr (Some a, pr', n') \<Rightarrow> index_reserved pr' L B bl a \<and> same_counters pr pr'"
proof -
  obtain en where up: "index_upto pr L B B (in_index bl) en" using ok by (auto simp: index_ok_def)
  have res: "index_reserved pr' L B bl a" if "\<exists>L' v. L \<le> L' \<and> L' \<le> B \<and> (\<forall>j \<in> {L..<L'}. in_index bl j = Some None) \<and>
      index_upto pr' L' B (Suc B) ((in_index bl)(B := v)) (en(B := a))" for pr' a
    using that
  proof (elim exE conjE)
    fix L' v
    assume L': "L \<le> L'" "\<forall>j \<in> {L..<L'}. in_index bl j = Some None"
      and up': "index_upto pr' L' B (Suc B) ((in_index bl)(B := v)) (en(B := a))"
    have "L' = L" using L' by (cases "L < L'") auto
    then show ?thesis using up' by (auto simp: index_reserved_def)
  qed
  from insert_upto [OF up few, where mem = mem and n = n] show ?thesis
    by (cases "insert_block_index_entry mem (word_of_nat (32 * B)) pr n") (auto intro: res split: option.splits prod.splits simp del: fun_upd_apply of_nat_mult)
qed

lemma complete_entry:
  assumes res: "index_reserved pr L B bl a"
  shows "\<exists>pr'. entry_store a (Some n) pr = Inr pr' \<and> index_ok pr' L (Suc B) (bl(B := n)) \<and> same_counters pr pr'"
proof -
  obtain en v where up: "index_upto pr L B (Suc B) ((in_index bl)(B := v)) (en(B := a))" using res by (auto simp: index_reserved_def)
  have LB: "L \<le> B" using up by (simp add: index_upto_def)
  obtain pr' where store: "entry_store ((en(B := a)) B) (Some n) pr = Inr pr'" and same: "same_counters pr pr'"
    and up': "index_upto pr' L B (Suc B) ((in_index bl)(B := v, B := Some (Some n))) (en(B := a))"
    by (rule store_entry [OF up LB]) simp
  have "index_upto pr' L (Suc B) (Suc B) (in_index (bl(B := n))) (en(B := a))"
    by (rule index_upto_cong [OF index_grows [OF up']]) simp
  then show ?thesis using store same by (auto simp: index_ok_def)
qed

lemma rewind_entry:
  assumes res: "index_reserved pr L B bl a"
  shows "\<exists>pr'. bindE (rewind_block_index_tail pr) (entry_store a None) = Inr pr' \<and> index_ok pr' L B bl \<and> same_counters pr pr'"
proof -
  obtain en v where up: "index_upto pr L B (Suc B) ((in_index bl)(B := v)) (en(B := a))" using res by (auto simp: index_reserved_def)
  obtain pr' where "bindE (rewind_block_index_tail pr) (entry_store ((en(B := a)) B) None) = Inr pr'" and same: "same_counters pr pr'"
    and up': "index_upto pr' L B B ((in_index bl)(B := v)) (en(B := a))"
    by (rule rewind_upto [OF up])
  moreover have "index_upto pr' L B B (in_index bl) (en(B := a))" by (rule index_upto_cong [OF up']) simp
  ultimately show ?thesis by (auto simp: index_ok_def)
qed

lemma get_entry:
  assumes ok: "index_ok pr L B bl" and i: "L \<le> i div 32" "i div 32 < B"
  obtains a where "get_block_index_entry_for_index (word_of_nat i) pr = Inr a" and "a < length (ientries pr)"
    and "evalue (ientries pr ! a) = Some (Some (bl (i div 32)))"
    and "\<And>pr'. i div 32 = L \<Longrightarrow> entry_store a None pr = Inr pr' \<Longrightarrow> index_ok pr' (Suc L) B bl"
proof -
  obtain en where up: "index_upto pr L B B (in_index bl) en" using ok by (auto simp: index_ok_def)
  have drop: "index_ok pr' (Suc L) B bl" if L: "i div 32 = L" and store: "entry_store (en (i div 32)) None pr = Inr pr'" for pr'
  proof -
    obtain pr1 where "entry_store (en (i div 32)) None pr = Inr pr1" "index_upto pr1 L B B ((in_index bl)(i div 32 := Some None)) en"
      by (rule store_entry [OF up i, of None])
    then have "index_upto pr' L B B ((in_index bl)(L := Some None)) en" using store L by simp
    then have "index_upto pr' (Suc L) B B ((in_index bl)(L := Some None)) en" by (rule skip_dead) (use L i in simp_all)
    then have "index_upto pr' (Suc L) B B (in_index bl) en" by (rule index_upto_cong) simp
    then show ?thesis by (auto simp: index_ok_def)
  qed
  show thesis
    by (rule that [of "en (i div 32)"]) (use look_up [OF up i] entry_here [OF up i] drop in simp_all)
qed

end
