(* ===== verification/Cq_Producer.thy ===== *)
theory Cq_Producer
  imports Cq_Index
begin

unbundle bit_operations_syntax

text \<open>
  An implicit producer, the part of the queue that one thread puts elements into: \<open>enqueue\<close>, \<open>dequeue\<close>, its size and
  its destruction. What it holds is specified as a list; \<open>h\<close> counts the elements ever taken out, so the element at position \<open>i\<close> of
  the list is in the cell of index \<open>h + i\<close>, whose counters of 64 bits may have wrapped around.
\<close>

section \<open>Operations\<close>

definition ip_put :: "'a \<Rightarrow> u64 \<Rightarrow> u64 \<Rightarrow> cq_producer \<Rightarrow> 'a cq_pool \<Rightarrow> cq_fault + (bool \<times> cq_producer \<times> 'a cq_pool)" where
  "ip_put x currentTailIndex newTailIndex pr p =
    bindE (non_null (tailBlock pr)) (\<lambda>b.
    bindE (map_block b (block_put currentTailIndex x) p) (\<lambda>p.
    Inr (True, pr\<lparr>tailIndex := newTailIndex\<rparr>, p)))"

text \<open>\<open>MAX_SUBQUEUE_SIZE\<close> is the largest \<open>size_t\<close>, so only the comparison with the head bounds a producer.\<close>

definition ip_enqueue ::
  "(nat \<Rightarrow> bool) \<Rightarrow> 'a \<Rightarrow> cq_producer \<Rightarrow> 'a cq_pool \<Rightarrow> cq_fault + (bool \<times> cq_producer \<times> 'a cq_pool)" where
  "ip_enqueue mem x pr p = (
    let currentTailIndex = tailIndex pr; newTailIndex = 1 + currentTailIndex in
    if currentTailIndex AND 31 = 0 then
      let head = headIndex pr in
      bindE (assertion (\<not> circular_less_than currentTailIndex head)) (\<lambda>_.
      if \<not> circular_less_than head (currentTailIndex + 32) then Inr (False, pr, p)
      else bindE (insert_block_index_entry mem currentTailIndex pr (mallocs p)) (\<lambda>(idxEntry, pr, n).
        let p = p\<lparr>mallocs := n\<rparr> in
        case idxEntry of None \<Rightarrow> Inr (False, pr, p)
        | Some a \<Rightarrow> bindE (requisition_block mem p) (\<lambda>(newBlock, p).
            case newBlock of
              None \<Rightarrow> bindE (bindE (rewind_block_index_tail pr) (entry_store a None)) (\<lambda>pr. Inr (False, pr, p))
            | Some b \<Rightarrow> bindE (map_block b block_reset_empty p) (\<lambda>p.
                bindE (entry_store a (Some b) pr) (\<lambda>pr.
                ip_put x currentTailIndex newTailIndex (pr\<lparr>tailBlock := Some b\<rparr>) p)))))
    else ip_put x currentTailIndex newTailIndex pr p)"

text \<open>
  \<open>dequeue\<close>, for elements whose move assignment does not throw. Alone, its second look at the tail answers what the first
  did.
\<close>

definition ip_dequeue :: "cq_producer \<Rightarrow> 'a cq_pool \<Rightarrow> cq_fault + ('a option \<times> cq_producer \<times> 'a cq_pool)" where
  "ip_dequeue pr p = (
    let overcommit = dequeueOvercommit pr in
    if circular_less_than (dequeueOptimisticCount pr - overcommit) (tailIndex pr) then
      let myDequeueCount = dequeueOptimisticCount pr; pr = pr\<lparr>dequeueOptimisticCount := myDequeueCount + 1\<rparr> in
      bindE (assertion (overcommit \<le> myDequeueCount)) (\<lambda>_.
      if circular_less_than (myDequeueCount - overcommit) (tailIndex pr) then
        let index = headIndex pr; pr = pr\<lparr>headIndex := index + 1\<rparr> in
        bindE (get_block_index_entry_for_index index pr) (\<lambda>entry.
        bindE (fetch BadPointer (ientries pr) entry) (\<lambda>e.
        bindE (entry_load e) (\<lambda>v.
        bindE (non_null v) (\<lambda>block.
        bindE (fetch BadPointer (blocks p) block) (\<lambda>b.
        bindE (block_take index b) (\<lambda>(el, b).
        bindE (block_set_empty b) (\<lambda>(emptied, b).
        let p = p\<lparr>blocks := (blocks p)[block := b]\<rparr> in
        if emptied then
          bindE (entry_store entry None pr) (\<lambda>pr.
          bindE (add_block_to_free_list block p) (\<lambda>p. Inr (Some el, pr, p)))
        else Inr (Some el, pr, p))))))))
      else Inr (None, pr\<lparr>dequeueOvercommit := dequeueOvercommit pr + 1\<rparr>, p))
    else Inr (None, pr, p))"

definition ip_size_approx :: "cq_producer \<Rightarrow> u64" where
  "ip_size_approx pr = (let tail = tailIndex pr; head = headIndex pr in
    if circular_less_than head tail then tail - head else 0)"

text \<open>
  The destructor: its loop over the elements left, with the block it works on and the elements destroyed, and what follows the loop. The
  memory of the block index is freed with it.
\<close>

definition free_old_block :: "nat option \<Rightarrow> 'a cq_pool \<Rightarrow> cq_fault + 'a cq_pool" where
  "free_old_block block p = (case block of None \<Rightarrow> Inr p | Some n \<Rightarrow> add_block_to_free_list n p)"

definition block_of_index :: "u64 \<Rightarrow> cq_producer \<Rightarrow> cq_fault + nat option" where
  "block_of_index index pr =
    bindE (get_block_index_entry_for_index index pr) (\<lambda>entry.
    bindE (fetch BadPointer (ientries pr) entry) entry_load)"

lemma closer: "index \<noteq> t \<Longrightarrow> unat (t - (index + 1) :: u64) < unat (t - index)"
proof -
  assume "index \<noteq> t"
  then have "unat (t - index) \<noteq> 0" by (simp add: unat_eq_0)
  moreover have "t - (index + 1) = (t - index) - 1" by simp
  ultimately show ?thesis by (metis diff_less unat_minus_one zero_less_one unat_eq_0 gr0I)
qed

function ip_destroy_elements ::
  "cq_producer \<Rightarrow> u64 \<Rightarrow> nat option \<Rightarrow> 'a cq_pool \<Rightarrow> cq_fault + ('a list \<times> 'a cq_pool)" where
  "ip_destroy_elements pr index block p =
    (if index = tailIndex pr then Inr ([], p)
     else bindE (if index AND 31 = 0 \<or> block = None then
           bindE (free_old_block block p) (\<lambda>p. bindE (block_of_index index pr) (\<lambda>block. Inr (block, p)))
         else Inr (block, p)) (\<lambda>(block, p).
       bindE (non_null block) (\<lambda>n.
       bindE (fetch BadPointer (blocks p) n) (\<lambda>b.
       bindE (block_take index b) (\<lambda>(el, b).
       bindE (ip_destroy_elements pr (index + 1) block (p\<lparr>blocks := (blocks p)[n := b]\<rparr>)) (\<lambda>(els, p).
       Inr (el # els, p)))))))"
  by pat_completeness auto

termination
  by (relation "measure (\<lambda>(pr, index, block, p). unat (tailIndex pr - index))") (auto intro: closer)

declare ip_destroy_elements.simps [simp del]

definition ip_destroy :: "cq_producer \<Rightarrow> 'a cq_pool \<Rightarrow> cq_fault + ('a list \<times> 'a cq_pool)" where
  "ip_destroy pr p = (
    let tail = tailIndex pr; index = headIndex pr; forceFreeLastBlock = (index \<noteq> tail) in
    bindE (assertion (index = tail \<or> circular_less_than index tail)) (\<lambda>_.
    bindE (ip_destroy_elements pr index None p) (\<lambda>(els, p).
    case tailBlock pr of None \<Rightarrow> Inr (els, p)
    | Some b \<Rightarrow> if forceFreeLastBlock \<or> tail AND 31 \<noteq> 0
        then bindE (add_block_to_free_list b p) (\<lambda>p. Inr (els, p)) else Inr (els, p))))"

section \<open>What a producer holds\<close>

definition cells :: "nat \<Rightarrow> 'a list \<Rightarrow> nat \<Rightarrow> 'a option list" where
  "cells h q j = map (\<lambda>i. if h \<le> 32 * j + i \<and> 32 * j + i < h + length q then Some (q ! (32 * j + i - h)) else None) [0..<32]"

text \<open>The blocks with elements of the producer: \<open>first\<close> to \<open>after\<close>, excluded.\<close>

definition first_block :: "nat \<Rightarrow> nat" where
  "first_block h = h div 32"

definition after_block :: "nat \<Rightarrow> nat" where
  "after_block t = (t + 31) div 32"

definition held :: "nat \<Rightarrow> 'a list \<Rightarrow> (nat \<Rightarrow> nat) \<Rightarrow> nat set" where
  "held h q bl = bl ` {first_block h..<after_block (h + length q)}"

definition stored :: "'a cq_pool \<Rightarrow> nat \<Rightarrow> 'a list \<Rightarrow> (nat \<Rightarrow> nat) \<Rightarrow> bool" where
  "stored p h q bl \<longleftrightarrow> inj_on bl {first_block h..<after_block (h + length q)} \<and>
    (\<forall>j \<in> {first_block h..<after_block (h + length q)}. elements (blocks p ! bl j) = cells h q j \<and>
      elementsCompletelyDequeued (blocks p ! bl j) = word_of_nat (h - 32 * j))"

definition producer_ok :: "cq_producer \<Rightarrow> nat \<Rightarrow> 'a list \<Rightarrow> (nat \<Rightarrow> nat) \<Rightarrow> bool" where
  "producer_ok pr h q bl \<longleftrightarrow>
    headIndex pr = word_of_nat h \<and> tailIndex pr = word_of_nat (h + length q) \<and>
    dequeueOptimisticCount pr = word_of_nat h \<and> dequeueOvercommit pr = 0 \<and> \<not> inactive pr \<and>
    32 * after_block (h + length q) - h < 2 ^ 63 \<and>
    index_ok pr (first_block h) (after_block (h + length q)) bl \<and>
    (first_block h < after_block (h + length q) \<longrightarrow> tailBlock pr = Some (bl (after_block (h + length q) - 1)))"

lemma index_ok_fields [simp]:
  "index_ok (pr\<lparr>tailIndex := w\<rparr>) L B bl = index_ok pr L B bl"
  "index_ok (pr\<lparr>headIndex := w\<rparr>) L B bl = index_ok pr L B bl"
  "index_ok (pr\<lparr>dequeueOptimisticCount := w\<rparr>) L B bl = index_ok pr L B bl"
  "index_ok (pr\<lparr>tailBlock := v\<rparr>) L B bl = index_ok pr L B bl"
  by (simp_all add: index_ok_def index_upto_def header_ok_def)

lemma length_cells [simp]: "length (cells h q j) = 32"
  by (simp add: cells_def)

lemma cells_nth: "i < 32 \<Longrightarrow> cells h q j ! i =
    (if h \<le> 32 * j + i \<and> 32 * j + i < h + length q then Some (q ! (32 * j + i - h)) else None)"
  by (simp add: cells_def)

lemma cells_append_here:
  "h + length q = 32 * j + i \<Longrightarrow> i < 32 \<Longrightarrow> (cells h q j)[i := Some x] = cells h (q @ [x]) j"
  by (rule nth_equalityI) (auto simp: cells_nth nth_list_update nth_append)

lemma cells_append_other: "h + length q < 32 * j \<or> 32 * Suc j \<le> h + length q \<Longrightarrow> cells h (q @ [x]) j = cells h q j"
  by (rule nth_equalityI) (auto simp: cells_nth nth_append)

lemma cells_take_here: "h = 32 * j + i \<Longrightarrow> i < 32 \<Longrightarrow> (cells h (x # q) j)[i := None] = cells (Suc h) q j"
  by (rule nth_equalityI) (auto simp: cells_nth nth_list_update nth_Cons')

lemma cells_take_other: "h < 32 * j \<Longrightarrow> cells h (x # q) j = cells (Suc h) q j"
  by (rule nth_equalityI) (auto simp: cells_nth nth_Cons')

lemma cells_none: "h + length q \<le> 32 * j \<or> 32 * Suc j \<le> h \<Longrightarrow> cells h q j = replicate 32 None"
  by (rule nth_equalityI) (auto simp: cells_nth)

lemma block_cell_index: "block_cell (word_of_nat i) = i mod 32"
  by (simp only: block_cell_def block_cell_of_nat)

text \<open>Where the tail is: on a boundary every block begun is full, within a block that block is the last.\<close>

lemma after_block_eq: "32 * n < t + 32 \<Longrightarrow> t \<le> 32 * n \<Longrightarrow> after_block t = n"
  unfolding after_block_def by (rule div_nat_eqI) simp_all

lemma block_split: "t = 32 * (t div 32) + t mod 32" "t mod 32 < (32::nat)"
  by simp_all

lemma after_block_Suc: "after_block (Suc k) = Suc (k div 32)"
proof (rule after_block_eq)
  show "32 * Suc (k div 32) < Suc k + 32" by (simp add: less_Suc_eq_le)
  show "Suc k \<le> 32 * Suc (k div 32)" using block_split(2) [of k] mult_div_mod_eq [of 32 k] by simp
qed

lemma after_block_boundary: "t mod 32 = 0 \<Longrightarrow> 32 * after_block t = t \<and> after_block (Suc t) = Suc (after_block t)"
proof -
  assume "t mod 32 = 0"
  then have t: "t = 32 * (t div 32)" using block_split(1) [of t] by simp
  have "after_block t = t div 32" by (rule after_block_eq) (use t in simp_all)
  moreover have "after_block (Suc t) = Suc (t div 32)" by (rule after_block_eq) (use t in simp_all)
  ultimately show ?thesis using t by simp
qed

lemma after_block_inside: "t mod 32 \<noteq> 0 \<Longrightarrow> after_block (Suc t) = after_block t \<and> after_block t = Suc (t div 32)"
proof -
  assume "t mod 32 \<noteq> 0"
  then have t: "32 * (t div 32) < t" "t < 32 * (t div 32) + 32" using block_split [of t] by linarith+
  have "after_block t = Suc (t div 32)" by (rule after_block_eq) (use t in simp_all)
  moreover have "after_block (Suc t) = Suc (t div 32)" by (rule after_block_eq) (use t in simp_all)
  ultimately show ?thesis by simp
qed

lemma first_le_after: "h \<le> t \<Longrightarrow> first_block h \<le> after_block t"
  unfolding first_block_def after_block_def by (rule div_le_mono) simp

lemma tail_after: "t \<le> 32 * after_block t"
  using block_split [of "t + 31"] unfolding after_block_def by linarith

lemma first_less_after: "h < t \<Longrightarrow> first_block h < after_block t"
  using tail_after [of t] block_split [of h] unfolding first_block_def by linarith

lemma few_blocks: "32 * after_block t - h < 2 ^ 63 \<Longrightarrow> after_block t - first_block h \<le> 2 ^ 58"
  using block_split [of h] unfolding first_block_def by simp

text \<open>A producer does not see changes to blocks it does not hold.\<close>

lemma stored_frame: "stored p h q bl \<Longrightarrow> (\<And>n. n \<in> held h q bl \<Longrightarrow> blocks p' ! n = blocks p ! n) \<Longrightarrow> stored p' h q bl"
  by (auto simp: stored_def held_def)

lemma producer_ok_same: "producer_ok pr h q bl \<Longrightarrow> same_counters pr pr' \<Longrightarrow>
    index_ok pr' (first_block h) (after_block (h + length q)) bl \<Longrightarrow> producer_ok pr' h q bl"
  by (simp add: producer_ok_def same_counters_def)

section \<open>A new producer\<close>

lemma producer_new_ok:
  assumes mem: "mem n"
  obtains pr where "implicit_producer_new mem n = Inr (pr, n + 1)" and "producer_ok pr 0 [] bl"
proof -
  let ?pr = "\<lparr>tailIndex = 0, headIndex = 0, dequeueOptimisticCount = 0, dequeueOvercommit = 0,
      tailBlock = None, inactive = False, nextBlockIndexCapacity = 32, blockIndex = [], ientries = []\<rparr>"
  let ?e = "\<lparr>ekey = INVALID_BLOCK_BASE, evalue = None\<rparr>"
  let ?h = "\<lparr>hcapacity = 32, htail = (0 - 1) AND (32 - 1), hindex = [0..<32]\<rparr>"
  let ?new = "?pr\<lparr>nextBlockIndexCapacity := push_bit 1 32, blockIndex := [?h], ientries := replicate 32 ?e\<rparr>"
  have run: "implicit_producer_new mem n = Inr (?new, n + 1)"
    using mem by (simp add: implicit_producer_new_def new_block_index_def Let_def)
  have tail: "unat (htail ?h) = 31" by simp
  have ring: "ring ?h = [0..<32]"
    using rotate_id [of 32 "[0..<32]"] unfolding ring_def tail by (simp del: rotate_Suc upt_rec_numeral)
  have hok: "header_ok ?new 5 ?h" by (auto simp: header_ok_def)
  have "\<forall>a \<in> set [0..<32]. entry_free (replicate 32 ?e ! a)" by (simp add: entry_free_def entry_key_is_invalid_def)
  then have "index_upto ?new 0 0 0 (in_index bl) id"
    unfolding index_upto_def using hok ring
    by (intro conjI exI [of _ 5] exI [of _ ?h] exI [of _ "[] :: cq_header list"] exI [of _ "[0..<32]"]) simp_all
  then have "index_ok ?new 0 0 bl" unfolding index_ok_def by blast
  then have "producer_ok ?new 0 [] bl" by (simp add: producer_ok_def first_block_def after_block_def)
  then show thesis using run that by blast
qed

section \<open>Enqueue\<close>

text \<open>What an \<open>enqueue\<close> leaves: the pool with the blocks of the producer, and nothing changed in blocks of others.\<close>

definition enqueued ::
  "(bool \<times> cq_producer \<times> 'a cq_pool) \<Rightarrow> 'a cq_pool \<Rightarrow> nat set \<Rightarrow> nat \<Rightarrow> 'a list \<Rightarrow> 'a \<Rightarrow> (nat \<Rightarrow> nat) \<Rightarrow> bool" where
  "enqueued r p live h q x bl \<longleftrightarrow> (case r of (done, pr', p') \<Rightarrow>
    \<exists>fl' bl'. let q' = (if done then q @ [x] else q) in
      producer_ok pr' h q' bl' \<and> stored p' h q' bl' \<and> pool_ok p' fl' (live \<union> held h q' bl') \<and>
      held h q bl \<subseteq> held h q' bl' \<and> (held h q' bl' - held h q bl) \<inter> live = {} \<and>
      (\<forall>n \<in> live - held h q bl. blocks p' ! n = blocks p ! n))"

lemma put_inside:
  assumes pr: "producer_ok pr h q bl" and st: "stored p h q bl" and pool: "pool_ok p fl live" and sub: "held h q bl \<subseteq> live"
    and t: "(h + length q) mod 32 \<noteq> 0"
  shows "\<exists>r. ip_put x (tailIndex pr) (1 + tailIndex pr) pr p = Inr r \<and> fst r \<and> enqueued r p live h q x bl"
proof -
  let ?t = "h + length q"
  let ?L = "first_block h" and ?B = "after_block ?t" and ?j = "?t div 32"
  have B: "after_block (Suc ?t) = ?B" "?B = Suc ?j" using after_block_inside [OF t] by auto
  have L: "?L \<le> ?j" by (simp add: first_block_def div_le_mono)
  then have in_range: "?j \<in> {?L..<?B}" using B by simp
  let ?b = "blocks p ! bl ?j" and ?n = "bl ?j"
  have tb: "tailBlock pr = Some ?n" using pr L B by (simp add: producer_ok_def)
  have live: "?n \<in> live" using sub in_range by (auto simp: held_def)
  then have n: "?n < length (blocks p)" using pool_live [OF pool] by blast
  have ti: "tailIndex pr = word_of_nat ?t" using pr by (simp add: producer_ok_def)
  have cell: "block_cell (tailIndex pr) = ?t mod 32" unfolding ti by (rule block_cell_index)
  have elems: "elements ?b = cells h q ?j" and inj: "inj_on bl {?L..<?B}" using st in_range by (auto simp: stored_def)
  let ?b' = "block_put (tailIndex pr) x ?b"
  let ?p = "p\<lparr>blocks := (blocks p)[?n := ?b']\<rparr>" and ?pr = "pr\<lparr>tailIndex := 1 + tailIndex pr\<rparr>"
  have elems': "elements ?b' = cells h (q @ [x]) ?j"
    using elems cell cells_append_here [of h q ?j "?t mod 32" x] by (simp add: block_put_def)
  have run: "ip_put x (tailIndex pr) (1 + tailIndex pr) pr p = Inr (True, ?pr, ?p)"
    using tb n by (simp add: ip_put_def map_block_def)
  have held: "held h (q @ [x]) bl = held h q bl" using B by (simp add: held_def)
  have pr': "producer_ok ?pr h (q @ [x]) bl"
    using pr B by (simp add: producer_ok_def ac_simps)
  have pool': "pool_ok ?p fl live"
    using pool_live [OF pool live] by (intro pool_upd [OF pool live]) (auto simp: block_put_def)
  have st': "stored ?p h (q @ [x]) bl"
    unfolding stored_def
  proof (intro conjI ballI)
    show "inj_on bl {first_block h..<after_block (h + length (q @ [x]))}" using inj B by simp
    fix j assume "j \<in> {first_block h..<after_block (h + length (q @ [x]))}"
    then have j: "j \<in> {?L..<?B}" using B by simp
    show "elements (blocks ?p ! bl j) = cells h (q @ [x]) j"
    proof (cases "j = ?j")
      case False
      then have "bl j \<noteq> ?n" using inj j in_range by (auto dest: inj_onD)
      moreover have "32 * Suc j \<le> ?t" using False j B by auto
      ultimately show ?thesis using st j by (simp add: stored_def cells_append_other)
    qed (use elems' n in simp)
    show "elementsCompletelyDequeued (blocks ?p ! bl j) = word_of_nat (h - 32 * j)"
      using st j n by (auto simp: stored_def nth_list_update block_put_def)
  qed
  have frame: "\<forall>m \<in> live - held h q bl. blocks ?p ! m = blocks p ! m"
  proof
    fix m assume "m \<in> live - held h q bl"
    moreover have "?n \<in> held h q bl" using in_range by (simp add: held_def)
    ultimately have "m \<noteq> ?n" by blast
    then show "blocks ?p ! m = blocks p ! m" by simp
  qed
  have "enqueued (True, ?pr, ?p) p live h q x bl"
    unfolding enqueued_def prod.case Let_def if_True
    by (intro exI [of _ fl] exI [of _ bl] conjI pr' st')
      (use pool' sub held frame in \<open>auto simp: Un_absorb2\<close>)
  then show ?thesis using run by simp
qed

lemma not_enqueued:
  "producer_ok pr' h q bl \<Longrightarrow> stored p h q bl \<Longrightarrow> pool_ok p fl live \<Longrightarrow> held h q bl \<subseteq> live \<Longrightarrow> blocks p' = blocks p \<Longrightarrow>
    p' = p\<lparr>mallocs := mallocs p'\<rparr> \<Longrightarrow> enqueued (False, pr', p') p live h q x bl"
proof -
  assume a: "producer_ok pr' h q bl" "stored p h q bl" "pool_ok p fl live" "held h q bl \<subseteq> live" "blocks p' = blocks p"
    and p': "p' = p\<lparr>mallocs := mallocs p'\<rparr>"
  have "pool_ok p' fl live" using a(3) by (subst p') (simp add: pool_ok_def)
  moreover have "stored p' h q bl" using a(2,5) by (simp add: stored_def)
  moreover have "live \<union> held h q bl = live" using a(4) by blast
  ultimately show ?thesis using a unfolding enqueued_def prod.case Let_def if_False
    by (intro exI [of _ fl] exI [of _ bl]) auto
qed

lemma pool_mallocs: "pool_ok p fl live \<Longrightarrow> pool_ok (p\<lparr>mallocs := n\<rparr>) fl live"
  by (simp add: pool_ok_def)

text \<open>The first element of a new block.\<close>

lemma put_first:
  assumes pr: "producer_ok pr h q bl" and st: "stored p h q bl" and pool: "pool_ok p1 fl (insert b live)" and sub: "held h q bl \<subseteq> live"
    and b: "b \<notin> live" "elements (blocks p1 ! b) = replicate 32 None" and same: "\<forall>m \<in> live. blocks p1 ! m = blocks p ! m"
    and t: "(h + length q) mod 32 = 0" and room: "h + length q + 32 - h < 2 ^ 63"
    and pr1: "same_counters pr pr1" "index_ok pr1 (first_block h) (Suc (after_block (h + length q))) (bl(after_block (h + length q) := b))"
  shows "\<exists>r. bindE (map_block b block_reset_empty p1) (\<lambda>p.
      ip_put x (tailIndex pr) (1 + tailIndex pr) (pr1\<lparr>tailBlock := Some b\<rparr>) p) = Inr r \<and> fst r \<and> enqueued r p live h q x bl"
proof -
  let ?t = "h + length q"
  let ?L = "first_block h" and ?B = "after_block ?t"
  let ?bl = "bl(?B := b)"
  have B: "32 * ?B = ?t" "after_block (Suc ?t) = Suc ?B" using after_block_boundary [OF t] by auto
  have LB: "?L \<le> ?B" by (rule first_le_after) simp
  have n: "b < length (blocks p1)" using pool_live [OF pool] by blast
  have ti: "tailIndex pr = word_of_nat ?t" using pr by (simp add: producer_ok_def)
  have cell: "block_cell (tailIndex pr) = 0" unfolding ti block_cell_index by (rule t)
  let ?b0 = "block_reset_empty (blocks p1 ! b)"
  let ?b = "block_put (tailIndex pr) x ?b0"
  let ?p = "p1\<lparr>blocks := (blocks p1)[b := ?b]\<rparr>" and ?pr = "pr1\<lparr>tailBlock := Some b, tailIndex := 1 + tailIndex pr\<rparr>"
  have run: "bindE (map_block b block_reset_empty p1) (\<lambda>p.
      ip_put x (tailIndex pr) (1 + tailIndex pr) (pr1\<lparr>tailBlock := Some b\<rparr>) p) = Inr (True, ?pr, ?p)"
    using n by (simp add: ip_put_def map_block_def)
  have "elements ?b = (cells h q ?B)[0 := Some x]"
    using b(2) cell B(1) by (simp add: block_put_def block_reset_empty_def cells_none)
  then have elems: "elements ?b = cells h (q @ [x]) ?B" using cells_append_here [of h q ?B 0 x] B(1) by simp
  have held: "held h (q @ [x]) ?bl = insert b (held h q bl)"
  proof -
    have "{?L..<Suc ?B} = insert ?B {?L..<?B}" using LB by auto
    then show ?thesis using B(2) by (auto simp: held_def)
  qed
  have pr': "producer_ok ?pr h (q @ [x]) ?bl"
    using pr pr1 room B LB by (simp add: producer_ok_def same_counters_def ac_simps)
  have pool': "pool_ok ?p fl (insert b live)"
    using pool_live [OF pool, of b] by (intro pool_upd [OF pool]) (auto simp: block_put_def block_reset_empty_def)
  have inj: "inj_on bl {?L..<?B}" using st by (simp add: stored_def)
  have fresh: "bl j \<noteq> b" if "j \<in> {?L..<?B}" for j
    using sub b(1) imageI [OF that, of bl] unfolding held_def by blast
  have st': "stored ?p h (q @ [x]) ?bl"
    unfolding stored_def
  proof (intro conjI ballI)
    have out: "b \<notin> bl ` {?L..<?B}" using fresh by blast
    have "{?L..<Suc ?B} = insert ?B {?L..<?B}" using LB by auto
    then have range: "{first_block h..<after_block (h + length (q @ [x]))} = insert ?B {?L..<?B}" using B(2) by simp
    show "inj_on ?bl {first_block h..<after_block (h + length (q @ [x]))}"
      unfolding range inj_on_insert using inj_on_fun_updI [OF inj out, of ?B] out by (simp add: fun_upd_image image_iff)
    fix j assume j: "j \<in> {first_block h..<after_block (h + length (q @ [x]))}"
    have old: "blocks ?p ! bl j = blocks p ! bl j" "32 * Suc j \<le> ?t" "j \<in> {?L..<?B}" if "j \<noteq> ?B"
    proof -
      show jr: "j \<in> {?L..<?B}" using j that B(2) by auto
      then show "32 * Suc j \<le> ?t" using B(1) by auto
      have "bl j \<in> live" using sub jr by (auto simp: held_def)
      then show "blocks ?p ! bl j = blocks p ! bl j" using fresh [OF jr] same by simp
    qed
    show "elements (blocks ?p ! ?bl j) = cells h (q @ [x]) j"
      using old st elems n by (cases "j = ?B") (auto simp: stored_def cells_append_other)
    show "elementsCompletelyDequeued (blocks ?p ! ?bl j) = word_of_nat (h - 32 * j)"
      using old st n B(1) by (cases "j = ?B") (auto simp: stored_def block_put_def block_reset_empty_def)
  qed
  have frame: "\<forall>m \<in> live - held h q bl. blocks ?p ! m = blocks p ! m" using same by (simp add: nth_upd_out [OF b(1)])
  have eq: "live \<union> held h (q @ [x]) ?bl = insert b live" using held sub by blast
  have "enqueued (True, ?pr, ?p) p live h q x bl"
    unfolding enqueued_def prod.case Let_def if_True
    by (intro exI [of _ fl] exI [of _ ?bl] conjI pr' st' frame) (use pool' held sub b(1) eq in auto)
  then show ?thesis using run by simp
qed

lemma not_behind: "h \<le> t \<Longrightarrow> t - h < 2 ^ 63 \<Longrightarrow> \<not> circular_less_than (word_of_nat t) (word_of_nat h)"
proof -
  assume le: "h \<le> t" and near: "t - h < 2 ^ 63"
  have "(word_of_nat t - word_of_nat h :: u64) = word_of_nat (t - h)" using le by (simp add: of_nat_diff)
  moreover have "unat (word_of_nat (t - h) :: u64) = t - h" using near by (intro unat_small) simp
  ultimately show ?thesis using near by (simp add: circular_less_than_def word_less_nat_alt)
qed

lemma on_boundary: "(word_of_nat i AND 31 :: u64) = 0 \<longleftrightarrow> i mod 32 = 0"
  using block_cell_of_nat [of i] by (metis unat_0 unat_eq_0)

text \<open>
  \<open>enqueue\<close> puts the element at the end; it fails, and changes nothing, only when memory is short or 2 ^ 63 indices are in use.
\<close>

lemma enqueue_ok:
  assumes pr: "producer_ok pr h q bl" and st: "stored p h q bl" and pool: "pool_ok p fl live" and sub: "held h q bl \<subseteq> live"
  shows "\<exists>r. ip_enqueue mem x pr p = Inr r \<and> enqueued r p live h q x bl \<and>
    ((\<forall>n. mem n) \<and> length q + 64 < 2 ^ 63 \<longrightarrow> fst r)"
proof -
  let ?t = "h + length q"
  let ?L = "first_block h" and ?B = "after_block ?t"
  have ti: "tailIndex pr = word_of_nat ?t" and hi: "headIndex pr = word_of_nat h" and near: "32 * ?B - h < 2 ^ 63"
    and idx: "index_ok pr ?L ?B bl" using pr by (simp_all add: producer_ok_def)
  show ?thesis
  proof (cases "?t mod 32 = 0")
    case False
    then have "tailIndex pr AND 31 \<noteq> 0" unfolding ti on_boundary .
    then have "ip_enqueue mem x pr p = ip_put x (tailIndex pr) (1 + tailIndex pr) pr p"
      by (simp add: ip_enqueue_def Let_def)
    then show ?thesis using put_inside [OF pr st pool sub False, of x] by auto
  next
    case True
    have B: "32 * ?B = ?t" using after_block_boundary [OF True] by simp
    have edge: "tailIndex pr AND 31 = 0" unfolding ti on_boundary by (rule True)
    have "?t - h < 2 ^ 63" using near B by simp
    then have behind: "\<not> circular_less_than (tailIndex pr) (headIndex pr)" unfolding ti hi by (intro not_behind) simp_all
    have after: "tailIndex pr + 32 = word_of_nat (?t + 32)" using ti by simp
    have room: "circular_less_than (headIndex pr) (tailIndex pr + 32) \<longleftrightarrow> ?t + 32 - h < 2 ^ 63"
      using near B unfolding hi after by (subst circular_of_nat) auto
    show ?thesis
    proof (cases "?t + 32 - h < 2 ^ 63")
      case full: False
      then have "ip_enqueue mem x pr p = Inr (False, pr, p)"
        using edge behind room by (simp add: ip_enqueue_def Let_def)
      then show ?thesis using not_enqueued [OF pr st pool sub, of p x] full by auto
    next
      case free: True
      have few: "?B - ?L \<le> 2 ^ 58" using near by (rule few_blocks)
      have base: "tailIndex pr = word_of_nat (32 * ?B)" unfolding ti B ..
      from insert_entry [OF idx few, where mem = mem and n = "mallocs p"]
      obtain a pr1 n1 where ins: "insert_block_index_entry mem (tailIndex pr) pr (mallocs p) = Inr (a, pr1, n1)"
        unfolding base by (auto split: sum.splits)
      let ?p = "p\<lparr>mallocs := n1\<rparr>"
      have pool1: "pool_ok ?p fl live" using pool by (rule pool_mallocs)
      have run: "ip_enqueue mem x pr p = (case a of None \<Rightarrow> Inr (False, pr1, ?p)
        | Some a \<Rightarrow> bindE (requisition_block mem ?p) (\<lambda>(newBlock, p).
            case newBlock of
              None \<Rightarrow> bindE (bindE (rewind_block_index_tail pr1) (entry_store a None)) (\<lambda>pr. Inr (False, pr, p))
            | Some b \<Rightarrow> bindE (map_block b block_reset_empty p) (\<lambda>p.
                bindE (entry_store a (Some b) pr1) (\<lambda>pr2.
                ip_put x (tailIndex pr) (1 + tailIndex pr) (pr2\<lparr>tailBlock := Some b\<rparr>) p))))"
        using edge behind room free ins by (simp add: ip_enqueue_def Let_def)
      show ?thesis
      proof (cases a)
        case None
        then have same: "pr1 = pr" and short: "\<not> mem (mallocs p)"
          using insert_entry [OF idx few, where mem = mem and n = "mallocs p"] ins unfolding base by auto
        then show ?thesis using run None not_enqueued [OF pr st pool sub, of ?p x] by auto
      next
        case (Some a)
        then have res: "index_reserved pr1 ?L ?B bl a" and pr1: "same_counters pr pr1"
          using insert_entry [OF idx few, where mem = mem and n = "mallocs p"] ins unfolding base by auto
        from requisition_ok [OF pool1, of mem] obtain b p2 where req: "requisition_block mem ?p = Inr (b, p2)"
          by (auto split: sum.splits)
        show ?thesis
        proof (cases b)
          case b: None
          then have p2: "p2 = ?p\<lparr>mallocs := mallocs ?p + 1\<rparr>" and short: "\<not> mem (mallocs ?p)"
            using requisition_ok [OF pool1, of mem] req by auto
          obtain pr2 where rew: "bindE (rewind_block_index_tail pr1) (entry_store a None) = Inr pr2"
            and idx2: "index_ok pr2 ?L ?B bl" and pr2: "same_counters pr1 pr2" using rewind_entry [OF res] by blast
          have "producer_ok pr2 h q bl" by (rule producer_ok_same [OF pr same_counters_trans [OF pr1 pr2] idx2])
          then show ?thesis
            using run Some req b rew p2 short not_enqueued [OF _ st pool sub, of pr2 p2 x] by auto
        next
          case b: (Some b)
          obtain fl' where pool2: "pool_ok p2 fl' (insert b live)" and fresh: "b \<notin> live" "elements (blocks p2 ! b) = replicate 32 None"
            and same: "\<forall>m \<in> live. blocks p2 ! m = blocks p ! m"
            using requisition_ok [OF pool1, of mem] req b by auto
          obtain pr2 where store: "entry_store a (Some b) pr1 = Inr pr2" and idx2: "index_ok pr2 ?L (Suc ?B) (bl(?B := b))"
            and pr2: "same_counters pr1 pr2" using complete_entry [OF res] by blast
          obtain r where put: "bindE (map_block b block_reset_empty p2) (\<lambda>p.
              ip_put x (tailIndex pr) (1 + tailIndex pr) (pr2\<lparr>tailBlock := Some b\<rparr>) p) = Inr r" and r: "fst r" "enqueued r p live h q x bl"
            using put_first [OF pr st pool2 sub fresh same True free same_counters_trans [OF pr1 pr2] idx2, of x] by blast
          have "ip_enqueue mem x pr p = Inr r" using run Some req b store put by simp
          then show ?thesis using r by simp
        qed
      qed
    qed
  qed
qed

section \<open>Dequeue\<close>

lemma producer_counts:
  assumes "producer_ok pr h q bl"
  shows "circular_less_than (headIndex pr) (tailIndex pr) \<longleftrightarrow> q \<noteq> []"
    and "dequeueOptimisticCount pr - dequeueOvercommit pr = headIndex pr" and "length q < 2 ^ 63"
proof -
  have "length q \<le> 32 * after_block (h + length q) - h" using tail_after [of "h + length q"] by simp
  also have "\<dots> < 2 ^ 63" using assms by (simp add: producer_ok_def)
  finally show near: "length q < 2 ^ 63" .
  show "dequeueOptimisticCount pr - dequeueOvercommit pr = headIndex pr" using assms by (simp add: producer_ok_def)
  have "circular_less_than (word_of_nat h) (word_of_nat (h + length q)) \<longleftrightarrow> q \<noteq> []"
    using near by (subst circular_of_nat) auto
  then show "circular_less_than (headIndex pr) (tailIndex pr) \<longleftrightarrow> q \<noteq> []"
    using assms by (simp only: producer_ok_def)
qed

lemma size_approx_exact: "producer_ok pr h q bl \<Longrightarrow> unat (ip_size_approx pr) = length q"
  using producer_counts [of pr h q bl]
  by (auto simp: ip_size_approx_def Let_def producer_ok_def unat_small)

lemma dequeue_empty:
  assumes "producer_ok pr h [] bl"
  shows "ip_dequeue pr p = Inr (None, pr, p)"
proof -
  have "\<not> circular_less_than (dequeueOptimisticCount pr - dequeueOvercommit pr) (tailIndex pr)"
    using producer_counts(1) [OF assms] unfolding producer_counts(2) [OF assms] by simp
  then show ?thesis by (simp only: ip_dequeue_def Let_def if_False)
qed

text \<open>The look-up of the block of an element, for the destructor too.\<close>

lemma lookup_block:
  assumes idx: "index_ok pr (first_block h) (after_block t) bl" and i: "h \<le> i" "i < t"
  obtains a where "get_block_index_entry_for_index (word_of_nat i) pr = Inr a" and "a < length (ientries pr)"
    and "entry_load (ientries pr ! a) = Inr (Some (bl (i div 32)))"
    and "\<And>pr'. i div 32 = first_block h \<Longrightarrow> entry_store a None pr = Inr pr' \<Longrightarrow> index_ok pr' (Suc (first_block h)) (after_block t) bl"
proof -
  have L: "first_block h \<le> i div 32" using i(1) by (simp add: first_block_def div_le_mono)
  have B: "i div 32 < after_block t" using first_less_after [OF i(2)] by (simp add: first_block_def)
  show thesis by (rule get_entry [OF idx L B]) (use that in \<open>simp add: entry_load_def\<close>)
qed

text \<open>A cell emptied: the block as the specification has it, or without elements.\<close>

lemma take_from_block:
  assumes st: "stored p h (x # q) bl" and n: "bl (first_block h) < length (blocks p)"
  obtains b where "block_take (word_of_nat h) (blocks p ! bl (first_block h)) = Inr (x, b)"
    and "block_set_empty b = Inr (h mod 32 = 31, b\<lparr>elementsCompletelyDequeued := elementsCompletelyDequeued b + 1\<rparr>)"
    and "elements b = cells (Suc h) q (first_block h)"
    and "elementsCompletelyDequeued b + 1 = word_of_nat (Suc h - 32 * first_block h)"
    and "freeListRefs b = freeListRefs (blocks p ! bl (first_block h))"
    and "dynamicallyAllocated b = dynamicallyAllocated (blocks p ! bl (first_block h))"
proof -
  let ?L = "first_block h" and ?i = "h mod 32"
  let ?b = "blocks p ! bl ?L"
  have h: "h = 32 * ?L + ?i" "?i < 32" by (simp_all add: first_block_def)
  have "?L \<in> {?L..<after_block (h + length (x # q))}" using first_less_after [of h "h + length (x # q)"] by simp
  then have elems: "elements ?b = cells h (x # q) ?L" and cnt: "elementsCompletelyDequeued ?b = word_of_nat (h - 32 * ?L)"
    using st by (auto simp: stored_def)
  have diff: "h - 32 * ?L = ?i" using h by linarith
  have cell: "cells h (x # q) ?L ! ?i = Some x" using h by (simp add: cells_nth)
  let ?b' = "?b\<lparr>elements := (elements ?b)[?i := None]\<rparr>"
  have take: "block_take (word_of_nat h) ?b = Inr (x, ?b')"
    using elems cell h(2) by (simp add: block_take_def block_cell_index)
  have cnt': "elementsCompletelyDequeued ?b' = word_of_nat ?i" using cnt diff by simp
  have u: "unat (word_of_nat ?i :: u64) = ?i" using h(2) by (intro unat_small) simp
  have "(word_of_nat ?i :: u64) < 32" using u h(2) by (simp add: word_less_nat_alt)
  moreover have "(word_of_nat ?i :: u64) = 31 \<longleftrightarrow> ?i = 31" using u by (auto simp: word_unat_eq_iff)
  ultimately have empty: "block_set_empty ?b' = Inr (?i = 31, ?b'\<lparr>elementsCompletelyDequeued := elementsCompletelyDequeued ?b' + 1\<rparr>)"
    using cnt' by (simp add: block_set_empty_def Let_def)
  have "elements ?b' = cells (Suc h) q ?L" using elems cells_take_here [OF h] by simp
  moreover have "Suc h - 32 * ?L = Suc ?i" using h by linarith
  then have "elementsCompletelyDequeued ?b' + 1 = word_of_nat (Suc h - 32 * ?L)" using cnt' by simp
  ultimately show thesis using that [of ?b'] take empty by simp
qed

lemma first_block_Suc: "first_block (Suc h) = (if h mod 32 = 31 then Suc (first_block h) else first_block h)"
  unfolding first_block_def by (simp add: div_Suc mod_Suc) 

lemma held_after_take:
  "held (Suc h) q bl = (if h mod 32 = 31 then bl ` {Suc (first_block h)..<after_block (Suc h + length q)} else held h (x # q) bl)"
  by (simp add: held_def first_block_Suc)

text \<open>The blocks after an element was taken out of the first of them.\<close>

lemma stored_after_take:
  assumes st: "stored p h (x # q) bl" and b: "elements b = cells (Suc h) q (first_block h)"
      "elementsCompletelyDequeued b = word_of_nat (Suc h - 32 * first_block h)"
    and n: "bl (first_block h) < length (blocks p)"
    and p': "\<And>m. m \<noteq> bl (first_block h) \<Longrightarrow> blocks p' ! m = blocks p ! m"
    and here: "h mod 32 \<noteq> 31 \<Longrightarrow> blocks p' ! bl (first_block h) = b"
  shows "stored p' (Suc h) q bl"
  unfolding stored_def
proof (intro conjI ballI)
  let ?L = "first_block h" and ?B = "after_block (h + length (x # q))"
  have sub: "{first_block (Suc h)..<after_block (Suc h + length q)} \<subseteq> {?L..<?B}" by (auto simp: first_block_Suc split: if_splits)
  show "inj_on bl {first_block (Suc h)..<after_block (Suc h + length q)}"
    using st sub unfolding stored_def by (metis inj_on_subset)
  fix j assume jr: "j \<in> {first_block (Suc h)..<after_block (Suc h + length q)}"
  then have j: "j \<in> {?L..<?B}" using sub by blast
  have L: "?L \<in> {?L..<?B}" using first_less_after [of h "h + length (x # q)"] by simp
  have diff: "h < 32 * j" "bl j \<noteq> bl ?L" if "j \<noteq> ?L"
  proof -
    show "h < 32 * j" using j that block_split [of h] unfolding first_block_def atLeastLessThan_iff by linarith
    show "bl j \<noteq> bl ?L" using st j L that by (auto simp: stored_def dest: inj_onD)
  qed
  have stays: "h mod 32 \<noteq> 31" if "j = ?L" using jr that by (auto simp: first_block_Suc split: if_splits)
  show "elements (blocks p' ! bl j) = cells (Suc h) q j"
    using diff stays here p' st j b by (cases "j = ?L") (auto simp: stored_def cells_take_other)
  show "elementsCompletelyDequeued (blocks p' ! bl j) = word_of_nat (Suc h - 32 * j)"
    using diff stays here p' st j b by (cases "j = ?L") (auto simp: stored_def)
qed

text \<open>\<open>dequeue\<close> takes the first element, and gives back the block that it was the last of.\<close>

lemma dequeue_ok:
  assumes pr: "producer_ok pr h (x # q) bl" and st: "stored p h (x # q) bl" and pool: "pool_ok p fl live"
    and sub: "held h (x # q) bl \<subseteq> live"
  obtains pr' p' fl' where "ip_dequeue pr p = Inr (Some x, pr', p')"
    and "producer_ok pr' (Suc h) q bl" and "stored p' (Suc h) q bl"
    and "pool_ok p' fl' (live - (held h (x # q) bl - held (Suc h) q bl))" and "held (Suc h) q bl \<subseteq> held h (x # q) bl"
    and "\<forall>n \<in> live - held h (x # q) bl. blocks p' ! n = blocks p ! n"
proof -
  let ?t = "h + length (x # q)" and ?L = "first_block h"
  let ?B = "after_block ?t" and ?n = "bl ?L"
  have hi: "headIndex pr = word_of_nat h" and near: "32 * ?B - h < 2 ^ 63" and over: "dequeueOvercommit pr = 0"
    and idx: "index_ok pr ?L ?B bl" using pr by (simp_all add: producer_ok_def)
  have more: "circular_less_than (dequeueOptimisticCount pr - dequeueOvercommit pr) (tailIndex pr)"
    using producer_counts(1) [OF pr] unfolding producer_counts(2) [OF pr] by simp
  let ?pr1 = "pr\<lparr>dequeueOptimisticCount := dequeueOptimisticCount pr + 1, headIndex := headIndex pr + 1\<rparr>"
  have LB: "?L < ?B" by (rule first_less_after) simp
  have n_held: "?n \<in> held h (x # q) bl" using LB by (auto simp: held_def)
  then have n_live: "?n \<in> live" using sub by blast
  then have n: "?n < length (blocks p)" using pool_live [OF pool] by blast
  have idx1: "index_ok ?pr1 ?L ?B bl" using idx by simp
  obtain a where get: "get_block_index_entry_for_index (word_of_nat h) ?pr1 = Inr a" and a: "a < length (ientries ?pr1)"
    and load: "entry_load (ientries ?pr1 ! a) = Inr (Some ?n)"
    and clear: "\<And>pr'. entry_store a None ?pr1 = Inr pr' \<Longrightarrow> index_ok pr' (Suc ?L) ?B bl"
    using lookup_block [OF idx1, of h] by (auto simp: first_block_def)
  obtain b where take: "block_take (word_of_nat h) (blocks p ! ?n) = Inr (x, b)"
    and empty: "block_set_empty b = Inr (h mod 32 = 31, b\<lparr>elementsCompletelyDequeued := elementsCompletelyDequeued b + 1\<rparr>)"
    and elems: "elements b = cells (Suc h) q ?L"
    and cnt: "elementsCompletelyDequeued b + 1 = word_of_nat (Suc h - 32 * ?L)"
    and refs: "freeListRefs b = freeListRefs (blocks p ! ?n)" and dyn: "dynamicallyAllocated b = dynamicallyAllocated (blocks p ! ?n)"
    by (rule take_from_block [OF st n]) blast
  let ?b = "b\<lparr>elementsCompletelyDequeued := elementsCompletelyDequeued b + 1\<rparr>"
  let ?p1 = "p\<lparr>blocks := (blocks p)[?n := ?b]\<rparr>"
  have pool1: "pool_ok ?p1 fl live"
    using elems refs dyn pool_live [OF pool n_live] by (intro pool_upd [OF pool n_live]) simp_all
  have run: "ip_dequeue pr p = (if h mod 32 = 31 then bindE (entry_store a None ?pr1) (\<lambda>pr.
      bindE (add_block_to_free_list ?n ?p1) (\<lambda>p. Inr (Some x, pr, p))) else Inr (Some x, ?pr1, ?p1))"
    using more over hi get a load n take empty by (simp add: ip_dequeue_def Let_def)
  have sub': "held (Suc h) q bl \<subseteq> held h (x # q) bl" by (auto simp: held_def first_block_Suc split: if_splits)
  have st': "stored p' (Suc h) q bl" if "\<And>m. m \<noteq> ?n \<Longrightarrow> blocks p' ! m = blocks ?p1 ! m" "h mod 32 \<noteq> 31 \<Longrightarrow> p' = ?p1" for p'
    by (rule stored_after_take [OF st, of ?b p']) (use elems cnt n that in auto)
  have frame: "\<forall>m \<in> live - held h (x # q) bl. blocks p' ! m = blocks p ! m" if "\<And>m. m \<noteq> ?n \<Longrightarrow> blocks p' ! m = blocks ?p1 ! m" for p'
    using that n_held by force
  have counters: "producer_ok pr' (Suc h) q bl" if same: "same_counters ?pr1 pr'" and "index_ok pr' (first_block (Suc h)) ?B bl" for pr'
  proof -
    have "32 * ?B - Suc h < 2 ^ 63" using near by linarith
    then show ?thesis using pr that LB unfolding producer_ok_def same_counters_def by (auto simp: first_block_Suc split: if_splits)
  qed
  show thesis
  proof (cases "h mod 32 = 31")
    case False
    then have "held (Suc h) q bl = held h (x # q) bl" by (simp add: held_def first_block_Suc)
    moreover have "producer_ok ?pr1 (Suc h) q bl"
      by (rule counters) (use idx1 False in \<open>simp_all add: same_counters_def first_block_Suc\<close>)
    ultimately show thesis
      using that [of ?pr1 ?p1 fl] run False pool1 st' [of ?p1] frame [of ?p1] by simp
  next
    case True
    obtain pr2 where store: "entry_store a None ?pr1 = Inr pr2" using a by (auto simp: entry_store_def)
    then have same: "same_counters ?pr1 pr2" using a by (auto simp: entry_store_def same_counters_def)
    have "elements (blocks ?p1 ! ?n) = replicate 32 None"
      using elems n True block_split [of h] by (simp add: first_block_def cells_none)
    then obtain p2 where add: "free_list_add ?n ?p1 = Inr p2" and pool2: "pool_ok p2 (?n # fl) (live - {?n})"
      and others: "\<And>m. m \<noteq> ?n \<Longrightarrow> blocks p2 ! m = blocks ?p1 ! m" using pool_put [OF pool1 n_live] by blast
    have gone: "held h (x # q) bl - held (Suc h) q bl = {?n}"
    proof -
      have "{?L..<?B} = insert ?L {Suc ?L..<?B}" using LB by auto
      moreover have "inj_on bl {?L..<?B}" using st by (simp add: stored_def)
      ultimately show ?thesis using True by (auto simp: held_def first_block_Suc inj_on_def)
    qed
    have "producer_ok pr2 (Suc h) q bl"
      by (rule counters [OF same]) (use clear [OF store] True in \<open>simp add: first_block_Suc\<close>)
    then show thesis
      using that [of pr2 p2 "?n # fl"] run True store add pool2 gone sub' st' [of p2] frame [of p2] others
      by (simp add: add_block_to_free_list_def)
  qed
qed

section \<open>Destruction\<close>

lemma index_differs: "0 < d \<Longrightarrow> d < 2 ^ 63 \<Longrightarrow> (word_of_nat i :: u64) \<noteq> word_of_nat (i + d)"
proof
  assume d: "0 < d" "d < 2 ^ 63" and eq: "(word_of_nat i :: u64) = word_of_nat (i + d)"
  then have "(word_of_nat d :: u64) = 0" by simp
  moreover have "unat (word_of_nat d :: u64) = d" using d by (intro unat_small) simp
  ultimately show False using d by simp
qed

text \<open>
  The loop of the destructor between two elements: \<open>c\<close> is the block it works on, or will. The counters of dequeued elements
  play no part.
\<close>

definition destroying :: "cq_producer \<Rightarrow> nat \<Rightarrow> 'a list \<Rightarrow> (nat \<Rightarrow> nat) \<Rightarrow> nat option \<Rightarrow> nat \<Rightarrow> 'a cq_pool \<Rightarrow> nat set \<Rightarrow> bool" where
  "destroying pr i q bl block c p live \<longleftrightarrow> (let B = after_block (i + length q) in
    tailIndex pr = word_of_nat (i + length q) \<and> length q < 2 ^ 63 \<and>
    (\<exists>fl. pool_ok p fl live) \<and> (\<exists>L \<le> c. index_ok pr L B bl) \<and>
    (case block of None \<Rightarrow> c = i div 32 | Some n \<Rightarrow> n = bl c \<and> 0 < i \<and> c = (i - 1) div 32) \<and>
    bl ` {c..<B} \<subseteq> live \<and> inj_on bl {c..<B} \<and> (\<forall>j \<in> {c..<B}. elements (blocks p ! bl j) = cells i q j))"

lemma pred_block: "0 < (i :: nat) \<Longrightarrow> (i - 1) div 32 = (if i mod 32 = 0 then i div 32 - 1 else i div 32)"
  by (cases i) (auto simp: div_Suc mod_Suc split: if_splits)

text \<open>The choice of the block, before an element is destroyed.\<close>

definition current_block :: "cq_producer \<Rightarrow> u64 \<Rightarrow> nat option \<Rightarrow> 'a cq_pool \<Rightarrow> cq_fault + (nat option \<times> 'a cq_pool)" where
  "current_block pr index block p =
    (if index AND 31 = 0 \<or> block = None then
      bindE (free_old_block block p) (\<lambda>p. bindE (block_of_index index pr) (\<lambda>block. Inr (block, p)))
     else Inr (block, p))"

lemma current_block_ok:
  assumes d: "destroying pr i (x # q) bl block c p live"
  obtains p' fl where "current_block pr (word_of_nat i) block p = Inr (Some (bl (i div 32)), p')"
    and "pool_ok p' fl (live - bl ` {c..<i div 32})" and "c \<le> i div 32"
    and "\<And>n. n \<notin> bl ` {c..<i div 32} \<Longrightarrow> blocks p' ! n = blocks p ! n"
proof -
  let ?j = "i div 32" and ?B = "after_block (i + length (x # q))"
  obtain fl where pool: "pool_ok p fl live" using d by (auto simp: destroying_def Let_def)
  have jB: "?j < ?B" using first_less_after [of i "i + length (x # q)"] by (simp add: first_block_def)
  have inj: "inj_on bl {c..<?B}" using d by (simp add: destroying_def Let_def)
  obtain L where idx: "index_ok pr L ?B bl" and L: "L \<le> c" using d by (auto simp: destroying_def Let_def)
  have look: "block_of_index (word_of_nat i) pr = Inr (Some (bl ?j))" if "c \<le> ?j"
  proof -
    have "L \<le> ?j" using L that by simp
    then obtain a where "get_block_index_entry_for_index (word_of_nat i) pr = Inr a" "a < length (ientries pr)"
      "evalue (ientries pr ! a) = Some (Some (bl ?j))" by (rule get_entry [OF idx _ jB])
    then show ?thesis by (simp add: block_of_index_def entry_load_def)
  qed
  show thesis
  proof (cases block)
    case None
    then have c: "c = ?j" using d by (simp add: destroying_def Let_def)
    show thesis by (rule that [of p fl]) (use None c look pool in \<open>simp_all add: current_block_def free_old_block_def\<close>)
  next
    case (Some n)
    then have n: "n = bl c" "0 < i" "c = (i - 1) div 32" using d by (auto simp: destroying_def Let_def)
    show thesis
    proof (cases "i mod 32 = 0")
      case False
      then have c: "c = ?j" using n pred_block by simp
      show thesis by (rule that [of p fl]) (use Some False n c pool in \<open>simp_all add: current_block_def on_boundary\<close>)
    next
      case True
      then have "0 < ?j" using n(2) by (auto simp: div_greater_zero_iff dvd_imp_le mod_0_imp_dvd)
      then have c: "Suc c = ?j" using n True pred_block by simp
      then have cB: "c \<in> {c..<?B}" using jB by simp
      then have live: "bl c \<in> live" and "elements (blocks p ! bl c) = cells i (x # q) c"
        using d by (auto simp: destroying_def Let_def)
      moreover have "32 * Suc c \<le> i" using c block_split [of i] by simp
      ultimately have "elements (blocks p ! bl c) = replicate 32 None" by (simp add: cells_none)
      then obtain p' where add: "free_list_add (bl c) p = Inr p'" and pool': "pool_ok p' (bl c # fl) (live - {bl c})"
        and frame: "\<And>m. m \<noteq> bl c \<Longrightarrow> blocks p' ! m = blocks p ! m" using pool_put [OF pool live] by blast
      have "{c..<?j} = {c}" using c by auto
      then show thesis
        by (intro that [of p' "bl c # fl"])
          (use Some True n(1) c add pool' frame look in \<open>simp_all add: current_block_def free_old_block_def add_block_to_free_list_def on_boundary\<close>)
    qed
  qed
qed

lemma destroy_elements_ok:
  "destroying pr i q bl block c p live \<Longrightarrow> \<exists>p' fl. ip_destroy_elements pr (word_of_nat i) block p = Inr (q, p') \<and>
    pool_ok p' fl (live - bl ` {c..<after_block (i + length q) - 1}) \<and>
    (c < after_block (i + length q) \<longrightarrow> elements (blocks p' ! bl (after_block (i + length q) - 1)) = replicate 32 None) \<and>
    (\<forall>n \<in> live - bl ` {c..<after_block (i + length q)}. blocks p' ! n = blocks p ! n)"
proof (induction q arbitrary: i block c p live)
  case Nil
  let ?B = "after_block i"
  obtain fl where pool: "pool_ok p fl live" using Nil by (auto simp: destroying_def Let_def)
  have c: "?B - 1 \<le> c"
  proof (cases block)
    case None
    then have "c = i div 32" using Nil by (simp add: destroying_def Let_def)
    moreover have "?B \<le> Suc (i div 32)" unfolding after_block_def by (simp add: div_le_mono flip: div_add_self2)
    ultimately show ?thesis by simp
  next
    case (Some n)
    then have "0 < i" "c = (i - 1) div 32" using Nil by (auto simp: destroying_def Let_def)
    moreover from \<open>0 < i\<close> have "?B = Suc ((i - 1) div 32)" using after_block_Suc [of "i - 1"] by simp
    ultimately show ?thesis by simp
  qed
  have run: "ip_destroy_elements pr (word_of_nat i) block p = Inr ([], p)"
    using Nil by (simp add: ip_destroy_elements.simps destroying_def Let_def)
  have "elements (blocks p ! bl (?B - 1)) = replicate 32 None" if "c < ?B"
  proof -
    have "?B - 1 = c" using that c by simp
    moreover have "elements (blocks p ! bl c) = cells i [] c" using Nil that by (simp add: destroying_def Let_def)
    moreover have "cells i ([] :: 'a list) c = replicate 32 None" by (rule nth_equalityI) (auto simp: cells_nth)
    ultimately show ?thesis by simp
  qed
  then show ?case using run pool c by auto
next
  case (Cons x q)
  let ?j = "i div 32" and ?B = "after_block (i + length (x # q))"
  obtain p1 fl1 where cb: "current_block pr (word_of_nat i) block p = Inr (Some (bl ?j), p1)"
    and pool1: "pool_ok p1 fl1 (live - bl ` {c..<?j})" and cj: "c \<le> ?j"
    and frame1: "\<And>n. n \<notin> bl ` {c..<?j} \<Longrightarrow> blocks p1 ! n = blocks p ! n"
    using current_block_ok [OF Cons.prems] by blast
  have jB: "?j < ?B" using first_less_after [of i "i + length (x # q)"] by (simp add: first_block_def)
  have sub: "bl ` {c..<?B} \<subseteq> live" and inj: "inj_on bl {c..<?B}"
    and cel: "\<And>j. j \<in> {c..<?B} \<Longrightarrow> elements (blocks p ! bl j) = cells i (x # q) j"
    and near: "length (x # q) < 2 ^ 63" and ti: "tailIndex pr = word_of_nat (i + length (x # q))"
    using Cons.prems by (auto simp: destroying_def Let_def)
  have apart: "bl m \<notin> bl ` {c..<?j}" if "m \<in> {?j..<?B}" for m
  proof
    assume "bl m \<in> bl ` {c..<?j}"
    then obtain k where k: "k \<in> {c..<?j}" "bl k = bl m" by auto
    have "k \<in> {c..<?B}" "m \<in> {c..<?B}" using k that cj jB by auto
    then have "k = m" using inj k(2) by (metis inj_onD)
    then show False using k that by simp
  qed
  have j: "?j \<in> {?j..<?B}" using jB by simp
  have live: "bl ?j \<in> live - bl ` {c..<?j}" using sub apart [OF j] cj jB by auto
  then have n: "bl ?j < length (blocks p1)" using pool_live [OF pool1] by blast
  have elems: "elements (blocks p1 ! bl ?j) = cells i (x # q) ?j"
    using frame1 [OF apart [OF j]] cel [of ?j] cj jB by simp
  have i: "i = 32 * ?j + i mod 32" "i mod 32 < 32" by simp_all
  let ?b = "(blocks p1 ! bl ?j)\<lparr>elements := cells (Suc i) q ?j\<rparr>"
  let ?p2 = "p1\<lparr>blocks := (blocks p1)[bl ?j := ?b]\<rparr>" and ?live = "live - bl ` {c..<?j}"
  have take: "block_take (word_of_nat i) (blocks p1 ! bl ?j) = Inr (x, ?b)"
    using elems i cells_take_here [OF i, of x q]
    by (simp add: block_take_def block_cell_index cells_nth)
  have pool2: "pool_ok ?p2 fl1 ?live"
    using pool_live [OF pool1 live] by (intro pool_upd [OF pool1 live]) simp_all
  have "destroying pr (Suc i) q bl (Some (bl ?j)) ?j ?p2 ?live"
    unfolding destroying_def Let_def
  proof (intro conjI)
    show "tailIndex pr = word_of_nat (Suc i + length q)" using ti by simp
    show "length q < 2 ^ 63" using near by simp
    show "\<exists>fl. pool_ok ?p2 fl ?live" using pool2 by blast
    show "\<exists>L \<le> ?j. index_ok pr L (after_block (Suc i + length q)) bl"
      using Cons.prems cj by (auto simp: destroying_def Let_def intro: order_trans)
    show "case Some (bl ?j) of None \<Rightarrow> ?j = Suc i div 32 | Some n \<Rightarrow> n = bl ?j \<and> 0 < Suc i \<and> ?j = (Suc i - 1) div 32" by simp
    show "bl ` {?j..<after_block (Suc i + length q)} \<subseteq> ?live"
    proof
      fix n assume "n \<in> bl ` {?j..<after_block (Suc i + length q)}"
      then obtain m where n: "n = bl m" and m: "m \<in> {?j..<?B}" by auto
      then have "bl m \<in> bl ` {c..<?B}" using cj by simp
      then have "bl m \<in> live" using sub by (rule rev_subsetD)
      then show "n \<in> ?live" using apart [OF m] n by simp
    qed
    show "inj_on bl {?j..<after_block (Suc i + length q)}" by (rule inj_on_subset [OF inj]) (use cj in auto)
    show "\<forall>j\<in>{?j..<after_block (Suc i + length q)}. elements (blocks ?p2 ! bl j) = cells (Suc i) q j"
    proof
      fix j assume "j \<in> {?j..<after_block (Suc i + length q)}"
      then have jr: "j \<in> {?j..<?B}" by simp
      show "elements (blocks ?p2 ! bl j) = cells (Suc i) q j"
      proof (cases "j = ?j")
        case False
        then have "bl j \<noteq> bl ?j" using inj jr j cj by (auto dest: inj_onD)
        moreover have "?j < j" using False jr by simp
        then have "i < 32 * j" using i by linarith
        ultimately show ?thesis
          using frame1 [OF apart [OF jr]] cel [of j] jr cj by (simp add: cells_take_other)
      qed (use n in simp)
    qed
  qed
  then obtain p' fl where rest: "ip_destroy_elements pr (word_of_nat (Suc i)) (Some (bl ?j)) ?p2 = Inr (q, p')"
    and pool': "pool_ok p' fl (?live - bl ` {?j..<after_block (Suc i + length q) - 1})"
    and raw: "?j < after_block (Suc i + length q) \<longrightarrow> elements (blocks p' ! bl (after_block (Suc i + length q) - 1)) = replicate 32 None"
    and frame': "\<forall>n \<in> ?live - bl ` {?j..<after_block (Suc i + length q)}. blocks p' ! n = blocks ?p2 ! n"
    using Cons.IH by blast
  have go: "word_of_nat i \<noteq> tailIndex pr" unfolding ti using near by (intro index_differs) simp_all
  have "ip_destroy_elements pr (word_of_nat i) block p = Inr (x # q, p')"
    using go cb take n rest
    by (subst ip_destroy_elements.simps) (simp add: current_block_def [symmetric] add.commute)
  moreover have "?live - bl ` {?j..<?B - 1} = live - bl ` {c..<?B - 1}"
  proof -
    have "{c..<?B - 1} = {c..<?j} \<union> {?j..<?B - 1}" using cj jB by auto
    then show ?thesis by (simp add: image_Un Diff_Diff_Int Diff_Un Int_Diff) blast
  qed
  moreover have "\<forall>n \<in> live - bl ` {c..<?B}. blocks p' ! n = blocks p ! n"
  proof
    fix m assume m: "m \<in> live - bl ` {c..<?B}"
    then have "m \<notin> bl ` {c..<?j}" "m \<notin> bl ` {?j..<?B}" using cj jB by auto
    moreover from this have "m \<noteq> bl ?j" using j by blast
    ultimately show "blocks p' ! m = blocks p ! m" using frame' frame1 m by simp
  qed
  ultimately show ?case using pool' raw jB by (intro exI [of _ p'] exI [of _ fl]) simp
qed

text \<open>The destructor destroys the elements left, in order, and gives all blocks of the producer back.\<close>

lemma destroy_ok:
  assumes pr: "producer_ok pr h q bl" and st: "stored p h q bl" and pool: "pool_ok p fl live" and sub: "held h q bl \<subseteq> live"
  obtains p' fl' where "ip_destroy pr p = Inr (q, p')" and "pool_ok p' fl' (live - held h q bl)"
    and "\<forall>n \<in> live - held h q bl. blocks p' ! n = blocks p ! n"
proof -
  let ?t = "h + length q" and ?L = "first_block h"
  let ?B = "after_block ?t"
  have hi: "headIndex pr = word_of_nat h" and ti: "tailIndex pr = word_of_nat ?t" using pr by (simp_all add: producer_ok_def)
  have near: "length q < 2 ^ 63" by (rule producer_counts(3) [OF pr])
  have inj: "inj_on bl {?L..<?B}" using st by (simp add: stored_def)
  have "destroying pr h q bl None ?L p live"
    using pr st pool sub near unfolding destroying_def Let_def
    by (auto simp: producer_ok_def stored_def held_def first_block_def)
  then obtain p1 fl1 where els: "ip_destroy_elements pr (word_of_nat h) None p = Inr (q, p1)"
    and pool1: "pool_ok p1 fl1 (live - bl ` {?L..<?B - 1})"
    and raw: "?L < ?B \<longrightarrow> elements (blocks p1 ! bl (?B - 1)) = replicate 32 None"
    and frame: "\<forall>n \<in> live - bl ` {?L..<?B}. blocks p1 ! n = blocks p ! n" using destroy_elements_ok by blast
  have differ: "(headIndex pr = tailIndex pr) \<longleftrightarrow> q = []"
    using index_differs [of "length q" h] near unfolding hi ti by (cases q) auto
  have order: "headIndex pr = tailIndex pr \<or> circular_less_than (headIndex pr) (tailIndex pr)"
    using producer_counts(1) [OF pr] differ by blast
  have more: "headIndex pr \<noteq> tailIndex pr \<or> tailIndex pr AND 31 \<noteq> 0 \<longleftrightarrow> ?L < ?B"
  proof (cases "q = []")
    case False
    then show ?thesis using differ first_less_after [of h ?t] by simp
  next
    case True
    have "?L < ?B \<longleftrightarrow> h mod 32 \<noteq> 0"
      using True after_block_boundary [of h] after_block_inside [of h] by (cases "h mod 32 = 0") (auto simp: first_block_def)
    then show ?thesis using True differ ti by (simp add: on_boundary)
  qed
  show thesis
  proof (cases "?L < ?B")
    case False
    then have "held h q bl = {}" "bl ` {?L..<?B - 1} = {}" by (simp_all add: held_def)
    then show thesis
      using that [of p1 fl1] els pool1 frame False order more hi
      by (simp add: ip_destroy_def Let_def held_def split: option.split)
  next
    case True
    then have tb: "tailBlock pr = Some (bl (?B - 1))" using pr by (simp add: producer_ok_def)
    have split: "{?L..<?B} = insert (?B - 1) {?L..<?B - 1}" using True by auto
    then have h': "held h q bl = insert (bl (?B - 1)) (bl ` {?L..<?B - 1})" by (simp only: held_def image_insert)
    have "bl (?B - 1) \<notin> bl ` {?L..<?B - 1}" using inj unfolding split inj_on_insert by simp
    then have live: "bl (?B - 1) \<in> live - bl ` {?L..<?B - 1}" using sub h' by auto
    obtain p2 where add: "free_list_add (bl (?B - 1)) p1 = Inr p2"
      and pool2: "pool_ok p2 (bl (?B - 1) # fl1) (live - bl ` {?L..<?B - 1} - {bl (?B - 1)})"
      and others: "\<And>m. m \<noteq> bl (?B - 1) \<Longrightarrow> blocks p2 ! m = blocks p1 ! m" using pool_put [OF pool1 live] raw True by blast
    have eq: "live - bl ` {?L..<?B - 1} - {bl (?B - 1)} = live - held h q bl" using h' by auto
    have "ip_destroy pr p = Inr (q, p2)"
      using els order more True tb add hi unfolding ip_destroy_def Let_def add_block_to_free_list_def by simp
    moreover have "\<forall>n \<in> live - held h q bl. blocks p2 ! n = blocks p ! n"
      using frame others h' by (auto simp: held_def)
    ultimately show thesis using that [of p2] pool2 unfolding eq by blast
  qed
qed

end
