(* ===== verification/Cq_Hash.thy ===== *)
theory Cq_Hash
  imports Cq_Pool Cq_Words
begin

unbundle bit_operations_syntax

text \<open>
  The hash tables of a queue, from the id of a thread to its producer: open addressing with linear probing; a table that
  is half full is followed by a larger one, while entries of the tables before it are looked up there and copied when they are found. A producer is
  its number. The id 0 marks a free slot (\<open>invalid_thread_id\<close>: the id of a thread is the address of a thread-local variable).
\<close>

section \<open>Tables\<close>

record cq_kvp =
  kkey :: u64
  kvalue :: "nat option"

record cq_hash =
  capacity :: u64
  kvps :: "cq_kvp list"

definition invalid_thread_id :: u64 where "invalid_thread_id = 0"

definition hash_new :: "u64 \<Rightarrow> cq_hash" where
  "hash_new n = \<lparr>capacity = n, kvps = replicate (unat n) \<lparr>kkey = invalid_thread_id, kvalue = None\<rparr>\<rparr>"

text \<open>
  The loops over a table, which return to where they began after \<open>capacity\<close> turns: the slot of an id, if a free slot is not met
  before it; and the first free slot taken.
\<close>

fun probe :: "nat \<Rightarrow> cq_hash \<Rightarrow> u64 \<Rightarrow> u64 \<Rightarrow> cq_fault + nat option" where
  "probe 0 h tid index = Inl LoopsForever"
| "probe (Suc n) h tid index = (let index = index AND (capacity h - 1) in
    bindE (fetch BadPointer (kvps h) (unat index)) (\<lambda>e.
    if kkey e = tid then Inr (Some (unat index))
    else if kkey e = invalid_thread_id then Inr None
    else probe n h tid (index + 1)))"

fun claim :: "nat \<Rightarrow> cq_hash \<Rightarrow> u64 \<Rightarrow> nat option \<Rightarrow> u64 \<Rightarrow> cq_fault + cq_hash" where
  "claim 0 h tid v index = Inl LoopsForever"
| "claim (Suc n) h tid v index = (let index = index AND (capacity h - 1) in
    bindE (fetch BadPointer (kvps h) (unat index)) (\<lambda>e.
    if kkey e = invalid_thread_id then Inr (h\<lparr>kvps := (kvps h)[unat index := \<lparr>kkey = tid, kvalue = v\<rparr>]\<rparr>)
    else claim n h tid v (index + 1)))"

definition hash_find :: "cq_hash \<Rightarrow> u64 \<Rightarrow> cq_fault + nat option" where
  "hash_find h tid = probe (unat (capacity h)) h tid (hash_thread_id tid)"

definition hash_add :: "u64 \<Rightarrow> nat option \<Rightarrow> cq_hash \<Rightarrow> cq_fault + cq_hash" where
  "hash_add tid v h = claim (unat (capacity h)) h tid v (hash_thread_id tid)"

text \<open>The search through the tables, newest first: how deep it went, and the value.\<close>

fun search_hashes :: "u64 \<Rightarrow> cq_hash list \<Rightarrow> cq_fault + (nat \<times> nat option) option" where
  "search_hashes tid [] = Inr None"
| "search_hashes tid (h # hs) = bindE (hash_find h tid) (\<lambda>r. case r of
      Some i \<Rightarrow> Inr (Some (0, kvalue (kvps h ! i)))
    | None \<Rightarrow> bindE (search_hashes tid hs) (\<lambda>r. Inr (map_option (\<lambda>(d, v). (Suc d, v)) r)))"

text \<open>\<open>while (newCount >= (newCapacity >> 1)) newCapacity <<= 1\<close>: after 64 turns the capacity is 0 and stays so.\<close>

fun grow_capacity :: "nat \<Rightarrow> u64 \<Rightarrow> u64 \<Rightarrow> cq_fault + u64" where
  "grow_capacity 0 newCount newCapacity = Inl LoopsForever"
| "grow_capacity (Suc n) newCount newCapacity =
    (if drop_bit 1 newCapacity \<le> newCount then grow_capacity n newCount (push_bit 1 newCapacity) else Inr newCapacity)"

section \<open>What a table says\<close>

definition slot :: "cq_hash \<Rightarrow> u64 \<Rightarrow> nat \<Rightarrow> cq_kvp" where
  "slot h tid i = kvps h ! ((unat (hash_thread_id tid) + i) mod length (kvps h))"

text \<open>
  \<open>reg\<close> is the producer of every thread that has one. Each id in the table has its producer, and is found: no free slot, and not the id
  itself, stands before it on its way.
\<close>

definition table_ok :: "(u64 \<rightharpoonup> nat) \<Rightarrow> cq_hash \<Rightarrow> bool" where
  "table_ok reg h \<longleftrightarrow> (\<exists>k. 5 \<le> k \<and> k \<le> 62 \<and> capacity h = 2 ^ k \<and> length (kvps h) = 2 ^ k) \<and>
    (\<forall>i < length (kvps h). kkey (kvps h ! i) \<noteq> 0 \<longrightarrow>
      reg (kkey (kvps h ! i)) = kvalue (kvps h ! i) \<and> kvalue (kvps h ! i) \<noteq> None \<and>
      (\<exists>j < length (kvps h). (unat (hash_thread_id (kkey (kvps h ! i))) + j) mod length (kvps h) = i \<and>
        (\<forall>l < j. kkey (slot h (kkey (kvps h ! i)) l) \<notin> {0, kkey (kvps h ! i)}))) \<and>
    (\<exists>i < length (kvps h). kkey (kvps h ! i) = 0)"

definition in_table :: "cq_hash \<Rightarrow> u64 \<Rightarrow> bool" where
  "in_table h tid \<longleftrightarrow> (\<exists>i < length (kvps h). kkey (kvps h ! i) = tid)"

lemma walk_pos:
  assumes "k < 64" and "unat w mod 2 ^ k = s mod 2 ^ k"
  shows "unat (w AND (2 ^ k - 1) :: u64) = s mod 2 ^ k" and "unat ((w AND (2 ^ k - 1)) + 1 :: u64) mod 2 ^ k = Suc s mod 2 ^ k"
proof -
  show one: "unat (w AND (2 ^ k - 1) :: u64) = s mod 2 ^ k" using assms by (simp only: unat_mask)
  show "unat ((w AND (2 ^ k - 1)) + 1 :: u64) mod 2 ^ k = Suc s mod 2 ^ k"
    using unat_suc_mod [OF assms(1), of "w AND (2 ^ k - 1)"] unfolding one by (simp only: mod_Suc_eq)
qed

text \<open>A walk stops at the first slot that is free or has the id.\<close>

lemma probe_walk:
  assumes cap: "capacity h = 2 ^ k" "length (kvps h) = 2 ^ k" "k < 64"
  shows "j < n \<Longrightarrow> unat w mod 2 ^ k = s mod 2 ^ k \<Longrightarrow> kkey (kvps h ! ((s + j) mod 2 ^ k)) \<in> {0, tid} \<Longrightarrow>
    \<forall>l < j. kkey (kvps h ! ((s + l) mod 2 ^ k)) \<notin> {0, tid} \<Longrightarrow>
    probe n h tid w = Inr (if kkey (kvps h ! ((s + j) mod 2 ^ k)) = tid then Some ((s + j) mod 2 ^ k) else None)"
proof (induction n arbitrary: j w s)
  case (Suc n)
  have pos: "unat (w AND (2 ^ k - 1)) = s mod 2 ^ k" by (rule walk_pos(1) [OF cap(3) Suc.prems(2)])
  have step: "unat ((w AND (2 ^ k - 1)) + 1) mod 2 ^ k = Suc s mod 2 ^ k" by (rule walk_pos(2) [OF cap(3) Suc.prems(2)])
  have look: "fetch BadPointer (kvps h) (unat (w AND (capacity h - 1))) = Inr (kvps h ! (s mod 2 ^ k))"
    using pos cap by (simp add: fetch_def)
  show ?case
  proof (cases j)
    case 0
    then show ?thesis using Suc.prems(3) look pos cap by (auto simp: Let_def invalid_thread_id_def)
  next
    case (Suc j')
    have first: "kkey (kvps h ! (s mod 2 ^ k)) \<notin> {0, tid}" using Suc.prems(4) Suc by (metis add_0_right zero_less_Suc)
    have "probe n h tid ((w AND (2 ^ k - 1)) + 1) =
        Inr (if kkey (kvps h ! ((Suc s + j') mod 2 ^ k)) = tid then Some ((Suc s + j') mod 2 ^ k) else None)"
    proof (rule Suc.IH)
      show "j' < n" using Suc.prems(1) Suc by simp
      show "kkey (kvps h ! ((Suc s + j') mod 2 ^ k)) \<in> {0, tid}" using Suc.prems(3) Suc by simp
      show "\<forall>l < j'. kkey (kvps h ! ((Suc s + l) mod 2 ^ k)) \<notin> {0, tid}" using Suc.prems(4) Suc by (metis Suc_mono add_Suc_shift)
    qed (rule step)
    then show ?thesis using first look cap Suc by (simp add: Let_def invalid_thread_id_def)
  qed
qed simp

lemma claim_walk:
  assumes cap: "capacity h = 2 ^ k" "length (kvps h) = 2 ^ k" "k < 64"
  shows "j < n \<Longrightarrow> unat w mod 2 ^ k = s mod 2 ^ k \<Longrightarrow> kkey (kvps h ! ((s + j) mod 2 ^ k)) = 0 \<Longrightarrow>
    \<forall>l < j. kkey (kvps h ! ((s + l) mod 2 ^ k)) \<noteq> 0 \<Longrightarrow>
    claim n h tid v w = Inr (h\<lparr>kvps := (kvps h)[(s + j) mod 2 ^ k := \<lparr>kkey = tid, kvalue = v\<rparr>]\<rparr>)"
proof (induction n arbitrary: j w s)
  case (Suc n)
  have pos: "unat (w AND (2 ^ k - 1)) = s mod 2 ^ k" by (rule walk_pos(1) [OF cap(3) Suc.prems(2)])
  have step: "unat ((w AND (2 ^ k - 1)) + 1) mod 2 ^ k = Suc s mod 2 ^ k" by (rule walk_pos(2) [OF cap(3) Suc.prems(2)])
  have look: "fetch BadPointer (kvps h) (unat (w AND (capacity h - 1))) = Inr (kvps h ! (s mod 2 ^ k))"
    using pos cap by (simp add: fetch_def)
  show ?case
  proof (cases j)
    case 0
    then show ?thesis using Suc.prems(3) look pos cap by (auto simp: Let_def invalid_thread_id_def)
  next
    case (Suc j')
    have first: "kkey (kvps h ! (s mod 2 ^ k)) \<noteq> 0" using Suc.prems(4) Suc by (metis add_0_right zero_less_Suc)
    have "claim n h tid v ((w AND (2 ^ k - 1)) + 1) = Inr (h\<lparr>kvps := (kvps h)[(Suc s + j') mod 2 ^ k := \<lparr>kkey = tid, kvalue = v\<rparr>]\<rparr>)"
    proof (rule Suc.IH)
      show "j' < n" using Suc.prems(1) Suc by simp
      show "kkey (kvps h ! ((Suc s + j') mod 2 ^ k)) = 0" using Suc.prems(3) Suc by simp
      show "\<forall>l < j'. kkey (kvps h ! ((Suc s + l) mod 2 ^ k)) \<noteq> 0" using Suc.prems(4) Suc by (metis Suc_mono add_Suc_shift)
    qed (rule step)
    then show ?thesis using first look cap Suc by (simp add: Let_def invalid_thread_id_def)
  qed
qed simp

section \<open>Look-up and insertion\<close>

lemma table_size:
  assumes "table_ok reg h"
  obtains k where "k < 64" "capacity h = 2 ^ k" "length (kvps h) = 2 ^ k" "unat (capacity h) = 2 ^ k"
proof -
  from assms obtain k where "k \<le> 62" "capacity h = 2 ^ k" "length (kvps h) = 2 ^ k" by (auto simp: table_ok_def)
  then show thesis using that [of k] by (simp add: pow64)
qed

lemma table_entry:
  assumes "table_ok reg h" "i < length (kvps h)" "kkey (kvps h ! i) = tid" "tid \<noteq> 0"
  obtains j where "reg tid = kvalue (kvps h ! i)" "kvalue (kvps h ! i) \<noteq> None" "j < length (kvps h)"
    "(unat (hash_thread_id tid) + j) mod length (kvps h) = i" "\<forall>l < j. kkey (slot h tid l) \<notin> {0, tid}"
  using assms unfolding table_ok_def by blast

lemma one_slot_per_id:
  assumes ok: "table_ok reg h" and a: "i < length (kvps h)" "kkey (kvps h ! i) = tid" "tid \<noteq> 0"
    and b: "i' < length (kvps h)" "kkey (kvps h ! i') = tid"
  shows "i = i'"
proof -
  obtain j where j: "(unat (hash_thread_id tid) + j) mod length (kvps h) = i" "\<forall>l < j. kkey (slot h tid l) \<notin> {0, tid}"
    using table_entry [OF ok a] by blast
  obtain j' where j': "(unat (hash_thread_id tid) + j') mod length (kvps h) = i'" "\<forall>l < j'. kkey (slot h tid l) \<notin> {0, tid}"
    using table_entry [OF ok b a(3)] by blast
  have "kkey (slot h tid j) = tid" "kkey (slot h tid j') = tid" using j j' a b by (simp_all add: slot_def)
  then have "j = j'" using j(2) j'(2) by (metis insertCI linorder_neqE_nat)
  then show ?thesis using j(1) j'(1) by simp
qed

text \<open>On the way of an id there is a free slot, and a first one.\<close>

lemma first_free:
  assumes ok: "table_ok reg h"
  obtains j where "j < length (kvps h)" "kkey (kvps h ! ((s + j) mod length (kvps h))) = 0"
    "\<forall>l < j. kkey (kvps h ! ((s + l) mod length (kvps h))) \<noteq> 0"
proof -
  let ?n = "length (kvps h)" and ?free = "\<lambda>j. kkey (kvps h ! ((s + j) mod length (kvps h))) = 0"
  obtain i where i: "i < ?n" "kkey (kvps h ! i) = 0" using ok by (auto simp: table_ok_def)
  let ?j = "(i + (?n - s mod ?n)) mod ?n"
  from i(1) have n: "0 < ?n" by linarith
  have "(s + ?j) mod ?n = (s mod ?n + (i + (?n - s mod ?n))) mod ?n" by (simp add: mod_simps)
  also have "s mod ?n + (i + (?n - s mod ?n)) = i + ?n" using mod_less_divisor [OF n, of s] by linarith
  finally have "(s + ?j) mod ?n = i" using i by simp
  then have free: "?free ?j" using i by simp
  have less: "?j < ?n" using n by simp
  show thesis
    by (rule that [of "LEAST j. ?free j"])
      (use less free Least_le [of ?free ?j] LeastI [of ?free ?j] not_less_Least [of _ ?free] in \<open>auto intro: le_less_trans\<close>)
qed

lemma hash_find_ok:
  assumes ok: "table_ok reg h" and tid: "tid \<noteq> 0"
  shows "case hash_find h tid of Inl _ \<Rightarrow> False
    | Inr None \<Rightarrow> \<not> in_table h tid
    | Inr (Some i) \<Rightarrow> in_table h tid \<and> reg tid = kvalue (kvps h ! i) \<and> reg tid \<noteq> None"
proof -
  obtain k where k: "k < 64" and cap: "capacity h = 2 ^ k" and len: "length (kvps h) = 2 ^ k" and u: "unat (capacity h) = 2 ^ k"
    using table_size [OF ok] by blast
  let ?s = "unat (hash_thread_id tid)"
  show ?thesis
  proof (cases "in_table h tid")
    case True
    then obtain i where i: "i < length (kvps h)" "kkey (kvps h ! i) = tid" by (auto simp: in_table_def)
    obtain j where r: "reg tid = kvalue (kvps h ! i)" "kvalue (kvps h ! i) \<noteq> None" and j: "j < 2 ^ k" "(?s + j) mod 2 ^ k = i"
      "\<forall>l < j. kkey (slot h tid l) \<notin> {0, tid}" using table_entry [OF ok i tid] len by metis
    have "hash_find h tid = Inr (if kkey (kvps h ! ((?s + j) mod 2 ^ k)) = tid then Some ((?s + j) mod 2 ^ k) else None)"
      unfolding hash_find_def u
      by (rule probe_walk [OF cap len k j(1)]) (use j(2,3) i len in \<open>simp_all add: slot_def\<close>)
    then show ?thesis using True j(2) i r by simp
  next
    case False
    obtain j where j: "j < 2 ^ k" "kkey (kvps h ! ((?s + j) mod 2 ^ k)) = 0" "\<forall>l < j. kkey (kvps h ! ((?s + l) mod 2 ^ k)) \<noteq> 0"
      using first_free [OF ok, of ?s] len by metis
    have other: "kkey (kvps h ! ((?s + l) mod 2 ^ k)) \<noteq> tid" for l
      using False len by (simp add: in_table_def)
    have "hash_find h tid = Inr (if kkey (kvps h ! ((?s + j) mod 2 ^ k)) = tid then Some ((?s + j) mod 2 ^ k) else None)"
      unfolding hash_find_def u
      by (rule probe_walk [OF cap len k j(1)]) (use j(2,3) other in auto)
    then show ?thesis using False other by simp
  qed
qed

text \<open>
  A new id in a table: still found is what was found, for the slot taken was free on no way that went on. One slot remains
  free, for there are more slots than threads.
\<close>

lemma hash_add_ok:
  assumes ok: "table_ok reg h" and tid: "tid \<noteq> 0" and new: "\<not> in_table h tid" and reg: "reg tid = Some a"
    and room: "finite (dom reg)" "card (dom reg) < unat (capacity h)"
  obtains h' where "hash_add tid (Some a) h = Inr h'" and "table_ok reg h'" and "in_table h' tid"
    and "capacity h' = capacity h" and "\<And>x. in_table h x \<Longrightarrow> x \<noteq> 0 \<Longrightarrow> in_table h' x"
proof -
  obtain k where k: "k < 64" and cap: "capacity h = 2 ^ k" and len: "length (kvps h) = 2 ^ k" and u: "unat (capacity h) = 2 ^ k"
    using table_size [OF ok] by blast
  let ?s = "unat (hash_thread_id tid)"
  obtain j where j: "j < 2 ^ k" "kkey (kvps h ! ((?s + j) mod 2 ^ k)) = 0" "\<forall>l < j. kkey (kvps h ! ((?s + l) mod 2 ^ k)) \<noteq> 0"
    using first_free [OF ok, of ?s] len by metis
  define p where "p = (?s + j) mod 2 ^ k"
  have p: "p < length (kvps h)" "kkey (kvps h ! p) = 0" using j len by (auto simp: p_def)
  let ?h = "h\<lparr>kvps := (kvps h)[p := \<lparr>kkey = tid, kvalue = Some a\<rparr>]\<rparr>"
  have run: "hash_add tid (Some a) h = Inr ?h"
    unfolding hash_add_def u p_def by (rule claim_walk [OF cap len k j(1)]) (use j in simp_all)
  have at: "(kvps h)[p := \<lparr>kkey = tid, kvalue = Some a\<rparr>] ! i = (if i = p then \<lparr>kkey = tid, kvalue = Some a\<rparr> else kvps h ! i)" for i
    using p by (cases "i = p") simp_all
  have other: "i = p \<or> kkey (kvps h ! i) \<noteq> tid" if "i < length (kvps h)" for i using new that by (auto simp: in_table_def)
  have entries: "reg (kkey (kvps ?h ! i)) = kvalue (kvps ?h ! i) \<and> kvalue (kvps ?h ! i) \<noteq> None \<and>
      (\<exists>j < length (kvps ?h). (unat (hash_thread_id (kkey (kvps ?h ! i))) + j) mod length (kvps ?h) = i \<and>
        (\<forall>l < j. kkey (slot ?h (kkey (kvps ?h ! i)) l) \<notin> {0, kkey (kvps ?h ! i)}))"
    if i: "i < length (kvps h)" "kkey (kvps ?h ! i) \<noteq> 0" for i
  proof (cases "i = p")
    case True
    have "kkey (slot ?h tid l) \<notin> {0, tid}" if "l < j" for l
    proof -
      have l: "kkey (kvps h ! ((?s + l) mod 2 ^ k)) \<noteq> 0" using j(3) that by simp
      then have "(?s + l) mod 2 ^ k \<noteq> p" using p by auto
      moreover from this have "kkey (kvps h ! ((?s + l) mod 2 ^ k)) \<noteq> tid" using other [of "(?s + l) mod 2 ^ k"] len by simp
      ultimately show ?thesis using l len by (simp add: slot_def at)
    qed
    moreover have "(?s + j) mod length (kvps ?h) = p" using len by (simp add: p_def)
    ultimately show ?thesis using True j(1) len reg by (auto simp: at)
  next
    case False
    let ?x = "kkey (kvps h ! i)"
    have x: "?x \<noteq> 0" using i False at by simp
    obtain j' where r: "reg ?x = kvalue (kvps h ! i)" "kvalue (kvps h ! i) \<noteq> None" and j': "j' < length (kvps h)"
      "(unat (hash_thread_id ?x) + j') mod length (kvps h) = i" "\<forall>l < j'. kkey (slot h ?x l) \<notin> {0, ?x}"
      using table_entry [OF ok i(1) refl x] by blast
    have "kkey (slot ?h ?x l) \<notin> {0, ?x}" if "l < j'" for l
    proof -
      have l: "kkey (slot h ?x l) \<notin> {0, ?x}" using j'(3) that by blast
      then have "(unat (hash_thread_id ?x) + l) mod length (kvps h) \<noteq> p" using p by (auto simp: slot_def)
      then show ?thesis using l by (simp add: slot_def at)
    qed
    then show ?thesis using False r j' by (auto simp: at)
  qed
  have "\<exists>i < length (kvps ?h). kkey (kvps ?h ! i) = 0"
  proof (rule ccontr)
    assume "\<not> ?thesis"
    then have full: "kkey (kvps ?h ! i) \<noteq> 0" if "i < length (kvps h)" for i using that by auto
    have inj: "inj_on (\<lambda>i. kkey (kvps ?h ! i)) {..<length (kvps h)}"
    proof (rule inj_onI)
      fix i i' assume i: "i \<in> {..<length (kvps h)}" "i' \<in> {..<length (kvps h)}" and eq: "kkey (kvps ?h ! i) = kkey (kvps ?h ! i')"
      show "i = i'"
      proof (cases "i = p \<or> i' = p")
        case True
        then show ?thesis using eq i other by (auto simp: at split: if_splits)
      next
        case False
        then have same: "kkey (kvps h ! i') = kkey (kvps h ! i)" using eq by (simp add: at)
        have "kkey (kvps h ! i) \<noteq> 0" using full [of i] i False by (simp add: at)
        then show ?thesis using i same by (intro one_slot_per_id [OF ok _ refl]) simp_all
      qed
    qed
    have "(\<lambda>i. kkey (kvps ?h ! i)) ` {..<length (kvps h)} \<subseteq> dom reg" using entries full by fastforce
    then have "card {..<length (kvps h)} \<le> card (dom reg)" using card_inj_on_le [OF inj _ room(1)] by blast
    then show False using room(2) len u by simp
  qed
  then have "table_ok reg ?h" using ok entries unfolding table_ok_def by auto
  moreover have "in_table ?h tid" using p by (auto simp: in_table_def at intro: exI [of _ p])
  moreover have "in_table ?h x" if "in_table h x" "x \<noteq> 0" for x
    using that p by (auto simp: in_table_def at)
  ultimately show thesis using that run by simp
qed

text \<open>The tables of a queue: every thread with a producer is in one of them.\<close>

definition tables_ok :: "(u64 \<rightharpoonup> nat) \<Rightarrow> cq_hash list \<Rightarrow> bool" where
  "tables_ok reg hs \<longleftrightarrow> (\<forall>h \<in> set hs. table_ok reg h) \<and> (\<forall>tid \<in> dom reg. tid \<noteq> 0 \<and> (\<exists>h \<in> set hs. in_table h tid))"

lemma in_table_reg: "table_ok reg h \<Longrightarrow> in_table h tid \<Longrightarrow> tid \<noteq> 0 \<Longrightarrow> tid \<in> dom reg"
proof -
  assume ok: "table_ok reg h" and "in_table h tid" and tid: "tid \<noteq> 0"
  then obtain i where i: "i < length (kvps h)" "kkey (kvps h ! i) = tid" by (auto simp: in_table_def)
  show ?thesis using table_entry [OF ok i tid] by (metis domIff)
qed

lemma search_ok:
  assumes "\<forall>h \<in> set hs. table_ok reg h" and tid: "tid \<noteq> 0"
  shows "case search_hashes tid hs of Inl _ \<Rightarrow> False
    | Inr None \<Rightarrow> (\<forall>h \<in> set hs. \<not> in_table h tid)
    | Inr (Some (d, v)) \<Rightarrow> reg tid = v \<and> v \<noteq> None \<and> (0 < d \<longrightarrow> \<not> in_table (hd hs) tid) \<and> hs \<noteq> []"
  using assms(1)
proof (induction hs)
  case (Cons h hs)
  from hash_find_ok [of reg h tid] Cons.prems tid
  have find: "case hash_find h tid of Inl _ \<Rightarrow> False | Inr None \<Rightarrow> \<not> in_table h tid
    | Inr (Some i) \<Rightarrow> in_table h tid \<and> reg tid = kvalue (kvps h ! i) \<and> reg tid \<noteq> None" by simp
  obtain r where r: "hash_find h tid = Inr r" using find by (auto split: sum.splits)
  show ?case
  proof (cases r)
    case None
    then show ?thesis using Cons find r by (auto split: sum.splits option.splits)
  next
    case (Some i)
    have reg: "in_table h tid \<and> reg tid = kvalue (kvps h ! i) \<and> reg tid \<noteq> None"
      using find unfolding r Some sum.case option.case .
    then have "kvalue (kvps h ! i) \<noteq> None" by metis
    then show ?thesis using Some r reg by simp
  qed
qed simp

lemma table_ok_extend: "table_ok reg h \<Longrightarrow> \<not> in_table h tid \<Longrightarrow> table_ok (reg(tid \<mapsto> a)) h"
  unfolding table_ok_def in_table_def by auto

lemma hash_new_ok: "5 \<le> k \<Longrightarrow> k \<le> 62 \<Longrightarrow> table_ok reg (hash_new (2 ^ k)) \<and> capacity (hash_new (2 ^ k)) = 2 ^ k \<and>
    (tid \<noteq> 0 \<longrightarrow> \<not> in_table (hash_new (2 ^ k)) tid)"
  by (auto simp: table_ok_def hash_new_def invalid_thread_id_def pow64 in_table_def intro: exI [of _ 0])

lemma unat_half: "unat (drop_bit 1 (x :: u64)) = unat x div 2"
  by (simp add: drop_bit_eq_div unat_div)

lemma grow_once: "5 \<le> k \<Longrightarrow> k \<le> 61 \<Longrightarrow> unat n = 2 ^ (k - 1) \<Longrightarrow> grow_capacity (Suc m) n (push_bit 1 (2 ^ k)) = Inr (2 ^ Suc k)"
proof -
  assume k: "5 \<le> k" "k \<le> 61" and n: "unat n = 2 ^ (k - 1)"
  have double: "push_bit 1 (2 ^ k :: u64) = 2 ^ Suc k" by (simp add: push_bit_eq_mult)
  have "unat (drop_bit 1 (2 ^ Suc k :: u64)) = 2 ^ Suc k div 2"
    unfolding unat_half using k by (simp only: pow64)
  then have "unat (drop_bit 1 (2 ^ Suc k :: u64)) = 2 ^ k" by simp
  moreover have "(2::nat) ^ (k - 1) < 2 ^ k" using k by (intro power_strict_increasing) auto
  ultimately have "\<not> drop_bit 1 (2 ^ Suc k :: u64) \<le> n" using n by (simp add: word_le_nat_alt)
  then show ?thesis unfolding double by simp
qed

end
