(* ===== verification/Concurrent_Queue.thy ===== *)
theory Concurrent_Queue
  imports Cq_Producer Cq_Hash
begin

unbundle bit_operations_syntax

text \<open>
  The queue itself: \<open>enqueue\<close> finds or makes the producer of the calling thread and puts the element there; \<open>try_dequeue\<close> takes
  one from the fullest of the first three producers that have any. It keeps the elements of each thread in
  order, loses none and invents none, and is empty when it says so; used by one thread it is a list. What it does not keep is the order
  between threads.
\<close>

section \<open>Operations\<close>

text \<open>\<open>producerListTail\<close> is the chain of producers, the newest first.\<close>

record 'a cqueue =
  qpool :: "'a cq_pool"
  producers :: "cq_producer list"
  producerListTail :: "nat list"
  producerCount :: u32
  hashes :: "cq_hash list"
  implicitProducerHashCount :: u64
  hashResizeInProgress :: bool

text \<open>\<open>populate_initial_implicit_producer_hash\<close>, and the constructor, with the capacity it has by default.\<close>

definition populate_initial_implicit_producer_hash :: "'a cqueue \<Rightarrow> 'a cqueue" where
  "populate_initial_implicit_producer_hash Q = Q\<lparr>implicitProducerHashCount := 0, hashes := [hash_new 32]\<rparr>"

definition cqueue_new :: "(nat \<Rightarrow> bool) \<Rightarrow> 'a cqueue" where
  "cqueue_new mem = (let capacity = 6 * 32 :: u64;
      p = \<lparr>blocks = [], freeListHead = None, initialBlockPoolIndex = 0, initialBlockPoolSize = 0, mallocs = 0\<rparr>;
      Q = populate_initial_implicit_producer_hash \<lparr>qpool = p, producers = [], producerListTail = [], producerCount = 0, hashes = [],
        implicitProducerHashCount = 0, hashResizeInProgress = False\<rparr> in
    Q\<lparr>qpool := populate_initial_block_list mem (capacity div 32 + (if capacity AND 31 = 0 then 0 else 1)) (qpool Q)\<rparr>)"

text \<open>\<open>recycle_or_create_producer (false, recycled)\<close>. No producer is ever inactive here: threads that end are not noticed.\<close>

fun find_inactive :: "cq_producer list \<Rightarrow> nat list \<Rightarrow> cq_fault + nat option" where
  "find_inactive prs [] = Inr None"
| "find_inactive prs (a # as) = bindE (fetch BadPointer prs a) (\<lambda>pr. if inactive pr then Inr (Some a) else find_inactive prs as)"

definition add_producer :: "cq_producer \<Rightarrow> 'a cqueue \<Rightarrow> nat \<times> 'a cqueue" where
  "add_producer pr Q = (length (producers Q), Q\<lparr>producers := producers Q @ [pr], producerCount := producerCount Q + 1,
    producerListTail := length (producers Q) # producerListTail Q\<rparr>)"

definition set_mallocs :: "nat \<Rightarrow> 'a cqueue \<Rightarrow> 'a cqueue" where
  "set_mallocs n Q = Q\<lparr>qpool := (qpool Q)\<lparr>mallocs := n\<rparr>\<rparr>"

definition recycle_or_create_producer :: "(nat \<Rightarrow> bool) \<Rightarrow> 'a cqueue \<Rightarrow> cq_fault + (nat option \<times> bool \<times> 'a cqueue)" where
  "recycle_or_create_producer mem Q = bindE (find_inactive (producers Q) (producerListTail Q)) (\<lambda>r. case r of
      Some a \<Rightarrow> Inr (Some a, True, Q\<lparr>producers := (producers Q)[a := (producers Q ! a)\<lparr>inactive := False\<rparr>]\<rparr>)
    | None \<Rightarrow> let n = mallocs (qpool Q) in
        if \<not> mem n then Inr (None, False, set_mallocs (n + 1) Q)
        else bindE (implicit_producer_new mem (n + 1)) (\<lambda>(pr, n).
          case add_producer pr (set_mallocs n Q) of (a, Q) \<Rightarrow> Inr (Some a, False, Q)))"

text \<open>An id and its producer added to the current table.\<close>

definition add_to_main_hash :: "u64 \<Rightarrow> nat option \<Rightarrow> 'a cqueue \<Rightarrow> cq_fault + 'a cqueue" where
  "add_to_main_hash tid v Q = (case hashes Q of [] \<Rightarrow> Inl NullPointer
    | mainHash # prev \<Rightarrow> bindE (hash_add tid v mainHash) (\<lambda>h. Inr (Q\<lparr>hashes := h # prev\<rparr>)))"

text \<open>
  The block of \<open>get_or_add_implicit_producer\<close> that holds the resize lock; \<open>false\<close> when there is no memory for a new table.
\<close>

definition resize_hash :: "(nat \<Rightarrow> bool) \<Rightarrow> u64 \<Rightarrow> 'a cqueue \<Rightarrow> cq_fault + (bool \<times> 'a cqueue)" where
  "resize_hash mem newCount Q = (case hashes Q of [] \<Rightarrow> Inl NullPointer
    | mainHash # _ \<Rightarrow>
        if drop_bit 1 (capacity mainHash) \<le> newCount \<and> \<not> hashResizeInProgress Q then
          bindE (grow_capacity 65 newCount (push_bit 1 (capacity mainHash))) (\<lambda>newCapacity.
          let n = mallocs (qpool Q); Q = set_mallocs (n + 1) (Q\<lparr>hashResizeInProgress := False\<rparr>) in
          if \<not> mem n then Inr (False, Q\<lparr>implicitProducerHashCount := implicitProducerHashCount Q - 1\<rparr>)
          else Inr (True, Q\<lparr>hashes := hash_new newCapacity # hashes Q\<rparr>))
        else Inr (True, Q))"

text \<open>
  The rest of it, once the id was found in no table. The loop around it turns again only while another thread makes a table, so alone
  a second turn would be one of endlessly many.
\<close>

definition add_implicit_producer :: "(nat \<Rightarrow> bool) \<Rightarrow> u64 \<Rightarrow> 'a cqueue \<Rightarrow> cq_fault + (nat option \<times> 'a cqueue)" where
  "add_implicit_producer mem tid Q = (
    let newCount = 1 + implicitProducerHashCount Q; Q = Q\<lparr>implicitProducerHashCount := newCount\<rparr> in
    bindE (resize_hash mem newCount Q) (\<lambda>(done, Q).
    if \<not> done then Inr (None, Q)
    else case hashes Q of [] \<Rightarrow> Inl NullPointer
    | mainHash # _ \<Rightarrow>
        if newCount < drop_bit 1 (capacity mainHash) + drop_bit 2 (capacity mainHash) then
          bindE (recycle_or_create_producer mem Q) (\<lambda>(producer, recycled, Q). case producer of
            None \<Rightarrow> Inr (None, Q\<lparr>implicitProducerHashCount := implicitProducerHashCount Q - 1\<rparr>)
          | Some a \<Rightarrow>
              bindE (add_to_main_hash tid (Some a)
                (if recycled then Q\<lparr>implicitProducerHashCount := implicitProducerHashCount Q - 1\<rparr> else Q)) (\<lambda>Q.
              Inr (Some a, Q)))
        else Inl LoopsForever))"

definition get_or_add_implicit_producer :: "(nat \<Rightarrow> bool) \<Rightarrow> u64 \<Rightarrow> 'a cqueue \<Rightarrow> cq_fault + (nat option \<times> 'a cqueue)" where
  "get_or_add_implicit_producer mem tid Q = bindE (search_hashes tid (hashes Q)) (\<lambda>r. case r of
      Some (d, v) \<Rightarrow> if d = 0 then Inr (v, Q) else bindE (add_to_main_hash tid v Q) (\<lambda>Q. Inr (v, Q))
    | None \<Rightarrow> add_implicit_producer mem tid Q)"

text \<open>\<open>enqueue\<close>, which is \<open>inner_enqueue<CanAlloc>\<close>, by the thread \<open>tid\<close>.\<close>

definition cq_enqueue :: "(nat \<Rightarrow> bool) \<Rightarrow> u64 \<Rightarrow> 'a \<Rightarrow> 'a cqueue \<Rightarrow> cq_fault + (bool \<times> 'a cqueue)" where
  "cq_enqueue mem tid x Q = bindE (get_or_add_implicit_producer mem tid Q) (\<lambda>(producer, Q). case producer of
      None \<Rightarrow> Inr (False, Q)
    | Some a \<Rightarrow> bindE (fetch BadPointer (producers Q) a) (\<lambda>pr.
        bindE (ip_enqueue mem x pr (qpool Q)) (\<lambda>(done, pr, p).
        Inr (done, Q\<lparr>producers := (producers Q)[a := pr], qpool := p\<rparr>))))"

text \<open>\<open>try_dequeue\<close>: the first loop counts producers that are not empty and keeps the fullest, the second tries the others.\<close>

fun best_producer :: "cq_producer list \<Rightarrow> nat list \<Rightarrow> nat \<Rightarrow> nat option \<Rightarrow> u64 \<Rightarrow> cq_fault + (nat \<times> nat option)" where
  "best_producer prs [] nonEmptyCount best bestSize = Inr (nonEmptyCount, best)"
| "best_producer prs (a # as) nonEmptyCount best bestSize =
    (if \<not> nonEmptyCount < 3 then Inr (nonEmptyCount, best)
     else bindE (fetch BadPointer prs a) (\<lambda>pr. let size = ip_size_approx pr in
       if 0 < size then
         if bestSize < size then best_producer prs as (nonEmptyCount + 1) (Some a) size
         else best_producer prs as (nonEmptyCount + 1) best bestSize
       else best_producer prs as nonEmptyCount best bestSize))"

definition dequeue_from :: "nat \<Rightarrow> 'a cqueue \<Rightarrow> cq_fault + ('a option \<times> 'a cqueue)" where
  "dequeue_from a Q = bindE (fetch BadPointer (producers Q) a) (\<lambda>pr.
    bindE (ip_dequeue pr (qpool Q)) (\<lambda>(r, pr, p). Inr (r, Q\<lparr>producers := (producers Q)[a := pr], qpool := p\<rparr>)))"

fun dequeue_others :: "nat \<Rightarrow> nat list \<Rightarrow> 'a cqueue \<Rightarrow> cq_fault + ('a option \<times> 'a cqueue)" where
  "dequeue_others best [] Q = Inr (None, Q)"
| "dequeue_others best (a # as) Q =
    (if a = best then dequeue_others best as Q
     else bindE (dequeue_from a Q) (\<lambda>(r, Q). case r of Some x \<Rightarrow> Inr (Some x, Q) | None \<Rightarrow> dequeue_others best as Q))"

definition cq_try_dequeue :: "'a cqueue \<Rightarrow> cq_fault + ('a option \<times> 'a cqueue)" where
  "cq_try_dequeue Q = bindE (best_producer (producers Q) (producerListTail Q) 0 None 0) (\<lambda>(nonEmptyCount, best).
    if 0 < nonEmptyCount then
      bindE (non_null best) (\<lambda>b. bindE (dequeue_from b Q) (\<lambda>(r, Q). case r of
          Some x \<Rightarrow> Inr (Some x, Q)
        | None \<Rightarrow> dequeue_others b (producerListTail Q) Q))
    else Inr (None, Q))"

fun sum_sizes :: "cq_producer list \<Rightarrow> nat list \<Rightarrow> u64 \<Rightarrow> cq_fault + u64" where
  "sum_sizes prs [] s = Inr s"
| "sum_sizes prs (a # as) s = bindE (fetch BadPointer prs a) (\<lambda>pr. sum_sizes prs as (s + ip_size_approx pr))"

definition cq_size_approx :: "'a cqueue \<Rightarrow> cq_fault + u64" where
  "cq_size_approx Q = sum_sizes (producers Q) (producerListTail Q) 0"

text \<open>
  The destructor: the producers, with the elements they destroy; the tables but the first, which is part of the object; and
  the blocks of the free list that were allocated one by one. The result has the elements destroyed and the blocks freed, in order.
\<close>

fun destroy_producers :: "cq_producer list \<Rightarrow> nat list \<Rightarrow> 'a cq_pool \<Rightarrow> cq_fault + ('a list \<times> 'a cq_pool)" where
  "destroy_producers prs [] p = Inr ([], p)"
| "destroy_producers prs (a # as) p = bindE (fetch BadPointer prs a) (\<lambda>pr.
    bindE (ip_destroy pr p) (\<lambda>(xs, p). bindE (destroy_producers prs as p) (\<lambda>(ys, p). Inr (xs @ ys, p))))"

text \<open>A list of free blocks in a ring would never end; no list is longer than there are blocks.\<close>

fun destroy_free_list :: "nat \<Rightarrow> nat option \<Rightarrow> 'a cq_pool \<Rightarrow> cq_fault + nat list" where
  "destroy_free_list 0 q p = (case q of None \<Rightarrow> Inr [] | Some n \<Rightarrow> Inl LoopsForever)"
| "destroy_free_list (Suc k) q p = (case q of None \<Rightarrow> Inr []
    | Some n \<Rightarrow> bindE (fetch BadPointer (blocks p) n) (\<lambda>b.
        bindE (destroy_free_list k (freeListNext b) p) (\<lambda>ns.
        Inr (if dynamicallyAllocated b then n # ns else ns))))"

definition cqueue_delete :: "'a cqueue \<Rightarrow> cq_fault + ('a list \<times> nat \<times> nat list)" where
  "cqueue_delete Q = bindE (destroy_producers (producers Q) (producerListTail Q) (qpool Q)) (\<lambda>(xs, p).
    bindE (destroy_free_list (length (blocks p)) (freeListHead p) p) (\<lambda>ns.
    Inr (xs, length (hashes Q) - 1, ns)))"

section \<open>The invariant\<close>

text \<open>
  The producers and the pool: producer \<open>i\<close> holds the list \<open>qs i\<close>, of which \<open>hh i\<close> elements were taken before, in the blocks
  \<open>bls i\<close>; no block has two holders, and a block without holder is in the pool.
\<close>

definition holds :: "(nat \<Rightarrow> nat) \<Rightarrow> (nat \<Rightarrow> 'a list) \<Rightarrow> (nat \<Rightarrow> nat \<Rightarrow> nat) \<Rightarrow> nat \<Rightarrow> nat set" where
  "holds hh qs bls i = held (hh i) (qs i) (bls i)"

definition parts_ok ::
  "cq_producer list \<Rightarrow> 'a cq_pool \<Rightarrow> (nat \<Rightarrow> nat) \<Rightarrow> (nat \<Rightarrow> 'a list) \<Rightarrow> (nat \<Rightarrow> nat \<Rightarrow> nat) \<Rightarrow> nat list \<Rightarrow> bool" where
  "parts_ok prs p hh qs bls fl \<longleftrightarrow>
    (\<forall>i < length prs. producer_ok (prs ! i) (hh i) (qs i) (bls i) \<and> stored p (hh i) (qs i) (bls i)) \<and>
    (\<forall>i < length prs. \<forall>j < length prs. i \<noteq> j \<longrightarrow> holds hh qs bls i \<inter> holds hh qs bls j = {}) \<and>
    pool_ok p fl (\<Union>i < length prs. holds hh qs bls i)"

text \<open>One producer changed: only its own blocks, those it gave back and those it took from the pool.\<close>

lemma parts_update:
  assumes ok: "parts_ok prs p hh qs bls fl" and i: "i < length prs"
    and new: "producer_ok pr h q bl" "stored p' h q bl"
    and pool: "pool_ok p' fl' ((\<Union>i < length prs. holds hh qs bls i) - holds hh qs bls i \<union> held h q bl)"
    and apart: "held h q bl \<inter> ((\<Union>i < length prs. holds hh qs bls i) - holds hh qs bls i) = {}"
    and frame: "\<forall>n \<in> (\<Union>i < length prs. holds hh qs bls i) - holds hh qs bls i. blocks p' ! n = blocks p ! n"
  shows "parts_ok (prs[i := pr]) p' (hh(i := h)) (qs(i := q)) (bls(i := bl)) fl'"
proof -
  let ?live = "\<Union>i < length prs. holds hh qs bls i"
  let ?holds = "holds (hh(i := h)) (qs(i := q)) (bls(i := bl))"
  have here: "?holds i = held h q bl" and there: "\<And>j. j \<noteq> i \<Longrightarrow> ?holds j = holds hh qs bls j" by (simp_all add: holds_def)
  have disj: "holds hh qs bls j \<inter> holds hh qs bls l = {}" if "j < length prs" "l < length prs" "j \<noteq> l" for j l
    using ok that by (simp add: parts_ok_def)
  have other: "holds hh qs bls j \<subseteq> ?live - holds hh qs bls i" if "j < length prs" "j \<noteq> i" for j
    using disj [of j i] that i by blast
  have union: "(\<Union>j < length prs. ?holds j) = ?live - holds hh qs bls i \<union> held h q bl"
  proof -
    have "(\<Union>j < length prs. ?holds j) = (\<Union>j \<in> {..<length prs} - {i}. ?holds j) \<union> ?holds i" using i by auto
    also have "(\<Union>j \<in> {..<length prs} - {i}. ?holds j) = (\<Union>j \<in> {..<length prs} - {i}. holds hh qs bls j)" by (simp add: there)
    also have "\<dots> = ?live - holds hh qs bls i"
    proof
      show "(\<Union>j \<in> {..<length prs} - {i}. holds hh qs bls j) \<subseteq> ?live - holds hh qs bls i" using other by blast
    qed auto
    finally show ?thesis unfolding here .
  qed
  show ?thesis
    unfolding parts_ok_def
  proof (intro conjI allI impI)
    fix j assume j: "j < length (prs[i := pr])"
    show "producer_ok (prs[i := pr] ! j) ((hh(i := h)) j) ((qs(i := q)) j) ((bls(i := bl)) j)"
      using ok j new(1) by (cases "j = i") (auto simp: parts_ok_def)
    show "stored p' ((hh(i := h)) j) ((qs(i := q)) j) ((bls(i := bl)) j)"
    proof (cases "j = i")
      case False
      then have "stored p (hh j) (qs j) (bls j)" using ok j by (simp add: parts_ok_def)
      then show ?thesis using False frame other [of j] j by (auto simp: holds_def intro: stored_frame)
    qed (use new(2) in simp)
    fix l assume l: "l < length (prs[i := pr])" and ne: "j \<noteq> l"
    show "?holds j \<inter> ?holds l = {}"
    proof (cases "j = i \<or> l = i")
      case True
      then show ?thesis using here there other [of j] other [of l] apart j l ne by (cases "j = i") auto
    next
      case False
      then show ?thesis using there disj [of j l] j l ne by simp
    qed
  next
    show "pool_ok p' fl' (\<Union>j < length (prs[i := pr]). ?holds j)" using pool union by simp
  qed
qed

lemma parts_add:
  fixes p :: "'a cq_pool"
  assumes ok: "parts_ok prs p hh qs bls fl" and new: "producer_ok pr 0 ([] :: 'a list) (bls (length prs))"
  shows "parts_ok (prs @ [pr]) p (hh(length prs := 0)) (qs(length prs := [])) bls fl"
proof -
  let ?N = "length prs"
  let ?holds = "holds (hh(?N := 0)) (qs(?N := [])) bls"
  have here: "?holds ?N = {}" by (simp add: holds_def held_def first_block_def after_block_def)
  have there: "\<And>j. j < ?N \<Longrightarrow> ?holds j = holds hh qs bls j" by (simp add: holds_def)
  have union: "(\<Union>j < length (prs @ [pr]). ?holds j) = (\<Union>j < ?N. holds hh qs bls j)"
    using here there by (simp add: lessThan_Suc)
  have empty: "stored p 0 [] (bls ?N)" by (simp add: stored_def first_block_def after_block_def)
  show ?thesis
    unfolding parts_ok_def union
    using ok new empty here there by (auto simp: parts_ok_def nth_append less_Suc_eq)
qed

text \<open>Operations on one of the producers.\<close>

lemma parts_enqueue:
  assumes ok: "parts_ok prs p hh qs bls fl" and i: "i < length prs"
  obtains fine pr p' bl' fl' where "ip_enqueue mem x (prs ! i) p = Inr (fine, pr, p')"
    and "parts_ok (prs[i := pr]) p' hh (qs(i := if fine then qs i @ [x] else qs i)) (bls(i := bl')) fl'"
    and "(\<forall>n. mem n) \<and> length (qs i) + 64 < 2 ^ 63 \<longrightarrow> fine"
proof -
  let ?live = "\<Union>i < length prs. holds hh qs bls i"
  have pr: "producer_ok (prs ! i) (hh i) (qs i) (bls i)" and st: "stored p (hh i) (qs i) (bls i)"
    and pool: "pool_ok p fl ?live" using ok i by (simp_all add: parts_ok_def)
  have sub: "held (hh i) (qs i) (bls i) \<subseteq> ?live" using i by (auto simp: holds_def)
  obtain fine pr' p' where run: "ip_enqueue mem x (prs ! i) p = Inr (fine, pr', p')"
    and enq: "enqueued (fine, pr', p') p ?live (hh i) (qs i) x (bls i)"
    and enough: "(\<forall>n. mem n) \<and> length (qs i) + 64 < 2 ^ 63 \<longrightarrow> fine"
    using enqueue_ok [OF pr st pool sub, of mem x] by auto
  let ?q = "if fine then qs i @ [x] else qs i"
  obtain fl' bl' where e: "producer_ok pr' (hh i) ?q bl'" "stored p' (hh i) ?q bl'" "pool_ok p' fl' (?live \<union> held (hh i) ?q bl')"
    "held (hh i) (qs i) (bls i) \<subseteq> held (hh i) ?q bl'" "(held (hh i) ?q bl' - held (hh i) (qs i) (bls i)) \<inter> ?live = {}"
    "\<forall>n \<in> ?live - held (hh i) (qs i) (bls i). blocks p' ! n = blocks p ! n"
    using enq unfolding enqueued_def prod.case Let_def by blast
  have eq: "?live \<union> held (hh i) ?q bl' = ?live - holds hh qs bls i \<union> held (hh i) ?q bl'" using e(4) by (auto simp: holds_def)
  have "parts_ok (prs[i := pr']) p' (hh(i := hh i)) (qs(i := ?q)) (bls(i := bl')) fl'"
    by (rule parts_update [OF ok i e(1,2)]) (use e(3,5,6) eq in \<open>auto simp: holds_def\<close>)
  then show thesis using that [of fine pr' p' bl' fl'] run enough by simp
qed

lemma parts_dequeue:
  assumes ok: "parts_ok prs p hh qs bls fl" and i: "i < length prs" and q: "qs i = x # q"
  obtains pr p' fl' where "ip_dequeue (prs ! i) p = Inr (Some x, pr, p')"
    and "parts_ok (prs[i := pr]) p' (hh(i := Suc (hh i))) (qs(i := q)) bls fl'"
proof -
  let ?live = "\<Union>i < length prs. holds hh qs bls i"
  have pr: "producer_ok (prs ! i) (hh i) (x # q) (bls i)" and st: "stored p (hh i) (x # q) (bls i)"
    and pool: "pool_ok p fl ?live" using ok i q by (auto simp: parts_ok_def)
  have here: "holds hh qs bls i = held (hh i) (x # q) (bls i)" using q by (simp add: holds_def)
  have sub: "held (hh i) (x # q) (bls i) \<subseteq> ?live" using i unfolding here [symmetric] by blast
  obtain pr' p' fl' where run: "ip_dequeue (prs ! i) p = Inr (Some x, pr', p')"
    and d: "producer_ok pr' (Suc (hh i)) q (bls i)" "stored p' (Suc (hh i)) q (bls i)"
      "pool_ok p' fl' (?live - (held (hh i) (x # q) (bls i) - held (Suc (hh i)) q (bls i)))"
      "held (Suc (hh i)) q (bls i) \<subseteq> held (hh i) (x # q) (bls i)"
      "\<forall>n \<in> ?live - held (hh i) (x # q) (bls i). blocks p' ! n = blocks p ! n"
    using dequeue_ok [OF pr st pool sub] by blast
  have eq: "?live - (held (hh i) (x # q) (bls i) - held (Suc (hh i)) q (bls i)) = ?live - holds hh qs bls i \<union> held (Suc (hh i)) q (bls i)"
    using d(4) sub here by auto
  have "parts_ok (prs[i := pr']) p' (hh(i := Suc (hh i))) (qs(i := q)) (bls(i := bls i)) fl'"
    by (rule parts_update [OF ok i d(1,2)]) (use d(3,4,5) eq here in auto)
  then show thesis using that run by simp
qed

text \<open>
  The names: \<open>reg\<close> gives each thread that ever enqueued a producer of its own. The current table is less than half full.
\<close>

definition names_ok :: "(u64 \<rightharpoonup> nat) \<Rightarrow> 'a cqueue \<Rightarrow> bool" where
  "names_ok reg Q \<longleftrightarrow> tables_ok reg (hashes Q) \<and> hashes Q \<noteq> [] \<and> finite (dom reg) \<and> inj_on reg (dom reg) \<and>
    ran reg = {..<length (producers Q)} \<and> implicitProducerHashCount Q = word_of_nat (length (producers Q)) \<and>
    2 * length (producers Q) < unat (capacity (hd (hashes Q))) \<and> \<not> hashResizeInProgress Q \<and>
    producerListTail Q = rev [0..<length (producers Q)] \<and> producerCount Q = word_of_nat (length (producers Q))"

lemma names_card: "names_ok reg Q \<Longrightarrow> card (dom reg) = length (producers Q)"
proof -
  assume ok: "names_ok reg Q"
  have one: "inj_on reg (dom reg)" using ok by (simp add: names_ok_def)
  have inj: "inj_on (\<lambda>t. the (reg t)) (dom reg)"
  proof (rule inj_onI)
    fix s t assume d: "s \<in> dom reg" "t \<in> dom reg" and "the (reg s) = the (reg t)"
    then have "reg s = reg t" by (metis domD option.sel)
    then show "s = t" using d by (rule inj_onD [OF one])
  qed
  have "(\<lambda>t. the (reg t)) ` dom reg = ran reg" by (force simp: ran_def)
  then have "card (dom reg) = card (ran reg)" using card_image [OF inj] by simp
  then show ?thesis using ok by (simp add: names_ok_def)
qed

lemma names_cap:
  assumes "names_ok reg Q"
  obtains h hs k where "hashes Q = h # hs" "5 \<le> k" "k \<le> 62" "capacity h = 2 ^ k" "unat (capacity h) = 2 ^ k"
    "2 * length (producers Q) < 2 ^ k" "table_ok reg h"
proof -
  obtain h hs where hs: "hashes Q = h # hs" using assms by (cases "hashes Q") (auto simp: names_ok_def)
  then have ok: "table_ok reg h" using assms by (simp add: names_ok_def tables_ok_def)
  then obtain k where "5 \<le> k" "k \<le> 62" "capacity h = 2 ^ k" by (auto simp: table_ok_def)
  then show thesis using that [OF hs, of k] ok assms hs by (simp add: names_ok_def pow64)
qed

lemma halves: "5 \<le> k \<Longrightarrow> k \<le> 62 \<Longrightarrow> unat (drop_bit 1 (2 ^ k :: u64)) = 2 ^ (k - 1)"
  unfolding unat_half by (subst pow64) (auto simp: power_eq_if)

text \<open>A table twice as large when one more thread would make the current one half full.\<close>

lemma resize_ok:
  assumes ok: "names_ok reg Q" and few: "length (producers Q) + 1 < 2 ^ 61"
  obtains r Q' where "resize_hash mem (1 + implicitProducerHashCount Q) (Q\<lparr>implicitProducerHashCount := 1 + implicitProducerHashCount Q\<rparr>) = Inr (r, Q')"
    and "\<not> r \<longrightarrow> names_ok reg Q' \<and> \<not> mem (mallocs (qpool Q))"
    and "r \<longrightarrow> names_ok reg (Q'\<lparr>implicitProducerHashCount := implicitProducerHashCount Q\<rparr>) \<and>
      implicitProducerHashCount Q' = 1 + implicitProducerHashCount Q \<and>
      2 * (length (producers Q) + 1) < unat (capacity (hd (hashes Q')))"
    and "producers Q' = producers Q" and "\<exists>n. qpool Q' = (qpool Q)\<lparr>mallocs := n\<rparr>"
    and "\<forall>tid. tid \<noteq> 0 \<longrightarrow> (\<forall>h \<in> set (hashes Q). \<not> in_table h tid) \<longrightarrow> (\<forall>h \<in> set (hashes Q'). \<not> in_table h tid)"
proof -
  let ?N = "length (producers Q)" and ?c = "1 + implicitProducerHashCount Q"
  obtain h hs k where hs: "hashes Q = h # hs" and k: "5 \<le> k" "k \<le> 62" and cap: "capacity h = 2 ^ k" "unat (capacity h) = 2 ^ k"
    and half: "2 * ?N < 2 ^ k" using names_cap [OF ok] by metis
  have "?c = word_of_nat (Suc ?N)" using ok by (simp add: names_ok_def)
  moreover have "unat (word_of_nat (Suc ?N) :: u64) = Suc ?N" using few by (intro unat_small) simp
  ultimately have c: "unat ?c = Suc ?N" by simp
  have two: "(2::nat) ^ k = 2 * 2 ^ (k - 1)" using k by (cases k) auto
  have test: "drop_bit 1 (capacity h) \<le> ?c \<longleftrightarrow> 2 ^ (k - 1) \<le> Suc ?N"
    unfolding cap word_le_nat_alt halves [OF k] c ..
  have idle: "\<not> hashResizeInProgress Q" using ok by (simp add: names_ok_def)
  show thesis
  proof (cases "2 ^ (k - 1) \<le> Suc ?N")
    case False
    then have "resize_hash mem ?c (Q\<lparr>implicitProducerHashCount := ?c\<rparr>) = Inr (True, Q\<lparr>implicitProducerHashCount := ?c\<rparr>)"
      using hs test by (simp add: resize_hash_def)
    moreover have "2 * (?N + 1) < unat (capacity (hd (hashes Q)))" using False hs cap two by simp
    ultimately show thesis using ok by (intro that [of True "Q\<lparr>implicitProducerHashCount := ?c\<rparr>"])
        (auto intro!: exI [of _ "mallocs (qpool Q)"])
  next
    case True
    then have full: "Suc ?N = 2 ^ (k - 1)" using half two by simp
    then have "(2::nat) ^ (k - 1) < 2 ^ 61" using few by simp
    then have "k - 1 < 61" by (rule power_less_imp_less_exp [rotated]) simp
    then have k': "k \<le> 61" by simp
    have "grow_capacity (Suc 64) ?c (push_bit 1 (2 ^ k)) = Inr (2 ^ Suc k)"
      using c full by (intro grow_once [OF k(1) k']) simp
    then have grow: "grow_capacity 65 ?c (push_bit 1 (capacity h)) = Inr (2 ^ Suc k)" using cap by simp
    show thesis
    proof (cases "mem (mallocs (qpool Q))")
      case False
      let ?Q = "set_mallocs (mallocs (qpool Q) + 1) (Q\<lparr>hashResizeInProgress := False\<rparr>)"
      have "resize_hash mem ?c (Q\<lparr>implicitProducerHashCount := ?c\<rparr>) = Inr (False, ?Q)"
        using hs test True grow idle False by (simp add: resize_hash_def Let_def set_mallocs_def)
      moreover have "names_ok reg ?Q" using ok by (simp add: names_ok_def set_mallocs_def)
      ultimately show thesis using False by (intro that [of False ?Q]) (auto simp: set_mallocs_def)
    next
      case mem: True
      let ?h = "hash_new (2 ^ Suc k)"
      let ?Q = "set_mallocs (mallocs (qpool Q) + 1) (Q\<lparr>hashResizeInProgress := False, implicitProducerHashCount := ?c,
          hashes := ?h # hashes Q\<rparr>)"
      have new: "table_ok reg ?h" "capacity ?h = 2 ^ Suc k" "\<And>tid. tid \<noteq> 0 \<Longrightarrow> \<not> in_table ?h tid"
        using hash_new_ok [of "Suc k" reg] k k' by auto
      have room: "2 * (?N + 1) < unat (capacity ?h)" unfolding new(2) using full two k' pow64 [of "Suc k"] by simp
      have "resize_hash mem ?c (Q\<lparr>implicitProducerHashCount := ?c\<rparr>) = Inr (True, ?Q)"
        using hs test True grow idle mem by (simp add: resize_hash_def Let_def set_mallocs_def)
      moreover have "names_ok reg (?Q\<lparr>implicitProducerHashCount := implicitProducerHashCount Q\<rparr>)"
        using ok new room by (auto simp: names_ok_def tables_ok_def set_mallocs_def)
      ultimately show thesis using room new(3) by (intro that [of True ?Q]) (auto simp: set_mallocs_def)
    qed
  qed
qed

lemma below_three_quarters:
  assumes k: "5 \<le> k" "k \<le> 62" and cap: "c = (2 ^ k :: u64)" and n: "n = 1 + word_of_nat N" "N + 1 < 2 ^ 61" "2 * (N + 1) < unat c"
  shows "n < drop_bit 1 c + drop_bit 2 c"
proof -
  have "unat n = Suc N"
  proof -
    have "n = word_of_nat (Suc N)" using n(1) by simp
    moreover have "unat (word_of_nat (Suc N) :: u64) = Suc N" using n(2) by (intro unat_small) simp
    ultimately show ?thesis by (simp only:)
  qed
  moreover have half: "unat (drop_bit 1 c) = 2 ^ (k - 1)" unfolding cap by (rule halves [OF k])
  moreover have "drop_bit 2 c = drop_bit 1 (drop_bit 1 c)" by (simp add: numeral_2_eq_2)
  then have "unat (drop_bit 2 c) = 2 ^ (k - 1) div 2" using half by (simp only: unat_half)
  then have "unat (drop_bit 2 c) \<le> 2 ^ (k - 1)" by simp
  moreover have "unat c = 2 * 2 ^ (k - 1)" unfolding cap using k by (simp add: pow64 power_eq_if)
  moreover have "(2::nat) ^ (k - 1) \<le> 2 ^ 61" using k by (intro power_increasing) auto
  ultimately show ?thesis using n(3) by (simp add: word_less_nat_alt unat_word_ariths)
qed

definition queue_ok ::
  "(u64 \<rightharpoonup> nat) \<Rightarrow> (nat \<Rightarrow> nat) \<Rightarrow> (nat \<Rightarrow> 'a list) \<Rightarrow> (nat \<Rightarrow> nat \<Rightarrow> nat) \<Rightarrow> nat list \<Rightarrow> 'a cqueue \<Rightarrow> bool" where
  "queue_ok reg hh qs bls fl Q \<longleftrightarrow> names_ok reg Q \<and> parts_ok (producers Q) (qpool Q) hh qs bls fl"

lemma parts_mallocs [simp]: "parts_ok prs (p\<lparr>mallocs := n\<rparr>) hh qs bls fl = parts_ok prs p hh qs bls fl"
  by (simp add: parts_ok_def stored_def pool_ok_def)

lemma none_inactive: "parts_ok prs p hh qs bls fl \<Longrightarrow> \<forall>a \<in> set as. a < length prs \<Longrightarrow> find_inactive prs as = Inr None"
  by (induction as) (auto simp: parts_ok_def producer_ok_def)

text \<open>\<open>add_to_main_hash\<close> for a thread that is in no table, or only in an older one.\<close>

lemma add_main_ok:
  assumes tables: "\<forall>h \<in> set (hashes Q). table_ok reg h" and hs: "hashes Q = h # hs" and tid: "tid \<noteq> 0" "reg tid = Some a"
    and new: "\<not> in_table h tid" and room: "finite (dom reg)" "card (dom reg) < unat (capacity h)"
  obtains h' where "add_to_main_hash tid (Some a) Q = Inr (Q\<lparr>hashes := h' # hs\<rparr>)" and "table_ok reg h'" and "capacity h' = capacity h"
    and "in_table h' tid" and "\<And>x. in_table h x \<Longrightarrow> x \<noteq> 0 \<Longrightarrow> in_table h' x"
proof -
  have "table_ok reg h" using tables hs by simp
  then obtain h' where "hash_add tid (Some a) h = Inr h'" and h': "table_ok reg h'" "capacity h' = capacity h" "in_table h' tid"
    "\<And>x. in_table h x \<Longrightarrow> x \<noteq> 0 \<Longrightarrow> in_table h' x"
    using hash_add_ok [OF _ tid(1) new tid(2) room] by blast
  then have "add_to_main_hash tid (Some a) Q = Inr (Q\<lparr>hashes := h' # hs\<rparr>)" using hs by (simp add: add_to_main_hash_def)
  then show thesis using h' that by blast
qed

lemma tables_replace:
  assumes "tables_ok reg (h # hs)" and "table_ok reg h'" and "\<And>x. in_table h x \<Longrightarrow> x \<noteq> 0 \<Longrightarrow> in_table h' x"
  shows "tables_ok reg (h' # hs)"
  unfolding tables_ok_def
proof (intro conjI ballI)
  fix x assume "x \<in> dom reg"
  then have "x \<noteq> 0" "\<exists>h \<in> set (h # hs). in_table h x" using assms(1) by (auto simp: tables_ok_def)
  then show "x \<noteq> 0" "\<exists>h \<in> set (h' # hs). in_table h x" using assms(3) [of x] by auto
qed (use assms in \<open>auto simp: tables_ok_def\<close>)

lemma get_or_add_ok:
  assumes ok: "queue_ok reg hh qs bls fl Q" and tid: "tid \<noteq> 0" and few: "length (producers Q) + 1 < 2 ^ 61"
    and mem: "\<forall>n. mem n \<longrightarrow> mem (Suc n)"
  obtains (found) a Q' where "get_or_add_implicit_producer mem tid Q = Inr (Some a, Q')" and "reg tid = Some a"
      and "queue_ok reg hh qs bls fl Q'" and "producers Q' = producers Q"
    | (added) Q' where "get_or_add_implicit_producer mem tid Q = Inr (Some (length (producers Q)), Q')" and "reg tid = None"
      and "queue_ok (reg(tid \<mapsto> length (producers Q))) (hh(length (producers Q) := 0)) (qs(length (producers Q) := [])) bls fl Q'"
      and "length (producers Q') = Suc (length (producers Q))"
    | (failed) Q' where "get_or_add_implicit_producer mem tid Q = Inr (None, Q')" and "reg tid = None"
      and "queue_ok reg hh qs bls fl Q'" and "\<not> (\<forall>n. mem n)" and "producers Q' = producers Q"
proof -
  let ?N = "length (producers Q)"
  have names: "names_ok reg Q" and parts: "parts_ok (producers Q) (qpool Q) hh qs bls fl" using ok by (simp_all add: queue_ok_def)
  have tables: "\<forall>h \<in> set (hashes Q). table_ok reg h" using names by (simp add: names_ok_def tables_ok_def)
  obtain h hs k where hs: "hashes Q = h # hs" and cap: "unat (capacity h) = 2 ^ k" and half: "2 * ?N < 2 ^ k"
    using names_cap [OF names] by metis
  have fin: "finite (dom reg)" and card: "card (dom reg) = ?N" using names names_card [OF names] by (simp_all add: names_ok_def)
  obtain r where search: "search_hashes tid (hashes Q) = Inr r" using search_ok [OF tables tid] by (auto split: sum.splits)
  show thesis
  proof (cases r)
    case (Some dv)
    obtain d v where dv: "dv = (d, v)" by fastforce
    then obtain a where v: "v = Some a" and reg: "reg tid = Some a" and deep: "0 < d \<longrightarrow> \<not> in_table h tid"
      using search_ok [OF tables tid] search Some hs by auto
    show thesis
    proof (cases "d = 0")
      case True
      then show thesis using found [of a Q] search Some dv v reg ok by (simp add: get_or_add_implicit_producer_def)
    next
      case False
      obtain h' where add: "add_to_main_hash tid (Some a) Q = Inr (Q\<lparr>hashes := h' # hs\<rparr>)" and h': "table_ok reg h'"
        "capacity h' = capacity h" "\<And>x. in_table h x \<Longrightarrow> x \<noteq> 0 \<Longrightarrow> in_table h' x"
        using add_main_ok [OF tables hs tid reg _ fin] False deep card half cap by auto
      have "names_ok reg (Q\<lparr>hashes := h' # hs\<rparr>)"
        using names h'(2) tables_replace [of reg h hs h'] h' hs by (simp add: names_ok_def)
      then show thesis
        using found [of a "Q\<lparr>hashes := h' # hs\<rparr>"] search Some dv v False add reg parts
        by (simp add: get_or_add_implicit_producer_def queue_ok_def)
    qed
  next
    case None
    then have absent: "\<forall>h \<in> set (hashes Q). \<not> in_table h tid" using search_ok [OF tables tid] search by simp
    then have reg: "reg tid = None" using names tid by (auto simp: names_ok_def tables_ok_def)
    have go: "get_or_add_implicit_producer mem tid Q = add_implicit_producer mem tid Q"
      using search None by (simp add: get_or_add_implicit_producer_def)
    let ?c = "1 + implicitProducerHashCount Q"
    obtain ok1 Q1 where resize: "resize_hash mem ?c (Q\<lparr>implicitProducerHashCount := ?c\<rparr>) = Inr (ok1, Q1)"
      and bad: "\<not> ok1 \<longrightarrow> names_ok reg Q1 \<and> \<not> mem (mallocs (qpool Q))"
      and good: "ok1 \<longrightarrow> names_ok reg (Q1\<lparr>implicitProducerHashCount := implicitProducerHashCount Q\<rparr>) \<and>
        implicitProducerHashCount Q1 = ?c \<and> 2 * (?N + 1) < unat (capacity (hd (hashes Q1)))"
      and prs1: "producers Q1 = producers Q" and "\<exists>n. qpool Q1 = (qpool Q)\<lparr>mallocs := n\<rparr>"
      and absent1: "\<forall>tid. tid \<noteq> 0 \<longrightarrow> (\<forall>h \<in> set (hashes Q). \<not> in_table h tid) \<longrightarrow> (\<forall>h \<in> set (hashes Q1). \<not> in_table h tid)"
      by (rule resize_ok [OF names few, of mem])
    then obtain n1 where pool1: "qpool Q1 = (qpool Q)\<lparr>mallocs := n1\<rparr>" by blast
    then have parts1: "parts_ok (producers Q1) (qpool Q1) hh qs bls fl" using parts prs1 by simp
    show thesis
    proof (cases ok1)
      case False
      then have "get_or_add_implicit_producer mem tid Q = Inr (None, Q1)"
        using go resize by (simp add: add_implicit_producer_def Let_def)
      then show thesis using failed [of Q1] reg bad False parts1 prs1 by (auto simp: queue_ok_def)
    next
      case True
      let ?Q1 = "Q1\<lparr>implicitProducerHashCount := implicitProducerHashCount Q\<rparr>"
      have names1: "names_ok reg ?Q1" and c1: "implicitProducerHashCount Q1 = ?c" and room: "2 * (?N + 1) < unat (capacity (hd (hashes Q1)))"
        using good True by auto
      obtain h1 hs1 k1 where hs1: "hashes ?Q1 = h1 # hs1" and k1: "5 \<le> k1" "k1 \<le> 62" and cap1: "capacity h1 = 2 ^ k1" "unat (capacity h1) = 2 ^ k1"
        using names_cap [OF names1] by metis
      have hs1': "hashes Q1 = h1 # hs1" using hs1 by simp
      have below: "?c < drop_bit 1 (capacity h1) + drop_bit 2 (capacity h1)"
        by (rule below_three_quarters [OF k1 cap1(1)])
          (use room hs1' names few in \<open>simp_all add: names_ok_def\<close>)
      have tail: "producerListTail Q1 = rev [0..<?N]" using names1 prs1 by (simp add: names_ok_def)
      have quiet: "find_inactive (producers Q1) (producerListTail Q1) = Inr None"
        by (rule none_inactive [OF parts1]) (use tail prs1 in auto)
      show thesis
      proof (cases "mem (mallocs (qpool Q1))")
        case False
        let ?Q2 = "set_mallocs (mallocs (qpool Q1) + 1) ?Q1"
        have "get_or_add_implicit_producer mem tid Q = Inr (None, ?Q2)"
          using go resize True hs1' below quiet False c1
          by (simp add: add_implicit_producer_def Let_def recycle_or_create_producer_def set_mallocs_def)
        moreover have "names_ok reg ?Q2" using names1 by (simp add: names_ok_def set_mallocs_def)
        ultimately show thesis
          using failed [of ?Q2] reg False parts1 prs1 by (auto simp: queue_ok_def set_mallocs_def)
      next
        case alloc: True
        obtain pr where new: "implicit_producer_new mem (mallocs (qpool Q1) + 1) = Inr (pr, mallocs (qpool Q1) + 1 + 1)"
          and pr: "producer_ok pr 0 ([] :: 'a list) (bls ?N)"
          using producer_new_ok [of mem "mallocs (qpool Q1) + 1" "bls ?N"] mem alloc by (metis Suc_eq_plus1)
        let ?Q2 = "(set_mallocs (mallocs (qpool Q1) + 1 + 1) Q1)\<lparr>producers := producers Q @ [pr], producerCount := producerCount Q1 + 1,
            producerListTail := ?N # producerListTail Q1\<rparr>"
        let ?reg = "reg(tid \<mapsto> ?N)"
        have inj: "inj_on ?reg (dom ?reg)" and ran: "ran ?reg = {..<Suc ?N}"
        proof -
          have one: "inj_on reg (dom reg)" and rn: "ran reg = {..<?N}" using names by (simp_all add: names_ok_def)
          have "ran ?reg = insert ?N (ran reg)" using reg by (rule ran_map_upd)
          then show "ran ?reg = {..<Suc ?N}" using rn by (simp add: lessThan_Suc)
          have "Some ?N \<notin> reg ` dom reg" using rn by (force simp: ran_def)
          then show "inj_on ?reg (dom ?reg)" using inj_on_fun_updI [OF one, of "Some ?N" tid] reg
            by (simp add: inj_on_insert fun_upd_image) blast
        qed
        have absent2: "\<forall>h \<in> set (hashes Q1). \<not> in_table h tid" using absent1 absent tid by blast
        have tables2: "\<forall>h \<in> set (hashes ?Q2). table_ok ?reg h"
          using names1 absent2 table_ok_extend by (auto simp: names_ok_def tables_ok_def set_mallocs_def)
        have hs2: "hashes ?Q2 = h1 # hs1" using hs1 by (simp add: set_mallocs_def)
        have "tid \<notin> dom reg" using reg by auto
        then have "card (dom ?reg) = Suc ?N" using fin card by simp
        then have room2: "card (dom ?reg) < unat (capacity h1)" using room hs1' by simp
        obtain h' where add: "add_to_main_hash tid (Some ?N) ?Q2 = Inr (?Q2\<lparr>hashes := h' # hs1\<rparr>)" and h': "table_ok ?reg h'"
          "capacity h' = capacity h1" "in_table h' tid" "\<And>x. in_table h1 x \<Longrightarrow> x \<noteq> 0 \<Longrightarrow> in_table h' x"
          using add_main_ok [OF tables2 hs2 tid(1) _ _ _ room2] absent2 hs1' fin by auto
        let ?Q3 = "?Q2\<lparr>hashes := h' # hs1\<rparr>"
        have run: "get_or_add_implicit_producer mem tid Q = Inr (Some ?N, ?Q3)"
          using go resize True hs1' below quiet alloc new add prs1
          by (simp add: add_implicit_producer_def Let_def recycle_or_create_producer_def add_producer_def set_mallocs_def)
        have "tables_ok ?reg (h' # hs1)"
          unfolding tables_ok_def
        proof (intro conjI ballI)
          show "table_ok ?reg t" if "t \<in> set (h' # hs1)" for t using that h'(1) tables2 hs2 by auto
          fix x assume x: "x \<in> dom ?reg"
          have old: "x \<in> dom reg \<Longrightarrow> x \<noteq> 0 \<and> (\<exists>h \<in> set (h1 # hs1). in_table h x)"
            using names1 hs1 by (simp add: names_ok_def tables_ok_def)
          show "x \<noteq> 0" using old x tid(1) by (cases "x = tid") auto
          show "\<exists>h \<in> set (h' # hs1). in_table h x"
            using old x h'(3,4) by (cases "x = tid") auto
        qed
        then have "names_ok ?reg ?Q3"
          using names1 prs1 c1 inj ran fin room hs1' h'(2) by (simp add: names_ok_def set_mallocs_def)
        moreover have "parts_ok (producers ?Q3) (qpool ?Q3) (hh(?N := 0)) (qs(?N := [])) bls fl"
          using parts_add [OF parts pr] pool1 by (simp add: set_mallocs_def)
        ultimately show thesis using added [of ?Q3] run reg by (simp add: queue_ok_def set_mallocs_def)
      qed
    qed
  qed
qed

end
