(* ===== verification/Cq_Order.thy ===== *)
theory Cq_Order
  imports Concurrent_Queue Event_Queue
begin

text \<open>
  What the users of the queue may rely on, one operation at a time: \<open>pend\<close>, the elements of each thread that wait. An \<open>enqueue\<close> appends to
  the list of its thread or, when memory is short, changes nothing; a \<open>try_dequeue\<close> takes the head of the list of some thread, and finds
  nothing only when all lists are empty. Used by one thread it does what the lists of theory \<open>Event_Queue\<close> do.
\<close>

section \<open>Operations on the lists of the threads\<close>

definition pending :: "(u64 \<rightharpoonup> nat) \<Rightarrow> (nat \<Rightarrow> 'a list) \<Rightarrow> u64 \<Rightarrow> 'a list" where
  "pending reg qs tid = (case reg tid of None \<Rightarrow> [] | Some i \<Rightarrow> qs i)"

definition queue_inv :: "'a cqueue \<Rightarrow> (u64 \<Rightarrow> 'a list) \<Rightarrow> bool" where
  "queue_inv Q pend \<longleftrightarrow> (\<exists>reg hh qs bls fl. queue_ok reg hh qs bls fl Q \<and> pend = pending reg qs)"

lemma queue_invI: "queue_ok reg hh qs bls fl Q \<Longrightarrow> pend = pending reg qs \<Longrightarrow> queue_inv Q pend"
  unfolding queue_inv_def by blast

lemma pending_upd:
  assumes "names_ok reg Q" and "reg tid = Some i"
  shows "pending reg (qs(i := q)) = (pending reg qs)(tid := q)"
proof
  fix t
  have one: "inj_on reg (dom reg)" using assms(1) by (simp add: names_ok_def)
  have "t = tid" if "reg t = Some i"
  proof -
    have "reg t = reg tid" using assms(2) that by simp
    then show ?thesis by (rule inj_onD [OF one]) (use assms(2) that in auto)
  qed
  then have "reg t \<noteq> Some i" if "t \<noteq> tid" using that by blast
  then show "pending reg (qs(i := q)) t = ((pending reg qs)(tid := q)) t"
    using assms(2) by (cases "t = tid") (auto simp: pending_def split: option.split)
qed

lemma pending_add:
  assumes "names_ok reg Q" and "reg tid = None"
  shows "pending (reg(tid \<mapsto> length (producers Q))) (qs(length (producers Q) := [])) = pending reg qs"
proof
  fix t
  have "reg s \<noteq> Some (length (producers Q))" for s using assms(1) by (auto simp: names_ok_def ran_def)
  then show "pending (reg(tid \<mapsto> length (producers Q))) (qs(length (producers Q) := [])) t = pending reg qs t"
    using assms(2) by (auto simp: pending_def split: option.split)
qed

lemma names_frame:
  "names_ok reg Q \<Longrightarrow> names_ok reg (Q\<lparr>producers := (producers Q)[a := pr], qpool := p\<rparr>)"
  by (simp add: names_ok_def)

lemma new_queue: "queue_inv (cqueue_new mem :: 'a cqueue) (\<lambda>_. [])"
proof -
  let ?Q = "cqueue_new mem :: 'a cqueue"
  have six: "(6 * 32 :: u64) div 32 + (if (6 * 32 :: u64) AND 31 = 0 then 0 else 1) = 6" by simp
  have Q: "hashes ?Q = [hash_new (2 ^ 5)]" "producers ?Q = []" "implicitProducerHashCount ?Q = 0" "hashResizeInProgress ?Q = False"
    "producerListTail ?Q = []" "producerCount ?Q = 0"
    by (simp_all add: cqueue_new_def Let_def populate_initial_implicit_producer_hash_def)
  have names: "names_ok Map.empty ?Q"
    using hash_new_ok [of 5 Map.empty] unfolding names_ok_def tables_ok_def Q by simp
  have "pool_ok (qpool ?Q) [] {}"
    unfolding cqueue_new_def Let_def six by (auto simp: populate_initial_block_list_def populate_initial_implicit_producer_hash_def pool_ok_def block_new_def)
  then have parts: "parts_ok (producers ?Q) (qpool ?Q) (\<lambda>_. 0) (\<lambda>_. []) (\<lambda>_ _. 0) []"
    unfolding parts_ok_def Q by simp
  have "queue_ok Map.empty (\<lambda>_. 0) (\<lambda>_. []) (\<lambda>_ _. 0) [] ?Q"
    unfolding queue_ok_def by (rule conjI [OF names parts])
  moreover have "(\<lambda>_. [] :: 'a list) = pending Map.empty (\<lambda>_. [])" by (auto simp: pending_def)
  ultimately show ?thesis by (rule queue_invI)
qed

lemma enqueue_at:
  assumes get: "get_or_add_implicit_producer mem tid Q = Inr (Some a, Q')" and ok: "queue_ok reg hh qs bls fl Q'"
    and reg: "reg tid = Some a" and pend: "pend = pending reg qs" and len: "length (producers Q') \<le> length (producers Q) + 1"
  shows "\<exists>fine Q''. cq_enqueue mem tid x Q = Inr (fine, Q'') \<and>
    queue_inv Q'' (if fine then pend(tid := pend tid @ [x]) else pend) \<and>
    length (producers Q'') \<le> length (producers Q) + 1 \<and>
    ((\<forall>n. mem n) \<and> length (pend tid) + 64 < 2 ^ 63 \<longrightarrow> fine)"
proof -
  have names: "names_ok reg Q'" and parts: "parts_ok (producers Q') (qpool Q') hh qs bls fl" using ok by (simp_all add: queue_ok_def)
  have a: "a < length (producers Q')" using names reg by (auto simp: names_ok_def ran_def)
  obtain fine pr p' bl' fl' where run: "ip_enqueue mem x (producers Q' ! a) (qpool Q') = Inr (fine, pr, p')"
    and parts': "parts_ok ((producers Q')[a := pr]) p' hh (qs(a := if fine then qs a @ [x] else qs a)) (bls(a := bl')) fl'"
    and enough: "(\<forall>n. mem n) \<and> length (qs a) + 64 < 2 ^ 63 \<longrightarrow> fine"
    by (rule parts_enqueue [OF parts a])
  let ?Q = "Q'\<lparr>producers := (producers Q')[a := pr], qpool := p'\<rparr>"
  have here: "pend tid = qs a" using reg by (simp add: pending_def pend)
  have "queue_ok reg hh (qs(a := if fine then qs a @ [x] else qs a)) (bls(a := bl')) fl' ?Q"
    using names_frame [OF names] parts' by (simp add: queue_ok_def)
  moreover have "(if fine then pend(tid := pend tid @ [x]) else pend) = pending reg (qs(a := if fine then qs a @ [x] else qs a))"
    using pending_upd [OF names reg, of qs] here pend by (cases fine) simp_all
  ultimately have "queue_inv ?Q (if fine then pend(tid := pend tid @ [x]) else pend)"
    by (rule queue_invI)
  moreover have "cq_enqueue mem tid x Q = Inr (fine, ?Q)" using get a run by (simp add: cq_enqueue_def)
  ultimately show ?thesis using len enough here by (intro exI [of _ fine] exI [of _ ?Q]) simp
qed

lemma enqueue_pending:
  assumes inv: "queue_inv Q pend" and tid: "tid \<noteq> 0" and few: "length (producers Q) + 1 < 2 ^ 61"
    and mem: "\<forall>n. mem n \<longrightarrow> mem (Suc n)"
  shows "\<exists>fine Q'. cq_enqueue mem tid x Q = Inr (fine, Q') \<and>
    queue_inv Q' (if fine then pend(tid := pend tid @ [x]) else pend) \<and>
    length (producers Q') \<le> length (producers Q) + 1 \<and>
    ((\<forall>n. mem n) \<and> length (pend tid) + 64 < 2 ^ 63 \<longrightarrow> fine)"
proof -
  obtain reg hh qs bls fl where ok: "queue_ok reg hh qs bls fl Q" and pend: "pend = pending reg qs"
    using inv by (auto simp: queue_inv_def)
  show ?thesis
  proof (rule get_or_add_ok [OF ok tid few mem])
    fix a Q' assume "get_or_add_implicit_producer mem tid Q = Inr (Some a, Q')" "reg tid = Some a" "queue_ok reg hh qs bls fl Q'"
      "producers Q' = producers Q"
    then show ?thesis using enqueue_at [OF _ _ _ pend] by simp
  next
    fix Q' assume "get_or_add_implicit_producer mem tid Q = Inr (Some (length (producers Q)), Q')" and new: "reg tid = None"
      "queue_ok (reg(tid \<mapsto> length (producers Q))) (hh(length (producers Q) := 0)) (qs(length (producers Q) := [])) bls fl Q'"
      "length (producers Q') = Suc (length (producers Q))"
    moreover have same: "pend = pending (reg(tid \<mapsto> length (producers Q))) (qs(length (producers Q) := []))"
      using pending_add [of reg Q tid qs] ok new(1) unfolding pend by (simp add: queue_ok_def)
    ultimately show ?thesis
      using enqueue_at [OF _ _ _ same] by simp
  next
    fix Q' assume "get_or_add_implicit_producer mem tid Q = Inr (None, Q')" "queue_ok reg hh qs bls fl Q'" "\<not> (\<forall>n. mem n)"
      "producers Q' = producers Q"
    then show ?thesis using queue_invI [OF _ pend] by (auto simp: cq_enqueue_def)
  qed
qed

text \<open>The loop that chooses a producer finds one that has elements, if any has.\<close>

lemma best_producer_ok:
  assumes parts: "parts_ok prs p hh qs bls fl"
  shows "\<forall>a \<in> set as. a < length prs \<Longrightarrow>
    (n = 0 \<and> best = None \<and> s = 0) \<or> (0 < n \<and> (\<exists>a < length prs. best = Some a \<and> qs a \<noteq> [])) \<Longrightarrow>
    \<exists>n' best'. best_producer prs as n best s = Inr (n', best') \<and>
      (n' = 0 \<and> n = 0 \<and> (\<forall>a \<in> set as. qs a = []) \<or> 0 < n' \<and> (\<exists>a < length prs. best' = Some a \<and> qs a \<noteq> []))"
proof (induction as arbitrary: n best s)
  case (Cons a as)
  have a: "a < length prs" using Cons.prems(1) by simp
  then have "producer_ok (prs ! a) (hh a) (qs a) (bls a)" using parts by (simp add: parts_ok_def)
  then have len: "unat (ip_size_approx (prs ! a)) = length (qs a)" by (rule size_approx_exact)
  have some: "0 < ip_size_approx (prs ! a) \<longleftrightarrow> qs a \<noteq> []"
    using len by (metis length_greater_0_conv unat_gt_0 word_gt_0 word_neq_0_conv)
  show ?case
  proof (cases "n < 3")
    case False
    then show ?thesis using Cons.prems(2) by auto
  next
    case True
    consider "qs a = []" | "qs a \<noteq> []" "s < ip_size_approx (prs ! a)" | "qs a \<noteq> []" "\<not> s < ip_size_approx (prs ! a)" by blast
    then show ?thesis
    proof cases
      case 1
      then have "best_producer prs (a # as) n best s = best_producer prs as n best s" using True a some by (simp add: Let_def)
      then show ?thesis using Cons.IH [of n best s] Cons.prems 1 by auto
    next
      case 2
      then have "best_producer prs (a # as) n best s = best_producer prs as (n + 1) (Some a) (ip_size_approx (prs ! a))"
        using True a some by (simp add: Let_def)
      then show ?thesis using Cons.IH [of "n + 1" "Some a" "ip_size_approx (prs ! a)"] Cons.prems(1) a 2 by auto
    next
      case 3
      then have "best_producer prs (a # as) n best s = best_producer prs as (n + 1) best s" using True a some by (simp add: Let_def)
      moreover have "s \<noteq> 0" using 3 some by (metis word_neq_0_conv)
      ultimately show ?thesis using Cons.IH [of "n + 1" best s] Cons.prems by auto
    qed
  qed
qed auto

lemma dequeue_pending:
  assumes inv: "queue_inv Q pend"
  shows "\<exists>r Q'. cq_try_dequeue Q = Inr (r, Q') \<and> length (producers Q') = length (producers Q) \<and>
    (case r of None \<Rightarrow> pend = (\<lambda>_. []) \<and> Q' = Q
     | Some x \<Rightarrow> \<exists>tid q. pend tid = x # q \<and> queue_inv Q' (pend(tid := q)))"
proof -
  obtain reg hh qs bls fl where ok: "queue_ok reg hh qs bls fl Q" and pend: "pend = pending reg qs"
    using inv by (auto simp: queue_inv_def)
  have names: "names_ok reg Q" and parts: "parts_ok (producers Q) (qpool Q) hh qs bls fl" using ok by (simp_all add: queue_ok_def)
  have tail: "producerListTail Q = rev [0..<length (producers Q)]" and ran: "ran reg = {..<length (producers Q)}"
    using names by (simp_all add: names_ok_def)
  obtain n b where best: "best_producer (producers Q) (producerListTail Q) 0 None 0 = Inr (n, b)"
    and cases: "n = 0 \<and> (\<forall>a < length (producers Q). qs a = []) \<or> 0 < n \<and> (\<exists>a < length (producers Q). b = Some a \<and> qs a \<noteq> [])"
    using best_producer_ok [OF parts, of "producerListTail Q" 0 None 0] unfolding tail by auto
  from cases show ?thesis
  proof
    assume none: "n = 0 \<and> (\<forall>a < length (producers Q). qs a = [])"
    have "pend t = []" for t using none ran unfolding pend pending_def by (auto simp: ran_def split: option.split)
    then have "pend = (\<lambda>_. [])" by blast
    then show ?thesis using best none by (simp add: cq_try_dequeue_def)
  next
    assume "0 < n \<and> (\<exists>a < length (producers Q). b = Some a \<and> qs a \<noteq> [])"
    then obtain a x q where a: "a < length (producers Q)" "b = Some a" "0 < n" and q: "qs a = x # q" by (auto simp: neq_Nil_conv)
    obtain pr p' fl' where run: "ip_dequeue (producers Q ! a) (qpool Q) = Inr (Some x, pr, p')"
      and parts': "parts_ok ((producers Q)[a := pr]) p' (hh(a := Suc (hh a))) (qs(a := q)) bls fl'"
      by (rule parts_dequeue [OF parts a(1) q])
    let ?Q = "Q\<lparr>producers := (producers Q)[a := pr], qpool := p'\<rparr>"
    have "a \<in> ran reg" using ran a(1) by simp
    then obtain tid where reg: "reg tid = Some a" by (auto simp: ran_def)
    then have "pend tid = x # q" using q by (simp add: pend pending_def)
    moreover have "queue_ok reg (hh(a := Suc (hh a))) (qs(a := q)) bls fl' ?Q"
      using names_frame [OF names] parts' by (simp add: queue_ok_def)
    then have "queue_inv ?Q (pend(tid := q))"
      by (rule queue_invI) (simp only: pend pending_upd [OF names reg])
    moreover have "cq_try_dequeue Q = Inr (Some x, ?Q)" using best a run by (simp add: cq_try_dequeue_def dequeue_from_def)
    ultimately show ?thesis by (intro exI [of _ "Some x"] exI [of _ ?Q]) auto
  qed
qed

end
