(* ===== verification/Cq_Contract.thy ===== *)
theory Cq_Contract
  imports Event_Queue
begin

text \<open>
  What the users of a queue between threads rely on, as an interface: each thread's elements wait in a list of their own, \<open>enqueue\<close> appends to the list of
  its thread or, without memory, is refused, and \<open>try_dequeue\<close> takes the head of the list of some thread, and finds nothing only when all
  are empty. Lemmas about runs follow from that alone. The list of theory \<open>Event_Queue\<close> keeps it, and theory \<open>Cq_Runs\<close> shows that the real
  queue does.
\<close>

section \<open>Runs\<close>

text \<open>An \<open>enqueue\<close> names the calling thread, and says whether there is memory while it runs.\<close>

datatype 'a cq_event = Enqueue u64 'a bool | TryDequeue

datatype 'a cq_result = Put bool | Got "'a option"

fun queue_step :: "(u64 \<Rightarrow> 'a \<Rightarrow> bool \<Rightarrow> 'q \<Rightarrow> 'f + (bool \<times> 'q)) \<Rightarrow> ('q \<Rightarrow> 'f + ('a option \<times> 'q)) \<Rightarrow> 'a cq_event \<Rightarrow> 'q \<Rightarrow> 'f + ('a cq_result \<times> 'q)" where
  "queue_step enq deq (Enqueue tid x ok) Q = bindE (enq tid x ok Q) (\<lambda>(r, Q). Inr (Put r, Q))"
| "queue_step enq deq TryDequeue Q = bindE (deq Q) (\<lambda>(r, Q). Inr (Got r, Q))"

fun results_of :: "('a cq_event \<Rightarrow> 'q \<Rightarrow> 'f + ('a cq_result \<times> 'q)) \<Rightarrow> 'a cq_event list \<Rightarrow> 'q \<Rightarrow> 'f + ('a cq_result list \<times> 'q)" where
  "results_of step [] Q = Inr ([], Q)"
| "results_of step (e # es) Q = bindE (step e Q) (\<lambda>(r, Q). bindE (results_of step es Q) (\<lambda>(rs, Q). Inr (r # rs, Q)))"

text \<open>
  The specification: \<open>pend t\<close> are the elements of thread \<open>t\<close> that wait. Which thread is served is not said.
\<close>

inductive explained :: "(u64 \<Rightarrow> 'a list) \<Rightarrow> 'a cq_event list \<Rightarrow> 'a cq_result list \<Rightarrow> (u64 \<Rightarrow> 'a list) \<Rightarrow> bool" where
  explained_end: "explained pend [] [] pend"
| explained_put: "explained (pend(tid := pend tid @ [x])) es rs pend' \<Longrightarrow>
    explained pend (Enqueue tid x ok # es) (Put True # rs) pend'"
| explained_refused: "\<not> ok \<Longrightarrow> explained pend es rs pend' \<Longrightarrow>
    explained pend (Enqueue tid x ok # es) (Put False # rs) pend'"
| explained_taken: "pend tid = x # q \<Longrightarrow> explained (pend(tid := q)) es rs pend' \<Longrightarrow>
    explained pend (TryDequeue # es) (Got (Some x) # rs) pend'"
| explained_nothing: "explained (\<lambda>_. []) es rs pend' \<Longrightarrow> explained (\<lambda>_. []) (TryDequeue # es) (Got None # rs) pend'"

definition threads_named :: "'a cq_event list \<Rightarrow> bool" where
  "threads_named es \<longleftrightarrow> (\<forall>tid x ok. Enqueue tid x ok \<in> set es \<longrightarrow> tid \<noteq> 0)"

lemma threads_named_simps [simp]:
  "threads_named []"
  "threads_named (Enqueue tid x ok # es) \<longleftrightarrow> tid \<noteq> 0 \<and> threads_named es"
  "threads_named (TryDequeue # es) \<longleftrightarrow> threads_named es"
  by (auto simp: threads_named_def)

section \<open>The interface\<close>

text \<open>\<open>inv Q pend n\<close>: the queue holds \<open>pend\<close>, and has room for \<open>n\<close> more operations.\<close>

locale thread_queue =
  fixes enq :: "u64 \<Rightarrow> 'a \<Rightarrow> bool \<Rightarrow> 'q \<Rightarrow> 'f + (bool \<times> 'q)"
    and deq :: "'q \<Rightarrow> 'f + ('a option \<times> 'q)"
    and inv :: "'q \<Rightarrow> (u64 \<Rightarrow> 'a list) \<Rightarrow> nat \<Rightarrow> bool"
  assumes enq_law: "inv Q pend (Suc n) \<Longrightarrow> tid \<noteq> 0 \<Longrightarrow> \<exists>fine Q'. enq tid x ok Q = Inr (fine, Q') \<and>
      inv Q' (if fine then pend(tid := pend tid @ [x]) else pend) n \<and> (ok \<longrightarrow> fine)"
    and deq_law: "inv Q pend (Suc n) \<Longrightarrow> \<exists>r Q'. deq Q = Inr (r, Q') \<and>
      (case r of None \<Rightarrow> pend = (\<lambda>_. []) \<and> inv Q' pend n | Some x \<Rightarrow> \<exists>tid q. pend tid = x # q \<and> inv Q' (pend(tid := q)) n)"
begin

lemma run_explained:
  "inv Q pend (length es) \<Longrightarrow> threads_named es \<Longrightarrow>
    \<exists>rs Q' pend'. results_of (queue_step enq deq) es Q = Inr (rs, Q') \<and> explained pend es rs pend' \<and> inv Q' pend' 0"
proof (induction es arbitrary: Q pend)
  case Nil
  then show ?case using explained_end [of pend] by auto
next
  case (Cons e es)
  have step: "\<exists>rs Q' pend'. results_of (queue_step enq deq) (e # es) Q = Inr (rs, Q') \<and> explained pend (e # es) rs pend' \<and> inv Q' pend' 0"
    if one: "queue_step enq deq e Q = Inr (r, Q1)" and inv1: "inv Q1 pend1 (length es)"
      and ex: "\<And>rs pend'. explained pend1 es rs pend' \<Longrightarrow> explained pend (e # es) (r # rs) pend'" for r Q1 pend1
  proof -
    have "threads_named es" using Cons.prems(2) by (auto simp: threads_named_def)
    then obtain rs Q' pend' where "results_of (queue_step enq deq) es Q1 = Inr (rs, Q')" "explained pend1 es rs pend'" "inv Q' pend' 0"
      using Cons.IH [OF inv1] by metis
    then show ?thesis using one ex by (intro exI [of _ "r # rs"] exI [of _ Q'] exI [of _ pend']) simp
  qed
  have bound: "inv Q pend (Suc (length es))" using Cons.prems(1) by simp
  show ?case
  proof (cases e)
    case (Enqueue tid x ok)
    then have "tid \<noteq> 0" using Cons.prems(2) by simp
    then obtain fine Q' where run: "enq tid x ok Q = Inr (fine, Q')"
      and inv': "inv Q' (if fine then pend(tid := pend tid @ [x]) else pend) (length es)" and enough: "ok \<longrightarrow> fine"
      using enq_law [OF bound] by blast
    have "explained pend (e # es) (Put fine # rs) pend'"
      if "explained (if fine then pend(tid := pend tid @ [x]) else pend) es rs pend'" for rs pend'
      using that enough explained_put explained_refused unfolding Enqueue by (cases fine) auto
    then show ?thesis using step [OF _ inv', of "Put fine"] run Enqueue by simp
  next
    case TryDequeue
    obtain r Q' where run: "deq Q = Inr (r, Q')"
      and r: "case r of None \<Rightarrow> pend = (\<lambda>_. []) \<and> inv Q' pend (length es)
        | Some x \<Rightarrow> \<exists>tid q. pend tid = x # q \<and> inv Q' (pend(tid := q)) (length es)"
      using deq_law [OF bound] by blast
    show ?thesis
    proof (cases r)
      case None
      then have empty: "pend = (\<lambda>_. [])" and inv': "inv Q' pend (length es)" using r by auto
      show ?thesis
      proof (rule step [OF _ inv'])
        show "queue_step enq deq e Q = Inr (Got None, Q')" using run None TryDequeue by simp
        show "explained pend (e # es) (Got None # rs) pend'" if "explained pend es rs pend'" for rs pend'
          using that unfolding empty TryDequeue by (rule explained_nothing)
      qed
    next
      case (Some x)
      then obtain tid q where head: "pend tid = x # q" and inv': "inv Q' (pend(tid := q)) (length es)" using r by auto
      show ?thesis
      proof (rule step [OF _ inv'])
        show "queue_step enq deq e Q = Inr (Got (Some x), Q')" using run Some TryDequeue by simp
        show "explained pend (e # es) (Got (Some x) # rs) pend'" if "explained (pend(tid := q)) es rs pend'" for rs pend'
          using explained_taken [OF head that] unfolding TryDequeue .
      qed
    qed
  qed
qed

end

section \<open>The list keeps the interface\<close>

definition list_enqueue :: "u64 \<Rightarrow> 'a \<Rightarrow> bool \<Rightarrow> 'a list \<Rightarrow> unit + (bool \<times> 'a list)" where
  "list_enqueue tid x ok q = Inr (True, tq_enqueue x q)"

definition list_try_dequeue :: "'a list \<Rightarrow> unit + ('a option \<times> 'a list)" where
  "list_try_dequeue q = (case tq_try_dequeue q of None \<Rightarrow> Inr (None, q) | Some (x, q) \<Rightarrow> Inr (Some x, q))"

text \<open>Every element of the list has the thread that put it in; those of one thread are its waiting elements.\<close>

definition shuffled :: "'a list \<Rightarrow> (u64 \<Rightarrow> 'a list) \<Rightarrow> nat \<Rightarrow> bool" where
  "shuffled q pend n \<longleftrightarrow> (\<exists>ps. q = map snd ps \<and> (\<forall>t. pend t = map snd (filter (\<lambda>p. fst p = t) ps)))"

interpretation lists: thread_queue list_enqueue list_try_dequeue shuffled
proof unfold_locales
  fix q :: "'a list" and pend :: "u64 \<Rightarrow> 'a list" and n tid x ok
  assume "shuffled q pend (Suc n)"
  then obtain ps where ps: "q = map snd ps" "\<forall>t. pend t = map snd (filter (\<lambda>p. fst p = t) ps)" by (auto simp: shuffled_def)
  then have "shuffled (tq_enqueue x q) (pend(tid := pend tid @ [x])) n"
    unfolding shuffled_def by (intro exI [of _ "ps @ [(tid, x)]"]) (auto simp: tq_enqueue_def)
  then show "\<exists>fine q'. list_enqueue tid x ok q = Inr (fine, q') \<and> shuffled q' (if fine then pend(tid := pend tid @ [x]) else pend) n \<and> (ok \<longrightarrow> fine)"
    by (intro exI [of _ True] exI [of _ "tq_enqueue x q"]) (simp add: list_enqueue_def)
next
  fix q :: "'a list" and pend :: "u64 \<Rightarrow> 'a list" and n
  assume "shuffled q pend (Suc n)"
  then obtain ps where ps: "q = map snd ps" "\<forall>t. pend t = map snd (filter (\<lambda>p. fst p = t) ps)" by (auto simp: shuffled_def)
  show "\<exists>r q'. list_try_dequeue q = Inr (r, q') \<and> (case r of None \<Rightarrow> pend = (\<lambda>_. []) \<and> shuffled q' pend n
      | Some x \<Rightarrow> \<exists>tid qs. pend tid = x # qs \<and> shuffled q' (pend(tid := qs)) n)"
  proof (cases ps)
    case Nil
    then have "q = []" "pend = (\<lambda>_. [])" using ps by auto
    then show ?thesis by (auto simp: list_try_dequeue_def shuffled_def)
  next
    case (Cons p ps')
    obtain t x where p: "p = (t, x)" by fastforce
    have "shuffled (map snd ps') (pend(t := map snd (filter (\<lambda>p. fst p = t) ps'))) n"
      unfolding shuffled_def using ps(2) Cons p by (intro exI [of _ ps']) auto
    moreover have "pend t = x # map snd (filter (\<lambda>p. fst p = t) ps')" using ps(2) Cons p by simp
    ultimately show ?thesis using ps(1) Cons p by (auto simp: list_try_dequeue_def)
  qed
qed

fun list_run :: "'a cq_event list \<Rightarrow> 'a list \<Rightarrow> 'a cq_result list" where
  "list_run [] q = []"
| "list_run (Enqueue tid x ok # es) q = Put True # list_run es (tq_enqueue x q)"
| "list_run (TryDequeue # es) q = (case tq_try_dequeue q of
      None \<Rightarrow> Got None # list_run es q
    | Some (x, q) \<Rightarrow> Got (Some x) # list_run es q)"

lemma list_run_results: "\<exists>q'. results_of (queue_step list_enqueue list_try_dequeue) es q = Inr (list_run es q, q')"
proof (induction es arbitrary: q)
  case (Cons e es)
  show ?case
  proof (cases e)
    case (Enqueue tid x ok)
    then show ?thesis using Cons.IH [of "tq_enqueue x q"] by (auto simp: list_enqueue_def)
  next
    case TryDequeue
    then show ?thesis using Cons.IH [of q] Cons.IH [of "tl q"] by (cases q) (auto simp: list_try_dequeue_def)
  qed
qed simp

text \<open>The results of the list are explained too, whatever threads use it.\<close>

lemma list_explained: "threads_named es \<Longrightarrow> \<exists>pend. explained (\<lambda>_. []) es (list_run es []) pend"
proof -
  assume named: "threads_named es"
  have "shuffled ([] :: 'a list) (\<lambda>_. []) (length es)" by (auto simp: shuffled_def)
  then show ?thesis using lists.run_explained [OF _ named] list_run_results [of es "[]"] by fastforce
qed

section \<open>Consequences for users\<close>

definition by_thread :: "u64 \<Rightarrow> 'a cq_event \<Rightarrow> bool" where
  "by_thread t e \<longleftrightarrow> (case e of Enqueue tid x ok \<Rightarrow> tid = t | TryDequeue \<Rightarrow> False)"

definition only_thread :: "u64 \<Rightarrow> 'a cq_event list \<Rightarrow> bool" where
  "only_thread t es \<longleftrightarrow> (\<forall>tid x ok. Enqueue tid x ok \<in> set es \<longrightarrow> tid = t)"

definition with_memory :: "'a cq_event list \<Rightarrow> bool" where
  "with_memory es \<longleftrightarrow> (\<forall>tid x ok. Enqueue tid x ok \<in> set es \<longrightarrow> ok)"

lemma by_thread_simps [simp]: "by_thread t (Enqueue tid x ok) \<longleftrightarrow> tid = t" "\<not> by_thread t TryDequeue"
  by (simp_all add: by_thread_def)

lemma with_memory_simps [simp]:
  "with_memory []" "with_memory (Enqueue tid x ok # es) \<longleftrightarrow> ok \<and> with_memory es" "with_memory (TryDequeue # es) \<longleftrightarrow> with_memory es"
  by (auto simp: with_memory_def)

lemma only_thread_simps [simp]:
  "only_thread t []" "only_thread t (Enqueue tid x ok # es) \<longleftrightarrow> tid = t \<and> only_thread t es"
  "only_thread t (TryDequeue # es) \<longleftrightarrow> only_thread t es"
  by (auto simp: only_thread_def)

lemma one_list:
  "explained pend es rs pend' \<Longrightarrow> with_memory es \<Longrightarrow> only_thread tid es \<Longrightarrow> \<forall>t. t \<noteq> tid \<longrightarrow> pend t = [] \<Longrightarrow> rs = list_run es (pend tid)"
proof (induction rule: explained.induct)
  case (explained_put pend t x es rs pend' ok)
  have t: "t = tid" using explained_put.prems(2) by simp
  have "rs = list_run es ((pend(t := pend t @ [x])) tid)"
    by (rule explained_put.IH) (use explained_put.prems t in simp_all)
  then show ?case using t by (simp add: tq_enqueue_def)
next
  case (explained_taken pend t x q es rs pend')
  then have t: "t = tid" by (cases "t = tid") simp_all
  have "rs = list_run es ((pend(t := q)) tid)"
    by (rule explained_taken.IH) (use explained_taken.prems t in simp_all)
  then show ?case using t explained_taken.hyps by simp
qed auto

fun gots :: "'a cq_result list \<Rightarrow> 'a option list" where
  "gots [] = []"
| "gots (Put b # rs) = gots rs"
| "gots (Got r # rs) = r # gots rs"

text \<open>Elements that nobody took are put in at the end, thread by thread.\<close>

lemma leftover:
  assumes "finite {t. pend t \<noteq> []}"
  obtains es where "\<And>t. filter (by_thread t) es = map (\<lambda>x. Enqueue t x True) (pend t)" and "\<And>q. gots (list_run es q) = []"
proof -
  obtain ts where ts: "set ts = {t. pend t \<noteq> []}" "distinct ts" using assms finite_distinct_list by blast
  let ?of = "\<lambda>t. map (\<lambda>x. Enqueue t x True) (pend t)"
  have one: "filter (by_thread s) (?of t) = (if s = t then ?of t else [])" for s t
    by (auto simp: filter_map comp_def intro: filter_False)
  have "distinct ts \<Longrightarrow> filter (by_thread t) (concat (map ?of ts)) = (if t \<in> set ts then ?of t else [])" for t ts
    by (induction ts) (auto simp: one)
  then have "filter (by_thread t) (concat (map ?of ts)) = ?of t" for t using ts by simp
  moreover have puts: "gots (list_run (?of t @ es) q) = gots (list_run es (q @ pend t))" for t es q
  proof -
    have "gots (list_run (map (\<lambda>x. Enqueue t x True) xs @ es) q) = gots (list_run es (q @ xs))" for xs
      by (induction xs arbitrary: q) (simp_all add: tq_enqueue_def)
    then show ?thesis by simp
  qed
  have "gots (list_run (concat (map ?of ts)) q) = []" for q
    by (induction ts arbitrary: q) (simp_all add: puts)
  ultimately show thesis by (rule that)
qed

lemma delayed:
  "explained pend es rs pend' \<Longrightarrow> with_memory es \<Longrightarrow> finite {t. pend t \<noteq> []} \<Longrightarrow>
    \<exists>es'. (\<forall>t. filter (by_thread t) es' = map (\<lambda>x. Enqueue t x True) (pend t) @ filter (by_thread t) es) \<and>
      gots (list_run es' []) = gots rs"
proof (induction rule: explained.induct)
  case (explained_end pend)
  then obtain es where "\<And>t. filter (by_thread t) es = map (\<lambda>x. Enqueue t x True) (pend t)" "gots (list_run es []) = []"
    using leftover by metis
  then show ?case by auto
next
  case (explained_put pend tid x es rs pend' ok)
  have "{t. (pend(tid := pend tid @ [x])) t \<noteq> []} \<subseteq> insert tid {t. pend t \<noteq> []}" by auto
  then have "finite {t. (pend(tid := pend tid @ [x])) t \<noteq> []}" by (rule finite_subset) (use explained_put.prems in simp)
  then obtain es' where "\<forall>t. filter (by_thread t) es' = map (\<lambda>x. Enqueue t x True) ((pend(tid := pend tid @ [x])) t) @ filter (by_thread t) es"
    "gots (list_run es' []) = gots rs" using explained_put.IH explained_put.prems by auto
  then show ?case using explained_put.prems(1) by (intro exI [of _ es']) simp
next
  case (explained_taken pend tid x q es rs pend')
  have "{t. (pend(tid := q)) t \<noteq> []} \<subseteq> insert tid {t. pend t \<noteq> []}" by auto
  then have "finite {t. (pend(tid := q)) t \<noteq> []}" by (rule finite_subset) (use explained_taken.prems in simp)
  then obtain es' where "\<forall>t. filter (by_thread t) es' = map (\<lambda>x. Enqueue t x True) ((pend(tid := q)) t) @ filter (by_thread t) es"
    "gots (list_run es' []) = gots rs" using explained_taken.IH explained_taken.prems by auto
  then show ?case using explained_taken.hyps(1)
    by (intro exI [of _ "Enqueue tid x True # TryDequeue # es'"]) (simp add: tq_enqueue_def)
next
  case (explained_nothing es rs pend')
  then obtain es' where "\<forall>t. filter (by_thread t) es' = filter (by_thread t) es" "gots (list_run es' []) = gots rs" by auto
  then show ?case by (intro exI [of _ "TryDequeue # es'"]) simp
qed simp

end
