(* ===== verification/Cq_Runs.thy ===== *)
theory Cq_Runs
  imports Cq_Order Cq_Contract
begin

text \<open>
  The queue over whole runs: from its construction on, any sequence of operations of any threads, with memory there or not. No
  operation faults, and the queue keeps the interface of theory \<open>Cq_Contract\<close>; so what \<open>try_dequeue\<close> gives is explained by one first-in-first-out
  list per thread, a run of one thread is a run of the list of theory \<open>Event_Queue\<close>, and a run of several threads is one of that list in which some
  elements arrive later, those of each thread still in order.
\<close>

text \<open>The bound: no more producers than the table may have, no list as long as half the counters.\<close>

definition within :: "'a cqueue \<Rightarrow> (u64 \<Rightarrow> 'a list) \<Rightarrow> nat \<Rightarrow> bool" where
  "within Q pend n \<longleftrightarrow> length (producers Q) + n + 1 < 2 ^ 61 \<and> (\<forall>t. length (pend t) + n + 64 < 2 ^ 63)"

lemma within_step:
  assumes "within Q pend (Suc n)" and "length (producers Q') \<le> length (producers Q) + 1"
    and "\<And>t. length (pend' t) \<le> length (pend t) + 1"
  shows "within Q' pend' n"
  unfolding within_def
proof (intro conjI allI)
  show "length (producers Q') + n + 1 < 2 ^ 61" using assms(1,2) by (simp add: within_def)
  fix t
  have "length (pend t) + Suc n + 64 < 2 ^ 63" using assms(1) by (simp add: within_def)
  then show "length (pend' t) + n + 64 < 2 ^ 63" using assms(3) [of t] by linarith
qed

text \<open>The queue keeps the interface.\<close>

abbreviation cq_put :: "u64 \<Rightarrow> 'a \<Rightarrow> bool \<Rightarrow> 'a cqueue \<Rightarrow> cq_fault + (bool \<times> 'a cqueue)" where
  "cq_put tid x ok \<equiv> cq_enqueue (\<lambda>_. ok) tid x"

interpretation cq: thread_queue cq_put cq_try_dequeue "\<lambda>Q pend n. queue_inv Q pend \<and> within Q pend n"
proof unfold_locales
  fix Q :: "'a cqueue" and pend :: "u64 \<Rightarrow> 'a list" and n :: nat and tid :: u64 and x ok
  assume "queue_inv Q pend \<and> within Q pend (Suc n)" and tid: "tid \<noteq> 0"
  then have inv: "queue_inv Q pend" and bound: "within Q pend (Suc n)" by simp_all
  have few: "length (producers Q) + 1 < 2 ^ 61" using bound by (simp add: within_def)
  have "length (pend tid) + Suc n + 64 < 2 ^ 63" using bound by (simp add: within_def)
  then have room: "length (pend tid) + 64 < 2 ^ 63" by linarith
  obtain fine Q' where run: "cq_put tid x ok Q = Inr (fine, Q')"
    and inv': "queue_inv Q' (if fine then pend(tid := pend tid @ [x]) else pend)"
    and len: "length (producers Q') \<le> length (producers Q) + 1" and enough: "ok \<longrightarrow> fine"
    using enqueue_pending [OF inv tid few, of "\<lambda>_. ok" x] room by auto
  have "within Q' (if fine then pend(tid := pend tid @ [x]) else pend) n" by (rule within_step [OF bound len]) simp
  then show "\<exists>fine Q'. cq_put tid x ok Q = Inr (fine, Q') \<and>
      (queue_inv Q' (if fine then pend(tid := pend tid @ [x]) else pend) \<and> within Q' (if fine then pend(tid := pend tid @ [x]) else pend) n) \<and>
      (ok \<longrightarrow> fine)"
    using run inv' enough by blast
next
  fix Q :: "'a cqueue" and pend :: "u64 \<Rightarrow> 'a list" and n :: nat
  assume "queue_inv Q pend \<and> within Q pend (Suc n)"
  then have inv: "queue_inv Q pend" and bound: "within Q pend (Suc n)" by simp_all
  obtain r Q' where run: "cq_try_dequeue Q = Inr (r, Q')" and len: "length (producers Q') = length (producers Q)"
    and r: "case r of None \<Rightarrow> pend = (\<lambda>_. []) \<and> Q' = Q
     | Some x \<Rightarrow> \<exists>tid q. pend tid = x # q \<and> queue_inv Q' (pend(tid := q))"
    using dequeue_pending [OF inv] by blast
  have "case r of None \<Rightarrow> pend = (\<lambda>_. []) \<and> queue_inv Q' pend \<and> within Q' pend n
    | Some x \<Rightarrow> \<exists>tid q. pend tid = x # q \<and> queue_inv Q' (pend(tid := q)) \<and> within Q' (pend(tid := q)) n"
  proof (cases r)
    case None
    have "within Q' pend n" by (rule within_step [OF bound]) (simp_all add: len)
    then show ?thesis using None r inv by simp
  next
    case (Some x)
    then obtain tid q where q: "pend tid = x # q" "queue_inv Q' (pend(tid := q))" using r by auto
    have "within Q' (pend(tid := q)) n" by (rule within_step [OF bound]) (simp_all add: len q(1))
    then show ?thesis using Some q by auto
  qed
  then show "\<exists>r Q'. cq_try_dequeue Q = Inr (r, Q') \<and>
      (case r of None \<Rightarrow> pend = (\<lambda>_. []) \<and> queue_inv Q' pend \<and> within Q' pend n
       | Some x \<Rightarrow> \<exists>tid q. pend tid = x # q \<and> queue_inv Q' (pend(tid := q)) \<and> within Q' (pend(tid := q)) n)"
    using run by blast
qed

definition cq_run :: "'a cq_event list \<Rightarrow> 'a cqueue \<Rightarrow> cq_fault + ('a cq_result list \<times> 'a cqueue)" where
  "cq_run = results_of (queue_step cq_put cq_try_dequeue)"

lemma new_within: "n < 2 ^ 60 \<Longrightarrow> within (cqueue_new mem) (\<lambda>_. []) n"
  by (simp add: within_def cqueue_new_def Let_def populate_initial_implicit_producer_hash_def)

lemma run_from_new:
  assumes "threads_named es" and "length es < 2 ^ 60"
  obtains rs Q pend where "cq_run es (cqueue_new mem) = Inr (rs, Q)" and "explained (\<lambda>_. []) es rs pend" and "queue_inv Q pend"
  using cq.run_explained [OF conjI [OF new_queue new_within [OF assms(2)]] assms(1)] that unfolding cq_run_def by blast



text \<open>
  Property C11. Used by one thread that has memory, the queue is the list of theory \<open>Event_Queue\<close>, by which the other theories
  model it: the same results, operation by operation.
\<close>

theorem one_thread_fifo:
  assumes "tid \<noteq> 0" and "only_thread tid es" and "with_memory es" and "length es < 2 ^ 60"
  shows "\<exists>Q. cq_run es (cqueue_new mem) = Inr (list_run es [], Q)"
proof -
  have "threads_named es" using assms(1,2) unfolding threads_named_def only_thread_def by metis
  then obtain rs Q pend where run: "cq_run es (cqueue_new mem) = Inr (rs, Q)" and ex: "explained (\<lambda>_. []) es rs pend"
    by (rule run_from_new [OF _ assms(4)])
  have "rs = list_run es []" using one_list [OF ex assms(3,2)] by simp
  then show ?thesis using run by blast
qed

theorem one_thread_fifo_witness:
  "\<exists>Q. cq_run [Enqueue 7 CHR ''a'' True, TryDequeue, TryDequeue] (cqueue_new (\<lambda>_. True)) =
    Inr (list_run [Enqueue 7 CHR ''a'' True, TryDequeue, TryDequeue] [], Q)"
  by (rule one_thread_fifo [of 7]) simp_all

text \<open>
  Property C12. Used by several threads, the queue gives what the list gives when elements may arrive later than they were put in,
  each thread's in order: the same results of \<open>try_dequeue\<close> for some order of arrival. A model in which the arrivals of
  different threads interleave freely misses no behaviour of the queue.
\<close>

theorem late_arrivals:
  assumes "threads_named es" and "with_memory es" and "length es < 2 ^ 60"
  shows "\<exists>es' rs Q. cq_run es (cqueue_new mem) = Inr (rs, Q) \<and> (\<forall>t. filter (by_thread t) es' = filter (by_thread t) es) \<and>
    gots rs = gots (list_run es' [])"
proof -
  obtain rs Q pend where run: "cq_run es (cqueue_new mem) = Inr (rs, Q)" and ex: "explained (\<lambda>_. []) es rs pend"
    by (rule run_from_new [OF assms(1,3)])
  then show ?thesis using delayed [OF ex assms(2)] by auto
qed

theorem late_arrivals_witness:
  "\<exists>es' rs Q. cq_run [Enqueue 1 CHR ''a'' True, Enqueue 2 CHR ''b'' True, TryDequeue] (cqueue_new (\<lambda>_. True)) = Inr (rs, Q) \<and>
    (\<forall>t. filter (by_thread t) es' = filter (by_thread t) [Enqueue 1 CHR ''a'' True, Enqueue 2 CHR ''b'' True, TryDequeue]) \<and>
    gots rs = gots (list_run es' [])"
  by (rule late_arrivals) simp_all

text \<open>
  What is not kept is the order between threads: \<open>a\<close> was put in before \<open>b\<close> and \<open>c\<close> and is taken after them, because the producer that
  holds more is served first.
\<close>

lemma order_between_threads_not_kept:
  "case cq_run [Enqueue 1 CHR ''a'' True, Enqueue 2 CHR ''b'' True, Enqueue 2 CHR ''c'' True, TryDequeue, TryDequeue] (cqueue_new (\<lambda>_. True)) of
    Inl _ \<Rightarrow> False
  | Inr (rs, _) \<Rightarrow> rs = [Put True, Put True, Put True, Got (Some CHR ''b''), Got (Some CHR ''c'')]"
  by code_simp

text \<open>
  The constructor of a producer does not look at what \<open>new_block_index\<close> returned: when the producer itself could be allocated but not its index,
  the first \<open>enqueue\<close> follows the null pointer, where every other lack of memory makes it return \<open>false\<close>.
\<close>

lemma index_allocation_fails:
  "cq_enqueue (\<lambda>n. n \<noteq> 2) 1 CHR ''a'' (cqueue_new (\<lambda>n. n \<noteq> 2)) = Inl NullPointer"
  by code_simp

end
