(* ===== verification/Cq_Destroy.thy ===== *)
theory Cq_Destroy
  imports Cq_Runs "HOL-Library.Multiset"
begin

text \<open>
  The end of a queue: after any run, the destructor destroys every element that was put in and not taken, and frees every block
  that was allocated on its own, each once. The initial pool is one array, and is freed as such.
\<close>

section \<open>The producers\<close>

definition same_shape :: "'a cq_pool \<Rightarrow> 'a cq_pool \<Rightarrow> bool" where
  "same_shape p p' \<longleftrightarrow> length (blocks p') = length (blocks p) \<and> initialBlockPoolSize p' = initialBlockPoolSize p"

lemma same_shape_trans: "same_shape p p' \<Longrightarrow> same_shape p' p'' \<Longrightarrow> same_shape p p''"
  by (simp add: same_shape_def)

lemma add_keeps: "add_block_to_free_list n p = Inr p' \<Longrightarrow> same_shape p p'"
  by (auto simp: add_block_to_free_list_def free_list_add_def add_knowing_refcount_is_zero_def map_block_def same_shape_def Let_def fault_simps
      split: if_splits)

lemma destroy_elements_keeps: "ip_destroy_elements pr index block p = Inr (xs, p') \<Longrightarrow> same_shape p p'"
proof (induction pr index block p arbitrary: xs p' rule: ip_destroy_elements.induct)
  case (1 pr index block p)
  show ?case
  proof (cases "index = tailIndex pr")
    case True
    then show ?thesis using "1.prems" by (simp add: ip_destroy_elements.simps same_shape_def)
  next
    case False
    obtain block1 p1 n b el b' ys where cb: "(if index AND 31 = 0 \<or> block = None then
           bindE (free_old_block block p) (\<lambda>p. bindE (block_of_index index pr) (\<lambda>block. Inr (block, p)))
         else Inr (block, p)) = Inr (block1, p1)"
      and steps: "non_null block1 = Inr n" "fetch BadPointer (blocks p1) n = Inr b" "block_take index b = Inr (el, b')"
      and rest: "ip_destroy_elements pr (index + 1) block1 (p1\<lparr>blocks := (blocks p1)[n := b']\<rparr>) = Inr (ys, p')"
      using "1.prems" False by (subst (asm) ip_destroy_elements.simps) (auto simp: fault_simps)
    have "same_shape p p1" using cb
      by (auto simp: fault_simps free_old_block_def same_shape_def split: if_splits option.splits dest!: add_keeps)
    moreover have "same_shape (p1\<lparr>blocks := (blocks p1)[n := b']\<rparr>) p'"
      using "1.IH" [OF False cb refl steps refl rest] by simp
    ultimately show ?thesis by (simp add: same_shape_def)
  qed
qed

lemma destroy_keeps: "ip_destroy pr p = Inr (xs, p') \<Longrightarrow> same_shape p p'"
  by (auto simp: ip_destroy_def Let_def fault_simps split: option.splits if_splits
      dest!: destroy_elements_keeps add_keeps intro: same_shape_trans)

lemma destroy_producers_ok:
  fixes hh :: "nat \<Rightarrow> nat" and qs :: "nat \<Rightarrow> 'a list" and bls :: "nat \<Rightarrow> nat \<Rightarrow> nat"
  shows "pool_ok p fl (\<Union>a \<in> set as. holds hh qs bls a) \<Longrightarrow> distinct as \<Longrightarrow>
    \<forall>a \<in> set as. a < length prs \<and> producer_ok (prs ! a) (hh a) (qs a) (bls a) \<and> stored p (hh a) (qs a) (bls a) \<Longrightarrow>
    \<forall>a \<in> set as. \<forall>b \<in> set as. a \<noteq> b \<longrightarrow> holds hh qs bls a \<inter> holds hh qs bls b = {} \<Longrightarrow>
    \<exists>p' fl'. destroy_producers prs as p = Inr (concat (map qs as), p') \<and> pool_ok p' fl' {} \<and> same_shape p p'"
proof (induction as arbitrary: p fl)
  case Nil
  then show ?case by (auto simp: same_shape_def)
next
  case (Cons a as)
  let ?live = "\<Union>a \<in> set (a # as). holds hh qs bls a"
  have pr: "producer_ok (prs ! a) (hh a) (qs a) (bls a)" "stored p (hh a) (qs a) (bls a)" and a: "a < length prs" using Cons.prems by auto
  have sub: "held (hh a) (qs a) (bls a) \<subseteq> ?live" by (auto simp: holds_def)
  obtain p1 fl1 where run: "ip_destroy (prs ! a) p = Inr (qs a, p1)"
    and pool1: "pool_ok p1 fl1 (?live - held (hh a) (qs a) (bls a))"
    and frame: "\<forall>n \<in> ?live - held (hh a) (qs a) (bls a). blocks p1 ! n = blocks p ! n"
    using destroy_ok [OF pr Cons.prems(1) sub] by blast
  have apart: "holds hh qs bls b \<inter> held (hh a) (qs a) (bls a) = {}" if "b \<in> set as" for b
  proof -
    have "b \<noteq> a" using that Cons.prems(2) by auto
    then have "holds hh qs bls b \<inter> holds hh qs bls a = {}" using Cons.prems(4) that by (meson list.set_intros)
    then show ?thesis by (simp add: holds_def)
  qed
  have live: "?live - held (hh a) (qs a) (bls a) = (\<Union>b \<in> set as. holds hh qs bls b)" using apart by (auto simp: holds_def)
  have "stored p1 (hh b) (qs b) (bls b)" if b: "b \<in> set as" for b
  proof (rule stored_frame)
    show "stored p (hh b) (qs b) (bls b)" using Cons.prems(3) b by simp
    fix n assume "n \<in> held (hh b) (qs b) (bls b)"
    then have "n \<in> ?live - held (hh a) (qs a) (bls a)" using live b by (auto simp: holds_def)
    then show "blocks p1 ! n = blocks p ! n" using frame by blast
  qed
  then have "\<forall>b \<in> set as. b < length prs \<and> producer_ok (prs ! b) (hh b) (qs b) (bls b) \<and> stored p1 (hh b) (qs b) (bls b)"
    using Cons.prems(3) by simp
  then obtain p' fl' where "destroy_producers prs as p1 = Inr (concat (map qs as), p')" "pool_ok p' fl' {}" "same_shape p1 p'"
    using Cons.IH [of p1 fl1] pool1 Cons.prems(2,4) unfolding live by auto
  then show ?case using run a destroy_keeps [OF run] same_shape_trans by auto
qed

section \<open>The free list\<close>

lemma destroy_free_list_ok:
  "chain (blocks p) q ns \<Longrightarrow> length ns \<le> k \<Longrightarrow>
    destroy_free_list k q p = Inr (filter (\<lambda>n. dynamicallyAllocated (blocks p ! n)) ns)"
proof (induction ns arbitrary: q k)
  case Nil
  then show ?case by (cases q; cases k) auto
next
  case (Cons n ns)
  then obtain k' where "k = Suc k'" by (cases k) auto
  then show ?case using Cons by (cases q) auto
qed

definition own_blocks :: "'a cq_pool \<Rightarrow> nat set" where
  "own_blocks p = {n. n < length (blocks p) \<and> dynamicallyAllocated (blocks p ! n)}"

lemma own_blocks_ok: "pool_ok p fl live \<Longrightarrow> own_blocks p = {unat (initialBlockPoolSize p)..<length (blocks p)}"
  by (auto simp: own_blocks_def pool_ok_def)

lemma delete_ok:
  assumes ok: "queue_ok reg hh qs bls fl Q"
  shows "\<exists>ns. cqueue_delete Q = Inr (concat (map qs (rev [0..<length (producers Q)])), length (hashes Q) - 1, ns) \<and>
    distinct ns \<and> set ns = own_blocks (qpool Q)"
proof -
  let ?N = "length (producers Q)" and ?as = "rev [0..<length (producers Q)]"
  have parts: "parts_ok (producers Q) (qpool Q) hh qs bls fl" and tail: "producerListTail Q = ?as"
    using ok by (simp_all add: queue_ok_def names_ok_def)
  have "set ?as = {..<?N}" by auto
  then have pool: "pool_ok (qpool Q) fl (\<Union>a \<in> set ?as. holds hh qs bls a)" using parts by (simp add: parts_ok_def)
  then obtain p fl' where run: "destroy_producers (producers Q) ?as (qpool Q) = Inr (concat (map qs ?as), p)"
    and pool': "pool_ok p fl' {}" and shape: "same_shape (qpool Q) p"
    using destroy_producers_ok [OF pool, of "producers Q"] parts by (auto simp: parts_ok_def)
  let ?ns = "filter (\<lambda>n. dynamicallyAllocated (blocks p ! n)) fl'"
  have dist: "distinct fl'" and chain: "chain (blocks p) (freeListHead p) fl'" using pool' by (simp_all add: pool_ok_def)
  have "set fl' \<subseteq> {..<length (blocks p)}" using chain by (rule chain_bound)
  then have "card (set fl') \<le> length (blocks p)" by (metis card_lessThan card_mono finite_lessThan)
  then have "length fl' \<le> length (blocks p)" using dist by (simp add: distinct_card)
  then have list: "destroy_free_list (length (blocks p)) (freeListHead p) p = Inr ?ns"
    by (rule destroy_free_list_ok [OF chain])
  have all: "set fl' \<union> {unat (initialBlockPoolIndex p)..<unat (initialBlockPoolSize p)} = {..<length (blocks p)}"
    using pool' by (simp add: pool_ok_def)
  have "n \<in> set fl' \<longleftrightarrow> n < length (blocks p)" if "n \<in> own_blocks p" for n
  proof -
    have "n \<notin> {unat (initialBlockPoolIndex p)..<unat (initialBlockPoolSize p)}" using that own_blocks_ok [OF pool'] by simp
    then show ?thesis using all by (metis UnCI UnE lessThan_iff)
  qed
  then have "set ?ns = own_blocks p" using all by (auto simp: own_blocks_def)
  then have "set ?ns = {unat (initialBlockPoolSize p)..<length (blocks p)}" using own_blocks_ok [OF pool'] by simp
  then have "set ?ns = own_blocks (qpool Q)" using own_blocks_ok [OF pool] shape by (simp add: same_shape_def)
  moreover have "cqueue_delete Q = Inr (concat (map qs ?as), length (hashes Q) - 1, ?ns)"
    using run list unfolding cqueue_delete_def tail by simp
  ultimately show ?thesis using dist by auto
qed

section \<open>Nothing lost, nothing twice\<close>

text \<open>The elements put in and those taken out.\<close>

fun puts :: "'a cq_event list \<Rightarrow> 'a cq_result list \<Rightarrow> 'a list" where
  "puts (Enqueue tid x ok # es) (Put True # rs) = x # puts es rs"
| "puts (e # es) (r # rs) = puts es rs"
| "puts es rs = []"

fun takes :: "'a cq_result list \<Rightarrow> 'a list" where
  "takes [] = []"
| "takes (Got (Some x) # rs) = x # takes rs"
| "takes (r # rs) = takes rs"

definition waiting :: "(u64 \<Rightarrow> 'a list) \<Rightarrow> 'a multiset" where
  "waiting pend = (\<Sum>t \<in> UNIV. mset (pend t))"

lemma waiting_upd: "waiting (pend(t := q)) + mset (pend t) = waiting pend + mset q"
proof -
  have "waiting f = (\<Sum>s \<in> UNIV - {t}. mset (f s)) + mset (f t)" for f :: "u64 \<Rightarrow> 'a list"
    unfolding waiting_def by (simp add: sum.remove [of UNIV t] add.commute)
  then show ?thesis by simp
qed

lemma balance: "explained pend es rs pend' \<Longrightarrow> waiting pend + mset (puts es rs) = mset (takes rs) + waiting pend'"
proof (induction rule: explained.induct)
  case (explained_put pend tid x es rs pend' ok)
  have "waiting (pend(tid := pend tid @ [x])) = waiting pend + {#x#}"
    using waiting_upd [of pend tid "pend tid @ [x]"] by simp
  then show ?case using explained_put.IH by (simp del: fun_upd_apply)
next
  case (explained_taken pend tid x q es rs pend')
  have "waiting pend = waiting (pend(tid := q)) + {#x#}"
    using waiting_upd [of pend tid q] explained_taken.hyps(1) by simp
  then show ?case using explained_taken.IH by (simp del: fun_upd_apply)
qed auto

lemma waiting_pending:
  assumes "names_ok reg Q"
  shows "waiting (pending reg qs) = mset (concat (map qs (rev [0..<length (producers Q)])))"
proof -
  let ?N = "length (producers Q)"
  have one: "inj_on reg (dom reg)" and ran: "ran reg = {..<?N}" using assms by (simp_all add: names_ok_def)
  have inj: "inj_on (\<lambda>t. the (reg t)) (dom reg)"
  proof (rule inj_onI)
    fix s t assume d: "s \<in> dom reg" "t \<in> dom reg" and "the (reg s) = the (reg t)"
    then have "reg s = reg t" by (metis domD option.sel)
    then show "s = t" using d by (rule inj_onD [OF one])
  qed
  have im: "(\<lambda>t. the (reg t)) ` dom reg = {..<?N}" unfolding ran [symmetric] by (force simp: ran_def)
  have "waiting (pending reg qs) = (\<Sum>t \<in> dom reg. mset (pending reg qs t))"
    unfolding waiting_def by (rule sum.mono_neutral_right) (auto simp: pending_def split: option.splits)
  also have "\<dots> = (\<Sum>t \<in> dom reg. mset (qs (the (reg t))))"
    by (rule sum.cong) (auto simp: pending_def)
  also have "\<dots> = (\<Sum>i \<in> {..<?N}. mset (qs i))"
    unfolding im [symmetric] using sum.reindex [OF inj, of "\<lambda>i. mset (qs i)"] by (simp add: comp_def)
  also have "\<dots> = mset (concat (map qs (rev [0..<?N])))"
  proof -
    have "(\<Sum>i \<in> {..<n}. mset (qs i)) = mset (concat (map qs (rev [0..<n])))" for n
      by (induction n) (simp_all add: lessThan_Suc)
    then show ?thesis .
  qed
  finally show ?thesis .
qed

text \<open>
  Property C13. Whatever was done with the queue, its destructor ends without fault, destroys exactly the elements that were put in and never taken, and
  frees each block allocated on its own once: no element and no block is lost, none is taken, destroyed or freed twice.
\<close>

theorem queue_destroyed:
  assumes "threads_named es" and "length es < 2 ^ 60"
  shows "\<exists>rs Q xs ns. cq_run es (cqueue_new mem) = Inr (rs, Q) \<and> cqueue_delete Q = Inr (xs, length (hashes Q) - 1, ns) \<and>
    mset (puts es rs) = mset (takes rs) + mset xs \<and> distinct ns \<and> set ns = own_blocks (qpool Q)"
proof -
  obtain rs Q pend where run: "cq_run es (cqueue_new mem) = Inr (rs, Q)" and ex: "explained (\<lambda>_. []) es rs pend"
    and inv: "queue_inv Q pend" by (rule run_from_new [OF assms])
  obtain reg hh qs bls fl where ok: "queue_ok reg hh qs bls fl Q" and pend: "pend = pending reg qs"
    using inv by (auto simp: queue_inv_def)
  have "names_ok reg Q" using ok by (simp add: queue_ok_def)
  then have "waiting pend = mset (concat (map qs (rev [0..<length (producers Q)])))" unfolding pend by (rule waiting_pending)
  moreover have "waiting (\<lambda>_. [] :: 'a list) = {#}" by (simp add: waiting_def)
  ultimately have "mset (puts es rs) = mset (takes rs) + mset (concat (map qs (rev [0..<length (producers Q)])))"
    using balance [OF ex] by simp
  then show ?thesis using run delete_ok [OF ok] by blast
qed

theorem queue_destroyed_witness:
  "\<exists>rs Q xs ns. cq_run [Enqueue 1 CHR ''a'' True, Enqueue 2 CHR ''b'' True, TryDequeue] (cqueue_new (\<lambda>_. False)) = Inr (rs, Q) \<and>
    cqueue_delete Q = Inr (xs, length (hashes Q) - 1, ns) \<and>
    mset (puts [Enqueue 1 CHR ''a'' True, Enqueue 2 CHR ''b'' True, TryDequeue] rs) = mset (takes rs) + mset xs \<and> distinct ns \<and>
    set ns = own_blocks (qpool Q)"
  by (rule queue_destroyed) simp_all

end
