(* ===== verification/Cq_Tickets.thy ===== *)
theory Cq_Tickets
  imports Cq_Producer
begin

text \<open>
  Several consumers of one producer at once. \<open>dequeue\<close> synchronises its callers by the counters alone: a caller draws a
  ticket from \<open>dequeueOptimisticCount\<close>, decides from it whether there is an element for it, and if so draws an index from
  \<open>headIndex\<close>, if not counts itself in \<open>dequeueOvercommit\<close>. Here each access to a counter is a step of its own, in any
  interleaving with those of other callers and of the producer; memory is sequentially consistent.
\<close>

section \<open>Steps\<close>

text \<open>Where a caller is in \<open>dequeue\<close>, with the local variables it still has use for (and its ticket).\<close>

datatype consumer =
    AtStart
  | HasTail u64
  | HasBoth u64 u64
  | Optimistic u64
  | Ticket u64 u64
  | Granted u64
  | TooMany u64
  | HasIndex u64
  | FoundNothing

fun consumer_step :: "consumer \<Rightarrow> cq_producer \<Rightarrow> cq_fault + (consumer \<times> cq_producer)" where
  "consumer_step AtStart pr = Inr (HasTail (tailIndex pr), pr)"
| "consumer_step (HasTail tail) pr = Inr (HasBoth tail (dequeueOvercommit pr), pr)"
| "consumer_step (HasBoth tail overcommit) pr =
    Inr (if circular_less_than (dequeueOptimisticCount pr - overcommit) tail then Optimistic overcommit else FoundNothing, pr)"
| "consumer_step (Optimistic overcommit) pr = (let myDequeueCount = dequeueOptimisticCount pr in
    bindE (assertion (overcommit \<le> myDequeueCount)) (\<lambda>_.
    Inr (Ticket overcommit myDequeueCount, pr\<lparr>dequeueOptimisticCount := myDequeueCount + 1\<rparr>)))"
| "consumer_step (Ticket overcommit myDequeueCount) pr =
    Inr (if circular_less_than (myDequeueCount - overcommit) (tailIndex pr) then Granted myDequeueCount else TooMany myDequeueCount, pr)"
| "consumer_step (Granted myDequeueCount) pr = Inr (HasIndex (headIndex pr), pr\<lparr>headIndex := headIndex pr + 1\<rparr>)"
| "consumer_step (TooMany myDequeueCount) pr = Inr (FoundNothing, pr\<lparr>dequeueOvercommit := dequeueOvercommit pr + 1\<rparr>)"
| "consumer_step (HasIndex index) pr = Inr (AtStart, pr)"
| "consumer_step FoundNothing pr = Inr (AtStart, pr)"

text \<open>What a caller does with its index, up to its return.\<close>

definition ip_take :: "u64 \<Rightarrow> cq_producer \<Rightarrow> 'a cq_pool \<Rightarrow> cq_fault + ('a option \<times> cq_producer \<times> 'a cq_pool)" where
  "ip_take index pr p =
    bindE (get_block_index_entry_for_index index pr) (\<lambda>entry.
    bindE (fetch BadPointer (ientries pr) entry) (\<lambda>e.
    bindE (entry_load e) (\<lambda>v.
    bindE (non_null v) (\<lambda>block.
    bindE (fetch BadPointer (blocks p) block) (\<lambda>b.
    bindE (block_take index b) (\<lambda>(el, b).
    bindE (block_set_empty b) (\<lambda>(emptied, b).
    let p = p\<lparr>blocks := (blocks p)[block := b]\<rparr> in
    if emptied then
      bindE (entry_store entry None pr) (\<lambda>pr.
      bindE (add_block_to_free_list block p) (\<lambda>p. Inr (Some el, pr, p)))
    else Inr (Some el, pr, p))))))))"

fun consumer_alone :: "nat \<Rightarrow> consumer \<Rightarrow> cq_producer \<Rightarrow> cq_fault + (consumer \<times> cq_producer)" where
  "consumer_alone 0 c pr = Inr (c, pr)"
| "consumer_alone (Suc n) c pr = (case c of
      HasIndex i \<Rightarrow> Inr (c, pr)
    | FoundNothing \<Rightarrow> Inr (c, pr)
    | _ \<Rightarrow> bindE (consumer_step c pr) (\<lambda>(c, pr). consumer_alone n c pr))"

text \<open>
  The steps of one caller, uninterrupted, and the use of the index they end with are the operation \<open>dequeue\<close> of theory
  \<open>Cq_Producer\<close>, its faults included.
\<close>

lemma dequeue_is_its_steps:
  "ip_dequeue pr p = bindE (consumer_alone 6 AtStart pr) (\<lambda>(c, pr). case c of
      HasIndex i \<Rightarrow> ip_take i pr p
    | _ \<Rightarrow> Inr (None, pr, p))"
  by (simp add: ip_dequeue_def ip_take_def numeral_eq_Suc Let_def assertion_def)

section \<open>Interleaved callers\<close>

text \<open>
  The callers, the producer, and the indices given to callers, in order. \<open>Publish\<close> is the store of \<open>tailIndex\<close> that
  ends an \<open>enqueue\<close>.
\<close>

record ticketing =
  callers :: "consumer list"
  shared :: cq_producer
  given :: "u64 list"

datatype ticket_event = Caller nat | Publish

fun ticket_step :: "ticketing \<Rightarrow> ticket_event \<Rightarrow> cq_fault + ticketing" where
  "ticket_step s Publish = Inr (s\<lparr>shared := (shared s)\<lparr>tailIndex := 1 + tailIndex (shared s)\<rparr>\<rparr>)"
| "ticket_step s (Caller i) = bindE (fetch BadPointer (callers s) i) (\<lambda>c.
    bindE (consumer_step c (shared s)) (\<lambda>(c', pr).
    Inr (s\<lparr>callers := (callers s)[i := c'], shared := pr,
      given := (case c' of HasIndex index \<Rightarrow> given s @ [index] | _ \<Rightarrow> given s)\<rparr>)))"

definition ticket_start :: "nat \<Rightarrow> cq_producer \<Rightarrow> ticketing" where
  "ticket_start k pr = \<lparr>callers = replicate k AtStart, shared = pr, given = []\<rparr>"

definition resting :: "consumer \<Rightarrow> bool" where
  "resting c \<longleftrightarrow> (case c of AtStart \<Rightarrow> True | FoundNothing \<Rightarrow> True | HasIndex i \<Rightarrow> True | _ \<Rightarrow> False)"

section \<open>The invariant\<close>

text \<open>
  Tickets are natural numbers here. \<open>P\<close> are those whose holders were granted an element, \<open>F\<close> those counted in \<open>dequeueOvercommit\<close>;
  the others below \<open>c\<close> are still held. A ticket is granted only if elements were published for it and for all tickets below that
  did not fail, so no more are granted than were published.
\<close>

definition held_ticket :: "consumer \<Rightarrow> nat option" where
  "held_ticket c = (case c of Ticket v t \<Rightarrow> Some (unat t) | TooMany t \<Rightarrow> Some (unat t) | _ \<Rightarrow> None)"

definition granted :: "consumer \<Rightarrow> bool" where
  "granted c \<longleftrightarrow> (case c of Granted t \<Rightarrow> True | _ \<Rightarrow> False)"

definition failed_below :: "nat set \<Rightarrow> nat \<Rightarrow> nat" where
  "failed_below F t = card {f \<in> F. f < t}"

definition caller_ok :: "nat set \<Rightarrow> consumer \<Rightarrow> bool" where
  "caller_ok F c \<longleftrightarrow> (case c of
      HasBoth tail v \<Rightarrow> unat v \<le> card F
    | Optimistic v \<Rightarrow> unat v \<le> card F
    | Ticket v t \<Rightarrow> unat v \<le> failed_below F (unat t)
    | _ \<Rightarrow> True)"

definition holder :: "consumer list \<Rightarrow> nat \<Rightarrow> nat \<Rightarrow> bool" where
  "holder cs n i \<longleftrightarrow> i < length cs \<and> held_ticket (cs ! i) = Some n"

definition grantees :: "consumer list \<Rightarrow> nat set" where
  "grantees cs = {i. i < length cs \<and> granted (cs ! i)}"

definition tickets_ok :: "consumer list \<Rightarrow> nat \<Rightarrow> nat \<Rightarrow> nat \<Rightarrow> nat set \<Rightarrow> nat set \<Rightarrow> bool" where
  "tickets_ok cs t h c P F \<longleftrightarrow>
    P \<inter> F = {} \<and> P \<union> F \<union> {n. \<exists>i. holder cs n i} = {..<c} \<and>
    (\<forall>n i. holder cs n i \<longrightarrow> n \<notin> P \<union> F) \<and> (\<forall>n i j. holder cs n i \<longrightarrow> holder cs n j \<longrightarrow> i = j) \<and>
    (\<forall>n \<in> P. n < t + failed_below F n) \<and> card P = h + card (grantees cs) \<and> (\<forall>x \<in> set cs. caller_ok F x)"

lemma holder_upd: "i < length cs \<Longrightarrow> holder (cs[i := x]) n j \<longleftrightarrow> (if j = i then held_ticket x = Some n else holder cs n j)"
  by (auto simp: holder_def)

lemma grantees_upd: "i < length cs \<Longrightarrow> grantees (cs[i := x]) = (if granted x then insert i (grantees cs) else grantees cs - {i})"
  by (auto simp: grantees_def nth_list_update split: if_splits)

lemma grantees_finite [simp]: "finite (grantees cs)"
  by (simp add: grantees_def)

lemma callers_upd: "\<forall>x \<in> set cs. caller_ok F x \<Longrightarrow> caller_ok F x \<Longrightarrow> \<forall>x \<in> set (cs[i := x]). caller_ok F x"
  using set_update_subset_insert [of cs i x] by blast

definition counters :: "cq_producer \<Rightarrow> nat \<Rightarrow> nat \<Rightarrow> nat \<Rightarrow> nat \<Rightarrow> bool" where
  "counters pr t h c f \<longleftrightarrow> tailIndex pr = word_of_nat t \<and> headIndex pr = word_of_nat h \<and>
    dequeueOptimisticCount pr = word_of_nat c \<and> dequeueOvercommit pr = word_of_nat f"

lemma tickets_finite: "tickets_ok cs t h c P F \<Longrightarrow> finite P \<and> finite F"
proof -
  assume "tickets_ok cs t h c P F"
  then have "P \<subseteq> {..<c}" "F \<subseteq> {..<c}" by (auto simp: tickets_ok_def)
  then show ?thesis by (meson finite_lessThan finite_subset)
qed

lemma failed_below_all: "finite F \<Longrightarrow> F \<subseteq> {..<n} \<Longrightarrow> failed_below F n = card F"
  unfolding failed_below_def by (rule arg_cong [of _ _ card]) auto

lemma failed_below_le: "finite F \<Longrightarrow> failed_below F n \<le> n"
proof -
  have "{f \<in> F. f < n} \<subseteq> {..<n}" by auto
  then show ?thesis unfolding failed_below_def by (metis card_lessThan card_mono finite_lessThan)
qed

lemma failed_below_mono: "finite F' \<Longrightarrow> F \<subseteq> F' \<Longrightarrow> failed_below F n \<le> failed_below F' n"
  unfolding failed_below_def by (rule card_mono) auto

text \<open>The heart of the matter.\<close>

lemma granted_bound:
  assumes ok: "tickets_ok cs t h c P F"
  shows "card P \<le> t"
proof (cases "P = {}")
  case False
  have fin: "finite P" "finite F" using tickets_finite [OF ok] by auto
  let ?m = "Max P"
  have m: "?m \<in> P" using fin False by simp
  have "P \<union> {f \<in> F. f < ?m} \<subseteq> {..?m}" using fin by auto
  then have "card (P \<union> {f \<in> F. f < ?m}) \<le> Suc ?m" by (metis card_atMost card_mono finite_atMost)
  moreover have "card (P \<union> {f \<in> F. f < ?m}) = card P + failed_below F ?m"
    unfolding failed_below_def using fin ok by (intro card_Un_disjoint) (auto simp: tickets_ok_def)
  moreover have "?m < t + failed_below F ?m" using ok m by (simp add: tickets_ok_def)
  ultimately show ?thesis by simp
qed simp

text \<open>A caller that neither draws nor gives up a ticket or a grant.\<close>

lemma idle_move:
  assumes ok: "tickets_ok cs t h c P F" and i: "i < length cs"
    and same: "held_ticket x = held_ticket (cs ! i)" "granted x = granted (cs ! i)" and x: "caller_ok F x"
  shows "tickets_ok (cs[i := x]) t h c P F"
proof -
  have "holder (cs[i := x]) = holder cs" using holder_upd [OF i] same(1) i by (auto simp: fun_eq_iff holder_def)
  moreover have "grantees (cs[i := x]) = grantees cs" using grantees_upd [OF i] same(2) i by (auto simp: grantees_def)
  moreover have "\<forall>x \<in> set (cs[i := x]). caller_ok F x" using ok x by (intro callers_upd) (auto simp: tickets_ok_def)
  ultimately show ?thesis using ok by (simp add: tickets_ok_def)
qed

text \<open>A ticket given up is the one the caller held, and no other.\<close>

lemma give_up:
  assumes i: "i < length cs" "held_ticket (cs ! i) = Some m" and x: "held_ticket x = None"
    and one: "\<forall>n i j. holder cs n i \<longrightarrow> holder cs n j \<longrightarrow> i = j"
  shows "insert m {n. \<exists>j. holder (cs[i := x]) n j} = {n. \<exists>j. holder cs n j}"
    and "holder (cs[i := x]) n j \<Longrightarrow> holder cs n j \<and> n \<noteq> m"
proof -
  have here: "holder cs n i \<longleftrightarrow> n = m" for n using i by (auto simp: holder_def)
  have h: "holder (cs[i := x]) n j \<longleftrightarrow> holder cs n j \<and> j \<noteq> i" for n j using holder_upd [OF i(1)] x by simp
  show "holder (cs[i := x]) n j \<Longrightarrow> holder cs n j \<and> n \<noteq> m" using h here one by metis
  show "insert m {n. \<exists>j. holder (cs[i := x]) n j} = {n. \<exists>j. holder cs n j}"
  proof (intro equalityI subsetI)
    fix n assume "n \<in> insert m {n. \<exists>j. holder (cs[i := x]) n j}"
    then show "n \<in> {n. \<exists>j. holder cs n j}" using h here by (cases "n = m") auto
  next
    fix n assume "n \<in> {n. \<exists>j. holder cs n j}"
    then obtain j where "holder cs n j" by blast
    then show "n \<in> insert m {n. \<exists>j. holder (cs[i := x]) n j}" using h here by (cases "j = i") auto
  qed
qed

text \<open>The other moves: a ticket drawn, granted, failed, and an index drawn.\<close>

lemma draw_ticket:
  assumes ok: "tickets_ok cs t h c P F" and i: "i < length cs" "cs ! i = Optimistic v" and c: "c < 2 ^ 62"
  shows "tickets_ok (cs[i := Ticket v (word_of_nat c)]) t h (Suc c) P F"
proof -
  let ?cs = "cs[i := Ticket v (word_of_nat c)]"
  have one: "\<forall>n i j. holder cs n i \<longrightarrow> holder cs n j \<longrightarrow> i = j" and apart: "\<forall>n i. holder cs n i \<longrightarrow> n \<notin> P \<union> F"
    using ok by (simp_all add: tickets_ok_def)
  have nat: "unat (word_of_nat c :: u64) = c" using c by (intro unat_small) simp
  have fresh: "\<not> holder cs c j" "c \<notin> P \<union> F" for j using ok by (auto simp: tickets_ok_def)
  have none: "held_ticket (cs ! i) = None" "\<not> granted (cs ! i)" using i by (simp_all add: held_ticket_def granted_def)
  then have not_i: "\<not> holder cs n i" for n by (simp add: holder_def)
  have h: "holder (cs[i := Ticket v (word_of_nat c)]) n j \<longleftrightarrow> (if j = i then n = c else holder cs n j)" for n j
    using holder_upd [OF i(1)] nat by (auto simp: held_ticket_def)
  have all: "P \<union> F \<union> {n. \<exists>i. holder cs n i} = {..<c}" using ok by (simp add: tickets_ok_def)
  have "{n. \<exists>j. holder (cs[i := Ticket v (word_of_nat c)]) n j} = insert c {n. \<exists>i. holder cs n i}"
  proof (intro equalityI subsetI)
    fix n assume "n \<in> insert c {n. \<exists>i. holder cs n i}"
    then consider "n = c" | j where "holder cs n j" "j \<noteq> i" using not_i by blast
    then show "n \<in> {n. \<exists>j. holder (cs[i := Ticket v (word_of_nat c)]) n j}" using h by cases (auto intro: exI [of _ i])
  qed (auto simp: h split: if_splits)
  then have cover: "P \<union> F \<union> {n. \<exists>j. holder ?cs n j} = {..<Suc c}" using all by (simp add: lessThan_Suc)
  have same: "grantees ?cs = grantees cs" using grantees_upd [OF i(1)] none by (auto simp: granted_def grantees_def)
  have "caller_ok F (Ticket v (word_of_nat c))"
  proof -
    have "Optimistic v \<in> set cs" using i nth_mem by metis
    then have "caller_ok F (Optimistic v)" using ok by (auto simp: tickets_ok_def)
    moreover have "failed_below F c = card F" using tickets_finite [OF ok] ok by (intro failed_below_all) (auto simp: tickets_ok_def)
    ultimately show ?thesis using nat by (simp add: caller_ok_def)
  qed
  then have callers: "\<forall>x \<in> set ?cs. caller_ok F x" using ok by (intro callers_upd) (auto simp: tickets_ok_def)
  show ?thesis
    unfolding tickets_ok_def
  proof (intro conjI cover callers)
    show "\<forall>n i. holder ?cs n i \<longrightarrow> n \<notin> P \<union> F" using h fresh(2) apart by metis
    show "\<forall>n i j. holder ?cs n i \<longrightarrow> holder ?cs n j \<longrightarrow> i = j" using h fresh(1) one by metis
  qed (use ok same in \<open>simp_all add: tickets_ok_def\<close>)
qed

lemma grant_ticket:
  assumes ok: "tickets_ok cs t h c P F" and i: "i < length cs" "cs ! i = Ticket v m" and below: "unat m < t + failed_below F (unat m)"
  shows "tickets_ok (cs[i := Granted m]) t h c (insert (unat m) P) F"
proof -
  let ?m = "unat m" and ?cs = "cs[i := Granted m]"
  have one: "\<forall>n i j. holder cs n i \<longrightarrow> holder cs n j \<longrightarrow> i = j" and apart: "\<forall>n i. holder cs n i \<longrightarrow> n \<notin> P \<union> F"
    using ok by (simp_all add: tickets_ok_def)
  have held: "held_ticket (cs ! i) = Some ?m" "held_ticket (Granted m) = None" using i by (simp_all add: held_ticket_def)
  note give = give_up [OF i(1) held one]
  have out: "?m \<notin> P \<union> F" using apart held i(1) by (metis holder_def)
  have new: "i \<notin> grantees cs" using i by (simp add: grantees_def granted_def)
  then have "card (grantees ?cs) = Suc (card (grantees cs))" using grantees_upd [OF i(1)] by (simp add: granted_def)
  moreover have "card (insert ?m P) = Suc (card P)" using out tickets_finite [OF ok] by simp
  ultimately have cards: "card (insert ?m P) = h + card (grantees ?cs)" using ok by (simp add: tickets_ok_def)
  show ?thesis
    unfolding tickets_ok_def
  proof (intro conjI)
    show "insert ?m P \<inter> F = {}" using ok out by (simp add: tickets_ok_def)
    have "insert ?m P \<union> F \<union> {n. \<exists>i. holder ?cs n i} = P \<union> F \<union> insert ?m {n. \<exists>i. holder ?cs n i}" by auto
    then show "insert ?m P \<union> F \<union> {n. \<exists>i. holder ?cs n i} = {..<c}" using ok unfolding give(1) by (simp add: tickets_ok_def)
    show "\<forall>n i. holder ?cs n i \<longrightarrow> n \<notin> insert ?m P \<union> F" using give(2) apart by blast
    show "\<forall>n i j. holder ?cs n i \<longrightarrow> holder ?cs n j \<longrightarrow> i = j" using give(2) one by blast
    show "\<forall>n \<in> insert ?m P. n < t + failed_below F n" using ok below by (simp add: tickets_ok_def)
    show "\<forall>x \<in> set ?cs. caller_ok F x" using ok by (intro callers_upd) (auto simp: tickets_ok_def caller_ok_def)
  qed (rule cards)
qed

lemma draw_index:
  assumes ok: "tickets_ok cs t h c P F" and i: "i < length cs" "cs ! i = Granted m"
  shows "tickets_ok (cs[i := HasIndex x]) t (Suc h) c P F" and "h < t"
proof -
  have mem: "i \<in> grantees cs" using i by (simp add: grantees_def granted_def)
  then have one: "card (grantees cs) = Suc (card (grantees cs - {i}))" by (rule card.remove [OF grantees_finite])
  have "card P \<le> t" by (rule granted_bound [OF ok])
  then show "h < t" using ok one by (simp add: tickets_ok_def)
  have "held_ticket (cs ! i) = None" using i by (simp add: held_ticket_def)
  then have "holder (cs[i := HasIndex x]) = holder cs" using holder_upd [OF i(1)] i by (auto simp: fun_eq_iff holder_def held_ticket_def)
  moreover have "grantees (cs[i := HasIndex x]) = grantees cs - {i}" using grantees_upd [OF i(1)] by (simp add: granted_def)
  moreover have "\<forall>x \<in> set (cs[i := HasIndex x]). caller_ok F x" using ok by (intro callers_upd) (auto simp: tickets_ok_def caller_ok_def)
  ultimately show "tickets_ok (cs[i := HasIndex x]) t (Suc h) c P F" using ok one by (simp add: tickets_ok_def)
qed

lemma fail_ticket:
  assumes ok: "tickets_ok cs t h c P F" and i: "i < length cs" "cs ! i = TooMany m"
  shows "tickets_ok (cs[i := FoundNothing]) t h c P (insert (unat m) F)" and "card (insert (unat m) F) = Suc (card F)"
proof -
  let ?m = "unat m" and ?cs = "cs[i := FoundNothing]"
  have fin: "finite F" using tickets_finite [OF ok] by simp
  have one: "\<forall>n i j. holder cs n i \<longrightarrow> holder cs n j \<longrightarrow> i = j" and apart: "\<forall>n i. holder cs n i \<longrightarrow> n \<notin> P \<union> F"
    using ok by (simp_all add: tickets_ok_def)
  have held: "held_ticket (cs ! i) = Some ?m" "held_ticket FoundNothing = None" using i by (simp_all add: held_ticket_def)
  note give = give_up [OF i(1) held one]
  have out: "?m \<notin> P \<union> F" using apart held i(1) by (metis holder_def)
  show card: "card (insert ?m F) = Suc (card F)" using fin out by simp
  have more: "failed_below F n \<le> failed_below (insert ?m F) n" for n using fin by (intro failed_below_mono) auto
  have up: "caller_ok (insert ?m F) x" if "caller_ok F x" for x
  proof (cases x)
    case (Ticket v t)
    then show ?thesis using that order_trans [OF _ more] by (simp add: caller_ok_def)
  qed (use that card in \<open>simp_all add: caller_ok_def\<close>)
  show "tickets_ok ?cs t h c P (insert ?m F)"
    unfolding tickets_ok_def
  proof (intro conjI)
    show "P \<inter> insert ?m F = {}" using ok out by (simp add: tickets_ok_def)
    have "P \<union> insert ?m F \<union> {n. \<exists>i. holder ?cs n i} = P \<union> F \<union> insert ?m {n. \<exists>i. holder ?cs n i}" by auto
    then show "P \<union> insert ?m F \<union> {n. \<exists>i. holder ?cs n i} = {..<c}" using ok unfolding give(1) by (simp add: tickets_ok_def)
    show "\<forall>n i. holder ?cs n i \<longrightarrow> n \<notin> P \<union> insert ?m F" using give(2) apart by blast
    show "\<forall>n i j. holder ?cs n i \<longrightarrow> holder ?cs n j \<longrightarrow> i = j" using give(2) one by blast
    show "\<forall>n \<in> P. n < t + failed_below (insert ?m F) n"
      using ok more by (auto simp: tickets_ok_def intro: less_le_trans)
    have "grantees ?cs = grantees cs" using grantees_upd [OF i(1)] i by (auto simp: granted_def grantees_def)
    then show "card P = h + card (grantees ?cs)" using ok by (simp add: tickets_ok_def)
    have "\<forall>x \<in> set cs. caller_ok (insert ?m F) x" using ok up by (simp add: tickets_ok_def)
    then show "\<forall>x \<in> set ?cs. caller_ok (insert ?m F) x" by (intro callers_upd) (simp_all add: caller_ok_def)
  qed
qed

section \<open>Runs\<close>

definition ticket_inv :: "ticketing \<Rightarrow> nat \<Rightarrow> nat \<Rightarrow> nat \<Rightarrow> bool" where
  "ticket_inv s t h n \<longleftrightarrow> (\<exists>c P F. tickets_ok (callers s) t h c P F \<and> counters (shared s) t h c (card F) \<and>
    given s = map word_of_nat [0..<h] \<and> t + c + n < 2 ^ 62)"

lemma before_tail: "v \<le> c \<Longrightarrow> c < 2 ^ 62 \<Longrightarrow> t < 2 ^ 62 \<Longrightarrow>
  circular_less_than (word_of_nat c - word_of_nat v) (word_of_nat t) \<longleftrightarrow> c - v < t"
proof -
  assume b: "v \<le> c" "c < 2 ^ 62" "t < 2 ^ 62"
  have "(word_of_nat c - word_of_nat v :: u64) = word_of_nat (c - v)" using b(1) by (simp add: of_nat_diff)
  then show ?thesis
    using b not_behind [of t "c - v"] circular_of_nat [of "c - v" t] by (cases "c - v < t") (auto simp: not_less)
qed

lemma publish_ok: "tickets_ok cs t h c P F \<Longrightarrow> tickets_ok cs (Suc t) h c P F"
  by (auto simp: tickets_ok_def less_Suc_eq)

lemma failed_count: "tickets_ok cs t h c P F \<Longrightarrow> card F \<le> c"
proof -
  assume ok: "tickets_ok cs t h c P F"
  then have "F \<subseteq> {..<c}" by (auto simp: tickets_ok_def)
  then show ?thesis by (metis card_lessThan card_mono finite_lessThan)
qed

lemma small_nat: "n < 2 ^ 62 \<Longrightarrow> unat (word_of_nat n :: u64) = n"
  by (intro unat_small) simp

lemma caller_moves:
  assumes ok: "tickets_ok cs t h c P F" and cnt: "counters pr t h c (card F)" and bound: "t + c + Suc n < 2 ^ 62" and i: "i < length cs"
  obtains x pr' h' c' P' F' where "consumer_step (cs ! i) pr = Inr (x, pr')" and "tickets_ok (cs[i := x]) t h' c' P' F'"
    and "counters pr' t h' c' (card F')" and "t + c' + n < 2 ^ 62" and "h' \<le> Suc h"
    and "case x of HasIndex k \<Rightarrow> k = word_of_nat h \<and> h' = Suc h \<and> h < t | _ \<Rightarrow> h' = h"
proof -
  have mem: "caller_ok F (cs ! i)" using ok i by (auto simp: tickets_ok_def)
  have few: "card F \<le> c" by (rule failed_count [OF ok])
  have c: "c < 2 ^ 62" and t: "t < 2 ^ 62" using bound by auto
  have f: "unat (word_of_nat (card F) :: u64) = card F" using few c by (intro small_nat) simp
  have idle: "tickets_ok (cs[i := x]) t h c P F"
    if "held_ticket x = held_ticket (cs ! i)" "granted x = granted (cs ! i)" "caller_ok F x" for x
    using idle_move [OF ok i] that .
  show thesis
  proof (cases "cs ! i")
    case AtStart
    show thesis by (rule that [of "HasTail (tailIndex pr)" pr h c P F])
        (use AtStart idle cnt bound in \<open>simp_all add: held_ticket_def granted_def caller_ok_def\<close>)
  next
    case (HasTail tl)
    show thesis by (rule that [of "HasBoth tl (dequeueOvercommit pr)" pr h c P F])
        (use HasTail idle cnt bound f in \<open>simp_all add: held_ticket_def granted_def caller_ok_def counters_def\<close>)
  next
    case (HasBoth tl v)
    let ?x = "if circular_less_than (dequeueOptimisticCount pr - v) tl then Optimistic v else FoundNothing"
    show thesis by (rule that [of ?x pr h c P F])
        (use HasBoth idle cnt bound mem in \<open>simp_all add: held_ticket_def granted_def caller_ok_def\<close>)
  next
    case (Optimistic v)
    have v: "unat v \<le> card F" using mem Optimistic by (simp add: caller_ok_def)
    then have "v \<le> word_of_nat c" using few small_nat [OF c] by (simp add: word_le_nat_alt)
    then have "consumer_step (cs ! i) pr = Inr (Ticket v (word_of_nat c), pr\<lparr>dequeueOptimisticCount := word_of_nat c + 1\<rparr>)"
      using Optimistic cnt by (simp add: counters_def Let_def)
    then show thesis
      by (rule that [OF _ draw_ticket [OF ok i Optimistic c]]) (use cnt bound in \<open>simp_all add: counters_def add.commute\<close>)
  next
    case (Ticket v m)
    have v: "unat v \<le> failed_below F (unat m)" using mem Ticket by (simp add: caller_ok_def)
    also have "failed_below F (unat m) \<le> unat m" using tickets_finite [OF ok] by (intro failed_below_le) simp
    finally have vm: "unat v \<le> unat m" .
    have "unat m < c"
    proof -
      have "holder cs (unat m) i" using Ticket i by (simp add: holder_def held_ticket_def)
      then show ?thesis using ok by (auto simp: tickets_ok_def)
    qed
    then have "circular_less_than (word_of_nat (unat m) - word_of_nat (unat v)) (word_of_nat t) \<longleftrightarrow> unat m - unat v < t"
      using vm c t by (intro before_tail) simp_all
    then have test: "circular_less_than (m - v) (tailIndex pr) \<longleftrightarrow> unat m - unat v < t" using cnt by (simp add: counters_def)
    show thesis
    proof (cases "unat m - unat v < t")
      case True
      then have "unat m < t + failed_below F (unat m)" using v by simp
      then show thesis
        by (intro that [OF _ grant_ticket [OF ok i Ticket]]) (use Ticket True test cnt bound in simp_all)
    next
      case False
      show thesis by (rule that [of "TooMany m" pr h c P F])
          (use Ticket False test idle cnt bound in \<open>simp_all add: held_ticket_def granted_def caller_ok_def\<close>)
    qed
  next
    case (Granted m)
    have "h < t" by (rule draw_index(2) [OF ok i Granted])
    then show thesis
      by (intro that [of "HasIndex (headIndex pr)" "pr\<lparr>headIndex := headIndex pr + 1\<rparr>" "Suc h" c P F] draw_index(1) [OF ok i Granted])
        (use Granted cnt bound in \<open>simp_all add: counters_def add.commute\<close>)
  next
    case (TooMany m)
    have "counters (pr\<lparr>dequeueOvercommit := dequeueOvercommit pr + 1\<rparr>) t h c (card (insert (unat m) F))"
      using cnt fail_ticket(2) [OF ok i TooMany] by (simp add: counters_def)
    then show thesis
      by (intro that [OF _ fail_ticket(1) [OF ok i TooMany]]) (use TooMany bound in simp_all)
  next
    case (HasIndex k)
    show thesis by (rule that [of AtStart pr h c P F])
        (use HasIndex idle cnt bound in \<open>simp_all add: held_ticket_def granted_def caller_ok_def\<close>)
  next
    case FoundNothing
    show thesis by (rule that [of AtStart pr h c P F])
        (use FoundNothing idle cnt bound in \<open>simp_all add: held_ticket_def granted_def caller_ok_def\<close>)
  qed
qed

lemma caller_step_ok:
  assumes inv: "ticket_inv s t h (Suc n)" and i: "i < length (callers s)"
  obtains s' h' where "ticket_step s (Caller i) = Inr s'" and "ticket_inv s' t h' n" and "length (callers s') = length (callers s)"
proof -
  obtain c P F where ok: "tickets_ok (callers s) t h c P F" and cnt: "counters (shared s) t h c (card F)"
    and giv: "given s = map word_of_nat [0..<h]" and bound: "t + c + Suc n < 2 ^ 62" using inv by (auto simp: ticket_inv_def)
  obtain x pr' h' c' P' F' where run: "consumer_step (callers s ! i) (shared s) = Inr (x, pr')"
    and next_ok: "tickets_ok ((callers s)[i := x]) t h' c' P' F'" "counters pr' t h' c' (card F')" "t + c' + n < 2 ^ 62"
    and x: "case x of HasIndex k \<Rightarrow> k = word_of_nat h \<and> h' = Suc h \<and> h < t | _ \<Rightarrow> h' = h"
    by (rule caller_moves [OF ok cnt bound i])
  let ?s = "s\<lparr>callers := (callers s)[i := x], shared := pr',
    given := (case x of HasIndex index \<Rightarrow> given s @ [index] | _ \<Rightarrow> given s)\<rparr>"
  have "ticket_step s (Caller i) = Inr ?s" using run i by simp
  moreover have "given ?s = map word_of_nat [0..<h']" using giv x by (cases x) simp_all
  then have "ticket_inv ?s t h' n" using next_ok by (auto simp: ticket_inv_def)
  ultimately show thesis using that by simp
qed

lemma publish_step_ok: "ticket_inv s t h (Suc n) \<Longrightarrow> \<exists>s'. ticket_step s Publish = Inr s' \<and> ticket_inv s' (Suc t) h n \<and> length (callers s') = length (callers s)"
proof -
  assume "ticket_inv s t h (Suc n)"
  then obtain c P F where "tickets_ok (callers s) t h c P F" "counters (shared s) t h c (card F)"
    "given s = map word_of_nat [0..<h]" "t + c + Suc n < 2 ^ 62" by (auto simp: ticket_inv_def)
  then show ?thesis 
    unfolding ticket_inv_def counters_def
    by (intro exI [of _ "s\<lparr>shared := (shared s)\<lparr>tailIndex := 1 + tailIndex (shared s)\<rparr>\<rparr>"] conjI exI [of _ c] exI [of _ P] exI [of _ F]) (simp_all add: publish_ok)
qed

abbreviation published :: "ticket_event list \<Rightarrow> nat" where
  "published es \<equiv> length (filter (\<lambda>e. e = Publish) es)"

lemma tickets_run:
  "ticket_inv s t h (length es) \<Longrightarrow> \<forall>i. Caller i \<in> set es \<longrightarrow> i < length (callers s) \<Longrightarrow>
    \<exists>s' h'. run_steps ticket_step s es = Inr s' \<and> ticket_inv s' (t + published es) h' 0"
proof (induction es arbitrary: s t h)
  case (Cons e es)
  show ?case
  proof (cases e)
    case (Caller i)
    obtain s1 h1 where "ticket_step s (Caller i) = Inr s1" "ticket_inv s1 t h1 (length es)" "length (callers s1) = length (callers s)"
      by (rule caller_step_ok [of s t h "length es" i]) (use Cons.prems Caller in auto)
    then show ?thesis using Cons.IH [of s1 t h1] Cons.prems(2) Caller by auto
  next
    case Publish
    then obtain s1 where "ticket_step s Publish = Inr s1" "ticket_inv s1 (Suc t) h (length es)" "length (callers s1) = length (callers s)"
      using publish_step_ok [of s t h "length es"] Cons.prems(1) by auto
    then show ?thesis using Cons.IH [of s1 "Suc t" h] Cons.prems(2) Publish by auto
  qed
qed auto

lemma start_inv:
  assumes "counters pr 0 0 0 0" and "n < 2 ^ 62"
  shows "ticket_inv (ticket_start k pr) 0 0 n"
proof -
  have "tickets_ok (replicate k AtStart) 0 0 0 {} {}"
    by (auto simp: tickets_ok_def holder_def grantees_def held_ticket_def granted_def caller_ok_def)
  then show ?thesis using assms unfolding ticket_inv_def
    by (intro exI [of _ 0] exI [of _ "{}"]) (simp add: ticket_start_def)
qed

text \<open>When no caller is on its way, the counters are those of a queue used by one thread.\<close>

lemma at_rest:
  assumes ok: "tickets_ok cs t h c P F" and rest: "\<forall>x \<in> set cs. resting x"
  shows "c = h + card F"
proof -
  have "holder cs n i = False" for n i
    using rest nth_mem [of i cs] by (auto simp: holder_def held_ticket_def resting_def split: consumer.splits)
  moreover have "grantees cs = {}" using rest nth_mem by (fastforce simp: grantees_def granted_def resting_def split: consumer.splits)
  ultimately have "P \<union> F = {..<c}" "P \<inter> F = {}" "card P = h" using ok by (simp_all add: tickets_ok_def)
  then show ?thesis using tickets_finite [OF ok] card_Un_disjoint [of P F] by simp
qed

text \<open>
  Property C14. Whatever way the steps of any number of callers and of the producer interleave, no assertion fails, the indices given to
  callers are 0, 1, 2 and so on, each given once and only after its element was published; and when every caller has
  returned, a further call gets the next element if one was published.
\<close>

theorem indices_given_once:
  assumes "counters pr 0 0 0 0" and "\<forall>i. Caller i \<in> set es \<longrightarrow> i < k" and "length es < 2 ^ 62"
  shows "\<exists>s h. run_steps ticket_step (ticket_start k pr) es = Inr s \<and> given s = map word_of_nat [0..<h] \<and> h \<le> published es \<and>
    ((\<forall>c \<in> set (callers s). resting c) \<and> h < published es \<longrightarrow>
      (\<exists>pr'. consumer_alone 6 AtStart (shared s) = Inr (HasIndex (word_of_nat h), pr')))"
proof -
  obtain s h where run: "run_steps ticket_step (ticket_start k pr) es = Inr s" and "ticket_inv s (published es) h 0"
    using tickets_run [OF start_inv [OF assms(1,3)], of k] assms(2) by (auto simp: ticket_start_def)
  then obtain c P F where ok: "tickets_ok (callers s) (published es) h c P F" and cnt: "counters (shared s) (published es) h c (card F)"
    and giv: "given s = map word_of_nat [0..<h]" and bound: "published es + c < 2 ^ 62" by (auto simp: ticket_inv_def)
  have "card P \<le> published es" by (rule granted_bound [OF ok])
  then have "h \<le> published es" using ok by (simp add: tickets_ok_def)
  moreover have "\<exists>pr'. consumer_alone 6 AtStart (shared s) = Inr (HasIndex (word_of_nat h), pr')"
    if "\<forall>x \<in> set (callers s). resting x" "h < published es"
  proof -
    have c: "c = h + card F" by (rule at_rest [OF ok that(1)])
    then have "circular_less_than (word_of_nat c - word_of_nat (card F)) (word_of_nat (published es))"
      using bound that(2) before_tail [of "card F" c "published es"] by simp
    moreover have "(word_of_nat (card F) :: u64) \<le> word_of_nat c"
      using small_nat [of "card F"] small_nat [of c] c bound by (simp only: word_le_nat_alt)
    ultimately show ?thesis using cnt by (simp add: counters_def numeral_eq_Suc Let_def)
  qed
  ultimately show ?thesis using run giv by blast
qed

definition blank_producer :: cq_producer where
  "blank_producer = \<lparr>tailIndex = 0, headIndex = 0, dequeueOptimisticCount = 0, dequeueOvercommit = 0, tailBlock = None, inactive = False,
    nextBlockIndexCapacity = 32, blockIndex = [], ientries = []\<rparr>"

theorem indices_given_once_witness:
  "\<exists>s h. run_steps ticket_step (ticket_start 2 blank_producer)
      [Publish, Caller 0, Caller 1, Caller 0, Caller 1, Caller 0, Caller 1, Caller 0, Caller 1, Caller 0, Caller 1] = Inr s \<and>
    given s = map word_of_nat [0..<h] \<and>
    h \<le> published [Publish, Caller 0, Caller 1, Caller 0, Caller 1, Caller 0, Caller 1, Caller 0, Caller 1, Caller 0, Caller 1] \<and>
    ((\<forall>c \<in> set (callers s). resting c) \<and>
        h < published [Publish, Caller 0, Caller 1, Caller 0, Caller 1, Caller 0, Caller 1, Caller 0, Caller 1, Caller 0, Caller 1] \<longrightarrow>
      (\<exists>pr'. consumer_alone 6 AtStart (shared s) = Inr (HasIndex (word_of_nat h), pr')))"
  by (rule indices_given_once) (auto simp: counters_def blank_producer_def)

text \<open>
  A caller may find nothing although an element waits. After one element two callers draw tickets; the first is granted and takes it, the
  second is turned away, and until it has said so its ticket counts: a third caller finds nothing, although a second element is there.
\<close>

lemma turned_away:
  "case run_steps ticket_step (ticket_start 3 blank_producer)
      [Publish, Caller 0, Caller 1, Caller 0, Caller 1, Caller 0, Caller 1, Caller 0, Caller 1, Caller 0, Caller 1, Caller 0,
       Publish, Caller 2, Caller 2, Caller 2] of
    Inl _ \<Rightarrow> False
  | Inr s \<Rightarrow> callers s = [HasIndex 0, TooMany 1, FoundNothing] \<and> headIndex (shared s) = 1 \<and> tailIndex (shared s) = 2"
  by code_simp

end
