(* ===== verification/Cq_Sharing.thy ===== *)
theory Cq_Sharing
  imports Cq_Tickets
begin

unbundle bit_operations_syntax

text \<open>
  One producer used by its thread and any number of consumers at once, in single steps. Theory \<open>Cq_Tickets\<close> took the counters of
  \<open>dequeue\<close> apart; here the rest of \<open>dequeue\<close> and the whole of \<open>enqueue\<close> follow: the look-up of the block, the element moved
  out, the count of the block's emptied cells, the block's way back to the free list, and on the other side a new block's way into the index, the
  element's construction and its publication. A step is one access to a counter, a cell, a block's count or an entry of the index; a
  search or an insertion in the index is one step, and so is an operation of the free list, which theory \<open>Cq_Free_List\<close> takes apart. Memory
  is sequentially consistent.
\<close>

section \<open>A consumer\<close>

datatype 'a taker =
    Drawing consumer
  | HasEntry u64 nat
  | HasBlock u64 nat nat
  | HasElement u64 nat nat 'a
  | Emptied u64 nat nat 'a
  | Released u64 nat 'a
  | Returned 'a

definition on_block :: "nat \<Rightarrow> ('a cq_block \<Rightarrow> cq_fault + ('b \<times> 'a cq_block)) \<Rightarrow> 'a cq_pool \<Rightarrow> cq_fault + ('b \<times> 'a cq_pool)" where
  "on_block n f p = bindE (fetch BadPointer (blocks p) n) (\<lambda>b. bindE (f b) (\<lambda>(r, b).
    Inr (r, p\<lparr>blocks := (blocks p)[n := b]\<rparr>)))"

fun taker_step :: "'a taker \<Rightarrow> cq_producer \<Rightarrow> 'a cq_pool \<Rightarrow> cq_fault + ('a taker \<times> cq_producer \<times> 'a cq_pool)" where
  "taker_step (Drawing (HasIndex index)) pr p =
    bindE (get_block_index_entry_for_index index pr) (\<lambda>entry. Inr (HasEntry index entry, pr, p))"
| "taker_step (Drawing c) pr p = bindE (consumer_step c pr) (\<lambda>(c, pr). Inr (Drawing c, pr, p))"
| "taker_step (HasEntry index entry) pr p =
    bindE (fetch BadPointer (ientries pr) entry) (\<lambda>e.
    bindE (entry_load e) (\<lambda>v.
    bindE (non_null v) (\<lambda>block. Inr (HasBlock index entry block, pr, p))))"
| "taker_step (HasBlock index entry block) pr p =
    bindE (on_block block (block_take index) p) (\<lambda>(el, p). Inr (HasElement index entry block el, pr, p))"
| "taker_step (HasElement index entry block el) pr p =
    bindE (on_block block block_set_empty p) (\<lambda>(emptied, p).
    Inr (if emptied then Emptied index entry block el else Returned el, pr, p))"
| "taker_step (Emptied index entry block el) pr p =
    bindE (entry_store entry None pr) (\<lambda>pr. Inr (Released index block el, pr, p))"
| "taker_step (Released index block el) pr p =
    bindE (add_block_to_free_list block p) (\<lambda>p. Inr (Returned el, pr, p))"
| "taker_step (Returned el) pr p = Inr (Drawing AtStart, pr, p)"

fun taker_alone :: "nat \<Rightarrow> 'a taker \<Rightarrow> cq_producer \<Rightarrow> 'a cq_pool \<Rightarrow> cq_fault + ('a taker \<times> cq_producer \<times> 'a cq_pool)" where
  "taker_alone 0 c pr p = Inr (c, pr, p)"
| "taker_alone (Suc n) c pr p = (case c of
      Returned x \<Rightarrow> Inr (c, pr, p)
    | Drawing FoundNothing \<Rightarrow> Inr (c, pr, p)
    | _ \<Rightarrow> bindE (taker_step c pr p) (\<lambda>(c, pr, p). taker_alone n c pr p))"

lemma fetch_upd: "fetch e (xs[i := x]) i = (if i < length xs then Inr x else Inl e)"
  by (simp add: fetch_def)

definition taker_result :: "'a taker \<times> cq_producer \<times> 'a cq_pool \<Rightarrow> cq_fault + ('a option \<times> cq_producer \<times> 'a cq_pool)" where
  "taker_result r = (case r of (Returned x, pr, p) \<Rightarrow> Inr (Some x, pr, p) | (_, pr, p) \<Rightarrow> Inr (None, pr, p))"

lemma taker_result_simps [simp]:
  "taker_result (Returned x, pr, p) = Inr (Some x, pr, p)"
  "taker_result (Drawing c, pr, p) = Inr (None, pr, p)"
  by (simp_all add: taker_result_def)

lemma taker_takes: "bindE (taker_alone 6 (Drawing (HasIndex i)) pr p) taker_result = ip_take i pr p"
  by (auto simp: ip_take_def numeral_eq_Suc on_block_def fetch_upd fetch_def Let_def bindE_def split: sum.splits prod.splits if_splits)

lemma nothing_found [simp]: "taker_alone n (Drawing FoundNothing) pr p = Inr (Drawing FoundNothing, pr, p)"
  by (cases n) simp_all

text \<open>The steps of one consumer, uninterrupted, are \<open>dequeue\<close>.\<close>

lemma dequeue_is_its_taker_steps: "ip_dequeue pr p = bindE (taker_alone 12 (Drawing AtStart) pr p) taker_result"
proof -
  have six: "consumer_alone 6 = consumer_alone (Suc (Suc (Suc (Suc (Suc (Suc 0))))))" by (simp add: numeral_eq_Suc)
  have drawn: "bindE (taker_alone (Suc (Suc (Suc (Suc (Suc (Suc m)))))) (Drawing AtStart) pr p) taker_result =
      bindE (consumer_alone 6 AtStart pr) (\<lambda>(c, pr). case c of
        HasIndex i \<Rightarrow> bindE (taker_alone m (Drawing (HasIndex i)) pr p) taker_result
      | _ \<Rightarrow> Inr (None, pr, p))" for m
    unfolding six by (simp add: Let_def assertion_def)
  show ?thesis using drawn [of 6] by (simp add: dequeue_is_its_steps taker_takes cong: consumer.case_cong)
qed

section \<open>The producer's thread\<close>

text \<open>
  Where the thread is in \<open>enqueue\<close>, with the local variables it still has use for, the element, and whether there is memory during
  this call; \<open>Enqueued\<close> is the result, before the next call.
\<close>

datatype 'a putter =
    Enqueued bool
  | Calling 'a bool
  | AtHead 'a bool u64
  | AtIndex 'a bool u64
  | AtBlock 'a bool u64 nat
  | Undoing nat
  | AtReset 'a u64 nat nat
  | AtEntry 'a u64 nat nat
  | AtTailBlock 'a u64 nat
  | AtElement 'a u64
  | AtPublish 'a u64

fun putter_step :: "'a putter \<Rightarrow> cq_producer \<Rightarrow> 'a cq_pool \<Rightarrow> cq_fault + ('a putter \<times> cq_producer \<times> 'a cq_pool)" where
  "putter_step (Enqueued r) pr p = Inr (Enqueued r, pr, p)"
| "putter_step (Calling x ok) pr p = (let currentTailIndex = tailIndex pr in
    Inr (if currentTailIndex AND 31 = 0 then AtHead x ok currentTailIndex else AtElement x currentTailIndex, pr, p))"
| "putter_step (AtHead x ok currentTailIndex) pr p = (let head = headIndex pr in
    bindE (assertion (\<not> circular_less_than currentTailIndex head)) (\<lambda>_.
    Inr (if \<not> circular_less_than head (currentTailIndex + 32) then Enqueued False else AtIndex x ok currentTailIndex, pr, p)))"
| "putter_step (AtIndex x ok currentTailIndex) pr p =
    bindE (insert_block_index_entry (\<lambda>_. ok) currentTailIndex pr (mallocs p)) (\<lambda>(idxEntry, pr, n).
    Inr (case idxEntry of None \<Rightarrow> Enqueued False | Some a \<Rightarrow> AtBlock x ok currentTailIndex a, pr, p\<lparr>mallocs := n\<rparr>))"
| "putter_step (AtBlock x ok currentTailIndex a) pr p =
    bindE (requisition_block (\<lambda>_. ok) p) (\<lambda>(newBlock, p).
    Inr (case newBlock of None \<Rightarrow> Undoing a | Some b \<Rightarrow> AtReset x currentTailIndex a b, pr, p))"
| "putter_step (Undoing a) pr p =
    bindE (bindE (rewind_block_index_tail pr) (entry_store a None)) (\<lambda>pr. Inr (Enqueued False, pr, p))"
| "putter_step (AtReset x currentTailIndex a b) pr p =
    bindE (map_block b block_reset_empty p) (\<lambda>p. Inr (AtEntry x currentTailIndex a b, pr, p))"
| "putter_step (AtEntry x currentTailIndex a b) pr p =
    bindE (entry_store a (Some b) pr) (\<lambda>pr. Inr (AtTailBlock x currentTailIndex b, pr, p))"
| "putter_step (AtTailBlock x currentTailIndex b) pr p = Inr (AtElement x currentTailIndex, pr\<lparr>tailBlock := Some b\<rparr>, p)"
| "putter_step (AtElement x currentTailIndex) pr p =
    bindE (non_null (tailBlock pr)) (\<lambda>b.
    bindE (map_block b (block_put currentTailIndex x) p) (\<lambda>p. Inr (AtPublish x currentTailIndex, pr, p)))"
| "putter_step (AtPublish x currentTailIndex) pr p = Inr (Enqueued True, pr\<lparr>tailIndex := 1 + currentTailIndex\<rparr>, p)"

fun putter_alone :: "nat \<Rightarrow> 'a putter \<Rightarrow> cq_producer \<Rightarrow> 'a cq_pool \<Rightarrow> cq_fault + ('a putter \<times> cq_producer \<times> 'a cq_pool)" where
  "putter_alone 0 pc pr p = Inr (pc, pr, p)"
| "putter_alone (Suc n) pc pr p = (case pc of
      Enqueued r \<Rightarrow> Inr (pc, pr, p)
    | _ \<Rightarrow> bindE (putter_step pc pr p) (\<lambda>(pc, pr, p). putter_alone n pc pr p))"

definition putter_result :: "'a putter \<times> cq_producer \<times> 'a cq_pool \<Rightarrow> cq_fault + (bool \<times> cq_producer \<times> 'a cq_pool)" where
  "putter_result r = (case r of (Enqueued b, pr, p) \<Rightarrow> Inr (b, pr, p) | _ \<Rightarrow> Inl LoopsForever)"

lemma enqueue_is_its_steps:
  "ip_enqueue (\<lambda>_. ok) x pr p = bindE (putter_alone 9 (Calling x ok) pr p) putter_result"
  by (auto simp: ip_enqueue_def ip_put_def numeral_eq_Suc Let_def assertion_def putter_result_def bindE_def
      split: sum.splits prod.splits option.splits)

section \<open>All of them\<close>

text \<open>
  \<open>put\<close> are the elements published, in order, \<open>taken\<close> the elements moved out, with their indices, in the order in which
  that happened. \<open>Call\<close> is the start of an \<open>enqueue\<close>; it waits for the end of the call before.
\<close>

record 'a sharing =
  takers :: "'a taker list"
  putter :: "'a putter"
  producer :: cq_producer
  memory :: "'a cq_pool"
  put :: "'a list"
  taken :: "(u64 \<times> 'a) list"

datatype 'a share_event = Taker nat | Call 'a bool | Putter

fun share_step :: "'a sharing \<Rightarrow> 'a share_event \<Rightarrow> cq_fault + 'a sharing" where
  "share_step s (Call x ok) = Inr (case putter s of Enqueued _ \<Rightarrow> s\<lparr>putter := Calling x ok\<rparr> | _ \<Rightarrow> s)"
| "share_step s Putter = bindE (putter_step (putter s) (producer s) (memory s)) (\<lambda>(pc, pr, p).
    Inr (s\<lparr>putter := pc, producer := pr, memory := p,
      put := (case putter s of AtPublish x _ \<Rightarrow> put s @ [x] | _ \<Rightarrow> put s)\<rparr>))"
| "share_step s (Taker k) = bindE (fetch BadPointer (takers s) k) (\<lambda>c.
    bindE (taker_step c (producer s) (memory s)) (\<lambda>(c', pr, p).
    Inr (s\<lparr>takers := (takers s)[k := c'], producer := pr, memory := p,
      taken := (case c' of HasElement index _ _ el \<Rightarrow> taken s @ [(index, el)] | _ \<Rightarrow> taken s)\<rparr>)))"

definition share_start :: "nat \<Rightarrow> cq_producer \<Rightarrow> 'a cq_pool \<Rightarrow> 'a sharing" where
  "share_start k pr p = \<lparr>takers = replicate k (Drawing AtStart), putter = Enqueued True, producer = pr, memory = p, put = [], taken = []\<rparr>"

end
