(* ===== verification/Cq_Shared_Memory.thy ===== *)
theory Cq_Shared_Memory
  imports Cq_Sharing
begin

text \<open>
  The blocks of a producer while its thread and consumers use them at once, apart from who does what: the cells still to be read, the
  counts of emptied cells, which block is in the index, which has left it, and the changes that a step makes to all that.
\<close>

section \<open>The blocks\<close>

text \<open>
  \<open>U\<close> are the indices whose element is in its cell, \<open>N\<close> those that their block does not count as emptied, \<open>V\<close> the blocks in the index,
  \<open>E\<close> those of them that are to leave it, \<open>R\<close> those that left it and are still held; \<open>spare\<close> is the block about to enter it.
\<close>

definition shared_cells :: "nat set \<Rightarrow> 'a list \<Rightarrow> nat \<Rightarrow> 'a option list" where
  "shared_cells U ys j = map (\<lambda>r. if 32 * j + r \<in> U then Some (ys ! (32 * j + r)) else None) [0..<32]"

definition counted :: "nat set \<Rightarrow> nat \<Rightarrow> nat" where
  "counted N j = card {r. r < 32 \<and> 32 * j + r \<notin> N}"

definition memory_ok ::
  "'a cq_pool \<Rightarrow> nat set \<Rightarrow> nat set \<Rightarrow> 'a list \<Rightarrow> nat set \<Rightarrow> nat set \<Rightarrow> nat set \<Rightarrow> nat set \<Rightarrow> nat \<Rightarrow> (nat \<Rightarrow> nat) \<Rightarrow> nat set \<Rightarrow> bool" where
  "memory_ok p live spare ys U N E R B bl V \<longleftrightarrow>
    V \<subseteq> {..<B} \<and> R \<subseteq> {..<B} - V \<and> E \<subseteq> V \<and> U \<subseteq> N \<and> inj_on bl (V \<union> R) \<and> bl ` (V \<union> R) \<inter> live = {} \<and>
    spare \<inter> (bl ` (V \<union> R) \<union> live) = {} \<and> (\<exists>fl. pool_ok p fl (live \<union> bl ` (V \<union> R) \<union> spare)) \<and>
    (\<forall>j \<in> V \<union> R. elements (blocks p ! bl j) = shared_cells U ys j) \<and>
    (\<forall>j \<in> V. elementsCompletelyDequeued (blocks p ! bl j) = word_of_nat (counted N j)) \<and>
    (\<forall>j < B. j \<notin> V \<longrightarrow> counted N j = 32) \<and> (\<forall>j \<in> V. counted N j = 32 \<longleftrightarrow> j \<in> E)"

lemma length_shared_cells [simp]: "length (shared_cells U ys j) = 32"
  by (simp add: shared_cells_def)

lemma shared_cells_nth: "r < 32 \<Longrightarrow> shared_cells U ys j ! r = (if 32 * j + r \<in> U then Some (ys ! (32 * j + r)) else None)"
  by (simp add: shared_cells_def)

lemma counted_le: "counted N j \<le> 32"
proof -
  have "{r. r < 32 \<and> 32 * j + r \<notin> N} \<subseteq> {..<32}" by auto
  then show ?thesis unfolding counted_def by (metis card_lessThan card_mono finite_lessThan)
qed

lemma counted_full: "counted N j = 32 \<longleftrightarrow> (\<forall>r < 32. 32 * j + r \<notin> N)"
proof
  assume all: "counted N j = 32"
  have "{r. r < 32 \<and> 32 * j + r \<notin> N} = {..<32}"
    by (rule card_subset_eq) (use all in \<open>auto simp: counted_def\<close>)
  then show "\<forall>r < 32. 32 * j + r \<notin> N" by blast
next
  assume "\<forall>r < 32. 32 * j + r \<notin> N"
  then have "{r. r < 32 \<and> 32 * j + r \<notin> N} = {..<32}" by auto
  then show "counted N j = 32" by (simp add: counted_def)
qed

lemma counted_remove:
  assumes "i \<in> N"
  shows "counted (N - {i}) j = (if j = i div 32 then Suc (counted N j) else counted N j)"
proof (cases "j = i div 32")
  case True
  have i: "32 * j + i mod 32 = i" using True by simp
  have "{r. r < 32 \<and> 32 * j + r \<notin> N - {i}} = insert (i mod 32) {r. r < 32 \<and> 32 * j + r \<notin> N}" using i by auto
  moreover have "i mod 32 \<notin> {r. r < 32 \<and> 32 * j + r \<notin> N}" using i assms by simp
  ultimately show ?thesis using True by (simp add: counted_def)
next
  case False
  have "32 * j + r \<noteq> i" if "r < 32" for r using False that by auto
  then have "{r. r < 32 \<and> 32 * j + r \<notin> N - {i}} = {r. r < 32 \<and> 32 * j + r \<notin> N}" by auto
  then show ?thesis using False by (simp add: counted_def)
qed

lemma not_full: "i \<in> N \<Longrightarrow> counted N (i div 32) \<noteq> 32"
  unfolding counted_full by (metis mod_less_divisor mult_div_mod_eq zero_less_numeral)

lemma uncounted_in_index: "memory_ok p live spare ys U N E R B bl V \<Longrightarrow> i \<in> N \<Longrightarrow> i div 32 < B \<Longrightarrow> i div 32 \<in> V"
  using not_full [of i N] unfolding memory_ok_def by blast

lemma cell_place: "r < 32 \<Longrightarrow> 32 * j + r = i \<longleftrightarrow> j = i div 32 \<and> r = i mod 32" for i :: nat
  by auto

lemma cells_without: "shared_cells (U - {i}) ys j = (if j = i div 32 then (shared_cells U ys j)[i mod 32 := None] else shared_cells U ys j)"
proof (rule nth_equalityI)
  fix r assume "r < length (shared_cells (U - {i}) ys j)"
  then have r: "r < 32" by simp
  have "32 * j + r = i \<longleftrightarrow> j = i div 32 \<and> r = i mod 32" using r by auto
  then show "shared_cells (U - {i}) ys j ! r = (if j = i div 32 then (shared_cells U ys j)[i mod 32 := None] else shared_cells U ys j) ! r"
    using r by (auto simp: shared_cells_nth nth_list_update)
qed simp

lemma cells_with:
  assumes "\<forall>i \<in> U. i < length ys"
  shows "shared_cells (insert (length ys) U) (ys @ [x]) j =
    (if j = length ys div 32 then (shared_cells U ys j)[length ys mod 32 := Some x] else shared_cells U ys j)"
proof (rule nth_equalityI)
  fix r assume "r < length (shared_cells (insert (length ys) U) (ys @ [x]) j)"
  then have r: "r < 32" by simp
  note cell_place [OF r, of j "length ys"]
  then show "shared_cells (insert (length ys) U) (ys @ [x]) j ! r =
      (if j = length ys div 32 then (shared_cells U ys j)[length ys mod 32 := Some x] else shared_cells U ys j) ! r"
    using r assms by (auto simp: shared_cells_nth nth_list_update nth_append)
qed simp

text \<open>A block of the producer changed, elements and count to those of new sets.\<close>

lemma memory_held: "memory_ok p live spare ys U N E R B bl V \<Longrightarrow> j \<in> V \<union> R \<Longrightarrow>
    bl j < length (blocks p) \<and> length (elements (blocks p ! bl j)) = 32 \<and> freeListRefs (blocks p ! bl j) = 0"
proof -
  assume ok: "memory_ok p live spare ys U N E R B bl V" and j: "j \<in> V \<union> R"
  obtain fl where "pool_ok p fl (live \<union> bl ` (V \<union> R) \<union> spare)" using ok by (auto simp: memory_ok_def)
  then show ?thesis by (rule pool_live) (use j in blast)
qed

lemma memory_frame:
  assumes "memory_ok p live spare ys U N E R B bl V" and "j \<in> V \<union> R" and "n \<in> live \<union> spare"
  shows "blocks (p\<lparr>blocks := (blocks p)[bl j := b]\<rparr>) ! n = blocks p ! n"
proof -
  have "bl ` (V \<union> R) \<inter> live = {}" "spare \<inter> (bl ` (V \<union> R) \<union> live) = {}" using assms(1) by (simp_all add: memory_ok_def)
  then have "bl j \<noteq> n" using assms(2,3) by blast
  then show ?thesis by simp
qed

lemma memory_write:
  assumes ok: "memory_ok p live spare ys U N E R B bl V" and j: "j \<in> V" and b: "length (elements b) = 32" "freeListRefs b = 0"
      "dynamicallyAllocated b = dynamicallyAllocated (blocks p ! bl j)"
    and cells: "elements b = shared_cells U' ys' j" "\<And>i. i \<in> V \<union> R \<Longrightarrow> i \<noteq> j \<Longrightarrow> shared_cells U' ys' i = shared_cells U ys i"
    and counts: "elementsCompletelyDequeued b = word_of_nat (counted N' j)" "\<And>i. i \<noteq> j \<Longrightarrow> counted N' i = counted N i"
    and sets: "U' \<subseteq> N'" "E' \<subseteq> V" "\<And>i. i \<in> V \<Longrightarrow> counted N' i = 32 \<longleftrightarrow> i \<in> E'"
  shows "memory_ok (p\<lparr>blocks := (blocks p)[bl j := b]\<rparr>) live spare ys' U' N' E' R B bl V"
proof -
  obtain fl where pool: "pool_ok p fl (live \<union> bl ` (V \<union> R) \<union> spare)" using ok by (auto simp: memory_ok_def)
  have pool': "pool_ok (p\<lparr>blocks := (blocks p)[bl j := b]\<rparr>) fl (live \<union> bl ` (V \<union> R) \<union> spare)"
    using b j by (intro pool_upd [OF pool]) auto
  have n: "bl j < length (blocks p)" using memory_held [OF ok, of j] j by simp
  have inj: "inj_on bl (V \<union> R)" using ok by (simp add: memory_ok_def)
  have other: "bl j \<noteq> bl i" if "i \<in> V \<union> R" "i \<noteq> j" for i using inj_onD [OF inj, of j i] that j by blast
  have here: "blocks (p\<lparr>blocks := (blocks p)[bl j := b]\<rparr>) ! bl i = (if i = j then b else blocks p ! bl i)" if "i \<in> V \<union> R" for i
    using other [OF that] n by (cases "i = j") simp_all
  have dead: "counted N' i = 32" if "i < B" "i \<notin> V" for i using ok that j counts(2) [of i] by (auto simp: memory_ok_def)
  have old: "elements (blocks p ! bl i) = shared_cells U ys i" if "i \<in> V \<union> R" for i using ok that by (simp add: memory_ok_def)
  have oldc: "elementsCompletelyDequeued (blocks p ! bl i) = word_of_nat (counted N i)" if "i \<in> V" for i using ok that by (simp add: memory_ok_def)
  show "memory_ok (p\<lparr>blocks := (blocks p)[bl j := b]\<rparr>) live spare ys' U' N' E' R B bl V"
    unfolding memory_ok_def
  proof (intro conjI ballI)
    fix i assume i: "i \<in> V \<union> R"
    show "elements (blocks (p\<lparr>blocks := (blocks p)[bl j := b]\<rparr>) ! bl i) = shared_cells U' ys' i"
      unfolding here [OF i] using cells(1) cells(2) [OF i] old [OF i] by simp
  next
    fix i assume i: "i \<in> V"
    then have "i \<in> V \<union> R" by simp
    from here [OF this] show "elementsCompletelyDequeued (blocks (p\<lparr>blocks := (blocks p)[bl j := b]\<rparr>) ! bl i) = word_of_nat (counted N' i)"
      using counts(1) counts(2) [of i] oldc [OF i] by simp
  qed (use ok pool' sets dead in \<open>auto simp: memory_ok_def\<close>)
qed

text \<open>An element moved out of its cell.\<close>

lemma memory_read:
  assumes ok: "memory_ok p live spare ys U N E R B bl V" and i: "i \<in> U" "i div 32 < B"
  obtains p' where "on_block (bl (i div 32)) (block_take (word_of_nat i)) p = Inr (ys ! i, p')"
    and "memory_ok p' live spare ys (U - {i}) N E R B bl V" and "\<forall>n \<in> live \<union> spare. blocks p' ! n = blocks p ! n"
proof -
  let ?j = "i div 32"
  let ?b = "blocks p ! bl ?j"
  let ?b' = "?b\<lparr>elements := (elements ?b)[i mod 32 := None]\<rparr>"
  have "i \<in> N" using ok i(1) by (auto simp: memory_ok_def)
  then have j: "?j \<in> V" by (rule uncounted_in_index [OF ok]) (rule i(2))
  then have held: "?j \<in> V \<union> R" by simp
  have b: "bl ?j < length (blocks p)" "length (elements ?b) = 32" "freeListRefs ?b = 0" using memory_held [OF ok held] by simp_all
  have cells: "elements ?b = shared_cells U ys ?j" and count: "elementsCompletelyDequeued ?b = word_of_nat (counted N ?j)"
    using ok j by (simp_all add: memory_ok_def)
  have "elements ?b ! (i mod 32) = Some (ys ! i)" using i(1) unfolding cells by (simp add: shared_cells_nth)
  then have run: "on_block (bl ?j) (block_take (word_of_nat i)) p = Inr (ys ! i, p\<lparr>blocks := (blocks p)[bl ?j := ?b']\<rparr>)"
    using b by (simp add: on_block_def block_take_def block_cell_index)
  have "memory_ok (p\<lparr>blocks := (blocks p)[bl ?j := ?b']\<rparr>) live spare ys (U - {i}) N E R B bl V"
    by (rule memory_write [OF ok j]) (use ok b cells count cells_without [of U i ys] in \<open>auto simp: memory_ok_def\<close>)
  moreover have "blocks (p\<lparr>blocks := (blocks p)[bl ?j := ?b']\<rparr>) ! n = blocks p ! n" if "n \<in> live \<union> spare" for n
    by (rule memory_frame [OF ok held that])
  ultimately show thesis using run that by blast
qed

text \<open>The emptied cell counted.\<close>

lemma memory_count:
  assumes ok: "memory_ok p live spare ys U N E R B bl V" and i: "i \<in> N" "i \<notin> U" "i div 32 < B"
  obtains p' full where "on_block (bl (i div 32)) block_set_empty p = Inr (full, p')"
    and "memory_ok p' live spare ys U (N - {i}) (if full then insert (i div 32) E else E) R B bl V" and "full \<longrightarrow> i div 32 \<notin> E"
    and "\<forall>n \<in> live \<union> spare. blocks p' ! n = blocks p ! n"
proof -
  let ?j = "i div 32"
  let ?b = "blocks p ! bl ?j" and ?full = "counted N ?j = 31"
  let ?b' = "?b\<lparr>elementsCompletelyDequeued := elementsCompletelyDequeued ?b + 1\<rparr>"
  have j: "?j \<in> V" using i(1,3) by (rule uncounted_in_index [OF ok])
  then have held: "?j \<in> V \<union> R" by simp
  have b: "bl ?j < length (blocks p)" "length (elements ?b) = 32" "freeListRefs ?b = 0" using memory_held [OF ok held] by simp_all
  have cells: "elements ?b = shared_cells U ys ?j" and count: "elementsCompletelyDequeued ?b = word_of_nat (counted N ?j)"
    using ok j by (simp_all add: memory_ok_def)
  have less: "counted N ?j < 32" using counted_le [of N ?j] not_full [OF i(1)] by simp
  have nat: "unat (word_of_nat (counted N ?j) :: u64) = counted N ?j" using less by (intro unat_small) simp
  have "word_of_nat (counted N ?j) < (32 :: u64)" using nat less by (simp add: word_less_nat_alt)
  moreover have "word_of_nat (counted N ?j) = (31 :: u64) \<longleftrightarrow> ?full" using nat by (auto simp: word_unat_eq_iff)
  ultimately have run: "on_block (bl ?j) block_set_empty p = Inr (?full, p\<lparr>blocks := (blocks p)[bl ?j := ?b']\<rparr>)"
    using b count by (simp add: on_block_def block_set_empty_def Let_def)
  have new: "counted (N - {i}) k = (if k = ?j then Suc (counted N k) else counted N k)" for k by (rule counted_remove [OF i(1)])
  have out: "?j \<notin> E" using ok j less by (auto simp: memory_ok_def)
  have "memory_ok (p\<lparr>blocks := (blocks p)[bl ?j := ?b']\<rparr>) live spare ys U (N - {i}) (if ?full then insert ?j E else E) R B bl V"
  proof (rule memory_write [OF ok j])
    show "U \<subseteq> N - {i}" using ok i(2) by (auto simp: memory_ok_def)
    show "(if ?full then insert ?j E else E) \<subseteq> V" using ok j by (auto simp: memory_ok_def)
    show "counted (N - {i}) k = 32 \<longleftrightarrow> k \<in> (if ?full then insert ?j E else E)" if "k \<in> V" for k
      using ok that out unfolding new by (auto simp: memory_ok_def)
  qed (use b cells count new in simp_all)
  moreover have "blocks (p\<lparr>blocks := (blocks p)[bl ?j := ?b']\<rparr>) ! n = blocks p ! n" if "n \<in> live \<union> spare" for n
    by (rule memory_frame [OF ok held that])
  ultimately show thesis using that [OF run] out by blast
qed

text \<open>An emptied block out of the index, and back on the free list.\<close>

lemma memory_leave:
  assumes ok: "memory_ok p live spare ys U N E R B bl V" and j: "j \<in> E"
  shows "memory_ok p live spare ys U N (E - {j}) (insert j R) B bl (V - {j})"
proof -
  have jV: "j \<in> V" using ok j by (auto simp: memory_ok_def)
  then have same: "V - {j} \<union> insert j R = V \<union> R" by blast
  have "counted N j = 32" using ok j jV by (auto simp: memory_ok_def)
  then show ?thesis using ok jV unfolding memory_ok_def same by auto
qed

lemma memory_free:
  assumes ok: "memory_ok p live spare ys U N E R B bl V" and j: "j \<in> R"
  obtains p' where "add_block_to_free_list (bl j) p = Inr p'"
    and "memory_ok p' live spare ys U N E (R - {j}) B bl V" and "\<forall>n \<in> live \<union> spare. blocks p' ! n = blocks p ! n"
proof -
  obtain fl where pool: "pool_ok p fl (live \<union> bl ` (V \<union> R) \<union> spare)" using ok by (auto simp: memory_ok_def)
  have jn: "j \<notin> V" "j < B" using ok j by (auto simp: memory_ok_def)
  then have "counted N j = 32" using ok by (simp add: memory_ok_def)
  then have "32 * j + r \<notin> U" if "r < 32" for r using ok that by (auto simp: memory_ok_def counted_full)
  then have "shared_cells U ys j = replicate 32 None" by (intro nth_equalityI) (simp_all add: shared_cells_nth)
  then have raw: "elements (blocks p ! bl j) = replicate 32 None" using ok j by (simp add: memory_ok_def)
  obtain p' where run: "free_list_add (bl j) p = Inr p'" and pool': "pool_ok p' (bl j # fl) (live \<union> bl ` (V \<union> R) \<union> spare - {bl j})"
    and frame: "\<forall>m. m \<noteq> bl j \<longrightarrow> blocks p' ! m = blocks p ! m"
    using pool_put [OF pool _ raw] j by blast
  have inj: "inj_on bl (V \<union> R)" using ok by (simp add: memory_ok_def)
  have rest: "bl ` (V \<union> R) - {bl j} = bl ` (V \<union> (R - {j}))"
  proof -
    have "V \<union> R - {j} = V \<union> (R - {j})" using jn by blast
    moreover have "bl ` (V \<union> R - {j}) = bl ` (V \<union> R) - bl ` {j}" by (rule inj_on_image_set_diff [OF inj]) (use j in auto)
    ultimately show ?thesis by simp
  qed
  have far: "bl j \<notin> live" "bl j \<notin> spare" using ok j by (auto simp: memory_ok_def)
  then have "live \<union> bl ` (V \<union> R) \<union> spare - {bl j} = live \<union> bl ` (V \<union> (R - {j})) \<union> spare" using rest by blast
  then have pool'': "\<exists>fl. pool_ok p' fl (live \<union> bl ` (V \<union> (R - {j})) \<union> spare)" using pool' by auto
  have other: "blocks p' ! bl k = blocks p ! bl k" if "k \<in> V \<union> (R - {j})" for k
  proof -
    have "bl k \<noteq> bl j" using that jn(1) j inj_onD [OF inj, of k j] by blast
    then show ?thesis using frame by blast
  qed
  have inj': "inj_on bl (V \<union> (R - {j}))" by (rule inj_on_subset [OF inj]) blast
  have "memory_ok p' live spare ys U N E (R - {j}) B bl V"
    unfolding memory_ok_def
  proof (intro conjI inj' pool'' ballI)
    show "elements (blocks p' ! bl k) = shared_cells U ys k" if "k \<in> V \<union> (R - {j})" for k
      using other [OF that] ok that by (auto simp: memory_ok_def)
    show "elementsCompletelyDequeued (blocks p' ! bl k) = word_of_nat (counted N k)" if "k \<in> V" for k
      using other [of k] ok that by (simp add: memory_ok_def)
  qed (use ok in \<open>auto simp: memory_ok_def\<close>)
  moreover have "blocks p' ! n = blocks p ! n" if "n \<in> live \<union> spare" for n
    using frame far that by (metis UnE)
  ultimately show thesis using that run by (simp add: add_block_to_free_list_def)
qed

text \<open>A block for the producer's thread, made ready, and entered into the index.\<close>

lemma memory_mallocs [simp]: "memory_ok (p\<lparr>mallocs := n\<rparr>) live spare ys U N E R B bl V = memory_ok p live spare ys U N E R B bl V"
  by (simp add: memory_ok_def pool_ok_def)

lemma memory_requisition:
  assumes ok: "memory_ok p live {} ys U N E R B bl V"
  obtains p' where "requisition_block mem p = Inr (None, p')" and "memory_ok p' live {} ys U N E R B bl V" and "blocks p' = blocks p"
  | b p' where "requisition_block mem p = Inr (Some b, p')" and "memory_ok p' live {b} ys U N E R B bl V"
    and "elements (blocks p' ! b) = replicate 32 None" and "\<forall>n \<in> live. blocks p' ! n = blocks p ! n"
proof -
  obtain fl where pool: "pool_ok p fl (live \<union> bl ` (V \<union> R))" using ok by (auto simp: memory_ok_def)
  note req = requisition_ok [OF pool, where mem = mem]
  then obtain q p' where run: "requisition_block mem p = Inr (q, p')" by (cases "requisition_block mem p") auto
  show thesis
  proof (cases q)
    case None
    then have "p' = p\<lparr>mallocs := mallocs p + 1\<rparr>" using req run by simp
    then show thesis using that(1) run None ok by simp
  next
    case (Some b)
    then obtain fl' where pool': "pool_ok p' fl' (insert b (live \<union> bl ` (V \<union> R)))" and b: "b \<notin> live \<union> bl ` (V \<union> R)"
      and raw: "elements (blocks p' ! b) = replicate 32 None" and frame: "\<forall>m \<in> live \<union> bl ` (V \<union> R). blocks p' ! m = blocks p ! m"
      using req run by auto
    have "insert b (live \<union> bl ` (V \<union> R)) = live \<union> bl ` (V \<union> R) \<union> {b}" by blast
    then have pool'': "\<exists>fl. pool_ok p' fl (live \<union> bl ` (V \<union> R) \<union> {b})" using pool' by auto
    have here: "blocks p' ! bl k = blocks p ! bl k" if "k \<in> V \<union> R" for k using frame that by blast
    have "memory_ok p' live {b} ys U N E R B bl V"
      unfolding memory_ok_def
    proof (intro conjI ballI pool'')
      show "elements (blocks p' ! bl k) = shared_cells U ys k" if "k \<in> V \<union> R" for k
        using here [OF that] ok that by (auto simp: memory_ok_def)
      show "elementsCompletelyDequeued (blocks p' ! bl k) = word_of_nat (counted N k)" if "k \<in> V" for k
        using here [of k] ok that by (simp add: memory_ok_def)
    qed (use ok b in \<open>auto simp: memory_ok_def\<close>)
    then show thesis using that(2) run Some raw frame by blast
  qed
qed

lemma memory_reset:
  assumes ok: "memory_ok p live {b} ys U N E R B bl V"
  obtains p' where "map_block b block_reset_empty p = Inr p'" and "memory_ok p' live {b} ys U N E R B bl V"
    and "elements (blocks p' ! b) = elements (blocks p ! b)" and "elementsCompletelyDequeued (blocks p' ! b) = 0"
    and "\<forall>n \<in> live. blocks p' ! n = blocks p ! n"
proof -
  obtain fl where pool: "pool_ok p fl (live \<union> bl ` (V \<union> R) \<union> {b})" using ok by (auto simp: memory_ok_def)
  let ?p = "p\<lparr>blocks := (blocks p)[b := block_reset_empty (blocks p ! b)]\<rparr>"
  have b: "b < length (blocks p)" "length (elements (blocks p ! b)) = 32" "freeListRefs (blocks p ! b) = 0"
    using pool_live [OF pool, of b] by simp_all
  have apart: "b \<notin> live" "b \<notin> bl ` (V \<union> R)" using ok by (auto simp: memory_ok_def)
  have pool': "\<exists>fl. pool_ok ?p fl (live \<union> bl ` (V \<union> R) \<union> {b})"
    using pool_upd [OF pool, of b "block_reset_empty (blocks p ! b)"] b by (auto simp: block_reset_empty_def)
  have here: "blocks ?p ! bl k = blocks p ! bl k" if "k \<in> V \<union> R" for k
  proof -
    have "bl k \<noteq> b" using apart(2) that by blast
    then show ?thesis by simp
  qed
  have "memory_ok ?p live {b} ys U N E R B bl V"
    unfolding memory_ok_def
  proof (intro conjI ballI pool')
    show "elements (blocks ?p ! bl k) = shared_cells U ys k" if "k \<in> V \<union> R" for k
      unfolding here [OF that] using ok that by (auto simp: memory_ok_def)
    show "elementsCompletelyDequeued (blocks ?p ! bl k) = word_of_nat (counted N k)" if "k \<in> V" for k
      using here [of k] ok that by (simp add: memory_ok_def)
  qed (use ok in \<open>auto simp: memory_ok_def\<close>)
  moreover have "map_block b block_reset_empty p = Inr ?p" using b by (simp add: map_block_def)
  moreover have "blocks ?p ! n = blocks p ! n" if "n \<in> live" for n
  proof -
    have "n \<noteq> b" using apart(1) that by blast
    then show ?thesis by simp
  qed
  ultimately show thesis using that [of ?p] b by (simp add: block_reset_empty_def)
qed

lemma memory_enter:
  assumes ok: "memory_ok p live {b} ys U N E R B bl V" and raw: "elements (blocks p ! b) = replicate 32 None"
    and zero: "elementsCompletelyDequeued (blocks p ! b) = 0" and all: "\<And>r. r < 32 \<Longrightarrow> 32 * B + r \<in> N \<and> 32 * B + r \<notin> U"
  shows "memory_ok p live {} ys U N E R (Suc B) (bl(B := b)) (insert B V)"
proof -
  have out: "B \<notin> V" "B \<notin> R" using ok by (auto simp: memory_ok_def)
  have cells: "shared_cells U ys B = replicate 32 None" using all by (intro nth_equalityI) (simp_all add: shared_cells_nth)
  have count: "counted N B = 0" using all by (auto simp: counted_def)
  have same: "(bl(B := b)) ` (V \<union> R) = bl ` (V \<union> R)" using out by auto
  have image: "(bl(B := b)) ` (insert B V \<union> R) = insert b (bl ` (V \<union> R))" unfolding same [symmetric] by auto
  have new: "b \<notin> bl ` (V \<union> R)" "b \<notin> live" using ok by (auto simp: memory_ok_def)
  have "inj_on (bl(B := b)) (V \<union> R)" using ok out by (auto simp: memory_ok_def inj_on_def)
  then have inj: "inj_on (bl(B := b)) (insert B V \<union> R)" using new(1) same out by simp
  obtain fl where "pool_ok p fl (live \<union> bl ` (V \<union> R) \<union> {b})" using ok by (auto simp: memory_ok_def)
  then have pool: "\<exists>fl. pool_ok p fl (live \<union> (bl(B := b)) ` (insert B V \<union> R) \<union> {})"
    unfolding image by (intro exI [of _ fl]) (simp add: Un_commute insert_commute)
  show ?thesis
    unfolding memory_ok_def
  proof (intro conjI ballI inj pool)
    show "elements (blocks p ! (bl(B := b)) k) = shared_cells U ys k" if "k \<in> insert B V \<union> R" for k
      using ok that raw cells by (cases "k = B") (auto simp: memory_ok_def)
    show "elementsCompletelyDequeued (blocks p ! (bl(B := b)) k) = word_of_nat (counted N k)" if "k \<in> insert B V" for k
      using ok that zero count by (cases "k = B") (auto simp: memory_ok_def)
    show "(bl(B := b)) ` (insert B V \<union> R) \<inter> live = {}" unfolding image using ok new by (auto simp: memory_ok_def)
    show "counted N k = 32 \<longleftrightarrow> k \<in> E" if "k \<in> insert B V" for k
      using ok that count out by (cases "k = B") (auto simp: memory_ok_def)
  qed (use ok out in \<open>auto simp: memory_ok_def less_Suc_eq\<close>)
qed

text \<open>An element put into its cell.\<close>

lemma memory_put:
  assumes ok: "memory_ok p live spare ys U N E R B bl V" and i: "length ys \<in> N" "length ys div 32 < B" and U: "\<forall>i \<in> U. i < length ys"
  obtains p' where "map_block (bl (length ys div 32)) (block_put (word_of_nat (length ys)) x) p = Inr p'"
    and "memory_ok p' live spare (ys @ [x]) (insert (length ys) U) N E R B bl V" and "\<forall>n \<in> live \<union> spare. blocks p' ! n = blocks p ! n"
proof -
  let ?j = "length ys div 32"
  let ?b = "blocks p ! bl ?j"
  let ?b' = "?b\<lparr>elements := (elements ?b)[length ys mod 32 := Some x]\<rparr>"
  have j: "?j \<in> V" using i by (rule uncounted_in_index [OF ok])
  then have held: "?j \<in> V \<union> R" by simp
  have b: "bl ?j < length (blocks p)" "length (elements ?b) = 32" "freeListRefs ?b = 0" using memory_held [OF ok held] by simp_all
  have cells: "elements ?b = shared_cells U ys ?j" and count: "elementsCompletelyDequeued ?b = word_of_nat (counted N ?j)"
    using ok j by (simp_all add: memory_ok_def)
  have run: "map_block (bl ?j) (block_put (word_of_nat (length ys)) x) p = Inr (p\<lparr>blocks := (blocks p)[bl ?j := ?b']\<rparr>)"
    using b by (simp add: map_block_def block_put_def block_cell_index)
  have "memory_ok (p\<lparr>blocks := (blocks p)[bl ?j := ?b']\<rparr>) live spare (ys @ [x]) (insert (length ys) U) N E R B bl V"
    by (rule memory_write [OF ok j]) (use ok b cells count i(1) cells_with [OF U] in \<open>auto simp: memory_ok_def\<close>)
  moreover have "blocks (p\<lparr>blocks := (blocks p)[bl ?j := ?b']\<rparr>) ! n = blocks p ! n" if "n \<in> live \<union> spare" for n
    by (rule memory_frame [OF ok held that])
  ultimately show thesis using run that by blast
qed

end
