(* ===== verification/Cq_Shared.thy ===== *)
theory Cq_Shared
  imports Cq_Shared_Memory
begin

text \<open>
  What holds in every interleaving of the steps of theory \<open>Cq_Sharing\<close>, and that the steps of consumers keep it: consumers have different
  indices, the element of an index stays in its cell until its consumer has moved it out, a block counts the cells that are
  done with, and the one that counts the last gives the block back.
\<close>

section \<open>The invariant\<close>

text \<open>A consumer as theory \<open>Cq_Tickets\<close> sees it.\<close>

definition drawing :: "'a taker \<Rightarrow> consumer" where
  "drawing c = (case c of Drawing d \<Rightarrow> d | _ \<Rightarrow> AtStart)"

text \<open>The index a consumer has been given, while its element is in its cell, while the block does not count it, and until it returns.\<close>

definition unread_index :: "'a taker \<Rightarrow> nat option" where
  "unread_index c = (case c of Drawing (HasIndex i) \<Rightarrow> Some (unat i) | HasEntry i _ \<Rightarrow> Some (unat i) | HasBlock i _ _ \<Rightarrow> Some (unat i) | _ \<Rightarrow> None)"

definition uncounted_index :: "'a taker \<Rightarrow> nat option" where
  "uncounted_index c = (case c of HasElement i _ _ _ \<Rightarrow> Some (unat i) | _ \<Rightarrow> unread_index c)"

text \<open>The block a consumer has emptied: still in the index, and out of it.\<close>

definition emptied_block :: "'a taker \<Rightarrow> nat option" where
  "emptied_block c = (case c of Emptied i _ _ _ \<Rightarrow> Some (unat i div 32) | _ \<Rightarrow> None)"

definition released_block :: "'a taker \<Rightarrow> nat option" where
  "released_block c = (case c of Released i _ _ \<Rightarrow> Some (unat i div 32) | _ \<Rightarrow> None)"

definition cleared_block :: "'a taker \<Rightarrow> nat option" where
  "cleared_block c = (case c of Emptied i _ _ _ \<Rightarrow> Some (unat i div 32) | Released i _ _ \<Rightarrow> Some (unat i div 32) | _ \<Rightarrow> None)"

text \<open>What the consumers have of a kind, and that no two have the same.\<close>

definition having :: "('b \<Rightarrow> nat option) \<Rightarrow> 'b list \<Rightarrow> nat set" where
  "having f cs = {i. \<exists>c \<in> set cs. f c = Some i}"

definition apart :: "('b \<Rightarrow> nat option) \<Rightarrow> 'b list \<Rightarrow> bool" where
  "apart f cs \<longleftrightarrow> (\<forall>k l i. k < length cs \<longrightarrow> l < length cs \<longrightarrow> f (cs ! k) = Some i \<longrightarrow> f (cs ! l) = Some i \<longrightarrow> k = l)"

definition opt_set :: "nat option \<Rightarrow> nat set" where
  "opt_set x = (case x of None \<Rightarrow> {} | Some i \<Rightarrow> {i})"

lemma opt_set_simps [simp]: "opt_set None = {}" "opt_set (Some i) = {i}"
  by (simp_all add: opt_set_def)

lemma having_iff: "i \<in> having f cs \<longleftrightarrow> (\<exists>k < length cs. f (cs ! k) = Some i)"
  by (force simp: having_def set_conv_nth)

lemma apart_upd:
  assumes "apart f cs" and "k < length cs" and "\<And>i. f c = Some i \<Longrightarrow> i \<notin> having f cs \<or> f (cs ! k) = Some i"
  shows "apart f (cs[k := c])"
  unfolding apart_def
proof (intro allI impI)
  fix a b i
  assume ab: "a < length (cs[k := c])" "b < length (cs[k := c])" "f (cs[k := c] ! a) = Some i" "f (cs[k := c] ! b) = Some i"
  show "a = b"
  proof (rule ccontr)
    assume "a \<noteq> b"
    then consider "a \<noteq> k" "b \<noteq> k" | "a = k" "b \<noteq> k" | "a \<noteq> k" "b = k" by blast
    then show False
      using ab \<open>a \<noteq> b\<close> assms unfolding apart_def having_iff by cases (simp_all, metis+)
  qed
qed

lemma having_upd:
  assumes "apart f cs" and "k < length cs"
  shows "having f (cs[k := c]) = (having f cs - opt_set (f (cs ! k))) \<union> opt_set (f c)"
proof (intro set_eqI iffI)
  fix i
  assume "i \<in> having f (cs[k := c])"
  then obtain l where l: "l < length cs" "f (cs[k := c] ! l) = Some i" by (auto simp: having_iff)
  show "i \<in> (having f cs - opt_set (f (cs ! k))) \<union> opt_set (f c)"
  proof (cases "l = k")
    case True
    then show ?thesis using l by simp
  next
    case False
    then have "f (cs ! l) = Some i" using l by simp
    moreover from this have "f (cs ! k) \<noteq> Some i" using assms l(1) False unfolding apart_def by blast
    ultimately show ?thesis using l(1) by (auto simp: having_iff opt_set_def split: option.splits)
  qed
next
  fix i
  assume i: "i \<in> (having f cs - opt_set (f (cs ! k))) \<union> opt_set (f c)"
  show "i \<in> having f (cs[k := c])"
  proof (cases "f c = Some i")
    case True
    then show ?thesis using assms(2) by (auto simp: having_iff intro: exI [of _ k])
  next
    case False
    then obtain l where l: "l < length cs" "f (cs ! l) = Some i" "f (cs ! k) \<noteq> Some i"
      using i by (auto simp: having_iff opt_set_def split: option.splits)
    then have "l \<noteq> k" by auto
    then show ?thesis using l by (auto simp: having_iff intro: exI [of _ l])
  qed
qed

lemma apartD: "apart f cs \<Longrightarrow> k < length cs \<Longrightarrow> l < length cs \<Longrightarrow> f (cs ! k) = Some i \<Longrightarrow> f (cs ! l) = Some i \<Longrightarrow> k = l"
  unfolding apart_def by blast

section \<open>Consumers, producer and memory\<close>

definition unread_set :: "'a taker list \<Rightarrow> nat \<Rightarrow> nat \<Rightarrow> nat set" where
  "unread_set cs h w = having unread_index cs \<union> {h..<w}"

definition uncounted_set :: "'a taker list \<Rightarrow> nat \<Rightarrow> nat set" where
  "uncounted_set cs h = having uncounted_index cs \<union> {h..}"

text \<open>The pointers that consumers have are those of the blocks of their indices.\<close>

definition taker_ok :: "(nat \<Rightarrow> nat) \<Rightarrow> (nat \<Rightarrow> nat) \<Rightarrow> 'a taker \<Rightarrow> bool" where
  "taker_ok en bl c \<longleftrightarrow> (case c of
      HasEntry i a \<Rightarrow> a = en (unat i div 32)
    | HasBlock i a b \<Rightarrow> a = en (unat i div 32) \<and> b = bl (unat i div 32)
    | HasElement i a b _ \<Rightarrow> a = en (unat i div 32) \<and> b = bl (unat i div 32)
    | Emptied i a b _ \<Rightarrow> a = en (unat i div 32) \<and> b = bl (unat i div 32)
    | Released i b _ \<Rightarrow> b = bl (unat i div 32)
    | _ \<Rightarrow> True)"

definition takers_ok :: "'a taker list \<Rightarrow> nat \<Rightarrow> (nat \<Rightarrow> nat) \<Rightarrow> (nat \<Rightarrow> nat) \<Rightarrow> bool" where
  "takers_ok cs h en bl \<longleftrightarrow> apart uncounted_index cs \<and> apart cleared_block cs \<and> (\<forall>i \<in> having uncounted_index cs. i < h) \<and>
    (\<forall>c \<in> set cs. taker_ok en bl c)"

definition spare_of :: "'a putter \<Rightarrow> nat set" where
  "spare_of pc = (case pc of AtReset _ _ _ b \<Rightarrow> {b} | AtEntry _ _ _ b \<Rightarrow> {b} | _ \<Rightarrow> {})"

definition reserving :: "'a putter \<Rightarrow> bool" where
  "reserving pc \<longleftrightarrow> (case pc of AtBlock _ _ _ _ \<Rightarrow> True | Undoing _ \<Rightarrow> True | AtReset _ _ _ _ \<Rightarrow> True | AtEntry _ _ _ _ \<Rightarrow> True | _ \<Rightarrow> False)"

definition begun :: "'a putter \<Rightarrow> nat \<Rightarrow> nat" where
  "begun pc t = (case pc of AtTailBlock _ _ _ \<Rightarrow> Suc (t div 32) | AtElement _ _ \<Rightarrow> Suc (t div 32) | AtPublish _ _ \<Rightarrow> Suc (t div 32)
    | _ \<Rightarrow> after_block t)"

definition written :: "'a putter \<Rightarrow> 'a list \<Rightarrow> 'a list" where
  "written pc xs = (case pc of AtPublish x _ \<Rightarrow> xs @ [x] | _ \<Rightarrow> xs)"

definition putter_ok :: "'a putter \<Rightarrow> nat \<Rightarrow> nat option \<Rightarrow> 'a cq_pool \<Rightarrow> (nat \<Rightarrow> nat) \<Rightarrow> (nat \<Rightarrow> nat) \<Rightarrow> bool" where
  "putter_ok pc t tb p bl en \<longleftrightarrow> (case pc of
      Enqueued _ \<Rightarrow> t mod 32 \<noteq> 0 \<longrightarrow> tb = Some (bl (t div 32))
    | Calling _ _ \<Rightarrow> t mod 32 \<noteq> 0 \<longrightarrow> tb = Some (bl (t div 32))
    | AtHead _ _ w \<Rightarrow> w = word_of_nat t \<and> t mod 32 = 0
    | AtIndex _ _ w \<Rightarrow> w = word_of_nat t \<and> t mod 32 = 0
    | AtBlock _ _ w a \<Rightarrow> w = word_of_nat t \<and> t mod 32 = 0 \<and> a = en (t div 32)
    | Undoing a \<Rightarrow> t mod 32 = 0 \<and> a = en (t div 32)
    | AtReset _ w a b \<Rightarrow> w = word_of_nat t \<and> t mod 32 = 0 \<and> a = en (t div 32) \<and> elements (blocks p ! b) = replicate 32 None
    | AtEntry _ w a b \<Rightarrow> w = word_of_nat t \<and> t mod 32 = 0 \<and> a = en (t div 32) \<and> elements (blocks p ! b) = replicate 32 None \<and>
        elementsCompletelyDequeued (blocks p ! b) = 0
    | AtTailBlock _ w b \<Rightarrow> w = word_of_nat t \<and> b = bl (t div 32)
    | AtElement _ w \<Rightarrow> w = word_of_nat t \<and> tb = Some (bl (t div 32))
    | AtPublish _ w \<Rightarrow> w = word_of_nat t \<and> tb = Some (bl (t div 32)))"

definition shared_values :: "nat set \<Rightarrow> (nat \<Rightarrow> nat) \<Rightarrow> nat \<Rightarrow> nat option option" where
  "shared_values V bl = (\<lambda>j. Some (if j \<in> V then Some (bl j) else None))"

definition shared_index :: "cq_producer \<Rightarrow> nat \<Rightarrow> nat \<Rightarrow> bool \<Rightarrow> nat set \<Rightarrow> (nat \<Rightarrow> nat) \<Rightarrow> (nat \<Rightarrow> nat) \<Rightarrow> bool" where
  "shared_index pr L B r V bl en \<longleftrightarrow> (\<forall>j \<in> V. L \<le> j) \<and>
    (\<exists>v. index_upto pr L B (if r then Suc B else B) ((shared_values V bl)(B := v)) en)"

definition shared_memory ::
  "'a taker list \<Rightarrow> 'a putter \<Rightarrow> 'a cq_pool \<Rightarrow> 'a list \<Rightarrow> nat set \<Rightarrow> nat \<Rightarrow> (nat \<Rightarrow> nat) \<Rightarrow> nat set \<Rightarrow> bool" where
  "shared_memory cs pc p xs live h bl V \<longleftrightarrow> memory_ok p live (spare_of pc) (written pc xs) (unread_set cs h (length (written pc xs)))
    (uncounted_set cs h) (having emptied_block cs) (having released_block cs) (begun pc (length xs)) bl V"

definition sharing_ok ::
  "'a taker list \<Rightarrow> 'a putter \<Rightarrow> cq_producer \<Rightarrow> 'a cq_pool \<Rightarrow> 'a list \<Rightarrow> nat set \<Rightarrow> nat \<Rightarrow> nat \<Rightarrow> nat set \<Rightarrow> nat set \<Rightarrow> nat \<Rightarrow>
    (nat \<Rightarrow> nat) \<Rightarrow> (nat \<Rightarrow> nat) \<Rightarrow> nat set \<Rightarrow> bool" where
  "sharing_ok cs pc pr p xs live h c P F L bl en V \<longleftrightarrow>
    tickets_ok (map drawing cs) (length xs) h c P F \<and> counters pr (length xs) h c (card F) \<and> takers_ok cs h en bl \<and>
    shared_memory cs pc p xs live h bl V \<and> shared_index pr L (begun pc (length xs)) (reserving pc) V bl en \<and>
    putter_ok pc (length xs) (tailBlock pr) p bl en"

definition log_ok :: "(u64 \<times> 'a) list \<Rightarrow> 'a list \<Rightarrow> nat \<Rightarrow> 'a taker list \<Rightarrow> bool" where
  "log_ok lg xs h cs \<longleftrightarrow> distinct (map fst lg) \<and> set lg = (\<lambda>i. (word_of_nat i, xs ! i)) ` ({..<h} - having unread_index cs)"

lemma having_same:
  assumes "k < length cs" and "f c = f (cs ! k)"
  shows "having f (cs[k := c]) = having f cs"
proof -
  have "f (cs[k := c] ! l) = f (cs ! l)" for l using assms by (cases "l = k") simp_all
  then show ?thesis by (auto simp: having_iff)
qed

lemma apart_same: "apart f cs \<Longrightarrow> k < length cs \<Longrightarrow> f c = f (cs ! k) \<Longrightarrow> apart f (cs[k := c])"
  by (rule apart_upd) auto

lemma apart_none: "apart f cs \<Longrightarrow> k < length cs \<Longrightarrow> f c = None \<Longrightarrow> apart f (cs[k := c])"
  by (rule apart_upd) auto

lemma apart_sub: "apart g cs \<Longrightarrow> (\<And>c i. f c = Some i \<Longrightarrow> g c = Some i) \<Longrightarrow> apart f cs"
  unfolding apart_def by blast

lemma takers_apart:
  assumes "takers_ok cs h en bl"
  shows "apart unread_index cs" "apart uncounted_index cs" "apart emptied_block cs" "apart released_block cs" "apart cleared_block cs"
proof -
  show u: "apart uncounted_index cs" and c: "apart cleared_block cs" using assms by (simp_all add: takers_ok_def)
  show "apart unread_index cs" by (rule apart_sub [OF u]) (auto simp: uncounted_index_def unread_index_def split: taker.splits)
  show "apart emptied_block cs" by (rule apart_sub [OF c]) (auto simp: emptied_block_def cleared_block_def split: taker.splits)
  show "apart released_block cs" by (rule apart_sub [OF c]) (auto simp: released_block_def cleared_block_def split: taker.splits)
qed

lemma set_upd_taker: "\<forall>c \<in> set cs. Q c \<Longrightarrow> Q c \<Longrightarrow> \<forall>c \<in> set (cs[k := c]). Q c"
  using set_update_subset_insert [of cs k c] by blast

lemma heads_bound: "tickets_ok cs t h c P F \<Longrightarrow> h \<le> t"
  using granted_bound [of cs t h c P F] by (simp add: tickets_ok_def)

lemma begun_bound: "i < t \<Longrightarrow> i div 32 < begun pc t"
proof -
  assume "i < t"
  then have "i div 32 < after_block t" using first_less_after by (simp add: first_block_def)
  moreover have "i div 32 < Suc (t div 32)" using \<open>i < t\<close> by (simp add: div_le_mono less_Suc_eq_le)
  ultimately show ?thesis by (simp add: begun_def split: putter.split)
qed

section \<open>Steps of a consumer\<close>

definition taker_moved ::
  "'a taker list \<Rightarrow> nat \<Rightarrow> 'a putter \<Rightarrow> 'a cq_pool \<Rightarrow> 'a list \<Rightarrow> nat set \<Rightarrow> nat \<Rightarrow> nat \<Rightarrow> (nat \<Rightarrow> nat) \<Rightarrow> (nat \<Rightarrow> nat) \<Rightarrow>
    (u64 \<times> 'a) list \<Rightarrow> cq_fault + ('a taker \<times> cq_producer \<times> 'a cq_pool) \<Rightarrow> bool" where
  "taker_moved cs k pc p xs live n L bl en lg r \<longleftrightarrow> (case r of Inl _ \<Rightarrow> False
    | Inr (c', pr', p') \<Rightarrow> \<exists>h c P F V. sharing_ok (cs[k := c']) pc pr' p' xs live h c P F L bl en V \<and> length xs + c + n < 2 ^ 62 \<and>
        log_ok (case c' of HasElement i _ _ x \<Rightarrow> lg @ [(i, x)] | _ \<Rightarrow> lg) xs h (cs[k := c']) \<and> (\<forall>m \<in> live. blocks p' ! m = blocks p ! m))"

lemma putter_ok_frame: "putter_ok pc t tb p bl en \<Longrightarrow> \<forall>n \<in> spare_of pc. blocks p' ! n = blocks p ! n \<Longrightarrow> putter_ok pc t tb p' bl en"
  by (auto simp: putter_ok_def spare_of_def split: putter.splits)

definition at_rest :: "'a taker \<Rightarrow> bool" where
  "at_rest c \<longleftrightarrow> resting (drawing c)"

lemma still_tickets:
  assumes ok: "tickets_ok (map drawing cs) t h c P F" and k: "k < length cs" and rest: "at_rest (cs ! k)" "at_rest c'"
  shows "tickets_ok (map drawing (cs[k := c'])) t h c P F"
proof -
  have none: "held_ticket d = None" "\<not> granted d" "caller_ok F d" if "resting d" for d
    using that by (auto simp: resting_def held_ticket_def granted_def caller_ok_def split: consumer.splits)
  have "tickets_ok ((map drawing cs)[k := drawing c']) t h c P F"
    by (rule idle_move [OF ok]) (use k rest none in \<open>simp_all add: at_rest_def\<close>)
  then show ?thesis by (simp add: map_update)
qed

lemma counters_same: "counters pr t h c f \<Longrightarrow> same_counters pr pr' \<Longrightarrow> counters pr' t h c f"
  by (simp add: counters_def same_counters_def)

lemma quiet_move:
  assumes ok: "sharing_ok cs pc pr p xs live h c P F L bl en V" and k: "k < length cs" and rest: "at_rest (cs ! k)" "at_rest c'"
    and bound: "length xs + c + Suc n < 2 ^ 62" and step: "r = Inr (c', pr', p')" and same: "same_counters pr pr'"
    and takers: "takers_ok (cs[k := c']) h en bl" and mem: "shared_memory (cs[k := c']) pc p' xs live h bl V'"
    and idx: "shared_index pr' L (begun pc (length xs)) (reserving pc) V' bl en"
    and frame: "\<And>m. m \<in> live \<union> spare_of pc \<Longrightarrow> blocks p' ! m = blocks p ! m"
    and log: "log_ok (case c' of HasElement i _ _ x \<Rightarrow> lg @ [(i, x)] | _ \<Rightarrow> lg) xs h (cs[k := c'])"
  shows "taker_moved cs k pc p xs live n L bl en lg r"
proof -
  have "putter_ok pc (length xs) (tailBlock pr') p' bl en"
    using putter_ok_frame [where pc = pc and p = p and p' = p'] ok same frame by (simp add: sharing_ok_def same_counters_def)
  then have "sharing_ok (cs[k := c']) pc pr' p' xs live h c P F L bl en V'"
    using ok same takers mem idx still_tickets [OF _ k rest] counters_same by (auto simp: sharing_ok_def)
  then show ?thesis
    using bound log frame unfolding taker_moved_def step sum.case prod.case
    by (intro exI [of _ h] exI [of _ c] exI [of _ P] exI [of _ F] exI [of _ V']) auto
qed

text \<open>A step that leaves what the others see as it is.\<close>

lemma silent_move:
  assumes ok: "sharing_ok cs pc pr p xs live h c P F L bl en V" and k: "k < length cs" and rest: "at_rest (cs ! k)" "at_rest c'"
    and bound: "length xs + c + Suc n < 2 ^ 62" and step: "r = Inr (c', pr, p)" and log: "log_ok lg xs h cs"
    and same: "unread_index c' = unread_index (cs ! k)" "uncounted_index c' = uncounted_index (cs ! k)"
      "emptied_block c' = emptied_block (cs ! k)" "released_block c' = released_block (cs ! k)" "cleared_block c' = cleared_block (cs ! k)"
    and mine: "taker_ok en bl c'" and no: "\<not> (\<exists>i a b x. c' = HasElement i a b x)"
  shows "taker_moved cs k pc p xs live n L bl en lg r"
proof (rule quiet_move [OF ok k rest bound step])
  have sets: "having unread_index (cs[k := c']) = having unread_index cs" "having uncounted_index (cs[k := c']) = having uncounted_index cs"
      "having emptied_block (cs[k := c']) = having emptied_block cs" "having released_block (cs[k := c']) = having released_block cs"
    using k same by (simp_all add: having_same)
  show "takers_ok (cs[k := c']) h en bl"
    using ok k mine sets set_upd_taker [of cs "taker_ok en bl" c' k] apart_same [OF _ k same(2)] apart_same [OF _ k same(5)]
    by (auto simp: sharing_ok_def takers_ok_def)
  show "shared_memory (cs[k := c']) pc p xs live h bl V"
    using ok sets by (simp add: sharing_ok_def shared_memory_def unread_set_def uncounted_set_def)
  show "shared_index pr L (begun pc (length xs)) (reserving pc) V bl en" using ok by (simp add: sharing_ok_def)
  have "log_ok lg xs h (cs[k := c'])" using log sets by (simp add: log_ok_def)
  then show "log_ok (case c' of HasElement i _ _ x \<Rightarrow> lg @ [(i, x)] | _ \<Rightarrow> lg) xs h (cs[k := c'])"
    using no by (cases c') simp_all
qed (simp_all add: same_counters_def)

text \<open>A step of theory \<open>Cq_Tickets\<close>.\<close>

lemma shared_index_frame: "shared_index pr L B r V bl en \<Longrightarrow> blockIndex pr' = blockIndex pr \<Longrightarrow> ientries pr' = ientries pr \<Longrightarrow>
    nextBlockIndexCapacity pr' = nextBlockIndexCapacity pr \<Longrightarrow> shared_index pr' L B r V bl en"
  by (simp add: shared_index_def index_upto_def header_ok_def)

lemma consumer_step_frame: "consumer_step d pr = Inr (x, pr') \<Longrightarrow> blockIndex pr' = blockIndex pr \<and> ientries pr' = ientries pr \<and>
    nextBlockIndexCapacity pr' = nextBlockIndexCapacity pr \<and> tailBlock pr' = tailBlock pr"
  by (cases d) (auto simp: Let_def assertion_def split: if_splits)

lemma index_given:
  assumes ok: "sharing_ok cs pc pr p xs live h c P F L bl en V" and k: "k < length cs" "cs ! k = Drawing d" "\<forall>i. d \<noteq> HasIndex i"
    and h: "h < length xs" "h < 2 ^ 62" and log: "log_ok lg xs h cs"
  shows "takers_ok (cs[k := Drawing (HasIndex (word_of_nat h))]) (Suc h) en bl"
    and "shared_memory (cs[k := Drawing (HasIndex (word_of_nat h))]) pc p xs live (Suc h) bl V"
    and "log_ok lg xs (Suc h) (cs[k := Drawing (HasIndex (word_of_nat h))])"
proof -
  let ?c = "Drawing (HasIndex (word_of_nat h)) :: 'a taker" and ?cs = "cs[k := Drawing (HasIndex (word_of_nat h))]"
  have nat: "unat (word_of_nat h :: u64) = h" using h(2) by (rule small_nat)
  have tk: "takers_ok cs h en bl" using ok by (simp add: sharing_ok_def)
  note ap = takers_apart [OF tk]
  have old: "unread_index (cs ! k) = None" "uncounted_index (cs ! k) = None" "emptied_block (cs ! k) = None" "released_block (cs ! k) = None"
      "cleared_block (cs ! k) = None"
    using k(2,3) by (auto simp: unread_index_def uncounted_index_def emptied_block_def released_block_def cleared_block_def split: consumer.splits)
  have new: "unread_index ?c = Some h" "uncounted_index ?c = Some h" "emptied_block ?c = None" "released_block ?c = None" "cleared_block ?c = None"
    using nat by (simp_all add: unread_index_def uncounted_index_def emptied_block_def released_block_def cleared_block_def)
  have sets: "having unread_index ?cs = insert h (having unread_index cs)" "having uncounted_index ?cs = insert h (having uncounted_index cs)"
      "having emptied_block ?cs = having emptied_block cs" "having released_block ?cs = having released_block cs"
    using having_upd [OF ap(1) k(1), of ?c] having_upd [OF ap(2) k(1), of ?c] having_same [OF k(1), of emptied_block ?c]
      having_same [OF k(1), of released_block ?c] unfolding new old by simp_all
  have below: "\<forall>i \<in> having uncounted_index cs. i < h" using tk by (simp add: takers_ok_def)
  then have fresh: "h \<notin> having uncounted_index cs" by blast
  show "takers_ok ?cs (Suc h) en bl"
    unfolding takers_ok_def
  proof (intro conjI)
    show "apart uncounted_index ?cs" by (rule apart_upd [OF ap(2) k(1)]) (use fresh new in auto)
    show "apart cleared_block ?cs" by (rule apart_none [OF ap(5) k(1) new(5)])
    show "\<forall>i\<in>having uncounted_index ?cs. i < Suc h" unfolding sets using below by auto
    show "\<forall>c\<in>set ?cs. taker_ok en bl c" by (rule set_upd_taker) (use tk in \<open>simp_all add: takers_ok_def taker_ok_def\<close>)
  qed
  have "h < length (written pc xs)" using h(1) by (simp add: written_def split: putter.split)
  then have "unread_set ?cs (Suc h) (length (written pc xs)) = unread_set cs h (length (written pc xs))"
    "uncounted_set ?cs (Suc h) = uncounted_set cs h" unfolding unread_set_def uncounted_set_def sets by auto
  then show "shared_memory ?cs pc p xs live (Suc h) bl V"
    using ok sets by (simp add: sharing_ok_def shared_memory_def)
  have "having unread_index cs \<subseteq> having uncounted_index cs"
    by (auto simp: having_def uncounted_index_def unread_index_def split: taker.splits consumer.splits)
  then have "{..<Suc h} - having unread_index ?cs = {..<h} - having unread_index cs" unfolding sets using fresh by auto
  then show "log_ok lg xs (Suc h) ?cs" using log by (simp add: log_ok_def)
qed

lemma draw_moved:
  assumes ok: "sharing_ok cs pc pr p xs live h c P F L bl en V" and k: "k < length cs" and bound: "length xs + c + Suc n < 2 ^ 62"
    and log: "log_ok lg xs h cs" and c: "cs ! k = Drawing d" and d: "\<forall>i. d \<noteq> HasIndex i"
  shows "taker_moved cs k pc p xs live n L bl en lg (taker_step (cs ! k) pr p)"
proof -
  have tickets: "tickets_ok (map drawing cs) (length xs) h c P F" and cnt: "counters pr (length xs) h c (card F)"
    using ok by (simp_all add: sharing_ok_def)
  have kd: "k < length (map drawing cs)" "map drawing cs ! k = d" using k c by (simp_all add: drawing_def)
  obtain x pr' h' c' P' F' where run: "consumer_step d pr = Inr (x, pr')" and tickets': "tickets_ok ((map drawing cs)[k := x]) (length xs) h' c' P' F'"
    and cnt': "counters pr' (length xs) h' c' (card F')" and bound': "length xs + c' + n < 2 ^ 62"
    and x: "case x of HasIndex i \<Rightarrow> i = word_of_nat h \<and> h' = Suc h \<and> h < length xs | _ \<Rightarrow> h' = h"
    by (rule caller_moves [OF tickets cnt bound kd(1), unfolded kd(2)])
  have step: "taker_step (cs ! k) pr p = Inr (Drawing x, pr', p)" unfolding c using run d by (cases d) auto
  let ?cs = "cs[k := Drawing x]"
  have map: "(map drawing cs)[k := x] = map drawing ?cs" by (simp add: map_update drawing_def)
  have idx: "shared_index pr' L (begun pc (length xs)) (reserving pc) V bl en"
    using ok consumer_step_frame [OF run] by (auto simp: sharing_ok_def intro: shared_index_frame)
  have put: "putter_ok pc (length xs) (tailBlock pr') p bl en" using ok consumer_step_frame [OF run] by (simp add: sharing_ok_def)
  have rest: "takers_ok ?cs h' en bl \<and> shared_memory ?cs pc p xs live h' bl V \<and> log_ok lg xs h' ?cs"
  proof (cases "\<exists>i. x = HasIndex i")
    case True
    then have "x = HasIndex (word_of_nat h)" "h' = Suc h" "h < length xs" using x by auto
    then show ?thesis using index_given [OF ok k c d _ _ log] bound by simp
  next
    case False
    then have h': "h' = h" using x by (auto split: consumer.splits)
    let ?d = "Drawing x :: 'a taker"
    have same: "unread_index ?d = unread_index (cs ! k)" "uncounted_index ?d = uncounted_index (cs ! k)"
      "emptied_block ?d = emptied_block (cs ! k)" "released_block ?d = released_block (cs ! k)"
      "cleared_block ?d = cleared_block (cs ! k)"
      unfolding c using d False
      by (auto simp: unread_index_def uncounted_index_def emptied_block_def released_block_def cleared_block_def split: consumer.splits)
    have sets: "having unread_index ?cs = having unread_index cs" "having uncounted_index ?cs = having uncounted_index cs"
      "having emptied_block ?cs = having emptied_block cs" "having released_block ?cs = having released_block cs"
      using k same by (simp_all add: having_same)
    have "takers_ok ?cs h en bl"
      using ok k sets set_upd_taker [of cs "taker_ok en bl" "Drawing x" k] apart_same [OF _ k same(2)] apart_same [OF _ k same(5)]
      by (auto simp: sharing_ok_def takers_ok_def taker_ok_def)
    then show ?thesis using ok log sets h'
      by (simp add: sharing_ok_def shared_memory_def unread_set_def uncounted_set_def log_ok_def)
  qed
  show ?thesis
    unfolding taker_moved_def step sum.case prod.case
  proof (intro exI conjI)
    show "sharing_ok ?cs pc pr' p xs live h' c' P' F' L bl en V"
      using tickets' cnt' rest idx put map by (simp add: sharing_ok_def)
  qed (use bound' rest in simp_all)
qed

text \<open>The look-up of the block.\<close>

lemma owned_index:
  assumes ok: "sharing_ok cs pc pr p xs live h c P F L bl en V" and k: "k < length cs" and i: "uncounted_index (cs ! k) = Some i"
  shows "i < h" "i < length xs" "i \<in> uncounted_set cs h" "i div 32 < begun pc (length xs)" "i div 32 \<in> V" "taker_ok en bl (cs ! k)"
proof -
  have having: "i \<in> having uncounted_index cs" using k i by (auto simp: having_iff)
  have tk: "takers_ok cs h en bl" and mem: "shared_memory cs pc p xs live h bl V" using ok by (simp_all add: sharing_ok_def)
  show h: "i < h" using tk having by (simp add: takers_ok_def)
  have "tickets_ok (map drawing cs) (length xs) h c P F" using ok by (simp add: sharing_ok_def)
  then have "h \<le> length xs" by (rule heads_bound)
  then show t: "i < length xs" using h by simp
  then show B: "i div 32 < begun pc (length xs)" by (rule begun_bound)
  show N: "i \<in> uncounted_set cs h" using having by (simp add: uncounted_set_def)
  show "i div 32 \<in> V" using uncounted_in_index [OF mem [unfolded shared_memory_def] N B] .
  show "taker_ok en bl (cs ! k)" using tk k by (simp add: takers_ok_def)
qed

lemma in_shared_index:
  assumes idx: "shared_index pr L B r V bl en" and j: "j \<in> V" "j < B"
  obtains v where "index_upto pr L B (if r then Suc B else B) ((shared_values V bl)(B := v)) en"
    and "L \<le> j" and "j < (if r then Suc B else B)" and "((shared_values V bl)(B := v)) j = Some (Some (bl j))"
  using assms that by (auto simp: shared_index_def shared_values_def)

lemma lookup_moved:
  assumes ok: "sharing_ok cs pc pr p xs live h c P F L bl en V" and k: "k < length cs" and bound: "length xs + c + Suc n < 2 ^ 62"
    and log: "log_ok lg xs h cs" and c: "cs ! k = Drawing (HasIndex w)"
  shows "taker_moved cs k pc p xs live n L bl en lg (taker_step (cs ! k) pr p)"
proof -
  have i: "uncounted_index (cs ! k) = Some (unat w)" unfolding c by (simp add: uncounted_index_def unread_index_def)
  note own = owned_index [OF ok k i]
  have idx: "shared_index pr L (begun pc (length xs)) (reserving pc) V bl en" using ok by (simp add: sharing_ok_def)
  have "get_block_index_entry_for_index w pr = Inr (en (unat w div 32))"
    by (rule in_shared_index [OF idx own(5,4)]) (use look_up [of pr L _ _ _ en "unat w"] in simp)
  then have step: "taker_step (cs ! k) pr p = Inr (HasEntry w (en (unat w div 32)), pr, p)" unfolding c by simp
  show ?thesis
    by (rule silent_move [OF ok k _ _ bound step log])
      (simp_all add: c at_rest_def drawing_def resting_def unread_index_def uncounted_index_def emptied_block_def released_block_def
        cleared_block_def taker_ok_def)
qed

lemma entry_moved:
  assumes ok: "sharing_ok cs pc pr p xs live h c P F L bl en V" and k: "k < length cs" and bound: "length xs + c + Suc n < 2 ^ 62"
    and log: "log_ok lg xs h cs" and c: "cs ! k = HasEntry w a"
  shows "taker_moved cs k pc p xs live n L bl en lg (taker_step (cs ! k) pr p)"
proof -
  have i: "uncounted_index (cs ! k) = Some (unat w)" unfolding c by (simp add: uncounted_index_def unread_index_def)
  note own = owned_index [OF ok k i]
  have a: "a = en (unat w div 32)" using own(6) by (simp add: c taker_ok_def)
  have idx: "shared_index pr L (begun pc (length xs)) (reserving pc) V bl en" using ok by (simp add: sharing_ok_def)
  have "a < length (ientries pr) \<and> evalue (ientries pr ! a) = Some (Some (bl (unat w div 32)))"
    unfolding a by (rule in_shared_index [OF idx own(5,4)]) (use entry_here [of pr L _ _ _ en "unat w div 32"] in simp)
  then have step: "taker_step (cs ! k) pr p = Inr (HasBlock w a (bl (unat w div 32)), pr, p)" unfolding c by (simp add: entry_load_def)
  show ?thesis
    by (rule silent_move [OF ok k _ _ bound step log])
      (simp_all add: c a at_rest_def drawing_def resting_def unread_index_def uncounted_index_def emptied_block_def released_block_def
        cleared_block_def taker_ok_def)
qed

lemma return_moved:
  assumes ok: "sharing_ok cs pc pr p xs live h c P F L bl en V" and k: "k < length cs" and bound: "length xs + c + Suc n < 2 ^ 62"
    and log: "log_ok lg xs h cs" and c: "cs ! k = Returned x"
  shows "taker_moved cs k pc p xs live n L bl en lg (taker_step (cs ! k) pr p)"
  by (rule silent_move [OF ok k _ _ bound _ log, where c' = "Drawing AtStart"])
    (simp_all add: c at_rest_def drawing_def resting_def unread_index_def uncounted_index_def emptied_block_def released_block_def
      cleared_block_def taker_ok_def)

text \<open>The element moved out of its cell, and the cell counted.\<close>

lemma unread_uncounted: "unread_index c = Some i \<Longrightarrow> uncounted_index c = Some i"
  by (auto simp: uncounted_index_def unread_index_def split: taker.splits)

lemma cleared_or: "cleared_block c = Some j \<longleftrightarrow> emptied_block c = Some j \<or> released_block c = Some j"
  by (cases c) (simp_all add: cleared_block_def emptied_block_def released_block_def)

lemma log_grows:
  assumes log: "log_ok lg xs h cs" and ap: "apart unread_index cs" and k: "k < length cs" "unread_index (cs ! k) = Some (unat w)"
    and h: "unat w < h" "h < 2 ^ 62" and c: "unread_index c' = None"
  shows "log_ok (lg @ [(w, xs ! unat w)]) xs h (cs[k := c'])"
proof -
  have word: "word_of_nat (unat w) = w" by simp
  have having: "unat w \<in> having unread_index cs" using k by (auto simp: having_iff)
  have lg: "set lg = (\<lambda>i. (word_of_nat i, xs ! i)) ` ({..<h} - having unread_index cs)" using log by (simp add: log_ok_def)
  have fresh: "w \<notin> fst ` set lg"
  proof
    assume "w \<in> fst ` set lg"
    then obtain j where j: "j < h" "j \<notin> having unread_index cs" "w = word_of_nat j" unfolding lg by auto
    then have "unat w = j" using h(2) small_nat [of j] by simp
    then show False using j(2) having by simp
  qed
  have "having unread_index (cs[k := c']) = having unread_index cs - {unat w}"
    using having_upd [OF ap k(1), of c'] k(2) c by simp
  then have "{..<h} - having unread_index (cs[k := c']) = insert (unat w) ({..<h} - having unread_index cs)" using h(1) having by auto
  then show ?thesis using log lg fresh by (simp add: log_ok_def)
qed

lemma read_moved:
  assumes ok: "sharing_ok cs pc pr p xs live h c P F L bl en V" and k: "k < length cs" and bound: "length xs + c + Suc n < 2 ^ 62"
    and log: "log_ok lg xs h cs" and c: "cs ! k = HasBlock w a b"
  shows "taker_moved cs k pc p xs live n L bl en lg (taker_step (cs ! k) pr p)"
proof -
  let ?i = "unat w" and ?ys = "written pc xs"
  have u: "unread_index (cs ! k) = Some ?i" unfolding c by (simp add: unread_index_def)
  note own = owned_index [OF ok k unread_uncounted [OF u]]
  have ab: "a = en (?i div 32)" "b = bl (?i div 32)" using own(6) by (simp_all add: c taker_ok_def)
  have tk: "takers_ok cs h en bl" using ok by (simp add: sharing_ok_def)
  note ap = takers_apart [OF tk]
  have having: "?i \<in> having unread_index cs" using u k by (auto simp: having_iff)
  then have U: "?i \<in> unread_set cs h (length ?ys)" by (simp add: unread_set_def)
  have mem: "memory_ok p live (spare_of pc) ?ys (unread_set cs h (length ?ys)) (uncounted_set cs h) (having emptied_block cs)
      (having released_block cs) (begun pc (length xs)) bl V" using ok by (simp add: sharing_ok_def shared_memory_def)
  obtain p' where run: "on_block (bl (?i div 32)) (block_take (word_of_nat ?i)) p = Inr (?ys ! ?i, p')"
    and mem': "memory_ok p' live (spare_of pc) ?ys (unread_set cs h (length ?ys) - {?i}) (uncounted_set cs h) (having emptied_block cs)
      (having released_block cs) (begun pc (length xs)) bl V"
    and frame: "\<forall>m \<in> live \<union> spare_of pc. blocks p' ! m = blocks p ! m"
    by (rule memory_read [OF mem U own(4)])
  have el: "?ys ! ?i = xs ! ?i" using own(2) by (simp add: written_def nth_append split: putter.split)
  let ?c = "HasElement w a b (xs ! ?i)"
  have step: "taker_step (cs ! k) pr p = Inr (?c, pr, p')" using run el unfolding c ab by simp
  have new: "unread_index ?c = None" "uncounted_index ?c = uncounted_index (cs ! k)" "emptied_block ?c = emptied_block (cs ! k)"
      "released_block ?c = released_block (cs ! k)" "cleared_block ?c = cleared_block (cs ! k)"
    by (simp_all add: c unread_index_def uncounted_index_def emptied_block_def released_block_def cleared_block_def)
  let ?cs = "cs[k := ?c]"
  have sets: "having unread_index ?cs = having unread_index cs - {?i}" "having uncounted_index ?cs = having uncounted_index cs"
      "having emptied_block ?cs = having emptied_block cs" "having released_block ?cs = having released_block cs"
    using having_upd [OF ap(1) k, of ?c] having_same [OF k new(2)] having_same [OF k new(3)] having_same [OF k new(4)] u new(1) by simp_all
  show ?thesis
  proof (rule quiet_move [OF ok k _ _ bound step])
    show "takers_ok ?cs h en bl"
      using tk sets set_upd_taker [of cs "taker_ok en bl" ?c k] apart_same [OF ap(2) k new(2)] apart_same [OF ap(5) k new(5)] ab
      by (auto simp: takers_ok_def taker_ok_def)
    have "unread_set ?cs h (length ?ys) = unread_set cs h (length ?ys) - {?i}" unfolding unread_set_def sets using own(1) by auto
    then show "shared_memory ?cs pc p' xs live h bl V" using mem' sets by (simp add: shared_memory_def uncounted_set_def)
    show "shared_index pr L (begun pc (length xs)) (reserving pc) V bl en" using ok by (simp add: sharing_ok_def)
    have "h < 2 ^ 62" using bound own(1) heads_bound [of "map drawing cs" "length xs" h c P F] ok by (simp add: sharing_ok_def)
    then show "log_ok (case ?c of HasElement i _ _ x \<Rightarrow> lg @ [(i, x)] | _ \<Rightarrow> lg) xs h ?cs"
      using log_grows [OF log ap(1) k u own(1) _ new(1)] by simp
  qed (use frame in \<open>simp_all add: c at_rest_def drawing_def resting_def same_counters_def\<close>)
qed

lemma count_moved:
  assumes ok: "sharing_ok cs pc pr p xs live h c P F L bl en V" and k: "k < length cs" and bound: "length xs + c + Suc n < 2 ^ 62"
    and log: "log_ok lg xs h cs" and c: "cs ! k = HasElement w a b x"
  shows "taker_moved cs k pc p xs live n L bl en lg (taker_step (cs ! k) pr p)"
proof -
  let ?i = "unat w" and ?ys = "written pc xs"
  have u: "uncounted_index (cs ! k) = Some ?i" unfolding c by (simp add: uncounted_index_def)
  note own = owned_index [OF ok k u]
  have ab: "a = en (?i div 32)" "b = bl (?i div 32)" using own(6) by (simp_all add: c taker_ok_def)
  have tk: "takers_ok cs h en bl" using ok by (simp add: sharing_ok_def)
  note ap = takers_apart [OF tk]
  have "?i \<notin> having unread_index cs"
  proof
    assume "?i \<in> having unread_index cs"
    then obtain l where l: "l < length cs" "unread_index (cs ! l) = Some ?i" by (auto simp: having_iff)
    then have "l = k" using apartD [OF ap(2) l(1) k] unread_uncounted u by blast
    then show False using l(2) c by (simp add: unread_index_def)
  qed
  then have U: "?i \<notin> unread_set cs h (length ?ys)" using own(1) by (simp add: unread_set_def)
  have mem: "memory_ok p live (spare_of pc) ?ys (unread_set cs h (length ?ys)) (uncounted_set cs h) (having emptied_block cs)
      (having released_block cs) (begun pc (length xs)) bl V" using ok by (simp add: sharing_ok_def shared_memory_def)
  obtain p' full where run: "on_block (bl (?i div 32)) block_set_empty p = Inr (full, p')"
    and mem': "memory_ok p' live (spare_of pc) ?ys (unread_set cs h (length ?ys)) (uncounted_set cs h - {?i})
      (if full then insert (?i div 32) (having emptied_block cs) else having emptied_block cs)
      (having released_block cs) (begun pc (length xs)) bl V"
    and fresh: "full \<longrightarrow> ?i div 32 \<notin> having emptied_block cs"
    and frame: "\<forall>m \<in> live \<union> spare_of pc. blocks p' ! m = blocks p ! m"
    by (rule memory_count [OF mem own(3) U own(4)])
  let ?c = "if full then Emptied w a b x else Returned x"
  have step: "taker_step (cs ! k) pr p = Inr (?c, pr, p')" using run unfolding c ab by simp
  have old: "unread_index (cs ! k) = None" "emptied_block (cs ! k) = None" "released_block (cs ! k) = None" "cleared_block (cs ! k) = None"
    by (simp_all add: c unread_index_def emptied_block_def released_block_def cleared_block_def)
  have new: "unread_index ?c = None" "uncounted_index ?c = None" "emptied_block ?c = (if full then Some (?i div 32) else None)"
      "released_block ?c = None" "cleared_block ?c = (if full then Some (?i div 32) else None)"
    by (simp_all add: unread_index_def uncounted_index_def emptied_block_def released_block_def cleared_block_def)
  let ?cs = "cs[k := ?c]"
  have sets: "having unread_index ?cs = having unread_index cs" "having uncounted_index ?cs = having uncounted_index cs - {?i}"
      "having emptied_block ?cs = (if full then insert (?i div 32) (having emptied_block cs) else having emptied_block cs)"
      "having released_block ?cs = having released_block cs"
    using having_upd [OF ap(1) k, of ?c] having_upd [OF ap(2) k, of ?c] having_upd [OF ap(3) k, of ?c] having_upd [OF ap(4) k, of ?c]
    unfolding old new u by (simp_all split: if_splits)
  have cleared: "?i div 32 \<notin> having cleared_block cs" if full
  proof -
    have "having cleared_block cs = having emptied_block cs \<union> having released_block cs"
      by (auto simp: having_def cleared_or)
    moreover have "?i div 32 \<notin> having released_block cs" using mem own(5) by (auto simp: memory_ok_def)
    ultimately show ?thesis using fresh that by simp
  qed
  show ?thesis
  proof (rule quiet_move [OF ok k _ _ bound step])
    have "apart uncounted_index ?cs" by (rule apart_none [OF ap(2) k new(2)])
    moreover have "apart cleared_block ?cs" by (rule apart_upd [OF ap(5) k]) (use cleared new(5) in \<open>auto split: if_splits\<close>)
    moreover have "\<forall>c\<in>set ?cs. taker_ok en bl c" by (rule set_upd_taker) (use tk ab in \<open>simp_all add: takers_ok_def taker_ok_def\<close>)
    ultimately show "takers_ok ?cs h en bl" using tk sets(2) by (simp add: takers_ok_def)
    have "uncounted_set ?cs h = uncounted_set cs h - {?i}" unfolding uncounted_set_def sets using own(1) by auto
    then show "shared_memory ?cs pc p' xs live h bl V" using mem' sets by (simp add: shared_memory_def unread_set_def)
    show "shared_index pr L (begun pc (length xs)) (reserving pc) V bl en" using ok by (simp add: sharing_ok_def)
    show "log_ok (case ?c of HasElement i _ _ x \<Rightarrow> lg @ [(i, x)] | _ \<Rightarrow> lg) xs h ?cs" using log sets(1) by (simp add: log_ok_def)
  qed (use frame in \<open>simp_all add: c at_rest_def drawing_def resting_def same_counters_def\<close>)
qed

text \<open>The emptied block out of the index, and back on the free list.\<close>

lemma leave_moved:
  assumes ok: "sharing_ok cs pc pr p xs live h c P F L bl en V" and k: "k < length cs" and bound: "length xs + c + Suc n < 2 ^ 62"
    and log: "log_ok lg xs h cs" and c: "cs ! k = Emptied w a b x"
  shows "taker_moved cs k pc p xs live n L bl en lg (taker_step (cs ! k) pr p)"
proof -
  let ?j = "unat w div 32" and ?ys = "written pc xs" and ?B = "begun pc (length xs)"
  have tk: "takers_ok cs h en bl" using ok by (simp add: sharing_ok_def)
  note ap = takers_apart [OF tk]
  have "taker_ok en bl (cs ! k)" using tk k by (simp add: takers_ok_def)
  then have ab: "a = en ?j" "b = bl ?j" by (simp_all add: c taker_ok_def)
  have mem: "memory_ok p live (spare_of pc) ?ys (unread_set cs h (length ?ys)) (uncounted_set cs h) (having emptied_block cs)
      (having released_block cs) ?B bl V" using ok by (simp add: sharing_ok_def shared_memory_def)
  have e: "emptied_block (cs ! k) = Some ?j" by (simp add: c emptied_block_def)
  then have E: "?j \<in> having emptied_block cs" using k by (auto simp: having_iff)
  then have jV: "?j \<in> V" and jB: "?j < ?B" using mem by (auto simp: memory_ok_def)
  have idx: "shared_index pr L ?B (reserving pc) V bl en" using ok by (simp add: sharing_ok_def)
  obtain v where up: "index_upto pr L ?B (if reserving pc then Suc ?B else ?B) ((shared_values V bl)(?B := v)) en"
    and j: "L \<le> ?j" "?j < (if reserving pc then Suc ?B else ?B)" by (rule in_shared_index [OF idx jV jB])
  obtain pr' where run: "entry_store (en ?j) None pr = Inr pr'" and same: "same_counters pr pr'"
    and up': "index_upto pr' L ?B (if reserving pc then Suc ?B else ?B) ((shared_values V bl)(?B := v, ?j := Some None)) en"
    by (rule store_entry [OF up j])
  have "(shared_values V bl)(?B := v, ?j := Some None) = (shared_values (V - {?j}) bl)(?B := v)"
    using jB by (auto simp: shared_values_def fun_eq_iff)
  then have idx': "shared_index pr' L ?B (reserving pc) (V - {?j}) bl en" using up' idx by (auto simp: shared_index_def)
  let ?c = "Released w b x"
  have step: "taker_step (cs ! k) pr p = Inr (?c, pr', p)" using run unfolding c ab by simp
  have new: "unread_index ?c = unread_index (cs ! k)" "uncounted_index ?c = uncounted_index (cs ! k)" "cleared_block ?c = cleared_block (cs ! k)"
      "emptied_block ?c = None" "released_block ?c = Some ?j" "released_block (cs ! k) = None"
    by (simp_all add: c unread_index_def uncounted_index_def emptied_block_def released_block_def cleared_block_def)
  let ?cs = "cs[k := ?c]"
  have sets: "having unread_index ?cs = having unread_index cs" "having uncounted_index ?cs = having uncounted_index cs"
      "having emptied_block ?cs = having emptied_block cs - {?j}" "having released_block ?cs = insert ?j (having released_block cs)"
    using having_same [OF k new(1)] having_same [OF k new(2)] having_upd [OF ap(3) k, of ?c] having_upd [OF ap(4) k, of ?c]
    unfolding e new(4-6) by simp_all
  show ?thesis
  proof (rule quiet_move [OF ok k _ _ bound step same _ _ idx'])
    have "\<forall>c\<in>set ?cs. taker_ok en bl c" by (rule set_upd_taker) (use tk ab in \<open>simp_all add: takers_ok_def taker_ok_def\<close>)
    then show "takers_ok ?cs h en bl"
      using tk sets apart_same [OF ap(2) k new(2)] apart_same [OF ap(5) k new(3)] by (simp add: takers_ok_def)
    show "shared_memory ?cs pc p xs live h bl (V - {?j})"
      using memory_leave [OF mem E] sets by (simp add: shared_memory_def unread_set_def uncounted_set_def)
    show "log_ok (case ?c of HasElement i _ _ x \<Rightarrow> lg @ [(i, x)] | _ \<Rightarrow> lg) xs h ?cs" using log sets(1) by (simp add: log_ok_def)
  qed (simp_all add: c at_rest_def drawing_def resting_def)
qed

lemma free_moved:
  assumes ok: "sharing_ok cs pc pr p xs live h c P F L bl en V" and k: "k < length cs" and bound: "length xs + c + Suc n < 2 ^ 62"
    and log: "log_ok lg xs h cs" and c: "cs ! k = Released w b x"
  shows "taker_moved cs k pc p xs live n L bl en lg (taker_step (cs ! k) pr p)"
proof -
  let ?j = "unat w div 32" and ?ys = "written pc xs" and ?B = "begun pc (length xs)"
  have tk: "takers_ok cs h en bl" using ok by (simp add: sharing_ok_def)
  note ap = takers_apart [OF tk]
  have "taker_ok en bl (cs ! k)" using tk k by (simp add: takers_ok_def)
  then have b: "b = bl ?j" by (simp add: c taker_ok_def)
  have mem: "memory_ok p live (spare_of pc) ?ys (unread_set cs h (length ?ys)) (uncounted_set cs h) (having emptied_block cs)
      (having released_block cs) ?B bl V" using ok by (simp add: sharing_ok_def shared_memory_def)
  have r: "released_block (cs ! k) = Some ?j" by (simp add: c released_block_def)
  then have R: "?j \<in> having released_block cs" using k by (auto simp: having_iff)
  obtain p' where run: "add_block_to_free_list (bl ?j) p = Inr p'"
    and mem': "memory_ok p' live (spare_of pc) ?ys (unread_set cs h (length ?ys)) (uncounted_set cs h) (having emptied_block cs)
      (having released_block cs - {?j}) ?B bl V"
    and frame: "\<forall>m \<in> live \<union> spare_of pc. blocks p' ! m = blocks p ! m"
    by (rule memory_free [OF mem R])
  let ?c = "Returned x"
  have step: "taker_step (cs ! k) pr p = Inr (?c, pr, p')" using run unfolding c b by simp
  have new: "unread_index ?c = unread_index (cs ! k)" "uncounted_index ?c = uncounted_index (cs ! k)"
      "emptied_block ?c = emptied_block (cs ! k)" "cleared_block ?c = None" "released_block ?c = None"
    by (simp_all add: c unread_index_def uncounted_index_def emptied_block_def released_block_def cleared_block_def)
  let ?cs = "cs[k := ?c]"
  have sets: "having unread_index ?cs = having unread_index cs" "having uncounted_index ?cs = having uncounted_index cs"
      "having emptied_block ?cs = having emptied_block cs" "having released_block ?cs = having released_block cs - {?j}"
    using having_same [OF k new(1)] having_same [OF k new(2)] having_same [OF k new(3)] having_upd [OF ap(4) k, of ?c]
    unfolding r new(5) by simp_all
  show ?thesis
  proof (rule quiet_move [OF ok k _ _ bound step])
    have "\<forall>c\<in>set ?cs. taker_ok en bl c" by (rule set_upd_taker) (use tk in \<open>simp_all add: takers_ok_def taker_ok_def\<close>)
    then show "takers_ok ?cs h en bl"
      using tk sets apart_same [OF ap(2) k new(2)] apart_none [OF ap(5) k new(4)] by (simp add: takers_ok_def)
    show "shared_memory ?cs pc p' xs live h bl V"
      using mem' sets by (simp add: shared_memory_def unread_set_def uncounted_set_def)
    show "shared_index pr L ?B (reserving pc) V bl en" using ok by (simp add: sharing_ok_def)
    show "log_ok (case ?c of HasElement i _ _ x \<Rightarrow> lg @ [(i, x)] | _ \<Rightarrow> lg) xs h ?cs" using log sets(1) by (simp add: log_ok_def)
  qed (use frame in \<open>simp_all add: c at_rest_def drawing_def resting_def same_counters_def\<close>)
qed

lemma taker_moves:
  assumes ok: "sharing_ok cs pc pr p xs live h c P F L bl en V" and k: "k < length cs" and bound: "length xs + c + Suc n < 2 ^ 62"
    and log: "log_ok lg xs h cs"
  shows "taker_moved cs k pc p xs live n L bl en lg (taker_step (cs ! k) pr p)"
proof (cases "cs ! k")
  case (Drawing d)
  then show ?thesis
    using draw_moved [OF ok k bound log Drawing] lookup_moved [OF ok k bound log] by (cases "\<exists>i. d = HasIndex i") auto
next
  case (HasEntry w a)
  then show ?thesis by (rule entry_moved [OF ok k bound log])
next
  case (HasBlock w a b)
  then show ?thesis by (rule read_moved [OF ok k bound log])
next
  case (HasElement w a b x)
  then show ?thesis by (rule count_moved [OF ok k bound log])
next
  case (Emptied w a b x)
  then show ?thesis by (rule leave_moved [OF ok k bound log])
next
  case (Released w b x)
  then show ?thesis by (rule free_moved [OF ok k bound log])
next
  case (Returned x)
  then show ?thesis by (rule return_moved [OF ok k bound log])
qed

end
