(* ===== verification/Cq_Shared_Runs.thy ===== *)
theory Cq_Shared_Runs
  imports Cq_Shared
begin

text \<open>
  The steps of the producer's thread, and runs. In every interleaving of the thread and its consumers no step faults, each consumer
  gets the element published with its index, and no element is lost, given twice or overwritten; blocks go back to the free list once each,
  as soon as they are done with, while blocks that others hold are not touched.
\<close>

section \<open>Steps of the producer's thread\<close>

definition putter_moved ::
  "'a taker list \<Rightarrow> 'a cq_pool \<Rightarrow> 'a list \<Rightarrow> nat set \<Rightarrow> nat \<Rightarrow> nat \<Rightarrow> nat set \<Rightarrow> nat set \<Rightarrow> cq_fault + ('a putter \<times> cq_producer \<times> 'a cq_pool) \<Rightarrow> bool" where
  "putter_moved cs p xs live h c P F r \<longleftrightarrow> (case r of Inl _ \<Rightarrow> False
    | Inr (pc, pr, p') \<Rightarrow> (\<exists>L bl en V. sharing_ok cs pc pr p' xs live h c P F L bl en V) \<and> (\<forall>m \<in> live. blocks p' ! m = blocks p ! m))"

lemma putter_movedI:
  assumes "r = Inr (pc, pr, p')" and "sharing_ok cs pc pr p' xs live h c P F L bl en V" and "\<forall>m \<in> live. blocks p' ! m = blocks p ! m"
  shows "putter_moved cs p xs live h c P F r"
  using assms by (auto simp: putter_moved_def)

text \<open>A step that only moves on.\<close>

lemma putter_silent:
  assumes ok: "sharing_ok cs pc pr p xs live h c P F L bl en V" and step: "r = Inr (pc', pr', p)"
    and same: "begun pc' (length xs) = begun pc (length xs)" "reserving pc' = reserving pc" "spare_of pc' = spare_of pc" "written pc' xs = written pc xs"
    and pr: "pr' = pr \<or> (\<exists>b. pr' = pr\<lparr>tailBlock := b\<rparr>)" and put: "putter_ok pc' (length xs) (tailBlock pr') p bl en"
  shows "putter_moved cs p xs live h c P F r"
proof (rule putter_movedI [OF step])
  have "shared_index pr' L (begun pc (length xs)) (reserving pc) V bl en"
    using ok pr by (auto simp: sharing_ok_def intro: shared_index_frame)
  moreover have "counters pr' (length xs) h c (card F)" using ok pr by (auto simp: sharing_ok_def counters_def)
  ultimately show "sharing_ok cs pc' pr' p xs live h c P F L bl en V"
    using ok same put by (simp add: sharing_ok_def shared_memory_def)
qed simp

lemma heads_published: "sharing_ok cs pc pr p xs live h c P F L bl en V \<Longrightarrow> h \<le> length xs"
  using heads_bound by (auto simp: sharing_ok_def)

lemma takers_ok_new:
  assumes ok: "sharing_ok cs pc pr p xs live h c P F L bl en V" and new: "\<forall>j < begun pc (length xs). en' j = en j \<and> bl' j = bl j"
  shows "takers_ok cs h en' bl'"
proof -
  have tk: "takers_ok cs h en bl" and mem: "shared_memory cs pc p xs live h bl V" using ok by (simp_all add: sharing_ok_def)
  have "taker_ok en' bl' d" if d: "d \<in> set cs" for d
  proof -
    obtain k where k: "k < length cs" "cs ! k = d" using d by (auto simp: set_conv_nth)
    have u: "i div 32 < begun pc (length xs)" if "uncounted_index d = Some i" for i
      using owned_index(4) [OF ok k(1)] that k(2) by simp
    have "having emptied_block cs \<union> having released_block cs \<subseteq> {..<begun pc (length xs)}"
      using mem by (auto simp: shared_memory_def memory_ok_def)
    then have cl: "j < begun pc (length xs)" if "cleared_block d = Some j" for j
      using that d by (auto simp: cleared_or having_def)
    have "taker_ok en bl d" using tk d by (simp add: takers_ok_def)
    then show ?thesis
      using u cl new by (auto simp: taker_ok_def uncounted_index_def unread_index_def cleared_block_def split: taker.splits)
  qed
  then show ?thesis using tk by (simp add: takers_ok_def)
qed

lemma call_moved:
  assumes ok: "sharing_ok cs (Calling x m) pr p xs live h c P F L bl en V"
  shows "putter_moved cs p xs live h c P F (putter_step (Calling x m) pr p)"
proof -
  have t: "tailIndex pr = word_of_nat (length xs)" using ok by (simp add: sharing_ok_def counters_def)
  have zero: "(tailIndex pr AND 31 = 0) \<longleftrightarrow> length xs mod 32 = 0"
    using block_cell_of_nat [of "length xs"] unfolding t by (simp add: word_unat_eq_iff)
  show ?thesis
  proof (cases "length xs mod 32 = 0")
    case True
    then show ?thesis
      by (intro putter_silent [OF ok, where pc' = "AtHead x m (word_of_nat (length xs))" and pr' = pr])
        (use zero t in \<open>simp_all add: begun_def reserving_def spare_of_def written_def putter_ok_def Let_def\<close>)
  next
    case False
    have "putter_ok (Calling x m) (length xs) (tailBlock pr) p bl en" using ok by (simp add: sharing_ok_def)
    then have tb: "tailBlock pr = Some (bl (length xs div 32))" using False by (simp add: putter_ok_def)
    then show ?thesis
      by (intro putter_silent [OF ok, where pc' = "AtElement x (word_of_nat (length xs))" and pr' = pr])
        (use zero t False after_block_inside [OF False] in \<open>simp_all add: begun_def reserving_def spare_of_def written_def putter_ok_def Let_def\<close>)
  qed
qed

lemma head_moved:
  assumes ok: "sharing_ok cs (AtHead x m w) pr p xs live h c P F L bl en V" and bound: "length xs < 2 ^ 62"
  shows "putter_moved cs p xs live h c P F (putter_step (AtHead x m w) pr p)"
proof -
  have w: "w = word_of_nat (length xs)" "length xs mod 32 = 0" using ok by (simp_all add: sharing_ok_def putter_ok_def)
  have hd: "headIndex pr = word_of_nat h" using ok by (simp add: sharing_ok_def counters_def)
  have ht: "h \<le> length xs" using ok by (rule heads_published)
  have "\<not> circular_less_than w (headIndex pr)" unfolding w hd using ht bound by (intro not_behind) simp_all
  moreover have "w + 32 = word_of_nat (length xs + 32)" using w by simp
  then have "circular_less_than (headIndex pr) (w + 32)" unfolding hd using ht bound circular_of_nat [of h "length xs + 32"] by simp
  ultimately show ?thesis
    by (intro putter_silent [OF ok, where pc' = "AtIndex x m w" and pr' = pr])
      (use w in \<open>simp_all add: begun_def reserving_def spare_of_def written_def putter_ok_def Let_def\<close>)
qed

text \<open>A new block: its entry in the index, the block itself, and the value of the entry.\<close>

lemma boundary:
  assumes "t mod 32 = (0 :: nat)"
  shows "32 * (t div 32) = t" and "after_block t = t div 32"
  using block_split(1) [of t] after_block_boundary [OF assms] assms by simp_all

lemma index_moved:
  assumes ok: "sharing_ok cs (AtIndex x m w) pr p xs live h c P F L bl en V" and bound: "length xs < 2 ^ 62"
  shows "putter_moved cs p xs live h c P F (putter_step (AtIndex x m w) pr p)"
proof -
  let ?t = "length xs"
  let ?B = "?t div 32"
  have w: "w = word_of_nat ?t" "?t mod 32 = 0" using ok by (simp_all add: sharing_ok_def putter_ok_def)
  have t: "32 * ?B = ?t" by (rule boundary(1) [OF w(2)])
  have B: "begun (AtIndex x m w) ?t = ?B" using boundary(2) [OF w(2)] by (simp add: begun_def)
  have mem: "shared_memory cs (AtIndex x m w) p xs live h bl V" and idx: "shared_index pr L ?B False V bl en"
    using ok unfolding sharing_ok_def B by (simp_all add: reserving_def)
  then have VB: "V \<subseteq> {..<?B}" unfolding shared_memory_def memory_ok_def B by blast
  obtain v where "index_upto pr L ?B ?B ((shared_values V bl)(?B := v)) en" using idx by (auto simp: shared_index_def)
  then have up: "index_upto pr L ?B ?B (shared_values V bl) en" by (rule index_upto_cong) simp
  have few: "?B - L \<le> 2 ^ 58" using bound by simp
  have known: "\<forall>j \<in> {L..<?B}. shared_values V bl j \<noteq> None" by (simp add: shared_values_def)
  have base: "word_of_nat (32 * ?B) = w" using t w by simp
  note ins = insert_upto [OF up few known, where mem = "\<lambda>_. m" and n = "mallocs p", unfolded base]
  then obtain q pr' n' where run: "insert_block_index_entry (\<lambda>_. m) w pr (mallocs p) = Inr (q, pr', n')"
    by (cases "insert_block_index_entry (\<lambda>_. m) w pr (mallocs p)") auto
  show ?thesis
  proof (cases q)
    case None
    then have pr': "pr' = pr" using ins run by simp
    have step: "putter_step (AtIndex x m w) pr p = Inr (Enqueued False, pr, p\<lparr>mallocs := n'\<rparr>)" using run None pr' by simp
    show ?thesis
    proof (rule putter_movedI [OF step])
      show "sharing_ok cs (Enqueued False) pr (p\<lparr>mallocs := n'\<rparr>) xs live h c P F L bl en V"
        using ok w(2) by (simp add: sharing_ok_def shared_memory_def begun_def reserving_def spare_of_def written_def putter_ok_def)
    qed simp
  next
    case (Some a)
    then obtain L' v' where same: "same_counters pr pr'" and L': "L \<le> L'" "L' \<le> ?B" "\<forall>j \<in> {L..<L'}. shared_values V bl j = Some None"
      and up': "index_upto pr' L' ?B (Suc ?B) ((shared_values V bl)(?B := v')) (en(?B := a))" using ins run by auto
    have "\<forall>j \<in> V. L' \<le> j"
    proof
      fix j assume j: "j \<in> V"
      then have "L \<le> j" using idx by (simp add: shared_index_def)
      moreover have "shared_values V bl j \<noteq> Some None" using j by (simp add: shared_values_def)
      ultimately show "L' \<le> j" using L'(3) by (meson atLeastLessThan_iff not_le)
    qed
    then have idx': "shared_index pr' L' ?B True V bl (en(?B := a))" using up' by (auto simp: shared_index_def)
    have step: "putter_step (AtIndex x m w) pr p = Inr (AtBlock x m w a, pr', p\<lparr>mallocs := n'\<rparr>)" using run Some by simp
    have B': "begun (AtBlock x m w a) ?t = ?B" using B by (simp add: begun_def)
    have "takers_ok cs h (en(?B := a)) bl" by (rule takers_ok_new [OF ok]) (simp add: B)
    moreover have "shared_memory cs (AtBlock x m w a) (p\<lparr>mallocs := n'\<rparr>) xs live h bl V"
      using mem by (simp add: shared_memory_def begun_def spare_of_def written_def)
    ultimately show ?thesis
      using ok same idx' w B' counters_same [OF _ same]
      by (intro putter_movedI [OF step, where L = L' and V = V and bl = bl and en = "en(?B := a)"])
        (auto simp: sharing_ok_def reserving_def putter_ok_def)
  qed
qed

lemma block_moved:
  assumes ok: "sharing_ok cs (AtBlock x m w a) pr p xs live h c P F L bl en V"
  shows "putter_moved cs p xs live h c P F (putter_step (AtBlock x m w a) pr p)"
proof -
  have w: "w = word_of_nat (length xs)" "length xs mod 32 = 0" "a = en (length xs div 32)" using ok by (simp_all add: sharing_ok_def putter_ok_def)
  have mem: "memory_ok p live {} xs (unread_set cs h (length xs)) (uncounted_set cs h) (having emptied_block cs) (having released_block cs)
      (after_block (length xs)) bl V" using ok by (simp add: sharing_ok_def shared_memory_def spare_of_def written_def begun_def)
  show ?thesis
  proof (rule memory_requisition [OF mem, where mem = "\<lambda>_. m"])
    fix p' assume run: "requisition_block (\<lambda>_. m) p = Inr (None, p')" and same: "blocks p' = blocks p"
      and mem': "memory_ok p' live {} xs (unread_set cs h (length xs)) (uncounted_set cs h) (having emptied_block cs) (having released_block cs)
        (after_block (length xs)) bl V"
    have step: "putter_step (AtBlock x m w a) pr p = Inr (Undoing a, pr, p')" using run by simp
    show ?thesis
    proof (rule putter_movedI [OF step])
      show "sharing_ok cs (Undoing a) pr p' xs live h c P F L bl en V"
        using ok mem' w by (simp add: sharing_ok_def shared_memory_def begun_def reserving_def spare_of_def written_def putter_ok_def)
    qed (simp add: same)
  next
    fix b p' assume run: "requisition_block (\<lambda>_. m) p = Inr (Some b, p')" and raw: "elements (blocks p' ! b) = replicate 32 None"
      and mem': "memory_ok p' live {b} xs (unread_set cs h (length xs)) (uncounted_set cs h) (having emptied_block cs) (having released_block cs)
        (after_block (length xs)) bl V"
      and frame: "\<forall>n \<in> live. blocks p' ! n = blocks p ! n"
    have step: "putter_step (AtBlock x m w a) pr p = Inr (AtReset x w a b, pr, p')" using run by simp
    show ?thesis
    proof (rule putter_movedI [OF step _ frame])
      show "sharing_ok cs (AtReset x w a b) pr p' xs live h c P F L bl en V"
        using ok mem' w raw by (simp add: sharing_ok_def shared_memory_def begun_def reserving_def spare_of_def written_def putter_ok_def)
    qed
  qed
qed

lemma undo_moved:
  assumes ok: "sharing_ok cs (Undoing a) pr p xs live h c P F L bl en V"
  shows "putter_moved cs p xs live h c P F (putter_step (Undoing a) pr p)"
proof -
  let ?B = "length xs div 32"
  have w: "length xs mod 32 = 0" "a = en ?B" using ok by (simp_all add: sharing_ok_def putter_ok_def)
  have B: "after_block (length xs) = ?B" by (rule boundary(2) [OF w(1)])
  have idx: "shared_index pr L ?B True V bl en" using ok by (simp add: sharing_ok_def begun_def reserving_def B)
  then obtain v where up: "index_upto pr L ?B (Suc ?B) ((shared_values V bl)(?B := v)) en" by (auto simp: shared_index_def)
  obtain pr' where run: "bindE (rewind_block_index_tail pr) (entry_store (en ?B) None) = Inr pr'" and same: "same_counters pr pr'"
    and up': "index_upto pr' L ?B ?B ((shared_values V bl)(?B := v)) en" by (rule rewind_upto [OF up])
  have idx': "shared_index pr' L ?B False V bl en" using up' idx by (auto simp: shared_index_def)
  have step: "putter_step (Undoing a) pr p = Inr (Enqueued False, pr', p)" using run w(2) by simp
  show ?thesis
  proof (rule putter_movedI [OF step])
    show "sharing_ok cs (Enqueued False) pr' p xs live h c P F L bl en V"
      using ok idx' w(1) B counters_same [OF _ same]
      by (simp add: sharing_ok_def shared_memory_def begun_def reserving_def spare_of_def written_def putter_ok_def)
  qed simp
qed

lemma reset_moved:
  assumes ok: "sharing_ok cs (AtReset x w a b) pr p xs live h c P F L bl en V"
  shows "putter_moved cs p xs live h c P F (putter_step (AtReset x w a b) pr p)"
proof -
  have w: "w = word_of_nat (length xs)" "length xs mod 32 = 0" "a = en (length xs div 32)" "elements (blocks p ! b) = replicate 32 None"
    using ok by (simp_all add: sharing_ok_def putter_ok_def)
  have mem: "memory_ok p live {b} xs (unread_set cs h (length xs)) (uncounted_set cs h) (having emptied_block cs) (having released_block cs)
      (after_block (length xs)) bl V" using ok by (simp add: sharing_ok_def shared_memory_def spare_of_def written_def begun_def)
  obtain p' where run: "map_block b block_reset_empty p = Inr p'"
    and mem': "memory_ok p' live {b} xs (unread_set cs h (length xs)) (uncounted_set cs h) (having emptied_block cs) (having released_block cs)
      (after_block (length xs)) bl V"
    and raw: "elements (blocks p' ! b) = elements (blocks p ! b)" and zero: "elementsCompletelyDequeued (blocks p' ! b) = 0"
    and frame: "\<forall>n \<in> live. blocks p' ! n = blocks p ! n" by (rule memory_reset [OF mem])
  have step: "putter_step (AtReset x w a b) pr p = Inr (AtEntry x w a b, pr, p')" using run by simp
  show ?thesis
  proof (rule putter_movedI [OF step _ frame])
    show "sharing_ok cs (AtEntry x w a b) pr p' xs live h c P F L bl en V"
      using ok mem' w raw zero by (simp add: sharing_ok_def shared_memory_def begun_def reserving_def spare_of_def written_def putter_ok_def)
  qed
qed

lemma unread_below: "sharing_ok cs pc pr p xs live h c P F L bl en V \<Longrightarrow> i \<in> unread_set cs h (length xs) \<Longrightarrow> i < length xs"
proof -
  assume ok: "sharing_ok cs pc pr p xs live h c P F L bl en V" and i: "i \<in> unread_set cs h (length xs)"
  have "\<forall>i \<in> having uncounted_index cs. i < h" using ok by (simp add: sharing_ok_def takers_ok_def)
  moreover have "i \<in> having uncounted_index cs" if "i \<in> having unread_index cs" using that unread_uncounted by (auto simp: having_def)
  ultimately show ?thesis using i heads_published [OF ok] unfolding unread_set_def by force
qed

lemma entry_store_moved:
  assumes ok: "sharing_ok cs (AtEntry x w a b) pr p xs live h c P F L bl en V"
  shows "putter_moved cs p xs live h c P F (putter_step (AtEntry x w a b) pr p)"
proof -
  let ?t = "length xs"
  let ?B = "?t div 32"
  have w: "w = word_of_nat ?t" "?t mod 32 = 0" "a = en ?B" "elements (blocks p ! b) = replicate 32 None"
      "elementsCompletelyDequeued (blocks p ! b) = 0" using ok by (simp_all add: sharing_ok_def putter_ok_def)
  have t: "32 * ?B = ?t" by (rule boundary(1) [OF w(2)])
  have B: "after_block ?t = ?B" by (rule boundary(2) [OF w(2)])
  have mem: "memory_ok p live {b} xs (unread_set cs h ?t) (uncounted_set cs h) (having emptied_block cs) (having released_block cs) ?B bl V"
    using ok by (simp add: sharing_ok_def shared_memory_def spare_of_def written_def begun_def B)
  have new: "32 * ?B + r \<in> uncounted_set cs h \<and> 32 * ?B + r \<notin> unread_set cs h ?t" for r
    using heads_published [OF ok] unread_below [OF ok, of "?t + r"] unfolding t by (auto simp: uncounted_set_def)
  have mem': "memory_ok p live {} xs (unread_set cs h ?t) (uncounted_set cs h) (having emptied_block cs) (having released_block cs) (Suc ?B)
      (bl(?B := b)) (insert ?B V)" by (rule memory_enter [OF mem w(4,5) new])
  have idx: "shared_index pr L ?B True V bl en" using ok by (simp add: sharing_ok_def begun_def reserving_def B)
  then obtain v where up: "index_upto pr L ?B (Suc ?B) ((shared_values V bl)(?B := v)) en" by (auto simp: shared_index_def)
  have LB: "L \<le> ?B" using up by (simp add: index_upto_def)
  obtain pr' where run: "entry_store (en ?B) (Some b) pr = Inr pr'" and same: "same_counters pr pr'"
    and up': "index_upto pr' L ?B (Suc ?B) ((shared_values V bl)(?B := v, ?B := Some (Some b))) en" by (rule store_entry [OF up LB]) simp
  have "?B \<notin> V" using mem by (auto simp: memory_ok_def)
  then have "shared_values (insert ?B V) (bl(?B := b)) j = ((shared_values V bl)(?B := v, ?B := Some (Some b))) j" for j
    by (auto simp: shared_values_def)
  then have "index_upto pr' L (Suc ?B) (Suc ?B) ((shared_values (insert ?B V) (bl(?B := b)))(Suc ?B := v)) en"
    by (intro index_upto_cong [OF index_grows [OF up']]) simp
  then have idx': "shared_index pr' L (Suc ?B) False (insert ?B V) (bl(?B := b)) en" using idx LB by (auto simp: shared_index_def)
  have tk: "takers_ok cs h en (bl(?B := b))" by (rule takers_ok_new [OF ok]) (simp add: begun_def B)
  have step: "putter_step (AtEntry x w a b) pr p = Inr (AtTailBlock x w b, pr', p)" using run w(3) by simp
  show ?thesis
  proof (rule putter_movedI [OF step])
    show "sharing_ok cs (AtTailBlock x w b) pr' p xs live h c P F L (bl(?B := b)) en (insert ?B V)"
      using ok mem' idx' tk w(1) counters_same [OF _ same]
      by (simp add: sharing_ok_def shared_memory_def begun_def reserving_def spare_of_def written_def putter_ok_def)
  qed simp
qed

lemma tail_block_moved:
  assumes ok: "sharing_ok cs (AtTailBlock x w b) pr p xs live h c P F L bl en V"
  shows "putter_moved cs p xs live h c P F (putter_step (AtTailBlock x w b) pr p)"
proof -
  have "w = word_of_nat (length xs)" "b = bl (length xs div 32)" using ok by (simp_all add: sharing_ok_def putter_ok_def)
  then show ?thesis
    by (intro putter_silent [OF ok, where pc' = "AtElement x w" and pr' = "pr\<lparr>tailBlock := Some b\<rparr>"])
      (auto simp: begun_def reserving_def spare_of_def written_def putter_ok_def)
qed

text \<open>The element, and its publication.\<close>

lemma element_moved:
  assumes ok: "sharing_ok cs (AtElement x w) pr p xs live h c P F L bl en V"
  shows "putter_moved cs p xs live h c P F (putter_step (AtElement x w) pr p)"
proof -
  let ?t = "length xs"
  have w: "w = word_of_nat ?t" "tailBlock pr = Some (bl (?t div 32))" using ok by (simp_all add: sharing_ok_def putter_ok_def)
  have mem: "memory_ok p live {} xs (unread_set cs h ?t) (uncounted_set cs h) (having emptied_block cs) (having released_block cs)
      (Suc (?t div 32)) bl V" using ok by (simp add: sharing_ok_def shared_memory_def spare_of_def written_def begun_def)
  have ht: "h \<le> ?t" by (rule heads_published [OF ok])
  then have N: "?t \<in> uncounted_set cs h" by (simp add: uncounted_set_def)
  obtain p' where run: "map_block (bl (?t div 32)) (block_put (word_of_nat ?t) x) p = Inr p'"
    and mem': "memory_ok p' live {} (xs @ [x]) (insert ?t (unread_set cs h ?t)) (uncounted_set cs h) (having emptied_block cs)
      (having released_block cs) (Suc (?t div 32)) bl V"
    and frame: "\<forall>n \<in> live \<union> {}. blocks p' ! n = blocks p ! n"
    by (rule memory_put [OF mem N _ ballI [OF unread_below [OF ok]], where x = x]) simp_all
  have "insert ?t (unread_set cs h ?t) = unread_set cs h (Suc ?t)" using ht by (auto simp: unread_set_def)
  then have mem'': "shared_memory cs (AtPublish x w) p' xs live h bl V"
    using mem' by (simp add: shared_memory_def spare_of_def written_def begun_def)
  have step: "putter_step (AtElement x w) pr p = Inr (AtPublish x w, pr, p')" using run w by simp
  show ?thesis
  proof (rule putter_movedI [OF step])
    show "sharing_ok cs (AtPublish x w) pr p' xs live h c P F L bl en V"
      using ok mem'' w by (simp add: sharing_ok_def begun_def reserving_def putter_ok_def)
  qed (use frame in simp)
qed

lemma publish_moved:
  assumes ok: "sharing_ok cs (AtPublish x w) pr p xs live h c P F L bl en V"
  shows "putter_moved cs p (xs @ [x]) live h c P F (putter_step (AtPublish x w) pr p)"
proof -
  let ?t = "length xs" and ?pr = "pr\<lparr>tailIndex := 1 + w\<rparr>"
  have w: "w = word_of_nat ?t" "tailBlock pr = Some (bl (?t div 32))" using ok by (simp_all add: sharing_ok_def putter_ok_def)
  have B: "after_block (Suc ?t) = Suc (?t div 32)" by (rule after_block_Suc)
  have "tickets_ok (map drawing cs) (length (xs @ [x])) h c P F" using ok publish_ok by (auto simp: sharing_ok_def)
  moreover have "counters ?pr (length (xs @ [x])) h c (card F)" using ok w by (simp add: sharing_ok_def counters_def)
  moreover have "shared_memory cs (Enqueued True) p (xs @ [x]) live h bl V"
    using ok B by (simp add: sharing_ok_def shared_memory_def spare_of_def written_def begun_def)
  moreover have "shared_index ?pr L (begun (Enqueued True) (length (xs @ [x]))) (reserving (Enqueued True)) V bl en"
    by (rule shared_index_frame [where pr = pr]) (use ok B in \<open>simp_all add: sharing_ok_def begun_def reserving_def\<close>)
  moreover have "putter_ok (Enqueued True) (length (xs @ [x])) (tailBlock ?pr) p bl en"
  proof -
    have "Suc ?t div 32 = ?t div 32" if "Suc ?t mod 32 \<noteq> 0" using that by (simp add: div_Suc)
    then show ?thesis using w(2) by (simp add: putter_ok_def)
  qed
  ultimately have "sharing_ok cs (Enqueued True) ?pr p (xs @ [x]) live h c P F L bl en V" using ok by (simp add: sharing_ok_def)
  moreover have "putter_step (AtPublish x w) pr p = Inr (Enqueued True, ?pr, p)" by simp
  ultimately show ?thesis by (intro putter_movedI [where p' = p]) simp_all
qed

lemma putter_moves:
  assumes ok: "sharing_ok cs pc pr p xs live h c P F L bl en V" and bound: "length xs < 2 ^ 62"
  shows "putter_moved cs p (case pc of AtPublish x _ \<Rightarrow> xs @ [x] | _ \<Rightarrow> xs) live h c P F (putter_step pc pr p)"
proof (cases pc)
  case (Enqueued r)
  then have step: "putter_step pc pr p = Inr (Enqueued r, pr, p)" by simp
  show ?thesis unfolding Enqueued putter.case by (rule putter_movedI [OF step [unfolded Enqueued] ok [unfolded Enqueued]]) simp
next
  case (Calling x m)
  show ?thesis unfolding Calling putter.case by (rule call_moved [OF ok [unfolded Calling]])
next
  case (AtHead x m w)
  show ?thesis unfolding AtHead putter.case by (rule head_moved [OF ok [unfolded AtHead] bound])
next
  case (AtIndex x m w)
  show ?thesis unfolding AtIndex putter.case by (rule index_moved [OF ok [unfolded AtIndex] bound])
next
  case (AtBlock x m w a)
  show ?thesis unfolding AtBlock putter.case by (rule block_moved [OF ok [unfolded AtBlock]])
next
  case (Undoing a)
  show ?thesis unfolding Undoing putter.case by (rule undo_moved [OF ok [unfolded Undoing]])
next
  case (AtReset x w a b)
  show ?thesis unfolding AtReset putter.case by (rule reset_moved [OF ok [unfolded AtReset]])
next
  case (AtEntry x w a b)
  show ?thesis unfolding AtEntry putter.case by (rule entry_store_moved [OF ok [unfolded AtEntry]])
next
  case (AtTailBlock x w b)
  show ?thesis unfolding AtTailBlock putter.case by (rule tail_block_moved [OF ok [unfolded AtTailBlock]])
next
  case (AtElement x w)
  show ?thesis unfolding AtElement putter.case by (rule element_moved [OF ok [unfolded AtElement]])
next
  case (AtPublish x w)
  show ?thesis unfolding AtPublish putter.case by (rule publish_moved [OF ok [unfolded AtPublish]])
qed

section \<open>Runs\<close>

definition sharing_inv :: "'a sharing \<Rightarrow> nat set \<Rightarrow> nat \<Rightarrow> bool" where
  "sharing_inv s live n \<longleftrightarrow> (\<exists>h c P F L bl en V.
    sharing_ok (takers s) (putter s) (producer s) (memory s) (put s) live h c P F L bl en V \<and>
    length (put s) + c + n < 2 ^ 62 \<and> log_ok (taken s) (put s) h (takers s))"

definition shared_next :: "'a sharing \<Rightarrow> 'a sharing \<Rightarrow> nat set \<Rightarrow> nat \<Rightarrow> bool" where
  "shared_next s s' live n \<longleftrightarrow> sharing_inv s' live n \<and> length (takers s') = length (takers s) \<and>
    (\<forall>m \<in> live. blocks (memory s') ! m = blocks (memory s) ! m)"

lemma sharing_invI:
  "sharing_ok (takers s) (putter s) (producer s) (memory s) (put s) live h c P F L bl en V \<Longrightarrow>
    length (put s) + c + n < 2 ^ 62 \<Longrightarrow> log_ok (taken s) (put s) h (takers s) \<Longrightarrow> sharing_inv s live n"
  unfolding sharing_inv_def by blast

lemma taker_event:
  assumes inv: "sharing_inv s live (Suc n)" and k: "k < length (takers s)"
  shows "\<exists>s'. share_step s (Taker k) = Inr s' \<and> shared_next s s' live n"
proof -
  obtain h c P F L bl en V where ok: "sharing_ok (takers s) (putter s) (producer s) (memory s) (put s) live h c P F L bl en V"
    and bound: "length (put s) + c + Suc n < 2 ^ 62" and log: "log_ok (taken s) (put s) h (takers s)"
    using inv unfolding sharing_inv_def by blast
  note moved = taker_moves [OF ok k bound log]
  then obtain d pr p where step: "taker_step (takers s ! k) (producer s) (memory s) = Inr (d, pr, p)"
    by (cases "taker_step (takers s ! k) (producer s) (memory s)") (auto simp: taker_moved_def)
  let ?lg = "case d of HasElement i _ _ x \<Rightarrow> taken s @ [(i, x)] | _ \<Rightarrow> taken s"
  let ?s = "s\<lparr>takers := (takers s)[k := d], producer := pr, memory := p, taken := ?lg\<rparr>"
  obtain h' c' P' F' V' where ok': "sharing_ok ((takers s)[k := d]) (putter s) pr p (put s) live h' c' P' F' L bl en V'"
    and bound': "length (put s) + c' + n < 2 ^ 62" and log': "log_ok ?lg (put s) h' ((takers s)[k := d])"
    and frame: "\<forall>m \<in> live. blocks p ! m = blocks (memory s) ! m"
    using moved unfolding step taker_moved_def sum.case prod.case by blast
  have "sharing_inv ?s live n"
    by (rule sharing_invI [where h = h' and c = c' and P = P' and F = F' and L = L and bl = bl and en = en and V = V'])
      (use ok' bound' log' in simp_all)
  then have "shared_next s ?s live n" using frame by (simp add: shared_next_def)
  moreover have "share_step s (Taker k) = Inr ?s" using k step by simp
  ultimately show ?thesis by blast
qed

lemma putter_event:
  assumes inv: "sharing_inv s live (Suc n)"
  shows "\<exists>s'. share_step s Putter = Inr s' \<and> shared_next s s' live n"
proof -
  obtain h c P F L bl en V where ok: "sharing_ok (takers s) (putter s) (producer s) (memory s) (put s) live h c P F L bl en V"
    and bound: "length (put s) + c + Suc n < 2 ^ 62" and log: "log_ok (taken s) (put s) h (takers s)"
    using inv unfolding sharing_inv_def by blast
  let ?xs = "case putter s of AtPublish x _ \<Rightarrow> put s @ [x] | _ \<Rightarrow> put s"
  have "length (put s) < 2 ^ 62" using bound by simp
  note moved = putter_moves [OF ok this]
  then obtain pc pr p where step: "putter_step (putter s) (producer s) (memory s) = Inr (pc, pr, p)"
    by (cases "putter_step (putter s) (producer s) (memory s)") (auto simp: putter_moved_def)
  let ?s = "s\<lparr>putter := pc, producer := pr, memory := p, put := ?xs\<rparr>"
  obtain L' bl' en' V' where ok': "sharing_ok (takers s) pc pr p ?xs live h c P F L' bl' en' V'"
    and frame: "\<forall>m \<in> live. blocks p ! m = blocks (memory s) ! m"
    using moved unfolding step putter_moved_def sum.case prod.case by blast
  have len: "length ?xs \<le> Suc (length (put s))" by (simp split: putter.split)
  have "?xs ! i = put s ! i" if "i < h" for i
    using that heads_published [OF ok] by (simp add: nth_append split: putter.split)
  then have "(\<lambda>i. (word_of_nat i :: u64, ?xs ! i)) ` ({..<h} - having unread_index (takers s)) =
      (\<lambda>i. (word_of_nat i, put s ! i)) ` ({..<h} - having unread_index (takers s))" by (intro image_cong) simp_all
  then have log': "log_ok (taken s) ?xs h (takers s)" using log by (simp add: log_ok_def)
  have "sharing_inv ?s live n"
    by (rule sharing_invI [where h = h and c = c and P = P and F = F and L = L' and bl = bl' and en = en' and V = V'])
      (use ok' log' len bound in simp_all)
  then have "shared_next s ?s live n" using frame by (simp add: shared_next_def)
  moreover have "share_step s Putter = Inr ?s" using step by simp
  ultimately show ?thesis by blast
qed

lemma call_event:
  assumes inv: "sharing_inv s live (Suc n)"
  shows "\<exists>s'. share_step s (Call x m) = Inr s' \<and> shared_next s s' live n"
proof -
  obtain h c P F L bl en V where ok: "sharing_ok (takers s) (putter s) (producer s) (memory s) (put s) live h c P F L bl en V"
    and bound: "length (put s) + c + Suc n < 2 ^ 62" and log: "log_ok (taken s) (put s) h (takers s)"
    using inv unfolding sharing_inv_def by blast
  have bound': "length (put s) + c + n < 2 ^ 62" using bound by linarith
  let ?s = "case putter s of Enqueued _ \<Rightarrow> s\<lparr>putter := Calling x m\<rparr> | _ \<Rightarrow> s"
  have "sharing_inv ?s live n"
  proof (cases "\<exists>r. putter s = Enqueued r")
    case True
    then obtain r where r: "putter s = Enqueued r" by blast
    have "sharing_ok (takers s) (Calling x m) (producer s) (memory s) (put s) live h c P F L bl en V"
      using ok unfolding r by (simp add: sharing_ok_def shared_memory_def begun_def reserving_def spare_of_def written_def putter_ok_def)
    then show ?thesis using r bound' log by (intro sharing_invI) simp_all
  next
    case False
    then have "?s = s" by (simp split: putter.split)
    moreover have "sharing_inv s live n" by (rule sharing_invI [OF ok]) (use bound' log in simp_all)
    ultimately show ?thesis by simp
  qed
  then show ?thesis by (simp add: shared_next_def split: putter.split)
qed

lemma sharing_run:
  "sharing_inv s live (length es) \<Longrightarrow> \<forall>k. Taker k \<in> set es \<longrightarrow> k < length (takers s) \<Longrightarrow>
    \<exists>s'. run_steps share_step s es = Inr s' \<and> shared_next s s' live 0"
proof (induction es arbitrary: s)
  case Nil
  then show ?case by (simp add: shared_next_def)
next
  case (Cons e es)
  have inv: "sharing_inv s live (Suc (length es))" using Cons.prems(1) by simp
  obtain s1 where step: "share_step s e = Inr s1" and one: "shared_next s s1 live (length es)"
  proof (cases e)
    case (Taker k)
    then have "k < length (takers s)" using Cons.prems(2) by simp
    then show thesis using taker_event [OF inv] that Taker by blast
  next
    case (Call x m)
    then show thesis using call_event [OF inv] that by blast
  next
    case Putter
    then show thesis using putter_event [OF inv] that by blast
  qed
  have "sharing_inv s1 live (length es)" "length (takers s1) = length (takers s)" using one by (simp_all add: shared_next_def)
  then obtain s' where "run_steps share_step s1 es = Inr s'" "shared_next s1 s' live 0"
    using Cons.IH [of s1] Cons.prems(2) by auto
  then show ?case using step one by (auto simp: shared_next_def)
qed

text \<open>From a new producer, in a pool that others use too.\<close>

lemma start_sharing:
  fixes p :: "'a cq_pool"
  assumes new: "producer_ok pr 0 ([] :: 'a list) bl" and pool: "pool_ok p fl live" and n: "n < 2 ^ 62"
  shows "sharing_inv (share_start k pr p) live n"
proof -
  let ?cs = "replicate k (Drawing AtStart) :: 'a taker list" and ?s = "share_start k pr p"
  have none: "having unread_index ?cs = {}" "having uncounted_index ?cs = {}" "having emptied_block ?cs = {}" "having released_block ?cs = {}"
    by (auto simp: having_def unread_index_def uncounted_index_def emptied_block_def released_block_def)
  have "index_ok pr 0 0 bl" using new by (simp add: producer_ok_def first_block_def after_block_def)
  then obtain en where "index_upto pr 0 0 0 (in_index bl) en" by (auto simp: index_ok_def)
  then have "index_upto pr 0 0 0 ((shared_values {} bl)(0 := v)) en" for v by (rule index_upto_cong) simp
  then have idx: "shared_index pr 0 (begun (Enqueued True :: 'a putter) 0) False {} bl en"
    by (auto simp: shared_index_def begun_def after_block_def)
  have tickets: "tickets_ok (map drawing ?cs) 0 0 0 {} {}"
    by (auto simp: tickets_ok_def holder_def grantees_def held_ticket_def granted_def caller_ok_def drawing_def)
  have cnt: "counters pr 0 0 0 (card {})" using new by (simp add: producer_ok_def counters_def)
  have tk: "takers_ok ?cs 0 en bl"
    using none by (auto simp: takers_ok_def taker_ok_def apart_def uncounted_index_def unread_index_def cleared_block_def)
  have mem: "shared_memory ?cs (Enqueued True) p [] live 0 bl {}"
    using pool none
    by (auto simp: shared_memory_def memory_ok_def unread_set_def uncounted_set_def begun_def after_block_def spare_of_def written_def)
  have ok: "sharing_ok (takers ?s) (putter ?s) (producer ?s) (memory ?s) (put ?s) live 0 0 {} {} 0 bl en {}"
    using idx tickets cnt tk mem by (simp add: sharing_ok_def share_start_def reserving_def putter_ok_def)
  have log: "log_ok (taken ?s) (put ?s) 0 (takers ?s)" by (simp add: log_ok_def share_start_def)
  show ?thesis by (rule sharing_invI [OF ok _ log]) (use n in \<open>simp add: share_start_def\<close>)
qed

definition idle :: "'a taker \<Rightarrow> bool" where
  "idle c \<longleftrightarrow> (case c of Drawing AtStart \<Rightarrow> True | Drawing FoundNothing \<Rightarrow> True | Returned _ \<Rightarrow> True | _ \<Rightarrow> False)"

lemma idle_none: "\<forall>c \<in> set cs. idle c \<Longrightarrow> having unread_index cs = {} \<and> having uncounted_index cs = {} \<and> having emptied_block cs = {} \<and>
    having released_block cs = {}"
proof -
  assume all: "\<forall>c \<in> set cs. idle c"
  have "unread_index c = None \<and> uncounted_index c = None \<and> emptied_block c = None \<and> released_block c = None" if "idle c" for c :: "'a taker"
    using that by (auto simp: idle_def unread_index_def uncounted_index_def emptied_block_def released_block_def split: taker.splits consumer.splits)
  then show ?thesis using all by (auto simp: having_def)
qed

text \<open>When all are at rest, the producer has no more blocks than its elements need.\<close>

lemma blocks_at_rest:
  assumes ok: "memory_ok p live spare ys U {h..} {} {} B bl V" and h: "h \<le> 32 * B"
  shows "V = {first_block h..<B}"
proof -
  have full: "counted {h..} j = 32 \<longleftrightarrow> j < first_block h" for j
  proof -
    have "(\<forall>r < 32. 32 * j + r < h) \<longleftrightarrow> 32 * j + 31 < h" by (auto dest: spec [of _ 31])
    also have "\<dots> \<longleftrightarrow> j < h div 32" by auto
    finally show ?thesis by (simp add: counted_full first_block_def not_le)
  qed
  have "V \<subseteq> {..<B}" "\<forall>j < B. j \<notin> V \<longrightarrow> counted {h..} j = 32" "\<forall>j \<in> V. counted {h..} j \<noteq> 32" using ok by (auto simp: memory_ok_def)
  then show ?thesis unfolding full by force
qed

lemma memory_at_rest:
  assumes ok: "memory_ok p live spare (written pu ys) (unread_set cs h (length (written pu ys))) (uncounted_set cs h) (having emptied_block cs)
      (having released_block cs) (begun pu (length ys)) B V"
    and idle: "\<forall>c \<in> set cs. idle c" and r: "pu = Enqueued r" and h: "h \<le> length ys"
  shows "inj_on B V \<and> V = {first_block h..<after_block (length ys)} \<and> having released_block cs = {} \<and> spare_of pu = {}"
proof -
  note none = idle_none [OF idle]
  have "memory_ok p live spare (written pu ys) (unread_set cs h (length (written pu ys))) {h..} {} {} (after_block (length ys)) B V"
    using ok none r by (simp add: begun_def uncounted_set_def)
  then have "V = {first_block h..<after_block (length ys)}"
    by (rule blocks_at_rest) (use h tail_after [of "length ys"] in simp)
  moreover have "inj_on B V" using ok by (auto simp: memory_ok_def intro: inj_on_subset)
  ultimately show ?thesis using none r by (simp add: spare_of_def)
qed

lemma log_at_rest:
  assumes log: "log_ok tk ys h cs" and idle: "\<forall>c \<in> set cs. idle c" and h: "h \<le> 2 ^ 62"
  shows "length tk = h \<and> set tk = (\<lambda>i. (word_of_nat i, ys ! i)) ` {..<h}"
proof -
  have lg: "set tk = (\<lambda>i. (word_of_nat i, ys ! i)) ` {..<h}" "distinct (map fst tk)"
    using log idle_none [OF idle] by (simp_all add: log_ok_def)
  have nat: "unat (word_of_nat i :: u64) = i" if "i < h" for i using that h by (intro small_nat) simp
  have "inj_on (\<lambda>i. (word_of_nat i :: u64, ys ! i)) {..<h}" by (rule inj_onI) (use nat in \<open>auto dest: arg_cong [of _ _ unat]\<close>)
  then have "card (set tk) = h" unfolding lg(1) by (simp add: card_image)
  moreover have "distinct tk" using lg(2) by (simp add: distinct_map)
  ultimately have "length tk = h" by (metis distinct_card)
  with lg(1) show ?thesis by blast
qed

text \<open>
  Property C15. Whatever way the steps of a producer's thread and of any number of consumers interleave, no step faults; the elements taken
  have different indices, and each is the element published with its index; blocks of others are untouched, and no block is lost. When
  all are at rest, the elements taken are the first ones published, and the producer holds exactly the blocks of the others.
\<close>

theorem elements_shared_out:
  fixes p :: "'a cq_pool"
  assumes "implicit_producer_new mem n = Inr (pr, n')" and "mem n" and "pool_ok p fl live" and "\<forall>i. Taker i \<in> set es \<longrightarrow> i < k"
    and "length es < 2 ^ 62"
  shows "\<exists>s. run_steps share_step (share_start k pr p) es = Inr s \<and> distinct (map fst (taken s)) \<and>
    (\<forall>(i, x) \<in> set (taken s). unat i < length (put s) \<and> x = put s ! unat i) \<and>
    (\<forall>m \<in> live. blocks (memory s) ! m = blocks p ! m) \<and>
    (\<exists>fl' mine. pool_ok (memory s) fl' (live \<union> mine) \<and> mine \<inter> live = {} \<and>
      ((\<forall>c \<in> set (takers s). idle c) \<and> (\<exists>r. putter s = Enqueued r) \<longrightarrow>
        set (taken s) = (\<lambda>i. (word_of_nat i, put s ! i)) ` {..<length (taken s)} \<and>
        card mine = after_block (length (put s)) - first_block (length (taken s))))"
proof -
  obtain pr1 where pr1: "implicit_producer_new mem n = Inr (pr1, n + 1)" "producer_ok pr1 0 ([] :: 'a list) id"
    by (rule producer_new_ok [where mem = mem and n = n and bl = id, OF assms(2)])
  then have new: "producer_ok pr 0 ([] :: 'a list) id" using assms(1) by simp
  let ?s = "share_start k pr p"
  have "sharing_inv ?s live (length es)" by (rule start_sharing [OF new assms(3,5)])
  then obtain s where run: "run_steps share_step ?s es = Inr s" and one: "shared_next ?s s live 0"
    using sharing_run [of ?s live es] assms(4) by (auto simp: share_start_def)
  then have inv: "sharing_inv s live 0" and frame: "\<forall>m \<in> live. blocks (memory s) ! m = blocks p ! m"
    by (simp_all add: shared_next_def share_start_def)
  obtain h c P F L bl en V where ok: "sharing_ok (takers s) (putter s) (producer s) (memory s) (put s) live h c P F L bl en V"
    and bound: "length (put s) + c + 0 < 2 ^ 62" and log: "log_ok (taken s) (put s) h (takers s)"
    using inv unfolding sharing_inv_def by blast
  have ht: "h \<le> length (put s)" by (rule heads_published [OF ok])
  have lg: "set (taken s) = (\<lambda>i. (word_of_nat i, put s ! i)) ` ({..<h} - having unread_index (takers s))" "distinct (map fst (taken s))"
    using log by (simp_all add: log_ok_def)
  have nat: "unat (word_of_nat i :: u64) = i" if "i < h" for i using that ht bound by (intro small_nat) simp
  have right: "\<forall>(i, x) \<in> set (taken s). unat i < length (put s) \<and> x = put s ! unat i"
    unfolding lg(1) using nat ht by auto
  let ?R = "having released_block (takers s)"
  let ?mine = "bl ` (V \<union> ?R) \<union> spare_of (putter s)"
  have mem: "memory_ok (memory s) live (spare_of (putter s)) (written (putter s) (put s))
      (unread_set (takers s) h (length (written (putter s) (put s)))) (uncounted_set (takers s) h) (having emptied_block (takers s)) ?R
      (begun (putter s) (length (put s))) bl V" using ok by (simp add: sharing_ok_def shared_memory_def)
  then obtain fl' where "pool_ok (memory s) fl' (live \<union> bl ` (V \<union> ?R) \<union> spare_of (putter s))" by (auto simp: memory_ok_def)
  then have pool: "pool_ok (memory s) fl' (live \<union> ?mine)" by (simp add: Un_assoc)
  have "bl ` (V \<union> ?R) \<inter> live = {}" "spare_of (putter s) \<inter> (bl ` (V \<union> ?R) \<union> live) = {}" using mem by (simp_all add: memory_ok_def)
  then have far: "?mine \<inter> live = {}" by blast
  have rest: "set (taken s) = (\<lambda>i. (word_of_nat i, put s ! i)) ` {..<length (taken s)} \<and>
      card ?mine = after_block (length (put s)) - first_block (length (taken s))"
    if idle: "\<forall>c \<in> set (takers s). idle c" and r: "putter s = Enqueued r" for r
    using log_at_rest [OF log idle] memory_at_rest [OF mem idle r ht] ht bound card_image [of bl V] by auto
  show ?thesis
  proof (intro exI conjI)
    show "run_steps share_step ?s es = Inr s" by (rule run)
    show "pool_ok (memory s) fl' (live \<union> ?mine)" by (rule pool)
  qed (use lg(2) right frame far rest in blast)+
qed

definition empty_pool :: "'a cq_pool" where
  "empty_pool = \<lparr>blocks = [], freeListHead = None, initialBlockPoolIndex = 0, initialBlockPoolSize = 0, mallocs = 0\<rparr>"

text \<open>Two elements, the first taken by one consumer while the second is put in.\<close>

definition two_in :: "char share_event list" where
  "two_in = Call CHR ''a'' True # replicate 9 Putter @ Call CHR ''b'' True # replicate 3 Putter"

theorem elements_shared_out_witness:
  "\<exists>pr. implicit_producer_new (\<lambda>_. True) 0 = Inr (pr, 1) \<and> (\<exists>s.
    run_steps share_step (share_start 1 pr empty_pool) (two_in @ replicate 11 (Taker 0)) = Inr s \<and> distinct (map fst (taken s)) \<and>
    (\<forall>(i, x) \<in> set (taken s). unat i < length (put s) \<and> x = put s ! unat i) \<and>
    (\<forall>m \<in> {}. blocks (memory s) ! m = blocks empty_pool ! m) \<and>
    (\<exists>fl' mine. pool_ok (memory s) fl' ({} \<union> mine) \<and> mine \<inter> {} = {} \<and>
      ((\<forall>c \<in> set (takers s). idle c) \<and> (\<exists>r. putter s = Enqueued r) \<longrightarrow>
        set (taken s) = (\<lambda>i. (word_of_nat i, put s ! i)) ` {..<length (taken s)} \<and>
        card mine = after_block (length (put s)) - first_block (length (taken s)))))"
proof -
  obtain pr where pr: "implicit_producer_new (\<lambda>_. True) 0 = Inr (pr, 0 + 1)"
    by (rule producer_new_ok [where mem = "\<lambda>_. True" and n = 0 and bl = id]) simp_all
  have pool: "pool_ok (empty_pool :: char cq_pool) [] {}" by (simp add: pool_ok_def empty_pool_def)
  have "\<forall>i. Taker i \<in> set (two_in @ replicate 11 (Taker 0)) \<longrightarrow> i < 1" "length (two_in @ replicate 11 (Taker 0)) < 2 ^ 62"
    by (auto simp: two_in_def)
  from elements_shared_out [OF pr _ pool this] show ?thesis using pr by (intro exI [of _ pr] conjI) simp_all
qed

text \<open>
  Elements may be taken in another order than they were put in: a consumer that has its index may be overtaken by the next one.
\<close>

definition overtaking :: "char share_event list" where
  "overtaking = two_in @ replicate 6 (Taker 0) @ replicate 10 (Taker 1) @ replicate 4 (Taker 0)"

lemma overtaken:
  "case bindE (implicit_producer_new (\<lambda>_. True) 0) (\<lambda>(pr, _). run_steps share_step (share_start 2 pr empty_pool) overtaking) of
    Inl _ \<Rightarrow> False
  | Inr s \<Rightarrow> put s = ''ab'' \<and> taken s = [(1, CHR ''b''), (0, CHR ''a'')] \<and> takers s = [Returned CHR ''a'', Returned CHR ''b'']"
  by code_simp

end
