(* ===== verification/Cq_Free_List.thy ===== *)
theory Cq_Free_List
  imports Cq_Pool Cq_Words
begin

unbundle bit_operations_syntax

text \<open>
  The free list used by several threads at once. \<open>FreeList\<close> is a stack without locks: a thread that wants the head takes a reference to it
  before it reads its successor, and a block that still has references when it is given back is put on the list by the
  thread that drops the last one. Here each access to memory is a step of its own, in any interleaving of any number of
  threads; memory is sequentially consistent.
\<close>

section \<open>Steps\<close>

text \<open>
  Where a thread is in \<open>add\<close>, \<open>try_get\<close> or \<open>add_knowing_refcount_is_zero\<close>, which both of them call. The latter has first where it returns to:
  \<open>None\<close> for the caller of \<open>add\<close>, otherwise the loop of \<open>try_get\<close> with its \<open>head\<close>.
\<close>

datatype lister =
    Resting
  | Add nat
  | LoadHead "nat option option" nat
  | StoreNext "nat option option" nat "nat option"
  | StoreRefs "nat option option" nat "nat option"
  | PushHead "nat option option" nat "nat option"
  | UndoRefs "nat option option" nat "nat option"
  | GetHead
  | GetRefs "nat option"
  | TakeRef nat u32
  | ReadNext nat
  | PopHead nat "nat option"
  | CheckBit nat
  | DropRefs nat
  | DropRef nat "nat option"
  | GotNode "nat option"

definition resume :: "nat option option \<Rightarrow> lister" where
  "resume after = (case after of None \<Rightarrow> Resting | Some head \<Rightarrow> GetRefs head)"

definition load_refs :: "nat \<Rightarrow> 'a cq_pool \<Rightarrow> cq_fault + u32" where
  "load_refs n p = bindE (fetch BadPointer (blocks p) n) (\<lambda>b. Inr (freeListRefs b))"

definition store_refs :: "nat \<Rightarrow> u32 \<Rightarrow> 'a cq_pool \<Rightarrow> cq_fault + 'a cq_pool" where
  "store_refs n v p = map_block n (\<lambda>b. b\<lparr>freeListRefs := v\<rparr>) p"

fun lister_step :: "lister \<Rightarrow> 'a cq_pool \<Rightarrow> cq_fault + (lister \<times> 'a cq_pool)" where
  "lister_step Resting p = Inr (Resting, p)"
| "lister_step (Add n) p = bindE (load_refs n p) (\<lambda>refs. bindE (store_refs n (refs + SHOULD_BE_ON_FREELIST) p) (\<lambda>p.
    Inr (if refs = 0 then LoadHead None n else Resting, p)))"
| "lister_step (LoadHead after n) p = Inr (StoreNext after n (freeListHead p), p)"
| "lister_step (StoreNext after n head) p = bindE (map_block n (\<lambda>b. b\<lparr>freeListNext := head\<rparr>) p) (\<lambda>p. Inr (StoreRefs after n head, p))"
| "lister_step (StoreRefs after n head) p = bindE (store_refs n 1 p) (\<lambda>p. Inr (PushHead after n head, p))"
| "lister_step (PushHead after n head) p =
    (if freeListHead p = head then Inr (resume after, p\<lparr>freeListHead := Some n\<rparr>) else Inr (UndoRefs after n (freeListHead p), p))"
| "lister_step (UndoRefs after n head) p = bindE (load_refs n p) (\<lambda>refs. bindE (store_refs n (refs + (SHOULD_BE_ON_FREELIST - 1)) p) (\<lambda>p.
    Inr (if refs = 1 then StoreNext after n head else resume after, p)))"
| "lister_step GetHead p = Inr (GetRefs (freeListHead p), p)"
| "lister_step (GetRefs head) p = (case head of None \<Rightarrow> Inr (GotNode None, p)
    | Some n \<Rightarrow> bindE (load_refs n p) (\<lambda>refs. Inr (if refs AND REFS_MASK = 0 then GetHead else TakeRef n refs, p)))"
| "lister_step (TakeRef n refs) p = bindE (load_refs n p) (\<lambda>r.
    if r = refs then bindE (store_refs n (refs + 1) p) (\<lambda>p. Inr (ReadNext n, p)) else Inr (GetHead, p))"
| "lister_step (ReadNext n) p = bindE (fetch BadPointer (blocks p) n) (\<lambda>b. Inr (PopHead n (freeListNext b), p))"
| "lister_step (PopHead n nxt) p =
    (if freeListHead p = Some n then Inr (CheckBit n, p\<lparr>freeListHead := nxt\<rparr>) else Inr (DropRef n (freeListHead p), p))"
| "lister_step (CheckBit n) p = bindE (load_refs n p) (\<lambda>refs.
    bindE (assertion (refs AND SHOULD_BE_ON_FREELIST = 0)) (\<lambda>_. Inr (DropRefs n, p)))"
| "lister_step (DropRefs n) p = bindE (load_refs n p) (\<lambda>refs. bindE (store_refs n (refs - 2) p) (\<lambda>p. Inr (GotNode (Some n), p)))"
| "lister_step (DropRef n head) p = bindE (load_refs n p) (\<lambda>refs. bindE (store_refs n (refs - 1) p) (\<lambda>p.
    Inr (if refs = SHOULD_BE_ON_FREELIST + 1 then LoadHead (Some head) n else GetRefs head, p)))"
| "lister_step (GotNode r) p = Inr (Resting, p)"

fun lister_alone :: "nat \<Rightarrow> lister \<Rightarrow> 'a cq_pool \<Rightarrow> cq_fault + (lister \<times> 'a cq_pool)" where
  "lister_alone 0 c p = Inr (c, p)"
| "lister_alone (Suc k) c p = (case c of
      Resting \<Rightarrow> Inr (c, p)
    | GotNode r \<Rightarrow> Inr (c, p)
    | _ \<Rightarrow> bindE (lister_step c p) (\<lambda>(c, p). lister_alone k c p))"

text \<open>Uninterrupted, the steps are the operations of theory \<open>Cq_Pool\<close>.\<close>

lemma add_is_its_steps: "free_list_add n p = bindE (lister_alone 5 (Add n) p) (\<lambda>(c, p). Inr p)"
  by (simp add: free_list_add_def add_knowing_refcount_is_zero_def map_block_def load_refs_def store_refs_def resume_def fetch_def
      numeral_eq_Suc Let_def)

lemma try_get_is_its_steps:
  "free_list_try_get p = bindE (lister_alone 7 GetHead p) (\<lambda>(c, p). case c of GotNode r \<Rightarrow> Inr (r, p) | _ \<Rightarrow> Inl LoopsForever)"
  by (simp add: free_list_try_get_def map_block_def load_refs_def store_refs_def fetch_def assertion_def numeral_eq_Suc Let_def
      split: option.split)

section \<open>Interleaved threads\<close>

text \<open>
  \<open>outside\<close> are the blocks that callers of the list have. A thread makes a call between calls only, and gives back only what is
  outside; other calls are not made.
\<close>

record 'a listing =
  lpool :: "'a cq_pool"
  listers :: "lister list"
  outside :: "nat list"

datatype list_event = CallAdd nat nat | CallGet nat | Go nat

fun list_step :: "'a listing \<Rightarrow> list_event \<Rightarrow> cq_fault + 'a listing" where
  "list_step s (CallAdd i n) = bindE (fetch BadPointer (listers s) i) (\<lambda>c.
    Inr (if c = Resting \<and> n \<in> set (outside s) then s\<lparr>listers := (listers s)[i := Add n], outside := remove1 n (outside s)\<rparr> else s))"
| "list_step s (CallGet i) = bindE (fetch BadPointer (listers s) i) (\<lambda>c.
    Inr (if c = Resting then s\<lparr>listers := (listers s)[i := GetHead]\<rparr> else s))"
| "list_step s (Go i) = bindE (fetch BadPointer (listers s) i) (\<lambda>c. bindE (lister_step c (lpool s)) (\<lambda>(x, p).
    Inr (s\<lparr>lpool := p, listers := (listers s)[i := x],
      outside := (case x of GotNode (Some n) \<Rightarrow> n # outside s | _ \<Rightarrow> outside s)\<rparr>)))"

section \<open>The invariant\<close>

text \<open>
  Each block has one role: on the list, outside, being given back (\<open>Wanted\<close>), written to by the one thread that may
  (\<open>Exclusive\<close>), about to be pushed, just taken off, or, given back but still referred to, waiting for the thread that drops the last
  reference (\<open>Limbo\<close>). The roles that a thread is at work on name it.
\<close>

datatype role = OnList | Outside | Limbo | Wanted nat | Exclusive nat | Pushing nat | Taken nat

fun agent :: "role \<Rightarrow> nat option" where
  "agent (Wanted i) = Some i"
| "agent (Exclusive i) = Some i"
| "agent (Pushing i) = Some i"
| "agent (Taken i) = Some i"
| "agent _ = None"

fun duty :: "nat \<Rightarrow> lister \<Rightarrow> (nat \<times> role) option" where
  "duty i (Add n) = Some (n, Wanted i)"
| "duty i (LoadHead after n) = Some (n, Exclusive i)"
| "duty i (StoreNext after n head) = Some (n, Exclusive i)"
| "duty i (StoreRefs after n head) = Some (n, Exclusive i)"
| "duty i (PushHead after n head) = Some (n, Pushing i)"
| "duty i (UndoRefs after n head) = Some (n, Pushing i)"
| "duty i (CheckBit n) = Some (n, Taken i)"
| "duty i (DropRefs n) = Some (n, Taken i)"
| "duty i _ = None"

text \<open>The block to which a thread has a reference, and how many threads have one to a block.\<close>

fun ref_on :: "lister \<Rightarrow> nat option" where
  "ref_on (ReadNext n) = Some n"
| "ref_on (PopHead n nxt) = Some n"
| "ref_on (CheckBit n) = Some n"
| "ref_on (DropRefs n) = Some n"
| "ref_on (DropRef n head) = Some n"
| "ref_on _ = None"

definition refs_on :: "lister list \<Rightarrow> nat \<Rightarrow> nat" where
  "refs_on ls n = card {i. i < length ls \<and> ref_on (ls ! i) = Some n}"

text \<open>What \<open>freeListRefs\<close> is for each role; the list's own reference counts as one.\<close>

fun refs_ok :: "role \<Rightarrow> nat \<Rightarrow> nat \<Rightarrow> bool" where
  "refs_ok OnList v m = (v = Suc m)"
| "refs_ok Outside v m = (v = m)"
| "refs_ok Limbo v m = (v = 2 ^ 31 + m \<and> 0 < m)"
| "refs_ok (Wanted i) v m = (v = m)"
| "refs_ok (Exclusive i) v m = (v = 2 ^ 31 \<and> m = 0)"
| "refs_ok (Pushing i) v m = (v = Suc m)"
| "refs_ok (Taken i) v m = (v = Suc m)"

definition valid :: "nat \<Rightarrow> nat option \<Rightarrow> bool" where
  "valid k q \<longleftrightarrow> (case q of None \<Rightarrow> True | Some n \<Rightarrow> n < k)"

definition valid_after :: "nat \<Rightarrow> nat option option \<Rightarrow> bool" where
  "valid_after k after \<longleftrightarrow> (case after of None \<Rightarrow> True | Some head \<Rightarrow> valid k head)"

text \<open>What a thread knows of memory by what it has read or written.\<close>

fun knows :: "'a cq_block list \<Rightarrow> lister \<Rightarrow> bool" where
  "knows bs (LoadHead after n) = valid_after (length bs) after"
| "knows bs (StoreNext after n head) = valid_after (length bs) after"
| "knows bs (StoreRefs after n head) = (valid_after (length bs) after \<and> freeListNext (bs ! n) = head)"
| "knows bs (PushHead after n head) = (valid_after (length bs) after \<and> freeListNext (bs ! n) = head)"
| "knows bs (UndoRefs after n head) = valid_after (length bs) after"
| "knows bs (GetRefs head) = valid (length bs) head"
| "knows bs (TakeRef n refs) = (n < length bs \<and> refs AND REFS_MASK \<noteq> 0)"
| "knows bs (PopHead n nxt) = (freeListNext (bs ! n) = nxt)"
| "knows bs (DropRef n head) = valid (length bs) head"
| "knows bs _ = True"

fun path :: "'a cq_block list \<Rightarrow> nat option \<Rightarrow> nat list \<Rightarrow> bool" where
  "path bs None ns = (ns = [])"
| "path bs (Some n) [] = False"
| "path bs (Some n) (m # ms) = (n = m \<and> n < length bs \<and> path bs (freeListNext (bs ! n)) ms)"

definition roles_ok :: "'a cq_block list \<Rightarrow> nat option \<Rightarrow> nat list \<Rightarrow> (nat \<Rightarrow> role) \<Rightarrow> nat list \<Rightarrow> bool" where
  "roles_ok bs head out st L \<longleftrightarrow> path bs head L \<and> distinct L \<and> (\<forall>n. n \<in> set L \<longleftrightarrow> n < length bs \<and> st n = OnList) \<and>
    distinct out \<and> (\<forall>n. n \<in> set out \<longleftrightarrow> n < length bs \<and> st n = Outside)"

definition duties_ok :: "nat \<Rightarrow> lister list \<Rightarrow> (nat \<Rightarrow> role) \<Rightarrow> bool" where
  "duties_ok k ls st \<longleftrightarrow> (\<forall>i < length ls. \<forall>n r. duty i (ls ! i) = Some (n, r) \<longrightarrow> n < k \<and> st n = r) \<and>
    (\<forall>n < k. \<forall>i. agent (st n) = Some i \<longrightarrow> i < length ls \<and> duty i (ls ! i) = Some (n, st n)) \<and>
    (\<forall>i < length ls. \<forall>n. ref_on (ls ! i) = Some n \<longrightarrow> n < k)"

definition list_ok :: "'a listing \<Rightarrow> (nat \<Rightarrow> role) \<Rightarrow> nat list \<Rightarrow> bool" where
  "list_ok s st L \<longleftrightarrow> roles_ok (blocks (lpool s)) (freeListHead (lpool s)) (outside s) st L \<and>
    duties_ok (length (blocks (lpool s))) (listers s) st \<and>
    (\<forall>n < length (blocks (lpool s)). refs_ok (st n) (unat (freeListRefs (blocks (lpool s) ! n))) (refs_on (listers s) n)) \<and>
    (\<forall>i < length (listers s). knows (blocks (lpool s)) (listers s ! i))"

lemma refs_on_upd:
  assumes i: "i < length ls"
  shows "refs_on (ls[i := x]) m = refs_on ls m - (if ref_on (ls ! i) = Some m then 1 else 0) + (if ref_on x = Some m then 1 else 0)"
proof -
  let ?R = "{i. i < length ls \<and> ref_on (ls ! i) = Some m}"
  have "{j. j < length (ls[i := x]) \<and> ref_on (ls[i := x] ! j) = Some m} = (if ref_on x = Some m then insert i (?R - {i}) else ?R - {i})"
    using i by (auto simp: nth_list_update split: if_splits)
  moreover have "card (?R - {i}) = card ?R - (if ref_on (ls ! i) = Some m then 1 else 0)" using i by (simp add: card_Diff_singleton_if)
  moreover have "card (insert i (?R - {i})) = Suc (card (?R - {i}))" by (rule card_insert_disjoint) auto
  ultimately show ?thesis unfolding refs_on_def by simp
qed

lemma refs_on_pos: "i < length ls \<Longrightarrow> ref_on (ls ! i) = Some n \<Longrightarrow> 0 < refs_on ls n"
  unfolding refs_on_def by (subst card_gt_0_iff) auto

lemma refs_on_le: "refs_on ls n \<le> length ls"
proof -
  have "{i. i < length ls \<and> ref_on (ls ! i) = Some n} \<subseteq> {..<length ls}" by auto
  then show ?thesis unfolding refs_on_def by (metis card_lessThan card_mono finite_lessThan)
qed

lemma next_upd: "m \<noteq> n \<or> freeListNext b = freeListNext (bs ! n) \<Longrightarrow> freeListNext (bs[n := b] ! m) = freeListNext (bs ! m)"
  by (cases "m = n"; cases "n < length bs") (auto simp: not_less list_update_beyond)

lemma knows_frame:
  assumes "knows bs c" and "freeListNext b = freeListNext (bs ! n) \<or> ref_on c \<noteq> Some n \<and> (\<forall>r. duty j c \<noteq> Some (n, r))"
  shows "knows (bs[n := b]) c"
proof -
  have "freeListNext (bs[n := b] ! m) = freeListNext (bs ! m)" if "ref_on c = Some m \<or> (\<exists>r. duty j c = Some (m, r))" for m
    using assms(2) that by (intro next_upd) auto
  then show ?thesis using assms(1) by (cases c) simp_all
qed

lemma path_frame: "n \<notin> set L \<or> freeListNext b = freeListNext (bs ! n) \<Longrightarrow> path (bs[n := b]) q L = path bs q L"
proof (induction bs q L rule: path.induct)
  case (3 bs n' m ms)
  then have "path (bs[n := b]) (freeListNext (bs ! n')) ms = path bs (freeListNext (bs ! n')) ms" if "n' = m" "n' < length bs" using that by auto
  moreover have "freeListNext (bs[n := b] ! n') = freeListNext (bs ! n')" if "n' = m" using that 3(2) by (intro next_upd) auto
  ultimately show ?case by auto
qed auto

lemma roles_frame:
  assumes "roles_ok bs head out st L" and "n \<notin> set L \<or> freeListNext b = freeListNext (bs ! n)"
  shows "roles_ok (bs[n := b]) head out st L"
  using assms path_frame [OF assms(2)] by (simp add: roles_ok_def)

text \<open>A block that changes its role within the roles of threads, or to and from \<open>Limbo\<close>.\<close>

lemma roles_change:
  assumes "roles_ok bs head out st L" and "st n \<noteq> OnList" "st n \<noteq> Outside" "r \<noteq> OnList" "r \<noteq> Outside"
  shows "roles_ok bs head out (st(n := r)) L"
proof -
  have e1: "(st(n := r)) m = OnList \<longleftrightarrow> st m = OnList" for m using assms(2,4) by (cases "m = n") simp_all
  have e2: "(st(n := r)) m = Outside \<longleftrightarrow> st m = Outside" for m using assms(3,5) by (cases "m = n") simp_all
  show ?thesis using assms(1) unfolding roles_ok_def e1 e2 .
qed

lemma duties_has: "duties_ok k ls st \<Longrightarrow> i < length ls \<Longrightarrow> duty i (ls ! i) = Some (n, r) \<Longrightarrow> n < k \<and> st n = r"
  unfolding duties_ok_def by blast

lemma duties_own: "duties_ok k ls st \<Longrightarrow> n < k \<Longrightarrow> agent (st n) = Some i \<Longrightarrow> i < length ls \<and> duty i (ls ! i) = Some (n, st n)"
  unfolding duties_ok_def by blast

lemma duties_ref: "duties_ok k ls st \<Longrightarrow> i < length ls \<Longrightarrow> ref_on (ls ! i) = Some n \<Longrightarrow> n < k"
  unfolding duties_ok_def by blast

lemma duty_agent: "duty j c = Some (m, q) \<Longrightarrow> agent q = Some j"
  by (cases c) auto

text \<open>One step of thread \<open>i\<close> on block \<open>n\<close>.\<close>

lemma duties_move:
  assumes ok: "duties_ok k ls st" and i: "i < length ls" and n: "n < k"
    and duty: "duty i x = (if agent r = Some i then Some (n, r) else None)" "duty i (ls ! i) = None \<or> agent (st n) = Some i"
    and role: "r = st n \<or> agent (st n) \<in> {None, Some i} \<and> agent r \<in> {None, Some i}"
    and ref: "ref_on x \<in> {None, Some n}"
  shows "duties_ok k (ls[i := x]) (st(n := r))"
proof -
  have mine: "duty i (ls ! i) = None \<or> duty i (ls ! i) = Some (n, st n)" using duty(2) duties_own [OF ok n] by blast
  have one: "m < k \<and> (st(n := r)) m = q" if j: "j < length (ls[i := x])" and d: "duty j (ls[i := x] ! j) = Some (m, q)" for j m q
  proof (cases "j = i")
    case True
    then show ?thesis using d duty(1) i n by (simp split: if_splits)
  next
    case False
    then have d': "duty j (ls ! j) = Some (m, q)" and j': "j < length ls" using d j by simp_all
    have "m < k" "st m = q" using duties_has [OF ok j' d'] by simp_all
    moreover have "agent q = Some j" by (rule duty_agent [OF d'])
    ultimately show ?thesis using role False by (cases "m = n") auto
  qed
  have two: "j < length (ls[i := x]) \<and> duty j (ls[i := x] ! j) = Some (m, (st(n := r)) m)"
    if m: "m < k" and a: "agent ((st(n := r)) m) = Some j" for m j
  proof (cases "j = i")
    case True
    show ?thesis
    proof (cases "m = n")
      case False
      then have "duty i (ls ! i) = Some (m, st m)" using duties_own [OF ok m] a True by simp
      then show ?thesis using mine False by simp
    qed (use True a duty(1) i in simp)
  next
    case False
    then have "agent (st m) = Some j" using a role by (cases "m = n") auto
    then have "j < length ls" "duty j (ls ! j) = Some (m, st m)" using duties_own [OF ok m] by simp_all
    moreover have "(st(n := r)) m = st m" using a role False by (cases "m = n") auto
    ultimately show ?thesis using False by simp
  qed
  have three: "m < k" if j: "j < length (ls[i := x])" and d: "ref_on (ls[i := x] ! j) = Some m" for j m
    using d ref n i duties_ref [OF ok, of j m] j by (cases "j = i") auto
  show ?thesis unfolding duties_ok_def using one two three by blast
qed

lemma move:
  assumes ok: "list_ok s st L" and i: "i < length (listers s)" and n: "n < length (blocks (lpool s))"
    and mem: "blocks (lpool s') = (blocks (lpool s))[n := b]" and ls: "listers s' = (listers s)[i := x]"
    and roles: "roles_ok (blocks (lpool s')) (freeListHead (lpool s')) (outside s') (st(n := r)) L'"
    and refs: "ref_on (listers s ! i) \<in> {None, Some n}" "ref_on x \<in> {None, Some n}"
    and duty: "duty i x = (if agent r = Some i then Some (n, r) else None)" "duty i (listers s ! i) = None \<or> agent (st n) = Some i"
    and role: "r = st n \<or> agent (st n) \<in> {None, Some i} \<and> agent r \<in> {None, Some i}"
    and count: "refs_ok r (unat (freeListRefs b)) (refs_on (listers s) n - (if ref_on (listers s ! i) = None then 0 else 1) + (if ref_on x = None then 0 else 1))"
    and knows: "knows (blocks (lpool s')) x"
    and nxt: "freeListNext b = freeListNext (blocks (lpool s) ! n) \<or> agent (st n) = Some i \<and> refs_on (listers s) n = 0"
  shows "list_ok s' (st(n := r)) L'"
  unfolding list_ok_def
proof (intro conjI allI impI)
  let ?ls = "listers s" and ?bs = "blocks (lpool s)"
  have d: "duties_ok (length ?bs) ?ls st" using ok by (simp add: list_ok_def)
  show "roles_ok (blocks (lpool s')) (freeListHead (lpool s')) (outside s') (st(n := r)) L'" by (rule roles)
  show "duties_ok (length (blocks (lpool s'))) (listers s') (st(n := r))"
    unfolding ls using duties_move [OF d i n duty role refs(2)] mem by simp
  show "refs_ok ((st(n := r)) m) (unat (freeListRefs (blocks (lpool s') ! m))) (refs_on (listers s') m)"
    if "m < length (blocks (lpool s'))" for m
  proof (cases "m = n")
    case True
    then show ?thesis using count refs n unfolding ls refs_on_upd [OF i] mem by (auto split: if_splits)
  next
    case False
    then have "refs_on (listers s') m = refs_on ?ls m" using refs unfolding ls refs_on_upd [OF i] by auto
    then show ?thesis using False ok that mem by (simp add: list_ok_def)
  qed
  show "knows (blocks (lpool s')) (listers s' ! j)" if "j < length (listers s')" for j
  proof (cases "j = i")
    case True
    then show ?thesis using knows i ls by simp
  next
    case False
    have j: "j < length ?ls" using that ls by simp
    then have kn: "knows ?bs (?ls ! j)" using ok by (simp add: list_ok_def)
    have "ref_on (?ls ! j) \<noteq> Some n" if "refs_on ?ls n = 0" using refs_on_pos [OF j, of n] that by auto
    moreover have "duty j (?ls ! j) \<noteq> Some (n, q)" if "agent (st n) = Some i" for q
    proof
      assume dj: "duty j (?ls ! j) = Some (n, q)"
      then have "st n = q" using duties_has [OF d j] by blast
      moreover have "agent q = Some j" by (rule duty_agent [OF dj])
      ultimately show False using that False by simp
    qed
    ultimately have "freeListNext b = freeListNext (?bs ! n) \<or> ref_on (?ls ! j) \<noteq> Some n \<and> (\<forall>q. duty j (?ls ! j) \<noteq> Some (n, q))"
      using nxt by metis
    then have "knows (?bs[n := b]) (?ls ! j)" by (rule knows_frame [OF kn])
    then show ?thesis unfolding mem ls using False by simp
  qed
qed

text \<open>A step that changes no block and no role.\<close>

lemma quiet:
  assumes ok: "list_ok s st L" and i: "i < length (listers s)" and same: "lpool s' = lpool s" "outside s' = outside s"
    and ls: "listers s' = (listers s)[i := x]"
    and duty: "duty i x = duty i (listers s ! i)" "ref_on x = ref_on (listers s ! i)" and knows: "knows (blocks (lpool s)) x"
  shows "list_ok s' st L"
proof -
  have "duty j ((listers s)[i := x] ! j) = duty j (listers s ! j)" for j using duty(1) i by (cases "j = i") simp_all
  moreover have "ref_on ((listers s)[i := x] ! j) = ref_on (listers s ! j)" for j using duty(2) i by (cases "j = i") simp_all
  ultimately have "duties_ok k ((listers s)[i := x]) st = duties_ok k (listers s) st" "refs_on ((listers s)[i := x]) n = refs_on (listers s) n" for k n
    unfolding duties_ok_def refs_on_def by simp_all
  moreover have "knows (blocks (lpool s)) ((listers s)[i := x] ! j)" if "j < length (listers s)" for j
    using ok knows that by (cases "j = i") (simp_all add: list_ok_def)
  ultimately show ?thesis using ok same ls by (simp add: list_ok_def)
qed

section \<open>Counts in 32 bits\<close>

lemma small32: "n < 2 ^ 32 \<Longrightarrow> unat (word_of_nat n :: u32) = n"
  by (simp add: unat_of_nat)

lemma should_nat: "unat SHOULD_BE_ON_FREELIST = 2 ^ 31"
  by (simp add: SHOULD_BE_ON_FREELIST_def)

lemma add_should: "unat v < 2 ^ 31 \<Longrightarrow> unat (v + SHOULD_BE_ON_FREELIST) = unat v + 2 ^ 31"
  unfolding unat_word_ariths should_nat by simp

lemma undo_should: "0 < unat v \<Longrightarrow> unat v \<le> 2 ^ 31 \<Longrightarrow> unat (v + (SHOULD_BE_ON_FREELIST - 1)) = 2 ^ 31 + (unat v - 1)"
proof -
  assume v: "0 < unat v" "unat v \<le> 2 ^ 31"
  have "unat (SHOULD_BE_ON_FREELIST - 1) = 2 ^ 31 - 1" by (simp add: SHOULD_BE_ON_FREELIST_def)
  then show ?thesis using v unfolding unat_word_ariths by simp
qed

lemma one_more: "unat v < 2 ^ 32 - 1 \<Longrightarrow> unat (v + 1 :: u32) = Suc (unat v)"
  unfolding unat_word_ariths by simp

lemma fewer: "k \<le> unat v \<Longrightarrow> k < 2 ^ 32 \<Longrightarrow> unat (v - word_of_nat k :: u32) = unat v - k"
proof -
  assume k: "k \<le> unat v" "k < 2 ^ 32"
  then have "word_of_nat k \<le> v" by (simp add: word_le_nat_alt small32)
  then show ?thesis using k by (simp add: unat_sub small32)
qed

lemma masked: "unat (v AND REFS_MASK) = unat v mod 2 ^ 31"
proof -
  have "(2147483647 :: u32) = mask 31" by (simp add: mask_eq_exp_minus_1)
  then have "v AND REFS_MASK = take_bit 31 v" unfolding REFS_MASK_def by (simp only: take_bit_eq_mask)
  then show ?thesis by (simp only: unsigned_take_bit_eq) (simp only: take_bit_eq_mod)
qed

lemma no_bit: "unat v < 2 ^ 31 \<Longrightarrow> v AND SHOULD_BE_ON_FREELIST = 0"
proof -
  assume "unat v < 2 ^ 31"
  then have "take_bit 31 v = v" by (simp only: word_unat_eq_iff unsigned_take_bit_eq) (simp add: take_bit_eq_mod)
  then have "\<not> bit v 31" by (metis bit_take_bit_iff less_irrefl)
  then have "v AND 2 ^ 31 = 0" by (intro bit_eqI) (simp only: bit_and_iff bit_exp_iff bit_0_eq, auto)
  then show ?thesis by (simp add: SHOULD_BE_ON_FREELIST_def)
qed

section \<open>Every step keeps it\<close>

definition with_step :: "'a listing \<Rightarrow> nat \<Rightarrow> lister \<Rightarrow> 'a cq_pool \<Rightarrow> 'a listing" where
  "with_step s i x p = s\<lparr>lpool := p, listers := (listers s)[i := x],
    outside := (case x of GotNode (Some n) \<Rightarrow> n # outside s | _ \<Rightarrow> outside s)\<rparr>"

lemma go_step: "i < length (listers s) \<Longrightarrow> lister_step (listers s ! i) (lpool s) = Inr (x, p) \<Longrightarrow>
  list_step s (Go i) = Inr (with_step s i x p)"
  by (simp add: with_step_def)

lemma with_step_simps [simp]: "lpool (with_step s i x p) = p" "listers (with_step s i x p) = (listers s)[i := x]"
  "outside (with_step s i x p) = (case x of GotNode (Some n) \<Rightarrow> n # outside s | _ \<Rightarrow> outside s)"
  by (simp_all add: with_step_def)

definition put_block :: "'a cq_pool \<Rightarrow> nat \<Rightarrow> 'a cq_block \<Rightarrow> 'a cq_pool" where
  "put_block p n b = p\<lparr>blocks := (blocks p)[n := b]\<rparr>"

lemma put_block_simps [simp]: "blocks (put_block p n b) = (blocks p)[n := b]" "freeListHead (put_block p n b) = freeListHead p"
  by (simp_all add: put_block_def)

lemma store_refs_put: "n < length (blocks p) \<Longrightarrow> store_refs n v p = Inr (put_block p n ((blocks p ! n)\<lparr>freeListRefs := v\<rparr>))"
  by (simp add: store_refs_def map_block_def put_block_def)

lemma load_refs_ok: "n < length (blocks p) \<Longrightarrow> load_refs n p = Inr (freeListRefs (blocks p ! n))"
  by (simp add: load_refs_def)

text \<open>A step that stores a count, and may change the role of the block but not the list or what is outside.\<close>

lemma refs_move:
  assumes ok: "list_ok s st L" and i: "i < length (listers s)" and n: "n < length (blocks (lpool s))"
    and got: "\<forall>q. x \<noteq> GotNode q"
    and roles: "r = st n \<or> st n \<notin> {OnList, Outside} \<and> r \<notin> {OnList, Outside}"
    and refs: "ref_on (listers s ! i) \<in> {None, Some n}" "ref_on x \<in> {None, Some n}"
    and duty: "duty i x = (if agent r = Some i then Some (n, r) else None)" "duty i (listers s ! i) = None \<or> agent (st n) = Some i"
    and role: "r = st n \<or> agent (st n) \<in> {None, Some i} \<and> agent r \<in> {None, Some i}"
    and count: "refs_ok r (unat v) (refs_on (listers s) n - (if ref_on (listers s ! i) = None then 0 else 1) + (if ref_on x = None then 0 else 1))"
    and knows: "knows (blocks (lpool s)) x"
  shows "list_ok (with_step s i x (put_block (lpool s) n ((blocks (lpool s) ! n)\<lparr>freeListRefs := v\<rparr>))) (st(n := r)) L"
proof (rule move [OF ok i n _ _ _ refs duty role])
  let ?b = "(blocks (lpool s) ! n)\<lparr>freeListRefs := v\<rparr>"
  have old: "roles_ok (blocks (lpool s)) (freeListHead (lpool s)) (outside s) st L" using ok by (simp add: list_ok_def)
  have "roles_ok (blocks (lpool s)) (freeListHead (lpool s)) (outside s) (st(n := r)) L"
    using roles roles_change [OF old, of n r] old by (auto simp: fun_upd_idem)
  then have "roles_ok ((blocks (lpool s))[n := ?b]) (freeListHead (lpool s)) (outside s) (st(n := r)) L" by (rule roles_frame) simp
  moreover have "(case x of GotNode (Some n) \<Rightarrow> n # outside s | _ \<Rightarrow> outside s) = outside s" using got by (cases x) auto
  ultimately show "roles_ok (blocks (lpool (with_step s i x (put_block (lpool s) n ?b)))) (freeListHead (lpool (with_step s i x (put_block (lpool s) n ?b))))
      (outside (with_step s i x (put_block (lpool s) n ?b))) (st(n := r)) L" by simp
  show "knows (blocks (lpool (with_step s i x (put_block (lpool s) n ?b)))) x"
    using knows_frame [OF knows, of ?b n i] by simp
  have f: "freeListRefs ?b = v" "freeListNext ?b = freeListNext (blocks (lpool s) ! n)" by simp_all
  show "refs_ok r (unat (freeListRefs ?b)) (refs_on (listers s) n - (if ref_on (listers s ! i) = None then 0 else 1) + (if ref_on x = None then 0 else 1))"
    unfolding f by (rule count)
  show "freeListNext ?b = freeListNext (blocks (lpool s) ! n) \<or> agent (st n) = Some i \<and> refs_on (listers s) n = 0"
    unfolding f by simp
qed simp_all

lemma should_one: "v = SHOULD_BE_ON_FREELIST + 1 \<longleftrightarrow> unat v = 2 ^ 31 + 1"
  by (simp add: word_unat_eq_iff SHOULD_BE_ON_FREELIST_def)

lemma limbo_alone: "refs_ok r (2 ^ 31 + 1) m \<Longrightarrow> m < 2 ^ 31 - 1 \<Longrightarrow> 0 < m \<Longrightarrow> r = Limbo \<and> m = 1"
  by (cases r) auto

lemma one_ref_more: "refs_ok r v m \<Longrightarrow> v mod 2 ^ 31 \<noteq> 0 \<Longrightarrow> refs_ok r (Suc v) (Suc m)"
  by (cases r) auto

lemma one_ref_less: "refs_ok r v m \<Longrightarrow> 0 < m \<Longrightarrow> v \<noteq> 2 ^ 31 + 1 \<Longrightarrow> refs_ok r (v - 1) (m - 1)"
  by (cases r) auto

lemma refs_bound: "refs_ok r v m \<Longrightarrow> m < 2 ^ 31 - 1 \<Longrightarrow> v < 2 ^ 32 - 1"
  by (cases r) auto

lemma refs_some: "refs_ok r v m \<Longrightarrow> 0 < m \<Longrightarrow> 0 < v"
  by (cases r) auto

lemma path_head_valid: "path bs q L \<Longrightarrow> valid (length bs) q"
  by (cases "(bs, q, L)" rule: path.cases) (auto simp: valid_def)

lemma knows_resume: "valid_after (length bs) after \<Longrightarrow> knows bs (resume after)"
  by (auto simp: resume_def valid_after_def split: option.split)

lemma resume_simps [simp]: "duty i (resume after) = None" "ref_on (resume after) = None" "resume after \<noteq> GotNode q"
  by (auto simp: resume_def split: option.split)

definition goes_on :: "'a listing \<Rightarrow> nat \<Rightarrow> bool" where
  "goes_on s i \<longleftrightarrow> (\<exists>s' st' L'. list_step s (Go i) = Inr s' \<and> list_ok s' st' L' \<and> length (listers s') = length (listers s) \<and>
    length (blocks (lpool s')) = length (blocks (lpool s)))"

lemma goes_onI:
  assumes "i < length (listers s)" and "lister_step (listers s ! i) (lpool s) = Inr (x, p)" and "list_ok (with_step s i x p) st' L'"
    and "length (blocks p) = length (blocks (lpool s))"
  shows "goes_on s i"
  unfolding goes_on_def
  by (intro exI [of _ "with_step s i x p"] exI [of _ st'] exI [of _ L'] conjI go_step [OF assms(1,2)] assms(3)) (simp_all add: assms(4))

lemma goes_quietly:
  assumes ok: "list_ok s st L" and i: "i < length (listers s)"
    and run: "lister_step (listers s ! i) (lpool s) = Inr (x, lpool s)" and got: "\<forall>n. x \<noteq> GotNode (Some n)"
    and same: "duty i x = duty i (listers s ! i)" "ref_on x = ref_on (listers s ! i)" and knows: "knows (blocks (lpool s)) x"
  shows "goes_on s i"
proof (rule goes_onI [OF i run])
  have "outside (with_step s i x (lpool s)) = outside s" using got by (auto split: lister.splits option.splits)
  then show "list_ok (with_step s i x (lpool s)) st L"
    using quiet [OF ok i _ _ _ same knows, of "with_step s i x (lpool s)"] by simp
qed simp

text \<open>The steps, by where the thread is.\<close>

lemma add_steps:
  assumes ok: "list_ok s st L" and i: "i < length (listers s)" and few: "length (listers s) < 2 ^ 31 - 1" and c: "listers s ! i = Add n"
  shows "goes_on s i"
proof -
  let ?v = "freeListRefs (blocks (lpool s) ! n)" and ?m = "refs_on (listers s) n"
  have d: "duties_ok (length (blocks (lpool s))) (listers s) st" using ok by (simp add: list_ok_def)
  have n: "n < length (blocks (lpool s))" and st: "st n = Wanted i" using duties_has [OF d i, of n "Wanted i"] c by simp_all
  have v: "unat ?v = ?m" using ok n st unfolding list_ok_def by (metis refs_ok.simps(4))
  have m: "?m < 2 ^ 31" using refs_on_le [of "listers s" n] few by simp
  let ?x = "if ?v = 0 then LoadHead None n else Resting" and ?r = "if ?v = 0 then Exclusive i else Limbo"
  have run: "lister_step (listers s ! i) (lpool s) =
      Inr (?x, put_block (lpool s) n ((blocks (lpool s) ! n)\<lparr>freeListRefs := ?v + SHOULD_BE_ON_FREELIST\<rparr>))"
    using c n by (simp add: load_refs_ok store_refs_put)
  have zero: "?v = 0 \<longleftrightarrow> ?m = 0" using v by (metis unat_eq_0)
  have "unat (?v + SHOULD_BE_ON_FREELIST) = ?m + 2 ^ 31" using add_should v m by simp
  then have "list_ok (with_step s i ?x (put_block (lpool s) n ((blocks (lpool s) ! n)\<lparr>freeListRefs := ?v + SHOULD_BE_ON_FREELIST\<rparr>))) (st(n := ?r)) L"
    by (intro refs_move [OF ok i n]) (use c st zero in \<open>auto simp: valid_after_def\<close>)
  then show ?thesis by (rule goes_onI [OF i run]) simp
qed

lemma push_steps:
  assumes ok: "list_ok s st L" and i: "i < length (listers s)" and few: "length (listers s) < 2 ^ 31 - 1"
    and c: "listers s ! i \<in> {StoreNext after n h, StoreRefs after n h}"
  shows "goes_on s i"
proof -
  let ?bs = "blocks (lpool s)" and ?m = "refs_on (listers s) n"
  have d: "duties_ok (length ?bs) (listers s) st" and roles: "roles_ok ?bs (freeListHead (lpool s)) (outside s) st L"
    using ok by (simp_all add: list_ok_def)
  have n: "n < length ?bs" and st: "st n = Exclusive i" using duties_has [OF d i, of n "Exclusive i"] c by auto
  have v: "unat (freeListRefs (?bs ! n)) = 2 ^ 31" "?m = 0" using ok n st unfolding list_ok_def by (metis refs_ok.simps(5))+
  have kn: "knows ?bs (listers s ! i)" using ok i by (simp add: list_ok_def)
  from c consider "listers s ! i = StoreNext after n h" | "listers s ! i = StoreRefs after n h" by auto
  then show ?thesis
  proof cases
    case 1
    let ?b = "(?bs ! n)\<lparr>freeListNext := h\<rparr>" and ?x = "StoreRefs after n h"
    have run: "lister_step (listers s ! i) (lpool s) = Inr (?x, put_block (lpool s) n ?b)"
      using 1 n by (simp add: map_block_def put_block_def)
    have "n \<notin> set L" using roles st by (auto simp: roles_ok_def)
    then have r: "roles_ok (?bs[n := ?b]) (freeListHead (lpool s)) (outside s) (st(n := Exclusive i)) L"
      using roles_frame [OF roles, of n ?b] st by (simp add: fun_upd_idem)
    have "list_ok (with_step s i ?x (put_block (lpool s) n ?b)) (st(n := Exclusive i)) L"
      by (rule move [OF ok i n, where b = ?b and r = "Exclusive i" and x = ?x and s' = "with_step s i ?x (put_block (lpool s) n ?b)" and L' = L])
        (use 1 r v st n kn in simp_all)
    then show ?thesis by (rule goes_onI [OF i run]) simp
  next
    case 2
    have run: "lister_step (listers s ! i) (lpool s) = Inr (PushHead after n h, put_block (lpool s) n ((?bs ! n)\<lparr>freeListRefs := 1\<rparr>))"
      using 2 n by (simp add: store_refs_put)
    have "list_ok (with_step s i (PushHead after n h) (put_block (lpool s) n ((?bs ! n)\<lparr>freeListRefs := 1\<rparr>))) (st(n := Pushing i)) L"
      by (rule refs_move [OF ok i n]) (use 2 v st kn in simp_all)
    then show ?thesis by (rule goes_onI [OF i run]) simp
  qed
qed

lemma cas_steps:
  assumes ok: "list_ok s st L" and i: "i < length (listers s)" and few: "length (listers s) < 2 ^ 31 - 1"
    and c: "listers s ! i \<in> {PushHead after n h, UndoRefs after n h}"
  shows "goes_on s i"
proof -
  let ?bs = "blocks (lpool s)" and ?m = "refs_on (listers s) n" and ?v = "freeListRefs (blocks (lpool s) ! n)"
  have d: "duties_ok (length ?bs) (listers s) st" and roles: "roles_ok ?bs (freeListHead (lpool s)) (outside s) st L"
    using ok by (simp_all add: list_ok_def)
  have n: "n < length ?bs" and st: "st n = Pushing i" using duties_has [OF d i, of n "Pushing i"] c by auto
  have v: "unat ?v = Suc ?m" using ok n st unfolding list_ok_def by (metis refs_ok.simps(6))
  have m: "?m < 2 ^ 31 - 1" using refs_on_le [of "listers s" n] few by simp
  have kn: "knows ?bs (listers s ! i)" using ok i by (simp add: list_ok_def)
  from c consider "listers s ! i = PushHead after n h" "freeListHead (lpool s) = h"
    | "listers s ! i = PushHead after n h" "freeListHead (lpool s) \<noteq> h" | "listers s ! i = UndoRefs after n h" by auto
  then show ?thesis
  proof cases
    case 1
    let ?p = "(lpool s)\<lparr>freeListHead := Some n\<rparr>"
    have run: "lister_step (listers s ! i) (lpool s) = Inr (resume after, ?p)" using 1 by simp
    have nL: "n \<notin> set L" using roles st by (auto simp: roles_ok_def)
    have nxt: "freeListNext (?bs ! n) = h" and va: "valid_after (length ?bs) after" using kn 1 by simp_all
    have out: "(case resume after of GotNode (Some n) \<Rightarrow> n # outside s | _ \<Rightarrow> outside s) = outside s"
      by (simp add: resume_def split: option.split)
    have "roles_ok ?bs (Some n) (outside s) (st(n := OnList)) (n # L)"
      using roles st n nL nxt 1(2) by (auto simp: roles_ok_def)
    then have r: "roles_ok (blocks (lpool (with_step s i (resume after) ?p))) (freeListHead (lpool (with_step s i (resume after) ?p)))
        (outside (with_step s i (resume after) ?p)) (st(n := OnList)) (n # L)" using out by simp
    have "list_ok (with_step s i (resume after) ?p) (st(n := OnList)) (n # L)"
      by (rule move [OF ok i n, where b = "?bs ! n" and r = OnList and x = "resume after" and s' = "with_step s i (resume after) ?p" and L' = "n # L"])
        (use 1 r st v va knows_resume in simp_all)
    then show ?thesis by (rule goes_onI [OF i run]) simp
  next
    case 2
    show ?thesis by (rule goes_quietly [OF ok i, of "UndoRefs after n (freeListHead (lpool s))"]) (use 2 kn in simp_all)
  next
    case 3
    let ?x = "if ?v = 1 then StoreNext after n h else resume after" and ?r = "if ?v = 1 then Exclusive i else Limbo"
    let ?w = "?v + (SHOULD_BE_ON_FREELIST - 1)"
    have run: "lister_step (listers s ! i) (lpool s) = Inr (?x, put_block (lpool s) n ((?bs ! n)\<lparr>freeListRefs := ?w\<rparr>))"
      using 3 n by (simp add: load_refs_ok store_refs_put)
    have one: "?v = 1 \<longleftrightarrow> ?m = 0" using v by (metis One_nat_def Suc_inject unat_1 word_unat_eq_iff)
    have "unat ?w = 2 ^ 31 + ?m" using undo_should [of ?v] v m by simp
    then have "list_ok (with_step s i ?x (put_block (lpool s) n ((?bs ! n)\<lparr>freeListRefs := ?w\<rparr>))) (st(n := ?r)) L"
      by (intro refs_move [OF ok i n]) (use 3 st one kn knows_resume in auto)
    then show ?thesis by (rule goes_onI [OF i run]) simp
  qed
qed

lemma head_steps:
  assumes ok: "list_ok s st L" and i: "i < length (listers s)" and few: "length (listers s) < 2 ^ 31 - 1"
    and c: "listers s ! i \<in> {GetHead, GetRefs q}"
  shows "goes_on s i"
proof -
  let ?bs = "blocks (lpool s)"
  have kn: "knows ?bs (listers s ! i)" using ok i by (simp add: list_ok_def)
  have head: "valid (length ?bs) (freeListHead (lpool s))" using ok path_head_valid by (auto simp: list_ok_def roles_ok_def)
  from c consider "listers s ! i = GetHead" | "listers s ! i = GetRefs None" | n where "listers s ! i = GetRefs (Some n)" by (cases q) auto
  then show ?thesis
  proof cases
    case 1
    show ?thesis by (rule goes_quietly [OF ok i, of "GetRefs (freeListHead (lpool s))"]) (use 1 head in simp_all)
  next
    case 2
    show ?thesis by (rule goes_quietly [OF ok i, of "GotNode None"]) (use 2 in simp_all)
  next
    case 3
    then have n: "n < length ?bs" using kn by (simp add: valid_def)
    let ?v = "freeListRefs (?bs ! n)"
    show ?thesis by (rule goes_quietly [OF ok i, of "if ?v AND REFS_MASK = 0 then GetHead else TakeRef n ?v"])
        (use 3 n in \<open>simp_all add: load_refs_ok\<close>)
  qed
qed

lemma take_ref_steps:
  assumes ok: "list_ok s st L" and i: "i < length (listers s)" and few: "length (listers s) < 2 ^ 31 - 1" and c: "listers s ! i = TakeRef n w"
  shows "goes_on s i"
proof -
  let ?bs = "blocks (lpool s)" and ?m = "refs_on (listers s) n" and ?v = "freeListRefs (blocks (lpool s) ! n)"
  have d: "duties_ok (length ?bs) (listers s) st" using ok by (simp add: list_ok_def)
  have "knows ?bs (listers s ! i)" using ok i by (simp add: list_ok_def)
  then have n: "n < length ?bs" and w: "w AND REFS_MASK \<noteq> 0" using c by simp_all
  show ?thesis
  proof (cases "?v = w")
    case False
    show ?thesis by (rule goes_quietly [OF ok i, of GetHead]) (use False c n in \<open>simp_all add: load_refs_ok\<close>)
  next
    case True
    have run: "lister_step (listers s ! i) (lpool s) = Inr (ReadNext n, put_block (lpool s) n ((?bs ! n)\<lparr>freeListRefs := ?v + 1\<rparr>))"
      using c n True by (simp add: load_refs_ok store_refs_put)
    have r: "refs_ok (st n) (unat ?v) ?m" using ok n by (simp add: list_ok_def)
    have m: "?m < 2 ^ 31 - 1" using refs_on_le [of "listers s" n] few by simp
    have "unat (?v AND REFS_MASK) \<noteq> 0" using w True by (simp add: unat_eq_0)
    then have "unat ?v mod 2 ^ 31 \<noteq> 0" by (simp only: masked) simp
    then have "refs_ok (st n) (Suc (unat ?v)) (Suc ?m)" by (rule one_ref_more [OF r])
    then have count: "refs_ok (st n) (unat (?v + 1)) (Suc ?m)" using one_more [OF refs_bound [OF r m]] by simp
    have "agent (st n) \<noteq> Some i" using duties_own [OF d n, of i] c by auto
    then have "list_ok (with_step s i (ReadNext n) (put_block (lpool s) n ((?bs ! n)\<lparr>freeListRefs := ?v + 1\<rparr>))) (st(n := st n)) L"
      by (intro refs_move [OF ok i n]) (use c count in simp_all)
    then show ?thesis by (rule goes_onI [OF i run]) simp
  qed
qed

lemma pop_steps:
  assumes ok: "list_ok s st L" and i: "i < length (listers s)" and few: "length (listers s) < 2 ^ 31 - 1"
    and c: "listers s ! i \<in> {ReadNext n, PopHead n q}"
  shows "goes_on s i"
proof -
  let ?bs = "blocks (lpool s)" and ?m = "refs_on (listers s) n"
  have d: "duties_ok (length ?bs) (listers s) st" and roles: "roles_ok ?bs (freeListHead (lpool s)) (outside s) st L"
    using ok by (simp_all add: list_ok_def)
  have r: "ref_on (listers s ! i) = Some n" using c by auto
  have n: "n < length ?bs" by (rule duties_ref [OF d i r])
  have kn: "knows ?bs (listers s ! i)" using ok i by (simp add: list_ok_def)
  have head: "valid (length ?bs) (freeListHead (lpool s))" using roles path_head_valid by (auto simp: roles_ok_def)
  from c consider "listers s ! i = ReadNext n" | "listers s ! i = PopHead n q" "freeListHead (lpool s) \<noteq> Some n"
    | "listers s ! i = PopHead n q" "freeListHead (lpool s) = Some n" by auto
  then show ?thesis
  proof cases
    case 1
    show ?thesis by (rule goes_quietly [OF ok i, of "PopHead n (freeListNext (?bs ! n))"]) (use 1 n in simp_all)
  next
    case 2
    show ?thesis by (rule goes_quietly [OF ok i, of "DropRef n (freeListHead (lpool s))"]) (use 2 head in simp_all)
  next
    case 3
    let ?p = "(lpool s)\<lparr>freeListHead := q\<rparr>" and ?x = "CheckBit n"
    have run: "lister_step (listers s ! i) (lpool s) = Inr (?x, ?p)" using 3 by simp
    have q: "freeListNext (?bs ! n) = q" using kn 3 by simp
    obtain L2 where L: "L = n # L2" "path ?bs q L2" using roles 3(2) q by (cases L) (auto simp: roles_ok_def)
    have st: "st n = OnList" using roles L n by (auto simp: roles_ok_def)
    have v: "unat (freeListRefs (?bs ! n)) = Suc ?m" using ok n st unfolding list_ok_def by (metis refs_ok.simps(1))
    have "roles_ok ?bs q (outside s) (st(n := Taken i)) L2" using roles st L by (auto simp: roles_ok_def)
    then have rl: "roles_ok (blocks (lpool (with_step s i ?x ?p))) (freeListHead (lpool (with_step s i ?x ?p)))
        (outside (with_step s i ?x ?p)) (st(n := Taken i)) L2" by simp
    have "0 < ?m" by (rule refs_on_pos [OF i r])
    then have "list_ok (with_step s i ?x ?p) (st(n := Taken i)) L2"
      by (intro move [OF ok i n, where b = "?bs ! n" and r = "Taken i" and x = ?x and s' = "with_step s i ?x ?p" and L' = L2])
        (use 3 rl st v in simp_all)
    then show ?thesis by (rule goes_onI [OF i run]) simp
  qed
qed

lemma taken_steps:
  assumes ok: "list_ok s st L" and i: "i < length (listers s)" and few: "length (listers s) < 2 ^ 31 - 1"
    and c: "listers s ! i \<in> {CheckBit n, DropRefs n}"
  shows "goes_on s i"
proof -
  let ?bs = "blocks (lpool s)" and ?m = "refs_on (listers s) n" and ?v = "freeListRefs (blocks (lpool s) ! n)"
  have d: "duties_ok (length ?bs) (listers s) st" and roles: "roles_ok ?bs (freeListHead (lpool s)) (outside s) st L"
    using ok by (simp_all add: list_ok_def)
  have n: "n < length ?bs" and st: "st n = Taken i" using duties_has [OF d i, of n "Taken i"] c by auto
  have v: "unat ?v = Suc ?m" using ok n st unfolding list_ok_def by (metis refs_ok.simps(7))
  have m: "?m < 2 ^ 31 - 1" using refs_on_le [of "listers s" n] few by simp
  have pos: "0 < ?m" by (rule refs_on_pos [OF i]) (use c in auto)
  from c consider "listers s ! i = CheckBit n" | "listers s ! i = DropRefs n" by auto
  then show ?thesis
  proof cases
    case 1
    have "?v AND SHOULD_BE_ON_FREELIST = 0" using v m by (intro no_bit) simp
    then show ?thesis by (intro goes_quietly [OF ok i, of "DropRefs n"]) (use 1 n in \<open>simp_all add: load_refs_ok\<close>)
  next
    case 2
    let ?b = "(?bs ! n)\<lparr>freeListRefs := ?v - 2\<rparr>" and ?x = "GotNode (Some n)"
    have run: "lister_step (listers s ! i) (lpool s) = Inr (?x, put_block (lpool s) n ?b)"
      using 2 n by (simp add: load_refs_ok store_refs_put)
    have w: "unat (?v - 2) = ?m - 1" using fewer [of 2 ?v] v pos by simp
    have "roles_ok ?bs (freeListHead (lpool s)) (n # outside s) (st(n := Outside)) L" using roles st n by (auto simp: roles_ok_def)
    then have "roles_ok (?bs[n := ?b]) (freeListHead (lpool s)) (n # outside s) (st(n := Outside)) L" by (rule roles_frame) simp
    then have rl: "roles_ok (blocks (lpool (with_step s i ?x (put_block (lpool s) n ?b)))) (freeListHead (lpool (with_step s i ?x (put_block (lpool s) n ?b))))
        (outside (with_step s i ?x (put_block (lpool s) n ?b))) (st(n := Outside)) L" by simp
    have "list_ok (with_step s i ?x (put_block (lpool s) n ?b)) (st(n := Outside)) L"
      by (rule move [OF ok i n, where b = ?b and r = Outside and x = ?x and s' = "with_step s i ?x (put_block (lpool s) n ?b)" and L' = L])
        (use 2 rl st w in simp_all)
    then show ?thesis by (rule goes_onI [OF i run]) simp
  qed
qed

lemma drop_ref_steps:
  assumes ok: "list_ok s st L" and i: "i < length (listers s)" and few: "length (listers s) < 2 ^ 31 - 1" and c: "listers s ! i = DropRef n q"
  shows "goes_on s i"
proof -
  let ?bs = "blocks (lpool s)" and ?m = "refs_on (listers s) n" and ?v = "freeListRefs (blocks (lpool s) ! n)"
  have d: "duties_ok (length ?bs) (listers s) st" using ok by (simp add: list_ok_def)
  have r: "ref_on (listers s ! i) = Some n" using c by simp
  have n: "n < length ?bs" by (rule duties_ref [OF d i r])
  have kn: "valid (length ?bs) q" using ok i c by (auto simp: list_ok_def)
  have v: "refs_ok (st n) (unat ?v) ?m" using ok n by (simp add: list_ok_def)
  have pos: "0 < ?m" by (rule refs_on_pos [OF i r])
  have m: "?m < 2 ^ 31 - 1" using refs_on_le [of "listers s" n] few by simp
  have w: "unat (?v - 1) = unat ?v - 1" using fewer [of 1 ?v] refs_some [OF v pos] by simp
  have ag: "agent (st n) \<noteq> Some i" using duties_own [OF d n, of i] c by auto
  show ?thesis
  proof (cases "?v = SHOULD_BE_ON_FREELIST + 1")
    case True
    let ?x = "LoadHead (Some q) n"
    have run: "lister_step (listers s ! i) (lpool s) = Inr (?x, put_block (lpool s) n ((?bs ! n)\<lparr>freeListRefs := ?v - 1\<rparr>))"
      using c n True by (simp add: load_refs_ok store_refs_put)
    have "unat ?v = 2 ^ 31 + 1" using True should_one by blast
    moreover from this have "st n = Limbo \<and> ?m = 1" using limbo_alone [of "st n" ?m] v pos m by simp
    ultimately have "list_ok (with_step s i ?x (put_block (lpool s) n ((?bs ! n)\<lparr>freeListRefs := ?v - 1\<rparr>))) (st(n := Exclusive i)) L"
      by (intro refs_move [OF ok i n]) (use c w kn in \<open>simp_all add: valid_after_def\<close>)
    then show ?thesis by (rule goes_onI [OF i run]) simp
  next
    case False
    have run: "lister_step (listers s ! i) (lpool s) = Inr (GetRefs q, put_block (lpool s) n ((?bs ! n)\<lparr>freeListRefs := ?v - 1\<rparr>))"
      using c n False by (simp add: load_refs_ok store_refs_put)
    have "unat ?v \<noteq> 2 ^ 31 + 1" using False should_one by blast
    then have "refs_ok (st n) (unat (?v - 1)) (?m - 1)" unfolding w by (rule one_ref_less [OF v pos])
    then have "list_ok (with_step s i (GetRefs q) (put_block (lpool s) n ((?bs ! n)\<lparr>freeListRefs := ?v - 1\<rparr>))) (st(n := st n)) L"
      by (intro refs_move [OF ok i n]) (use c kn ag in simp_all)
    then show ?thesis by (rule goes_onI [OF i run]) simp
  qed
qed

lemma every_step:
  assumes ok: "list_ok s st L" and i: "i < length (listers s)" and few: "length (listers s) < 2 ^ 31 - 1"
  shows "goes_on s i"
proof (cases "listers s ! i")
  case Resting
  show ?thesis by (rule goes_quietly [OF ok i, of Resting]) (use Resting in simp_all)
next
  case (GotNode r)
  show ?thesis by (rule goes_quietly [OF ok i, of Resting]) (use GotNode in simp_all)
next
  case (LoadHead after n)
  have "knows (blocks (lpool s)) (listers s ! i)" using ok i by (simp add: list_ok_def)
  then show ?thesis by (intro goes_quietly [OF ok i, of "StoreNext after n (freeListHead (lpool s))"]) (use LoadHead in simp_all)
qed (use add_steps [OF ok i few] push_steps [OF ok i few] cas_steps [OF ok i few] head_steps [OF ok i few] take_ref_steps [OF ok i few]
    pop_steps [OF ok i few] taken_steps [OF ok i few] drop_ref_steps [OF ok i few] in blast)+

text \<open>The calls.\<close>

lemma call_get:
  assumes ok: "list_ok s st L" and i: "i < length (listers s)"
  shows "\<exists>s'. list_step s (CallGet i) = Inr s' \<and> list_ok s' st L \<and> length (listers s') = length (listers s) \<and>
    length (blocks (lpool s')) = length (blocks (lpool s))"
proof (cases "listers s ! i = Resting")
  case True
  have "list_ok (s\<lparr>listers := (listers s)[i := GetHead]\<rparr>) st L"
    by (rule quiet [OF ok i, where x = GetHead]) (use True in simp_all)
  then show ?thesis using i True by simp
qed (use ok i in simp)

lemma call_add:
  assumes ok: "list_ok s st L" and i: "i < length (listers s)"
  shows "\<exists>s' st'. list_step s (CallAdd i n) = Inr s' \<and> list_ok s' st' L \<and> length (listers s') = length (listers s) \<and>
    length (blocks (lpool s')) = length (blocks (lpool s))"
proof (cases "listers s ! i = Resting \<and> n \<in> set (outside s)")
  case False
  then show ?thesis using ok i by (intro exI [of _ s] exI [of _ st]) auto
next
  case True
  let ?s = "s\<lparr>listers := (listers s)[i := Add n], outside := remove1 n (outside s)\<rparr>" and ?bs = "blocks (lpool s)"
  have roles: "roles_ok ?bs (freeListHead (lpool s)) (outside s) st L" using ok by (simp add: list_ok_def)
  then have n: "n < length ?bs" and st: "st n = Outside" and dist: "distinct (outside s)" using True by (auto simp: roles_ok_def)
  have v: "unat (freeListRefs (?bs ! n)) = refs_on (listers s) n" using ok n st unfolding list_ok_def by (metis refs_ok.simps(2))
  have "set (remove1 n (outside s)) = set (outside s) - {n}" "distinct (remove1 n (outside s))" using dist by simp_all
  then have "roles_ok ?bs (freeListHead (lpool s)) (remove1 n (outside s)) (st(n := Wanted i)) L" using roles st by (auto simp: roles_ok_def)
  then have "list_ok ?s (st(n := Wanted i)) L"
    by (intro move [OF ok i n, where b = "?bs ! n" and r = "Wanted i" and x = "Add n" and s' = ?s and L' = L]) (use True st v in simp_all)
  then show ?thesis using i True by (intro exI [of _ ?s] exI [of _ "st(n := Wanted i)"]) simp
qed

section \<open>Runs\<close>

fun thread_of :: "list_event \<Rightarrow> nat" where
  "thread_of (CallAdd i n) = i"
| "thread_of (CallGet i) = i"
| "thread_of (Go i) = i"

lemma list_run_ok:
  "list_ok s st L \<Longrightarrow> length (listers s) < 2 ^ 31 - 1 \<Longrightarrow> \<forall>e \<in> set es. thread_of e < length (listers s) \<Longrightarrow>
    \<exists>s' st' L'. run_steps list_step s es = Inr s' \<and> list_ok s' st' L' \<and> length (blocks (lpool s')) = length (blocks (lpool s))"
proof (induction es arbitrary: s st L)
  case (Cons e es)
  have "\<exists>s' st' L'. list_step s e = Inr s' \<and> list_ok s' st' L' \<and> length (listers s') = length (listers s) \<and>
      length (blocks (lpool s')) = length (blocks (lpool s))"
  proof (cases e)
    case (CallAdd i n)
    then show ?thesis using call_add [OF Cons.prems(1), of i n] Cons.prems(3) by (metis list.set_intros(1) thread_of.simps(1))
  next
    case (CallGet i)
    then show ?thesis using call_get [OF Cons.prems(1), of i] Cons.prems(3) by (metis list.set_intros(1) thread_of.simps(2))
  next
    case (Go i)
    then show ?thesis using every_step [OF Cons.prems(1), of i] Cons.prems(2,3) by (auto simp: goes_on_def)
  qed
  then obtain s1 st1 L1 where one: "list_step s e = Inr s1" "list_ok s1 st1 L1" "length (listers s1) = length (listers s)"
    "length (blocks (lpool s1)) = length (blocks (lpool s))" by blast
  then obtain s' st' L' where "run_steps list_step s1 es = Inr s'" "list_ok s' st' L'" "length (blocks (lpool s')) = length (blocks (lpool s1))"
    using Cons.IH [of s1 st1 L1] Cons.prems(2,3) by auto
  then show ?case using one by auto
qed auto

definition listing_start :: "nat \<Rightarrow> 'a cq_pool \<Rightarrow> nat list \<Rightarrow> 'a listing" where
  "listing_start k p out = \<lparr>lpool = p, listers = replicate k Resting, outside = out\<rparr>"

definition settled :: "lister \<Rightarrow> bool" where
  "settled c \<longleftrightarrow> (case c of Resting \<Rightarrow> True | GotNode r \<Rightarrow> True | _ \<Rightarrow> False)"

lemma chain_path: "chain bs q ns \<longleftrightarrow> path bs q ns \<and> (\<forall>n \<in> set ns. freeListRefs (bs ! n) = 1)"
  by (induction bs q ns rule: chain.induct) auto

lemma settled_none: "settled c \<Longrightarrow> duty i c = None \<and> ref_on c = None"
  by (cases c) (auto simp: settled_def)

lemma listing_start_ok:
  assumes pool: "pool_ok p fl live" and out: "out = filter (\<lambda>n. n \<notin> set fl) [0..<length (blocks p)]"
  shows "list_ok (listing_start k p out) (\<lambda>n. if n \<in> set fl then OnList else Outside) fl"
proof -
  have chain: "chain (blocks p) (freeListHead p) fl" and dist: "distinct fl" using pool by (simp_all add: pool_ok_def)
  have bound: "set fl \<subseteq> {..<length (blocks p)}" by (rule chain_bound [OF chain])
  have none: "refs_on (replicate k Resting) n = 0" for n by (simp add: refs_on_def)
  have "\<forall>n < length (blocks p). refs_ok (if n \<in> set fl then OnList else Outside) (unat (freeListRefs (blocks p ! n))) 0"
    using pool chain by (auto simp: pool_ok_def chain_path)
  then show ?thesis
    using chain dist bound out none
    by (auto simp: list_ok_def listing_start_def roles_ok_def duties_ok_def chain_path)
qed

text \<open>When no thread is inside, what the theory of one thread assumes holds again.\<close>

lemma settled_list:
  assumes ok: "list_ok s st L" and rest: "\<forall>c \<in> set (listers s). settled c"
  shows "chain (blocks (lpool s)) (freeListHead (lpool s)) L" and "distinct L"
    and "\<forall>n < length (blocks (lpool s)). n \<in> set L \<longleftrightarrow> n \<notin> set (outside s)"
    and "\<forall>n \<in> set (outside s). freeListRefs (blocks (lpool s) ! n) = 0"
proof -
  have none: "duty i (listers s ! i) = None" "ref_on (listers s ! i) = None" if "i < length (listers s)" for i
    using settled_none rest that nth_mem by blast+
  have zero: "refs_on (listers s) n = 0" for n using none(2) unfolding refs_on_def by auto
  have d: "duties_ok (length (blocks (lpool s))) (listers s) st" and roles: "roles_ok (blocks (lpool s)) (freeListHead (lpool s)) (outside s) st L"
    using ok by (simp_all add: list_ok_def)
  have refs: "refs_ok (st n) (unat (freeListRefs (blocks (lpool s) ! n))) 0" if "n < length (blocks (lpool s))" for n
    using ok that zero by (simp add: list_ok_def)
  have st: "st n = OnList \<or> st n = Outside" if n: "n < length (blocks (lpool s))" for n
  proof -
    have "agent (st n) = None" using duties_own [OF d n] none(1) by (metis option.distinct(1) option.exhaust)
    then show ?thesis using refs [OF n] by (cases "st n") auto
  qed
  have "freeListRefs (blocks (lpool s) ! n) = 1" if "n \<in> set L" for n
  proof -
    have "n < length (blocks (lpool s))" "st n = OnList" using roles that by (auto simp: roles_ok_def)
    then show ?thesis using refs [of n] by (simp add: word_unat_eq_iff)
  qed
  then show "chain (blocks (lpool s)) (freeListHead (lpool s)) L" using roles by (simp add: chain_path roles_ok_def)
  show "distinct L" using roles by (simp add: roles_ok_def)
  show "\<forall>n < length (blocks (lpool s)). n \<in> set L \<longleftrightarrow> n \<notin> set (outside s)"
    using roles st by (auto simp: roles_ok_def)
  show "\<forall>n \<in> set (outside s). freeListRefs (blocks (lpool s) ! n) = 0"
  proof
    fix n assume "n \<in> set (outside s)"
    then have "n < length (blocks (lpool s))" "st n = Outside" using roles by (auto simp: roles_ok_def)
    then show "freeListRefs (blocks (lpool s) ! n) = 0" using refs [of n] by (simp add: unat_eq_0)
  qed
qed

text \<open>
  Property C16. Whatever way the steps of fewer than 2 147 483 647 threads that take blocks from the free list and give theirs back interleave, no assertion
  fails, no block is given to two callers, and when every call has returned the list holds exactly the blocks that no caller has, each with one
  reference: none is lost and none is on it twice.
\<close>

theorem free_list_shared:
  assumes "pool_ok p fl live" and "out = filter (\<lambda>n. n \<notin> set fl) [0..<length (blocks p)]"
    and "k < 2 ^ 31 - 1" and "\<forall>e \<in> set es. thread_of e < k"
  shows "\<exists>s. run_steps list_step (listing_start k p out) es = Inr s \<and> distinct (outside s) \<and> length (blocks (lpool s)) = length (blocks p) \<and>
    ((\<forall>c \<in> set (listers s). settled c) \<longrightarrow> (\<exists>fl'. chain (blocks (lpool s)) (freeListHead (lpool s)) fl' \<and> distinct fl' \<and>
      (\<forall>n < length (blocks p). n \<in> set fl' \<longleftrightarrow> n \<notin> set (outside s)) \<and> (\<forall>n \<in> set (outside s). freeListRefs (blocks (lpool s) ! n) = 0)))"
proof -
  obtain s st L where run: "run_steps list_step (listing_start k p out) es = Inr s" and ok: "list_ok s st L"
    and len: "length (blocks (lpool s)) = length (blocks p)"
    using list_run_ok [OF listing_start_ok [OF assms(1,2), of k], of es] assms(3,4) by (auto simp: listing_start_def)
  have "distinct (outside s)" using ok by (simp add: list_ok_def roles_ok_def)
  then show ?thesis using run len settled_list [OF ok] by auto
qed

text \<open>A pool of one block, and two threads: both take a reference to the block, one gets it.\<close>

definition one_block_pool :: "char cq_pool" where
  "one_block_pool = \<lparr>blocks = [block_new\<lparr>freeListRefs := 1, dynamicallyAllocated := True\<rparr>], freeListHead = Some 0, initialBlockPoolIndex = 0,
    initialBlockPoolSize = 0, mallocs = 0\<rparr>"

theorem free_list_shared_witness:
  "\<exists>s. run_steps list_step (listing_start 2 one_block_pool []) [CallGet 0, CallGet 1, Go 0, Go 1, Go 0, Go 0, Go 1, Go 0] = Inr s \<and>
    distinct (outside s) \<and> length (blocks (lpool s)) = length (blocks one_block_pool) \<and>
    ((\<forall>c \<in> set (listers s). settled c) \<longrightarrow> (\<exists>fl'. chain (blocks (lpool s)) (freeListHead (lpool s)) fl' \<and> distinct fl' \<and>
      (\<forall>n < length (blocks one_block_pool). n \<in> set fl' \<longleftrightarrow> n \<notin> set (outside s)) \<and>
      (\<forall>n \<in> set (outside s). freeListRefs (blocks (lpool s) ! n) = 0)))"
proof (rule free_list_shared)
  show "pool_ok one_block_pool [0] {}" by (simp add: pool_ok_def one_block_pool_def block_new_def lessThan_Suc)
  show "[] = filter (\<lambda>n. n \<notin> set [0]) [0..<length (blocks one_block_pool)]" by (simp add: one_block_pool_def)
qed simp_all

text \<open>
  A block given back while another thread has a reference to it: the thread that drops it puts it on the list, and then finds
  nothing, as it looks at the head that it read before.
\<close>

lemma late_reference:
  "case run_steps list_step (listing_start 2 one_block_pool [])
      ([CallGet 1, Go 1, Go 1, Go 1, Go 1, CallGet 0] @ replicate 8 (Go 0) @ [CallAdd 0 0, Go 0] @ replicate 7 (Go 1)) of
    Inl _ \<Rightarrow> False
  | Inr s \<Rightarrow> listers s = [Resting, GotNode None] \<and> freeListHead (lpool s) = Some 0 \<and> outside s = []"
  by code_simp

end
