(* ===== verification/Spec2Isabelle.thy ===== *)
theory Spec2Isabelle
  imports Http_Limits Http_Web Clock Logger Event_Queue Server_Behaviour Server_Defects Call_Session Event_Handler Server_Start Worker_Loop Conn_Handle User_Ctx Util_Api Http_Access Http_Client Client_Api Cq_Destroy Cq_Shared_Runs Cq_Free_List
begin

text \<open>
  A verification library for grpc-mtk, a toolkit that puts a message-based client and server on top of gRPC's
  asynchronous interface, with a small HTTP server and client beside it. The implementation is C++ under
  \<open>src/src\<close>; its C interface is \<open>mtk.h\<close>.

  \<^bold>\<open>The program.\<close> A client (\<open>RPCStream\<close>) opens one bidirectional stream to a server and sends requests that carry
  a message number; replies with the same number answer them, replies without one are notifications. Its thread
  for input and output (\<open>IOThread\<close>) hands requests to gRPC one at a time and gives replies back through a queue
  that the application's thread empties in \<open>mtk_conn_poll\<close>. The server (\<open>IServer\<close>, \<open>Server\<close>) runs workers
  (\<open>Worker\<close>), each with a completion queue of gRPC; each stream of a client is a \<open>Conn\<close> of one worker with an
  \<open>SVStream\<close> that other threads may hold and send to. The first request of a stream is a login, which the
  application's handler grants, denies or defers; a granted connection is found by its id. The HTTP server feeds
  the bytes of a connection to an incremental parser (\<open>HttpFSM\<close>) and calls the handler of the path. A logger,
  a clock and queues serve all of them.

  \<^bold>\<open>Conventions.\<close> Theory \<open>Prelude\<close>: C++ integers are words of their width; the dereference of null, the use of a
  deleted object, a read past a block, and an exception nobody catches are faults, \<open>Inl\<close> of a sum. A class is a
  record with its members, a member function is a definition of the same name that takes and returns the record,
  an \<open>enum\<close> is a datatype with the sources' constructors and numbers. The program's containers are behind
  interfaces: locale \<open>fifo\<close> (queues), \<open>registry\<close> (maps by key), \<open>machine\<close> and \<open>safe_machine\<close> (a step function and what
  its steps keep, lifted to runs), \<open>thread_queue\<close> (what users of a queue between threads rely on), each interpreted on the model's definitions.

  \<^bold>\<open>HTTP.\<close> \<open>Http_Text\<close>: blocks of memory, the functions of the C library, the readers of numbers. \<open>Http_FSM\<close>: the
  parser, state by state, over the bytes of its receive buffer (\<open>HttpFSM\<close> in \<open>http.h\<close>, \<open>http.cpp\<close>). \<open>Http_Receive\<close>
  (the buffer through a step), \<open>Http_Request\<close> (header sections; header look-up refines a look-up on lines),
  \<open>Http_Body\<close> (round trips: what a message with a length or in chunks is parsed to), \<open>Http_Limits\<close> (independence of how
  the input is cut into slices, and the edges: buffer growth, empty bodies, chunk extensions). \<open>Http_Server\<close>:
  \<open>HttpServContext\<close> and \<open>HttpRouter\<close>, reading, answering and the round trip through the parser. \<open>Http_Web\<close>: listeners and
  the life cycle of \<open>HttpServer\<close>. \<open>Http_Client\<close>: \<open>HttpClient\<close> and its pollset. \<open>Http_Access\<close>: what a handler reads
  of a request through \<open>mtk.cpp\<close>.

  \<^bold>\<open>Server.\<close> \<open>Messages\<close>: the messages of \<open>mtk.proto\<close> and the error codes. \<open>Sv_Stream\<close>: \<open>SVStream\<close>; replies
  are written one at a time and in order. \<open>Server_World\<close>: \<open>Conn\<close>, the registries of \<open>IServer\<close>, a worker's round and
  the interface of \<open>mtk.cpp\<close>, over one state of all objects, with gRPC as the operations in progress; an event
  is a completion, a worker's round or a call from another thread. \<open>Server_Safety\<close>, \<open>Server_Events\<close> and
  \<open>Server_Runs\<close>: the invariant (references counted exactly, at most one operation per connection, sound registries)
  and its preservation, so that no deleted object is used. \<open>Server_Fuel\<close>: events end, and the fuel that is
  enough for a sequence of them is linear in its length. \<open>Server_Behaviour\<close>: logins granted, denied and
  deferred, ids, tasks. \<open>Server_Defects\<close>: runs outside the hypotheses of those theorems. \<open>Worker_Loop\<close>: \<open>Worker::Run\<close>
  refines the events. \<open>Conn_Handle\<close>: handles of other threads, closers, small members. \<open>User_Ctx\<close>: the user
  context of a stream in the two builds. \<open>Event_Handler\<close>: the handlers between a connection and the application.
  \<open>Server_Start\<close>: credentials, \<open>Kick\<close>, the handshake with the starting thread (a step relation), shutdown and join.

  \<^bold>\<open>Client.\<close> \<open>Rpc_Client\<close>: \<open>RPCStream\<close> and \<open>Client\<close> on the application's thread. \<open>Rpc_IO\<close>: \<open>IOThread\<close>, tags, and a
  client with its thread as a machine of events. \<open>Rpc_Steps\<close>: a step relation of which every operation is made.
  \<open>Rpc_Calls\<close>: invariants by induction on it (every callback accounted for, distinct ids, phases of the
  connection). \<open>Rpc_Wire\<close>: the order of requests on the stream. \<open>Rpc_Behaviour\<close>: replies, timeouts, the wait before a
  reconnection. \<open>Rpc_Returns\<close>: the poll ends. \<open>Rpc_Login\<close>: a login from start to end. \<open>Client_Api\<close>: closures,
  configuration, closing.

  \<^bold>\<open>Both ends.\<close> \<open>Login_Protocol\<close>: the login of a client at a connection of the server. \<open>Call_Client\<close>: which calls a connected
  client made, which of them were answered, which wait. \<open>Call_Session\<close>: a client and its connection as one system (\<open>link_step\<close>), with
  gRPC as two channels that keep the order; whatever interleaves, the answers are the right ones. The requests in the client's queue,
  written, read by the server, answered, written back and handled are initial parts of one list of calls: this is the invariant.

  \<^bold>\<open>Utilities.\<close> \<open>Clock\<close> (\<open>timespec.h\<close>, \<open>timespec.cpp\<close>), \<open>Logger\<close> (\<open>logger.h\<close>, \<open>logger.cpp\<close>), \<open>Util_Api\<close> (the logger's other builds,
  time and slices in \<open>mtk.cpp\<close>), \<open>Event_Queue\<close> (\<open>mtk_queue_*\<close>, slices).

  \<^bold>\<open>Queue between threads.\<close> \<open>moodycamel::ConcurrentQueue\<close> of \<open>src/ext\<close>, as the program uses it: \<open>enqueue\<close> and \<open>try_dequeue\<close> without
  tokens, on the default traits. \<open>Cq_Words\<close>: indices of 64 bits that wrap around. \<open>Cq_Pool\<close>: blocks, the initial pool and the free
  list, and who holds a block. \<open>Cq_Index\<close>: the ring of entries by which a producer finds its blocks, refined to a list that is used at one end
  and extended at the other. \<open>Cq_Producer\<close>: \<open>ImplicitProducer\<close>, refined to the list of its elements. \<open>Cq_Hash\<close>: the tables from threads to
  producers, refined to a map. \<open>Concurrent_Queue\<close>: the operations of the queue and their invariant. \<open>Cq_Contract\<close>: what users may
  rely on, as locale \<open>thread_queue\<close>, and what follows for their runs; \<open>Cq_Order\<close> and \<open>Cq_Runs\<close>: the queue provides it. Each
  thread's elements come in order, but no order between threads is kept; for one thread the queue is the list that the other theories use, for
  several that list with elements that arrive late. \<open>Cq_Destroy\<close>: nothing is lost or freed twice.
  In these theories an operation is one step. Others take operations apart into single accesses to memory, in any interleaving,
  and show that one thread's steps without interruption are the operations of the theories above: \<open>Cq_Tickets\<close> the counters of
  \<open>dequeue\<close>; \<open>Cq_Sharing\<close> the whole of \<open>enqueue\<close> and \<open>dequeue\<close> on one producer, with its invariant of cells and blocks in
  \<open>Cq_Shared_Memory\<close>, the consumers' steps in \<open>Cq_Shared\<close>, the thread's steps and the runs in \<open>Cq_Shared_Runs\<close>; \<open>Cq_Free_List\<close> the free list.

  \<^bold>\<open>Bounds and fuel.\<close> \<open>ConsumeTask\<close>, \<open>Finish\<close> and \<open>Destroy\<close> call each other, and a handler may feed them, so the server's
  operations take fuel; \<open>Server_Fuel\<close> shows how much is enough for handlers that do not add tasks to themselves, and
  \<open>Server_Defects\<close> that none is enough for others. On the client the depth of callbacks that call again at once is
  fuel in the same way (\<open>Rpc_Returns\<close>). The loops of the threads take the answers of what they wait for as a list.
  Loops of the parser and of the clock are functions with a measure. Runs of the queue are shorter than \<open>2 ^ 60\<close> operations,
  so that no list is as long as half the range of its counters; the counters themselves may wrap around. Runs of single
  steps start from a new producer and are shorter than \<open>2 ^ 62\<close>.

  \<^bold>\<open>Parameters.\<close> What is not code of the repository is an argument: the application's handlers and callbacks, the
  encoding of Protocol Buffers, the formatting of the log, the clock, \<open>rand\<close>, results of \<open>nanosleep\<close>, the contents of
  files, allocation. Every theorem that needs something of them says so in a hypothesis, and its witness
  supplies concrete functions.

  \<^bold>\<open>What is simplified.\<close> An operation of one thread is atomic with respect to the others, except where a theory
  says otherwise (\<open>Conn_Handle\<close> on look-ups, \<open>Server_Start\<close> on the handshake, \<open>Cq_Tickets\<close>, \<open>Cq_Sharing\<close> and \<open>Cq_Free_List\<close>). In the theories of
  the server and the client a queue between threads is a list, first in, first out; the real queue does not
  keep the order between threads, and behaves, as theorem \<open>late_arrivals\<close> of \<open>Cq_Runs\<close> shows, as such a list to which elements may
  arrive later than they were put in. Memory is sequentially consistent. Floating point of the reconnection wait is
  exact. The build is the release build, in which \<open>ASSERT\<close> is empty.

  \<^bold>\<open>Not modelled.\<close> Of the queue's header: tokens and explicit producers, bulk operations, moving and swapping a queue, the
  notice of ending threads, which the program's build does not use; of its directory, \<open>readerwriterqueue.h\<close> and \<open>atomicops.h\<close>,
  which nothing includes. \<open>certs.cpp\<close> is the text of certificates. Generated code (\<open>mtk.pb.cc\<close>), the C-sharp bindings, and
  the test programs are outside the implementation this library is about.
\<close>

end
